(* ===== verification/Muscle_Prelude.thy ===== *)
theory Muscle_Prelude
  imports Main "HOL-Library.Word"
begin

unbundle bit_operations_syntax

text \<open>
  Shared vocabulary of the development: the machine integers of
  \<^verbatim>\<open>support/MuscleSupport.h\<close>, status codes, the outcome type of a C function that may
  run into undefined behaviour, the byte-order macros, C strings, and the generic lemmas
  on lists and words that the components use.
\<close>

section \<open>Types\<close>

type_synonym u8 = "8 word"
type_synonym u32 = "32 word"
type_synonym bytes = "u8 list"

text \<open>\<open>status_t\<close>: the two values the library returns.\<close>

datatype status = B_NO_ERROR | B_ERROR

text \<open>
  The outcome of running a piece of C: a value; \<open>Fault\<close>, when the code reads or writes
  outside the memory it owns, follows an uninitialised or freed pointer or confuses the type
  of a data area; or \<open>NoFuel\<close>, when a loop without a bound of its own has used up the
  number of rounds it was given.
\<close>

datatype 'a run = Ret 'a | Fault | NoFuel

fun bind_run :: "'a run \<Rightarrow> ('a \<Rightarrow> 'b run) \<Rightarrow> 'b run" where
  "bind_run (Ret x) f = f x"
| "bind_run Fault f = Fault"
| "bind_run NoFuel f = NoFuel"

named_theorems run_simps "inversion of outcomes"

lemma bind_run_cong [fundef_cong]:
  "m = m' \<Longrightarrow> (\<And>x. m' = Ret x \<Longrightarrow> f x = g x) \<Longrightarrow> bind_run m f = bind_run m' g"
  by (cases m') auto

lemma bind_run_eq_Ret [run_simps]:
  "bind_run m f = Ret y \<longleftrightarrow> (\<exists>x. m = Ret x \<and> f x = Ret y)"
  by (cases m) auto

lemma bind_run_Ret_right [simp]: "bind_run m Ret = m"
  by (cases m) auto

lemma bind_run_assoc: "bind_run (bind_run m f) g = bind_run m (\<lambda>x. bind_run (f x) g)"
  by (cases m) auto

text \<open>\<open>guard c\<close> stands for an access that is within bounds exactly if \<open>c\<close>.\<close>

definition guard :: "bool \<Rightarrow> unit run" where
  "guard c = (if c then Ret () else Fault)"

lemma guard_simps [simp]: "guard True = Ret ()" "guard False = Fault"
  by (simp_all add: guard_def)

lemma guard_eq_Ret [run_simps]: "guard c = Ret u \<longleftrightarrow> c"
  by (auto simp: guard_def)

text \<open>The default value \<open>T()\<close> of an integer type is 0.\<close>

instantiation word :: (len) default
begin

definition default_word :: "'a word" where "default_word = 0"

instance ..

end

section \<open>Byte order\<close>

text \<open>
  \<open>le_bytes\<close> and \<open>le_val\<close> are a 32-bit value as four bytes, least significant
  first. The parameter \<open>be\<close> of the definitions below is the host's byte order
  (\<open>BYTE_ORDER == BIG_ENDIAN\<close>): \<open>store_u32 be\<close> and \<open>load_u32 be\<close> are what a
  \<open>memcpy\<close> from and to a \<open>uint32\<close> variable of such a host does.
\<close>

definition le_bytes :: "u32 \<Rightarrow> bytes" where
  "le_bytes w = [ucast w, ucast (drop_bit 8 w), ucast (drop_bit 16 w), ucast (drop_bit 24 w)]"

fun le_val :: "bytes \<Rightarrow> u32" where
  "le_val [] = 0"
| "le_val (b # bs) = ucast b OR push_bit 8 (le_val bs)"

definition store_u32 :: "bool \<Rightarrow> u32 \<Rightarrow> bytes" where
  "store_u32 be w = (if be then rev (le_bytes w) else le_bytes w)"

definition load_u32 :: "bool \<Rightarrow> bytes \<Rightarrow> u32" where
  "load_u32 be bs = (if be then le_val (rev bs) else le_val bs)"

text \<open>\<open>muscleSwapBytes\<close>: the bytes of a variable are written back in reverse order.\<close>

definition muscleSwapBytes :: "u32 \<Rightarrow> u32" where
  "muscleSwapBytes w = le_val (rev (le_bytes w))"

definition B_HOST_TO_LENDIAN_INT32 :: "bool \<Rightarrow> u32 \<Rightarrow> u32" where
  "B_HOST_TO_LENDIAN_INT32 be w = (if be then muscleSwapBytes w else w)"

definition B_LENDIAN_TO_HOST_INT32 :: "bool \<Rightarrow> u32 \<Rightarrow> u32" where
  "B_LENDIAN_TO_HOST_INT32 be w = (if be then muscleSwapBytes w else w)"

lemma length_le_bytes [simp]: "length (le_bytes w) = 4"
  by (simp add: le_bytes_def)

lemma length_store_u32 [simp]: "length (store_u32 be w) = 4"
  by (simp add: store_u32_def)

lemma le_val_le_bytes [simp]: "le_val (le_bytes w) = w"
proof (rule bit_word_eqI)
  fix n assume "n < LENGTH(32)"
  then have n: "n < 32" by simp
  show "bit (le_val (le_bytes w)) n = bit w n"
    using n by (cases "n < 8"; cases "n < 16"; cases "n < 24") (auto simp: le_bytes_def bit_simps)
qed

lemma le_bytes_le_val:
  assumes "length bs = 4"
  shows "le_bytes (le_val bs) = bs"
proof -
  obtain a b c d where bs: "bs = [a, b, c, d]"
    using assms by (auto simp: length_Suc_conv numeral_eq_Suc)
  show ?thesis
    unfolding bs le_bytes_def
    by (simp, intro conjI; rule bit_word_eqI; auto simp: bit_simps dest: bit_imp_le_length)
qed

lemma le_bytes_inject [simp]: "le_bytes v = le_bytes w \<longleftrightarrow> v = w"
  by (metis le_val_le_bytes)

text \<open>Whatever the host, a value stored through the macros is little-endian in memory.\<close>

lemma store_lendian [simp]: "store_u32 be (B_HOST_TO_LENDIAN_INT32 be w) = le_bytes w"
  by (simp add: store_u32_def B_HOST_TO_LENDIAN_INT32_def muscleSwapBytes_def le_bytes_le_val)

lemma load_lendian [simp]:
  "length bs = 4 \<Longrightarrow> B_LENDIAN_TO_HOST_INT32 be (load_u32 be bs) = le_val bs"
  by (simp add: load_u32_def B_LENDIAN_TO_HOST_INT32_def muscleSwapBytes_def le_bytes_le_val)

section \<open>C strings\<close>

text \<open>
  A \<open>const char *\<close> is the list of the bytes readable from it. \<open>strlen_c\<close> and
  \<open>streq_c\<close> (\<open>strcmp(a, b) == 0\<close>) fault when they run past the readable memory;
  \<open>cstr\<close> is the string proper, up to the terminator.
\<close>

definition cstr :: "bytes \<Rightarrow> bytes" where
  "cstr p = takeWhile (\<lambda>b. b \<noteq> 0) p"

definition strlen_c :: "bytes \<Rightarrow> nat run" where
  "strlen_c p = (if 0 \<in> set p then Ret (length (cstr p)) else Fault)"

fun streq_c :: "bytes \<Rightarrow> bytes \<Rightarrow> bool run" where
  "streq_c (a # as) (b # bs) =
     (if a \<noteq> b then Ret False else if a = 0 then Ret True else streq_c as bs)"
| "streq_c _ _ = Fault"

lemma cstr_simps [simp]:
  "cstr [] = []" "cstr (b # bs) = (if b = 0 then [] else b # cstr bs)"
  by (simp_all add: cstr_def)

lemma streq_c_terminated:
  "0 \<in> set p \<Longrightarrow> 0 \<in> set q \<Longrightarrow> streq_c p q = Ret (cstr p = cstr q)"
  by (induction p q rule: streq_c.induct) auto

lemma cstr_append_nul: "0 \<notin> set s \<Longrightarrow> cstr (s @ 0 # r) = s"
  by (induction s) auto

lemma cstr_append_terminated: "0 \<in> set p \<Longrightarrow> cstr (p @ q) = cstr p"
  by (induction p) auto

lemma nul_not_in_cstr: "0 \<notin> set (cstr p)"
  by (induction p) auto

lemma length_cstr_less: "0 \<in> set p \<Longrightarrow> length (cstr p) < length p"
  by (induction p) auto

lemma cstr_take: "0 \<in> set p \<Longrightarrow> take (Suc (length (cstr p))) p = cstr p @ [0]"
  by (induction p) auto

section \<open>Lists and words\<close>

definition remove_nth :: "nat \<Rightarrow> 'a list \<Rightarrow> 'a list" where
  "remove_nth i xs = take i xs @ drop (Suc i) xs"

lemma remove_nth_append: "remove_nth (length xs) (xs @ a # ys) = xs @ ys"
  by (simp add: remove_nth_def)

lemma length_remove_nth: "i < length xs \<Longrightarrow> length (remove_nth i xs) = length xs - 1"
  by (simp add: remove_nth_def)

lemma set_remove_nth_subset: "set (remove_nth i xs) \<subseteq> set xs"
  by (auto simp: remove_nth_def dest: in_set_takeD in_set_dropD)

lemma unat_add_small:
  "unat a + unat b < 2 ^ 32 \<Longrightarrow> unat ((a :: u32) + b) = unat a + unat b"
  by (simp add: unat_word_ariths)

lemma unat_less_u32: "unat (w :: u32) < 2 ^ 32"
  using unsigned_less [where 'a = nat, of w] by simp

lemma unat_mult_small:
  "unat a * unat b < 2 ^ 32 \<Longrightarrow> unat ((a :: u32) * b) = unat a * unat b"
  by (simp add: unat_word_ariths)

lemma unat_of_nat_u32: "n < 2 ^ 32 \<Longrightarrow> unat (of_nat n :: u32) = n"
  by (simp add: unat_of_nat)

lemma of_nat_add_u32: "(of_nat m :: u32) + of_nat n = of_nat (m + n)"
  by simp

end
