(* ===== verification/Mini_Types.thy ===== *)
theory Mini_Types
  imports Muscle_Prelude
begin

text \<open>
  The data of the MiniMessage library (\<^verbatim>\<open>minimessage/MiniMessage.c\<close>,
  \<^verbatim>\<open>MiniMessage.h\<close>): type codes, byte buffers, fields and messages, the environment the
  library runs in, and the allocation of buffers and fields. A message owns its fields and
  a field owns its items, so a message is a tree; the doubly linked list that strings the
  fields of one message together is the subject of theory \<open>Mini_Store\<close>.
\<close>

section \<open>Type codes\<close>

definition B_ANY_TYPE :: u32 where "B_ANY_TYPE = 1095653716"
definition B_BOOL_TYPE :: u32 where "B_BOOL_TYPE = 1112493900"
definition B_DOUBLE_TYPE :: u32 where "B_DOUBLE_TYPE = 1145195589"
definition B_FLOAT_TYPE :: u32 where "B_FLOAT_TYPE = 1179406164"
definition B_INT64_TYPE :: u32 where "B_INT64_TYPE = 1280069191"
definition B_INT32_TYPE :: u32 where "B_INT32_TYPE = 1280265799"
definition B_INT16_TYPE :: u32 where "B_INT16_TYPE = 1397248596"
definition B_INT8_TYPE :: u32 where "B_INT8_TYPE = 1113150533"
definition B_MESSAGE_TYPE :: u32 where "B_MESSAGE_TYPE = 1297303367"
definition B_POINTER_TYPE :: u32 where "B_POINTER_TYPE = 1347310674"
definition B_POINT_TYPE :: u32 where "B_POINT_TYPE = 1112559188"
definition B_RECT_TYPE :: u32 where "B_RECT_TYPE = 1380270932"
definition B_STRING_TYPE :: u32 where "B_STRING_TYPE = 1129534546"

lemmas type_code_defs = B_ANY_TYPE_def B_BOOL_TYPE_def B_DOUBLE_TYPE_def B_FLOAT_TYPE_def
  B_INT64_TYPE_def B_INT32_TYPE_def B_INT16_TYPE_def B_INT8_TYPE_def B_MESSAGE_TYPE_def
  B_POINTER_TYPE_def B_POINT_TYPE_def B_RECT_TYPE_def B_STRING_TYPE_def

text \<open>\<open>IsTypeCodeVariableSize\<close>: the switch over the type codes with items of one size.\<close>

definition IsTypeCodeVariableSize :: "u32 \<Rightarrow> bool" where
  "IsTypeCodeVariableSize tc =
     (if tc = B_BOOL_TYPE \<or> tc = B_DOUBLE_TYPE \<or> tc = B_FLOAT_TYPE \<or> tc = B_INT64_TYPE \<or>
         tc = B_INT32_TYPE \<or> tc = B_INT16_TYPE \<or> tc = B_INT8_TYPE \<or>
         tc = B_POINTER_TYPE \<or> tc = B_POINT_TYPE \<or> tc = B_RECT_TYPE
      then False else True)"

lemma IsTypeCodeVariableSize_simps [simp]:
  "IsTypeCodeVariableSize B_MESSAGE_TYPE" "IsTypeCodeVariableSize B_STRING_TYPE"
  "\<not> IsTypeCodeVariableSize B_POINTER_TYPE" "\<not> IsTypeCodeVariableSize B_INT32_TYPE"
  "\<not> IsTypeCodeVariableSize B_BOOL_TYPE" "\<not> IsTypeCodeVariableSize B_POINT_TYPE"
  by (simp_all add: IsTypeCodeVariableSize_def type_code_defs)

lemma type_codes_distinct [simp]:
  "B_INT32_TYPE \<noteq> B_POINTER_TYPE" "B_INT32_TYPE \<noteq> B_STRING_TYPE" "B_INT32_TYPE \<noteq> B_MESSAGE_TYPE"
  "B_STRING_TYPE \<noteq> B_MESSAGE_TYPE" "B_STRING_TYPE \<noteq> B_POINTER_TYPE" "B_STRING_TYPE \<noteq> B_INT32_TYPE"
  "B_MESSAGE_TYPE \<noteq> B_POINTER_TYPE" "B_POINTER_TYPE \<noteq> B_ANY_TYPE" "B_MESSAGE_TYPE \<noteq> B_INT32_TYPE"
  by (simp_all add: type_code_defs)

section \<open>Messages, fields and their data areas\<close>

text \<open>
  \<open>struct _MMessageField\<close> and \<open>struct _MMessage\<close>. \<open>f_name\<close> holds the \<open>nameBytes\<close>
  bytes of the name, the terminator included. The data area is a block of raw bytes in the
  host's byte order (\<open>isFixedSize\<close> true) or an array of owned pointers, each possibly
  \<open>NULL\<close>, to byte buffers or to messages (\<open>isFixedSize\<close> false).
\<close>

datatype mdata =
    Flat bytes
  | Bufs "bytes option list"
  | Msgs "mmessage option list"
and mfield =
    MField (f_name: bytes) (f_typeCode: u32) (f_itemSize: u32) (f_numItems: u32)
      (f_data: mdata) (f_isFlattenable: bool)
and mmessage =
    MMessage (m_what: u32) (m_fields: "mfield list")

definition m_numFields :: "mmessage \<Rightarrow> u32" where
  "m_numFields m = of_nat (length (m_fields m))"

text \<open>
  The environment, for the LP64 data model (\<open>size_t\<close> and pointers of 64 bits, \<open>uint32\<close>
  of 32): whether the host is big-endian; whether the \<open>k\<close>-th request to \<open>malloc\<close>, for
  \<open>n\<close> bytes, succeeds; and what uninitialised memory holds. Operations that allocate
  take the number of requests made so far and return the new one.
\<close>

record env =
  e_big :: bool
  e_malloc :: "nat \<Rightarrow> nat \<Rightarrow> bool"
  e_junk :: "nat \<Rightarrow> u8"

text \<open>An environment in which memory never runs out.\<close>

definition no_oom :: "env \<Rightarrow> bool" where
  "no_oom E \<longleftrightarrow> (\<forall>k n. e_malloc E k n)"

lemma no_oomD [simp]: "no_oom E \<Longrightarrow> e_malloc E k n"
  by (simp add: no_oom_def)

definition sizeof_MMessageField :: nat where "sizeof_MMessageField = 64"
definition sizeof_MMessage :: nat where "sizeof_MMessage = 32"
definition sizeof_MByteBuffer :: nat where "sizeof_MByteBuffer = 8"
definition sizeof_pointer :: nat where "sizeof_pointer = 8"

lemmas sizeof_defs = sizeof_MMessageField_def sizeof_MMessage_def sizeof_MByteBuffer_def
  sizeof_pointer_def

section \<open>Byte buffers\<close>

text \<open>\<open>memcpy\<close> into a block, and its behaviour on whole blocks.\<close>

definition memcpy_at :: "nat \<Rightarrow> bytes \<Rightarrow> bytes \<Rightarrow> bytes" where
  "memcpy_at off src dst = take off dst @ src @ drop (off + length src) dst"

lemma length_memcpy_at [simp]:
  "off + length src \<le> length dst \<Longrightarrow> length (memcpy_at off src dst) = length dst"
  by (simp add: memcpy_at_def)

lemma memcpy_at_whole: "length src = length dst \<Longrightarrow> memcpy_at 0 src dst = src"
  by (simp add: memcpy_at_def)

lemma memcpy_at_append:
  assumes "off + length s + length t \<le> length dst"
  shows "memcpy_at (off + length s) t (memcpy_at off s dst) = memcpy_at off (s @ t) dst"
  using assms by (simp add: memcpy_at_def ac_simps)

text \<open>A \<open>memcpy\<close> of \<open>n\<close> bytes between two blocks, both of which must have them.\<close>

definition memcpy_run :: "nat \<Rightarrow> bytes \<Rightarrow> bytes \<Rightarrow> bytes run" where
  "memcpy_run n src dst =
     bind_run (guard (n \<le> length src \<and> n \<le> length dst)) (\<lambda>_. Ret (memcpy_at 0 (take n src) dst))"

definition MBAllocByteBuffer :: "env \<Rightarrow> u32 \<Rightarrow> bool \<Rightarrow> nat \<Rightarrow> bytes option \<times> nat" where
  "MBAllocByteBuffer E numBytes clearBytes k =
     (if e_malloc E k (sizeof_MByteBuffer + unat numBytes - 1)
      then (Some (if clearBytes then replicate (unat numBytes) 0
                  else map (e_junk E) [0..<unat numBytes]), Suc k)
      else (None, Suc k))"

text \<open>
  \<open>slen\<close> is an \<open>int\<close>; \<open>memcpy\<close> takes it as a \<open>size_t\<close>, so that a negative length leaves the
  block.
\<close>

definition MBStrdupByteBuffer :: "env \<Rightarrow> bytes \<Rightarrow> nat \<Rightarrow> (bytes option \<times> nat) run" where
  "MBStrdupByteBuffer E sourceString k =
     bind_run (strlen_c sourceString) (\<lambda>l.
       let slen = of_nat (l + 1) :: u32; (mbb, k') = MBAllocByteBuffer E slen False k
       in case mbb of
            None \<Rightarrow> Ret (None, k')
          | Some b \<Rightarrow> bind_run (guard (0 \<le> sint slen))
              (\<lambda>_. Ret (Some (memcpy_at 0 (take (unat slen) sourceString) b), k')))"

definition MBCloneByteBuffer :: "env \<Rightarrow> bytes \<Rightarrow> nat \<Rightarrow> bytes option \<times> nat" where
  "MBCloneByteBuffer E cloneMe k =
     (let (mbb, k') = MBAllocByteBuffer E (of_nat (length cloneMe)) False k
      in (case mbb of None \<Rightarrow> None | Some b \<Rightarrow> Some (memcpy_at 0 (take (length b) cloneMe) b), k'))"

definition MBAreByteBuffersEqual :: "bytes \<Rightarrow> bytes \<Rightarrow> bool" where
  "MBAreByteBuffersEqual buf1 buf2 = (length buf1 = length buf2 \<and> take (length buf1) buf2 = buf1)"

lemma MBAreByteBuffersEqual_iff [simp]: "MBAreByteBuffersEqual a b \<longleftrightarrow> a = b"
  by (auto simp: MBAreByteBuffersEqual_def)

text \<open>A buffer's length is a \<open>uint32\<close>; a clone is the buffer itself.\<close>

lemma MBCloneByteBuffer_result:
  assumes "length b < 2 ^ 32"
  shows "MBCloneByteBuffer E b k =
    (if e_malloc E k (7 + length b) then (Some b, Suc k) else (None, Suc k))"
  using assms
  by (simp add: MBCloneByteBuffer_def MBAllocByteBuffer_def sizeof_MByteBuffer_def
        unat_of_nat_u32 memcpy_at_whole)

lemma sint_nonneg_u32:
  assumes "unat (w :: u32) < 2 ^ 31"
  shows "sint w = int (unat w)"
proof -
  have lt: "int (unat w) < 2 ^ 31"
    using assms of_nat_less_iff [where 'a = int, of "unat w" "2 ^ 31"] by simp
  have "sint w = signed_take_bit 31 (int (unat w))"
    unfolding sint_uint uint_nat by simp
  also have "\<dots> = int (unat w)"
    by (rule signed_take_bit_int_eq_self [OF _ lt]) (rule order_trans [of _ 0]; simp del: of_nat_unat)
  finally show ?thesis .
qed

lemma MBStrdupByteBuffer_result:
  assumes "0 \<in> set s" "length (cstr s) + 1 < 2 ^ 31"
  shows "MBStrdupByteBuffer E s k =
    Ret (if e_malloc E k (8 + length (cstr s)) then (Some (cstr s @ [0]), Suc k) else (None, Suc k))"
proof -
  obtain slen :: u32 where slen: "of_nat (length (cstr s) + 1) = slen" by simp
  have n: "unat slen = length (cstr s) + 1"
    unfolding slen [symmetric] by (rule unat_of_nat_u32) (use assms(2) in simp)
  then have "0 \<le> sint slen"
    using assms(2) by (simp add: sint_nonneg_u32)
  moreover have "take (length (cstr s) + 1) s = cstr s @ [0]"
    using cstr_take [OF assms(1)] by simp
  ultimately show ?thesis
    using assms(1) n slen
    by (simp add: MBStrdupByteBuffer_def MBAllocByteBuffer_def strlen_c_def sizeof_MByteBuffer_def
          memcpy_at_whole Let_def del: of_nat_Suc of_nat_add)
qed

section \<open>Allocating a field\<close>

text \<open>
  \<open>AllocMMessageField\<close>. The sizes are computed in 32 bits; the block is then written
  as if it had the size asked for, which is only right if nothing wrapped around. The name
  is copied from the caller's pointer, and its last byte is overwritten with the terminator
  (at index \<open>nameBytes - 1\<close>, which is outside the block for \<open>nameBytes = 0\<close>).
\<close>

definition AllocMMessageField ::
    "env \<Rightarrow> bytes \<Rightarrow> u32 \<Rightarrow> u32 \<Rightarrow> u32 \<Rightarrow> u32 \<Rightarrow> nat \<Rightarrow> (mfield option \<times> nat) run" where
  "AllocMMessageField E fieldName numNameBytes typeCode numItems itemSize k =
     (if numItems > 0 then
        let dataSize = numItems * itemSize;
            needed = sizeof_MMessageField + unat dataSize + unat numNameBytes;
            allocSize = (of_nat needed :: u32)
        in if e_malloc E k (unat allocSize) then
             bind_run (guard (needed \<le> unat allocSize)) (\<lambda>_.
             bind_run (guard (unat numNameBytes \<le> length fieldName)) (\<lambda>_.
             bind_run (guard (numNameBytes \<noteq> 0)) (\<lambda>_.
               Ret (Some (MField (take (unat numNameBytes - 1) fieldName @ [0]) typeCode itemSize
                            numItems (Flat (replicate (unat dataSize) 0)) True), Suc k))))
           else Ret (None, Suc k)
      else Ret (None, k))"

lemma AllocMMessageField_zero_items:
  "AllocMMessageField E fn nb tc 0 is k = Ret (None, k)"
  by (simp add: AllocMMessageField_def)

lemma AllocMMessageField_ok:
  assumes "numItems > 0" "numNameBytes \<noteq> 0" "unat numNameBytes \<le> length fieldName"
    and "sizeof_MMessageField + unat (numItems * itemSize) + unat numNameBytes < 2 ^ 32"
  shows "AllocMMessageField E fieldName numNameBytes typeCode numItems itemSize k =
    Ret (if e_malloc E k (sizeof_MMessageField + unat (numItems * itemSize) + unat numNameBytes)
      then (Some (MField (take (unat numNameBytes - 1) fieldName @ [0]) typeCode itemSize
             numItems (Flat (replicate (unat (numItems * itemSize)) 0)) True), Suc k)
      else (None, Suc k))"
  using assms unat_of_nat_u32 [OF assms(4)]
  by (simp add: AllocMMessageField_def Let_def del: of_nat_add)

section \<open>Environments for the examples\<close>

definition ex_env :: env where
  "ex_env = \<lparr>e_big = False, e_malloc = (\<lambda>_ _. True), e_junk = (\<lambda>_. 0)\<rparr>"

definition ex_big_env :: env where
  "ex_big_env = \<lparr>e_big = True, e_malloc = (\<lambda>_ _. True), e_junk = (\<lambda>_. 0)\<rparr>"

lemma ex_env_simps [simp]:
  "\<not> e_big ex_env" "e_big ex_big_env" "e_malloc ex_env k n" "e_malloc ex_big_env k n"
  "no_oom ex_env" "no_oom ex_big_env"
  by (simp_all add: ex_env_def ex_big_env_def no_oom_def)

lemma replicate_small:
  "replicate 2 x = [x, x]" "replicate 3 x = [x, x, x]" "replicate 4 x = [x, x, x, x]"
  by (simp_all add: numeral_eq_Suc)

end
