(* ===== verification/Mini_Message.thy ===== *)
theory Mini_Message
  imports Mini_Types
begin

text \<open>
  The operations of \<^verbatim>\<open>minimessage/MiniMessage.c\<close> on one message: look-up, the \<open>Put\<close>
  and \<open>Get\<close> families, removal and iteration, over the fields in list order; with the
  invariant of a field, the invariant of a message and the laws of each operation.
\<close>

section \<open>Look-up and removal\<close>

text \<open>
  \<open>LookupMMessageField\<close> walks from the last field back to the first (\<open>prevField\<close>) and
  stops at the first name that compares equal. \<open>LookupAux\<close> gets the fields in that order;
  the number of fields still to come is the index of the field in the message.
\<close>

fun LookupAux :: "mfield list \<Rightarrow> bytes \<Rightarrow> nat option run" where
  "LookupAux [] fieldName = Ret None"
| "LookupAux (f # fs) fieldName =
     bind_run (streq_c (f_name f) fieldName) (\<lambda>eq.
       if eq then Ret (Some (length fs)) else LookupAux fs fieldName)"

definition LookupMMessageField :: "mmessage \<Rightarrow> bytes \<Rightarrow> u32 \<Rightarrow> nat option run" where
  "LookupMMessageField m fieldName typeCode =
     bind_run (LookupAux (rev (m_fields m)) fieldName) (\<lambda>r. case r of
       None \<Rightarrow> Ret None
     | Some i \<Rightarrow> Ret (if typeCode = B_ANY_TYPE \<or> typeCode = f_typeCode (m_fields m ! i)
                       then Some i else None))"

definition AddMMessageField :: "mmessage \<Rightarrow> mfield \<Rightarrow> mmessage" where
  "AddMMessageField m f = MMessage (m_what m) (m_fields m @ [f])"

definition DetachMMessageField :: "mmessage \<Rightarrow> nat \<Rightarrow> mmessage" where
  "DetachMMessageField m i = MMessage (m_what m) (remove_nth i (m_fields m))"

definition MMRemoveField :: "mmessage \<Rightarrow> bytes \<Rightarrow> (status \<times> mmessage) run" where
  "MMRemoveField m fieldName =
     bind_run (LookupMMessageField m fieldName B_ANY_TYPE) (\<lambda>r. case r of
       Some i \<Rightarrow> Ret (B_NO_ERROR, DetachMMessageField m i)
     | None \<Rightarrow> Ret (B_ERROR, m))"

definition MMAllocMessage :: "env \<Rightarrow> u32 \<Rightarrow> nat \<Rightarrow> mmessage option \<times> nat" where
  "MMAllocMessage E what k =
     (if e_malloc E k sizeof_MMessage then (Some (MMessage what []), Suc k) else (None, Suc k))"

definition MMClearMessage :: "mmessage \<Rightarrow> mmessage" where
  "MMClearMessage m = MMessage (m_what m) []"

definition MMGetWhat :: "mmessage \<Rightarrow> u32" where "MMGetWhat m = m_what m"

definition MMSetWhat :: "mmessage \<Rightarrow> u32 \<Rightarrow> mmessage" where
  "MMSetWhat m newWhat = MMessage newWhat (m_fields m)"

section \<open>Putting fields\<close>

text \<open>
  A freshly allocated data area is zeroed; read as an array of pointers it is all
  \<open>NULL\<close>. \<open>slots\<close> is the number of pointers that fit into it.
\<close>

definition slots :: "mfield \<Rightarrow> nat" where
  "slots f = (case f_data f of Flat bs \<Rightarrow> length bs div sizeof_pointer | _ \<Rightarrow> 0)"

definition with_data :: "mfield \<Rightarrow> mdata \<Rightarrow> mfield" where
  "with_data f d = MField (f_name f) (f_typeCode f) (f_itemSize f) (f_numItems f) d (f_isFlattenable f)"

text \<open>
  The loop that moves the first \<open>common\<close> pointers of the old array into the new one, for
  \<open>NULL\<close>-initialised \<open>n\<close> slots; both arrays must have that many slots.
\<close>

definition move_items :: "nat \<Rightarrow> 'a option list \<Rightarrow> nat \<Rightarrow> 'a option list run" where
  "move_items common from n =
     bind_run (guard (common \<le> length from \<and> common \<le> n)) (\<lambda>_.
       Ret (take common from @ replicate (n - common) None))"

definition PutMMVariableFieldAux ::
    "env \<Rightarrow> mmessage \<Rightarrow> bool \<Rightarrow> u32 \<Rightarrow> bytes \<Rightarrow> u32 \<Rightarrow> nat \<Rightarrow> (bool \<times> mmessage \<times> nat) run" where
  "PutMMVariableFieldAux E m retainOldData typeCode fieldName numItems k =
     bind_run (strlen_c fieldName) (\<lambda>l.
     bind_run (AllocMMessageField E fieldName (of_nat (l + 1)) typeCode numItems
                 (of_nat sizeof_pointer) k) (\<lambda>(newField, k'). case newField of
       None \<Rightarrow> Ret (False, m, k')
     | Some f \<Rightarrow>
         bind_run (LookupMMessageField m fieldName B_ANY_TYPE) (\<lambda>old. case old of
           None \<Rightarrow> Ret (True, AddMMessageField m (with_data f (Bufs (replicate (slots f) None))), k')
         | Some i \<Rightarrow>
             let oldField = m_fields m ! i in
             bind_run
               (if retainOldData \<and> f_typeCode oldField = typeCode then
                  (case f_data oldField of
                     Bufs fromArray \<Rightarrow>
                       move_items (unat (if numItems < f_numItems oldField then numItems
                                         else f_numItems oldField)) fromArray (slots f)
                   | _ \<Rightarrow> Fault)
                else Ret (replicate (slots f) None))
               (\<lambda>items. Ret (True,
                  AddMMessageField (DetachMMessageField m i) (with_data f (Bufs items)), k')))))"

definition PutMMFixedFieldAux ::
    "env \<Rightarrow> mmessage \<Rightarrow> bool \<Rightarrow> u32 \<Rightarrow> bytes \<Rightarrow> u32 \<Rightarrow> u32 \<Rightarrow> nat \<Rightarrow> (bool \<times> mmessage \<times> nat) run" where
  "PutMMFixedFieldAux E m retainOldData typeCode fieldName numItems itemSize k =
     bind_run (strlen_c fieldName) (\<lambda>l.
     bind_run (AllocMMessageField E fieldName (of_nat (l + 1)) typeCode numItems itemSize k)
       (\<lambda>(newField, k'). case newField of
       None \<Rightarrow> Ret (False, m, k')
     | Some f \<Rightarrow>
         bind_run (LookupMMessageField m fieldName B_ANY_TYPE) (\<lambda>old. case old of
           None \<Rightarrow> Ret (True, AddMMessageField m f, k')
         | Some i \<Rightarrow>
             let oldField = m_fields m ! i in
             bind_run
               (if retainOldData \<and> f_typeCode oldField = typeCode then
                  (case (f_data oldField, f_data f) of
                     (Flat src, Flat dst) \<Rightarrow>
                       bind_run (memcpy_run (unat ((if numItems < f_numItems oldField then numItems
                                                   else f_numItems oldField) * itemSize)) src dst)
                         (\<lambda>bs. Ret (Flat bs))
                   | _ \<Rightarrow> Fault)
                else Ret (f_data f))
               (\<lambda>d. Ret (True, AddMMessageField (DetachMMessageField m i) (with_data f d), k')))))"

definition MMPutMessageField ::
    "env \<Rightarrow> mmessage \<Rightarrow> bool \<Rightarrow> bytes \<Rightarrow> u32 \<Rightarrow> nat \<Rightarrow> (bool \<times> mmessage \<times> nat) run" where
  "MMPutMessageField E m retainOldData fieldName numItems k =
     bind_run (strlen_c fieldName) (\<lambda>l.
     bind_run (AllocMMessageField E fieldName (of_nat (l + 1)) B_MESSAGE_TYPE numItems
                 (of_nat sizeof_pointer) k) (\<lambda>(newField, k'). case newField of
       None \<Rightarrow> Ret (False, m, k')
     | Some f \<Rightarrow>
         bind_run (LookupMMessageField m fieldName B_ANY_TYPE) (\<lambda>old. case old of
           None \<Rightarrow> Ret (True, AddMMessageField m (with_data f (Msgs (replicate (slots f) None))), k')
         | Some i \<Rightarrow>
             let oldField = m_fields m ! i in
             bind_run
               (if retainOldData \<and> f_typeCode oldField = B_MESSAGE_TYPE then
                  (case f_data oldField of
                     Msgs fromArray \<Rightarrow>
                       move_items (unat (if numItems < f_numItems oldField then numItems
                                         else f_numItems oldField)) fromArray (slots f)
                   | _ \<Rightarrow> Fault)
                else Ret (replicate (slots f) None))
               (\<lambda>items. Ret (True,
                  AddMMessageField (DetachMMessageField m i) (with_data f (Msgs items)), k')))))"

definition MMPutStringField where
  "MMPutStringField E m retain fieldName numItems k =
     PutMMVariableFieldAux E m retain B_STRING_TYPE fieldName numItems k"
definition MMPutBoolField where
  "MMPutBoolField E m retain fieldName numItems k =
     PutMMFixedFieldAux E m retain B_BOOL_TYPE fieldName numItems 1 k"
definition MMPutInt8Field where
  "MMPutInt8Field E m retain fieldName numItems k =
     PutMMFixedFieldAux E m retain B_INT8_TYPE fieldName numItems 1 k"
definition MMPutInt16Field where
  "MMPutInt16Field E m retain fieldName numItems k =
     PutMMFixedFieldAux E m retain B_INT16_TYPE fieldName numItems 2 k"
definition MMPutInt32Field where
  "MMPutInt32Field E m retain fieldName numItems k =
     PutMMFixedFieldAux E m retain B_INT32_TYPE fieldName numItems 4 k"
definition MMPutInt64Field where
  "MMPutInt64Field E m retain fieldName numItems k =
     PutMMFixedFieldAux E m retain B_INT64_TYPE fieldName numItems 8 k"
definition MMPutFloatField where
  "MMPutFloatField E m retain fieldName numItems k =
     PutMMFixedFieldAux E m retain B_FLOAT_TYPE fieldName numItems 4 k"
definition MMPutDoubleField where
  "MMPutDoubleField E m retain fieldName numItems k =
     PutMMFixedFieldAux E m retain B_DOUBLE_TYPE fieldName numItems 8 k"
definition MMPutPointField where
  "MMPutPointField E m retain fieldName numItems k =
     PutMMFixedFieldAux E m retain B_POINT_TYPE fieldName numItems 8 k"
definition MMPutRectField where
  "MMPutRectField E m retain fieldName numItems k =
     PutMMFixedFieldAux E m retain B_RECT_TYPE fieldName numItems 16 k"

text \<open>
  A pointer field is looked up again after it was put, and marked as not flattenable.
\<close>

definition MMPutPointerField ::
    "env \<Rightarrow> mmessage \<Rightarrow> bool \<Rightarrow> bytes \<Rightarrow> u32 \<Rightarrow> nat \<Rightarrow> (bool \<times> mmessage \<times> nat) run" where
  "MMPutPointerField E m retain fieldName numItems k =
     bind_run (PutMMFixedFieldAux E m retain B_POINTER_TYPE fieldName numItems
                 (of_nat sizeof_pointer) k) (\<lambda>(ret, m', k').
       if ret then
         bind_run (LookupMMessageField m' fieldName B_POINTER_TYPE) (\<lambda>r. case r of
           None \<Rightarrow> Ret (ret, m', k')
         | Some i \<Rightarrow>
             let f = m_fields m' ! i;
                 f' = MField (f_name f) (f_typeCode f) (f_itemSize f) (f_numItems f) (f_data f) False
             in Ret (ret, MMessage (m_what m') ((m_fields m')[i := f']), k'))
       else Ret (ret, m', k'))"

definition MMPutDataField ::
    "env \<Rightarrow> mmessage \<Rightarrow> bool \<Rightarrow> u32 \<Rightarrow> bytes \<Rightarrow> u32 \<Rightarrow> nat \<Rightarrow> (bool \<times> mmessage \<times> nat) run" where
  "MMPutDataField E m retain typeCode fieldName numItems k =
     (if typeCode \<noteq> B_MESSAGE_TYPE \<and> IsTypeCodeVariableSize typeCode
      then PutMMVariableFieldAux E m retain typeCode fieldName numItems k
      else Ret (False, m, k))"

section \<open>Renaming a field\<close>

text \<open>\<open>field->allocSize\<close>, as \<open>AllocMMessageField\<close> and \<open>MMRenameField\<close> leave it.\<close>

definition f_allocSize :: "mfield \<Rightarrow> u32" where
  "f_allocSize f = of_nat (sizeof_MMessageField + unat (f_numItems f * f_itemSize f) + length (f_name f))"

text \<open>
  \<open>MMRenameField\<close>. The block of the field is reallocated only if the length of the name
  changes; the name is the last part of the block. \<open>diff\<close> is computed with an \<open>int\<close>, so
  the name has to be shorter than \<open>2 ^ 31\<close> bytes.
\<close>

definition MMRenameField ::
    "env \<Rightarrow> mmessage \<Rightarrow> bytes \<Rightarrow> bytes \<Rightarrow> nat \<Rightarrow> (status \<times> mmessage \<times> nat) run" where
  "MMRenameField E m oldFieldName newFieldName k =
     bind_run (streq_c oldFieldName newFieldName) (\<lambda>same.
       if same then Ret (B_NO_ERROR, m, k) else
       bind_run (LookupMMessageField m oldFieldName B_ANY_TYPE) (\<lambda>r. case r of
         None \<Rightarrow> Ret (B_ERROR, m, k)
       | Some i \<Rightarrow>
           bind_run (LookupMMessageField m newFieldName B_ANY_TYPE) (\<lambda>overwriteThis.
           bind_run (strlen_c newFieldName) (\<lambda>l.
           bind_run (guard (l + 1 < 2 ^ 31)) (\<lambda>_.
             let f = m_fields m ! i;
                 slen = l + 1;
                 f' = MField (take slen newFieldName) (f_typeCode f) (f_itemSize f) (f_numItems f)
                        (f_data f) (f_isFlattenable f);
                 m' = MMessage (m_what m) ((m_fields m)[i := f']);
                 m'' = (case overwriteThis of None \<Rightarrow> m' | Some j \<Rightarrow> DetachMMessageField m' j);
                 newSize = f_allocSize f + (of_nat slen - of_nat (length (f_name f)))
             in if slen = length (f_name f) then Ret (B_NO_ERROR, m'', k)
                else if e_malloc E k (unat newSize) then
                  bind_run (guard (sizeof_MMessageField + unat (f_numItems f * f_itemSize f) + slen
                                   \<le> unat newSize)) (\<lambda>_.
                    Ret (B_NO_ERROR, m'', Suc k))
                else Ret (B_ERROR, m, Suc k))))))"

section \<open>Getting fields\<close>

text \<open>
  \<open>GetFieldDataAux\<close> returns the data area and the number of items. \<open>MMGetFieldInfo\<close>
  returns the number of items and the type code.
\<close>

definition GetFieldDataAux :: "mmessage \<Rightarrow> bytes \<Rightarrow> u32 \<Rightarrow> (mdata \<times> u32) option run" where
  "GetFieldDataAux m fieldName typeCode =
     bind_run (LookupMMessageField m fieldName typeCode) (\<lambda>r. case r of
       None \<Rightarrow> Ret None
     | Some i \<Rightarrow> let f = m_fields m ! i in
         if f_numItems f > 0 then Ret (Some (f_data f, f_numItems f)) else Ret None)"

definition MMGetStringField where
  "MMGetStringField m fieldName = GetFieldDataAux m fieldName B_STRING_TYPE"
definition MMGetBoolField where
  "MMGetBoolField m fieldName = GetFieldDataAux m fieldName B_BOOL_TYPE"
definition MMGetInt8Field where
  "MMGetInt8Field m fieldName = GetFieldDataAux m fieldName B_INT8_TYPE"
definition MMGetInt16Field where
  "MMGetInt16Field m fieldName = GetFieldDataAux m fieldName B_INT16_TYPE"
definition MMGetInt32Field where
  "MMGetInt32Field m fieldName = GetFieldDataAux m fieldName B_INT32_TYPE"
definition MMGetInt64Field where
  "MMGetInt64Field m fieldName = GetFieldDataAux m fieldName B_INT64_TYPE"
definition MMGetFloatField where
  "MMGetFloatField m fieldName = GetFieldDataAux m fieldName B_FLOAT_TYPE"
definition MMGetDoubleField where
  "MMGetDoubleField m fieldName = GetFieldDataAux m fieldName B_DOUBLE_TYPE"
definition MMGetMessageField where
  "MMGetMessageField m fieldName = GetFieldDataAux m fieldName B_MESSAGE_TYPE"
definition MMGetPointerField where
  "MMGetPointerField m fieldName = GetFieldDataAux m fieldName B_POINTER_TYPE"
definition MMGetPointField where
  "MMGetPointField m fieldName = GetFieldDataAux m fieldName B_POINT_TYPE"
definition MMGetRectField where
  "MMGetRectField m fieldName = GetFieldDataAux m fieldName B_RECT_TYPE"

definition MMGetDataField :: "mmessage \<Rightarrow> u32 \<Rightarrow> bytes \<Rightarrow> (mdata \<times> u32) option run" where
  "MMGetDataField m typeCode fieldName =
     (if typeCode \<noteq> B_MESSAGE_TYPE \<and> IsTypeCodeVariableSize typeCode
      then GetFieldDataAux m fieldName typeCode else Ret None)"

definition MMGetFieldInfo :: "mmessage \<Rightarrow> bytes \<Rightarrow> u32 \<Rightarrow> (u32 \<times> u32) option run" where
  "MMGetFieldInfo m fieldName typeCode =
     bind_run (LookupMMessageField m fieldName typeCode) (\<lambda>r. case r of
       None \<Rightarrow> Ret None
     | Some i \<Rightarrow> let f = m_fields m ! i in Ret (Some (f_numItems f, f_typeCode f)))"

section \<open>Iterating over the field names\<close>

text \<open>
  The iterator is the type code asked for and the fields from the current one on
  (\<open>iterState\<close> and its \<open>nextField\<close> chain).
\<close>

definition MMGetFieldNameIterator :: "mmessage \<Rightarrow> u32 \<Rightarrow> u32 \<times> mfield list" where
  "MMGetFieldNameIterator m typeCode = (typeCode, m_fields m)"

fun MMGetNextFieldName :: "u32 \<times> mfield list \<Rightarrow> (bytes \<times> u32) option \<times> (u32 \<times> mfield list)" where
  "MMGetNextFieldName (tc, []) = (None, (tc, []))"
| "MMGetNextFieldName (tc, f # fs) =
     (if tc = B_ANY_TYPE \<or> tc = f_typeCode f
      then (Some (f_name f, f_typeCode f), (tc, fs))
      else MMGetNextFieldName (tc, fs))"

end
