(* ===== verification/Mini_Fields.thy ===== *)
theory Mini_Fields
  imports Mini_Message
begin

text \<open>
  The invariant of messages and fields, and what look-up, removal and the \<open>Put\<close> family
  do to a message that satisfies it. The interface between these operations and a container
  of named fields is the locale \<open>field_list\<close>; its laws are proved here for the message
  model, and in theory \<open>Mini_Store\<close> for the doubly linked list.
\<close>

section \<open>Induction over the ownership tree\<close>

lemma size_Msgs_item [termination_simp]:
  "Some m \<in> set xs \<Longrightarrow> size m < size_list (size_option size) xs"
  by (induction xs) auto

lemma size_field_data: "size (f_data f) < size f"
  by (cases f) simp

lemma size_sub_message:
  assumes "f \<in> set fs" "f_data f = Msgs xs" "Some m \<in> set xs"
  shows "size m < size (MMessage w fs)"
proof -
  have "size m < size (f_data f)"
    using size_Msgs_item [OF assms(3)] assms(2) by simp
  also have "\<dots> < size f" by (rule size_field_data)
  also have "\<dots> < size (MMessage w fs)"
    using size_list_estimation [OF assms(1), of "size f - 1" size] size_field_data [of f] by simp
  finally show ?thesis .
qed

lemma mmessage_induct [case_names MMessage]:
  assumes step: "\<And>w fs. (\<And>f xs m. f \<in> set fs \<Longrightarrow> f_data f = Msgs xs \<Longrightarrow> Some m \<in> set xs \<Longrightarrow> P m)
    \<Longrightarrow> P (MMessage w fs)"
  shows "P m"
proof (induction m rule: measure_induct_rule [where f = size])
  case (less m)
  obtain w fs where m: "m = MMessage w fs" by (cases m)
  show ?case
    unfolding m by (rule step) (use less size_sub_message m in blast)
qed

section \<open>Invariants\<close>

text \<open>The item size that goes with each fixed-size type code.\<close>

definition fixed_item_size :: "u32 \<Rightarrow> u32" where
  "fixed_item_size tc =
     (if tc = B_BOOL_TYPE \<or> tc = B_INT8_TYPE then 1
      else if tc = B_INT16_TYPE then 2
      else if tc = B_INT32_TYPE \<or> tc = B_FLOAT_TYPE then 4
      else if tc = B_RECT_TYPE then 16
      else 8)"

lemma fixed_item_size_simps [simp]:
  "fixed_item_size B_INT32_TYPE = 4" "fixed_item_size B_BOOL_TYPE = 1" "fixed_item_size B_POINTER_TYPE = 8"
  by (simp_all add: fixed_item_size_def type_code_defs)

definition name_ok :: "bytes \<Rightarrow> bool" where
  "name_ok nm \<longleftrightarrow> nm = cstr nm @ [0] \<and> length nm < 2 ^ 32"

fun header_ok :: "mfield \<Rightarrow> bool" where
  "header_ok (MField nm tc isz n d fl) \<longleftrightarrow>
     name_ok nm \<and> 0 < n \<and> fl = (tc \<noteq> B_POINTER_TYPE) \<and>
     (case d of
        Flat bs \<Rightarrow> \<not> IsTypeCodeVariableSize tc \<and> isz = fixed_item_size tc \<and>
          length bs = unat n * unat isz \<and> length bs < 2 ^ 32
      | Bufs xs \<Rightarrow> IsTypeCodeVariableSize tc \<and> tc \<noteq> B_MESSAGE_TYPE \<and> isz = of_nat sizeof_pointer \<and>
          length xs = unat n \<and> unat n * sizeof_pointer < 2 ^ 32 \<and>
          (\<forall>x \<in> set xs. case x of None \<Rightarrow> True | Some b \<Rightarrow> length b < 2 ^ 32)
      | Msgs xs \<Rightarrow> tc = B_MESSAGE_TYPE \<and> isz = of_nat sizeof_pointer \<and>
          length xs = unat n \<and> unat n * sizeof_pointer < 2 ^ 32)"

definition names :: "mfield list \<Rightarrow> bytes list" where
  "names fs = map (\<lambda>f. cstr (f_name f)) fs"

inductive msg_ok :: "mmessage \<Rightarrow> bool" where
  msg_okI: "list_all header_ok fs \<Longrightarrow> distinct (names fs) \<Longrightarrow>
    (\<And>f xs m. f \<in> set fs \<Longrightarrow> f_data f = Msgs xs \<Longrightarrow> Some m \<in> set xs \<Longrightarrow> msg_ok m) \<Longrightarrow>
    msg_ok (MMessage w fs)"

inductive_cases msg_okE [elim!]: "msg_ok (MMessage w fs)"
inductive_simps msg_ok_iff: "msg_ok (MMessage w fs)"

definition items_ok :: "mfield \<Rightarrow> bool" where
  "items_ok f \<longleftrightarrow> (\<forall>xs m. f_data f = Msgs xs \<longrightarrow> Some m \<in> set xs \<longrightarrow> msg_ok m)"

definition field_ok :: "mfield \<Rightarrow> bool" where
  "field_ok f \<longleftrightarrow> header_ok f \<and> items_ok f"

lemma msg_ok_fields: "msg_ok m \<longleftrightarrow> list_all field_ok (m_fields m) \<and> distinct (names (m_fields m))"
  by (cases m) (auto simp: msg_ok_iff field_ok_def items_ok_def list_all_iff)

lemma header_ok_name:
  "header_ok f \<Longrightarrow> name_ok (f_name f)"
  by (cases f) auto

lemma field_ok_name: "field_ok f \<Longrightarrow> name_ok (f_name f)"
  by (simp add: field_ok_def header_ok_name)

lemma name_ok_nul: "name_ok nm \<Longrightarrow> 0 \<in> set nm"
  unfolding name_ok_def by (metis in_set_conv_decomp)

lemma names_simps [simp]:
  "names [] = []" "names (f # fs) = cstr (f_name f) # names fs" "names (fs @ gs) = names fs @ names gs"
  "length (names fs) = length fs"
  by (simp_all add: names_def)

lemma names_nth [simp]: "i < length fs \<Longrightarrow> names fs ! i = cstr (f_name (fs ! i))"
  by (simp add: names_def)

lemma set_names: "set (names fs) = (\<lambda>f. cstr (f_name f)) ` set fs"
  by (simp add: names_def)

section \<open>Look-up\<close>

lemma LookupAux_append_hit:
  assumes "list_all (\<lambda>f. 0 \<in> set (f_name f)) (f # ys)" "0 \<in> set nm"
    and "cstr (f_name f) = cstr nm" "cstr nm \<notin> set (names ys)"
  shows "LookupAux (rev (xs @ f # ys)) nm = Ret (Some (length xs))"
proof -
  have *: "LookupAux (zs @ f # ws) nm = Ret (Some (length ws))"
    if "list_all (\<lambda>f. 0 \<in> set (f_name f)) zs" "cstr nm \<notin> set (names zs)" for zs ws
    using that assms(1,2,3) by (induction zs) (auto simp: streq_c_terminated)
  have "list_all (\<lambda>f. 0 \<in> set (f_name f)) (rev ys)" "cstr nm \<notin> set (names (rev ys))"
    using assms(1,4) by (auto simp: list_all_iff set_names)
  from * [OF this, of "rev xs"] show ?thesis by simp
qed

lemma LookupAux_miss:
  assumes "list_all (\<lambda>f. 0 \<in> set (f_name f)) fs" "0 \<in> set nm" "cstr nm \<notin> set (names fs)"
  shows "LookupAux (rev fs) nm = Ret None"
proof -
  have "LookupAux zs nm = Ret None"
    if "list_all (\<lambda>f. 0 \<in> set (f_name f)) zs" "cstr nm \<notin> set (names zs)" for zs
    using that assms(2) by (induction zs) (auto simp: streq_c_terminated)
  then show ?thesis using assms by (auto simp: list_all_iff set_names)
qed

lemma split_last_occurrence:
  assumes "cstr nm \<in> set (names fs)"
  obtains xs f ys where "fs = xs @ f # ys" "cstr (f_name f) = cstr nm" "cstr nm \<notin> set (names ys)"
  using assms
proof (induction fs arbitrary: thesis rule: rev_induct)
  case Nil
  then show ?case by simp
next
  case (snoc g gs)
  show ?case
  proof (cases "cstr (f_name g) = cstr nm")
    case True
    show ?thesis by (rule snoc.prems(1) [of gs g "[]"]) (use True in auto)
  next
    case False
    then obtain xs f ys where "gs = xs @ f # ys" "cstr (f_name f) = cstr nm" "cstr nm \<notin> set (names ys)"
      using snoc.IH snoc.prems(2) by auto
    with False show ?thesis by (intro snoc.prems(1) [of xs f "ys @ [g]"]) auto
  qed
qed

text \<open>
  The meaning of a look-up: the last field with that name, if it has the type asked for.
\<close>

fun find_last :: "bytes \<Rightarrow> mfield list \<Rightarrow> nat option" where
  "find_last s [] = None"
| "find_last s (f # fs) =
     (case find_last s fs of
        Some i \<Rightarrow> Some (Suc i)
      | None \<Rightarrow> if cstr (f_name f) = s then Some 0 else None)"

lemma find_last_None: "find_last s fs = None \<longleftrightarrow> s \<notin> set (names fs)"
  by (induction fs) (auto split: option.splits)

lemma find_last_Some:
  assumes "find_last s fs = Some i"
  shows "i < length fs \<and> cstr (f_name (fs ! i)) = s \<and> s \<notin> set (names (drop (Suc i) fs))"
  using assms
  by (induction fs arbitrary: i) (auto split: option.splits if_splits simp: find_last_None)

lemma find_last_append:
  "cstr (f_name f) = s \<Longrightarrow> s \<notin> set (names ys) \<Longrightarrow> find_last s (xs @ f # ys) = Some (length xs)"
  by (induction xs) (auto simp: find_last_None split: option.splits)

lemma find_last_distinct:
  assumes "distinct (names fs)" "i < length fs" "cstr (f_name (fs ! i)) = s"
  shows "find_last s fs = Some i"
proof (cases "find_last s fs")
  case None
  then show ?thesis using assms by (auto simp: find_last_None set_names)
next
  case (Some j)
  then have j: "j < length fs" "names fs ! j = names fs ! i"
    using find_last_Some [OF Some] assms by auto
  then have "j = i"
    using nth_eq_iff_index_eq [OF assms(1), of j i] assms(2) by simp
  with Some show ?thesis by simp
qed

lemma LookupAux_find_last:
  assumes "list_all (\<lambda>f. 0 \<in> set (f_name f)) fs" "0 \<in> set nm"
  shows "LookupAux (rev fs) nm = Ret (find_last (cstr nm) fs)"
proof (cases "cstr nm \<in> set (names fs)")
  case True
  then obtain xs f ys where "fs = xs @ f # ys" "cstr (f_name f) = cstr nm" "cstr nm \<notin> set (names ys)"
    by (rule split_last_occurrence)
  with assms LookupAux_append_hit [of f ys nm xs] show ?thesis
    by (simp add: find_last_append list_all_append)
next
  case False
  then show ?thesis using LookupAux_miss [OF assms] by (simp add: find_last_None [THEN iffD2])
qed

lemma names_terminated: "list_all field_ok fs \<Longrightarrow> list_all (\<lambda>f. 0 \<in> set (f_name f)) fs"
  by (auto simp: list_all_iff name_ok_nul field_ok_name)

lemma LookupMMessageField_ok:
  assumes "msg_ok m" "0 \<in> set nm"
  shows "LookupMMessageField m nm tc =
    Ret (case find_last (cstr nm) (m_fields m) of
           None \<Rightarrow> None
         | Some i \<Rightarrow> if tc = B_ANY_TYPE \<or> tc = f_typeCode (m_fields m ! i) then Some i else None)"
  using assms
  by (simp add: LookupMMessageField_def LookupAux_find_last names_terminated msg_ok_fields
      split: option.split)

section \<open>Containers of named fields\<close>

lemma filter_names_id:
  "s \<notin> set (names fs) \<Longrightarrow> filter (\<lambda>g. cstr (f_name g) \<noteq> s) fs = fs"
  by (induction fs) auto

lemma remove_nth_named:
  assumes "distinct (names fs)" "i < length fs" "cstr (f_name (fs ! i)) = s"
  shows "remove_nth i fs = filter (\<lambda>g. cstr (f_name g) \<noteq> s) fs"
proof -
  have fs: "fs = take i fs @ fs ! i # drop (Suc i) fs"
    using assms(2) by (simp add: id_take_nth_drop)
  have "distinct (names (take i fs @ fs ! i # drop (Suc i) fs))"
    using assms(1) fs by simp
  then have "s \<notin> set (names (take i fs))" "s \<notin> set (names (drop (Suc i) fs))"
    using assms(3) by auto
  then have "filter (\<lambda>g. cstr (f_name g) \<noteq> s) (take i fs @ fs ! i # drop (Suc i) fs)
    = take i fs @ drop (Suc i) fs"
    using assms(3) by (simp add: filter_names_id)
  then show ?thesis using fs by (simp add: remove_nth_def)
qed

definition other_fields :: "bytes \<Rightarrow> mfield list \<Rightarrow> mfield list" where
  "other_fields s fs = filter (\<lambda>g. cstr (f_name g) \<noteq> s) fs"

lemma other_fields_absent: "find_last s fs = None \<Longrightarrow> other_fields s fs = fs"
  by (simp add: find_last_None other_fields_def filter_names_id)

lemma other_fields_present:
  "distinct (names fs) \<Longrightarrow> find_last s fs = Some i \<Longrightarrow> remove_nth i fs = other_fields s fs"
  using find_last_Some [of s fs i] by (simp add: other_fields_def remove_nth_named)

lemma names_other_fields: "names (other_fields s fs) = filter (\<lambda>n. n \<noteq> s) (names fs)"
  by (simp add: names_def other_fields_def filter_map o_def)

lemma distinct_names_replace:
  "distinct (names fs) \<Longrightarrow> cstr (f_name f) = s \<Longrightarrow> distinct (names (other_fields s fs @ [f]))"
  by (simp add: names_other_fields)

lemma list_all_other_fields: "list_all P fs \<Longrightarrow> list_all P (other_fields s fs)"
  by (auto simp: other_fields_def list_all_iff)

text \<open>
  The interface of a container of named fields: look-up by name, removal of the field a
  look-up returned, and insertion at the end, over the abstract list of fields.
\<close>

locale field_list =
  fixes inv :: "'s \<Rightarrow> bool"
    and fields :: "'s \<Rightarrow> mfield list"
    and index :: "'s \<Rightarrow> 'r \<Rightarrow> nat"
    and look :: "'s \<Rightarrow> bytes \<Rightarrow> 'r option run"
    and detach :: "'s \<Rightarrow> 'r \<Rightarrow> 's run"
    and add :: "'s \<Rightarrow> mfield \<Rightarrow> 's run"
  assumes look: "inv s \<Longrightarrow> 0 \<in> set nm \<Longrightarrow>
      \<exists>r. look s nm = Ret r \<and> map_option (index s) r = find_last (cstr nm) (fields s)"
    and detach: "inv s \<Longrightarrow> 0 \<in> set nm \<Longrightarrow> look s nm = Ret (Some r) \<Longrightarrow>
      \<exists>s'. detach s r = Ret s' \<and> inv s' \<and> fields s' = remove_nth (index s r) (fields s)"
    and add: "inv s \<Longrightarrow> 0 \<in> set (f_name f) \<Longrightarrow>
      \<exists>s'. add s f = Ret s' \<and> inv s' \<and> fields s' = fields s @ [f]"
begin

lemma look_None:
  assumes "inv s" "0 \<in> set nm" "cstr nm \<notin> set (names (fields s))"
  shows "look s nm = Ret None"
  using look [OF assms(1,2)] assms(3) by (auto simp: find_last_None [symmetric])

lemma look_Some:
  assumes "inv s" "0 \<in> set nm" "cstr nm \<in> set (names (fields s))"
  shows "\<exists>r. look s nm = Ret (Some r) \<and> find_last (cstr nm) (fields s) = Some (index s r)"
proof -
  have "find_last (cstr nm) (fields s) \<noteq> None"
    using assms(3) by (simp add: find_last_None)
  then show ?thesis using look [OF assms(1,2)] by auto
qed

text \<open>Removing by name leaves the other fields, in order.\<close>

lemma remove:
  assumes "inv s" "0 \<in> set nm" "distinct (names (fields s))"
  shows "\<exists>s'. bind_run (look s nm) (\<lambda>r. case r of None \<Rightarrow> Ret (B_ERROR, s)
             | Some a \<Rightarrow> bind_run (detach s a) (\<lambda>s'. Ret (B_NO_ERROR, s'))) =
           Ret (if cstr nm \<in> set (names (fields s)) then B_NO_ERROR else B_ERROR, s')
         \<and> inv s' \<and> fields s' = other_fields (cstr nm) (fields s)"
proof (cases "cstr nm \<in> set (names (fields s))")
  case True
  then obtain r where r: "look s nm = Ret (Some r)" "find_last (cstr nm) (fields s) = Some (index s r)"
    using look_Some [OF assms(1,2)] by blast
  with True show ?thesis
    using detach [OF assms(1,2) r(1)] other_fields_present [OF assms(3) r(2)] by auto
next
  case False
  then show ?thesis
    using look_None [OF assms(1,2)] assms(1) by (simp add: other_fields_absent find_last_None)
qed

text \<open>Replacing by name: the new field comes last, under a name that stays unique.\<close>

lemma replace:
  assumes "inv s" "0 \<in> set nm" "distinct (names (fields s))"
    and "0 \<in> set (f_name f)" "cstr (f_name f) = cstr nm"
  shows "\<exists>s'. bind_run (look s nm) (\<lambda>r.
           bind_run (case r of None \<Rightarrow> Ret s | Some a \<Rightarrow> detach s a) (\<lambda>s1. add s1 f)) = Ret s'
         \<and> inv s' \<and> fields s' = other_fields (cstr nm) (fields s) @ [f]
         \<and> distinct (names (fields s'))"
proof (cases "cstr nm \<in> set (names (fields s))")
  case True
  then obtain r where r: "look s nm = Ret (Some r)" "find_last (cstr nm) (fields s) = Some (index s r)"
    using look_Some [OF assms(1,2)] by blast
  obtain s1 where s1: "detach s r = Ret s1" "inv s1" "fields s1 = other_fields (cstr nm) (fields s)"
    using detach [OF assms(1,2) r(1)] other_fields_present [OF assms(3) r(2)] by auto
  show ?thesis
    using add [OF s1(2) assms(4)] r s1 distinct_names_replace [OF assms(3,5)] by auto
next
  case False
  then have "other_fields (cstr nm) (fields s) = fields s"
    by (simp add: other_fields_absent find_last_None)
  then show ?thesis
    using False add [OF assms(1,4)] look_None [OF assms(1,2)] distinct_names_replace [OF assms(3,5)]
    by auto
qed

end

definition msg_names_ok :: "mmessage \<Rightarrow> bool" where
  "msg_names_ok m \<longleftrightarrow> list_all (\<lambda>f. 0 \<in> set (f_name f)) (m_fields m)"

lemma msg_ok_names: "msg_ok m \<Longrightarrow> msg_names_ok m"
  by (simp add: msg_names_ok_def msg_ok_fields names_terminated)

lemma list_all_remove_nth: "list_all P xs \<Longrightarrow> list_all P (remove_nth i xs)"
  using set_remove_nth_subset [of i xs] by (auto simp: list_all_iff)

interpretation mm: field_list msg_names_ok m_fields "\<lambda>_ i. i"
  "\<lambda>m nm. LookupMMessageField m nm B_ANY_TYPE"
  "\<lambda>m i. Ret (DetachMMessageField m i)" "\<lambda>m f. Ret (AddMMessageField m f)"
  by unfold_locales
    (auto simp: msg_names_ok_def LookupMMessageField_def LookupAux_find_last option.map_id
       DetachMMessageField_def AddMMessageField_def list_all_remove_nth split: option.split)

end
