(* ===== verification/Mini_Put.thy ===== *)
theory Mini_Put
  imports Mini_Fields
begin

text \<open>
  What the \<open>Put\<close> operations and \<open>MMRemoveField\<close> do to a message that satisfies the
  invariant: the new field, the fate of the old one, failure of an allocation, and the
  preservation of the invariant.
\<close>

section \<open>The new field\<close>

lemma MMRemoveField_spec:
  assumes "msg_ok m" "0 \<in> set nm"
  shows "MMRemoveField m nm =
    Ret (if cstr nm \<in> set (names (m_fields m)) then B_NO_ERROR else B_ERROR,
         MMessage (m_what m) (other_fields (cstr nm) (m_fields m)))"
proof -
  have m: "msg_names_ok m" "distinct (names (m_fields m))"
    using assms(1) by (simp_all add: msg_ok_names msg_ok_fields)
  obtain m' where m': "MMRemoveField m nm =
      Ret (if cstr nm \<in> set (names (m_fields m)) then B_NO_ERROR else B_ERROR, m')"
      "m_fields m' = other_fields (cstr nm) (m_fields m)"
    using mm.remove [OF m(1) assms(2) m(2)]
    by (auto simp: MMRemoveField_def intro: bind_run_cong cong: option.case_cong)
  moreover have "m_what m' = m_what m"
    using m'(1)
    by (auto simp: MMRemoveField_def DetachMMessageField_def run_simps split: option.splits if_splits)
  ultimately show ?thesis by (cases m') auto
qed

text \<open>The bytes an old field of the same type hands over, and the zeroes after them.\<close>

definition retained :: "bool \<Rightarrow> u32 \<Rightarrow> bytes \<Rightarrow> mfield list \<Rightarrow> mfield option" where
  "retained retain tc s fs =
     (case find_last s fs of
        Some i \<Rightarrow> if retain \<and> f_typeCode (fs ! i) = tc then Some (fs ! i) else None
      | None \<Rightarrow> None)"

definition fixed_data :: "mfield option \<Rightarrow> nat \<Rightarrow> bytes" where
  "fixed_data old n = (case old of
      Some (MField _ _ _ _ (Flat bs) _) \<Rightarrow> take n bs @ replicate (n - length bs) 0
    | _ \<Rightarrow> replicate n 0)"

definition buf_data :: "mfield option \<Rightarrow> nat \<Rightarrow> bytes option list" where
  "buf_data old n = (case old of
      Some (MField _ _ _ _ (Bufs xs) _) \<Rightarrow> take n xs @ replicate (n - length xs) None
    | _ \<Rightarrow> replicate n None)"

definition msg_data :: "mfield option \<Rightarrow> nat \<Rightarrow> mmessage option list" where
  "msg_data old n = (case old of
      Some (MField _ _ _ _ (Msgs xs) _) \<Rightarrow> take n xs @ replicate (n - length xs) None
    | _ \<Rightarrow> replicate n None)"

lemma length_fixed_data [simp]: "length (fixed_data old n) = n"
  by (auto simp: fixed_data_def split: option.split mfield.split mdata.split)

lemma length_buf_data [simp]: "length (buf_data old n) = n"
  by (auto simp: buf_data_def split: option.split mfield.split mdata.split)

lemma length_msg_data [simp]: "length (msg_data old n) = n"
  by (auto simp: msg_data_def split: option.split mfield.split mdata.split)

lemma name_of_put: "0 \<in> set nm \<Longrightarrow> take (length (cstr nm)) nm @ [0] = cstr nm @ [0]"
  by (simp add: cstr_def takeWhile_eq_take [symmetric])

lemma nth_old_field_ok:
  assumes "msg_ok m" "find_last s (m_fields m) = Some i"
  shows "field_ok (m_fields m ! i)"
  using assms find_last_Some [OF assms(2)] by (simp add: msg_ok_fields list_all_length)

lemma min_items: "unat (if (a::u32) < b then a else b) = min (unat a) (unat b)"
  by (simp add: word_less_nat_alt min_def)

text \<open>The block size asked for by a \<open>Put\<close>, which has to stay below \<open>2 ^ 32\<close>.\<close>

definition put_size :: "bytes \<Rightarrow> u32 \<Rightarrow> u32 \<Rightarrow> nat" where
  "put_size nm n isz = sizeof_MMessageField + unat n * unat isz + (length (cstr nm) + 1)"

lemma Alloc_put:
  assumes "0 \<in> set nm" "0 < n" "put_size nm n isz < 2 ^ 32"
  shows "AllocMMessageField E nm (of_nat (length (cstr nm) + 1)) tc n isz k =
    Ret (if e_malloc E k (put_size nm n isz)
      then (Some (MField (cstr nm @ [0]) tc isz n (Flat (replicate (unat n * unat isz) 0)) True), Suc k)
      else (None, Suc k))"
proof -
  obtain nb :: u32 where nb_eq: "of_nat (length (cstr nm) + 1) = nb" by simp
  have nb: "unat nb = length (cstr nm) + 1"
    using assms(3) unfolding nb_eq [symmetric] by (intro unat_of_nat_u32) (simp add: put_size_def)
  have dz: "unat (n * isz) = unat n * unat isz"
    using assms(3) by (intro unat_mult_small) (simp add: put_size_def)
  have "nb \<noteq> 0" using nb by auto
  moreover have "unat nb \<le> length nm"
    using length_cstr_less [OF assms(1)] nb by simp
  moreover have "sizeof_MMessageField + unat (n * isz) + unat nb < 2 ^ 32"
    using assms(3) by (simp only: nb dz put_size_def)
  ultimately show ?thesis
    using AllocMMessageField_ok [OF assms(2), of nb nm isz E tc k]
    unfolding nb_eq by (simp add: nb dz put_size_def name_of_put [OF assms(1)])
qed

lemmas Alloc_put_simp = Alloc_put [unfolded Suc_eq_plus1 [symmetric] of_nat_Suc]

lemma put_size_pointer: "put_size nm n 8 < 2 ^ 32 \<Longrightarrow> unat n * 8 < 2 ^ 32"
  by (simp add: put_size_def)

lemma strlen_terminated [simp]: "0 \<in> set nm \<Longrightarrow> strlen_c nm = Ret (length (cstr nm))"
  by (simp add: strlen_c_def)

section \<open>The operations on every branch\<close>

lemma old_flat:
  assumes "field_ok f" "\<not> IsTypeCodeVariableSize (f_typeCode f)"
  shows "\<exists>nm n bs fl. f = MField nm (f_typeCode f) (fixed_item_size (f_typeCode f)) n (Flat bs) fl \<and>
    length bs = unat n * unat (fixed_item_size (f_typeCode f)) \<and> length bs < 2 ^ 32"
  using assms by (cases f) (auto simp: field_ok_def B_MESSAGE_TYPE_def IsTypeCodeVariableSize_def
      type_code_defs split: mdata.splits)

lemma old_bufs:
  assumes "field_ok f" "IsTypeCodeVariableSize (f_typeCode f)" "f_typeCode f \<noteq> B_MESSAGE_TYPE"
  shows "\<exists>nm n xs fl. f = MField nm (f_typeCode f) 8 n (Bufs xs) fl \<and> length xs = unat n"
  using assms by (cases f) (auto simp: field_ok_def sizeof_pointer_def split: mdata.splits)

lemma old_msgs:
  assumes "field_ok f" "f_typeCode f = B_MESSAGE_TYPE"
  shows "\<exists>nm n xs fl. f = MField nm B_MESSAGE_TYPE 8 n (Msgs xs) fl \<and> length xs = unat n"
  using assms by (cases f) (auto simp: field_ok_def sizeof_pointer_def split: mdata.splits)

lemma memcpy_run_ok:
  fixes n on isz :: u32
  assumes "length bs = unat on * unat isz" "unat on * unat isz < 2 ^ 32"
  shows "n < on \<Longrightarrow> memcpy_run (unat (n * isz)) bs (replicate (unat n * unat isz) 0) =
      Ret (take (unat n * unat isz) bs @ replicate (unat n * unat isz - unat on * unat isz) 0)"
    and "\<not> n < on \<Longrightarrow> memcpy_run (unat (on * isz)) bs (replicate (unat n * unat isz) 0) =
      Ret (take (unat n * unat isz) bs @ replicate (unat n * unat isz - unat on * unat isz) 0)"
proof -
  assume "n < on"
  then have le: "unat n * unat isz \<le> unat on * unat isz"
    by (simp add: word_less_nat_alt)
  have "unat (n * isz) = unat n * unat isz"
    by (rule unat_mult_small [OF le_less_trans [OF le assms(2)]])
  then show "memcpy_run (unat (n * isz)) bs (replicate (unat n * unat isz) 0) =
      Ret (take (unat n * unat isz) bs @ replicate (unat n * unat isz - unat on * unat isz) 0)"
    using le assms(1) by (simp add: memcpy_run_def memcpy_at_def)
next
  assume "\<not> n < on"
  then have le: "unat on * unat isz \<le> unat n * unat isz"
    by (simp add: word_less_nat_alt)
  then show "memcpy_run (unat (on * isz)) bs (replicate (unat n * unat isz) 0) =
      Ret (take (unat n * unat isz) bs @ replicate (unat n * unat isz - unat on * unat isz) 0)"
    using assms unat_mult_small [OF assms(2)] by (simp add: memcpy_run_def memcpy_at_def)
qed

lemma PutMMFixedFieldAux_spec:
  assumes "msg_ok m" "0 \<in> set nm" "0 < n" "put_size nm n isz < 2 ^ 32"
    and "\<not> IsTypeCodeVariableSize tc" "isz = fixed_item_size tc"
  shows "PutMMFixedFieldAux E m retain tc nm n isz k =
    Ret (if e_malloc E k (put_size nm n isz)
      then (True, MMessage (m_what m) (other_fields (cstr nm) (m_fields m) @
              [MField (cstr nm @ [0]) tc isz n
                (Flat (fixed_data (retained retain tc (cstr nm) (m_fields m)) (unat n * unat isz)))
                True]), Suc k)
      else (False, m, Suc k))"
proof (cases "find_last (cstr nm) (m_fields m)")
  case None
  then show ?thesis
    using assms by (simp add: PutMMFixedFieldAux_def Alloc_put_simp LookupMMessageField_ok
        other_fields_absent retained_def fixed_data_def AddMMessageField_def)
next
  case (Some i)
  let ?old = "m_fields m ! i"
  have rem: "remove_nth i (m_fields m) = other_fields (cstr nm) (m_fields m)"
    using Some assms(1) by (simp add: other_fields_present msg_ok_fields)
  show ?thesis
  proof (cases "retain \<and> f_typeCode ?old = tc")
    case True
    then obtain onm on obs ofl where old: "?old = MField onm tc isz on (Flat obs) ofl"
        "length obs = unat on * unat isz" "unat on * unat isz < 2 ^ 32"
      using old_flat [OF nth_old_field_ok [OF assms(1) Some]] assms(5,6) by auto
    note copy = memcpy_run_ok [OF old(2,3), of n]
    show ?thesis
      using assms Some True old rem copy
      by (simp add: PutMMFixedFieldAux_def Alloc_put_simp LookupMMessageField_ok retained_def
          fixed_data_def AddMMessageField_def DetachMMessageField_def with_data_def Let_def)
  next
    case False
    then show ?thesis
      using assms Some rem
      by (auto simp: PutMMFixedFieldAux_def Alloc_put_simp LookupMMessageField_ok retained_def
          fixed_data_def AddMMessageField_def DetachMMessageField_def with_data_def Let_def)
  qed
qed

lemma move_items_ok:
  "length xs = unat on \<Longrightarrow> n < on \<Longrightarrow>
     move_items (unat n) xs (unat n) = Ret (take (unat n) xs @ replicate (unat n - unat on) None)"
  "length xs = unat on \<Longrightarrow> \<not> n < on \<Longrightarrow>
     move_items (unat on) xs (unat n) = Ret (take (unat n) xs @ replicate (unat n - unat on) None)"
  by (auto simp: move_items_def word_less_nat_alt)

lemma PutMMVariableFieldAux_spec:
  assumes "msg_ok m" "0 \<in> set nm" "0 < n" "put_size nm n 8 < 2 ^ 32"
    and "IsTypeCodeVariableSize tc" "tc \<noteq> B_MESSAGE_TYPE"
  shows "PutMMVariableFieldAux E m retain tc nm n k =
    Ret (if e_malloc E k (put_size nm n 8)
      then (True, MMessage (m_what m) (other_fields (cstr nm) (m_fields m) @
              [MField (cstr nm @ [0]) tc 8 n
                (Bufs (buf_data (retained retain tc (cstr nm) (m_fields m)) (unat n))) True]), Suc k)
      else (False, m, Suc k))"
proof (cases "find_last (cstr nm) (m_fields m)")
  case None
  then show ?thesis
    using assms by (simp add: PutMMVariableFieldAux_def Alloc_put_simp LookupMMessageField_ok slots_def
        other_fields_absent retained_def buf_data_def AddMMessageField_def sizeof_pointer_def
        with_data_def)
next
  case (Some i)
  let ?old = "m_fields m ! i"
  have rem: "remove_nth i (m_fields m) = other_fields (cstr nm) (m_fields m)"
    using Some assms(1) by (simp add: other_fields_present msg_ok_fields)
  show ?thesis
  proof (cases "retain \<and> f_typeCode ?old = tc")
    case True
    then obtain onm on xs ofl where old: "?old = MField onm tc 8 on (Bufs xs) ofl"
        "length xs = unat on"
      using old_bufs [OF nth_old_field_ok [OF assms(1) Some]] assms(5,6) by auto
    show ?thesis
      using assms Some True old rem
      by (simp add: PutMMVariableFieldAux_def Alloc_put_simp LookupMMessageField_ok retained_def
          buf_data_def AddMMessageField_def DetachMMessageField_def with_data_def Let_def
          move_items_ok slots_def sizeof_pointer_def)
  next
    case False
    then show ?thesis
      using assms Some rem
      by (auto simp: PutMMVariableFieldAux_def Alloc_put_simp LookupMMessageField_ok retained_def
          buf_data_def AddMMessageField_def DetachMMessageField_def with_data_def Let_def
          slots_def sizeof_pointer_def)
  qed
qed

lemma MMPutMessageField_spec:
  assumes "msg_ok m" "0 \<in> set nm" "0 < n" "put_size nm n 8 < 2 ^ 32"
  shows "MMPutMessageField E m retain nm n k =
    Ret (if e_malloc E k (put_size nm n 8)
      then (True, MMessage (m_what m) (other_fields (cstr nm) (m_fields m) @
              [MField (cstr nm @ [0]) B_MESSAGE_TYPE 8 n
                (Msgs (msg_data (retained retain B_MESSAGE_TYPE (cstr nm) (m_fields m)) (unat n)))
                True]), Suc k)
      else (False, m, Suc k))"
proof (cases "find_last (cstr nm) (m_fields m)")
  case None
  then show ?thesis
    using assms by (simp add: MMPutMessageField_def Alloc_put_simp LookupMMessageField_ok slots_def
        other_fields_absent retained_def msg_data_def AddMMessageField_def sizeof_pointer_def
        with_data_def)
next
  case (Some i)
  let ?old = "m_fields m ! i"
  have rem: "remove_nth i (m_fields m) = other_fields (cstr nm) (m_fields m)"
    using Some assms(1) by (simp add: other_fields_present msg_ok_fields)
  show ?thesis
  proof (cases "retain \<and> f_typeCode ?old = B_MESSAGE_TYPE")
    case True
    then obtain onm on xs ofl where old: "?old = MField onm B_MESSAGE_TYPE 8 on (Msgs xs) ofl"
        "length xs = unat on"
      using old_msgs [OF nth_old_field_ok [OF assms(1) Some]] by auto
    show ?thesis
      using assms Some True old rem
      by (simp add: MMPutMessageField_def Alloc_put_simp LookupMMessageField_ok retained_def
          msg_data_def AddMMessageField_def DetachMMessageField_def with_data_def Let_def
          move_items_ok slots_def sizeof_pointer_def)
  next
    case False
    then show ?thesis
      using assms Some rem
      by (auto simp: MMPutMessageField_def Alloc_put_simp LookupMMessageField_ok retained_def
          msg_data_def AddMMessageField_def DetachMMessageField_def with_data_def Let_def
          slots_def sizeof_pointer_def)
  qed
qed

section \<open>Renaming\<close>

definition renamed :: "bytes \<Rightarrow> mfield \<Rightarrow> mfield" where
  "renamed nm f = MField (cstr nm @ [0]) (f_typeCode f) (f_itemSize f) (f_numItems f)
     (f_data f) (f_isFlattenable f)"

definition renamed_fields :: "bytes \<Rightarrow> bytes \<Rightarrow> mfield list \<Rightarrow> mfield list" where
  "renamed_fields old new fs =
     map (\<lambda>f. if cstr (f_name f) = cstr old then renamed new f else f) (other_fields (cstr new) fs)"

lemma header_ok_block:
  assumes "header_ok f"
  shows "unat (f_numItems f * f_itemSize f) = unat (f_numItems f) * unat (f_itemSize f)"
proof (cases f)
  case (MField nm tc isz n d fl)
  have "unat n * unat isz < 2 ^ 32"
    using assms by (cases d) (auto simp: MField sizeof_pointer_def)
  then show ?thesis by (simp add: MField unat_mult_small)
qed

lemma update_named:
  assumes "distinct (names fs)" "i < length fs" "cstr (f_name (fs ! i)) = s"
  shows "fs[i := h (fs ! i)] = map (\<lambda>f. if cstr (f_name f) = s then h f else f) fs"
proof (rule nth_equalityI)
  fix j assume j: "j < length (fs[i := h (fs ! i)])"
  have "cstr (f_name (fs ! j)) = s \<longleftrightarrow> j = i"
    using nth_eq_iff_index_eq [OF assms(1), of j i] assms(2,3) j by simp
  then show "fs[i := h (fs ! i)] ! j = map (\<lambda>f. if cstr (f_name f) = s then h f else f) fs ! j"
    using j by (simp add: nth_list_update)
qed simp

lemma remove_nth_map: "remove_nth i (map h fs) = map h (remove_nth i fs)"
  by (simp add: remove_nth_def take_map drop_map)

lemma names_renamed_fields:
  "names (renamed_fields old new fs) =
    map (\<lambda>n. if n = cstr old then cstr new else n) (filter (\<lambda>n. n \<noteq> cstr new) (names fs))"
  using nul_not_in_cstr [of new] unfolding names_other_fields [symmetric]
  by (simp add: renamed_fields_def names_def renamed_def cstr_append_nul)

lemma distinct_renamed_fields: "distinct (names fs) \<Longrightarrow> distinct (names (renamed_fields old new fs))"
  unfolding names_renamed_fields distinct_map by (auto simp: inj_on_def)

lemma MMRenameField_spec:
  assumes "msg_ok m" "0 \<in> set old" "0 \<in> set new" "length (cstr new) + 1 < 2 ^ 31"
    and "find_last (cstr old) (m_fields m) = Some i" "f = m_fields m ! i"
    and fit: "put_size new (f_numItems f) (f_itemSize f) < 2 ^ 32"
  shows "MMRenameField E m old new k =
    Ret (if cstr old = cstr new then (B_NO_ERROR, m, k)
         else if length (f_name f) = length (cstr new) + 1
           then (B_NO_ERROR, MMessage (m_what m) (renamed_fields old new (m_fields m)), k)
         else if e_malloc E k (put_size new (f_numItems f) (f_itemSize f))
           then (B_NO_ERROR, MMessage (m_what m) (renamed_fields old new (m_fields m)), Suc k)
         else (B_ERROR, m, Suc k))"
proof (cases "cstr old = cstr new")
  case True
  then show ?thesis using assms(2,3) by (simp add: MMRenameField_def streq_c_terminated)
next
  case False
  let ?fs = "m_fields m" and ?h = "\<lambda>g. if cstr (f_name g) = cstr old then renamed new g else g"
  have dist: "distinct (names ?fs)" and i: "i < length ?fs" "cstr (f_name f) = cstr old"
    using assms(1) find_last_Some [OF assms(5)] assms(6) by (simp_all add: msg_ok_fields)
  have nm: "take (length (cstr new) + 1) new = cstr new @ [0]"
    using cstr_take [OF assms(3)] by simp
  have upd: "?fs[i := renamed new f] = map ?h ?fs"
    using update_named [OF dist i(1), of "cstr old" "renamed new"] i(2) assms(6) by simp
  have fin: "(case find_last (cstr new) ?fs of
        None \<Rightarrow> MMessage (m_what m) (?fs[i := renamed new f])
      | Some j \<Rightarrow> DetachMMessageField (MMessage (m_what m) (?fs[i := renamed new f])) j)
    = MMessage (m_what m) (renamed_fields old new ?fs)"
    using other_fields_present [OF dist] unfolding upd
    by (auto simp: DetachMMessageField_def remove_nth_map renamed_fields_def other_fields_absent
        split: option.split)
  have D: "unat (f_numItems f * f_itemSize f) = unat (f_numItems f) * unat (f_itemSize f)"
    using nth_old_field_ok [OF assms(1,5)] assms(6) by (simp add: field_ok_def header_ok_block)
  have sz: "f_allocSize f + (of_nat (length (cstr new) + 1) - of_nat (length (f_name f)))
      = of_nat (put_size new (f_numItems f) (f_itemSize f))"
    by (simp add: f_allocSize_def put_size_def D)
  have us: "unat (of_nat (put_size new (f_numItems f) (f_itemSize f)) :: u32)
      = put_size new (f_numItems f) (f_itemSize f)"
    using fit by (rule unat_of_nat_u32)
  have room: "sizeof_MMessageField + unat (f_numItems f * f_itemSize f) + (length (cstr new) + 1)
      \<le> put_size new (f_numItems f) (f_itemSize f)"
    by (simp add: D put_size_def)
  have lo: "LookupMMessageField m old B_ANY_TYPE = Ret (Some i)"
    using assms(1,2,5) by (simp add: LookupMMessageField_ok)
  have ln: "LookupMMessageField m new B_ANY_TYPE = Ret (find_last (cstr new) ?fs)"
    using assms(1,3) by (simp add: LookupMMessageField_ok split: option.split)
  have body: "MMRenameField E m old new k =
    (if length (cstr new) + 1 = length (f_name f)
       then Ret (B_NO_ERROR, MMessage (m_what m) (renamed_fields old new ?fs), k)
     else if e_malloc E k (put_size new (f_numItems f) (f_itemSize f))
       then bind_run (guard (sizeof_MMessageField + unat (f_numItems f * f_itemSize f) +
              (length (cstr new) + 1) \<le> put_size new (f_numItems f) (f_itemSize f))) (\<lambda>_.
            Ret (B_NO_ERROR, MMessage (m_what m) (renamed_fields old new ?fs), Suc k))
     else Ret (B_ERROR, m, Suc k))"
    using False assms(2-4)
    by (simp only: MMRenameField_def streq_c_terminated lo ln bind_run.simps option.case
        strlen_terminated guard_simps assms(6) [symmetric] nm renamed_def [symmetric] fin sz us Let_def
        if_False)
  show ?thesis
    unfolding body using False room by auto
qed

section \<open>The invariant is preserved\<close>

lemma msg_ok_put:
  assumes "msg_ok m" "field_ok f" "cstr (f_name f) = s"
  shows "msg_ok (MMessage w (other_fields s (m_fields m) @ [f]))"
  using assms distinct_names_replace [OF _ assms(3)]
  by (simp add: msg_ok_fields list_all_other_fields)

lemma msg_ok_remove: "msg_ok m \<Longrightarrow> msg_ok (MMessage w (other_fields s (m_fields m)))"
  by (simp add: msg_ok_fields list_all_other_fields names_other_fields)

lemma name_ok_put: "length (cstr nm) + 1 < 2 ^ 32 \<Longrightarrow> name_ok (cstr nm @ [0])"
  using nul_not_in_cstr [of nm] by (simp add: name_ok_def cstr_append_nul)

lemma cstr_put_name [simp]: "cstr (cstr nm @ [0]) = cstr nm"
  using nul_not_in_cstr [of nm] by (simp add: cstr_append_nul)

lemma field_ok_put_fixed:
  assumes "0 < n" "put_size nm n isz < 2 ^ 32" "\<not> IsTypeCodeVariableSize tc" "tc \<noteq> B_POINTER_TYPE"
    and "isz = fixed_item_size tc" "length bs = unat n * unat isz"
  shows "field_ok (MField (cstr nm @ [0]) tc isz n (Flat bs) True)"
  using assms by (simp add: field_ok_def items_ok_def name_ok_put put_size_def)

lemma field_ok_put_bufs:
  assumes "0 < n" "put_size nm n 8 < 2 ^ 32" "IsTypeCodeVariableSize tc" "tc \<noteq> B_MESSAGE_TYPE"
    and "length xs = unat n" "\<And>b. Some b \<in> set xs \<Longrightarrow> length b < 2 ^ 32"
  shows "field_ok (MField (cstr nm @ [0]) tc 8 n (Bufs xs) True)"
proof -
  have "tc \<noteq> B_POINTER_TYPE" using assms(3) by auto
  then show ?thesis
    using assms by (auto simp: field_ok_def items_ok_def name_ok_put put_size_def sizeof_pointer_def
        split: option.split)
qed

lemma field_ok_put_msgs:
  assumes "0 < n" "put_size nm n 8 < 2 ^ 32" "length xs = unat n" "\<And>m. Some m \<in> set xs \<Longrightarrow> msg_ok m"
  shows "field_ok (MField (cstr nm @ [0]) B_MESSAGE_TYPE 8 n (Msgs xs) True)"
  using assms by (simp add: field_ok_def items_ok_def name_ok_put put_size_def sizeof_pointer_def
      type_code_defs)

lemma retained_field:
  assumes "msg_ok m" "retained retain tc s (m_fields m) = Some f"
  shows "field_ok f \<and> f \<in> set (m_fields m) \<and> f_typeCode f = tc"
proof -
  obtain i where i: "find_last s (m_fields m) = Some i" "f = m_fields m ! i" "f_typeCode f = tc"
    using assms(2) by (auto simp: retained_def split: option.splits if_splits)
  then show ?thesis
    using nth_old_field_ok [OF assms(1) i(1)] find_last_Some [OF i(1)] by auto
qed

lemma buf_data_item:
  assumes "msg_ok m" "Some b \<in> set (buf_data (retained retain tc s (m_fields m)) n)"
  shows "length b < 2 ^ 32"
proof (cases "retained retain tc s (m_fields m)")
  case (Some f)
  have "field_ok f" using retained_field [OF assms(1) Some] by simp
  then show ?thesis
    using assms(2) Some by (cases f) (auto simp: buf_data_def field_ok_def split: mdata.splits
        dest!: in_set_takeD)
qed (use assms(2) in \<open>simp add: buf_data_def\<close>)

lemma msg_data_item:
  assumes "msg_ok m" "Some a \<in> set (msg_data (retained retain tc s (m_fields m)) n)"
  shows "msg_ok a"
proof (cases "retained retain tc s (m_fields m)")
  case (Some f)
  have "field_ok f" using retained_field [OF assms(1) Some] by simp
  then show ?thesis
    using assms(2) Some by (cases f) (auto simp: msg_data_def field_ok_def items_ok_def
        split: mdata.splits dest!: in_set_takeD)
qed (use assms(2) in \<open>simp add: msg_data_def\<close>)

lemma msg_ok_rename:
  assumes "msg_ok m" "length (cstr new) + 1 < 2 ^ 32"
  shows "msg_ok (MMessage w (renamed_fields old new (m_fields m)))"
proof -
  have "field_ok (renamed new f)" if "field_ok f" for f
    using that name_ok_put [OF assms(2)]
    by (cases f) (auto simp: field_ok_def items_ok_def renamed_def)
  then show ?thesis
    using assms(1) distinct_renamed_fields list_all_other_fields [of field_ok "m_fields m" "cstr new"]
    by (auto simp: msg_ok_fields renamed_fields_def list_all_iff)
qed

section \<open>What a look-up finds afterwards\<close>

definition field_named :: "bytes \<Rightarrow> mfield list \<Rightarrow> mfield option" where
  "field_named s fs = map_option (\<lambda>i. fs ! i) (find_last s fs)"

lemma field_named_iff:
  assumes "distinct (names fs)"
  shows "field_named s fs = Some f \<longleftrightarrow> f \<in> set fs \<and> cstr (f_name f) = s"
proof
  assume "field_named s fs = Some f"
  then show "f \<in> set fs \<and> cstr (f_name f) = s"
    using find_last_Some [of s fs] by (auto simp: field_named_def)
next
  assume "f \<in> set fs \<and> cstr (f_name f) = s"
  then obtain i where "i < length fs" "f = fs ! i" "cstr (f_name (fs ! i)) = s"
    by (auto simp: in_set_conv_nth)
  then show "field_named s fs = Some f"
    using find_last_distinct [OF assms] by (simp add: field_named_def)
qed

lemma field_named_eqI:
  assumes "distinct (names fs)" "distinct (names gs)"
    and "\<And>f. cstr (f_name f) = s \<Longrightarrow> f \<in> set fs \<longleftrightarrow> f \<in> set gs"
  shows "field_named s fs = field_named s gs"
  by (rule option.expand) (use assms field_named_iff in \<open>metis option.collapse option.exhaust_sel\<close>)+

lemma field_named_put:
  assumes "distinct (names fs)" "cstr (f_name f) = s"
  shows "field_named t (other_fields s fs @ [f]) = (if t = s then Some f else field_named t fs)"
proof (cases "t = s")
  case True
  then show ?thesis
    using field_named_iff [OF distinct_names_replace [OF assms]] assms(2) by simp
next
  case False
  then show ?thesis
    using assms distinct_names_replace [OF assms]
    by (auto intro!: field_named_eqI simp: other_fields_def)
qed

lemma GetFieldDataAux_ok:
  assumes "msg_ok m" "0 \<in> set nm"
  shows "GetFieldDataAux m nm tc =
    Ret (case field_named (cstr nm) (m_fields m) of
           None \<Rightarrow> None
         | Some f \<Rightarrow> if tc = B_ANY_TYPE \<or> tc = f_typeCode f then Some (f_data f, f_numItems f) else None)"
proof -
  have "0 < f_numItems f" if "f \<in> set (m_fields m)" for f
    using assms(1) that by (cases f) (auto simp: msg_ok_fields list_all_iff field_ok_def)
  then show ?thesis
    using assms find_last_Some [of "cstr nm" "m_fields m"]
    by (auto simp: GetFieldDataAux_def LookupMMessageField_ok field_named_def Let_def split: option.split)
qed

section \<open>The contract of the operations\<close>

text \<open>
  What a \<open>Put\<close> means: the field with the same name, if any, goes and the new one comes
  last.
\<close>

definition put_field :: "mmessage \<Rightarrow> mfield \<Rightarrow> mmessage" where
  "put_field m f = MMessage (m_what m) (other_fields (cstr (f_name f)) (m_fields m) @ [f])"

text \<open>
  C9: A \<open>Put\<close> of a field with fixed-size items either replaces or appends the field, with
  the old items retained on request as far as there is room and zeroes after them, or fails
  for lack of memory and leaves the message alone; well-formedness is preserved.
\<close>

theorem put_fixed_field:
  assumes "msg_ok m" "0 \<in> set nm" "0 < n" "put_size nm n isz < 2 ^ 32"
    and "\<not> IsTypeCodeVariableSize tc" "tc \<noteq> B_POINTER_TYPE" "isz = fixed_item_size tc"
    and "f = MField (cstr nm @ [0]) tc isz n
      (Flat (fixed_data (retained retain tc (cstr nm) (m_fields m)) (unat n * unat isz))) True"
  shows "PutMMFixedFieldAux E m retain tc nm n isz k =
      Ret (if e_malloc E k (put_size nm n isz) then (True, put_field m f, Suc k) else (False, m, Suc k))
    \<and> msg_ok (put_field m f)"
proof -
  have "field_ok f"
    unfolding assms(8) by (rule field_ok_put_fixed [OF assms(3-7)]) simp
  then have "msg_ok (put_field m f)"
    unfolding put_field_def by (rule msg_ok_put [OF assms(1)]) simp
  then show ?thesis
    using PutMMFixedFieldAux_spec [OF assms(1-5,7)] by (simp add: put_field_def assms(8))
qed

definition ex_int32_field :: mfield where
  "ex_int32_field = MField [97, 0] B_INT32_TYPE 4 1 (Flat [1, 2, 3, 4]) True"

definition ex_message :: mmessage where
  "ex_message = MMessage 7 [ex_int32_field]"

lemma ex_message_ok [simp]: "msg_ok ex_message"
  by (simp add: ex_message_def ex_int32_field_def msg_ok_iff name_ok_def)

theorem put_fixed_field_witness:
  "PutMMFixedFieldAux ex_env ex_message True B_INT32_TYPE [97, 0] 2 4 0 =
    Ret (True, MMessage 7 [MField [97, 0] B_INT32_TYPE 4 2 (Flat [1, 2, 3, 4, 0, 0, 0, 0]) True], 1)"
proof -
  have fd: "fixed_data (retained True B_INT32_TYPE (cstr [97, 0]) (m_fields ex_message)) (unat (2 :: u32) * unat (4 :: u32))
      = [1, 2, 3, 4, 0, 0, 0, 0]"
    by (simp add: retained_def fixed_data_def ex_message_def ex_int32_field_def replicate_small)
  have "put_size [97, 0] 2 4 < 2 ^ 32" by (simp add: put_size_def sizeof_defs)
  note put_fixed_field [OF ex_message_ok _ _ this _ _ _ refl,
    where tc = B_INT32_TYPE and retain = True and E = ex_env and k = 0]
  then show ?thesis unfolding fd
    by (simp add: put_field_def ex_message_def ex_int32_field_def other_fields_def)
qed

text \<open>
  A \<open>Put\<close> of a field of byte buffers (strings and data blobs) keeps the buffers of an
  old field of the same type on request, sets the other slots to \<open>NULL\<close>, and leaves the
  message alone if memory runs out; well-formedness is preserved.
\<close>

theorem put_buffer_field:
  assumes "msg_ok m" "0 \<in> set nm" "0 < n" "put_size nm n 8 < 2 ^ 32"
    and "IsTypeCodeVariableSize tc" "tc \<noteq> B_MESSAGE_TYPE"
    and "f = MField (cstr nm @ [0]) tc 8 n
      (Bufs (buf_data (retained retain tc (cstr nm) (m_fields m)) (unat n))) True"
  shows "PutMMVariableFieldAux E m retain tc nm n k =
      Ret (if e_malloc E k (put_size nm n 8) then (True, put_field m f, Suc k) else (False, m, Suc k))
    \<and> msg_ok (put_field m f)"
proof -
  have "field_ok f"
    unfolding assms(7) by (rule field_ok_put_bufs [OF assms(3-6)]) (use buf_data_item [OF assms(1)] in auto)
  then have "msg_ok (put_field m f)"
    unfolding put_field_def by (rule msg_ok_put [OF assms(1)]) simp
  then show ?thesis
    using PutMMVariableFieldAux_spec [OF assms(1-6)] by (simp add: put_field_def assms(7))
qed

theorem put_buffer_field_witness:
  "PutMMVariableFieldAux ex_env ex_message True B_STRING_TYPE [97, 0] 2 0 =
    Ret (True, MMessage 7 [MField [97, 0] B_STRING_TYPE 8 2 (Bufs [None, None]) True], 1)"
  using put_buffer_field [OF ex_message_ok, of "[97, 0]" 2 B_STRING_TYPE _ True ex_env 0, OF _ _ _ _ _ refl]
  by (simp add: put_size_def sizeof_defs put_field_def ex_message_def ex_int32_field_def
      other_fields_def retained_def buf_data_def replicate_small)

text \<open>
  A \<open>Put\<close> of a field of messages keeps the messages of an old message field on request,
  sets the other slots to \<open>NULL\<close>, and leaves the message alone if memory runs out;
  well-formedness, which includes that of the messages kept, is preserved.
\<close>

theorem put_message_field:
  assumes "msg_ok m" "0 \<in> set nm" "0 < n" "put_size nm n 8 < 2 ^ 32"
    and "f = MField (cstr nm @ [0]) B_MESSAGE_TYPE 8 n
      (Msgs (msg_data (retained retain B_MESSAGE_TYPE (cstr nm) (m_fields m)) (unat n))) True"
  shows "MMPutMessageField E m retain nm n k =
      Ret (if e_malloc E k (put_size nm n 8) then (True, put_field m f, Suc k) else (False, m, Suc k))
    \<and> msg_ok (put_field m f)"
proof -
  have "field_ok f"
    unfolding assms(5) by (rule field_ok_put_msgs [OF assms(3-4)]) (use msg_data_item [OF assms(1)] in auto)
  then have "msg_ok (put_field m f)"
    unfolding put_field_def by (rule msg_ok_put [OF assms(1)]) simp
  then show ?thesis
    using MMPutMessageField_spec [OF assms(1-4)] by (simp add: put_field_def assms(5))
qed

definition ex_tree :: mmessage where
  "ex_tree = MMessage 1 [MField [98, 0] B_MESSAGE_TYPE 8 1 (Msgs [Some ex_message]) True]"

lemma ex_tree_ok [simp]: "msg_ok ex_tree"
  by (auto simp: ex_tree_def msg_ok_iff name_ok_def sizeof_pointer_def)

theorem put_message_field_witness:
  "MMPutMessageField ex_env ex_tree True [98, 0] 2 0 = Ret (True,
     MMessage 1 [MField [98, 0] B_MESSAGE_TYPE 8 2 (Msgs [Some ex_message, None]) True], 1)"
proof -
  have md: "msg_data (retained True B_MESSAGE_TYPE (cstr [98, 0]) (m_fields ex_tree)) (unat (2 :: u32))
      = [Some ex_message, None]"
    by (simp add: retained_def msg_data_def ex_tree_def)
  have "put_size [98, 0] 2 8 < 2 ^ 32" by (simp add: put_size_def sizeof_defs)
  note put_message_field [OF ex_tree_ok _ _ this refl, where retain = True and E = ex_env and k = 0]
  then show ?thesis unfolding md
    by (simp add: put_field_def ex_tree_def other_fields_def)
qed

text \<open>
  A pointer field goes in as a fixed-size field and is then marked as not flattenable.
\<close>

lemma field_ok_put_pointer:
  assumes "0 < n" "put_size nm n 8 < 2 ^ 32" "length bs = unat n * 8"
  shows "field_ok (MField (cstr nm @ [0]) B_POINTER_TYPE 8 n (Flat bs) False)"
  using assms by (simp add: field_ok_def items_ok_def name_ok_put put_size_def)

text \<open>
  A \<open>Put\<close> of a field of pointers behaves like the other fixed-size ones, except that
  the field is marked as not flattenable, so that pointers never go over the wire.
\<close>

theorem put_pointer_field:
  assumes "msg_ok m" "0 \<in> set nm" "0 < n" "put_size nm n 8 < 2 ^ 32"
    and "f = MField (cstr nm @ [0]) B_POINTER_TYPE 8 n
      (Flat (fixed_data (retained retain B_POINTER_TYPE (cstr nm) (m_fields m)) (unat n * 8))) False"
  shows "MMPutPointerField E m retain nm n k =
      Ret (if e_malloc E k (put_size nm n 8) then (True, put_field m f, Suc k) else (False, m, Suc k))
    \<and> msg_ok (put_field m f)"
proof -
  let ?fs = "other_fields (cstr nm) (m_fields m)"
  let ?g = "MField (cstr nm @ [0]) B_POINTER_TYPE 8 n (f_data f) True"
  let ?m = "MMessage (m_what m) (?fs @ [?g])"
  have "field_ok f"
    unfolding assms(5) by (rule field_ok_put_pointer [OF assms(3,4)]) simp
  then have ok: "msg_ok (put_field m f)"
    unfolding put_field_def by (rule msg_ok_put [OF assms(1)]) simp
  have "list_all (\<lambda>f. 0 \<in> set (f_name f)) (?fs @ [?g])"
    using assms(1) names_terminated list_all_other_fields by (simp add: msg_ok_fields)
  then have "LookupMMessageField ?m nm B_POINTER_TYPE = Ret (Some (length ?fs))"
    using assms(2) find_last_append [of ?g "cstr nm" "[]" ?fs]
    by (simp add: LookupMMessageField_def LookupAux_find_last del: list_all_append rev_append)
  then show ?thesis
    using PutMMFixedFieldAux_spec [OF assms(1-4), of B_POINTER_TYPE E retain k] ok
    by (simp add: MMPutPointerField_def sizeof_pointer_def put_field_def assms(5) Let_def)
qed

theorem put_pointer_field_witness:
  "MMPutPointerField ex_env (MMessage 0 []) False [112, 0] 1 0 = Ret (True,
     MMessage 0 [MField [112, 0] B_POINTER_TYPE 8 1 (Flat [0, 0, 0, 0, 0, 0, 0, 0]) False], 1)"
proof -
  have fd: "fixed_data (retained False B_POINTER_TYPE (cstr [112, 0]) (m_fields (MMessage 0 []))) (unat (1 :: u32) * 8)
      = [0, 0, 0, 0, 0, 0, 0, 0]"
    by (simp add: retained_def fixed_data_def numeral_eq_Suc)
  have "msg_ok (MMessage 0 [])" by (simp add: msg_ok_iff)
  moreover have "put_size [112, 0] 1 8 < 2 ^ 32" by (simp add: put_size_def sizeof_defs)
  ultimately show ?thesis
    using put_pointer_field [OF _ _ _ _ refl, where m = "MMessage 0 []" and nm = "[112, 0]" and n = 1
        and retain = False and E = ex_env and k = 0]
    unfolding fd by (simp add: put_field_def other_fields_def)
qed

section \<open>Every \<open>Put\<close> of the interface, and the look-up after it\<close>

text \<open>
  The \<open>MMPut...Field\<close> functions under one name, for the statement of what they have in
  common: the type code, the size of an item and the data each gives to its new field.
\<close>

datatype put_op = PutString | PutBool | PutInt8 | PutInt16 | PutInt32 | PutInt64 | PutFloat
  | PutDouble | PutMessage | PutPointer | PutPoint | PutRect | PutData u32

fun run_put :: "env \<Rightarrow> mmessage \<Rightarrow> bool \<Rightarrow> put_op \<Rightarrow> bytes \<Rightarrow> u32 \<Rightarrow> nat \<Rightarrow> (bool \<times> mmessage \<times> nat) run" where
  "run_put E m retain PutString nm n k = MMPutStringField E m retain nm n k"
| "run_put E m retain PutBool nm n k = MMPutBoolField E m retain nm n k"
| "run_put E m retain PutInt8 nm n k = MMPutInt8Field E m retain nm n k"
| "run_put E m retain PutInt16 nm n k = MMPutInt16Field E m retain nm n k"
| "run_put E m retain PutInt32 nm n k = MMPutInt32Field E m retain nm n k"
| "run_put E m retain PutInt64 nm n k = MMPutInt64Field E m retain nm n k"
| "run_put E m retain PutFloat nm n k = MMPutFloatField E m retain nm n k"
| "run_put E m retain PutDouble nm n k = MMPutDoubleField E m retain nm n k"
| "run_put E m retain PutMessage nm n k = MMPutMessageField E m retain nm n k"
| "run_put E m retain PutPointer nm n k = MMPutPointerField E m retain nm n k"
| "run_put E m retain PutPoint nm n k = MMPutPointField E m retain nm n k"
| "run_put E m retain PutRect nm n k = MMPutRectField E m retain nm n k"
| "run_put E m retain (PutData tc) nm n k = MMPutDataField E m retain tc nm n k"

fun put_type :: "put_op \<Rightarrow> u32" where
  "put_type PutString = B_STRING_TYPE"
| "put_type PutBool = B_BOOL_TYPE"
| "put_type PutInt8 = B_INT8_TYPE"
| "put_type PutInt16 = B_INT16_TYPE"
| "put_type PutInt32 = B_INT32_TYPE"
| "put_type PutInt64 = B_INT64_TYPE"
| "put_type PutFloat = B_FLOAT_TYPE"
| "put_type PutDouble = B_DOUBLE_TYPE"
| "put_type PutMessage = B_MESSAGE_TYPE"
| "put_type PutPointer = B_POINTER_TYPE"
| "put_type PutPoint = B_POINT_TYPE"
| "put_type PutRect = B_RECT_TYPE"
| "put_type (PutData tc) = tc"

text \<open>The items of strings, data blobs, messages and pointers are pointers.\<close>

fun put_item_size :: "put_op \<Rightarrow> u32" where
  "put_item_size PutBool = 1"
| "put_item_size PutInt8 = 1"
| "put_item_size PutInt16 = 2"
| "put_item_size PutInt32 = 4"
| "put_item_size PutFloat = 4"
| "put_item_size PutRect = 16"
| "put_item_size op = 8"

definition put_data :: "mmessage \<Rightarrow> bool \<Rightarrow> put_op \<Rightarrow> bytes \<Rightarrow> u32 \<Rightarrow> mdata" where
  "put_data m retain op nm n =
     (let old = retained retain (put_type op) (cstr nm) (m_fields m)
      in if op = PutMessage then Msgs (msg_data old (unat n))
         else if IsTypeCodeVariableSize (put_type op) then Bufs (buf_data old (unat n))
         else Flat (fixed_data old (unat n * unat (put_item_size op))))"

text \<open>\<open>MMPutDataField\<close> refuses the types that have a function of their own.\<close>

fun put_op_ok :: "put_op \<Rightarrow> bool" where
  "put_op_ok (PutData tc) = (IsTypeCodeVariableSize tc \<and> tc \<noteq> B_MESSAGE_TYPE)"
| "put_op_ok op = True"

definition put_result :: "mmessage \<Rightarrow> bool \<Rightarrow> put_op \<Rightarrow> bytes \<Rightarrow> u32 \<Rightarrow> mfield" where
  "put_result m retain op nm n = MField (cstr nm @ [0]) (put_type op) (put_item_size op) n
     (put_data m retain op nm n) (op \<noteq> PutPointer)"

text \<open>The functions for one size of item, all of them \<open>PutMMFixedFieldAux\<close>.\<close>

definition fixed_put :: "put_op \<Rightarrow> bool" where
  "fixed_put op \<longleftrightarrow> op \<in> {PutBool, PutInt8, PutInt16, PutInt32, PutInt64, PutFloat, PutDouble,
     PutPoint, PutRect}"

lemma fixed_put_facts:
  assumes "fixed_put op"
  shows "\<not> IsTypeCodeVariableSize (put_type op)" "put_type op \<noteq> B_POINTER_TYPE"
    "put_item_size op = fixed_item_size (put_type op)" "op \<noteq> PutMessage" "op \<noteq> PutPointer"
  using assms by (auto simp: fixed_put_def IsTypeCodeVariableSize_def fixed_item_size_def type_code_defs)

lemma run_put_fixed:
  "fixed_put op \<Longrightarrow> run_put E m retain op nm n k =
     PutMMFixedFieldAux E m retain (put_type op) nm n (put_item_size op) k"
  by (auto simp: fixed_put_def MMPutBoolField_def MMPutInt8Field_def MMPutInt16Field_def
      MMPutInt32Field_def MMPutInt64Field_def MMPutFloatField_def MMPutDoubleField_def
      MMPutPointField_def MMPutRectField_def)

lemma put_op_cases [consumes 1, case_names fixed buffer message pointer]:
  assumes "put_op_ok op"
  obtains "fixed_put op"
  | "op \<noteq> PutMessage" "op \<noteq> PutPointer" "IsTypeCodeVariableSize (put_type op)"
    "put_type op \<noteq> B_MESSAGE_TYPE" "put_item_size op = 8"
    "\<And>E m retain nm n k. run_put E m retain op nm n k =
        PutMMVariableFieldAux E m retain (put_type op) nm n k"
  | "op = PutMessage"
  | "op = PutPointer"
  using assms
  by (cases op) (auto simp: fixed_put_def MMPutStringField_def MMPutDataField_def)

lemma run_put_spec:
  assumes "msg_ok m" "0 \<in> set nm" "0 < n" "put_size nm n (put_item_size op) < 2 ^ 32" "put_op_ok op"
  shows "run_put E m retain op nm n k =
      Ret (if e_malloc E k (put_size nm n (put_item_size op))
           then (True, put_field m (put_result m retain op nm n), Suc k) else (False, m, Suc k))
    \<and> field_ok (put_result m retain op nm n)"
  using assms(5)
proof (cases op rule: put_op_cases)
  case fixed
  note facts = fixed_put_facts [OF fixed]
  show ?thesis
    using PutMMFixedFieldAux_spec [OF assms(1-4) facts(1,3)]
      field_ok_put_fixed [OF assms(3,4) facts(1-3) length_fixed_data]
    by (simp add: run_put_fixed [OF fixed] put_field_def put_result_def put_data_def facts)
next
  case buffer
  show ?thesis
    using PutMMVariableFieldAux_spec [OF assms(1-3) _ buffer(3,4)] buffer assms(4)
      field_ok_put_bufs [OF assms(3) _ buffer(3,4) length_buf_data buf_data_item [OF assms(1)]]
    by (simp add: put_field_def put_result_def put_data_def)
next
  case message
  show ?thesis
    using MMPutMessageField_spec [OF assms(1-3)] assms(4)
      field_ok_put_msgs [OF assms(3) _ length_msg_data msg_data_item [OF assms(1)]]
    by (simp add: message put_field_def put_result_def put_data_def)
next
  case pointer
  show ?thesis
    using put_pointer_field [OF assms(1-3) _ refl] assms(4)
      field_ok_put_pointer [OF assms(3) _ length_fixed_data]
    by (simp add: pointer put_field_def put_result_def put_data_def)
qed

lemma get_put_field:
  assumes "msg_ok m" "field_ok f" "0 \<in> set nm"
  shows "GetFieldDataAux (put_field m f) nm tc =
    (if cstr nm = cstr (f_name f)
     then Ret (if tc = B_ANY_TYPE \<or> tc = f_typeCode f then Some (f_data f, f_numItems f) else None)
     else GetFieldDataAux m nm tc)"
proof -
  have "msg_ok (put_field m f)"
    unfolding put_field_def by (rule msg_ok_put [OF assms(1,2) refl])
  moreover have "distinct (names (m_fields m))" using assms(1) by (simp add: msg_ok_fields)
  ultimately show ?thesis
    using assms by (simp add: GetFieldDataAux_ok put_field_def field_named_put)
qed

text \<open>
  C10: Every \<open>MMPut...Field\<close> makes one request for memory. Granted, the message stays
  well-formed, a look-up under the name that was put finds the new data if the type code
  asked for is that of the operation or \<open>B_ANY_TYPE\<close> and nothing otherwise, and a look-up
  under any other name finds what it found before. Refused, the message is unchanged.
\<close>

theorem get_after_put:
  assumes "msg_ok m" "0 \<in> set nm" "0 < n" "put_size nm n (put_item_size op) < 2 ^ 32" "put_op_ok op"
  shows "if e_malloc E k (put_size nm n (put_item_size op))
    then \<exists>m'. run_put E m retain op nm n k = Ret (True, m', Suc k) \<and> msg_ok m' \<and>
      (\<forall>other tc. 0 \<in> set other \<longrightarrow> GetFieldDataAux m' other tc =
        (if cstr other = cstr nm
         then Ret (if tc = B_ANY_TYPE \<or> tc = put_type op
                   then Some (put_data m retain op nm n, n) else None)
         else GetFieldDataAux m other tc))
    else run_put E m retain op nm n k = Ret (False, m, Suc k)"
proof -
  note spec = run_put_spec [OF assms, of E retain k]
  have "msg_ok (put_field m (put_result m retain op nm n))"
    unfolding put_field_def by (rule msg_ok_put [OF assms(1) conjunct2 [OF spec] refl])
  then show ?thesis
    using spec get_put_field [OF assms(1) conjunct2 [OF spec]]
    by (simp add: put_result_def)
qed

theorem get_after_put_witness:
  "\<exists>m'. MMPutInt32Field ex_env ex_message True [97, 0] 2 0 = Ret (True, m', 1) \<and>
     GetFieldDataAux m' [97, 0] B_INT32_TYPE = Ret (Some (Flat [1, 2, 3, 4, 0, 0, 0, 0], 2)) \<and>
     GetFieldDataAux m' [97, 0] B_STRING_TYPE = Ret None"
proof -
  have d: "put_data ex_message True PutInt32 [97, 0] 2 = Flat [1, 2, 3, 4, 0, 0, 0, 0]"
    by (simp add: put_data_def retained_def fixed_data_def ex_message_def ex_int32_field_def replicate_small)
  have "put_size [97, 0] 2 (put_item_size PutInt32) < 2 ^ 32" by (simp add: put_size_def sizeof_defs)
  from get_after_put [OF ex_message_ok _ _ this, where E = ex_env and k = 0 and retain = True]
  obtain m' where "MMPutInt32Field ex_env ex_message True [97, 0] 2 0 = Ret (True, m', 1)"
    and get: "\<And>other tc. 0 \<in> set other \<Longrightarrow> GetFieldDataAux m' other tc =
        (if cstr other = cstr [97, 0]
         then Ret (if tc = B_ANY_TYPE \<or> tc = B_INT32_TYPE
                   then Some (put_data ex_message True PutInt32 [97, 0] 2, 2) else None)
         else GetFieldDataAux ex_message other tc)"
    by auto
  then show ?thesis
    using get [of "[97, 0]" B_INT32_TYPE] get [of "[97, 0]" B_STRING_TYPE]
    by (auto simp: d type_code_defs)
qed

lemma field_named_remove:
  assumes "distinct (names fs)"
  shows "field_named t (other_fields s fs) = (if t = s then None else field_named t fs)"
proof (cases "t = s")
  case True
  then show ?thesis by (simp add: field_named_def names_other_fields find_last_None)
next
  case False
  then show ?thesis
    using assms by (auto intro!: field_named_eqI simp: names_other_fields) (auto simp: other_fields_def)
qed

text \<open>
  C11: Removing a field by name reports whether there was one, keeps the others in order and
  the message well-formed, and afterwards the name is not found, while every other name still
  leads to the same data.
\<close>

theorem remove_field:
  assumes "msg_ok m" "0 \<in> set nm" "0 \<in> set other"
  shows "\<exists>m'. MMRemoveField m nm =
      Ret (if cstr nm \<in> set (names (m_fields m)) then B_NO_ERROR else B_ERROR, m')
    \<and> m_fields m' = other_fields (cstr nm) (m_fields m) \<and> msg_ok m'
    \<and> GetFieldDataAux m' other tc =
        (if cstr other = cstr nm then Ret None else GetFieldDataAux m other tc)"
proof -
  let ?m = "MMessage (m_what m) (other_fields (cstr nm) (m_fields m))"
  have "msg_ok ?m" by (rule msg_ok_remove [OF assms(1)])
  moreover have "distinct (names (m_fields m))" using assms(1) by (simp add: msg_ok_fields)
  ultimately show ?thesis
    using assms by (simp add: MMRemoveField_spec GetFieldDataAux_ok field_named_remove)
qed

theorem remove_field_witness:
  "\<exists>m'. MMRemoveField ex_message [97, 0] = Ret (B_NO_ERROR, m') \<and> m_fields m' = [] \<and>
     GetFieldDataAux m' [97, 0] B_INT32_TYPE = Ret None"
proof -
  have n: "cstr [97, 0] \<in> set (names (m_fields ex_message))"
    "other_fields (cstr [97, 0]) (m_fields ex_message) = []"
    by (simp_all add: ex_message_def ex_int32_field_def other_fields_def)
  have "0 \<in> set [97, 0 :: u8]" by simp
  from remove_field [OF ex_message_ok this this, of B_INT32_TYPE] show ?thesis
    unfolding n(2) using n(1) by (simp del: cstr_simps) blast
qed

lemma field_named_rename:
  assumes "distinct (names fs)" "find_last (cstr old) fs = Some i" "cstr old \<noteq> cstr new"
  shows "field_named (cstr new) (renamed_fields old new fs) = Some (renamed new (fs ! i))"
proof -
  have "fs ! i \<in> set (other_fields (cstr new) fs)" "cstr (f_name (fs ! i)) = cstr old"
    using find_last_Some [OF assms(2)] assms(3) by (auto simp: other_fields_def)
  then have "renamed new (fs ! i) \<in> set (renamed_fields old new fs)"
    by (force simp: renamed_fields_def)
  then show ?thesis
    using field_named_iff [OF distinct_renamed_fields [OF assms(1)]] by (simp add: renamed_def)
qed

text \<open>
  Renaming a field keeps its place, type and data; a field that already had the new name
  is dropped; the block is reallocated only when the length of the name changes, and if that
  fails the message is unchanged. Well-formedness is preserved and the data is found under
  the new name.
\<close>

theorem rename_field:
  assumes "msg_ok m" "0 \<in> set old" "0 \<in> set new" "length (cstr new) + 1 < 2 ^ 31"
    and "cstr old \<noteq> cstr new" "find_last (cstr old) (m_fields m) = Some i" "f = m_fields m ! i"
    and "put_size new (f_numItems f) (f_itemSize f) < 2 ^ 32"
    and "m' = MMessage (m_what m) (renamed_fields old new (m_fields m))"
  shows "MMRenameField E m old new k =
      Ret (if length (f_name f) = length (cstr new) + 1 then (B_NO_ERROR, m', k)
           else if e_malloc E k (put_size new (f_numItems f) (f_itemSize f)) then (B_NO_ERROR, m', Suc k)
           else (B_ERROR, m, Suc k))
    \<and> msg_ok m' \<and> GetFieldDataAux m' new B_ANY_TYPE = Ret (Some (f_data f, f_numItems f))"
proof -
  have ok: "msg_ok m'" unfolding assms(9) by (rule msg_ok_rename [OF assms(1)]) (use assms(4) in simp)
  moreover have "field_named (cstr new) (m_fields m') = Some (renamed new f)"
    using field_named_rename [OF _ assms(6,5)] assms(1) by (simp add: assms(7,9) msg_ok_fields)
  ultimately show ?thesis
    using MMRenameField_spec [OF assms(1-4,6,7,8)] assms(3,5)
    by (simp add: GetFieldDataAux_ok renamed_def assms(9))
qed

theorem rename_field_witness:
  "MMRenameField ex_env ex_message [97, 0] [98, 99, 0] 0 =
    Ret (B_NO_ERROR, MMessage 7 [MField [98, 99, 0] B_INT32_TYPE 4 1 (Flat [1, 2, 3, 4]) True], 1)"
proof -
  have "find_last (cstr [97, 0]) (m_fields ex_message) = Some 0" "m_fields ex_message ! 0 = ex_int32_field"
    by (simp_all add: ex_message_def ex_int32_field_def)
  moreover have "put_size [98, 99, 0] (f_numItems ex_int32_field) (f_itemSize ex_int32_field) < 2 ^ 32"
    by (simp add: put_size_def sizeof_defs ex_int32_field_def)
  ultimately show ?thesis
    using rename_field [OF ex_message_ok _ _ _ _ _ _ _ refl, where old = "[97, 0]" and new = "[98, 99, 0]"
        and f = ex_int32_field and i = 0 and E = ex_env and k = 0]
    by (simp add: ex_message_def ex_int32_field_def renamed_fields_def other_fields_def renamed_def)
qed

end
