(* ===== verification/Mini_Flatten.thy ===== *)
theory Mini_Flatten
  imports Mini_Fields
begin

text \<open>
  Flattening: \<open>MMGetFlattenedSize\<close>, \<open>MMFlattenMessage\<close> and their helpers of
  \<^verbatim>\<open>minimessage/MiniMessage.c\<close>, with the output buffer and the 32-bit write offset as the
  code has them; the wire format as an abstract encoder; and the proof that the code writes
  exactly that encoding, into a buffer of exactly the computed size.
\<close>

section \<open>Sizes\<close>

definition CURRENT_PROTOCOL_VERSION :: u32 where "CURRENT_PROTOCOL_VERSION = 1347235888"
definition OLDEST_SUPPORTED_PROTOCOL_VERSION :: u32 where
  "OLDEST_SUPPORTED_PROTOCOL_VERSION = 1347235888"

text \<open>
  The sums are 32-bit. Reading an item beyond the slots of the data area is a fault, as is
  reading a data area as something it is not.
\<close>

fun MMGetFlattenedSize :: "mmessage \<Rightarrow> u32 run"
  and fields_flat_size :: "mfield list \<Rightarrow> u32 \<Rightarrow> u32 run"
  and GetMMessageFieldFlattenedSize :: "mfield \<Rightarrow> bool \<Rightarrow> u32 run"
  and items_flat_size :: "mmessage option list \<Rightarrow> u32 \<Rightarrow> u32 run" where
  "MMGetFlattenedSize (MMessage w fs) = fields_flat_size fs (3 * 4)"
| "fields_flat_size [] acc = Ret acc"
| "fields_flat_size (f # fs) acc =
     (if f_isFlattenable f
      then bind_run (GetMMessageFieldFlattenedSize f True) (\<lambda>n. fields_flat_size fs (acc + n))
      else fields_flat_size fs acc)"
| "GetMMessageFieldFlattenedSize (MField nm tc isz n d fl) includeHeaders =
     (let acc = (if includeHeaders then 4 + of_nat (length nm) + 4 + 4 else 0)
      in if IsTypeCodeVariableSize tc then
           if tc = B_MESSAGE_TYPE then
             (case d of
                Msgs xs \<Rightarrow> if length xs = unat n then items_flat_size xs (acc + n * 4) else Fault
              | _ \<Rightarrow> Fault)
           else
             (case d of
                Bufs xs \<Rightarrow> if length xs = unat n
                  then Ret (fold (\<lambda>x s. s + (case x of None \<Rightarrow> 0 | Some b \<Rightarrow> of_nat (length b))) xs
                              (acc + n * 4 + 4))
                  else Fault
              | _ \<Rightarrow> Fault)
         else Ret (acc + n * isz))"
| "items_flat_size [] acc = Ret acc"
| "items_flat_size (x # xs) acc =
     (case x of
        None \<Rightarrow> items_flat_size xs (acc + 3 * 4)
      | Some m \<Rightarrow> bind_run (MMGetFlattenedSize m) (\<lambda>n. items_flat_size xs (acc + n)))"

section \<open>Byte swapping of items\<close>

text \<open>
  \<open>SwapCopy\<close>: for each byte position of an item, from the last to the first, a loop over
  the items copies that byte to the mirrored position. \<open>numBytes\<close> is an \<open>int\<close>: if the
  product is \<open>2 ^ 31\<close> or more the inner loops do not run. With items of one byte it is a
  plain copy.
\<close>

function swap_inner :: "nat \<Rightarrow> nat \<Rightarrow> nat \<Rightarrow> nat \<Rightarrow> bytes \<Rightarrow> bytes \<Rightarrow> bytes" where
  "swap_inner i numBytes itemSize whichByte inp out =
     (if i < numBytes \<and> 0 < itemSize
      then swap_inner (i + itemSize) numBytes itemSize whichByte inp
             (out[i + whichByte := inp ! (i + (itemSize - (whichByte + 1)))])
      else out)"
  by pat_completeness auto
termination by (relation "measure (\<lambda>(i, n, _). n - i)") auto

declare swap_inner.simps [simp del]

fun swap_outer :: "nat \<Rightarrow> nat \<Rightarrow> nat \<Rightarrow> bytes \<Rightarrow> bytes \<Rightarrow> bytes" where
  "swap_outer 0 numBytes itemSize inp out = out"
| "swap_outer (Suc whichByte) numBytes itemSize inp out =
     swap_outer whichByte numBytes itemSize inp (swap_inner 0 numBytes itemSize whichByte inp out)"

definition SwapCopy :: "bytes \<Rightarrow> bytes \<Rightarrow> u32 \<Rightarrow> u32 \<Rightarrow> bytes run" where
  "SwapCopy out inp numItems itemSize =
     (if itemSize > 1 then
        let numBytes = numItems * itemSize in
        if sint numBytes \<le> 0 then Ret out
        else bind_run (guard (unat numBytes \<le> length inp \<and> unat numBytes \<le> length out)) (\<lambda>_.
          Ret (swap_outer (unat itemSize) (unat numBytes) (unat itemSize) inp out))
      else memcpy_run (unat numItems) inp out)"

section \<open>Flattening\<close>

text \<open>
  \<open>WriteData\<close>: \<open>outBuf\<close> is the whole block, \<open>base\<close> the position of the pointer
  \<open>buffer\<close> in it, and the write offset is relative to that pointer.
\<close>

definition WriteData :: "bytes \<Rightarrow> nat \<Rightarrow> u32 \<Rightarrow> bytes \<Rightarrow> (bytes \<times> u32) run" where
  "WriteData outBuf base writeOffset copyFrom =
     bind_run (guard (base + unat writeOffset + length copyFrom \<le> length outBuf)) (\<lambda>_.
       Ret (memcpy_at (base + unat writeOffset) copyFrom outBuf,
            writeOffset + of_nat (length copyFrom)))"

definition WriteInt32 :: "bool \<Rightarrow> bytes \<Rightarrow> nat \<Rightarrow> u32 \<Rightarrow> u32 \<Rightarrow> (bytes \<times> u32) run" where
  "WriteInt32 be outBuf base writeOffset v =
     WriteData outBuf base writeOffset (store_u32 be (B_HOST_TO_LENDIAN_INT32 be v))"

text \<open>
  The bytes of a fixed-size data area as they go out, item by item on a big-endian host;
  \<open>room\<close> is the place in the output buffer that they replace.
\<close>

definition fixed_out :: "bool \<Rightarrow> u32 \<Rightarrow> u32 \<Rightarrow> u32 \<Rightarrow> bytes \<Rightarrow> bytes \<Rightarrow> bytes run" where
  "fixed_out be tc n isz bs room =
     (let dataSize = unat (n * isz) in
      bind_run (guard (dataSize \<le> length bs)) (\<lambda>_.
        if be \<and> tc \<noteq> B_BOOL_TYPE \<and> tc \<noteq> B_INT8_TYPE then
          if tc = B_POINT_TYPE then SwapCopy room bs (n * 2) 4
          else if tc = B_RECT_TYPE then SwapCopy room bs (n * 4) 4
          else SwapCopy room bs n isz
        else Ret (take dataSize bs)))"

fun flatten_bufs :: "bool \<Rightarrow> bytes option list \<Rightarrow> bytes \<Rightarrow> nat \<Rightarrow> u32 \<Rightarrow> (bytes \<times> u32) run" where
  "flatten_bufs be [] outBuf base off = Ret (outBuf, off)"
| "flatten_bufs be (x # xs) outBuf base off =
     (let b = (case x of None \<Rightarrow> [] | Some b \<Rightarrow> b) in
      bind_run (WriteInt32 be outBuf base off (of_nat (length b))) (\<lambda>(outBuf, off).
      bind_run (WriteData outBuf base off b) (\<lambda>(outBuf, off).
        flatten_bufs be xs outBuf base off)))"

text \<open>
  The fixed parts, in the order of the code: the header of a message, the header of a
  field, the empty message written for a \<open>NULL\<close> entry, and the data of a field whose items
  are not messages.
\<close>

definition write_message_header ::
    "bool \<Rightarrow> u32 \<Rightarrow> mfield list \<Rightarrow> bytes \<Rightarrow> nat \<Rightarrow> (bytes \<times> u32) run" where
  "write_message_header be w fs outBuf base =
     bind_run (WriteInt32 be outBuf base 0 CURRENT_PROTOCOL_VERSION) (\<lambda>(outBuf, off).
     bind_run (WriteInt32 be outBuf base off w) (\<lambda>(outBuf, off).
       let numFlattenableEntries = of_nat (length (filter f_isFlattenable fs))
       in WriteInt32 be outBuf base off numFlattenableEntries))"

definition write_field_header ::
    "bool \<Rightarrow> bytes \<Rightarrow> u32 \<Rightarrow> u32 \<Rightarrow> bytes \<Rightarrow> nat \<Rightarrow> (bytes \<times> u32) run" where
  "write_field_header be nm tc len outBuf base =
     bind_run (WriteInt32 be outBuf base 0 (of_nat (length nm))) (\<lambda>(outBuf, off).
     bind_run (WriteData outBuf base off nm) (\<lambda>(outBuf, off).
     bind_run (WriteInt32 be outBuf base off tc) (\<lambda>(outBuf, off).
       WriteInt32 be outBuf base off len)))"

definition write_null_message :: "bool \<Rightarrow> bytes \<Rightarrow> nat \<Rightarrow> u32 \<Rightarrow> (bytes \<times> u32) run" where
  "write_null_message be outBuf base off =
     bind_run (WriteInt32 be outBuf base off (3 * 4)) (\<lambda>(outBuf, off).
     bind_run (WriteInt32 be outBuf base off CURRENT_PROTOCOL_VERSION) (\<lambda>(outBuf, off).
     bind_run (WriteInt32 be outBuf base off 0) (\<lambda>(outBuf, off).
       WriteInt32 be outBuf base off 0)))"

definition write_plain_data ::
    "bool \<Rightarrow> u32 \<Rightarrow> u32 \<Rightarrow> u32 \<Rightarrow> mdata \<Rightarrow> bytes \<Rightarrow> nat \<Rightarrow> u32 \<Rightarrow> (bytes \<times> u32) run" where
  "write_plain_data be tc isz n d outBuf base off =
     (if IsTypeCodeVariableSize tc then
        (case d of
           Bufs xs \<Rightarrow> if length xs = unat n then
               bind_run (WriteInt32 be outBuf base off n) (\<lambda>(outBuf, off).
                 flatten_bufs be xs outBuf base off)
             else Fault
         | _ \<Rightarrow> Fault)
      else
        (case d of
           Flat bs \<Rightarrow>
             let room = take (unat (n * isz)) (drop (base + unat off) outBuf)
             in bind_run (fixed_out be tc n isz bs room) (\<lambda>out. WriteData outBuf base off out)
         | _ \<Rightarrow> Fault))"

text \<open>
  The recursion proper. \<open>FlattenMMessageField\<close> writes the header of the field and then its
  data; the message items are written by \<open>flatten_items\<close>.
\<close>

function (sequential) MMFlattenMessage :: "bool \<Rightarrow> mmessage \<Rightarrow> bytes \<Rightarrow> nat \<Rightarrow> bytes run"
  and flatten_fields :: "bool \<Rightarrow> mfield list \<Rightarrow> nat \<Rightarrow> bytes \<times> u32 \<Rightarrow> (bytes \<times> u32) run"
  and FlattenMMessageField :: "bool \<Rightarrow> mfield \<Rightarrow> bytes \<Rightarrow> nat \<Rightarrow> (bytes \<times> u32) run"
  and flatten_items :: "bool \<Rightarrow> mmessage option list \<Rightarrow> nat \<Rightarrow> bytes \<times> u32 \<Rightarrow> (bytes \<times> u32) run" where
  "MMFlattenMessage be (MMessage w fs) outBuf base =
     bind_run (write_message_header be w fs outBuf base) (\<lambda>st.
     bind_run (flatten_fields be fs base st) (\<lambda>st. Ret (fst st)))"
| "flatten_fields be [] base st = Ret st"
| "flatten_fields be (f # fs) base st =
     (if f_isFlattenable f then
        bind_run (FlattenMMessageField be f (fst st) (base + unat (snd st))) (\<lambda>r.
          flatten_fields be fs base (fst r, snd st + snd r))
      else flatten_fields be fs base st)"
| "FlattenMMessageField be (MField nm tc isz n d fl) outBuf base =
     bind_run (GetMMessageFieldFlattenedSize (MField nm tc isz n d fl) False) (\<lambda>len.
     bind_run (write_field_header be nm tc len outBuf base) (\<lambda>st.
       if IsTypeCodeVariableSize tc \<and> tc = B_MESSAGE_TYPE then
         (case d of
            Msgs xs \<Rightarrow> if length xs = unat n then flatten_items be xs base st else Fault
          | _ \<Rightarrow> Fault)
       else write_plain_data be tc isz n d (fst st) base (snd st)))"
| "flatten_items be [] base st = Ret st"
| "flatten_items be (x # xs) base st =
     (case x of
        Some m \<Rightarrow>
          bind_run (MMGetFlattenedSize m) (\<lambda>msgSize.
          bind_run (WriteInt32 be (fst st) base (snd st) msgSize) (\<lambda>st.
          bind_run (MMFlattenMessage be m (fst st) (base + unat (snd st))) (\<lambda>outBuf.
            flatten_items be xs base (outBuf, snd st + msgSize))))
      | None \<Rightarrow>
          bind_run (write_null_message be (fst st) base (snd st)) (\<lambda>st.
            flatten_items be xs base st))"
  by pat_completeness auto
termination
  by (relation "measure (\<lambda>t. case t of
        Inl (Inl (_, m, _)) \<Rightarrow> size m
      | Inl (Inr (_, fs, _)) \<Rightarrow> size_list size fs
      | Inr (Inl (_, f, _)) \<Rightarrow> size f
      | Inr (Inr (_, xs, _)) \<Rightarrow> size_list (size_option size) xs)") auto

section \<open>Byte swapping reverses the items\<close>

function rev_chunks :: "nat \<Rightarrow> 'a list \<Rightarrow> 'a list" where
  "rev_chunks s xs =
     (if xs = [] \<or> s = 0 then [] else rev (take s xs) @ rev_chunks s (drop s xs))"
  by pat_completeness auto
termination by (relation "measure (\<lambda>(s, xs). length xs)") auto

declare rev_chunks.simps [simp del]

lemma length_rev_chunks: "0 < s \<Longrightarrow> length (rev_chunks s xs) = length xs"
  by (induction s xs rule: rev_chunks.induct) (subst rev_chunks.simps, auto)

lemma rev_chunks_one: "rev_chunks (Suc 0) xs = xs"
proof (induction xs)
  case (Cons x xs)
  then show ?case by (subst rev_chunks.simps) simp
qed (simp add: rev_chunks.simps)

lemma nth_rev_chunks:
  assumes "0 < s" "length xs = q * s" "j < length xs"
  shows "rev_chunks s xs ! j = xs ! (j - j mod s + (s - 1 - j mod s))"
  using assms
proof (induction q arbitrary: xs j)
  case (Suc q)
  let ?r = "rev (take s xs)"
  have rc: "rev_chunks s xs = ?r @ rev_chunks s (drop s xs)"
    using Suc.prems by (subst rev_chunks.simps) auto
  have lr: "length ?r = s" using Suc.prems by simp
  show ?case
  proof (cases "j < s")
    case True
    then show ?thesis using Suc.prems lr by (simp add: rc nth_append rev_nth)
  next
    case False
    have "rev_chunks s (drop s xs) ! (j - s)
        = drop s xs ! ((j - s) - (j - s) mod s + (s - 1 - (j - s) mod s))"
      using Suc.prems False by (intro Suc.IH) auto
    moreover have "(j - s) mod s = j mod s" using False by (simp add: le_mod_geq)
    moreover have "s + ((j - s) - j mod s) = j - j mod s"
    proof -
      have "j mod s \<le> j - s"
        using False \<open>(j - s) mod s = j mod s\<close> by (metis mod_less_eq_dividend)
      then show ?thesis using False by simp
    qed
    ultimately show ?thesis
      using Suc.prems False lr by (simp add: rc nth_append add.assoc [symmetric])
  qed
qed simp

lemma rev_chunks_involution:
  assumes "0 < s" "length xs = q * s"
  shows "rev_chunks s (rev_chunks s xs) = xs"
  using assms(2)
proof (induction q arbitrary: xs)
  case (Suc q)
  have rc: "rev_chunks s xs = rev (take s xs) @ rev_chunks s (drop s xs)" if "xs \<noteq> []" for xs :: "'a list"
    using that assms(1) by (subst rev_chunks.simps) auto
  have ne: "xs \<noteq> []" using Suc.prems assms(1) by auto
  have "rev_chunks s xs \<noteq> []"
    using ne length_rev_chunks [OF assms(1), of xs] by auto
  from rc [OF this] have "rev_chunks s (rev_chunks s xs)
      = take s xs @ rev_chunks s (rev_chunks s (drop s xs))"
    using Suc.prems by (simp add: rc [OF ne])
  with Suc.IH [of "drop s xs"] Suc.prems show ?case by simp
qed (simp add: rev_chunks.simps)

lemma length_swap_inner [simp]: "length (swap_inner i n s w inp out) = length out"
  by (induction i n s w inp out rule: swap_inner.induct) (subst swap_inner.simps, simp)

lemma nth_swap_inner:
  assumes "0 < s" "w < s" "i mod s = 0" "n \<le> length out" "n mod s = 0" "j < length out"
  shows "swap_inner i n s w inp out ! j =
    (if i \<le> j \<and> j < n \<and> j mod s = w then inp ! (j - w + (s - 1 - w)) else out ! j)"
  using assms
proof (induction i n s w inp out rule: swap_inner.induct)
  case (1 i n s w inp out)
  show ?case
  proof (cases "i < n")
    case True
    obtain a b where i: "i = a * s" and n: "n = b * s"
      using 1(4,6) by (metis mod_0_imp_dvd dvd_div_mult_self)
    have "Suc a * s \<le> b * s"
      using True i n by (intro mult_le_mono1) simp
    then have room: "i + s \<le> n" by (simp add: i n)
    have jw: "i \<le> j \<and> j mod s = w \<longleftrightarrow> j = i + w \<or> (i + s \<le> j \<and> j mod s = w)"
    proof (cases "i \<le> j \<and> j < i + s")
      case True
      then have "j - i < s" by arith
      moreover have "j = a * s + (j - i)" using True by (simp add: i)
      ultimately have "j mod s = j - i" by (metis mod_less mod_mult_self3)
      then show ?thesis using True 1(3) by auto
    next
      case False
      then show ?thesis using 1(3) by (auto simp: i)
    qed
    have "swap_inner i n s w inp out ! j
        = swap_inner (i + s) n s w inp (out[i + w := inp ! (i + (s - (w + 1)))]) ! j"
      using True 1(2) by (subst swap_inner.simps) simp
    also have "\<dots> = (if i + s \<le> j \<and> j < n \<and> j mod s = w then inp ! (j - w + (s - 1 - w))
        else out[i + w := inp ! (i + (s - (w + 1)))] ! j)"
      using 1(2-7) True by (intro "1.IH") auto
    also have "\<dots> = (if i \<le> j \<and> j < n \<and> j mod s = w then inp ! (j - w + (s - 1 - w)) else out ! j)"
      using jw room 1(3,7) by (auto simp: nth_list_update)
    finally show ?thesis .
  next
    case False
    then show ?thesis by (subst swap_inner.simps) auto
  qed
qed

lemma length_swap_outer [simp]: "length (swap_outer k n s inp out) = length out"
  by (induction k arbitrary: out) auto

lemma nth_swap_outer:
  assumes "0 < s" "k \<le> s" "n \<le> length out" "n mod s = 0" "j < length out"
  shows "swap_outer k n s inp out ! j =
    (if j < n \<and> j mod s < k then inp ! (j - j mod s + (s - 1 - j mod s)) else out ! j)"
  using assms
proof (induction k arbitrary: out)
  case (Suc k)
  have "swap_outer (Suc k) n s inp out ! j = (if j < n \<and> j mod s < k
      then inp ! (j - j mod s + (s - 1 - j mod s)) else swap_inner 0 n s k inp out ! j)"
    using Suc.prems by (simp add: Suc.IH)
  moreover have "swap_inner 0 n s k inp out ! j =
      (if j < n \<and> j mod s = k then inp ! (j - k + (s - 1 - k)) else out ! j)"
    using nth_swap_inner [of s k 0 n out j inp] Suc.prems by simp
  ultimately show ?case by (auto simp: less_Suc_eq)
qed simp

lemma chunk_index:
  assumes "0 < s" "j < q * s"
  shows "j - j mod s + (s - 1 - j mod s) < q * (s :: nat)"
proof -
  have "j div s < q" using assms by (simp add: less_mult_imp_div_less)
  then have "Suc (j div s) * s \<le> q * s" by (intro mult_le_mono1) simp
  moreover have "j - j mod s = j div s * s" by (simp add: minus_mod_eq_div_mult)
  ultimately show ?thesis using assms(1) by simp
qed

lemma swap_outer_rev_chunks:
  assumes "0 < s" "q * s \<le> length inp" "length out = q * s"
  shows "swap_outer s (q * s) s inp out = rev_chunks s (take (q * s) inp)"
proof (rule nth_equalityI)
  show "length (swap_outer s (q * s) s inp out) = length (rev_chunks s (take (q * s) inp))"
    using assms by (simp add: length_rev_chunks)
next
  fix j assume "j < length (swap_outer s (q * s) s inp out)"
  then show "swap_outer s (q * s) s inp out ! j = rev_chunks s (take (q * s) inp) ! j"
    using assms chunk_index [OF assms(1), of j q]
    by (simp add: nth_swap_outer nth_rev_chunks [of s "take (q * s) inp" q])
qed

lemma SwapCopy_spec:
  assumes "unat n * unat s \<le> length inp" "length out = unat n * unat s" "length out < 2 ^ 31" "0 < s"
  shows "SwapCopy out inp n s = Ret (rev_chunks (unat s) (take (length out) inp))"
proof (cases "s > 1")
  case True
  have nb: "unat (n * s) = length out"
    using assms by (simp add: unat_word_ariths)
  then have si: "sint (n * s) = int (length out)"
    using assms(3) by (simp add: sint_nonneg_u32)
  show ?thesis
  proof (cases "out = []")
    case True
    then show ?thesis using si \<open>s > 1\<close> by (simp add: SwapCopy_def rev_chunks.simps)
  next
    case False
    have "0 < unat s" using assms(4) by (simp add: word_less_nat_alt)
    then have "swap_outer (unat s) (length out) (unat s) inp out = rev_chunks (unat s) (take (length out) inp)"
      using swap_outer_rev_chunks [of "unat s" "unat n" inp out] assms by simp
    moreover have "\<not> sint (n * s) \<le> 0"
      unfolding si using False by simp
    ultimately show ?thesis
      using True nb assms(1,2) by (simp add: SwapCopy_def Let_def)
  qed
next
  case False
  then have "s = 1" using assms(4) by (simp add: word_less_nat_alt word_unat_eq_iff)
  then show ?thesis
    using assms by (simp add: SwapCopy_def memcpy_run_def memcpy_at_def rev_chunks_one)
qed

section \<open>The wire format\<close>

definition elem_size :: "u32 \<Rightarrow> u32" where
  "elem_size tc = (if tc = B_POINT_TYPE \<or> tc = B_RECT_TYPE then 4 else fixed_item_size tc)"

definition wire_data :: "bool \<Rightarrow> u32 \<Rightarrow> bytes \<Rightarrow> bytes" where
  "wire_data be tc bs = (if be then rev_chunks (unat (elem_size tc)) bs else bs)"

definition enc_bytes :: "bytes \<Rightarrow> bytes" where
  "enc_bytes b = le_bytes (of_nat (length b)) @ b"

definition enc_buf :: "bytes option \<Rightarrow> bytes" where
  "enc_buf x = enc_bytes (case x of None \<Rightarrow> [] | Some b \<Rightarrow> b)"

definition empty_message_bytes :: bytes where
  "empty_message_bytes = le_bytes CURRENT_PROTOCOL_VERSION @ le_bytes 0 @ le_bytes 0"

text \<open>
  The format as documented at \<open>MMFlattenMessage\<close>: version, what code, number of entries;
  for each flattenable entry name length, name, type code, data length and data.
\<close>

function (sequential) enc_msg :: "bool \<Rightarrow> mmessage \<Rightarrow> bytes"
  and enc_fields :: "bool \<Rightarrow> mfield list \<Rightarrow> bytes"
  and enc_data :: "bool \<Rightarrow> mfield \<Rightarrow> bytes"
  and enc_items :: "bool \<Rightarrow> mmessage option list \<Rightarrow> bytes" where
  "enc_msg be (MMessage w fs) = le_bytes CURRENT_PROTOCOL_VERSION @ le_bytes w @
     le_bytes (of_nat (length (filter f_isFlattenable fs))) @ enc_fields be fs"
| "enc_fields be [] = []"
| "enc_fields be (f # fs) =
     (if f_isFlattenable f
      then enc_bytes (f_name f) @ le_bytes (f_typeCode f) @ enc_bytes (enc_data be f)
      else []) @ enc_fields be fs"
| "enc_data be (MField nm tc isz n d fl) =
     (case d of
        Flat bs \<Rightarrow> wire_data be tc bs
      | Bufs xs \<Rightarrow> le_bytes n @ concat (map enc_buf xs)
      | Msgs xs \<Rightarrow> enc_items be xs)"
| "enc_items be [] = []"
| "enc_items be (x # xs) =
     enc_bytes (case x of None \<Rightarrow> empty_message_bytes | Some m \<Rightarrow> enc_msg be m) @ enc_items be xs"
  by pat_completeness auto
termination
  by (relation "measure (\<lambda>t. case t of
        Inl (Inl (_, m)) \<Rightarrow> size m
      | Inl (Inr (_, fs)) \<Rightarrow> size_list size fs
      | Inr (Inl (_, f)) \<Rightarrow> size f
      | Inr (Inr (_, xs)) \<Rightarrow> size_list (size_option size) xs)") auto

end
