(* ===== verification/Mini_Flatten_Proof.thy ===== *)
theory Mini_Flatten_Proof
  imports Mini_Flatten
begin

text \<open>
  The flattening code computes the size of the wire format and writes exactly its bytes,
  for every message that satisfies the invariant.
\<close>

section \<open>Sizes\<close>

lemma fixed_item_size_pos: "0 < fixed_item_size tc"
  by (simp add: fixed_item_size_def)

lemma elem_size_pos: "0 < unat (elem_size tc)"
  by (simp add: elem_size_def fixed_item_size_def)

lemma length_wire_data [simp]: "length (wire_data be tc bs) = length bs"
  by (simp add: wire_data_def length_rev_chunks elem_size_pos)

lemma length_enc_bytes [simp]: "length (enc_bytes b) = 4 + length b"
  by (simp add: enc_bytes_def)

lemma length_empty_message [simp]: "length empty_message_bytes = 12"
  by (simp add: empty_message_bytes_def)

abbreviation buf_size :: "bytes option \<Rightarrow> u32" where
  "buf_size x \<equiv> (case x of None \<Rightarrow> 0 | Some b \<Rightarrow> of_nat (length b))"

lemma fold_buf_sizes:
  "a = acc + of_nat (4 * length xs) \<Longrightarrow>
   fold (\<lambda>x s. s + buf_size x) xs a = acc + of_nat (length (concat (map enc_buf xs)))"
proof (induction xs arbitrary: a acc)
  case (Cons x xs)
  have "fold (\<lambda>x s. s + buf_size x) xs (a + buf_size x)
      = (acc + of_nat (length (enc_buf x))) + of_nat (length (concat (map enc_buf xs)))"
    by (rule Cons.IH) (cases x; simp add: Cons.prems enc_buf_def algebra_simps)
  then show ?case by (simp add: add.assoc)
qed simp

definition size_ok :: "bool \<Rightarrow> mmessage \<Rightarrow> bool" where
  "size_ok be m \<longleftrightarrow> MMGetFlattenedSize m = Ret (of_nat (length (enc_msg be m)))"

lemma items_flat_size_enc:
  assumes "\<And>m. Some m \<in> set xs \<Longrightarrow> size_ok be m" and "a = acc + of_nat (4 * length xs)"
  shows "items_flat_size xs a = Ret (acc + of_nat (length (enc_items be xs)))"
  using assms
proof (induction xs arbitrary: a acc)
  case (Cons x xs)
  let ?n = "case x of None \<Rightarrow> 12 | Some m \<Rightarrow> length (enc_msg be m)"
  have "items_flat_size (x # xs) a = items_flat_size xs (a + of_nat ?n)"
    using Cons.prems(1) by (auto simp: size_ok_def split: option.split)
  also have "\<dots> = Ret (acc + of_nat (4 + ?n) + of_nat (length (enc_items be xs)))"
    by (rule Cons.IH) (use Cons.prems in \<open>auto simp: algebra_simps\<close>)
  finally show ?case
    by (cases x) (simp_all add: add.assoc)
qed simp

lemma field_flat_size_enc:
  assumes "header_ok f" "\<And>xs m. f_data f = Msgs xs \<Longrightarrow> Some m \<in> set xs \<Longrightarrow> size_ok be m"
  shows "GetMMessageFieldFlattenedSize f hdr =
    Ret ((if hdr then 12 + of_nat (length (f_name f)) else 0) + of_nat (length (enc_data be f)))"
proof (cases f)
  case (MField nm tc isz n d fl)
  obtain s where s: "(if hdr then 4 + of_nat (length nm) + 4 + 4 else (0 :: u32)) = s" by simp
  then have s': "(if hdr then 12 + of_nat (length nm) else (0 :: u32)) = s" by auto
  show ?thesis
  proof (cases d)
    case (Flat bs)
    have "n * isz = of_nat (length bs)"
      using assms(1) by (simp add: MField Flat)
    then show ?thesis
      using assms(1) s' by (auto simp: MField Flat s split: if_splits)
  next
    case (Bufs xs)
    have n: "n = of_nat (length xs)" using assms(1) by (simp add: MField Bufs)
    have "fold (\<lambda>x s. s + buf_size x) xs (s + n * 4 + 4)
        = s + 4 + of_nat (length (concat (map enc_buf xs)))"
      by (rule fold_buf_sizes) (simp add: n)
    then show ?thesis
      using assms(1) s' by (auto simp: MField Bufs s split: if_splits)
  next
    case (Msgs xs)
    have n: "n = of_nat (length xs)" using assms(1) by (simp add: MField Msgs)
    have "items_flat_size xs (s + n * 4) = Ret (s + of_nat (length (enc_items be xs)))"
      by (rule items_flat_size_enc) (use assms(2) in \<open>auto simp: MField Msgs n\<close>)
    then show ?thesis
      using assms(1) s' by (auto simp: MField Msgs s split: if_splits)
  qed
qed

lemma fields_flat_size_enc:
  assumes "list_all header_ok fs"
    and "\<And>f xs m. f \<in> set fs \<Longrightarrow> f_data f = Msgs xs \<Longrightarrow> Some m \<in> set xs \<Longrightarrow> size_ok be m"
  shows "fields_flat_size fs acc = Ret (acc + of_nat (length (enc_fields be fs)))"
  using assms
proof (induction fs arbitrary: acc)
  case (Cons f fs)
  have "GetMMessageFieldFlattenedSize f True =
      Ret (12 + of_nat (length (f_name f)) + of_nat (length (enc_data be f)))"
    using field_flat_size_enc [of f be True] Cons.prems by auto
  moreover have "\<And>acc. fields_flat_size fs acc = Ret (acc + of_nat (length (enc_fields be fs)))"
    using Cons.prems by (intro Cons.IH) auto
  ultimately show ?case by (simp add: algebra_simps)
qed simp

lemma MMGetFlattenedSize_enc:
  "msg_ok m \<Longrightarrow> MMGetFlattenedSize m = Ret (of_nat (length (enc_msg be m)))"
proof -
  have "msg_ok m \<longrightarrow> size_ok be m"
  proof (induction m rule: mmessage_induct)
    case (MMessage w fs)
    show ?case
    proof
      assume ok: "msg_ok (MMessage w fs)"
      then have "fields_flat_size fs 12 = Ret (12 + of_nat (length (enc_fields be fs)))"
        using MMessage by (intro fields_flat_size_enc) auto
      then show "size_ok be (MMessage w fs)" by (simp add: size_ok_def)
    qed
  qed
  then show "msg_ok m \<Longrightarrow> MMGetFlattenedSize m = Ret (of_nat (length (enc_msg be m)))"
    by (simp add: size_ok_def)
qed

section \<open>Writing\<close>

text \<open>
  The state of a writer that has written \<open>s\<close> at position \<open>base\<close> of a block \<open>blk\<close>.
\<close>

definition written :: "bytes \<Rightarrow> nat \<Rightarrow> bytes \<Rightarrow> bytes \<times> u32" where
  "written blk base s = (memcpy_at base s blk, of_nat (length s))"

definition room :: "bytes \<Rightarrow> nat \<Rightarrow> bytes \<Rightarrow> bool" where
  "room blk base s \<longleftrightarrow> base + length s \<le> length blk \<and> length s < 2 ^ 32"

lemma room_prefix: "room blk base (s @ t) \<Longrightarrow> room blk base s"
  by (simp add: room_def)

lemma written_Nil [simp]: "(blk, 0) = written blk base []"
  by (simp add: written_def memcpy_at_def)

lemma unat_written: "room blk base s \<Longrightarrow> unat (snd (written blk base s)) = length s"
  unfolding room_def written_def by (simp only: snd_conv) (rule unat_of_nat_u32, simp)

lemma WriteData_written:
  assumes "room blk base (s @ t)"
  shows "WriteData (fst (written blk base s)) base (snd (written blk base s)) t
    = Ret (written blk base (s @ t))"
proof -
  have "unat (snd (written blk base s)) = length s"
    using unat_written [OF room_prefix [OF assms]] .
  then show ?thesis
    using assms by (simp add: WriteData_def written_def room_def memcpy_at_append)
qed

lemma WriteInt32_written:
  "room blk base (s @ le_bytes v) \<Longrightarrow>
   WriteInt32 be (fst (written blk base s)) base (snd (written blk base s)) v
    = Ret (written blk base (s @ le_bytes v))"
  by (simp add: WriteInt32_def WriteData_written)

lemma written_case: "(case written blk base s of (o', f) \<Rightarrow> F o' f)
    = F (fst (written blk base s)) (snd (written blk base s))"
  by (simp add: case_prod_beta)

lemmas write_simps = WriteInt32_written WriteData_written written_case

text \<open>A write by a sub-routine that starts at its own base.\<close>

lemma written_sub:
  assumes "room blk base (s @ t)"
  shows "memcpy_at (base + length s) t (fst (written blk base s)) = fst (written blk base (s @ t))"
    and "snd (written blk base s) + of_nat (length t) = snd (written blk base (s @ t))"
  using assms by (simp_all add: written_def room_def memcpy_at_append)

lemma room_sub:
  "room blk base (s @ t) \<Longrightarrow> room (fst (written blk base s)) (base + length s) t"
  by (simp add: room_def written_def)

lemma write_message_header_enc:
  assumes "room blk base (le_bytes CURRENT_PROTOCOL_VERSION @ le_bytes w @
    le_bytes (of_nat (length (filter f_isFlattenable fs))))"
  shows "write_message_header be w fs blk base =
    Ret (written blk base (le_bytes CURRENT_PROTOCOL_VERSION @ le_bytes w @
      le_bytes (of_nat (length (filter f_isFlattenable fs)))))"
proof -
  let ?n = "of_nat (length (filter f_isFlattenable fs)) :: u32"
  have r: "room blk base ([] @ le_bytes v)" "room blk base (le_bytes v @ le_bytes v')" for v v'
    using assms by (auto simp: room_def)
  have "WriteInt32 be blk base 0 v = Ret (written blk base (le_bytes v))" for v
    using WriteInt32_written [OF r(1)] by (simp add: written_Nil [of blk base, symmetric] del: written_Nil)
  then show ?thesis
    using assms r(2) by (simp add: write_message_header_def write_simps Let_def)
qed

lemma write_field_header_enc:
  assumes "room blk base (enc_bytes nm @ le_bytes tc @ le_bytes len)"
  shows "write_field_header be nm tc len blk base =
    Ret (written blk base (enc_bytes nm @ le_bytes tc @ le_bytes len))"
proof -
  have r: "room blk base ([] @ le_bytes v)" "room blk base (le_bytes v @ nm)"
    "room blk base (le_bytes v @ nm @ le_bytes v')" for v v'
    using assms by (auto simp: room_def)
  have "WriteInt32 be blk base 0 v = Ret (written blk base (le_bytes v))" for v
    using WriteInt32_written [OF r(1)] by (simp add: written_Nil [of blk base, symmetric] del: written_Nil)
  then show ?thesis
    using assms r(2,3) by (simp add: write_field_header_def write_simps enc_bytes_def)
qed

lemma write_null_message_enc:
  assumes "room blk base (s @ enc_bytes empty_message_bytes)"
  shows "write_null_message be (fst (written blk base s)) base (snd (written blk base s)) =
    Ret (written blk base (s @ enc_bytes empty_message_bytes))"
proof -
  have r: "room blk base (s @ le_bytes v)" "room blk base (s @ le_bytes v @ le_bytes v')"
    "room blk base (s @ le_bytes v @ le_bytes v' @ le_bytes v'')" for v v' v''
    using assms by (auto simp: room_def)
  show ?thesis
    using assms r
    by (simp add: write_null_message_def write_simps enc_bytes_def) (simp add: empty_message_bytes_def write_simps)
qed

lemma flatten_bufs_enc:
  assumes "room blk base (s @ concat (map enc_buf xs))"
    and "\<forall>x \<in> set xs. case x of None \<Rightarrow> True | Some b \<Rightarrow> length b < 2 ^ 32"
  shows "flatten_bufs be xs (fst (written blk base s)) base (snd (written blk base s)) =
    Ret (written blk base (s @ concat (map enc_buf xs)))"
  using assms
proof (induction xs arbitrary: s)
  case (Cons x xs)
  obtain b where b: "(case x of None \<Rightarrow> [] | Some b \<Rightarrow> b) = b" by simp
  then have e: "enc_buf x = le_bytes (of_nat (length b)) @ b"
    by (simp add: enc_buf_def enc_bytes_def)
  have r: "room blk base (s @ le_bytes v)" "room blk base ((s @ le_bytes v) @ b)" for v
    using Cons.prems(1) e by (auto simp: room_def)
  have "flatten_bufs be xs (fst (written blk base (s @ enc_buf x))) base
        (snd (written blk base (s @ enc_buf x)))
      = Ret (written blk base ((s @ enc_buf x) @ concat (map enc_buf xs)))"
    using Cons.prems by (intro Cons.IH) simp_all
  then show ?case
    using r by (simp add: b e write_simps Let_def)
qed simp

text \<open>
  The items of a fixed-size area on a big-endian host are reversed one by one; \<open>SwapCopy\<close>
  counts bytes in an \<open>int\<close>, hence the bound.
\<close>

lemma fixed_out_enc:
  assumes "header_ok (MField nm tc isz n (Flat bs) fl)" "length rm = length bs"
    and "be \<longrightarrow> length bs < 2 ^ 31"
  shows "fixed_out be tc n isz bs rm = Ret (wire_data be tc bs)"
proof -
  have len: "length bs = unat n * unat isz" "length bs < 2 ^ 32" and isz: "isz = fixed_item_size tc"
    using assms(1) by auto
  then have ds: "unat (n * isz) = length bs" by (simp add: unat_word_ariths)
  show ?thesis
  proof (cases "be \<and> tc \<noteq> B_BOOL_TYPE \<and> tc \<noteq> B_INT8_TYPE")
    case False
    then have "wire_data be tc bs = bs"
      by (auto simp: wire_data_def elem_size_def fixed_item_size_def rev_chunks_one type_code_defs)
    with False show ?thesis by (simp only: fixed_out_def Let_def ds) simp
  next
    case True
    have k: "SwapCopy rm bs (n * c) 4 = Ret (rev_chunks 4 bs)"
      if "isz = 4 * c" "unat (4 * c) = 4 * unat c" for c
    proof -
      have "length bs = unat n * unat c * 4" using len(1) that by simp
      moreover then have "unat (n * c) = unat n * unat c"
        using len(2) by (intro unat_mult_small) (simp add: mult.commute)
      ultimately show ?thesis
        using SwapCopy_spec [of "n * c" 4 bs rm] True assms(2,3) by simp
    qed
    show ?thesis
    proof (cases "tc = B_POINT_TYPE \<or> tc = B_RECT_TYPE")
      case True2: True
      have "isz = 4 * (if tc = B_POINT_TYPE then 2 else 4)"
        using isz True2 by (auto simp: fixed_item_size_def type_code_defs)
      then have "SwapCopy rm bs (n * (if tc = B_POINT_TYPE then 2 else 4)) 4 = Ret (rev_chunks 4 bs)"
        by (rule k) auto
      moreover have "B_POINT_TYPE \<noteq> B_RECT_TYPE" by (simp add: type_code_defs)
      ultimately show ?thesis
        using True True2 by (simp only: fixed_out_def Let_def ds) (auto simp: wire_data_def elem_size_def)
    next
      case False
      have "SwapCopy rm bs n isz = Ret (rev_chunks (unat isz) bs)"
        using SwapCopy_spec [of n isz bs rm] len(1) True assms(2,3) isz fixed_item_size_pos by simp
      moreover have "elem_size tc = isz" using False isz by (simp add: elem_size_def)
      ultimately show ?thesis
        using True False by (simp only: fixed_out_def Let_def ds) (simp add: wire_data_def)
    qed
  qed
qed

definition flat_ok :: "bool \<Rightarrow> mmessage \<Rightarrow> bool" where
  "flat_ok be m \<longleftrightarrow> (\<forall>blk base. room blk base (enc_msg be m) \<longrightarrow>
     (be \<longrightarrow> length (enc_msg be m) < 2 ^ 31) \<longrightarrow>
     MMFlattenMessage be m blk base = Ret (memcpy_at base (enc_msg be m) blk))"

lemma flatten_items_enc:
  assumes "\<And>m. Some m \<in> set xs \<Longrightarrow> flat_ok be m \<and> msg_ok m"
    and "room blk base (s @ enc_items be xs)" "be \<longrightarrow> length (enc_items be xs) < 2 ^ 31"
  shows "flatten_items be xs base (written blk base s) = Ret (written blk base (s @ enc_items be xs))"
  using assms
proof (induction xs arbitrary: s)
  case (Cons x xs)
  have IH: "flatten_items be xs base (written blk base (s @ t)) =
      Ret (written blk base ((s @ t) @ enc_items be xs))"
    if "room blk base ((s @ t) @ enc_items be xs)" for t
    using Cons.prems that by (intro Cons.IH) auto
  show ?case
  proof (cases x)
    case None
    have "room blk base (s @ enc_bytes empty_message_bytes)"
      using Cons.prems(2) None by (simp add: room_def)
    then show ?thesis
      using IH [of "enc_bytes empty_message_bytes"] Cons.prems(2) None
      by (simp add: write_null_message_enc)
  next
    case (Some m)
    let ?e = "enc_msg be m" and ?n = "of_nat (length (enc_msg be m)) :: u32"
    have r: "room blk base (s @ le_bytes ?n)" "room blk base ((s @ le_bytes ?n) @ ?e)"
      using Cons.prems(2) Some by (auto simp: room_def)
    have size: "MMGetFlattenedSize m = Ret ?n"
      using Cons.prems(1) Some by (intro MMGetFlattenedSize_enc) simp
    have bound: "be \<longrightarrow> length ?e < 2 ^ 31"
      using Cons.prems(3) Some by auto
    have "flat_ok be m" using Cons.prems(1) Some by simp
    then have flat: "MMFlattenMessage be m b p = Ret (memcpy_at p ?e b)" if "room b p ?e" for b p
      using bound that unfolding flat_ok_def by blast
    have "MMFlattenMessage be m (fst (written blk base (s @ le_bytes ?n)))
        (base + unat (snd (written blk base (s @ le_bytes ?n))))
        = Ret (fst (written blk base ((s @ le_bytes ?n) @ ?e)))"
      unfolding unat_written [OF r(1)] flat [OF room_sub [OF r(2)]] written_sub(1) [OF r(2)] ..
    then show ?thesis
      using Cons.prems(2) Some size r IH [of "enc_bytes ?e"] written_sub(2) [OF r(2)]
      by (simp add: write_simps enc_bytes_def)
  qed
qed simp

lemma FlattenMMessageField_enc:
  assumes "header_ok f" "\<And>xs m. f_data f = Msgs xs \<Longrightarrow> Some m \<in> set xs \<Longrightarrow> flat_ok be m \<and> msg_ok m"
    and "room blk base e" "be \<longrightarrow> length e < 2 ^ 31"
    and e: "e = enc_bytes (f_name f) @ le_bytes (f_typeCode f) @ enc_bytes (enc_data be f)"
  shows "FlattenMMessageField be f blk base = Ret (written blk base e)"
proof (cases f)
  case (MField nm tc isz n d fl)
  let ?len = "of_nat (length (enc_data be f)) :: u32"
  let ?h = "enc_bytes nm @ le_bytes tc @ le_bytes ?len"
  have e': "e = ?h @ enc_data be f"
    by (simp add: e enc_bytes_def MField)
  have "size_ok be m" if "f_data f = Msgs xs" "Some m \<in> set xs" for xs m
    using assms(2) that MMGetFlattenedSize_enc by (auto simp: size_ok_def)
  then have size: "GetMMessageFieldFlattenedSize f False = Ret ?len"
    using field_flat_size_enc [OF assms(1), of be False] by simp
  have hdr: "write_field_header be nm tc ?len blk base = Ret (written blk base ?h)"
    using assms(3) by (intro write_field_header_enc) (auto simp: room_def e')
  have rm: "room blk base (?h @ enc_data be f)" using assms(3) by (simp add: e')
  have "(if IsTypeCodeVariableSize tc \<and> tc = B_MESSAGE_TYPE then
         (case d of
            Msgs xs \<Rightarrow> if length xs = unat n then flatten_items be xs base (written blk base ?h) else Fault
          | _ \<Rightarrow> Fault)
       else write_plain_data be tc isz n d (fst (written blk base ?h)) base (snd (written blk base ?h)))
      = Ret (written blk base (?h @ enc_data be f))"
  proof (cases d)
    case (Flat bs)
    have len: "length bs = unat n * unat isz" "length bs < 2 ^ 32" and tc: "\<not> IsTypeCodeVariableSize tc"
      using assms(1) by (auto simp: MField Flat)
    have bs: "length bs = unat (n * isz)" "\<not> IsTypeCodeVariableSize tc"
      using len tc by (simp_all add: unat_mult_small)
    have ed: "enc_data be f = wire_data be tc bs" by (simp add: MField Flat)
    let ?rm = "take (unat (n * isz))
      (drop (base + unat (snd (written blk base ?h))) (fst (written blk base ?h)))"
    have "length ?rm = length bs"
      using rm bs unat_written [OF room_prefix [OF rm]]
      by (auto simp: ed room_def written_def min_def)
    then have "fixed_out be tc n isz bs ?rm = Ret (wire_data be tc bs)"
      using assms(1,4) by (intro fixed_out_enc [where fl = fl]) (auto simp: MField Flat e' ed)
    then show ?thesis
      using bs rm WriteData_written [OF rm]
      by (simp add: Flat write_plain_data_def Let_def ed)
  next
    case (Bufs xs)
    have ed: "enc_data be f = le_bytes n @ concat (map enc_buf xs)" by (simp add: MField Bufs)
    have r: "room blk base (?h @ le_bytes n)" "room blk base ((?h @ le_bytes n) @ concat (map enc_buf xs))"
      using rm by (auto simp: room_def ed)
    show ?thesis
      using assms(1) flatten_bufs_enc [OF r(2), of be] r(1) WriteInt32_written [OF r(1), of be]
      by (simp add: MField Bufs write_plain_data_def ed [unfolded MField Bufs] written_case)
  next
    case (Msgs xs)
    have ed: "enc_data be f = enc_items be xs" by (simp add: MField Msgs)
    show ?thesis
      using assms(1,2,4) flatten_items_enc [of xs be blk base ?h] rm
      by (auto simp: MField Msgs e')
  qed
  then show ?thesis
    using size hdr unfolding e' by (simp only: MField FlattenMMessageField.simps bind_run.simps)
qed

lemma flatten_fields_enc:
  assumes "list_all header_ok fs"
    and "\<And>f xs m. f \<in> set fs \<Longrightarrow> f_data f = Msgs xs \<Longrightarrow> Some m \<in> set xs \<Longrightarrow> flat_ok be m \<and> msg_ok m"
    and "room blk base (s @ enc_fields be fs)" "be \<longrightarrow> length (enc_fields be fs) < 2 ^ 31"
  shows "flatten_fields be fs base (written blk base s) = Ret (written blk base (s @ enc_fields be fs))"
  using assms
proof (induction fs arbitrary: s)
  case (Cons f fs)
  obtain e where e: "e = enc_bytes (f_name f) @ le_bytes (f_typeCode f) @ enc_bytes (enc_data be f)"
    by simp
  let ?t = "if f_isFlattenable f then e else []"
  have enc: "enc_fields be (f # fs) = ?t @ enc_fields be fs" by (simp add: e)
  have IH: "flatten_fields be fs base (written blk base (s @ ?t)) =
      Ret (written blk base ((s @ ?t) @ enc_fields be fs))"
  proof (rule Cons.IH)
    show "room blk base ((s @ ?t) @ enc_fields be fs)" using Cons.prems(3) by (simp only: enc append_assoc)
    show "be \<longrightarrow> length (enc_fields be fs) < 2 ^ 31" using Cons.prems(4) by (simp only: enc) auto
  qed (use Cons.prems in \<open>auto\<close>)
  show ?case
  proof (cases "f_isFlattenable f")
    case False
    then show ?thesis using IH by simp
  next
    case True
    have r: "room blk base (s @ e)"
      using Cons.prems(3) True by (simp only: enc) (simp add: room_def)
    have b: "be \<longrightarrow> length e < 2 ^ 31"
      using Cons.prems(4) True by (simp only: enc) auto
    have "FlattenMMessageField be f (fst (written blk base s)) (base + unat (snd (written blk base s)))
        = Ret (written (fst (written blk base s)) (base + length s) e)"
      unfolding unat_written [OF room_prefix [OF r]]
      by (rule FlattenMMessageField_enc [OF _ _ room_sub [OF r] b e]) (use Cons.prems in auto)
    then show ?thesis
      using True IH written_sub [OF r] by (simp add: written_def enc del: enc_fields.simps)
  qed
qed simp

text \<open>The code writes the encoding, and nothing outside it.\<close>

lemma MMFlattenMessage_flat_ok: "msg_ok m \<Longrightarrow> flat_ok be m"
proof -
  have "msg_ok m \<longrightarrow> flat_ok be m"
  proof (induction m rule: mmessage_induct)
    case (MMessage w fs)
    show ?case
    proof
      assume ok: "msg_ok (MMessage w fs)"
      let ?h = "le_bytes CURRENT_PROTOCOL_VERSION @ le_bytes w @
        le_bytes (of_nat (length (filter f_isFlattenable fs)))"
      have enc: "enc_msg be (MMessage w fs) = ?h @ enc_fields be fs" by simp
      show "flat_ok be (MMessage w fs)"
        unfolding flat_ok_def
      proof (intro allI impI)
        fix blk base
        assume r: "room blk base (enc_msg be (MMessage w fs))"
          and b: "be \<longrightarrow> length (enc_msg be (MMessage w fs)) < 2 ^ 31"
        have "write_message_header be w fs blk base = Ret (written blk base ?h)"
          using r by (intro write_message_header_enc) (auto simp: room_def)
        moreover have "flatten_fields be fs base (written blk base ?h) =
            Ret (written blk base (?h @ enc_fields be fs))"
        proof (rule flatten_fields_enc)
          show "room blk base (?h @ enc_fields be fs)" using r by (simp only: enc)
          show "be \<longrightarrow> length (enc_fields be fs) < 2 ^ 31" using b by (simp only: enc) auto
        qed (use ok MMessage in \<open>auto\<close>)
        ultimately show "MMFlattenMessage be (MMessage w fs) blk base =
            Ret (memcpy_at base (enc_msg be (MMessage w fs)) blk)"
          by (simp add: written_def)
      qed
    qed
  qed
  then show "msg_ok m \<Longrightarrow> flat_ok be m" by simp
qed

lemma MMFlattenMessage_enc:
  assumes "msg_ok m" "base + length (enc_msg be m) \<le> length blk" "length (enc_msg be m) < 2 ^ 32"
    and "be \<longrightarrow> length (enc_msg be m) < 2 ^ 31"
  shows "MMFlattenMessage be m blk base = Ret (memcpy_at base (enc_msg be m) blk)"
  using MMFlattenMessage_flat_ok [OF assms(1), of be] assms(2-4)
  unfolding flat_ok_def room_def by blast

end
