(* ===== verification/Mini_Unflatten.thy ===== *)
theory Mini_Unflatten
  imports Mini_Flatten
begin

text \<open>
  Parsing: \<open>MMUnflattenMessage\<close> and its helpers of \<^verbatim>\<open>minimessage/MiniMessage.c\<close>. The input
  is the list of the bytes that may be read from \<open>inBuf\<close>; \<open>inputBufferBytes\<close> is what the
  caller claims their number to be. Offsets are 32-bit and wrap around; a read or write
  beyond a block is a \<open>Fault\<close>. The loop over embedded messages has no bound of its own: it
  runs on fuel, which also bounds the nesting.
\<close>

section \<open>Reading from the buffer\<close>

definition ReadData :: "bytes \<Rightarrow> u32 \<Rightarrow> u32 \<Rightarrow> u32 \<Rightarrow> (bytes \<times> u32) option run" where
  "ReadData inBuf inputBufferBytes readOffset blockSize =
     (if readOffset + blockSize > inputBufferBytes then Ret None
      else bind_run (guard (unat readOffset + unat blockSize \<le> length inBuf)) (\<lambda>_.
        Ret (Some (take (unat blockSize) (drop (unat readOffset) inBuf), readOffset + blockSize))))"

definition ReadInt32 :: "bool \<Rightarrow> bytes \<Rightarrow> u32 \<Rightarrow> u32 \<Rightarrow> (u32 \<times> u32) option run" where
  "ReadInt32 be inBuf inputBufferBytes readOffset =
     bind_run (ReadData inBuf inputBufferBytes readOffset 4) (\<lambda>r. case r of
       None \<Rightarrow> Ret None
     | Some (networkByteOrder, off) \<Rightarrow>
         Ret (Some (B_LENDIAN_TO_HOST_INT32 be (load_u32 be networkByteOrder), off)))"

definition ImportMMessageField ::
    "env \<Rightarrow> bytes \<Rightarrow> u32 \<Rightarrow> u32 \<Rightarrow> u32 \<Rightarrow> bytes \<Rightarrow> u32 \<Rightarrow> u32 \<Rightarrow> nat \<Rightarrow> (mfield option \<times> nat) run" where
  "ImportMMessageField E fieldName nameLength tc eLength dataPtr itemSize swapSize k =
     (let numItems = eLength div itemSize in
      bind_run (AllocMMessageField E fieldName nameLength tc numItems itemSize k) (\<lambda>(field, k').
        case field of
          None \<Rightarrow> Ret (None, k')
        | Some f \<Rightarrow>
            (case f_data f of
               Flat room \<Rightarrow>
                 bind_run (if e_big E
                           then SwapCopy room dataPtr (numItems * (itemSize div swapSize)) swapSize
                           else memcpy_run (unat (numItems * itemSize)) dataPtr room)
                   (\<lambda>bs. Ret (Some (MField (f_name f) (f_typeCode f) (f_itemSize f) (f_numItems f)
                            (Flat bs) (f_isFlattenable f)), k'))
             | _ \<Rightarrow> Fault)))"

text \<open>
  The switch over the type codes with items of one size: type code of the new field, item
  size and the size of the parts that are byte-swapped. Pointers of old peers become
  \<open>int32\<close>s.
\<close>

definition import_kind :: "u32 \<Rightarrow> (u32 \<times> u32 \<times> u32) option" where
  "import_kind tc =
     (if tc = B_BOOL_TYPE then Some (tc, 1, 1)
      else if tc = B_DOUBLE_TYPE then Some (tc, 8, 8)
      else if tc = B_FLOAT_TYPE then Some (tc, 4, 4)
      else if tc = B_INT64_TYPE then Some (tc, 8, 8)
      else if tc = B_INT32_TYPE then Some (tc, 4, 4)
      else if tc = B_INT16_TYPE then Some (tc, 2, 2)
      else if tc = B_INT8_TYPE then Some (tc, 1, 1)
      else if tc = B_POINTER_TYPE then Some (B_INT32_TYPE, 4, 4)
      else if tc = B_POINT_TYPE then Some (tc, 8, 4)
      else if tc = B_RECT_TYPE then Some (tc, 16, 4)
      else None)"

section \<open>Entries\<close>

text \<open>
  Name length, name, type code and data length of an entry; \<open>None\<close> is \<open>return B_ERROR\<close>.
  The name stays a pointer into the buffer.
\<close>

definition read_entry_header ::
    "bool \<Rightarrow> bytes \<Rightarrow> u32 \<Rightarrow> u32 \<Rightarrow> (bytes \<times> u32 \<times> u32 \<times> u32 \<times> u32) option run" where
  "read_entry_header be buffer n off =
     bind_run (ReadInt32 be buffer n off) (\<lambda>r. case r of None \<Rightarrow> Ret None
     | Some (nameLength, off) \<Rightarrow>
       if nameLength > n - off then Ret None else
       let fieldName = drop (unat off) buffer; off = off + nameLength in
       bind_run (ReadInt32 be buffer n off) (\<lambda>r. case r of None \<Rightarrow> Ret None
       | Some (tc, off) \<Rightarrow>
         bind_run (ReadInt32 be buffer n off) (\<lambda>r. case r of None \<Rightarrow> Ret None
         | Some (eLength, off) \<Rightarrow>
           if eLength > n - off then Ret None
           else Ret (Some (fieldName, nameLength, tc, eLength, off)))))"

text \<open>
  The loop over the embedded messages of one entry, with the parser for one message as a
  parameter. The messages read so far hang together through their \<open>scratch\<close> pointers.
\<close>

type_synonym parser = "bytes \<Rightarrow> u32 \<Rightarrow> mmessage \<Rightarrow> nat \<Rightarrow> (status \<times> mmessage \<times> nat) run"

fun read_msgs ::
    "parser \<Rightarrow> env \<Rightarrow> bytes \<Rightarrow> u32 \<Rightarrow> nat \<Rightarrow> u32 \<Rightarrow> u32 \<Rightarrow> u32 \<Rightarrow> mmessage list \<Rightarrow> nat
      \<Rightarrow> (status \<times> mmessage list \<times> nat) run" where
  "read_msgs parse E buffer n 0 eUsed eLength eOffset acc k = NoFuel"
| "read_msgs parse E buffer n (Suc fuel) eUsed eLength eOffset acc k =
     (if eUsed < eLength then
        bind_run (ReadInt32 (e_big E) buffer n eOffset) (\<lambda>r. case r of
          None \<Rightarrow> Ret (B_ERROR, acc, k)
        | Some (entryLen, eOffset) \<Rightarrow>
            if eOffset + entryLen \<le> n then
              (case MMAllocMessage E 0 k of
                 (None, k') \<Rightarrow> Ret (B_ERROR, acc, k')
               | (Some newMsg, k') \<Rightarrow>
                   bind_run (parse (drop (unat eOffset) buffer) entryLen newMsg k') (\<lambda>(st, m, k').
                     if st = B_NO_ERROR
                     then read_msgs parse E buffer n fuel (eUsed + (4 + entryLen)) eLength
                            (eOffset + entryLen) (acc @ [m]) k'
                     else Ret (B_ERROR, acc, k')))
            else Ret (B_ERROR, acc, k))
      else Ret (B_NO_ERROR, acc, k))"

text \<open>
  Freeing the list on an error. \<open>MMAllocMessage\<close> does not initialise \<open>scratch\<close> and the
  loop sets it in all messages but the last, so the walk ends cleanly only if the fresh
  block happened to hold a null pointer there (bytes 24 to 31 of \<open>struct _MMessage\<close>).
\<close>

definition free_scratch_list :: "env \<Rightarrow> mmessage list \<Rightarrow> unit run" where
  "free_scratch_list E ms = guard (ms = [] \<or> list_all (\<lambda>i. e_junk E i = 0) [24..<32])"

definition set_last_data :: "mmessage \<Rightarrow> mdata \<Rightarrow> mmessage" where
  "set_last_data m d =
     MMessage (m_what m) (butlast (m_fields m) @ [with_data (last (m_fields m)) d])"

definition last_slots :: "mmessage \<Rightarrow> nat" where
  "last_slots m = (case f_data (last (m_fields m)) of
      Flat bs \<Rightarrow> 0 | Bufs xs \<Rightarrow> length xs | Msgs xs \<Rightarrow> length xs)"

definition read_message_entry ::
    "parser \<Rightarrow> env \<Rightarrow> nat \<Rightarrow> bytes \<Rightarrow> u32 \<Rightarrow> bytes \<Rightarrow> u32 \<Rightarrow> u32 \<Rightarrow> mmessage \<Rightarrow> nat
      \<Rightarrow> (status \<times> mmessage \<times> nat) run" where
  "read_message_entry parse E fuel buffer n fieldName eLength off msg k =
     bind_run (read_msgs parse E buffer n fuel 0 eLength off [] k) (\<lambda>(ret, ms, k).
     bind_run (if ret = B_NO_ERROR
               then MMPutMessageField E msg False fieldName (of_nat (length ms)) k
               else Ret (False, msg, k)) (\<lambda>(ok, msg, k).
       if ok then
         bind_run (guard (length ms \<le> last_slots msg)) (\<lambda>_.
           Ret (B_NO_ERROR, set_last_data msg
             (Msgs (map Some ms @ replicate (last_slots msg - length ms) None)), k))
       else
         bind_run (free_scratch_list E ms) (\<lambda>_.
         bind_run (MMRemoveField msg fieldName) (\<lambda>(_, msg). Ret (B_ERROR, msg, k)))))"

text \<open>
  The loop over the byte buffers of one entry: \<open>cap\<close> is the number of slots the field
  really has, the first number the items still to read. \<open>itemSize + sizeof(uint32)\<close> is
  computed in \<open>size_t\<close>.
\<close>

fun read_bufs ::
    "env \<Rightarrow> bytes \<Rightarrow> u32 \<Rightarrow> nat \<Rightarrow> nat \<Rightarrow> u32 \<Rightarrow> u32 \<Rightarrow> bytes list \<Rightarrow> nat
      \<Rightarrow> (status \<times> bytes list \<times> nat) run" where
  "read_bufs E buffer n cap 0 eLeft eOffset acc k = Ret (B_NO_ERROR, acc, k)"
| "read_bufs E buffer n cap (Suc r) eLeft eOffset acc k =
     bind_run (ReadInt32 (e_big E) buffer n eOffset) (\<lambda>x. case x of
       None \<Rightarrow> Ret (B_ERROR, acc, k)
     | Some (itemSize, eOffset) \<Rightarrow>
         if unat itemSize + 4 \<le> unat eLeft then
           bind_run (guard (length acc < cap)) (\<lambda>_.
             case MBAllocByteBuffer E itemSize False k of
               (None, k') \<Rightarrow> Ret (B_ERROR, acc, k')
             | (Some b, k') \<Rightarrow>
                 bind_run (memcpy_run (unat itemSize) (drop (unat eOffset) buffer) b) (\<lambda>b.
                   read_bufs E buffer n cap r (eLeft - (itemSize + 4)) (eOffset + itemSize)
                     (acc @ [b]) k'))
         else Ret (B_ERROR, acc, k))"

text \<open>
  On an error the field that was put is removed, and \<open>FreeMMessageField\<close> walks down from
  item \<open>numItems - 1\<close>, an \<open>int32\<close>, whatever the size of the block.
\<close>

definition free_walk_ok :: "u32 \<Rightarrow> nat \<Rightarrow> bool" where
  "free_walk_ok numItems room \<longleftrightarrow> sint (numItems - 1) < 0 \<or> unat numItems \<le> room"

definition read_buffer_entry ::
    "env \<Rightarrow> bytes \<Rightarrow> u32 \<Rightarrow> bytes \<Rightarrow> u32 \<Rightarrow> u32 \<Rightarrow> u32 \<Rightarrow> mmessage \<Rightarrow> nat
      \<Rightarrow> (status \<times> mmessage \<times> nat) run" where
  "read_buffer_entry E buffer n fieldName tc eLength off msg k =
     bind_run (ReadInt32 (e_big E) buffer n off) (\<lambda>r. case r of
       None \<Rightarrow> Ret (B_ERROR, msg, k)
     | Some (numItems, eOffset) \<Rightarrow>
         bind_run (PutMMVariableFieldAux E msg False tc fieldName numItems k) (\<lambda>(bufs, msg, k).
           if bufs then
             bind_run (read_bufs E buffer n (last_slots msg) (unat numItems) eLength eOffset [] k)
               (\<lambda>(st, bs, k).
                 if st = B_NO_ERROR
                 then Ret (B_NO_ERROR, set_last_data msg
                        (Bufs (map Some bs @ replicate (last_slots msg - length bs) None)), k)
                 else bind_run (guard (free_walk_ok numItems (last_slots msg))) (\<lambda>_.
                   bind_run (MMRemoveField msg fieldName) (\<lambda>(_, msg). Ret (B_ERROR, msg, k))))
           else Ret (B_ERROR, msg, k)))"

definition read_fixed_entry ::
    "env \<Rightarrow> bytes \<Rightarrow> bytes \<Rightarrow> u32 \<Rightarrow> u32 \<Rightarrow> u32 \<times> u32 \<times> u32 \<Rightarrow> u32 \<Rightarrow> mmessage \<Rightarrow> nat
      \<Rightarrow> (status \<times> mmessage \<times> nat) run" where
  "read_fixed_entry E buffer fieldName nameLength eLength kind off msg k =
     (case kind of (tc, itemSize, swapSize) \<Rightarrow>
        bind_run (ImportMMessageField E fieldName nameLength tc eLength (drop (unat off) buffer)
                    itemSize swapSize k) (\<lambda>(newField, k). case newField of
          Some f \<Rightarrow> Ret (B_NO_ERROR, AddMMessageField msg f, k)
        | None \<Rightarrow> Ret (B_ERROR, msg, k)))"

definition read_entry ::
    "parser \<Rightarrow> env \<Rightarrow> nat \<Rightarrow> bytes \<Rightarrow> u32 \<Rightarrow> u32 \<Rightarrow> mmessage \<Rightarrow> nat
      \<Rightarrow> (status \<times> mmessage \<times> u32 \<times> nat) run" where
  "read_entry parse E fuel buffer n off msg k =
     bind_run (read_entry_header (e_big E) buffer n off) (\<lambda>h. case h of
       None \<Rightarrow> Ret (B_ERROR, msg, off, k)
     | Some (fieldName, nameLength, tc, eLength, off) \<Rightarrow>
         bind_run
           (case import_kind tc of
              Some kind \<Rightarrow> read_fixed_entry E buffer fieldName nameLength eLength kind off msg k
            | None \<Rightarrow>
                if tc = B_MESSAGE_TYPE
                then read_message_entry parse E fuel buffer n fieldName eLength off msg k
                else read_buffer_entry E buffer n fieldName tc eLength off msg k)
           (\<lambda>(st, msg, k). Ret (st, msg, off + eLength, k)))"

fun read_entries ::
    "parser \<Rightarrow> env \<Rightarrow> nat \<Rightarrow> bytes \<Rightarrow> u32 \<Rightarrow> nat \<Rightarrow> u32 \<Rightarrow> mmessage \<Rightarrow> nat
      \<Rightarrow> (status \<times> mmessage \<times> nat) run" where
  "read_entries parse E fuel buffer n 0 off msg k = Ret (B_NO_ERROR, msg, k)"
| "read_entries parse E fuel buffer n (Suc r) off msg k =
     bind_run (read_entry parse E fuel buffer n off msg k) (\<lambda>(st, msg, off, k).
       if st = B_NO_ERROR then read_entries parse E fuel buffer n r off msg k
       else Ret (B_ERROR, msg, k))"

section \<open>Messages\<close>

primrec MMUnflattenMessage :: "nat \<Rightarrow> env \<Rightarrow> parser" where
  "MMUnflattenMessage 0 = (\<lambda>E buffer n msg k. NoFuel)"
| "MMUnflattenMessage (Suc fuel) = (\<lambda>E buffer n msg k.
     bind_run (ReadInt32 (e_big E) buffer n 0) (\<lambda>r. case r of None \<Rightarrow> Ret (B_ERROR, msg, k)
     | Some (messageProtocolVersion, off) \<Rightarrow>
       if messageProtocolVersion < OLDEST_SUPPORTED_PROTOCOL_VERSION \<or>
          messageProtocolVersion > CURRENT_PROTOCOL_VERSION then Ret (B_ERROR, msg, k) else
       bind_run (ReadInt32 (e_big E) buffer n off) (\<lambda>r. case r of None \<Rightarrow> Ret (B_ERROR, msg, k)
       | Some (what, off) \<Rightarrow>
         let msg = MMSetWhat msg what in
         bind_run (ReadInt32 (e_big E) buffer n off) (\<lambda>r. case r of None \<Rightarrow> Ret (B_ERROR, msg, k)
         | Some (numEntries, off) \<Rightarrow>
           read_entries (MMUnflattenMessage fuel E) E (Suc fuel) buffer n (unat numEntries) off
             (MMClearMessage msg) k))))"

section \<open>What survives the wire\<close>

text \<open>
  Fields that are not flattenable are dropped, \<open>NULL\<close> buffers become empty ones and
  \<open>NULL\<close> messages become empty messages.
\<close>

function (sequential) canon :: "mmessage \<Rightarrow> mmessage"
  and canon_fields :: "mfield list \<Rightarrow> mfield list"
  and canon_data :: "mdata \<Rightarrow> mdata"
  and canon_items :: "mmessage option list \<Rightarrow> mmessage option list" where
  "canon (MMessage w fs) = MMessage w (canon_fields fs)"
| "canon_fields [] = []"
| "canon_fields (f # fs) =
     (if f_isFlattenable f then [with_data f (canon_data (f_data f))] else []) @ canon_fields fs"
| "canon_data (Flat bs) = Flat bs"
| "canon_data (Bufs xs) = Bufs (map (\<lambda>x. Some (case x of None \<Rightarrow> [] | Some b \<Rightarrow> b)) xs)"
| "canon_data (Msgs xs) = Msgs (canon_items xs)"
| "canon_items [] = []"
| "canon_items (x # xs) =
     Some (case x of None \<Rightarrow> MMessage 0 [] | Some m \<Rightarrow> canon m) # canon_items xs"
  by pat_completeness auto
termination
  by (relation "measure (\<lambda>t. case t of
        Inl (Inl m) \<Rightarrow> size m
      | Inl (Inr fs) \<Rightarrow> size_list size fs
      | Inr (Inl d) \<Rightarrow> size d
      | Inr (Inr xs) \<Rightarrow> size_list (size_option size) xs)") (auto intro: order.strict_trans [OF size_field_data])

end
