(* ===== verification/Mini_Codec.thy ===== *)
theory Mini_Codec
  imports Mini_Put Mini_Flatten_Proof Mini_Unflatten
begin

text \<open>
  The round trip: parsing the wire format of a message gives the message back, up to what
  the format does not carry (\<open>canon\<close>).
\<close>

section \<open>A cursor into the buffer\<close>

text \<open>\<open>t\<close> is what comes next at offset \<open>off\<close>, within the first \<open>n\<close> bytes.\<close>

definition cursor :: "bytes \<Rightarrow> u32 \<Rightarrow> u32 \<Rightarrow> bytes \<Rightarrow> bool" where
  "cursor buf n off t \<longleftrightarrow> (\<exists>post. drop (unat off) buf = t @ post) \<and> unat off + length t \<le> unat n"

lemma cursor_lt: "cursor buf n off t \<Longrightarrow> unat off + length t < 2 ^ 32"
  using unat_less_u32 [of n] by (auto simp: cursor_def)

lemma cursor_off:
  "cursor buf n off (s @ t) \<Longrightarrow> unat (off + of_nat (length s)) = unat off + length s"
  using cursor_lt [of buf n off "s @ t"]
  by (subst unat_add_small) (simp_all add: unat_of_nat_u32)

lemma cursor_step: "cursor buf n off (s @ t) \<Longrightarrow> cursor buf n (off + of_nat (length s)) t"
  unfolding cursor_def using cursor_off [of buf n off s t, unfolded cursor_def]
  by (auto simp: add.commute [of "unat off"] drop_drop [symmetric] simp del: drop_drop)

lemma cursor_prefix: "cursor buf n off (s @ t) \<Longrightarrow> cursor buf n off s"
  by (auto simp: cursor_def)

lemma cursor_length: "cursor buf n off t \<Longrightarrow> unat off + length t \<le> length buf \<or> t = []"
proof -
  assume "cursor buf n off t"
  then obtain post where "drop (unat off) buf = t @ post" by (auto simp: cursor_def)
  then have "length buf - unat off = length t + length post" by (metis length_append length_drop)
  then show ?thesis by (cases t) auto
qed

lemma cursor_take: "cursor buf n off (s @ t) \<Longrightarrow> take (length s) (drop (unat off) buf) = s"
  by (auto simp: cursor_def)

lemma cursor_room: "cursor buf n off t \<Longrightarrow> of_nat (length t) \<le> n - off"
proof -
  assume c: "cursor buf n off t"
  then have "off \<le> n" by (simp add: cursor_def word_le_nat_alt)
  then have "unat (n - off) = unat n - unat off" by (simp add: unat_sub)
  moreover have "unat (of_nat (length t) :: u32) = length t"
    using cursor_lt [OF c] by (intro unat_of_nat_u32) simp
  moreover have "unat off + length t \<le> unat n" using c by (simp add: cursor_def)
  ultimately show ?thesis by (simp add: word_le_nat_alt)
qed

lemma ReadInt32_cursor:
  assumes "cursor buf n off (le_bytes v @ t)"
  shows "ReadInt32 be buf n off = Ret (Some (v, off + 4)) \<and> cursor buf n (off + 4) t"
proof -
  have off: "unat (off + 4) = unat off + 4"
    using cursor_off [OF assms] by simp
  then have le: "\<not> n < off + 4"
    using assms by (simp add: cursor_def word_less_nat_alt)
  moreover have "unat off + 4 \<le> length buf"
    using cursor_length [OF cursor_prefix [OF assms]] by (auto simp: le_bytes_def)
  moreover have "take 4 (drop (unat off) buf) = le_bytes v"
    using cursor_take [OF assms] by simp
  ultimately show ?thesis
    using cursor_step [OF assms] by (simp add: ReadInt32_def ReadData_def)
qed

lemma drop_at_cursor:
  assumes "cursor buf n off (s @ t)"
  shows "\<exists>post. drop (unat off) buf = s @ post"
  using assms by (auto simp: cursor_def)

section \<open>What the wire carries satisfies the invariant\<close>

lemma field_sel_with_data [simp]:
  "f_name (with_data f d) = f_name f" "f_typeCode (with_data f d) = f_typeCode f"
  "f_data (with_data f d) = d" "f_isFlattenable (with_data f d) = f_isFlattenable f"
  by (simp_all add: with_data_def)

lemma length_canon_items [simp]: "length (canon_items xs) = length xs"
  by (induction xs) auto

lemma set_canon_items:
  "y \<in> set (canon_items xs) \<Longrightarrow>
    \<exists>x \<in> set xs. y = Some (case x of None \<Rightarrow> MMessage 0 [] | Some m \<Rightarrow> canon m)"
  by (induction xs) auto

lemma set_canon_fields:
  "g \<in> set (canon_fields fs) \<Longrightarrow> \<exists>f \<in> set fs. f_isFlattenable f \<and> g = with_data f (canon_data (f_data f))"
  by (induction fs) (auto split: if_splits)

lemma header_ok_canon: "header_ok f \<Longrightarrow> header_ok (with_data f (canon_data (f_data f)))"
  by (cases f) (auto simp: with_data_def split: mdata.splits option.splits)

lemma names_canon_fields: "set (names (canon_fields fs)) \<subseteq> set (names fs)"
  by (induction fs) auto

lemma distinct_canon_fields: "distinct (names fs) \<Longrightarrow> distinct (names (canon_fields fs))"
  using names_canon_fields by (induction fs) fastforce+

lemma msg_ok_empty [simp]: "msg_ok (MMessage w [])"
  by (simp add: msg_ok_iff)

lemma msg_ok_canon: "msg_ok m \<Longrightarrow> msg_ok (canon m)"
proof -
  have "msg_ok m \<longrightarrow> msg_ok (canon m)"
  proof (induction m rule: mmessage_induct)
    case (MMessage w fs)
    show ?case
    proof
      assume ok: "msg_ok (MMessage w fs)"
      have "msg_ok m" if g: "g \<in> set (canon_fields fs)" "f_data g = Msgs ys" "Some m \<in> set ys" for g ys m
      proof -
        obtain f where f: "f \<in> set fs" "g = with_data f (canon_data (f_data f))"
          using set_canon_fields [OF g(1)] by blast
        then obtain xs where xs: "f_data f = Msgs xs" "ys = canon_items xs"
          using g(2) by (cases "f_data f") auto
        then obtain x where "x \<in> set xs" "m = (case x of None \<Rightarrow> MMessage 0 [] | Some m \<Rightarrow> canon m)"
          using g(3) set_canon_items by fastforce
        then show ?thesis
          using MMessage.IH [OF f(1) xs(1)] ok f(1) xs(1) by (auto split: option.split)
      qed
      then show "msg_ok (canon (MMessage w fs))"
        using ok distinct_canon_fields
        by (auto simp: msg_ok_iff list_all_iff dest!: set_canon_fields intro: header_ok_canon)
    qed
  qed
  then show "msg_ok m \<Longrightarrow> msg_ok (canon m)" by simp
qed

section \<open>Reading one entry\<close>

lemma wire_data_involution:
  assumes "length bs = q * unat (elem_size tc)"
  shows "rev_chunks (unat (elem_size tc)) (rev_chunks (unat (elem_size tc)) bs) = bs"
  using assms elem_size_pos by (intro rev_chunks_involution)

lemma import_kind_fixed:
  assumes "\<not> IsTypeCodeVariableSize tc" "tc \<noteq> B_POINTER_TYPE"
  shows "import_kind tc = Some (tc, fixed_item_size tc, elem_size tc) \<and>
    unat (fixed_item_size tc) = unat (fixed_item_size tc div elem_size tc) * unat (elem_size tc)"
  using assms
  by (auto simp: import_kind_def IsTypeCodeVariableSize_def fixed_item_size_def elem_size_def
      type_code_defs split: if_splits)

lemma import_kind_variable: "IsTypeCodeVariableSize tc \<Longrightarrow> import_kind tc = None"
  by (auto simp: import_kind_def IsTypeCodeVariableSize_def split: if_splits)

lemma name_ok_nonempty: "name_ok nm \<Longrightarrow> nm \<noteq> []"
  by (auto simp: name_ok_def)

lemma name_ok_take: "name_ok nm \<Longrightarrow> take (length nm - 1) (nm @ r) @ [0] = nm"
  by (subst (asm) name_ok_def) (metis append_take_drop_id butlast_conv_take butlast_snoc
      diff_le_self take_append take_all append_Nil2 diff_is_0_eq take_0)

lemma ImportMMessageField_enc:
  assumes ok: "header_ok (MField nm tc isz n (Flat bs) True)" and "no_oom E"
    and fit: "sizeof_MMessageField + length bs + length nm < 2 ^ 31"
  shows "ImportMMessageField E (nm @ r) (of_nat (length nm)) tc (of_nat (length bs))
      (wire_data (e_big E) tc bs @ r') isz (elem_size tc) k =
    Ret (Some (MField nm tc isz n (Flat bs) True), Suc k)"
proof -
  have nm: "name_ok nm" and n0: "0 < n" and isz: "isz = fixed_item_size tc"
    and bs: "length bs = unat n * unat isz" and tc: "\<not> IsTypeCodeVariableSize tc" "tc \<noteq> B_POINTER_TYPE"
    using ok by auto
  have isz0: "0 < unat isz" using isz fixed_item_size_pos by (simp add: word_less_nat_alt)
  have ub: "unat (of_nat (length bs) :: u32) = length bs"
    using fit by (intro unat_of_nat_u32) simp
  have un: "unat (of_nat (length nm) :: u32) = length nm"
    using fit by (intro unat_of_nat_u32) simp
  have num: "of_nat (length bs) div isz = n"
    using isz0 by (intro word_unat_eq_iff [THEN iffD2]) (simp only: unat_div_distrib ub, simp add: bs)
  have prod: "unat (n * isz) = length bs"
    using fit bs by (subst unat_mult_small) auto
  have alloc: "AllocMMessageField E (nm @ r) (of_nat (length nm)) tc n isz k =
      Ret (Some (MField nm tc isz n (Flat (replicate (length bs) 0)) True), Suc k)"
    using fit \<open>no_oom E\<close> name_ok_nonempty [OF nm] n0 name_ok_take [OF nm]
      AllocMMessageField_ok [OF n0, of "of_nat (length nm)" "nm @ r" isz E tc k]
    by (simp add: un prod word_unat_eq_iff)
  have el: "unat isz = unat (isz div elem_size tc) * unat (elem_size tc)"
    using import_kind_fixed [OF tc] isz by simp
  have "(if e_big E then SwapCopy (replicate (length bs) 0) (wire_data (e_big E) tc bs @ r')
            (n * (isz div elem_size tc)) (elem_size tc)
         else memcpy_run (unat (n * isz)) (wire_data (e_big E) tc bs @ r') (replicate (length bs) 0))
      = Ret bs"
  proof (cases "e_big E")
    case False
    then show ?thesis by (simp add: memcpy_run_def memcpy_at_def prod wire_data_def)
  next
    case True
    have lb: "length bs = unat n * unat (isz div elem_size tc) * unat (elem_size tc)"
      using bs el by simp
    moreover have "unat n * unat (isz div elem_size tc) \<le> length bs"
      using lb elem_size_pos [of tc] by simp
    then have "unat (n * (isz div elem_size tc)) = unat n * unat (isz div elem_size tc)"
      using fit by (intro unat_mult_small) simp
    ultimately have "SwapCopy (replicate (length bs) 0) (wire_data True tc bs @ r')
        (n * (isz div elem_size tc)) (elem_size tc)
      = Ret (rev_chunks (unat (elem_size tc)) (wire_data True tc bs))"
      using SwapCopy_spec [of "n * (isz div elem_size tc)" "elem_size tc"
          "wire_data True tc bs @ r'" "replicate (length bs) 0"] fit elem_size_pos [of tc]
      by (simp add: word_less_nat_alt)
    then show ?thesis
      using True wire_data_involution [OF lb] by (simp add: wire_data_def)
  qed
  then show ?thesis
    using alloc num by (simp add: ImportMMessageField_def Let_def)
qed

lemma read_entry_header_cursor:
  assumes "cursor buf n off (enc_bytes nm @ le_bytes tc @ enc_bytes data @ t)"
  shows "\<exists>post off'. read_entry_header be buf n off =
      Ret (Some (nm @ post, of_nat (length nm), tc, of_nat (length data), off'))
    \<and> cursor buf n off' (data @ t)"
proof -
  let ?nl = "of_nat (length nm) :: u32" and ?dl = "of_nat (length data) :: u32"
  note r1 = ReadInt32_cursor [OF assms [unfolded enc_bytes_def append_assoc], of be]
  then have c1: "cursor buf n (off + 4) (nm @ le_bytes tc @ le_bytes ?dl @ data @ t)" by simp
  have room1: "\<not> n - (off + 4) < ?nl"
    using cursor_room [OF cursor_prefix [OF c1]] by simp
  obtain post where post: "drop (unat (off + 4)) buf = nm @ post"
    using drop_at_cursor [OF c1] by blast
  note r2 = ReadInt32_cursor [OF cursor_step [OF c1], of be]
  note r3 = ReadInt32_cursor [OF conjunct2 [OF r2], of be]
  have c3: "cursor buf n (off + 4 + ?nl + 4 + 4) (data @ t)" using r3 by simp
  have "\<not> n - (off + 4 + ?nl + 4 + 4) < ?dl"
    using cursor_room [OF cursor_prefix [OF c3]] by simp
  then show ?thesis
    using r1 r2 r3 room1 post c3 by (auto simp: read_entry_header_def Let_def)
qed

lemma read_bufs_enc:
  assumes "cursor buf n off (concat (map enc_buf xs) @ t)"
    and "length (concat (map enc_buf xs)) \<le> unat eLeft" "no_oom E"
    and "length acc + length xs \<le> cap"
  shows "\<exists>k'. read_bufs E buf n cap (length xs) eLeft off acc k =
    Ret (B_NO_ERROR, acc @ map (\<lambda>x. case x of None \<Rightarrow> [] | Some b \<Rightarrow> b) xs, k')"
  using assms
proof (induction xs arbitrary: eLeft off acc k)
  case (Cons x xs)
  obtain b where b: "(case x of None \<Rightarrow> [] | Some b \<Rightarrow> b) = b" by simp
  let ?s = "of_nat (length b) :: u32"
  have e: "enc_buf x = le_bytes ?s @ b" by (simp add: enc_buf_def enc_bytes_def b)
  have us: "unat ?s = length b"
    using cursor_lt [OF Cons.prems(1)] by (intro unat_of_nat_u32) (simp add: e)
  have rd: "ReadInt32 (e_big E) buf n off = Ret (Some (?s, off + 4))"
    and c1: "cursor buf n (off + 4) (b @ concat (map enc_buf xs) @ t)"
    using ReadInt32_cursor [of buf n off ?s "b @ concat (map enc_buf xs) @ t"] Cons.prems(1)
    by (simp_all add: e)
  have left: "unat ?s + 4 \<le> unat eLeft" using Cons.prems(2) by (simp add: e us)
  have "unat (?s + 4) = length b + 4"
    using left unat_less_u32 [of eLeft] by (subst unat_add_small) (simp_all add: us)
  moreover then have "?s + 4 \<le> eLeft" using left by (simp add: us word_le_nat_alt)
  ultimately have "unat (eLeft - (?s + 4)) = unat eLeft - (length b + 4)"
    by (simp add: unat_sub)
  then have "\<exists>k'. read_bufs E buf n cap (length xs) (eLeft - (?s + 4)) (off + 4 + ?s) (acc @ [b]) (Suc k) =
      Ret (B_NO_ERROR, (acc @ [b]) @ map (\<lambda>x. case x of None \<Rightarrow> [] | Some b \<Rightarrow> b) xs, k')"
    using Cons.prems cursor_step [OF c1] by (intro Cons.IH) (auto simp: e)
  moreover obtain post where post: "drop (unat (off + 4)) buf = b @ post"
    using drop_at_cursor [OF c1] by blast
  have "memcpy_run (length b) (drop (unat (off + 4)) buf) (map (e_junk E) [0..<length b]) = Ret b"
    unfolding post by (simp add: memcpy_run_def memcpy_at_def)
  ultimately show ?case
    using Cons.prems(3,4) left rd by (simp add: MBAllocByteBuffer_def us b)
qed simp

text \<open>What the parser does for the embedded messages is assumed here and provided by induction.\<close>

definition parses :: "parser \<Rightarrow> bool \<Rightarrow> mmessage \<Rightarrow> bool" where
  "parses parse be m \<longleftrightarrow> (\<forall>buf n m0 k. cursor buf n 0 (enc_msg be m) \<longrightarrow>
     (\<exists>k'. parse buf n m0 k = Ret (B_NO_ERROR, canon m, k')))"

lemma read_msgs_enc:
  assumes "cursor buf n off (enc_items (e_big E) xs @ t)"
    and "unat eUsed + length (enc_items (e_big E) xs) = unat eLength" "no_oom E"
    and "length xs < fuel"
    and "\<And>m. Some m \<in> set xs \<Longrightarrow> parses parse (e_big E) m" "parses parse (e_big E) (MMessage 0 [])"
  shows "\<exists>k'. read_msgs parse E buf n fuel eUsed eLength off acc k =
    Ret (B_NO_ERROR, acc @ map (\<lambda>x. case x of None \<Rightarrow> MMessage 0 [] | Some m \<Rightarrow> canon m) xs, k')"
  using assms
proof (induction xs arbitrary: eUsed off acc k fuel)
  case Nil
  then obtain f where "fuel = Suc f" by (cases fuel) auto
  then show ?case using Nil by (simp add: word_unat_eq_iff [symmetric])
next
  case (Cons x xs)
  let ?be = "e_big E"
  obtain f where f: "fuel = Suc f" using Cons.prems(4) by (cases fuel) auto
  let ?m = "case x of None \<Rightarrow> MMessage 0 [] | Some m \<Rightarrow> m"
  have em: "(case x of None \<Rightarrow> empty_message_bytes | Some m \<Rightarrow> enc_msg ?be m) = enc_msg ?be ?m"
    by (cases x) (simp_all add: empty_message_bytes_def)
  let ?s = "of_nat (length (enc_msg ?be ?m)) :: u32"
  have e: "enc_items ?be (x # xs) = le_bytes ?s @ enc_msg ?be ?m @ enc_items ?be xs"
    by (simp add: em enc_bytes_def)
  have us: "unat ?s = length (enc_msg ?be ?m)"
    using cursor_lt [OF Cons.prems(1)] unfolding e by (intro unat_of_nat_u32) simp
  have rd: "ReadInt32 ?be buf n off = Ret (Some (?s, off + 4))"
    and c1: "cursor buf n (off + 4) (enc_msg ?be ?m @ enc_items ?be xs @ t)"
    using ReadInt32_cursor [of buf n off ?s "enc_msg ?be ?m @ enc_items ?be xs @ t"] Cons.prems(1)
    unfolding e by simp_all
  have lt: "eUsed < eLength"
    using Cons.prems(2) unfolding e by (simp add: word_less_nat_alt)
  have le: "off + 4 + ?s \<le> n"
    using cursor_step [OF c1] cursor_off [OF c1] by (simp add: cursor_def word_le_nat_alt)
  have "cursor (drop (unat (off + 4)) buf) ?s 0 (enc_msg ?be ?m)"
    using drop_at_cursor [OF c1] us by (simp add: cursor_def)
  moreover have "parses parse ?be ?m" using Cons.prems(5,6) by (cases x) auto
  ultimately obtain k1 where p: "parse (drop (unat (off + 4)) buf) ?s (MMessage 0 []) (Suc k)
      = Ret (B_NO_ERROR, canon ?m, k1)"
    unfolding parses_def by blast
  have cm: "canon ?m = (case x of None \<Rightarrow> MMessage 0 [] | Some m \<Rightarrow> canon m)"
    by (cases x) simp_all
  have le2: "unat eUsed + (4 + unat ?s) < 2 ^ 32"
    using Cons.prems(2) unat_less_u32 [of eLength] unfolding e us by simp
  have "unat (4 + ?s) = 4 + length (enc_msg ?be ?m)"
    using le2 by (subst unat_add_small) (simp_all add: us)
  then have used: "unat (eUsed + (4 + ?s)) = unat eUsed + (4 + length (enc_msg ?be ?m))"
    using le2 by (subst unat_add_small) (simp_all add: us)
  have "\<exists>k'. read_msgs parse E buf n f (eUsed + (4 + ?s)) eLength (off + 4 + ?s) (acc @ [canon ?m]) k1 =
      Ret (B_NO_ERROR, (acc @ [canon ?m]) @ map (\<lambda>x. case x of None \<Rightarrow> MMessage 0 [] | Some m \<Rightarrow> canon m) xs, k')"
  proof (rule Cons.IH)
    show "unat (eUsed + (4 + ?s)) + length (enc_items ?be xs) = unat eLength"
      using Cons.prems(2) unfolding used e by simp
  qed (use Cons.prems f cursor_step [OF c1] in \<open>auto\<close>)
  then show ?case
    using rd lt le p Cons.prems(3) f cm by (simp add: MMAllocMessage_def)
qed

abbreviation canon_field :: "mfield \<Rightarrow> mfield" where
  "canon_field f \<equiv> with_data f (canon_data (f_data f))"

abbreviation enc_entry :: "bool \<Rightarrow> mfield \<Rightarrow> bytes" where
  "enc_entry be f \<equiv> enc_bytes (f_name f) @ le_bytes (f_typeCode f) @ enc_bytes (enc_data be f)"

lemma put_name:
  assumes "name_ok nm"
  shows "0 \<in> set (nm @ post)" "cstr (nm @ post) = cstr nm" "cstr nm @ [0] = nm"
    "put_size (nm @ post) n isz = sizeof_MMessageField + unat n * unat isz + length nm"
proof -
  show nul: "0 \<in> set (nm @ post)" and c: "cstr (nm @ post) = cstr nm"
    using name_ok_nul [OF assms] by (simp_all add: cstr_append_terminated)
  show n: "cstr nm @ [0] = nm" using assms by (simp add: name_ok_def)
  have "length (cstr nm) + 1 = length nm" by (metis n length_append_singleton Suc_eq_plus1)
  then show "put_size (nm @ post) n isz = sizeof_MMessageField + unat n * unat isz + length nm"
    by (simp add: put_size_def c)
qed

lemma other_fields_fresh: "s \<notin> set (names fs) \<Longrightarrow> other_fields s fs = fs"
  by (simp add: other_fields_absent find_last_None)

lemma length_concat_enc_buf: "4 * length xs \<le> length (concat (map enc_buf xs))"
  by (induction xs) (simp_all add: enc_buf_def)

lemma length_enc_items: "4 * length xs \<le> length (enc_items be xs)"
  by (induction xs) simp_all

lemma canon_items_map:
  "canon_items xs = map Some (map (\<lambda>x. case x of None \<Rightarrow> MMessage 0 [] | Some m \<Rightarrow> canon m) xs)"
  by (induction xs) auto

lemma read_fixed_entry_enc:
  assumes ok: "header_ok (MField nm tc isz n (Flat bs) True)" and "no_oom E"
    and fit: "sizeof_MMessageField + length bs + length nm < 2 ^ 31"
    and cur: "cursor buf N off (wire_data (e_big E) tc bs @ t)"
  shows "read_fixed_entry E buf (nm @ post) (of_nat (length nm)) (of_nat (length bs))
      (tc, isz, elem_size tc) off M k =
    Ret (B_NO_ERROR, AddMMessageField M (MField nm tc isz n (Flat bs) True), Suc k)"
proof -
  obtain r where "drop (unat off) buf = wire_data (e_big E) tc bs @ r"
    using drop_at_cursor [OF cur] by blast
  then show ?thesis
    using ImportMMessageField_enc [OF ok assms(2) fit] by (simp add: read_fixed_entry_def)
qed

lemma read_buffer_entry_enc:
  assumes ok: "header_ok (MField nm tc isz n (Bufs xs) True)" and "no_oom E" and M: "msg_ok M"
    and fresh: "cstr nm \<notin> set (names (m_fields M))"
    and data: "data = le_bytes n @ concat (map enc_buf xs)"
    and fit: "sizeof_MMessageField + 2 * length data + length nm < 2 ^ 32"
    and cur: "cursor buf N off (data @ t)"
  shows "\<exists>k'. read_buffer_entry E buf N (nm @ post) tc (of_nat (length data)) off M k =
    Ret (B_NO_ERROR, AddMMessageField M
      (MField nm tc isz n (Bufs (map (\<lambda>x. Some (case x of None \<Rightarrow> [] | Some b \<Rightarrow> b)) xs)) True), k')"
proof -
  have nm: "name_ok nm" and tc: "IsTypeCodeVariableSize tc" "tc \<noteq> B_MESSAGE_TYPE" and n0: "0 < n"
    and isz: "isz = 8" and len: "length xs = unat n"
    using ok by (auto simp: sizeof_pointer_def)
  note pn = put_name [OF nm]
  have rd: "ReadInt32 (e_big E) buf N off = Ret (Some (n, off + 4))"
    and c1: "cursor buf N (off + 4) (concat (map enc_buf xs) @ t)"
    using ReadInt32_cursor [of buf N off n "concat (map enc_buf xs) @ t"] cur by (simp_all add: data)
  have fit8: "put_size (nm @ post) n 8 < 2 ^ 32"
    using fit length_concat_enc_buf [of xs] len by (simp add: pn data)
  have put: "PutMMVariableFieldAux E M False tc (nm @ post) n k = Ret (True,
      MMessage (m_what M) (m_fields M @ [MField nm tc 8 n (Bufs (replicate (unat n) None)) True]), Suc k)"
    using PutMMVariableFieldAux_spec [OF M pn(1) n0 fit8 tc] \<open>no_oom E\<close> fresh
    by (simp add: pn other_fields_fresh retained_def buf_data_def find_last_None [THEN iffD2])
  have ul: "unat (of_nat (length data) :: u32) = length data"
    using fit by (intro unat_of_nat_u32) simp
  obtain k' where "read_bufs E buf N (unat n) (length xs) (of_nat (length data)) (off + 4) [] (Suc k) =
      Ret (B_NO_ERROR, [] @ map (\<lambda>x. case x of None \<Rightarrow> [] | Some b \<Rightarrow> b) xs, k')"
    using read_bufs_enc [OF c1 _ \<open>no_oom E\<close>, of "of_nat (length data)" "[]" "unat n" "Suc k"] len
    unfolding ul by (auto simp: data)
  then show ?thesis
    using rd put len by (simp add: read_buffer_entry_def last_slots_def set_last_data_def
        AddMMessageField_def with_data_def isz o_def)
qed

lemma read_message_entry_enc:
  assumes ok: "header_ok (MField nm tc isz n (Msgs xs) True)" and "no_oom E" and M: "msg_ok M"
    and fresh: "cstr nm \<notin> set (names (m_fields M))"
    and fit: "sizeof_MMessageField + 2 * length (enc_items (e_big E) xs) + length nm < 2 ^ 32"
    and cur: "cursor buf N off (enc_items (e_big E) xs @ t)" and fuel: "length xs < fuel"
    and ps: "\<And>m. Some m \<in> set xs \<Longrightarrow> parses parse (e_big E) m" "parses parse (e_big E) (MMessage 0 [])"
  shows "\<exists>k'. read_message_entry parse E fuel buf N (nm @ post) (of_nat (length (enc_items (e_big E) xs))) off M k =
    Ret (B_NO_ERROR, AddMMessageField M (MField nm tc isz n (Msgs (canon_items xs)) True), k')"
proof -
  let ?e = "enc_items (e_big E) xs"
  let ?ms = "map (\<lambda>x. case x of None \<Rightarrow> MMessage 0 [] | Some m \<Rightarrow> canon m) xs"
  have nm: "name_ok nm" and tc: "tc = B_MESSAGE_TYPE" and n0: "0 < n"
    and isz: "isz = 8" and len: "length xs = unat n"
    using ok by (auto simp: sizeof_pointer_def)
  note pn = put_name [OF nm]
  have ul: "unat (of_nat (length ?e) :: u32) = length ?e"
    using fit by (intro unat_of_nat_u32) simp
  then have ul0: "unat (0 :: u32) + length ?e = unat (of_nat (length ?e) :: u32)" by simp
  obtain k1 where rm: "read_msgs parse E buf N fuel 0 (of_nat (length ?e)) off [] k =
      Ret (B_NO_ERROR, ?ms, k1)"
    using read_msgs_enc [OF cur ul0 \<open>no_oom E\<close> fuel ps, of "[]" k] by auto
  have fit8: "put_size (nm @ post) n 8 < 2 ^ 32"
    using fit length_enc_items [of xs "e_big E"] len by (simp add: pn)
  have put: "MMPutMessageField E M False (nm @ post) n k1 = Ret (True,
      MMessage (m_what M) (m_fields M @ [MField nm B_MESSAGE_TYPE 8 n (Msgs (replicate (unat n) None)) True]), Suc k1)"
    using MMPutMessageField_spec [OF M pn(1) n0 fit8] \<open>no_oom E\<close> fresh
    by (simp add: pn other_fields_fresh retained_def msg_data_def find_last_None [THEN iffD2])
  have "of_nat (length ?ms) = n" by (simp add: len)
  then show ?thesis
    using rm put len by (simp add: read_message_entry_def last_slots_def set_last_data_def
        AddMMessageField_def with_data_def isz tc canon_items_map del: map_map)
qed

lemma length_wire_data_ok: "header_ok (MField nm tc isz n (Flat bs) True) \<Longrightarrow> length (wire_data be tc bs) = length bs"
proof -
  assume "header_ok (MField nm tc isz n (Flat bs) True)"
  then have tc: "\<not> IsTypeCodeVariableSize tc" "tc \<noteq> B_POINTER_TYPE" and isz: "isz = fixed_item_size tc"
    and bs: "length bs = unat n * unat isz" by auto
  have "length bs = (unat n * unat (isz div elem_size tc)) * unat (elem_size tc)"
    using import_kind_fixed [OF tc] bs isz by simp
  then show ?thesis using elem_size_pos by (simp add: wire_data_def length_rev_chunks)
qed

lemma read_entry_enc:
  assumes ok: "header_ok f" and fl: "f_isFlattenable f" and E: "no_oom E" and M: "msg_ok M"
    and fresh: "cstr (f_name f) \<notin> set (names (m_fields M))"
    and fit: "sizeof_MMessageField + length (enc_entry (e_big E) f) < 2 ^ 31"
    and cur: "cursor buf N off (enc_entry (e_big E) f @ t)"
    and fuel: "length (enc_entry (e_big E) f) \<le> fuel"
    and ps: "\<And>xs m. f_data f = Msgs xs \<Longrightarrow> Some m \<in> set xs \<Longrightarrow> parses parse (e_big E) m"
      "parses parse (e_big E) (MMessage 0 [])"
  shows "\<exists>off' k'. read_entry parse E fuel buf N off M k =
      Ret (B_NO_ERROR, AddMMessageField M (canon_field f), off', k') \<and> cursor buf N off' t"
proof -
  obtain nm tc isz n d where f: "f = MField nm tc isz n d True"
    using fl by (cases f) auto
  let ?data = "enc_data (e_big E) f"
  have len: "length (enc_entry (e_big E) f) = length nm + length ?data + 12"
    by (simp add: f enc_bytes_def)
  have cur': "cursor buf N off (enc_bytes nm @ le_bytes tc @ enc_bytes ?data @ t)"
    using cur by (simp add: f)
  obtain post o1 where h: "read_entry_header (e_big E) buf N off =
      Ret (Some (nm @ post, of_nat (length nm), tc, of_nat (length ?data), o1))"
    and c: "cursor buf N o1 (?data @ t)"
    using read_entry_header_cursor [OF cur'] by blast
  have body: "\<exists>k'. (case import_kind tc of
        Some kind \<Rightarrow> read_fixed_entry E buf (nm @ post) (of_nat (length nm)) (of_nat (length ?data)) kind o1 M k
      | None \<Rightarrow>
          if tc = B_MESSAGE_TYPE
          then read_message_entry parse E fuel buf N (nm @ post) (of_nat (length ?data)) o1 M k
          else read_buffer_entry E buf N (nm @ post) tc (of_nat (length ?data)) o1 M k)
      = Ret (B_NO_ERROR, AddMMessageField M (canon_field f), k')"
  proof (cases d)
    case (Flat bs)
    then have tc: "\<not> IsTypeCodeVariableSize tc" "tc \<noteq> B_POINTER_TYPE" and isz: "isz = fixed_item_size tc"
      using ok by (auto simp: f)
    note ok' = ok [unfolded f Flat]
    have ld: "length ?data = length bs" using length_wire_data_ok [OF ok'] by (simp add: f Flat)
    have "sizeof_MMessageField + length bs + length nm < 2 ^ 31" using fit len ld by simp
    from read_fixed_entry_enc [OF ok' E this] c ld
    show ?thesis using import_kind_fixed [OF tc] isz by (simp add: f Flat with_data_def)
  next
    case (Bufs xs)
    then have tc: "IsTypeCodeVariableSize tc" "tc \<noteq> B_MESSAGE_TYPE"
      using ok by (auto simp: f)
    note ok' = ok [unfolded f Bufs]
    have "sizeof_MMessageField + 2 * length ?data + length nm < 2 ^ 32" using fit len by simp
    from read_buffer_entry_enc [OF ok' E M _ _ this c] fresh
    show ?thesis using import_kind_variable [OF tc(1)] tc(2) by (simp add: f Bufs with_data_def)
  next
    case (Msgs xs)
    then have tc: "tc = B_MESSAGE_TYPE"
      using ok by (auto simp: f)
    note ok' = ok [unfolded f Msgs]
    have data: "?data = enc_items (e_big E) xs" by (simp add: f Msgs)
    have "length xs < fuel" using length_enc_items [of xs "e_big E"] fuel len data by simp
    moreover have "sizeof_MMessageField + 2 * length (enc_items (e_big E) xs) + length nm < 2 ^ 32"
      using fit len data by simp
    ultimately have "\<exists>k'. read_message_entry parse E fuel buf N (nm @ post)
        (of_nat (length (enc_items (e_big E) xs))) o1 M k =
      Ret (B_NO_ERROR, AddMMessageField M (MField nm tc isz n (Msgs (canon_items xs)) True), k')"
      using c fresh ps by (intro read_message_entry_enc [OF ok' E M]) (auto simp: data f Msgs)
    moreover have "import_kind B_MESSAGE_TYPE = None"
      using import_kind_variable [of tc] ok' by (simp add: import_kind_def tc type_code_defs)
    ultimately show ?thesis by (simp add: f Msgs with_data_def tc)
  qed
  from body obtain k' where "(case import_kind tc of
        Some kind \<Rightarrow> read_fixed_entry E buf (nm @ post) (of_nat (length nm)) (of_nat (length ?data)) kind o1 M k
      | None \<Rightarrow>
          if tc = B_MESSAGE_TYPE
          then read_message_entry parse E fuel buf N (nm @ post) (of_nat (length ?data)) o1 M k
          else read_buffer_entry E buf N (nm @ post) tc (of_nat (length ?data)) o1 M k)
      = Ret (B_NO_ERROR, AddMMessageField M (canon_field f), k')"
    by blast
  then have "read_entry parse E fuel buf N off M k =
      Ret (B_NO_ERROR, AddMMessageField M (canon_field f), o1 + of_nat (length ?data), k')"
    unfolding read_entry_def h by simp
  then show ?thesis using cursor_step [OF c] by blast
qed

section \<open>Reading whole messages\<close>

lemma field_ok_canon: "field_ok f \<Longrightarrow> f_isFlattenable f \<Longrightarrow> field_ok (canon_field f)"
  using msg_ok_canon [of "MMessage 0 [f]"] by (simp add: msg_ok_fields)

lemma read_entries_enc:
  assumes "list_all field_ok fs" "msg_ok M" "distinct (names (m_fields M) @ names fs)" "no_oom E"
    and "sizeof_MMessageField + length (enc_fields (e_big E) fs) < 2 ^ 31"
    and "cursor buf N off (enc_fields (e_big E) fs @ t)"
    and "length (enc_fields (e_big E) fs) \<le> fuel"
    and "\<And>f xs m. f \<in> set fs \<Longrightarrow> f_isFlattenable f \<Longrightarrow> f_data f = Msgs xs \<Longrightarrow> Some m \<in> set xs \<Longrightarrow>
      parses parse (e_big E) m"
    and "parses parse (e_big E) (MMessage 0 [])"
  shows "\<exists>k'. read_entries parse E fuel buf N (length (filter f_isFlattenable fs)) off M k =
    Ret (B_NO_ERROR, MMessage (m_what M) (m_fields M @ canon_fields fs), k')"
  using assms
proof (induction fs arbitrary: M off k)
  case Nil
  then show ?case by (cases M) simp
next
  case (Cons f fs)
  show ?case
  proof (cases "f_isFlattenable f")
    case False
    then show ?thesis using Cons.prems by (auto intro!: Cons.IH)
  next
    case True
    have e: "enc_fields (e_big E) (f # fs) = enc_entry (e_big E) f @ enc_fields (e_big E) fs"
      using True by simp
    let ?M = "AddMMessageField M (canon_field f)"
    have ok: "header_ok f" and fresh: "cstr (f_name f) \<notin> set (names (m_fields M))"
      using Cons.prems(1,3) by (auto simp: field_ok_def)
    have "\<exists>off' k1. read_entry parse E fuel buf N off M k = Ret (B_NO_ERROR, ?M, off', k1) \<and>
        cursor buf N off' (enc_fields (e_big E) fs @ t)"
    proof (rule read_entry_enc [OF ok True \<open>no_oom E\<close> \<open>msg_ok M\<close> fresh])
      show "sizeof_MMessageField + length (enc_entry (e_big E) f) < 2 ^ 31"
        "length (enc_entry (e_big E) f) \<le> fuel"
        using Cons.prems(5,7) unfolding e length_append by linarith+
      show "cursor buf N off (enc_entry (e_big E) f @ enc_fields (e_big E) fs @ t)"
        using Cons.prems(6) unfolding e by simp
      show "parses parse (e_big E) m" if "f_data f = Msgs xs" "Some m \<in> set xs" for xs m
        using Cons.prems(8) True that by auto
    qed (rule Cons.prems(9))
    then obtain off' k1 where re: "read_entry parse E fuel buf N off M k = Ret (B_NO_ERROR, ?M, off', k1)"
      and c: "cursor buf N off' (enc_fields (e_big E) fs @ t)" by blast
    have M': "msg_ok ?M"
      using Cons.prems(1,2,3) field_ok_canon [of f] True
      by (auto simp: msg_ok_fields AddMMessageField_def)
    have "\<exists>k'. read_entries parse E fuel buf N (length (filter f_isFlattenable fs)) off' ?M k1 =
      Ret (B_NO_ERROR, MMessage (m_what ?M) (m_fields ?M @ canon_fields fs), k')"
    proof (rule Cons.IH [OF _ M' _ \<open>no_oom E\<close> _ c])
      show "distinct (names (m_fields ?M) @ names fs)"
        using Cons.prems(3) by (auto simp: AddMMessageField_def)
    qed (use Cons.prems(1,5,7,8,9) in \<open>auto simp: e\<close>)
    then show ?thesis
      using re True by (auto simp: AddMMessageField_def)
  qed
qed

lemma length_enc_msg: "12 \<le> length (enc_msg be m)"
  by (cases m) simp

lemma enc_items_item: "Some m \<in> set xs \<Longrightarrow> length (enc_msg be m) \<le> length (enc_items be xs)"
  by (induction xs) (auto simp: enc_bytes_def)

lemma enc_fields_item:
  "f \<in> set fs \<Longrightarrow> f_isFlattenable f \<Longrightarrow> length (enc_data be f) \<le> length (enc_fields be fs)"
  by (induction fs) (auto simp: enc_bytes_def)

lemma length_flattenable: "length (filter f_isFlattenable fs) \<le> length (enc_fields be fs)"
  by (induction fs) auto

lemma MMUnflattenMessage_header:
  assumes "cursor buf n 0 (le_bytes CURRENT_PROTOCOL_VERSION @ le_bytes w @ le_bytes num @ t)"
  shows "MMUnflattenMessage (Suc g) E buf n m0 k =
      read_entries (MMUnflattenMessage g E) E (Suc g) buf n (unat num) 12 (MMessage w []) k
    \<and> cursor buf n 12 t"
proof -
  note r1 = ReadInt32_cursor [OF assms, of "e_big E"]
  note r2 = ReadInt32_cursor [OF conjunct2 [OF r1], of "e_big E"]
  note r3 = ReadInt32_cursor [OF conjunct2 [OF r2], of "e_big E"]
  show ?thesis
    using r1 r2 r3 by (simp add: MMSetWhat_def MMClearMessage_def CURRENT_PROTOCOL_VERSION_def
        OLDEST_SUPPORTED_PROTOCOL_VERSION_def)
qed

lemma parses_MMUnflattenMessage:
  assumes "msg_ok m" "no_oom E" "sizeof_MMessageField + length (enc_msg (e_big E) m) < 2 ^ 31"
    and "length (enc_msg (e_big E) m) \<le> fuel"
  shows "parses (MMUnflattenMessage fuel E) (e_big E) m"
  using assms
proof (induction m arbitrary: fuel rule: mmessage_induct)
  case (MMessage w fs)
  let ?be = "e_big E"
  have len: "length (enc_msg ?be (MMessage w fs)) = 12 + length (enc_fields ?be fs)" by simp
  obtain g where g: "fuel = Suc g" "0 < g"
    using MMessage.prems(4) len by (cases fuel) auto
  have empty: "parses (MMUnflattenMessage g E) ?be (MMessage 0 [])"
    unfolding parses_def
  proof (intro allI impI)
    fix buf n m0 k
    assume c: "cursor buf n 0 (enc_msg ?be (MMessage 0 []))"
    obtain h where h: "g = Suc h" using g(2) by (cases g) auto
    have "cursor buf n 0 (le_bytes CURRENT_PROTOCOL_VERSION @ le_bytes 0 @ le_bytes 0 @ [])"
      using c by simp
    from MMUnflattenMessage_header [OF this, of h E m0 k]
    show "\<exists>k'. MMUnflattenMessage g E buf n m0 k = Ret (B_NO_ERROR, canon (MMessage 0 []), k')"
      by (simp add: h)
  qed
  have sub: "parses (MMUnflattenMessage g E) ?be m"
    if "f \<in> set fs" "f_isFlattenable f" "f_data f = Msgs xs" "Some m \<in> set xs" for f xs m
  proof (rule MMessage.IH [OF that(1,3,4)])
    show "msg_ok m" using MMessage.prems(1) that by auto
    have "length (enc_msg ?be m) \<le> length (enc_data ?be f)"
      using enc_items_item [OF that(4)] that(3) by (cases f) simp
    then have "length (enc_msg ?be m) \<le> length (enc_fields ?be fs)"
      using enc_fields_item [OF that(1,2)] order_trans by blast
    then show "sizeof_MMessageField + length (enc_msg ?be m) < 2 ^ 31" "length (enc_msg ?be m) \<le> g"
      using MMessage.prems(3,4) len g by linarith+
  qed (rule \<open>no_oom E\<close>)
  show ?case
    unfolding parses_def
  proof (intro allI impI)
    fix buf n m0 k
    assume c: "cursor buf n 0 (enc_msg ?be (MMessage w fs))"
    let ?num = "length (filter f_isFlattenable fs)"
    note hd = MMUnflattenMessage_header [OF c [unfolded enc_msg.simps], of g E m0 k]
    have num: "unat (of_nat ?num :: u32) = ?num"
      using MMessage.prems(3) len length_flattenable [of fs ?be] by (intro unat_of_nat_u32) simp
    have "\<exists>k'. read_entries (MMUnflattenMessage g E) E fuel buf n ?num 12 (MMessage w []) k
      = Ret (B_NO_ERROR, MMessage (m_what (MMessage w [])) (m_fields (MMessage w []) @ canon_fields fs), k')"
    proof (rule read_entries_enc [where t = "[]"])
      show "list_all field_ok fs" "distinct (names (m_fields (MMessage w [])) @ names fs)"
        using MMessage.prems(1) by (simp_all add: msg_ok_fields)
      show "cursor buf n 12 (enc_fields ?be fs @ [])" using hd by simp
    qed (use MMessage.prems(2-4) len sub empty in auto)
    then show "\<exists>k'. MMUnflattenMessage fuel E buf n m0 k = Ret (B_NO_ERROR, canon (MMessage w fs), k')"
      using hd by (simp add: g(1) num)
  qed
qed

section \<open>Flattening and parsing back\<close>

lemma enc_items_canon:
  assumes "\<And>m. Some m \<in> set xs \<Longrightarrow> enc_msg be (canon m) = enc_msg be m"
  shows "enc_items be (canon_items xs) = enc_items be xs"
  using assms by (induction xs) (auto simp: empty_message_bytes_def split: option.split)

lemma enc_canon: "enc_msg be (canon m) = enc_msg be m"
proof (induction m rule: mmessage_induct)
  case (MMessage w fs)
  have data: "enc_data be (canon_field f) = enc_data be f" if f: "f \<in> set fs" for f
  proof (cases f)
    case (MField nm tc isz n d fl)
    show ?thesis
    proof (cases d)
      case (Bufs xs)
      have "map enc_buf (map (\<lambda>x. Some (case x of None \<Rightarrow> [] | Some b \<Rightarrow> b)) xs) = map enc_buf xs"
        by (auto simp: enc_buf_def split: option.split)
      then show ?thesis by (simp only: MField Bufs with_data_def enc_data.simps canon_data.simps
          mfield.sel mdata.simps)
    next
      case (Msgs xs)
      then show ?thesis
        using MMessage [OF f] enc_items_canon [of xs be] by (simp add: MField with_data_def)
    qed (simp add: MField with_data_def)
  qed
  have "enc_fields be (canon_fields gs) = enc_fields be gs \<and>
      length (filter f_isFlattenable (canon_fields gs)) = length (filter f_isFlattenable gs)"
    if "set gs \<subseteq> set fs" for gs
    using that by (induction gs) (auto simp: data)
  from this [of fs] show ?case by simp
qed

section \<open>Hosts of different byte order\<close>

text \<open>What a message is called on a host of the other byte order.\<close>

function (sequential) swap_host :: "mmessage \<Rightarrow> mmessage" and swap_field :: "mfield \<Rightarrow> mfield"
  and swap_items :: "mmessage option list \<Rightarrow> mmessage option list" where
  "swap_host (MMessage w fs) = MMessage w (map swap_field fs)"
| "swap_field (MField nm tc isz n d fl) = MField nm tc isz n
     (case d of
        Flat bs \<Rightarrow> Flat (rev_chunks (unat (elem_size tc)) bs)
      | Bufs xs \<Rightarrow> Bufs xs
      | Msgs xs \<Rightarrow> Msgs (swap_items xs)) fl"
| "swap_items [] = []"
| "swap_items (x # xs) = (case x of None \<Rightarrow> None | Some m \<Rightarrow> Some (swap_host m)) # swap_items xs"
  by pat_completeness auto
termination
  by (relation "measure (\<lambda>t. case t of
        Inl m \<Rightarrow> size m
      | Inr (Inl f) \<Rightarrow> size f
      | Inr (Inr xs) \<Rightarrow> size_list (size_option size) xs)")
    (auto simp: size_list_estimation' less_Suc_eq_le)

lemma swap_field_sel [simp]:
  "f_name (swap_field f) = f_name f" "f_typeCode (swap_field f) = f_typeCode f"
  "f_isFlattenable (swap_field f) = f_isFlattenable f"
  by (cases f; simp)+

lemma length_swap_items [simp]: "length (swap_items xs) = length xs"
  by (induction xs) auto

lemma set_swap_items: "Some m \<in> set (swap_items xs) \<Longrightarrow> \<exists>m'. Some m' \<in> set xs \<and> m = swap_host m'"
  by (induction xs) (auto split: option.splits)

lemma names_swap [simp]: "names (map swap_field fs) = names fs"
  by (simp add: names_def)

lemma header_ok_swap: "header_ok f \<Longrightarrow> header_ok (swap_field f)"
  using elem_size_pos by (cases f) (auto simp: length_rev_chunks split: mdata.splits)

lemma f_data_swap_Msgs: "f_data (swap_field f) = Msgs ys \<Longrightarrow> \<exists>xs. f_data f = Msgs xs \<and> ys = swap_items xs"
  by (cases f) (auto split: mdata.splits)

lemma msg_ok_swap: "msg_ok m \<Longrightarrow> msg_ok (swap_host m)"
proof -
  have "msg_ok m \<longrightarrow> msg_ok (swap_host m)"
  proof (induction m rule: mmessage_induct)
    case (MMessage w fs)
    show ?case
    proof
      assume ok: "msg_ok (MMessage w fs)"
      have "msg_ok a" if g: "g \<in> set (map swap_field fs)" "f_data g = Msgs ys" "Some a \<in> set ys" for g ys a
      proof -
        obtain f where f: "f \<in> set fs" "g = swap_field f" using g(1) by auto
        obtain xs where xs: "f_data f = Msgs xs" "ys = swap_items xs"
          using f_data_swap_Msgs g(2) f(2) by blast
        then obtain b where "Some b \<in> set xs" "a = swap_host b"
          using set_swap_items g(3) by blast
        then show ?thesis using MMessage.IH [OF f(1) xs(1)] ok f(1) xs(1) by (auto simp: msg_ok_iff)
      qed
      then show "msg_ok (swap_host (MMessage w fs))"
        using ok by (auto simp: msg_ok_iff list_all_iff header_ok_swap)
    qed
  qed
  then show "msg_ok m \<Longrightarrow> msg_ok (swap_host m)" by simp
qed

lemma enc_items_swap:
  assumes "\<And>m. Some m \<in> set xs \<Longrightarrow> enc_msg False (swap_host m) = enc_msg True m"
  shows "enc_items False (swap_items xs) = enc_items True xs"
  using assms by (induction xs) (auto split: option.split)

lemma enc_swap: "enc_msg False (swap_host m) = enc_msg True m"
proof (induction m rule: mmessage_induct)
  case (MMessage w fs)
  have data: "enc_data False (swap_field f) = enc_data True f" if f: "f \<in> set fs" for f
    using MMessage [OF f] enc_items_swap
    by (cases f) (auto simp: wire_data_def split: mdata.split)
  have "enc_fields False (map swap_field gs) = enc_fields True gs \<and>
      length (filter f_isFlattenable (map swap_field gs)) = length (filter f_isFlattenable gs)"
    if "set gs \<subseteq> set fs" for gs
    using that by (induction gs) (auto simp: data)
  from this [of fs] show ?case by simp
qed

lemma empty_items_enc: "enc_msg be (MMessage 0 []) = empty_message_bytes"
  by (simp add: empty_message_bytes_def)

section \<open>The properties of the wire format\<close>

text \<open>
  C2: \<open>MMGetFlattenedSize\<close> returns the length of the encoding of the message, and
  \<open>MMFlattenMessage\<close> writes exactly that encoding at the given place, without touching any
  other byte of the output buffer and without leaving it.
\<close>

theorem flatten_writes_encoding:
  assumes "msg_ok m" "base + length (enc_msg be m) \<le> length blk" "length (enc_msg be m) < 2 ^ 31"
  shows "\<exists>n. MMGetFlattenedSize m = Ret n \<and> unat n = length (enc_msg be m) \<and>
    MMFlattenMessage be m blk base =
      Ret (take base blk @ enc_msg be m @ drop (base + unat n) blk)"
proof -
  have "unat (of_nat (length (enc_msg be m)) :: u32) = length (enc_msg be m)"
    using assms(3) by (intro unat_of_nat_u32) simp
  then show ?thesis
    using MMGetFlattenedSize_enc [OF assms(1), of be]
      MMFlattenMessage_enc [OF assms(1,2) _ impI [OF assms(3)]] assms(3)
    by (auto simp: memcpy_at_def)
qed

theorem flatten_writes_encoding_witness:
  "\<exists>n. MMGetFlattenedSize ex_message = Ret n \<and> unat n = 30 \<and>
    MMFlattenMessage True ex_message (replicate 32 9) 1 =
      Ret (take 1 (replicate 32 9) @ enc_msg True ex_message @ drop (1 + unat n) (replicate 32 9))"
proof -
  have "length (enc_msg True ex_message) = 30"
    using elem_size_pos
    by (simp add: ex_message_def ex_int32_field_def enc_bytes_def wire_data_def length_rev_chunks)
  then show ?thesis
    using flatten_writes_encoding [OF ex_message_ok, of 1 True "replicate 32 9"] by simp
qed

text \<open>
  C1: Round trip. A message that was flattened into a buffer of the size announced by
  \<open>MMGetFlattenedSize\<close> is parsed back with \<open>B_NO_ERROR\<close>, and the result is the message up to
  what the format does not carry (fields that are not flattenable, \<open>NULL\<close> entries).
\<close>

theorem unflatten_flatten_roundtrip:
  assumes "msg_ok m" "no_oom E" "sizeof_MMessageField + length (enc_msg (e_big E) m) < 2 ^ 31"
    and "MMGetFlattenedSize m = Ret n" "length blk = unat n"
  shows "\<exists>buf k'. MMFlattenMessage (e_big E) m blk 0 = Ret buf \<and> length buf = unat n \<and>
    MMUnflattenMessage (unat n) E buf n m0 k = Ret (B_NO_ERROR, canon m, k')"
proof -
  have "n = of_nat (length (enc_msg (e_big E) m))"
    using MMGetFlattenedSize_enc [OF assms(1), of "e_big E"] assms(4) by simp
  then have n: "unat n = length (enc_msg (e_big E) m)"
    using assms(3) by (simp add: unat_of_nat_u32)
  have b: "length (enc_msg (e_big E) m) < 2 ^ 31" using assms(3) by simp
  have "MMFlattenMessage (e_big E) m blk 0 = Ret (memcpy_at 0 (enc_msg (e_big E) m) blk)"
    using b assms(5) n by (intro MMFlattenMessage_enc [OF assms(1)] impI [OF b]) simp_all
  moreover have "memcpy_at 0 (enc_msg (e_big E) m) blk = enc_msg (e_big E) m"
    using assms(5) n by (simp add: memcpy_at_whole)
  moreover have "parses (MMUnflattenMessage (unat n) E) (e_big E) m"
    using assms(3) n by (intro parses_MMUnflattenMessage [OF assms(1,2)]) simp_all
  moreover have "cursor (enc_msg (e_big E) m) n 0 (enc_msg (e_big E) m)"
    by (simp add: cursor_def n)
  ultimately show ?thesis by (simp add: n parses_def)
qed

theorem unflatten_flatten_roundtrip_witness:
  "\<exists>buf k'. MMFlattenMessage False ex_tree (replicate 60 0) 0 = Ret buf \<and> length buf = 60 \<and>
    MMUnflattenMessage 60 ex_env buf 60 (MMessage 3 []) 0 = Ret (B_NO_ERROR, ex_tree, k')"
proof -
  have len: "length (enc_msg (e_big ex_env) ex_tree) = 60"
    by (simp add: ex_tree_def ex_message_def ex_int32_field_def enc_bytes_def wire_data_def)
  have size: "MMGetFlattenedSize ex_tree = Ret 60"
    using MMGetFlattenedSize_enc [OF ex_tree_ok, of "e_big ex_env"] len by simp
  have "canon ex_tree = ex_tree"
    by (simp add: ex_tree_def ex_message_def ex_int32_field_def with_data_def)
  then show ?thesis
    using unflatten_flatten_roundtrip [OF ex_tree_ok ex_env_simps(5) _ size, of "replicate 60 0"] len
    by (simp add: sizeof_MMessageField_def)
qed

text \<open>
  C3: The wire format does not depend on the host. What a big-endian host flattens, a
  little-endian host parses without error, into the same message with each number in its own
  byte order.
\<close>

theorem unflatten_on_other_host:
  assumes "msg_ok m" "no_oom E" "\<not> e_big E" "sizeof_MMessageField + length (enc_msg True m) < 2 ^ 31"
    and "MMGetFlattenedSize m = Ret n" "length blk = unat n"
  shows "\<exists>buf k'. MMFlattenMessage True m blk 0 = Ret buf \<and>
    MMUnflattenMessage (unat n) E buf n m0 k = Ret (B_NO_ERROR, canon (swap_host m), k')"
proof -
  have b: "length (enc_msg True m) < 2 ^ 31" using assms(4) by simp
  have "n = of_nat (length (enc_msg True m))"
    using MMGetFlattenedSize_enc [OF assms(1), of True] assms(5) by simp
  then have n: "unat n = length (enc_msg True m)"
    using b by (simp add: unat_of_nat_u32)
  have "MMFlattenMessage True m blk 0 = Ret (memcpy_at 0 (enc_msg True m) blk)"
    using b assms(6) n by (intro MMFlattenMessage_enc [OF assms(1)] impI [OF b]) simp_all
  moreover have "memcpy_at 0 (enc_msg True m) blk = enc_msg False (swap_host m)"
    using assms(6) n by (simp add: memcpy_at_whole enc_swap)
  moreover have "parses (MMUnflattenMessage (unat n) E) (e_big E) (swap_host m)"
    using assms(3,4) n by (intro parses_MMUnflattenMessage [OF msg_ok_swap [OF assms(1)] assms(2)])
      (simp_all add: enc_swap)
  moreover have "cursor (enc_msg False (swap_host m)) n 0 (enc_msg (e_big E) (swap_host m))"
    using assms(3) by (simp add: cursor_def n enc_swap)
  ultimately show ?thesis by (simp add: parses_def)
qed

theorem unflatten_on_other_host_witness:
  "\<exists>buf k'. MMFlattenMessage True ex_message (replicate 30 0) 0 = Ret buf \<and>
    MMUnflattenMessage 30 ex_env buf 30 (MMessage 3 []) 0 =
      Ret (B_NO_ERROR, MMessage 7 [MField [97, 0] B_INT32_TYPE 4 1 (Flat [4, 3, 2, 1]) True], k')"
proof -
  have es: "elem_size B_INT32_TYPE = 4" by (simp add: elem_size_def type_code_defs fixed_item_size_def)
  have len: "length (enc_msg True ex_message) = 30"
    by (simp add: ex_message_def ex_int32_field_def enc_bytes_def wire_data_def length_rev_chunks es)
  have size: "MMGetFlattenedSize ex_message = Ret 30"
    using MMGetFlattenedSize_enc [OF ex_message_ok, of True] len by simp
  have "canon (swap_host ex_message) = MMessage 7 [MField [97, 0] B_INT32_TYPE 4 1 (Flat [4, 3, 2, 1]) True]"
    by (simp add: ex_message_def ex_int32_field_def with_data_def es rev_chunks.simps)
  then show ?thesis
    using unflatten_on_other_host [OF ex_message_ok ex_env_simps(5) ex_env_simps(1) _ size, of "replicate 30 0"] len
    by (simp add: sizeof_MMessageField_def)
qed

section \<open>A message that is never parsed to the end\<close>

text \<open>
  The length of an embedded message is added to the offset in 32 bits. With the length
  \<open>0xFFFFFFFC\<close> the sum stays in bounds, the embedded message is parsed from the place
  after the length, and the offset and the number of bytes used are afterwards what they
  were before: the loop starts over.
\<close>

lemma read_msgs_stuck:
  assumes "ReadInt32 (e_big E) buf n off = Ret (Some (- 4, off + 4))" "off \<le> n" "eUsed < eLength"
    and "no_oom E"
    and "\<And>k. parse (drop (unat (off + 4)) buf) (- 4) (MMessage 0 []) k = NoFuel \<or>
      (\<exists>m' k'. parse (drop (unat (off + 4)) buf) (- 4) (MMessage 0 []) k = Ret (B_NO_ERROR, m', k'))"
  shows "read_msgs parse E buf n fuel eUsed eLength off acc k = NoFuel"
  using assms
proof (induction fuel arbitrary: acc k)
  case (Suc fuel)
  then have IH: "read_msgs parse E buf n fuel eUsed eLength off acc' k' = NoFuel" for acc' k'
    by blast
  show ?case
    using Suc.prems(1-4) Suc.prems(5) [of "Suc k"] IH by (auto simp: MMAllocMessage_def)
qed simp

definition endless_bytes :: bytes where
  "endless_bytes = le_bytes CURRENT_PROTOCOL_VERSION @ le_bytes 0 @ le_bytes 1 @
     enc_bytes [97, 0] @ le_bytes B_MESSAGE_TYPE @ enc_bytes
       (le_bytes (- 4) @ le_bytes CURRENT_PROTOCOL_VERSION @ le_bytes 0 @ le_bytes 0)"

lemma parse_claimed_length:
  "MMUnflattenMessage f E (empty_message_bytes @ r) (- 4) m0 k = NoFuel \<or>
    (\<exists>m' k'. MMUnflattenMessage f E (empty_message_bytes @ r) (- 4) m0 k = Ret (B_NO_ERROR, m', k'))"
proof (cases f)
  case (Suc g)
  have "cursor (empty_message_bytes @ r) (- 4) 0
      (le_bytes CURRENT_PROTOCOL_VERSION @ le_bytes 0 @ le_bytes 0 @ [])"
    by (simp add: cursor_def empty_message_bytes_def)
  from MMUnflattenMessage_header [OF this, of g E m0 k] show ?thesis by (simp add: Suc)
qed simp

text \<open>
  C4: There is a well-delimited input of 42 bytes on which \<open>MMUnflattenMessage\<close> does not
  return, however long it runs, as long as the system has memory: the parser of a server can
  be made to loop by one packet.
\<close>

theorem unflatten_does_not_return:
  assumes "no_oom E"
  shows "MMUnflattenMessage fuel E endless_bytes (of_nat (length endless_bytes)) m0 k = NoFuel"
proof (cases fuel)
  case (Suc g)
  let ?n = "of_nat (length endless_bytes) :: u32"
  let ?data = "le_bytes (- 4) @ empty_message_bytes"
  have n: "unat ?n = 42" by (simp add: endless_bytes_def enc_bytes_def)
  have c: "cursor endless_bytes ?n 0 (le_bytes CURRENT_PROTOCOL_VERSION @ le_bytes 0 @ le_bytes 1 @
      (enc_bytes [97, 0] @ le_bytes B_MESSAGE_TYPE @ enc_bytes ?data @ []))"
    by (simp add: cursor_def endless_bytes_def empty_message_bytes_def enc_bytes_def)
  note hd = MMUnflattenMessage_header [OF c, of g E m0 k]
  then obtain post off where eh: "read_entry_header (e_big E) endless_bytes ?n 12 =
        Ret (Some ([97, 0] @ post, 2, B_MESSAGE_TYPE, of_nat (length ?data), off))"
      and cd: "cursor endless_bytes ?n off (le_bytes (- 4) @ empty_message_bytes @ [])"
    using read_entry_header_cursor [of endless_bytes ?n 12 "[97, 0]" B_MESSAGE_TYPE ?data "[]" "e_big E"]
    by auto
  note rd = ReadInt32_cursor [OF cd, of "e_big E"]
  obtain r where "drop (unat (off + 4)) endless_bytes = empty_message_bytes @ r"
    using drop_at_cursor [OF conjunct2 [OF rd]] by blast
  then have "read_msgs (MMUnflattenMessage g E) E endless_bytes ?n (Suc g) 0 (of_nat (length ?data)) off [] k' = NoFuel" for k'
    using rd assms cursor_off [OF cd] cd parse_claimed_length n
    by (intro read_msgs_stuck) (auto simp: cursor_def word_le_nat_alt empty_message_bytes_def)
  moreover have "import_kind B_MESSAGE_TYPE = None" by (simp add: import_kind_variable)
  ultimately show ?thesis
    using hd eh by (simp add: Suc read_entry_def read_message_entry_def)
qed simp

theorem unflatten_does_not_return_witness:
  "MMUnflattenMessage 1000 ex_env endless_bytes (of_nat (length endless_bytes)) (MMessage 0 []) 0 = NoFuel"
  by (rule unflatten_does_not_return) simp

end
