(* ===== verification/Mini_Gateway.thy ===== *)
theory Mini_Gateway
  imports Mini_Codec
begin

text \<open>
  The message gateway of \<^verbatim>\<open>minimessage/MiniMessageGateway.c\<close>: a queue of outgoing buffers and
  a state machine that assembles incoming messages, over non-blocking callbacks. The
  callbacks are parameters: \<open>send d s\<close> is offered the bytes \<open>d\<close> and returns the
  number of bytes taken, \<open>recv n s\<close> returns the number of bytes delivered and the bytes; both
  pass on the state \<open>s\<close> of the outside world and return a negative number on an error.
\<close>

section \<open>The gateway\<close>

text \<open>
  \<open>struct _MMessageGateway\<close>. The linked list of output buffers, with the next-pointer in the
  first eight bytes of each, is the list of the buffers.
\<close>

record gateway =
  g_curInput :: bytes
  g_curInputPos :: u32
  g_maxInputPos :: u32
  g_output :: "bytes list"
  g_curOutputPos :: u32

definition sizeof_MMessageGateway :: nat where "sizeof_MMessageGateway = 40"

definition MUSCLE_MESSAGE_ENCODING_DEFAULT :: u32 where
  "MUSCLE_MESSAGE_ENCODING_DEFAULT = 1164862256"

definition MGAllocMessageGateway :: "env \<Rightarrow> nat \<Rightarrow> gateway option \<times> nat" where
  "MGAllocMessageGateway E k =
     (if e_malloc E k sizeof_MMessageGateway then
        (case MBAllocByteBuffer E (2 * 4) False (Suc k) of
           (None, k') \<Rightarrow> (None, k')
         | (Some b, k') \<Rightarrow>
             (Some \<lparr>g_curInput = b, g_curInputPos = 0, g_maxInputPos = 2 * 4, g_output = [],
                    g_curOutputPos = of_nat sizeof_pointer\<rparr>, k'))
      else (None, Suc k))"

section \<open>Output\<close>

definition MGAddOutgoingMessage :: "env \<Rightarrow> gateway \<Rightarrow> mmessage \<Rightarrow> nat \<Rightarrow> (status \<times> gateway \<times> nat) run" where
  "MGAddOutgoingMessage E gw msg k =
     bind_run (MMGetFlattenedSize msg) (\<lambda>flatSize.
       case MBAllocByteBuffer E (of_nat (sizeof_pointer + 2 * 4 + unat flatSize)) False k of
         (None, k') \<Rightarrow> Ret (B_ERROR, gw, k')
       | (Some buf, k') \<Rightarrow>
           bind_run (guard (sizeof_pointer + 2 * 4 \<le> length buf)) (\<lambda>_.
           let buf = memcpy_at 0 (replicate sizeof_pointer 0) buf;
               buf = memcpy_at sizeof_pointer
                       (store_u32 (e_big E) (B_HOST_TO_LENDIAN_INT32 (e_big E) flatSize)) buf;
               buf = memcpy_at (sizeof_pointer + 4)
                       (store_u32 (e_big E)
                         (B_HOST_TO_LENDIAN_INT32 (e_big E) MUSCLE_MESSAGE_ENCODING_DEFAULT)) buf
           in bind_run (MMFlattenMessage (e_big E) msg buf (sizeof_pointer + 2 * 4)) (\<lambda>buf.
             Ret (B_NO_ERROR, gw\<lparr>g_output := g_output gw @ [buf]\<rparr>, k'))))"

definition MGHasBytesToOutput :: "gateway \<Rightarrow> bool" where
  "MGHasBytesToOutput gw \<longleftrightarrow> g_output gw \<noteq> []"

text \<open>
  \<open>MGDoOutput\<close>: one round of the loop per unit of fuel. The returned number is an \<open>int32\<close>,
  kept here as its 32 bits, so an error is \<open>- 1\<close>.
\<close>

fun MGDoOutput ::
    "nat \<Rightarrow> (bytes \<Rightarrow> 's \<Rightarrow> int \<times> 's) \<Rightarrow> gateway \<Rightarrow> u32 \<Rightarrow> u32 \<Rightarrow> 's \<Rightarrow> (u32 \<times> gateway \<times> 's) run" where
  "MGDoOutput 0 send gw maxBytes totalSent s = NoFuel"
| "MGDoOutput (Suc fuel) send gw maxBytes totalSent s =
     (case g_output gw of
        [] \<Rightarrow> Ret (totalSent, gw, s)
      | cur # rest \<Rightarrow>
          let left = of_nat (length cur) - g_curOutputPos gw;
              bytesToSend = (if left > maxBytes then maxBytes else left)
          in bind_run (guard (unat (g_curOutputPos gw) + unat bytesToSend \<le> length cur)) (\<lambda>_.
            case send (take (unat bytesToSend) (drop (unat (g_curOutputPos gw)) cur)) s of
              (bytesSent, s') \<Rightarrow>
                if bytesSent < 0 then Ret (- 1, gw, s')
                else
                  let pos = g_curOutputPos gw + of_int bytesSent;
                      gw' = (if pos = of_nat (length cur)
                             then gw\<lparr>g_output := rest, g_curOutputPos := of_nat sizeof_pointer\<rparr>
                             else gw\<lparr>g_curOutputPos := pos\<rparr>)
                  in if bytesSent < int (unat bytesToSend)
                     then Ret (totalSent + of_int bytesSent, gw', s')
                     else MGDoOutput fuel send gw' (maxBytes - of_int bytesSent)
                            (totalSent + of_int bytesSent) s'))"

section \<open>Input\<close>

text \<open>
  What happens when the bytes asked for are complete: the header of a message or its body.
  \<open>Failed\<close> is \<open>return -1\<close>, \<open>Complete\<close> a message for the caller, \<open>More\<close> that the
  loop goes on.
\<close>

datatype progress = Failed gateway nat | Complete mmessage gateway nat | More gateway nat

definition body_complete :: "env \<Rightarrow> nat \<Rightarrow> gateway \<Rightarrow> nat \<Rightarrow> progress run" where
  "body_complete E ufuel gw k =
     (case MMAllocMessage E 0 k of
        (None, k') \<Rightarrow> Ret (Failed gw k')
      | (Some msg, k') \<Rightarrow>
          bind_run (MMUnflattenMessage ufuel E (drop 8 (g_curInput gw)) (g_maxInputPos gw - 2 * 4) msg k')
            (\<lambda>(st, msg, k').
              if st = B_NO_ERROR then
                let gw' = gw\<lparr>g_curInputPos := 0, g_maxInputPos := 2 * 4\<rparr> in
                if length (g_curInput gw') > 64 * 1024 then
                  (case MBAllocByteBuffer E (64 * 1024) False k' of
                     (None, k') \<Rightarrow> Ret (Failed gw' k')
                   | (Some smallBuf, k') \<Rightarrow> Ret (Complete msg (gw'\<lparr>g_curInput := smallBuf\<rparr>) k'))
                else Ret (Complete msg gw' k')
              else Ret (Failed gw k')))"

definition header_complete :: "env \<Rightarrow> gateway \<Rightarrow> nat \<Rightarrow> progress run" where
  "header_complete E gw k =
     bind_run (guard (2 * 4 \<le> length (g_curInput gw))) (\<lambda>_.
       let h0 = load_u32 (e_big E) (take 4 (g_curInput gw));
           h1 = load_u32 (e_big E) (take 4 (drop 4 (g_curInput gw)));
           bodySize = B_LENDIAN_TO_HOST_INT32 (e_big E) h0
       in if bodySize = 0 \<or> B_LENDIAN_TO_HOST_INT32 (e_big E) h1 \<noteq> MUSCLE_MESSAGE_ENCODING_DEFAULT
          then Ret (Failed gw k)
          else
            let bodySize = bodySize + 2 * 4 in
            if unat bodySize > length (g_curInput gw) then
              (case MBAllocByteBuffer E (2 * bodySize) False k of
                 (None, k') \<Rightarrow> Ret (Failed gw k')
               | (Some bigBuf, k') \<Rightarrow>
                   bind_run (memcpy_run (unat (g_curInputPos gw)) (g_curInput gw) bigBuf) (\<lambda>bigBuf.
                     Ret (More (gw\<lparr>g_curInput := bigBuf, g_maxInputPos := bodySize\<rparr>) k')))
            else Ret (More (gw\<lparr>g_maxInputPos := bodySize\<rparr>) k))"

definition input_complete :: "env \<Rightarrow> nat \<Rightarrow> gateway \<Rightarrow> nat \<Rightarrow> progress run" where
  "input_complete E ufuel gw k =
     (if g_curInputPos gw = g_maxInputPos gw then
        if g_curInputPos gw > 2 * 4 then body_complete E ufuel gw k else header_complete E gw k
      else Ret (More gw k))"

text \<open>
  \<open>MGDoInput\<close>; \<open>want\<close> says whether the caller passed a place for the message. \<open>ufuel\<close> is
  the fuel of the parser.
\<close>

fun MGDoInput ::
    "nat \<Rightarrow> env \<Rightarrow> nat \<Rightarrow> (u32 \<Rightarrow> 's \<Rightarrow> (int \<times> bytes) \<times> 's) \<Rightarrow> bool \<Rightarrow> gateway \<Rightarrow> u32 \<Rightarrow> u32 \<Rightarrow> 's \<Rightarrow> nat
      \<Rightarrow> (u32 \<times> mmessage option \<times> gateway \<times> 's \<times> nat) run" where
  "MGDoInput 0 E ufuel recv want gw maxBytes totalRecvd s k = NoFuel"
| "MGDoInput (Suc fuel) E ufuel recv want gw maxBytes totalRecvd s k =
     (let left = g_maxInputPos gw - g_curInputPos gw;
          bytesToRecv = (if left > maxBytes then maxBytes else left)
      in case recv bytesToRecv s of ((bytesReceived, bs), s') \<Rightarrow>
        if bytesReceived < 0 then Ret (- 1, None, gw, s', k)
        else
          bind_run (guard (unat (g_curInputPos gw) + length bs \<le> length (g_curInput gw))) (\<lambda>_.
            let total = totalRecvd + of_int bytesReceived;
                maxLeft = maxBytes - of_int bytesReceived;
                gw' = gw\<lparr>g_curInput := memcpy_at (unat (g_curInputPos gw)) bs (g_curInput gw),
                         g_curInputPos := g_curInputPos gw + of_int bytesReceived\<rparr>
            in bind_run (input_complete E ufuel gw' k) (\<lambda>p. case p of
                 Failed gw'' k' \<Rightarrow> Ret (- 1, None, gw'', s', k')
               | Complete msg gw'' k' \<Rightarrow>
                   if want then Ret (total, Some msg, gw'', s', k')
                   else if bytesReceived < int (unat bytesToRecv) then Ret (total, None, gw'', s', k')
                   else MGDoInput fuel E ufuel recv want gw'' maxLeft total s' k'
               | More gw'' k' \<Rightarrow>
                   if bytesReceived < int (unat bytesToRecv) then Ret (total, None, gw'', s', k')
                   else MGDoInput fuel E ufuel recv want gw'' maxLeft total s' k')))"

section \<open>The bytes still to be sent\<close>

text \<open>What goes over the wire for a message.\<close>

definition frame :: "bool \<Rightarrow> mmessage \<Rightarrow> bytes" where
  "frame be m = le_bytes (of_nat (length (enc_msg be m))) @ le_bytes MUSCLE_MESSAGE_ENCODING_DEFAULT
     @ enc_msg be m"

definition output_ok :: "gateway \<Rightarrow> bool" where
  "output_ok gw \<longleftrightarrow> (\<forall>b \<in> set (g_output gw). 8 < length b \<and> length b < 2 ^ 32) \<and>
     (case g_output gw of
        [] \<Rightarrow> g_curOutputPos gw = 8
      | b # bs \<Rightarrow> 8 \<le> unat (g_curOutputPos gw) \<and> unat (g_curOutputPos gw) < length b)"

definition pending :: "gateway \<Rightarrow> bytes" where
  "pending gw = (case g_output gw of
      [] \<Rightarrow> []
    | b # bs \<Rightarrow> drop (unat (g_curOutputPos gw)) b @ concat (map (drop 8) bs))"

text \<open>The documented behaviour of a send callback; \<open>sent s\<close> is what went out so far.\<close>

definition sink_ok :: "(bytes \<Rightarrow> 's \<Rightarrow> int \<times> 's) \<Rightarrow> ('s \<Rightarrow> bytes) \<Rightarrow> bool" where
  "sink_ok send sent \<longleftrightarrow> (\<forall>d s r s'. send d s = (r, s') \<longrightarrow>
     (if r < 0 then sent s' = sent s
      else r \<le> int (length d) \<and> sent s' = sent s @ take (nat r) d))"

lemma MGAllocMessageGateway_ok:
  "MGAllocMessageGateway E k = (Some gw, k') \<Longrightarrow>
    output_ok gw \<and> pending gw = [] \<and> \<not> MGHasBytesToOutput gw"
  by (auto simp: MGAllocMessageGateway_def output_ok_def pending_def MGHasBytesToOutput_def
      sizeof_pointer_def split: prod.splits option.splits if_splits)

lemma pending_append:
  "output_ok gw \<Longrightarrow> pending (gw\<lparr>g_output := g_output gw @ [b]\<rparr>) = pending gw @ drop 8 b"
  by (cases "g_output gw") (auto simp: pending_def output_ok_def)

lemma output_ok_append:
  "output_ok gw \<Longrightarrow> 8 < length b \<Longrightarrow> length b < 2 ^ 32 \<Longrightarrow>
    output_ok (gw\<lparr>g_output := g_output gw @ [b]\<rparr>)"
  by (cases "g_output gw") (auto simp: output_ok_def)

lemma memcpy_at_append_dst:
  "length a = off \<Longrightarrow> length src \<le> length b \<Longrightarrow>
    memcpy_at off src (a @ b) = (a @ src) @ drop (length src) b"
  by (simp add: memcpy_at_def)

lemma MGAddOutgoingMessage_spec:
  assumes "msg_ok m" "length (enc_msg (e_big E) m) + 16 < 2 ^ 31"
  shows "\<exists>buf. MGAddOutgoingMessage E gw m k =
      Ret (if e_malloc E k (23 + length (enc_msg (e_big E) m))
        then (B_NO_ERROR, gw\<lparr>g_output := g_output gw @ [buf]\<rparr>, Suc k) else (B_ERROR, gw, Suc k))
    \<and> length buf = 16 + length (enc_msg (e_big E) m) \<and> drop 8 buf = frame (e_big E) m"
proof -
  let ?e = "enc_msg (e_big E) m"
  obtain L where L: "length ?e = L" by simp
  let ?n = "of_nat L :: u32"
  have n: "unat ?n = L" using assms(2) L by (intro unat_of_nat_u32) simp
  have size: "MMGetFlattenedSize m = Ret ?n" using MMGetFlattenedSize_enc [OF assms(1)] L by blast
  have un: "unat (of_nat (16 + L) :: u32) = 16 + L"
    using assms(2) L by (intro unat_of_nat_u32) simp
  obtain r where r: "map (e_junk E) [0..<16 + L] = take 16 (map (e_junk E) [0..<16 + L]) @ r" "length r = L"
    by (metis append_take_drop_id diff_add_inverse length_drop length_map length_upt minus_nat.diff_0)
  let ?h = "replicate 8 0 @ le_bytes ?n @ le_bytes MUSCLE_MESSAGE_ENCODING_DEFAULT"
  obtain j where j: "length j = 16" "map (e_junk E) [0..<16 + L] = j @ r"
    using r by (metis length_append length_map length_upt add_diff_cancel_right' minus_nat.diff_0)
  have hdr: "memcpy_at 12 (le_bytes MUSCLE_MESSAGE_ENCODING_DEFAULT)
      (memcpy_at 8 (le_bytes ?n) (memcpy_at 0 (replicate 8 0) (j @ r))) = ?h @ r"
    using j(1) by (simp add: memcpy_at_def)
  have "MMFlattenMessage (e_big E) m (?h @ r) 16 = Ret (memcpy_at 16 ?e (?h @ r))"
    using assms(2) L r(2) by (intro MMFlattenMessage_enc [OF assms(1)]) auto
  moreover have "memcpy_at 16 ?e (?h @ r) = ?h @ ?e"
    using L r(2) by (subst memcpy_at_append_dst) simp_all
  ultimately have fl: "MMFlattenMessage (e_big E) m (?h @ r) 16 = Ret (?h @ ?e)" by simp
  have "MGAddOutgoingMessage E gw m k =
      Ret (if e_malloc E k (23 + L)
        then (B_NO_ERROR, gw\<lparr>g_output := g_output gw @ [?h @ ?e]\<rparr>, Suc k) else (B_ERROR, gw, Suc k))"
    using j(1) r(2) fl un [simplified]
    by (simp add: MGAddOutgoingMessage_def size MBAllocByteBuffer_def sizeof_defs n un j(2) hdr Let_def)
  then show ?thesis unfolding L by (intro exI [of _ "?h @ ?e"]) (simp add: frame_def L)
qed

section \<open>Sending\<close>

lemma MGDoOutput_step:
  assumes "output_ok gw" "sink_ok send sent" "g_output gw = b # bs"
    and left: "left = length b - unat (g_curOutputPos gw)"
    and n: "n = min left (unat maxBytes)"
    and d: "d = take n (drop (unat (g_curOutputPos gw)) b)"
    and snd: "send d s = (r, s')" "0 \<le> r"
    and gw': "gw' = (if nat r = left then gw\<lparr>g_output := bs, g_curOutputPos := 8\<rparr>
      else gw\<lparr>g_curOutputPos := g_curOutputPos gw + of_int r\<rparr>)"
  shows "MGDoOutput (Suc fuel) send gw maxBytes tot s =
      (if nat r < n then Ret (tot + of_int r, gw', s')
       else MGDoOutput fuel send gw' (maxBytes - of_int r) (tot + of_int r) s')
    \<and> output_ok gw' \<and> nat r \<le> n \<and> sent s' = sent s @ take (nat r) d
    \<and> pending gw = take (nat r) d @ pending gw'"
proof -
  let ?pos = "g_curOutputPos gw"
  have b: "8 < length b" "length b < 2 ^ 32" "8 \<le> unat ?pos" "unat ?pos < length b"
    using assms(1,3) by (auto simp: output_ok_def)
  have ub: "unat (of_nat (length b) :: u32) = length b" by (rule unat_of_nat_u32 [OF b(2)])
  have "?pos \<le> of_nat (length b)" using b(4) by (simp add: word_le_nat_alt ub)
  then have uleft: "unat (of_nat (length b) - ?pos) = left" by (simp add: unat_sub ub left)
  have usend: "unat (if of_nat (length b) - ?pos > maxBytes then maxBytes else of_nat (length b) - ?pos) = n"
    by (auto simp: n word_less_nat_alt uleft)
  have ld: "length d = n" by (simp add: d n left)
  have rd: "nat r \<le> n" "sent s' = sent s @ take (nat r) d"
    using assms(2) snd ld unfolding sink_ok_def by (smt (verit, best) nat_le_iff)+
  have of_r: "(of_int r :: u32) = of_nat (nat r)" using snd(2) by simp
  have ur: "unat (of_nat (nat r) :: u32) = nat r"
    using rd(1) b(2) by (intro unat_of_nat_u32) (unfold n left min.bounded_iff, linarith)
  have "unat ?pos + nat r < 2 ^ 32"
    using rd(1) b(2,4) unfolding n left min.bounded_iff by linarith
  then have upos: "unat (?pos + of_nat (nat r)) = unat ?pos + nat r"
    by (subst unat_add_small) (simp_all add: ur)
  then have full: "?pos + of_nat (nat r) = of_nat (length b) \<longleftrightarrow> nat r = left"
    using ub b(4) by (auto simp: word_unat_eq_iff left)
  have full': "?pos + of_int r = of_nat (length b) \<longleftrightarrow> nat r = left"
    unfolding of_r by (rule full)
  have room: "unat ?pos + n \<le> length b" using b(4) unfolding n left by linarith
  have short: "r < int n \<longleftrightarrow> nat r < n" using snd(2) by linarith
  have step: "MGDoOutput (Suc fuel) send gw maxBytes tot s =
      (if nat r < n then Ret (tot + of_int r, gw', s')
       else MGDoOutput fuel send gw' (maxBytes - of_int r) (tot + of_int r) s')"
    unfolding MGDoOutput.simps assms(3) list.case Let_def usend d [symmetric] snd prod.case
      full' short gw'
    using room snd(2) by (simp add: sizeof_pointer_def)
  have td: "take (nat r) d = take (nat r) (drop (unat ?pos) b)" using rd(1) by (simp add: d min_absorb1)
  have bufs: "\<forall>x \<in> set bs. 8 < length x \<and> length x < 2 ^ 32"
    using assms(1,3) by (simp add: output_ok_def)
  have "output_ok gw' \<and> pending gw' = drop (unat ?pos + nat r) b @ concat (map (drop 8) bs)"
  proof (cases "nat r = left")
    case True
    then have "unat ?pos + nat r = length b" using b(4) left by linarith
    then show ?thesis
      using True bufs by (cases bs) (simp_all add: gw' output_ok_def pending_def)
  next
    case False
    then have "unat ?pos + nat r < length b" using rd(1) unfolding n left by linarith
    then show ?thesis
      using False bufs b assms(3) upos [folded of_r] by (simp add: gw' output_ok_def pending_def)
  qed
  moreover have "pending gw = take (nat r) d @ drop (unat ?pos + nat r) b @ concat (map (drop 8) bs)"
    unfolding td by (simp add: pending_def assms(3) add.commute [of "unat ?pos"] flip: drop_drop append_assoc)
  ultimately show ?thesis using step rd by simp
qed

lemma MGDoOutput_error:
  assumes "output_ok gw" "g_output gw = b # bs"
    and "n = min (length b - unat (g_curOutputPos gw)) (unat maxBytes)"
    and "send (take n (drop (unat (g_curOutputPos gw)) b)) s = (r, s')" "r < 0"
  shows "MGDoOutput (Suc fuel) send gw maxBytes tot s = Ret (- 1, gw, s')"
proof -
  let ?pos = "g_curOutputPos gw"
  have b: "length b < 2 ^ 32" "unat ?pos < length b"
    using assms(1,2) by (auto simp: output_ok_def)
  have ub: "unat (of_nat (length b) :: u32) = length b" by (rule unat_of_nat_u32 [OF b(1)])
  have "?pos \<le> of_nat (length b)" using b(2) by (simp add: word_le_nat_alt ub)
  then have uleft: "unat (of_nat (length b) - ?pos) = length b - unat ?pos" by (simp add: unat_sub ub)
  have usend: "unat (if of_nat (length b) - ?pos > maxBytes then maxBytes else of_nat (length b) - ?pos) = n"
    by (auto simp: assms(3) word_less_nat_alt uleft)
  have room: "unat ?pos + n \<le> length b" using b(2) assms(3) by linarith
  show ?thesis
    unfolding MGDoOutput.simps assms(2) list.case Let_def usend assms(4) prod.case
    using room assms(5) by simp
qed

lemma unat_less_max: "nat r \<le> unat (maxBytes :: u32) \<Longrightarrow> 0 \<le> r \<Longrightarrow>
    unat (maxBytes - of_int r) = unat maxBytes - nat r"
proof -
  assume a: "nat r \<le> unat maxBytes" "0 \<le> r"
  have "(of_int r :: u32) = of_nat (nat r)" using a(2) by simp
  moreover have "unat (of_nat (nat r) :: u32) = nat r"
    using a(1) unat_less_u32 [of maxBytes] by (intro unat_of_nat_u32) linarith
  moreover from this have "of_nat (nat r) \<le> maxBytes" using a(1) unfolding word_le_nat_alt by linarith
  ultimately show ?thesis by (metis unat_sub)
qed

text \<open>
  C6: As long as the limit exceeds what is queued, \<open>MGDoOutput\<close> returns after at most one
  round per queued buffer, whatever pieces the callback accepts; what it sends is taken off
  the front of what is queued, so nothing is lost, repeated or reordered; and the result is
  the number of bytes sent, or -1 if the callback failed.
\<close>

theorem output_keeps_stream:
  assumes "output_ok gw" "sink_ok send sent" "length (g_output gw) < fuel"
    and "length (pending gw) < unat maxBytes"
  shows "\<exists>ret gw' s' out. MGDoOutput fuel send gw maxBytes tot s = Ret (ret, gw', s') \<and> output_ok gw' \<and>
    sent s' = sent s @ out \<and> pending gw = out @ pending gw' \<and>
    (ret = - 1 \<or> ret = tot + of_nat (length out))"
  using assms
proof (induction fuel arbitrary: gw maxBytes tot s)
  case (Suc fuel)
  show ?case
  proof (cases "g_output gw")
    case Nil
    then show ?thesis using Suc.prems(1) by (simp add: pending_def)
  next
    case (Cons b bs)
    let ?pos = "unat (g_curOutputPos gw)"
    obtain left where left: "left = length b - ?pos" by simp
    have lp: "left \<le> length (pending gw)" by (simp add: pending_def Cons left)
    then have n: "left = min left (unat maxBytes)" using Suc.prems(4) by linarith
    obtain d where d: "d = take left (drop ?pos b)" by simp
    obtain r s' where snd: "send d s = (r, s')" by fastforce
    show ?thesis
    proof (cases "r < 0")
      case True
      then have "sent s' = sent s" using Suc.prems(2) snd unfolding sink_ok_def by metis
      moreover have "MGDoOutput (Suc fuel) send gw maxBytes tot s = Ret (- 1, gw, s')"
        using MGDoOutput_error [OF Suc.prems(1) Cons n [unfolded left]] snd True by (simp add: d left)
      ultimately show ?thesis using Suc.prems(1) by simp
    next
      case False
      then have r: "0 \<le> r" by simp
      obtain gw' where gw': "gw' = (if nat r = left then gw\<lparr>g_output := bs, g_curOutputPos := 8\<rparr>
          else gw\<lparr>g_curOutputPos := g_curOutputPos gw + of_int r\<rparr>)" by simp
      obtain out where out: "take (nat r) d = out" by simp
      have st: "MGDoOutput (Suc fuel) send gw maxBytes tot s =
          (if nat r < left then Ret (tot + of_int r, gw', s')
           else MGDoOutput fuel send gw' (maxBytes - of_int r) (tot + of_int r) s')"
        "output_ok gw'" "nat r \<le> left" "sent s' = sent s @ out" "pending gw = out @ pending gw'"
        using MGDoOutput_step [OF Suc.prems(1,2) Cons left n d snd r gw', of fuel tot] out by simp_all
      have lo: "length out = nat r" using st(3) out by (auto simp: d left)
      have of_r: "(of_int r :: u32) = of_nat (length out)" using r lo by simp
      show ?thesis
      proof (cases "nat r < left")
        case True
        then show ?thesis using st of_r by simp
      next
        case False
        then have rl: "nat r = left" using st(3) by linarith
        have m: "unat (maxBytes - of_int r) = unat maxBytes - nat r"
          using rl lp Suc.prems(4) by (intro unat_less_max [OF _ r]) linarith
        have "length (pending gw') < unat (maxBytes - of_int r)"
          using st(5) Suc.prems(4) lo unfolding m by simp
        moreover have "length (g_output gw') < fuel" using Suc.prems(3) rl by (simp add: gw' Cons)
        ultimately obtain ret gw'' s'' o2 where
          IH: "MGDoOutput fuel send gw' (maxBytes - of_int r) (tot + of_int r) s' = Ret (ret, gw'', s'')"
            "output_ok gw''" "sent s'' = sent s' @ o2" "pending gw' = o2 @ pending gw''"
            "ret = - 1 \<or> ret = tot + of_int r + of_nat (length o2)"
          using Suc.IH [OF st(2) Suc.prems(2), of "maxBytes - of_int r" "tot + of_int r" s'] by blast
        have "sent s'' = sent s @ (out @ o2)" "pending gw = (out @ o2) @ pending gw''"
          "ret = - 1 \<or> ret = tot + of_nat (length (out @ o2))"
          using IH(3-5) st(4,5) of_r by auto
        then show ?thesis using st(1) False IH(1,2) by auto
      qed
    qed
  qed
qed simp

definition ex_send :: "nat \<Rightarrow> bytes \<Rightarrow> bytes \<Rightarrow> int \<times> bytes" where
  "ex_send c d s = (int (min c (length d)), s @ take c d)"

lemma ex_send_ok [simp]: "sink_ok (ex_send c) (\<lambda>s. s)"
  by (auto simp: sink_ok_def ex_send_def min_def split: if_splits)

definition ex_gateway :: gateway where
  "ex_gateway = \<lparr>g_curInput = replicate 8 0, g_curInputPos = 0, g_maxInputPos = 8,
     g_output = [replicate 8 0 @ [1, 2, 3], replicate 8 0 @ [4, 5]], g_curOutputPos = 8\<rparr>"

lemma ex_gateway_ok [simp]: "output_ok ex_gateway" "pending ex_gateway = [1, 2, 3, 4, 5]"
  by (simp_all add: ex_gateway_def output_ok_def pending_def)

theorem output_keeps_stream_witness:
  "\<exists>ret gw' out. MGDoOutput 3 (ex_send 2) ex_gateway 100 0 [9] = Ret (ret, gw', [9] @ out) \<and>
    output_ok gw' \<and> [1, 2, 3, 4, 5] = out @ pending gw' \<and> (ret = - 1 \<or> ret = of_nat (length out))"
proof -
  have "length (g_output ex_gateway) < 3" by (simp add: ex_gateway_def)
  moreover have "length (pending ex_gateway) < unat (100 :: u32)" by simp
  ultimately obtain ret gw' s' out where
    "MGDoOutput 3 (ex_send 2) ex_gateway 100 0 [9] = Ret (ret, gw', s')" "output_ok gw'"
    "s' = [9] @ out" "pending ex_gateway = out @ pending gw'" "ret = - 1 \<or> ret = 0 + of_nat (length out)"
    using output_keeps_stream [OF ex_gateway_ok(1) ex_send_ok, of 3 100 2 0 "[9]"] by blast
  then show ?thesis by auto
qed

text \<open>
  C15: If the limit on the number of bytes is smaller than what is queued and the callback
  accepts everything it is offered, \<open>MGDoOutput\<close> never returns: once the limit is used up
  it offers zero bytes again and again, because a write of zero bytes out of zero does not
  count as short.
\<close>

theorem output_limit_never_returns:
  assumes "output_ok gw" "sink_ok send sent" "\<And>d s. fst (send d s) = int (length d)"
    and "unat maxBytes < length (pending gw)"
  shows "MGDoOutput fuel send gw maxBytes tot s = NoFuel"
  using assms
proof (induction fuel arbitrary: gw maxBytes tot s)
  case (Suc fuel)
  obtain b bs where Cons: "g_output gw = b # bs"
    using Suc.prems(4) by (cases "g_output gw") (auto simp: pending_def)
  let ?pos = "unat (g_curOutputPos gw)"
  obtain left n d where left: "left = length b - ?pos" and n: "n = min left (unat maxBytes)"
    and d: "d = take n (drop ?pos b)" by simp
  obtain r s' where snd: "send d s = (r, s')" by fastforce
  then have rn: "r = int (length d)" using Suc.prems(3) [of d s] by simp
  have ld: "length d = n" by (simp add: d n left)
  have r: "0 \<le> r" using rn by simp
  obtain gw' where gw': "gw' = (if nat r = left then gw\<lparr>g_output := bs, g_curOutputPos := 8\<rparr>
      else gw\<lparr>g_curOutputPos := g_curOutputPos gw + of_int r\<rparr>)" by simp
  note st = MGDoOutput_step [OF Suc.prems(1,2) Cons left n d snd r gw', of fuel tot]
  have m: "unat (maxBytes - of_int r) = unat maxBytes - nat r"
    using rn ld n by (intro unat_less_max [OF _ r]) simp
  have "length (pending gw) = n + length (pending gw')" using st rn ld by simp
  then have "unat (maxBytes - of_int r) < length (pending gw')"
    using Suc.prems(4) rn ld n unfolding m by simp
  then have "MGDoOutput fuel send gw' (maxBytes - of_int r) (tot + of_int r) s' = NoFuel"
    using st by (intro Suc.IH [OF _ Suc.prems(2,3)]) auto
  then show ?case using st rn ld by simp
qed simp

definition ex_greedy :: "bytes \<Rightarrow> bytes \<Rightarrow> int \<times> bytes" where
  "ex_greedy d s = (int (length d), s @ d)"

theorem output_limit_never_returns_witness:
  "MGDoOutput 1000 ex_greedy ex_gateway 4 0 [] = NoFuel"
proof (rule output_limit_never_returns [where sent = "\<lambda>s. s"])
  show "sink_ok ex_greedy (\<lambda>s. s)" by (auto simp: sink_ok_def ex_greedy_def)
qed (simp_all add: ex_greedy_def)

text \<open>
  Queueing a message either appends exactly its frame (length, encoding, flattened bytes,
  the numbers little-endian) to the stream of bytes to be sent, or fails for lack of memory and
  changes nothing.
\<close>

theorem queue_appends_frame:
  assumes "output_ok gw" "msg_ok m" "length (enc_msg (e_big E) m) + 16 < 2 ^ 31"
  shows "\<exists>gw'. MGAddOutgoingMessage E gw m k =
      Ret (if e_malloc E k (23 + length (enc_msg (e_big E) m))
        then (B_NO_ERROR, gw', Suc k) else (B_ERROR, gw, Suc k))
    \<and> output_ok gw' \<and> pending gw' = pending gw @ frame (e_big E) m \<and> MGHasBytesToOutput gw'"
proof -
  obtain buf where buf: "MGAddOutgoingMessage E gw m k =
      Ret (if e_malloc E k (23 + length (enc_msg (e_big E) m))
        then (B_NO_ERROR, gw\<lparr>g_output := g_output gw @ [buf]\<rparr>, Suc k) else (B_ERROR, gw, Suc k))"
    "length buf = 16 + length (enc_msg (e_big E) m)" "drop 8 buf = frame (e_big E) m"
    using MGAddOutgoingMessage_spec [OF assms(2,3)] by blast
  then show ?thesis
    using assms(1,3) by (intro exI [of _ "gw\<lparr>g_output := g_output gw @ [buf]\<rparr>"])
      (auto simp: pending_append output_ok_append MGHasBytesToOutput_def)
qed

theorem queue_appends_frame_witness:
  "\<exists>gw'. MGAddOutgoingMessage ex_env ex_gateway ex_message 0 = Ret (B_NO_ERROR, gw', 1) \<and>
    pending gw' = [1, 2, 3, 4, 5] @ frame False ex_message"
proof -
  have "length (enc_msg (e_big ex_env) ex_message) = 30"
    by (simp add: ex_message_def ex_int32_field_def enc_bytes_def wire_data_def)
  then show ?thesis
    using queue_appends_frame [OF ex_gateway_ok(1) ex_message_ok, of ex_env 0] by auto
qed

section \<open>Receiving\<close>

text \<open>
  The documented behaviour of a receive callback on a stream; \<open>avail s\<close> is what is still to
  come, in whatever pieces.
\<close>

definition source_ok :: "(u32 \<Rightarrow> 's \<Rightarrow> (int \<times> bytes) \<times> 's) \<Rightarrow> ('s \<Rightarrow> bytes) \<Rightarrow> bool" where
  "source_ok recv avail \<longleftrightarrow> (\<forall>n s r bs s'. recv n s = ((r, bs), s') \<longrightarrow>
     (if r < 0 then avail s' = avail s
      else int (length bs) = r \<and> length bs \<le> unat n \<and> avail s = bs @ avail s'))"

definition idle :: "gateway \<Rightarrow> bool" where
  "idle gw \<longleftrightarrow> g_curInputPos gw = 0 \<and> g_maxInputPos gw = 8 \<and> 8 \<le> length (g_curInput gw)"

text \<open>The gateway has received the first part \<open>got\<close> of the frame \<open>F\<close>.\<close>

definition receiving :: "bytes \<Rightarrow> bytes \<Rightarrow> gateway \<Rightarrow> bool" where
  "receiving F got gw \<longleftrightarrow> length got < length F \<and> take (length got) F = got \<and>
     8 \<le> length (g_curInput gw) \<and> unat (g_curInputPos gw) = length got \<and>
     take (length got) (g_curInput gw) = got \<and>
     (if length got < 8 then g_maxInputPos gw = 8
      else unat (g_maxInputPos gw) = length F \<and> length F \<le> length (g_curInput gw))"

lemma length_frame: "length (frame be m) = 8 + length (enc_msg be m)"
  by (simp add: frame_def)

lemma idle_receiving: "idle gw \<Longrightarrow> receiving (frame be m) [] gw"
  by (simp add: idle_def receiving_def length_frame)

lemma MGAllocMessageGateway_idle: "MGAllocMessageGateway E k = (Some gw, k') \<Longrightarrow> idle gw"
  by (auto simp: MGAllocMessageGateway_def idle_def MBAllocByteBuffer_def
      split: prod.splits option.splits if_splits)

lemma take_memcpy_at:
  "pos + length bs \<le> length buf \<Longrightarrow> take (pos + length bs) (memcpy_at pos bs buf) = take pos buf @ bs"
  by (simp add: memcpy_at_def)

lemma header_complete_frame:
  assumes "take 8 (g_curInput gw) = take 8 (frame (e_big E) m)" "8 \<le> length (g_curInput gw)"
    and "g_curInputPos gw = 8" "2 * length (frame (e_big E) m) < 2 ^ 32" "no_oom E"
  shows "\<exists>gw' k'. header_complete E gw k = Ret (More gw' k') \<and>
    receiving (frame (e_big E) m) (take 8 (frame (e_big E) m)) gw'"
proof -
  let ?F = "frame (e_big E) m"
  obtain L where L: "length (enc_msg (e_big E) m) = L" by simp
  have F: "length ?F = 8 + L" "12 \<le> L" using length_enc_msg [of "e_big E" m] by (simp_all add: length_frame L)
  have uL: "unat (of_nat L :: u32) = L" using assms(4) F(1) by (intro unat_of_nat_u32) simp
  have u8: "unat (of_nat L + 8 :: u32) = length ?F"
    using assms(4) F(1) by (subst unat_add_small) (simp_all add: uL)
  have u2: "unat (2 * (of_nat L + 8) :: u32) = 2 * length ?F"
    using assms(4) by (subst unat_mult_small) (simp_all add: u8)
  then have u2: "unat (2 * of_nat L + 16 :: u32) = 2 * length ?F" by simp
  have "take 4 (g_curInput gw) = take 4 (take 8 (g_curInput gw))" by simp
  then have h0: "take 4 (g_curInput gw) = le_bytes (of_nat L)"
    unfolding assms(1) by (simp add: frame_def L)
  have "take 4 (drop 4 (g_curInput gw)) = drop 4 (take 8 (g_curInput gw))" by (simp add: take_drop)
  then have h1: "take 4 (drop 4 (g_curInput gw)) = le_bytes MUSCLE_MESSAGE_ENCODING_DEFAULT"
    unfolding assms(1) by (simp add: frame_def)
  have nz: "of_nat L \<noteq> (0 :: u32)" using uL F(2) by auto
  have lt8: "length (take 8 ?F) = 8" using F(1) by simp
  show ?thesis
  proof (cases "length ?F > length (g_curInput gw)")
    case True
    obtain big where big: "big = map (e_junk E) [0..<2 * length ?F]" by simp
    have lb: "length big = 2 * length ?F" by (simp add: big)
    have mc: "memcpy_run 8 (g_curInput gw) big = Ret (memcpy_at 0 (take 8 ?F) big)"
      using assms(1,2) lb F(1) by (simp add: memcpy_run_def)
    have "header_complete E gw k = Ret (More (gw\<lparr>g_curInput := memcpy_at 0 (take 8 ?F) big,
        g_maxInputPos := of_nat L + 8\<rparr>) (Suc k))"
      using assms(2,3,5) True mc
      by (simp add: header_complete_def h0 h1 nz u8 u2 MBAllocByteBuffer_def big Let_def)
    moreover have "receiving ?F (take 8 ?F) (gw\<lparr>g_curInput := memcpy_at 0 (take 8 ?F) big,
        g_maxInputPos := of_nat L + 8\<rparr>)"
      using assms(3) F lt8 lb by (simp add: receiving_def u8 memcpy_at_def)
    ultimately show ?thesis by blast
  next
    case False
    have "header_complete E gw k = Ret (More (gw\<lparr>g_maxInputPos := of_nat L + 8\<rparr>) k)"
      using assms(2) False by (simp add: header_complete_def h0 h1 nz u8 Let_def)
    moreover have "receiving ?F (take 8 ?F) (gw\<lparr>g_maxInputPos := of_nat L + 8\<rparr>)"
      using assms(1-3) F lt8 False by (simp add: receiving_def u8)
    ultimately show ?thesis by blast
  qed
qed

lemma body_complete_frame:
  assumes "take (length F) (g_curInput gw) = F" "F = frame (e_big E) m" "unat (g_maxInputPos gw) = length F"
    and "msg_ok m" "no_oom E" "sizeof_MMessageField + length F < 2 ^ 31" "length F \<le> ufuel"
    and "8 \<le> length (g_curInput gw)"
  shows "\<exists>gw' k'. body_complete E ufuel gw k = Ret (Complete (canon m) gw' k') \<and> idle gw'"
proof -
  obtain L where L: "length (enc_msg (e_big E) m) = L" by simp
  have F: "length F = 8 + L" by (simp add: assms(2) length_frame L)
  have "drop 8 (g_curInput gw) = drop 8 (take (length F) (g_curInput gw) @ drop (length F) (g_curInput gw))"
    by simp
  also have "\<dots> = enc_msg (e_big E) m @ drop (length F) (g_curInput gw)"
    unfolding assms(1) by (simp add: assms(2) frame_def)
  finally have rest: "drop 8 (g_curInput gw) = enc_msg (e_big E) m @ drop (length F) (g_curInput gw)" .
  have "(8 :: u32) \<le> g_maxInputPos gw" using assms(3) F by (simp add: word_le_nat_alt)
  then have um: "unat (g_maxInputPos gw - 8) = L" using assms(3) F by (simp add: unat_sub)
  have "cursor (drop 8 (g_curInput gw)) (g_maxInputPos gw - 8) 0 (enc_msg (e_big E) m)"
    by (simp add: cursor_def rest um L)
  moreover have "parses (MMUnflattenMessage ufuel E) (e_big E) m"
    using assms(4-7) F L by (intro parses_MMUnflattenMessage) simp_all
  ultimately obtain k1 where un: "MMUnflattenMessage ufuel E (drop 8 (g_curInput gw)) (g_maxInputPos gw - 8)
      (MMessage 0 []) (Suc k) = Ret (B_NO_ERROR, canon m, k1)"
    unfolding parses_def by blast
  show ?thesis
    using assms(5,8) un
    by (auto simp: body_complete_def MMAllocMessage_def Let_def MBAllocByteBuffer_def idle_def)
qed

definition goal :: "bytes \<Rightarrow> bytes \<Rightarrow> nat" where
  "goal F got = (if length got < 8 then 8 else length F) - length got"

lemma goal_frame: "receiving (frame be m) got gw \<Longrightarrow>
    0 < goal (frame be m) got \<and> length got + goal (frame be m) got \<le> length (frame be m)"
  by (auto simp: receiving_def goal_def length_frame)

lemma receiving_left:
  assumes "receiving (frame be m) got gw"
  shows "unat (g_maxInputPos gw - g_curInputPos gw) = goal (frame be m) got"
    and "length got + goal (frame be m) got \<le> length (g_curInput gw)"
proof -
  have u: "unat (g_maxInputPos gw) = length got + goal (frame be m) got"
    using assms by (auto simp: receiving_def goal_def)
  then have "g_curInputPos gw \<le> g_maxInputPos gw"
    using assms by (simp add: receiving_def word_le_nat_alt)
  then show "unat (g_maxInputPos gw - g_curInputPos gw) = goal (frame be m) got"
    using u assms by (simp add: unat_sub receiving_def)
  show "length got + goal (frame be m) got \<le> length (g_curInput gw)"
    using assms by (auto simp: receiving_def goal_def)
qed

text \<open>One round of the loop: too few bytes, a complete header, or a complete message.\<close>

lemma MGDoInput_round:
  assumes src: "source_ok recv avail" and rc: "receiving F got gw" and F: "F = frame (e_big E) m"
    and av: "avail s = drop (length got) F @ t" and mx: "goal F got \<le> unat maxBytes"
    and recv: "recv (g_maxInputPos gw - g_curInputPos gw) s = ((r, bs), s')" "0 \<le> r"
    and m: "msg_ok m" "no_oom E" "sizeof_MMessageField + length F < 2 ^ 31" "length F \<le> ufuel"
  shows "\<exists>gw' k'. length bs \<le> goal F got \<and> r = int (length bs)
    \<and> avail s' = drop (length (got @ bs)) F @ t
    \<and> (if length bs < goal F got then
         MGDoInput (Suc fuel) E ufuel recv True gw maxBytes tot s k = Ret (tot + of_int r, None, gw', s', k')
         \<and> receiving F (got @ bs) gw'
       else if length got < 8 then
         MGDoInput (Suc fuel) E ufuel recv True gw maxBytes tot s k =
           MGDoInput fuel E ufuel recv True gw' (maxBytes - of_int r) (tot + of_int r) s' k'
         \<and> receiving F (got @ bs) gw' \<and> length (got @ bs) = 8
       else
         MGDoInput (Suc fuel) E ufuel recv True gw maxBytes tot s k =
           Ret (tot + of_int r, Some (canon m), gw', s', k')
         \<and> idle gw' \<and> length (got @ bs) = length F)"
proof -
  let ?left = "g_maxInputPos gw - g_curInputPos gw"
  note rl = receiving_left [OF rc [unfolded F], folded F]
  have g: "0 < goal F got" "length got + goal F got \<le> length F"
    using goal_frame rc unfolding F by blast+
  have bs: "r = int (length bs)" "length bs \<le> goal F got" "avail s = bs @ avail s'"
    using src recv rl(1) unfolding source_ok_def by (metis not_less)+
  have le: "length bs \<le> length (drop (length got) F)" using bs(2) g(2) by simp
  have bs': "bs = take (length bs) (drop (length got) F)" "avail s' = drop (length bs) (drop (length got) F) @ t"
    using bs(3) le unfolding av by (metis append_eq_append_conv_if take_all_iff le_refl,
      metis append_eq_append_conv_if)
  have got: "take (length got) F = got" "unat (g_curInputPos gw) = length got"
    "take (length got) (g_curInput gw) = got" "8 \<le> length (g_curInput gw)"
    using rc by (simp_all add: receiving_def)
  have pre: "take (length (got @ bs)) F = got @ bs"
    using bs'(1) got(1) by (metis length_append take_add)
  have av': "avail s' = drop (length (got @ bs)) F @ t"
    using bs'(2) by (simp add: add.commute)
  have r': "(of_int r :: u32) = of_nat (length bs)" using bs(1) by simp
  have sum: "length got + length bs < 2 ^ 32" using bs(2) g(2) m(3) by simp
  have "unat (of_nat (length bs) :: u32) = length bs" using sum by (intro unat_of_nat_u32) simp
  then have upos: "unat (g_curInputPos gw + of_int r) = length (got @ bs)"
    unfolding r' using sum got(2) by (subst unat_add_small) simp_all
  have sel: "(if ?left > maxBytes then maxBytes else ?left) = ?left"
    using mx by (simp add: word_less_nat_alt rl(1) not_less)
  have room: "unat (g_curInputPos gw) + length bs \<le> length (g_curInput gw)"
    using bs(2) rl(2) got(2) by linarith
  obtain gw1 where gw1: "gw1 = gw\<lparr>g_curInput := memcpy_at (unat (g_curInputPos gw)) bs (g_curInput gw),
      g_curInputPos := g_curInputPos gw + of_int r\<rparr>" by simp
  have short: "r < int (unat ?left) \<longleftrightarrow> length bs < goal F got" using bs(1) rl(1) by simp
  have body: "MGDoInput (Suc fuel) E ufuel recv True gw maxBytes tot s k =
      bind_run (input_complete E ufuel gw1 k) (\<lambda>p. case p of
         Failed gw'' k' \<Rightarrow> Ret (- 1, None, gw'', s', k')
       | Complete msg gw'' k' \<Rightarrow> Ret (tot + of_int r, Some msg, gw'', s', k')
       | More gw'' k' \<Rightarrow>
           if length bs < goal F got then Ret (tot + of_int r, None, gw'', s', k')
           else MGDoInput fuel E ufuel recv True gw'' (maxBytes - of_int r) (tot + of_int r) s' k')"
    unfolding MGDoInput.simps Let_def sel recv(1) prod.case gw1 [symmetric] short
    using recv(2) room by simp
  have buf1: "take (length (got @ bs)) (g_curInput gw1) = got @ bs" "length (g_curInput gw1) = length (g_curInput gw)"
    using room take_memcpy_at [OF room] got(2,3) by (simp_all add: gw1)
  have pos1: "unat (g_curInputPos gw1) = length (got @ bs)" "g_maxInputPos gw1 = g_maxInputPos gw"
    using upos by (simp_all add: gw1)
  have umax: "unat (g_maxInputPos gw) = length got + goal F got"
    using rc by (auto simp: receiving_def goal_def)
  have full: "g_curInputPos gw1 = g_maxInputPos gw1 \<longleftrightarrow> length bs = goal F got"
    using pos1 umax by (auto simp: word_unat_eq_iff)
  consider (short) "length bs < goal F got" | (header) "length bs = goal F got" "length got < 8"
    | (whole) "length bs = goal F got" "\<not> length got < 8"
    using bs(2) by linarith
  then show ?thesis
  proof cases
    case short
    have "receiving F (got @ bs) gw1"
      using short rc pre buf1 pos1 g(2) by (auto simp: receiving_def goal_def split: if_splits)
    then show ?thesis using short body bs av' full by (auto simp: input_complete_def)
  next
    case header
    then have l8: "length (got @ bs) = 8" using g(2) by (simp add: goal_def)
    have "g_curInputPos gw1 = 8" using pos1(1) l8 by (simp add: word_unat_eq_iff)
    moreover have "2 * length F < 2 ^ 32" using m(3) by simp
    ultimately obtain gw' k' where hc: "header_complete E gw1 k = Ret (More gw' k')" "receiving F (take 8 F) gw'"
      using header_complete_frame [of gw1 E m k] buf1 pre l8 got(4) m(2) unfolding F by auto
    then have "input_complete E ufuel gw1 k = Ret (More gw' k')"
      using full header(1) \<open>g_curInputPos gw1 = 8\<close> by (simp add: input_complete_def)
    moreover have "receiving F (got @ bs) gw'" using hc(2) pre l8 by simp
    ultimately show ?thesis using body bs av' header l8 by auto
  next
    case whole
    then have lF: "length (got @ bs) = length F" using rc by (simp add: receiving_def goal_def)
    then have "got @ bs = F" using pre by simp
    then have "take (length F) (g_curInput gw1) = F" using buf1(1) by simp
    moreover have "unat (g_maxInputPos gw1) = length F" using pos1 full whole(1) lF by simp
    moreover have "8 \<le> length (g_curInput gw1)" using buf1(2) got(4) by simp
    ultimately obtain gw' k' where bc: "body_complete E ufuel gw1 k = Ret (Complete (canon m) gw' k')" "idle gw'"
      using body_complete_frame [OF _ F _ m] by blast
    have "8 < unat (g_curInputPos gw1)"
      using pos1(1) lF length_enc_msg [of "e_big E" m] unfolding F length_frame by linarith
    then have "input_complete E ufuel gw1 k = Ret (Complete (canon m) gw' k')"
      using full whole(1) bc(1) by (simp add: input_complete_def word_less_nat_alt)
    then show ?thesis using body bs av' whole lF bc(2) by auto
  qed
qed

lemma nested_pair: "\<exists>a b c. p = ((a, b), c)"
  by (cases p) auto

lemma MGDoInput_error:
  assumes "receiving F got gw" "F = frame be m" "goal F got \<le> unat maxBytes"
    and "recv (g_maxInputPos gw - g_curInputPos gw) s = ((r, bs), s')" "r < 0"
  shows "MGDoInput (Suc fuel) E ufuel recv want gw maxBytes tot s k = Ret (- 1, None, gw, s', k)"
proof -
  let ?left = "g_maxInputPos gw - g_curInputPos gw"
  have "(if ?left > maxBytes then maxBytes else ?left) = ?left"
    using assms(3) receiving_left(1) [OF assms(1) [unfolded assms(2)], folded assms(2)]
    by (simp add: word_less_nat_alt not_less)
  then show ?thesis unfolding MGDoInput.simps Let_def using assms(4,5) by simp
qed

text \<open>The outcome of a call while the frame \<open>F\<close> of \<open>m\<close>, followed by \<open>t\<close>, comes in.\<close>

definition received ::
    "('s \<Rightarrow> bytes) \<Rightarrow> bytes \<Rightarrow> bytes \<Rightarrow> bytes \<Rightarrow> mmessage \<Rightarrow> mmessage option \<Rightarrow> gateway \<Rightarrow> 's \<Rightarrow> bool" where
  "received avail F got t m res gw s \<longleftrightarrow> (case res of
       Some m' \<Rightarrow> m' = canon m \<and> idle gw \<and> avail s = t
     | None \<Rightarrow> \<exists>got'. receiving F (got @ got') gw \<and> avail s = drop (length (got @ got')) F @ t)"

lemma received_append: "received avail F (got @ bs) t m res gw s \<Longrightarrow> received avail F got t m res gw s"
  by (cases res) (auto simp: received_def)

lemma receive_body:
  assumes "source_ok recv avail" "receiving F got gw" "F = frame (e_big E) m"
    and "avail s = drop (length got) F @ t" "goal F got \<le> unat maxBytes"
    and "msg_ok m" "no_oom E" "sizeof_MMessageField + length F < 2 ^ 31" "length F \<le> ufuel"
    and "8 \<le> length got"
  shows "\<exists>ret res gw' s' k'. MGDoInput (Suc fuel) E ufuel recv True gw maxBytes tot s k =
      Ret (ret, res, gw', s', k') \<and> received avail F got t m res gw' s'"
proof -
  obtain r bs s' where recv: "recv (g_maxInputPos gw - g_curInputPos gw) s = ((r, bs), s')"
    by (metis nested_pair)
  show ?thesis
  proof (cases "r < 0")
    case True
    then have "avail s' = avail s" using assms(1) recv unfolding source_ok_def by metis
    then have "received avail F got t m None gw s'"
      using assms(2,4) by (auto simp: received_def intro!: exI [of _ "[]"])
    then show ?thesis
      using MGDoInput_error [where recv = recv, OF assms(2,3,5) recv True] by blast
  next
    case False
    then have r: "0 \<le> r" by simp
    have nl: "(length got < 8) = False" using assms(10) by simp
    obtain gw' k' where st: "avail s' = drop (length (got @ bs)) F @ t"
      "if length bs < goal F got then
         MGDoInput (Suc fuel) E ufuel recv True gw maxBytes tot s k = Ret (tot + of_int r, None, gw', s', k')
         \<and> receiving F (got @ bs) gw'
       else
         MGDoInput (Suc fuel) E ufuel recv True gw maxBytes tot s k =
           Ret (tot + of_int r, Some (canon m), gw', s', k')
         \<and> idle gw' \<and> length (got @ bs) = length F"
      using MGDoInput_round [OF assms(1-5) recv r assms(6-9), of fuel tot k] unfolding nl if_False by blast
    then show ?thesis by (cases "length bs < goal F got") (auto simp: received_def)
  qed
qed

text \<open>
  C5: Receiving works whatever pieces the bytes of a frame come in. Called with the frame of a
  well-formed message under way, \<open>MGDoInput\<close> returns after at most two rounds. Either it hands
  over the message, with exactly the frame taken off the stream and the gateway ready for
  the next one, or it has taken some more bytes of the frame and waits for the others; also
  when the callback fails in between.
\<close>

theorem receive_frame:
  assumes "source_ok recv avail" "receiving F got gw" "F = frame (e_big E) m"
    and "avail s = drop (length got) F @ t" "length F - length got < unat maxBytes" "2 \<le> fuel"
    and "msg_ok m" "no_oom E" "sizeof_MMessageField + length F < 2 ^ 31" "length F \<le> ufuel"
  shows "\<exists>ret res gw' s' k'. MGDoInput fuel E ufuel recv True gw maxBytes tot s k =
    Ret (ret, res, gw', s', k') \<and> received avail F got t m res gw' s'"
proof -
  have g: "length got + goal F got \<le> length F"
    using goal_frame [OF assms(2) [unfolded assms(3)]] unfolding assms(3) by blast
  then have mx: "goal F got \<le> unat maxBytes" using assms(5) by linarith
  have "fuel = Suc (Suc (fuel - 2))" using assms(6) by simp
  then obtain f where f: "fuel = Suc (Suc f)" by blast
  obtain r bs s' where recv: "recv (g_maxInputPos gw - g_curInputPos gw) s = ((r, bs), s')"
    by (metis nested_pair)
  consider (whole) "8 \<le> length got" | (error) "r < 0" "length got < 8" | (part) "0 \<le> r" "length got < 8"
    by linarith
  then show ?thesis
  proof cases
    case whole
    then show ?thesis
      unfolding f by (rule receive_body [OF assms(1-4) mx assms(7-10)])
  next
    case error
    then have "avail s' = avail s" using assms(1) recv unfolding source_ok_def by metis
    then have "received avail F got t m None gw s'"
      using assms(2,4) by (auto simp: received_def intro!: exI [of _ "[]"])
    then show ?thesis
      using MGDoInput_error [where recv = recv, OF assms(2,3) mx recv error(1)] unfolding f by blast
  next
    case part
    have yes: "(length got < 8) = True" using part(2) by simp
    obtain gw1 k1 where st: "r = int (length bs)" "length bs \<le> goal F got"
      "avail s' = drop (length (got @ bs)) F @ t"
      "if length bs < goal F got then
         MGDoInput fuel E ufuel recv True gw maxBytes tot s k = Ret (tot + of_int r, None, gw1, s', k1)
         \<and> receiving F (got @ bs) gw1
       else
         MGDoInput fuel E ufuel recv True gw maxBytes tot s k =
           MGDoInput (Suc f) E ufuel recv True gw1 (maxBytes - of_int r) (tot + of_int r) s' k1
         \<and> receiving F (got @ bs) gw1 \<and> length (got @ bs) = 8"
      using MGDoInput_round [OF assms(1-4) mx recv part(1) assms(7-10), of "Suc f" tot k]
      unfolding f yes if_True by blast
    show ?thesis
    proof (cases "length bs < goal F got")
      case True
      then show ?thesis using st(3,4) by (auto simp: received_def)
    next
      case False
      then have rc: "receiving F (got @ bs) gw1" and l8: "length (got @ bs) = 8"
        and eq: "MGDoInput fuel E ufuel recv True gw maxBytes tot s k =
          MGDoInput (Suc f) E ufuel recv True gw1 (maxBytes - of_int r) (tot + of_int r) s' k1"
        using st(4) by auto
      have "unat (maxBytes - of_int r) = unat maxBytes - nat r"
        using mx st(1,2) by (intro unat_less_max [OF _ part(1)]) simp
      then have mx1: "goal F (got @ bs) \<le> unat (maxBytes - of_int r)"
        using assms(5) l8 st(1) by (simp add: goal_def)
      show ?thesis
        using receive_body [OF assms(1) rc assms(3) st(3) mx1 assms(7-10)] l8 eq received_append
        by (metis le_refl)
    qed
  qed
qed

text \<open>A callback that delivers all there is, as far as it is asked for.\<close>

definition eager :: "(u32 \<Rightarrow> 's \<Rightarrow> (int \<times> bytes) \<times> 's) \<Rightarrow> ('s \<Rightarrow> bytes) \<Rightarrow> bool" where
  "eager recv avail \<longleftrightarrow> (\<forall>n s r bs s'. recv n s = ((r, bs), s') \<longrightarrow>
     0 \<le> r \<and> length bs = min (unat n) (length (avail s)))"

definition ex_recv :: "u32 \<Rightarrow> bytes \<Rightarrow> (int \<times> bytes) \<times> bytes" where
  "ex_recv n s = ((int (length (take (unat n) s)), take (unat n) s), drop (unat n) s)"

lemma ex_recv_ok [simp]: "source_ok ex_recv (\<lambda>s. s)" "eager ex_recv (\<lambda>s. s)"
  by (auto simp: source_ok_def eager_def ex_recv_def min_def)

definition ex_slow_recv :: "u32 \<Rightarrow> bytes \<Rightarrow> (int \<times> bytes) \<times> bytes" where
  "ex_slow_recv n s = ex_recv (min n 3) s"

lemma ex_slow_recv_ok [simp]: "source_ok ex_slow_recv (\<lambda>s. s)"
proof -
  have "unat (min n 3) \<le> unat n" for n :: u32 by (simp add: word_le_nat_alt [symmetric])
  then show ?thesis
    by (auto simp: source_ok_def ex_slow_recv_def ex_recv_def min_le_iff_disj intro: le_trans)
qed

definition ex_idle :: gateway where
  "ex_idle = \<lparr>g_curInput = replicate 8 0, g_curInputPos = 0, g_maxInputPos = 8, g_output = [],
     g_curOutputPos = 8\<rparr>"

lemma ex_idle_ok [simp]: "idle ex_idle" "length (g_curInput ex_idle) = 8"
  by (simp_all add: ex_idle_def idle_def)

theorem receive_frame_witness:
  "\<exists>ret res gw' s' k'. MGDoInput 2 ex_env 100 ex_slow_recv True ex_idle 1000 0 (frame False ex_message @ [1, 2]) 0 =
    Ret (ret, res, gw', s', k') \<and> received (\<lambda>s. s) (frame False ex_message) [] [1, 2] ex_message res gw' s'"
proof -
  have "length (enc_msg False ex_message) = 30"
    by (simp add: ex_message_def ex_int32_field_def enc_bytes_def wire_data_def)
  then show ?thesis
    using receive_frame [OF ex_slow_recv_ok idle_receiving [OF ex_idle_ok(1)], where E = ex_env
        and m = ex_message and s = "frame False ex_message @ [1, 2]" and t = "[1, 2]"
        and maxBytes = 1000 and fuel = 2 and ufuel = 100 and tot = 0 and k = 0]
    by (simp add: length_frame sizeof_MMessageField_def)
qed

text \<open>
  C14: If the whole frame of a message is available, one call of \<open>MGDoInput\<close> on an idle gateway
  takes exactly the frame, returns its length and hands over the message, up to what the wire
  format does not carry; the gateway is idle again.
\<close>

theorem receive_whole_frame:
  assumes "source_ok recv avail" "eager recv avail" "idle gw" "F = frame (e_big E) m" "avail s = F @ t"
    and "length F < unat maxBytes" "msg_ok m" "no_oom E" "sizeof_MMessageField + length F < 2 ^ 31"
    and "length F \<le> ufuel"
  shows "\<exists>gw' s' k'. MGDoInput 2 E ufuel recv True gw maxBytes 0 s k =
    Ret (of_nat (length F), Some (canon m), gw', s', k') \<and> idle gw' \<and> avail s' = t"
proof -
  have F12: "20 \<le> length F" using length_enc_msg [of "e_big E" m] by (simp add: assms(4) length_frame)
  have rc: "receiving F [] gw" unfolding assms(4) by (rule idle_receiving [OF assms(3)])
  have g0: "goal F [] = 8" by (simp add: goal_def)
  have mx: "goal F [] \<le> unat maxBytes" using F12 assms(6) g0 by linarith
  note round = MGDoInput_round [OF assms(1) _ assms(4) _ _ _ _ assms(7-10)]
  have full: "0 \<le> r \<and> length bs = goal F got"
    if "receiving F got gw0" "recv (g_maxInputPos gw0 - g_curInputPos gw0) s0 = ((r, bs), s1)"
      "avail s0 = drop (length got) F @ t" for got gw0 s0 r bs s1
    using assms(2) that(2,3) receiving_left(1) [OF that(1) [unfolded assms(4)], folded assms(4)]
      goal_frame [OF that(1) [unfolded assms(4)], folded assms(4)]
    unfolding eager_def by fastforce
  obtain r bs s1 where recv: "recv (g_maxInputPos gw - g_curInputPos gw) s = ((r, bs), s1)"
    by (metis nested_pair)
  have av: "avail s = drop (length []) F @ t" using assms(5) by simp
  note fl = full [OF rc recv av]
  obtain z where z: "(2 :: nat) = Suc (Suc z)" by (metis numeral_2_eq_2)
  have e1: "(length bs < goal F []) = False" "(length ([] :: bytes) < 8) = True" using fl by simp_all
  have ap: "[] @ bs = bs" by simp
  obtain gw1 k1 where st: "r = int (length bs)" "avail s1 = drop (length bs) F @ t" "receiving F bs gw1"
    "length bs = 8"
    "MGDoInput 2 E ufuel recv True gw maxBytes 0 s k =
      MGDoInput (Suc z) E ufuel recv True gw1 (maxBytes - of_int r) (0 + of_int r) s1 k1"
    using round [OF rc av mx recv conjunct1 [OF fl], of "Suc z" 0 k]
    unfolding e1 if_True if_False ap z by blast
  have "unat (maxBytes - of_int r) = unat maxBytes - nat r"
    using mx st(1,4) g0 by (intro unat_less_max) auto
  then have mx1: "goal F bs \<le> unat (maxBytes - of_int r)" using assms(6) st(1,4) by (simp add: goal_def)
  obtain r1 b1 s2 where recv1: "recv (g_maxInputPos gw1 - g_curInputPos gw1) s1 = ((r1, b1), s2)"
    by (metis nested_pair)
  note fl1 = full [OF st(3) recv1 st(2)]
  have e2: "(length b1 < goal F bs) = False" "(length bs < 8) = False" using fl1 st(4) by simp_all
  obtain gw2 k2 where st2: "r1 = int (length b1)" "avail s2 = drop (length (bs @ b1)) F @ t" "idle gw2"
    "length (bs @ b1) = length F"
    "MGDoInput (Suc z) E ufuel recv True gw1 (maxBytes - of_int r) (0 + of_int r) s1 k1 =
      Ret (0 + of_int r + of_int r1, Some (canon m), gw2, s2, k2)"
    using round [OF st(3) st(2) mx1 recv1 conjunct1 [OF fl1], of z "0 + of_int r" k1]
    unfolding e2 if_False by blast
  have "(0 + of_int r + of_int r1 :: u32) = of_nat (length F)"
    unfolding st2(4) [symmetric] using st(1) st2(1) by simp
  then show ?thesis using st(5) st2(2-5) by simp
qed

theorem receive_whole_frame_witness:
  "\<exists>gw' s' k'. MGDoInput 2 ex_env 100 ex_recv True ex_idle 1000 0 (frame False ex_message @ [1, 2]) 0 =
    Ret (38, Some ex_message, gw', s', k') \<and> idle gw' \<and> s' = [1, 2]"
proof -
  have l: "length (enc_msg False ex_message) = 30"
    by (simp add: ex_message_def ex_int32_field_def enc_bytes_def wire_data_def)
  have "canon ex_message = ex_message" by (simp add: ex_message_def ex_int32_field_def with_data_def)
  then show ?thesis
    using receive_whole_frame [OF ex_recv_ok ex_idle_ok(1), where E = ex_env
        and m = ex_message and s = "frame False ex_message @ [1, 2]" and t = "[1, 2]"
        and maxBytes = 1000 and ufuel = 100 and k = 0] l
    by (simp add: length_frame sizeof_MMessageField_def)
qed

text \<open>
  C7: The size in the header of an incoming frame is increased by the size of the header in 32
  bits. With the size \<open>0xFFFFFFF9\<close> the sum is 1, no larger buffer is allocated, and the
  gateway then asks for almost four gigabytes behind the end of its buffer of eight bytes: nine
  bytes from the network are enough to write outside it.
\<close>

theorem hostile_header_overflows:
  assumes "source_ok recv avail" "eager recv avail" "idle gw" "length (g_curInput gw) = 8"
    and "avail s = le_bytes (- 7) @ le_bytes MUSCLE_MESSAGE_ENCODING_DEFAULT @ x # xs"
    and "8 < unat maxBytes"
  shows "MGDoInput (Suc (Suc fuel)) E ufuel recv want gw maxBytes tot s k = Fault"
proof -
  let ?h = "le_bytes (- 7) @ le_bytes MUSCLE_MESSAGE_ENCODING_DEFAULT"
  obtain r bs s1 where recv: "recv 8 s = ((r, bs), s1)" by (metis nested_pair)
  have e: "0 \<le> r \<and> length bs = min (unat (8 :: u32)) (length (avail s))"
    using assms(2) recv unfolding eager_def by blast
  then have r: "r = int (length bs)" "avail s = bs @ avail s1" "0 \<le> r"
    using assms(1) recv unfolding source_ok_def by (metis not_less)+
  have r4: "length bs = 8" using e assms(5) by simp
  have bs: "bs = ?h" "avail s1 = x # xs"
    using r(2) r4 assms(5) append_eq_append_conv [of bs ?h "avail s1" "x # xs"] by simp_all
  have r8: "r = 8" using r(1) r4 by simp
  obtain gw1 where gw1: "gw1 = gw\<lparr>g_curInput := ?h, g_curInputPos := 8\<rparr>" by simp
  have "memcpy_at 0 bs (g_curInput gw) = ?h" using assms(4) bs(1) by (simp add: memcpy_at_whole)
  then have gw1': "gw\<lparr>g_curInput := memcpy_at 0 bs (g_curInput gw), g_curInputPos := 0 + of_int r\<rparr> = gw1"
    by (simp add: gw1 r8)
  have i: "g_curInputPos gw = 0" "g_maxInputPos gw = 8" using assms(3) by (simp_all add: idle_def)
  have n1: "(- 7 + 2 * 4 :: u32) = 1" "(- 7 :: u32) \<noteq> 0" by simp_all
  have "header_complete E gw1 k = Ret (More (gw1\<lparr>g_maxInputPos := 1\<rparr>) k)"
    using n1 by (simp add: header_complete_def gw1 Let_def)
  then have ic: "input_complete E ufuel gw1 k = Ret (More (gw1\<lparr>g_maxInputPos := 1\<rparr>) k)"
    using i(2) by (simp add: input_complete_def gw1)
  have "\<not> maxBytes < (8 :: u32)" using assms(6) by (simp add: word_less_nat_alt)
  then have sel: "(if (8 :: u32) - 0 > maxBytes then maxBytes else 8 - 0) = 8" by simp
  have first: "MGDoInput (Suc (Suc fuel)) E ufuel recv want gw maxBytes tot s k =
      MGDoInput (Suc fuel) E ufuel recv want (gw1\<lparr>g_maxInputPos := 1\<rparr>) (maxBytes - of_int r) (tot + of_int r) s1 k"
    unfolding MGDoInput.simps(2) [of "Suc fuel"] Let_def i sel recv prod.case
    using assms(4) r4 gw1' ic r8 by simp
  have um: "unat (maxBytes - of_int r) = unat maxBytes - 8"
    using assms(6) r8 unat_less_max [of r maxBytes] by simp
  obtain n where n: "n = (if (1 :: u32) - 8 > maxBytes - of_int r then maxBytes - of_int r else 1 - 8)" by simp
  have "0 < unat n" using um assms(6) by (simp add: n)
  obtain r2 b2 s2 where recv2: "recv n s1 = ((r2, b2), s2)" by (metis nested_pair)
  have "0 \<le> r2" "0 < length b2"
  proof -
    have "0 \<le> r2 \<and> length b2 = min (unat n) (length (avail s1))"
      using assms(2) recv2 unfolding eager_def by blast
    then show "0 \<le> r2" "0 < length b2" using bs(2) \<open>0 < unat n\<close> by simp_all
  qed
  have f: "g_maxInputPos (gw1\<lparr>g_maxInputPos := 1\<rparr>) = 1" "g_curInputPos (gw1\<lparr>g_maxInputPos := 1\<rparr>) = 8"
    "length (g_curInput (gw1\<lparr>g_maxInputPos := 1\<rparr>)) = 8"
    by (simp_all add: gw1)
  have second: "MGDoInput (Suc fuel) E ufuel recv want (gw1\<lparr>g_maxInputPos := 1\<rparr>) (maxBytes - of_int r)
      (tot + of_int r) s1 k = Fault"
    unfolding MGDoInput.simps(2) Let_def f n [symmetric] recv2 prod.case
    using \<open>0 \<le> r2\<close> \<open>0 < length b2\<close> by simp
  show ?thesis by (rule trans [OF first second])
qed

theorem hostile_header_overflows_witness:
  "MGDoInput (Suc (Suc 0)) ex_env 0 ex_recv True ex_idle 4096 0
     (le_bytes (- 7) @ le_bytes MUSCLE_MESSAGE_ENCODING_DEFAULT @ [65]) 0 = Fault"
  by (rule hostile_header_overflows [OF ex_recv_ok ex_idle_ok refl]) simp

end
