(* ===== verification/Mini_Clone.thy ===== *)
theory Mini_Clone
  imports Mini_Put
begin

text \<open>
  Copying and comparing whole messages: \<open>CloneMMessageField\<close>, \<open>MMCloneMessage\<close> and
  \<open>MMAreMessagesEqual\<close> of \<^verbatim>\<open>minimessage/MiniMessage.c\<close>. Both recurse through the embedded
  messages. The loops over the items run from the last item to the first when cloning; if a
  request for memory fails on the way, the code rolls back what it has cloned so far.
\<close>

section \<open>Cloning\<close>

text \<open>
  The rollback loop, \<open>for (j = numItems-1; j > i; j++)\<close>: it reads \<open>dstArray[j]\<close>, which is
  within the array only for \<open>j < numItems\<close>.
\<close>

function rollback :: "nat \<Rightarrow> nat \<Rightarrow> nat \<Rightarrow> unit run" where
  "rollback numItems i j =
     (if j > i then bind_run (guard (j < numItems)) (\<lambda>_. rollback numItems i (j + 1)) else Ret ())"
  by pat_completeness auto
termination by (relation "measure (\<lambda>(n, i, j). n - j)") (auto simp: guard_eq_Ret)

declare rollback.simps [simp del]

text \<open>
  \<open>clone_bufs\<close> and \<open>clone_msgs\<close> get the items still to clone, last one first, and the
  clones made so far, in order.
\<close>

fun clone_bufs ::
    "env \<Rightarrow> nat \<Rightarrow> bytes option list \<Rightarrow> bytes option list \<Rightarrow> nat
      \<Rightarrow> (bytes option list option \<times> nat) run" where
  "clone_bufs E n [] acc k = Ret (Some acc, k)"
| "clone_bufs E n (None # xs) acc k = clone_bufs E n xs (None # acc) k"
| "clone_bufs E n (Some b # xs) acc k =
     (case MBCloneByteBuffer E b k of
        (Some c, k') \<Rightarrow> clone_bufs E n xs (Some c # acc) k'
      | (None, k') \<Rightarrow> bind_run (rollback n (length xs) (n - 1)) (\<lambda>_. Ret (None, k')))"

lemma size_list_rev [simp]: "size_list f (rev xs) = size_list f xs"
  by (induction xs) (auto simp: size_list_append)

function (sequential) MMCloneMessage :: "env \<Rightarrow> mmessage \<Rightarrow> nat \<Rightarrow> (mmessage option \<times> nat) run"
  and clone_fields :: "env \<Rightarrow> mfield list \<Rightarrow> mmessage \<Rightarrow> nat \<Rightarrow> (mmessage option \<times> nat) run"
  and CloneMMessageField :: "env \<Rightarrow> mfield \<Rightarrow> nat \<Rightarrow> (mfield option \<times> nat) run"
  and clone_msgs :: "env \<Rightarrow> nat \<Rightarrow> mmessage option list \<Rightarrow> mmessage option list \<Rightarrow> nat
      \<Rightarrow> (mmessage option list option \<times> nat) run" where
  "MMCloneMessage E (MMessage w fs) k =
     (case MMAllocMessage E w k of
        (None, k') \<Rightarrow> Ret (None, k')
      | (Some clone, k') \<Rightarrow> clone_fields E fs clone k')"
| "clone_fields E [] clone k = Ret (Some clone, k)"
| "clone_fields E (f # fs) clone k =
     bind_run (CloneMMessageField E f k) (\<lambda>r. case fst r of
       Some cloneField \<Rightarrow> clone_fields E fs (AddMMessageField clone cloneField) (snd r)
     | None \<Rightarrow> Ret (None, snd r))"
| "CloneMMessageField E (MField nm tc isz n d fl) k =
     (if e_malloc E k (unat (f_allocSize (MField nm tc isz n d fl))) then
        (case d of
           Flat bs \<Rightarrow> Ret (Some (MField nm tc isz n (Flat bs) fl), Suc k)
         | Msgs xs \<Rightarrow>
             bind_run (guard (tc = B_MESSAGE_TYPE \<and> length xs = unat n)) (\<lambda>_.
             bind_run (clone_msgs E (unat n) (rev xs) [] (Suc k)) (\<lambda>r. case fst r of
               Some ys \<Rightarrow> Ret (Some (MField nm tc isz n (Msgs ys) fl), snd r)
             | None \<Rightarrow> Ret (None, snd r)))
         | Bufs xs \<Rightarrow>
             bind_run (guard (tc \<noteq> B_MESSAGE_TYPE \<and> length xs = unat n)) (\<lambda>_.
             bind_run (clone_bufs E (unat n) (rev xs) [] (Suc k)) (\<lambda>r. case fst r of
               Some ys \<Rightarrow> Ret (Some (MField nm tc isz n (Bufs ys) fl), snd r)
             | None \<Rightarrow> Ret (None, snd r))))
      else Ret (None, Suc k))"
| "clone_msgs E n [] acc k = Ret (Some acc, k)"
| "clone_msgs E n (x # xs) acc k =
     (case x of
        None \<Rightarrow> clone_msgs E n xs (None # acc) k
      | Some m \<Rightarrow>
          bind_run (MMCloneMessage E m k) (\<lambda>r. case fst r of
            Some c \<Rightarrow> clone_msgs E n xs (Some c # acc) (snd r)
          | None \<Rightarrow> bind_run (rollback n (length xs) (n - 1)) (\<lambda>_. Ret (None, snd r))))"
  by pat_completeness auto
termination
  by (relation "measure (\<lambda>t. case t of
        Inl (Inl (_, m, _)) \<Rightarrow> size m
      | Inl (Inr (_, fs, _)) \<Rightarrow> size_list size fs
      | Inr (Inl (_, f, _)) \<Rightarrow> size f
      | Inr (Inr (_, _, xs, _)) \<Rightarrow> size_list (size_option size) xs)") auto

text \<open>The blocks of memory that a message consists of.\<close>

definition buf_blocks :: "bytes option list \<Rightarrow> nat" where
  "buf_blocks xs = length (filter (\<lambda>x. x \<noteq> None) xs)"

function (sequential) blocks :: "mmessage \<Rightarrow> nat" and field_blocks :: "mfield \<Rightarrow> nat"
  and item_blocks :: "mmessage option list \<Rightarrow> nat" where
  "blocks (MMessage w fs) = 1 + (\<Sum>f\<leftarrow>fs. field_blocks f)"
| "field_blocks (MField nm tc isz n d fl) =
     1 + (case d of Flat bs \<Rightarrow> 0 | Bufs xs \<Rightarrow> buf_blocks xs | Msgs xs \<Rightarrow> item_blocks xs)"
| "item_blocks [] = 0"
| "item_blocks (x # xs) = (case x of None \<Rightarrow> 0 | Some m \<Rightarrow> blocks m) + item_blocks xs"
  by pat_completeness auto
termination
  by (relation "measure (\<lambda>t. case t of
        Inl m \<Rightarrow> size m
      | Inr (Inl f) \<Rightarrow> size f
      | Inr (Inr xs) \<Rightarrow> size_list (size_option size) xs)")
    (auto simp: size_list_estimation' less_Suc_eq_le)

section \<open>A clone is equal to the original\<close>

lemma buf_blocks_simps [simp]:
  "buf_blocks [] = 0" "buf_blocks (None # xs) = buf_blocks xs"
  "buf_blocks (Some b # xs) = Suc (buf_blocks xs)"
  "buf_blocks (xs @ ys) = buf_blocks xs + buf_blocks ys" "buf_blocks (rev xs) = buf_blocks xs"
  by (simp_all add: buf_blocks_def rev_filter [symmetric])

lemma item_blocks_simps [simp]:
  "item_blocks (xs @ ys) = item_blocks xs + item_blocks ys"
  by (induction xs) auto

lemma item_blocks_rev [simp]: "item_blocks (rev xs) = item_blocks xs"
  by (induction xs) auto

lemma clone_bufs_ok:
  assumes "\<And>b. Some b \<in> set xs \<Longrightarrow> length b < 2 ^ 32"
    and "\<And>j s. j < buf_blocks xs \<Longrightarrow> e_malloc E (k + j) s"
  shows "clone_bufs E n (xs @ ys) acc k = clone_bufs E n ys (rev xs @ acc) (k + buf_blocks xs)"
  using assms
proof (induction xs arbitrary: acc k)
  case (Cons x xs)
  have IH: "clone_bufs E n (xs @ ys) acc' k' = clone_bufs E n ys (rev xs @ acc') (k' + buf_blocks xs)"
    if "\<And>j s. j < buf_blocks xs \<Longrightarrow> e_malloc E (k' + j) s" for acc' k'
    using Cons.prems(1) that by (intro Cons.IH) auto
  show ?case
  proof (cases x)
    case None
    then show ?thesis using IH [of k] Cons.prems(2) by simp
  next
    case (Some b)
    have "e_malloc E k s" for s using Cons.prems(2) [of 0] Some by simp
    moreover have "e_malloc E (Suc k + j) s" if "j < buf_blocks xs" for j s
      using Cons.prems(2) [of "Suc j"] Some that by simp
    ultimately show ?thesis
      using IH [of "Suc k"] Cons.prems(1) Some by (simp add: MBCloneByteBuffer_result)
  qed
qed simp

lemma clone_msgs_ok:
  assumes "\<And>m k. Some m \<in> set xs \<Longrightarrow> MMCloneMessage E m k = Ret (Some m, k + blocks m)"
  shows "clone_msgs E n xs acc k = Ret (Some (rev xs @ acc), k + item_blocks xs)"
  using assms by (induction xs arbitrary: acc k) (auto split: option.split simp: ac_simps)

lemma CloneMMessageField_ok:
  assumes "header_ok f" "no_oom E"
    and "\<And>xs m k. f_data f = Msgs xs \<Longrightarrow> Some m \<in> set xs \<Longrightarrow> MMCloneMessage E m k = Ret (Some m, k + blocks m)"
  shows "CloneMMessageField E f k = Ret (Some f, k + field_blocks f)"
proof (cases f)
  case (MField nm tc isz n d fl)
  show ?thesis
  proof (cases d)
    case (Bufs xs)
    have "length b < 2 ^ 32" if "Some b \<in> set (rev xs)" for b
      using assms(1) that by (force simp: MField Bufs)
    then have "clone_bufs E (unat n) (rev xs @ []) [] (Suc k) =
        clone_bufs E (unat n) [] (rev (rev xs) @ []) (Suc k + buf_blocks (rev xs))"
      using assms(2) by (intro clone_bufs_ok) auto
    then show ?thesis using assms(1,2) by (auto simp: MField Bufs)
  next
    case (Msgs xs)
    then show ?thesis
      using assms clone_msgs_ok [of "rev xs" E "unat n" "[]" "Suc k"] by (simp add: MField)
  qed (use assms(2) MField in simp)
qed

lemma clone_fields_ok:
  assumes "\<And>f k. f \<in> set fs \<Longrightarrow> CloneMMessageField E f k = Ret (Some f, k + field_blocks f)"
  shows "clone_fields E fs c k =
    Ret (Some (MMessage (m_what c) (m_fields c @ fs)), k + (\<Sum>f\<leftarrow>fs. field_blocks f))"
  using assms by (induction fs arbitrary: c k) (auto simp: AddMMessageField_def ac_simps)

section \<open>When memory runs out\<close>

lemma rollback_result: "j \<le> n \<Longrightarrow> rollback n i j = (if j > i then Fault else Ret ())"
proof (induction n i j rule: rollback.induct)
  case (1 n i j)
  show ?case
  proof (cases "j > i \<and> j < n")
    case True
    then show ?thesis using 1 by (subst rollback.simps) (simp add: guard_def)
  next
    case False
    then show ?thesis by (subst rollback.simps) (auto simp: guard_def)
  qed
qed

lemma MMCloneMessage_ok:
  assumes "msg_ok m" "no_oom E"
  shows "MMCloneMessage E m k = Ret (Some m, k + blocks m)"
  using assms(1)
proof (induction m arbitrary: k rule: mmessage_induct)
  case (MMessage w fs)
  have "CloneMMessageField E f k = Ret (Some f, k + field_blocks f)" if "f \<in> set fs" for f k
    using MMessage that \<open>no_oom E\<close> by (intro CloneMMessageField_ok) (auto simp: list_all_iff)
  then show ?case
    using \<open>no_oom E\<close> by (simp add: MMAllocMessage_def clone_fields_ok)
qed

lemma CloneMMessageField_complete:
  assumes "field_ok f" "no_oom E"
  shows "CloneMMessageField E f k = Ret (Some f, k + field_blocks f)"
proof (rule CloneMMessageField_ok [OF _ assms(2)])
  show "header_ok f" using assms(1) by (simp add: field_ok_def)
  fix xs m k assume "f_data f = Msgs xs" "Some m \<in> set xs"
  then have "msg_ok m" using assms(1) by (cases f) (auto simp: field_ok_def items_ok_def)
  then show "MMCloneMessage E m k = Ret (Some m, k + blocks m)" by (rule MMCloneMessage_ok) (rule assms(2))
qed

section \<open>The properties of cloning\<close>

text \<open>
  C12: As long as memory does not run out, cloning a message yields a message with the same
  what code, fields and items, at any depth, and requests memory exactly once for each block
  the original consists of.
\<close>

theorem clone_is_original:
  assumes "msg_ok m" "no_oom E"
  shows "MMCloneMessage E m k = Ret (Some m, k + blocks m)"
  by (rule MMCloneMessage_ok [OF assms])

theorem clone_is_original_witness: "MMCloneMessage ex_env ex_tree 5 = Ret (Some ex_tree, 9)"
proof -
  have "blocks ex_tree = 4" by (simp add: ex_tree_def ex_message_def ex_int32_field_def)
  then show ?thesis using clone_is_original [OF ex_tree_ok ex_env_simps(5), of 5] by simp
qed

text \<open>
  C19: When memory runs out while the items of a field are cloned, the rollback is right
  only for the item cloned first, the last of the field. In every other case its loop counts
  upwards from the last item and leaves the array: the code does not fail cleanly.
\<close>

theorem clone_rollback_leaves_array:
  assumes f: "f = MField nm tc isz n (Bufs xs) fl" and "header_ok f"
    and i: "i < length xs" "xs ! i = Some b"
    and "\<And>j s. j \<le> buf_blocks (drop (Suc i) xs) \<Longrightarrow> e_malloc E (k + j) s"
    and "\<And>s. \<not> e_malloc E (Suc k + buf_blocks (drop (Suc i) xs)) s"
  shows "CloneMMessageField E f k = (if i = length xs - 1 then Ret (None, k + 2) else Fault)"
proof -
  let ?ys = "drop (Suc i) xs"
  have xs: "rev xs = rev ?ys @ Some b # rev (take i xs)"
    using i by (metis id_take_nth_drop rev_append rev.simps(2) append_assoc append_Cons append_Nil)
  have lb: "length b < 2 ^ 32" if "Some b \<in> set xs" for b
    using \<open>header_ok f\<close> that by (force simp: f)
  have "clone_bufs E (unat n) (rev ?ys @ Some b # rev (take i xs)) [] (Suc k) =
      clone_bufs E (unat n) (Some b # rev (take i xs)) (rev (rev ?ys) @ []) (Suc k + buf_blocks (rev ?ys))"
  proof (rule clone_bufs_ok)
    show "e_malloc E (Suc k + j) s" if "j < buf_blocks (rev ?ys)" for j s
      using assms(5) [of "Suc j" s] that by simp
  qed (use lb in_set_dropD in fastforce)
  moreover have "Some b \<in> set xs" using i nth_mem by metis
  ultimately have "clone_bufs E (unat n) (rev xs) [] (Suc k) =
      bind_run (rollback (unat n) i (unat n - 1)) (\<lambda>_. Ret (None, Suc (Suc k + buf_blocks ?ys)))"
    using assms(6) i(1) lb unfolding xs by (simp add: MBCloneByteBuffer_result min_def)
  moreover have "length xs = unat n" "tc \<noteq> B_MESSAGE_TYPE" using \<open>header_ok f\<close> by (auto simp: f)
  moreover have "e_malloc E k s" for s using assms(5) [of 0] by simp
  ultimately show ?thesis
    using i(1) by (auto simp: f rollback_result)
qed

definition ex_strings :: mfield where
  "ex_strings = MField [115, 0] B_STRING_TYPE 8 2 (Bufs [Some [65, 0], Some [66, 0]]) True"

definition ex_tight_env :: "nat \<Rightarrow> env" where
  "ex_tight_env n = \<lparr>e_big = False, e_malloc = (\<lambda>k _. k < n), e_junk = (\<lambda>_. 0)\<rparr>"

lemma ex_strings_ok [simp]: "field_ok ex_strings"
  by (simp add: ex_strings_def field_ok_def items_ok_def name_ok_def sizeof_pointer_def)

theorem clone_rollback_leaves_array_witness:
  "CloneMMessageField (ex_tight_env 2) ex_strings 0 = Fault \<and>
   CloneMMessageField (ex_tight_env 1) ex_strings 0 = Ret (None, 2)"
proof
  have ok: "header_ok ex_strings" using ex_strings_ok by (simp add: field_ok_def)
  show "CloneMMessageField (ex_tight_env 2) ex_strings 0 = Fault"
    using clone_rollback_leaves_array [OF ex_strings_def ok, of 0 "[65, 0]" "ex_tight_env 2" 0]
    by (simp add: ex_tight_env_def)
  show "CloneMMessageField (ex_tight_env 1) ex_strings 0 = Ret (None, 2)"
    using clone_rollback_leaves_array [OF ex_strings_def ok, of 1 "[66, 0]" "ex_tight_env 1" 0]
    by (simp add: ex_tight_env_def)
qed

end
