(* ===== verification/Mini_Store.thy ===== *)
theory Mini_Store
  imports Mini_Clone
begin

text \<open>
  The doubly linked list that strings the fields of a message together
  (\<^verbatim>\<open>minimessage/MiniMessage.c\<close>), with the pointers the code uses: insertion at the end,
  detaching, the look-up that walks backwards, clearing, and the two operations that move
  fields between messages. A refinement connects it to the list of fields that the other
  theories work with.
\<close>

section \<open>The store\<close>

text \<open>
  Fields live in a store of nodes; address 0 is \<open>NULL\<close>. Addresses are handed out in order
  and not used again, so that every access to a freed field is visible as a \<open>Fault\<close>.
\<close>

record node =
  n_prev :: nat
  n_next :: nat
  n_field :: mfield

record store =
  st_nodes :: "nat \<Rightarrow> node option"
  st_brk :: nat

record msg_object =
  o_what :: u32
  o_numFields :: u32
  o_first :: nat
  o_last :: nat

definition deref :: "store \<Rightarrow> nat \<Rightarrow> node run" where
  "deref st a = (case st_nodes st a of Some n \<Rightarrow> Ret n | None \<Rightarrow> Fault)"

definition write_node :: "store \<Rightarrow> nat \<Rightarrow> node \<Rightarrow> store" where
  "write_node st a n = st\<lparr>st_nodes := (st_nodes st)(a := Some n)\<rparr>"

text \<open>Assignments through a pointer; they need the node to be there.\<close>

definition set_prev :: "store \<Rightarrow> nat \<Rightarrow> nat \<Rightarrow> store run" where
  "set_prev st a p = bind_run (deref st a) (\<lambda>n. Ret (write_node st a (n\<lparr>n_prev := p\<rparr>)))"

definition set_next :: "store \<Rightarrow> nat \<Rightarrow> nat \<Rightarrow> store run" where
  "set_next st a p = bind_run (deref st a) (\<lambda>n. Ret (write_node st a (n\<lparr>n_next := p\<rparr>)))"

definition new_node :: "store \<Rightarrow> mfield \<Rightarrow> nat \<times> store" where
  "new_node st f = (st_brk st,
     (write_node st (st_brk st) \<lparr>n_prev = 0, n_next = 0, n_field = f\<rparr>)\<lparr>st_brk := Suc (st_brk st)\<rparr>)"

section \<open>The operations\<close>

definition MMAllocMessage_ptr :: "u32 \<Rightarrow> msg_object" where
  "MMAllocMessage_ptr what = \<lparr>o_what = what, o_numFields = 0, o_first = 0, o_last = 0\<rparr>"

definition AddMMessageField_ptr :: "store \<Rightarrow> msg_object \<Rightarrow> nat \<Rightarrow> (store \<times> msg_object) run" where
  "AddMMessageField_ptr st msg field =
     bind_run (set_prev st field (o_last msg)) (\<lambda>st.
     bind_run (if o_last msg \<noteq> 0
               then bind_run (set_next st (o_last msg) field) (\<lambda>st. Ret (st, msg))
               else Ret (st, msg\<lparr>o_first := field\<rparr>)) (\<lambda>(st, msg).
       Ret (st, msg\<lparr>o_last := field, o_numFields := o_numFields msg + 1\<rparr>)))"

definition DetachMMessageField_ptr :: "store \<Rightarrow> msg_object \<Rightarrow> nat \<Rightarrow> (store \<times> msg_object) run" where
  "DetachMMessageField_ptr st msg field =
     bind_run (deref st field) (\<lambda>f.
     bind_run (if n_prev f \<noteq> 0 then set_next st (n_prev f) (n_next f) else Ret st) (\<lambda>st.
     bind_run (if n_next f \<noteq> 0 then set_prev st (n_next f) (n_prev f) else Ret st) (\<lambda>st.
       let msg = (if field = o_last msg then msg\<lparr>o_last := n_prev f\<rparr> else msg);
           msg = (if field = o_first msg then msg\<lparr>o_first := n_next f\<rparr> else msg)
       in bind_run (set_prev st field 0) (\<lambda>st.
          bind_run (set_next st field 0) (\<lambda>st.
            Ret (st, msg\<lparr>o_numFields := o_numFields msg - 1\<rparr>))))))"

definition FreeMMessageField_ptr :: "store \<Rightarrow> nat \<Rightarrow> store run" where
  "FreeMMessageField_ptr st field =
     (if field \<noteq> 0 then
        bind_run (deref st field) (\<lambda>_. Ret (st\<lparr>st_nodes := (st_nodes st)(field := None)\<rparr>))
      else Ret st)"

text \<open>
  The two loops of the list. Each round uses a unit of fuel; the number of addresses handed out
  is enough for a list without a cycle.
\<close>

fun lookup_from :: "nat \<Rightarrow> store \<Rightarrow> nat \<Rightarrow> bytes \<Rightarrow> nat run" where
  "lookup_from 0 st f fieldName = (if f = 0 then Ret 0 else NoFuel)"
| "lookup_from (Suc fuel) st f fieldName =
     (if f = 0 then Ret 0
      else bind_run (deref st f) (\<lambda>n.
        bind_run (streq_c (f_name (n_field n)) fieldName) (\<lambda>eq.
          if eq then Ret f else lookup_from fuel st (n_prev n) fieldName)))"

definition LookupMMessageField_ptr :: "store \<Rightarrow> msg_object \<Rightarrow> bytes \<Rightarrow> u32 \<Rightarrow> nat option run" where
  "LookupMMessageField_ptr st msg fieldName typeCode =
     bind_run (lookup_from (st_brk st) st (o_last msg) fieldName) (\<lambda>f.
       if f = 0 then Ret None
       else bind_run (deref st f) (\<lambda>n.
         Ret (if typeCode = B_ANY_TYPE \<or> typeCode = f_typeCode (n_field n) then Some f else None)))"

fun clear_from :: "nat \<Rightarrow> store \<Rightarrow> nat \<Rightarrow> store run" where
  "clear_from 0 st field = (if field = 0 then Ret st else NoFuel)"
| "clear_from (Suc fuel) st field =
     (if field = 0 then Ret st
      else bind_run (deref st field) (\<lambda>n.
        bind_run (FreeMMessageField_ptr st field) (\<lambda>st. clear_from fuel st (n_next n))))"

definition MMClearMessage_ptr :: "store \<Rightarrow> msg_object \<Rightarrow> (store \<times> msg_object) run" where
  "MMClearMessage_ptr st msg =
     bind_run (clear_from (st_brk st) st (o_first msg)) (\<lambda>st.
       Ret (st, msg\<lparr>o_first := 0, o_last := 0, o_numFields := 0\<rparr>))"

definition MMRemoveField_ptr :: "store \<Rightarrow> msg_object \<Rightarrow> bytes \<Rightarrow> (status \<times> store \<times> msg_object) run" where
  "MMRemoveField_ptr st msg fieldName =
     bind_run (LookupMMessageField_ptr st msg fieldName B_ANY_TYPE) (\<lambda>r. case r of
       Some field \<Rightarrow>
         bind_run (DetachMMessageField_ptr st msg field) (\<lambda>(st, msg).
         bind_run (FreeMMessageField_ptr st field) (\<lambda>st. Ret (B_NO_ERROR, st, msg)))
     | None \<Rightarrow> Ret (B_ERROR, st, msg))"

text \<open>
  \<open>MMMoveField\<close> and \<open>MMCopyField\<close>. \<open>same\<close> is the comparison of the two message pointers, and
  \<open>None\<close> stands for a \<open>NULL\<close> destination.
\<close>

definition MMMoveField ::
    "bool \<Rightarrow> store \<Rightarrow> msg_object \<Rightarrow> bytes \<Rightarrow> msg_object option \<Rightarrow> (status \<times> store \<times> msg_object \<times> msg_object option) run" where
  "MMMoveField same st sourceMsg fieldName destMsg =
     (if same then Ret (B_NO_ERROR, st, sourceMsg, destMsg) else
     bind_run (LookupMMessageField_ptr st sourceMsg fieldName B_ANY_TYPE) (\<lambda>r. case r of
       Some moveMe \<Rightarrow>
         bind_run (DetachMMessageField_ptr st sourceMsg moveMe) (\<lambda>(st, sourceMsg).
         case destMsg of
           Some dest \<Rightarrow>
             bind_run (LookupMMessageField_ptr st dest fieldName B_ANY_TYPE) (\<lambda>k.
             bind_run (case k of
                 Some killMe \<Rightarrow>
                   bind_run (DetachMMessageField_ptr st dest killMe) (\<lambda>(st, dest).
                   bind_run (FreeMMessageField_ptr st moveMe) (\<lambda>st. Ret (st, dest)))
               | None \<Rightarrow> Ret (st, dest)) (\<lambda>(st, dest).
             bind_run (AddMMessageField_ptr st dest moveMe) (\<lambda>(st, dest).
               Ret (B_NO_ERROR, st, sourceMsg, Some dest))))
         | None \<Rightarrow>
             bind_run (FreeMMessageField_ptr st moveMe) (\<lambda>st. Ret (B_NO_ERROR, st, sourceMsg, None)))
     | None \<Rightarrow> Ret (B_ERROR, st, sourceMsg, destMsg)))"

definition MMCopyField ::
    "bool \<Rightarrow> env \<Rightarrow> store \<Rightarrow> msg_object \<Rightarrow> bytes \<Rightarrow> msg_object option \<Rightarrow> nat
      \<Rightarrow> (status \<times> store \<times> msg_object option \<times> nat) run" where
  "MMCopyField same E st sourceMsg fieldName destMsg k =
     (if same then Ret (B_NO_ERROR, st, destMsg, k) else
     bind_run (LookupMMessageField_ptr st sourceMsg fieldName B_ANY_TYPE) (\<lambda>r. case r of
       Some copyMe \<Rightarrow>
         (case destMsg of
           Some dest \<Rightarrow>
             bind_run (deref st copyMe) (\<lambda>n.
             bind_run (CloneMMessageField E (n_field n) k) (\<lambda>(c, k'). case c of
               Some f \<Rightarrow>
                 (case new_node st f of (clone, st) \<Rightarrow>
                   bind_run (LookupMMessageField_ptr st dest fieldName B_ANY_TYPE) (\<lambda>kill.
                   bind_run (case kill of
                       Some killMe \<Rightarrow>
                         bind_run (DetachMMessageField_ptr st dest killMe) (\<lambda>(st, dest).
                         bind_run (FreeMMessageField_ptr st copyMe) (\<lambda>st. Ret (st, dest)))
                     | None \<Rightarrow> Ret (st, dest)) (\<lambda>(st, dest).
                   bind_run (AddMMessageField_ptr st dest copyMe) (\<lambda>(st, dest).
                     Ret (B_NO_ERROR, st, Some dest, k')))))
             | None \<Rightarrow> Ret (B_ERROR, st, Some dest, k')))
         | None \<Rightarrow> Ret (B_NO_ERROR, st, None, k))
     | None \<Rightarrow> Ret (B_ERROR, st, destMsg, k)))"

section \<open>Linked lists\<close>

text \<open>The nodes \<open>xs\<close> are linked up, between the neighbours \<open>p\<close> and \<open>q\<close>.\<close>

fun seg :: "store \<Rightarrow> nat \<Rightarrow> nat list \<Rightarrow> nat \<Rightarrow> bool" where
  "seg st p [] q \<longleftrightarrow> True"
| "seg st p (a # as) q \<longleftrightarrow>
     (\<exists>n. st_nodes st a = Some n \<and> n_prev n = p \<and> n_next n = hd (as @ [q])) \<and> seg st a as q"

lemma seg_append: "seg st p (xs @ ys) q \<longleftrightarrow> seg st p xs (hd (ys @ [q])) \<and> seg st (last (p # xs)) ys q"
  by (induction xs arbitrary: p) (auto simp: hd_append)

lemma seg_other: "a \<notin> set xs \<Longrightarrow> seg (write_node st a n) p xs q = seg st p xs q"
  by (induction xs arbitrary: p) (auto simp: write_node_def)

text \<open>The message object and the nodes \<open>xs\<close>, in order, represent a message.\<close>

definition linked :: "store \<Rightarrow> msg_object \<Rightarrow> nat list \<Rightarrow> bool" where
  "linked st msg xs \<longleftrightarrow> distinct xs \<and> set xs \<subseteq> {0<..<st_brk st} \<and> seg st 0 xs 0 \<and>
     o_first msg = hd (xs @ [0]) \<and> o_last msg = last (0 # xs) \<and> o_numFields msg = of_nat (length xs)"

definition field_at :: "store \<Rightarrow> nat \<Rightarrow> mfield" where
  "field_at st a = (case st_nodes st a of Some n \<Rightarrow> n_field n | None \<Rightarrow> MField [] 0 0 0 (Flat []) False)"

lemma linked_new [simp]: "linked st (MMAllocMessage_ptr w) []"
  by (simp add: linked_def MMAllocMessage_ptr_def)

lemma seg_node: "seg st p xs q \<Longrightarrow> a \<in> set xs \<Longrightarrow> \<exists>n. st_nodes st a = Some n"
  by (induction xs arbitrary: p) auto

lemma store_simps [simp]:
  "st_brk (write_node st a n) = st_brk st"
  "st_nodes (write_node st a n) b = (if b = a then Some n else st_nodes st b)"
  by (simp_all add: write_node_def)

lemma deref_node [simp]: "st_nodes st a = Some n \<Longrightarrow> deref st a = Ret n"
  by (simp add: deref_def)

lemma deref_freed: "st_nodes st a = None \<Longrightarrow> deref st a = Fault"
  by (simp add: deref_def)

lemma set_node [simp]:
  "st_nodes st a = Some n \<Longrightarrow> set_prev st a p = Ret (write_node st a (n\<lparr>n_prev := p\<rparr>))"
  "st_nodes st a = Some n \<Longrightarrow> set_next st a p = Ret (write_node st a (n\<lparr>n_next := p\<rparr>))"
  by (simp_all add: set_prev_def set_next_def)

lemma field_at_write [simp]:
  "field_at (write_node st a n) b = (if b = a then n_field n else field_at st b)"
  by (simp add: field_at_def)

lemma field_at_node: "st_nodes st a = Some n \<Longrightarrow> field_at st a = n_field n"
  by (simp add: field_at_def)

text \<open>Changing the links at the ends of a segment.\<close>

lemma seg_set_next:
  assumes "seg st p (ys @ [l]) q" "l \<notin> set ys" "st_nodes st l = Some n"
  shows "seg (write_node st l (n\<lparr>n_next := r\<rparr>)) p (ys @ [l]) r"
  using assms by (auto simp: seg_append seg_other)

lemma seg_set_prev:
  assumes "seg st p (a # as) q" "a \<notin> set as" "st_nodes st a = Some n"
  shows "seg (write_node st a (n\<lparr>n_prev := r\<rparr>)) r (a # as) q"
  using assms by (auto simp: seg_other)

lemma last_cases: "xs = [] \<or> (\<exists>ys l. xs = ys @ [l])"
  by (cases xs rule: rev_cases) auto

text \<open>What an operation may not change: the fields, and the nodes outside a set.\<close>

definition frame_ok :: "nat set \<Rightarrow> store \<Rightarrow> store \<Rightarrow> bool" where
  "frame_ok A st st' \<longleftrightarrow> st_brk st' = st_brk st \<and> (\<forall>b. field_at st' b = field_at st b) \<and>
     (\<forall>b. b \<notin> A \<longrightarrow> st_nodes st' b = st_nodes st b)"

lemma frame_okD:
  "frame_ok A st st' \<Longrightarrow> field_at st' b = field_at st b"
  "frame_ok A st st' \<Longrightarrow> st_brk st' = st_brk st"
  "frame_ok A st st' \<Longrightarrow> b \<notin> A \<Longrightarrow> st_nodes st' b = st_nodes st b"
  by (simp_all add: frame_ok_def)

lemma seg_cong: "(\<And>a. a \<in> set xs \<Longrightarrow> st_nodes st' a = st_nodes st a) \<Longrightarrow> seg st' p xs q = seg st p xs q"
  by (induction xs arbitrary: p) auto

lemma linked_frame:
  assumes "linked st msg xs" "frame_ok A st st'" "A \<inter> set xs = {}"
  shows "linked st' msg xs"
  using assms seg_cong [of xs st' st 0 0] by (auto simp: linked_def frame_ok_def)

lemma AddMMessageField_ptr_ok:
  assumes "linked st msg xs" "a \<notin> set xs" "0 < a" "a < st_brk st"
    and "st_nodes st a = Some n" "n_next n = 0"
  shows "\<exists>st' msg'. AddMMessageField_ptr st msg a = Ret (st', msg') \<and> linked st' msg' (xs @ [a])
    \<and> frame_ok (insert a (set xs)) st st' \<and> o_what msg' = o_what msg"
proof (cases xs rule: rev_cases)
  case Nil
  then show ?thesis
    using assms by (auto simp: AddMMessageField_ptr_def linked_def frame_ok_def field_at_node)
next
  case (snoc ys l)
  have l: "l \<noteq> 0" "l \<noteq> a" "l \<notin> set ys" "o_last msg = l"
    using assms(1,2) snoc by (auto simp: linked_def)
  have sg: "seg st 0 (ys @ [l]) 0" using assms(1) snoc by (simp add: linked_def)
  obtain nl where nl: "st_nodes st l = Some nl" using seg_node [OF sg] by auto
  let ?st1 = "write_node st a (n\<lparr>n_prev := l\<rparr>)"
  let ?st2 = "write_node ?st1 l (nl\<lparr>n_next := a\<rparr>)"
  have "seg ?st1 0 (ys @ [l]) 0" using sg assms(2) snoc by (simp add: seg_other)
  then have "seg ?st2 0 (ys @ [l]) a"
    by (rule seg_set_next) (use l nl in auto)
  then have sg2: "seg ?st2 0 ((ys @ [l]) @ [a]) 0"
    unfolding seg_append [of _ _ "ys @ [l]"] using l assms(6) by simp
  have "AddMMessageField_ptr st msg a =
      Ret (?st2, msg\<lparr>o_last := a, o_numFields := o_numFields msg + 1\<rparr>)"
    using assms(5) l nl by (simp add: AddMMessageField_ptr_def)
  moreover have "linked ?st2 (msg\<lparr>o_last := a, o_numFields := o_numFields msg + 1\<rparr>) (xs @ [a])"
    using assms(1-4) sg2 snoc by (auto simp: linked_def hd_append)
  moreover have "frame_ok (insert a (set xs)) st ?st2"
    using assms(5) nl snoc by (auto simp: frame_ok_def field_at_node)
  ultimately show ?thesis by auto
qed

lemma DetachMMessageField_ptr_ok:
  assumes "linked st msg (ys @ a # zs)"
  shows "\<exists>st' msg' n. DetachMMessageField_ptr st msg a = Ret (st', msg') \<and> linked st' msg' (ys @ zs)
    \<and> frame_ok (set (ys @ a # zs)) st st' \<and> st_nodes st' a = Some n \<and> n_next n = 0 \<and> o_what msg' = o_what msg"
proof -
  have d: "distinct (ys @ a # zs)" "0 \<notin> set (ys @ a # zs)" and sg: "seg st 0 (ys @ a # zs) 0"
    and ends: "o_first msg = hd (ys @ a # zs)" "o_last msg = last (a # zs)"
    and num: "o_numFields msg = of_nat (length (ys @ a # zs))"
    and brk: "set (ys @ a # zs) \<subseteq> {0<..<st_brk st}"
    using assms by (auto simp: linked_def hd_append)
  obtain n where n: "st_nodes st a = Some n" "n_prev n = last (0 # ys)" "n_next n = hd (zs @ [0])"
    and sy: "seg st 0 ys a" and sz: "seg st a zs 0"
    using sg by (auto simp: seg_append)
  obtain st1 where st1: "(if n_prev n \<noteq> 0 then set_next st (n_prev n) (n_next n) else Ret st) = Ret st1"
    "seg st1 0 ys (hd (zs @ [0]))" "frame_ok (set ys) st st1"
  proof (cases ys rule: rev_cases)
    case Nil
    then show ?thesis using that [of st] n by (simp add: frame_ok_def)
  next
    case (snoc us l)
    then obtain nl where nl: "st_nodes st l = Some nl" using seg_node [OF sy] by auto
    have "seg (write_node st l (nl\<lparr>n_next := hd (zs @ [0])\<rparr>)) 0 (us @ [l]) (hd (zs @ [0]))"
      by (rule seg_set_next [OF sy [unfolded snoc] _ nl]) (use d snoc in simp)
    then show ?thesis
      using that [of "write_node st l (nl\<lparr>n_next := hd (zs @ [0])\<rparr>)"] n nl d snoc
      by (auto simp: frame_ok_def field_at_node)
  qed
  obtain st2 where st2: "(if n_next n \<noteq> 0 then set_prev st1 (n_next n) (n_prev n) else Ret st1) = Ret st2"
    "seg st2 (last (0 # ys)) zs 0" "frame_ok (set zs) st1 st2"
  proof (cases zs)
    case Nil
    then show ?thesis using that [of st1] n by (simp add: frame_ok_def)
  next
    case (Cons r rs)
    have sz1: "seg st1 a (r # rs) 0"
      using sz seg_cong [of "r # rs" st1 st a 0] frame_okD(3) [OF st1(3)] d Cons by auto
    then obtain nr where nr: "st_nodes st1 r = Some nr" by auto
    have "seg (write_node st1 r (nr\<lparr>n_prev := last (0 # ys)\<rparr>)) (last (0 # ys)) (r # rs) 0"
      by (rule seg_set_prev [OF sz1 _ nr]) (use d Cons in simp)
    then show ?thesis
      using that [of "write_node st1 r (nr\<lparr>n_prev := last (0 # ys)\<rparr>)"] n nr d Cons
      by (auto simp: frame_ok_def field_at_node)
  qed
  have n2: "st_nodes st2 a = Some n"
    using frame_okD(3) [OF st2(3), of a] frame_okD(3) [OF st1(3), of a] n(1) d(1) by simp
  let ?st3 = "write_node (write_node st2 a (n\<lparr>n_prev := 0\<rparr>)) a (n\<lparr>n_prev := 0, n_next := 0\<rparr>)"
  obtain msg1 where msg1: "msg1 = (if a = o_last msg then msg\<lparr>o_last := n_prev n\<rparr> else msg)" by simp
  obtain msg2 where msg2: "msg2 = (if a = o_first msg1 then msg1\<lparr>o_first := n_next n\<rparr> else msg1)" by simp
  have run: "DetachMMessageField_ptr st msg a = Ret (?st3, msg2\<lparr>o_numFields := o_numFields msg2 - 1\<rparr>)"
    unfolding DetachMMessageField_ptr_def deref_node [OF n(1)] bind_run.simps st1(1) st2(1) Let_def
      msg1 [symmetric] msg2 [symmetric]
    using n2 by simp
  have "seg st2 0 ys (hd (zs @ [0]))"
    using st1(2) seg_cong [of ys st2 st1] frame_okD(3) [OF st2(3)] d(1) by auto
  then have "seg st2 0 (ys @ zs) 0" using st2(2) by (simp add: seg_append)
  then have sg3: "seg ?st3 0 (ys @ zs) 0" using d(1) by (simp add: seg_other)
  have brk3: "st_brk ?st3 = st_brk st" using frame_okD(2) st1(3) st2(3) by simp
  have first: "o_first msg2 = hd (ys @ zs @ [0])"
    using ends(1) d n(3) by (cases ys) (auto simp: msg2 msg1)
  have last: "o_last msg2 = last (0 # ys @ zs)"
    using ends(2) d n(2) by (cases zs rule: rev_cases) (auto simp: msg2 msg1)
  have "linked ?st3 (msg2\<lparr>o_numFields := o_numFields msg2 - 1\<rparr>) (ys @ zs)"
    using sg3 brk3 first last d brk num by (auto simp: linked_def msg2 msg1)
  moreover have "frame_ok (set (ys @ a # zs)) st ?st3"
    using st1(3) st2(3) field_at_node [OF n(1)] brk3 by (auto simp: frame_ok_def)
  moreover have "o_what msg2 = o_what msg" by (simp add: msg2 msg1)
  ultimately show ?thesis using run by auto
qed

section \<open>Look-up\<close>

lemma find_last_snoc:
  "find_last s (fs @ [f]) = (if cstr (f_name f) = s then Some (length fs) else find_last s fs)"
  by (induction fs) (auto split: option.splits)

definition fields_at :: "store \<Rightarrow> nat list \<Rightarrow> mfield list" where
  "fields_at st xs = map (field_at st) xs"

lemma fields_at_simps [simp]:
  "fields_at st [] = []" "fields_at st (x # xs) = field_at st x # fields_at st xs"
  "fields_at st (xs @ ys) = fields_at st xs @ fields_at st ys" "length (fields_at st xs) = length xs"
  by (simp_all add: fields_at_def)

lemma fields_at_frame: "frame_ok A st st' \<Longrightarrow> fields_at st' xs = fields_at st xs"
  by (simp add: fields_at_def frame_okD)

lemma find_last_less: "find_last s fs = Some i \<Longrightarrow> i < length fs"
  using find_last_Some by blast

lemma lookup_from_ok:
  assumes "seg st 0 xs q" "length xs \<le> fuel" "0 \<notin> set xs" "0 \<in> set nm"
    and "list_all (\<lambda>f. 0 \<in> set (f_name f)) (fields_at st xs)"
  shows "lookup_from fuel st (last (0 # xs)) nm =
    Ret (case find_last (cstr nm) (fields_at st xs) of None \<Rightarrow> 0 | Some i \<Rightarrow> xs ! i)"
  using assms
proof (induction xs arbitrary: fuel q rule: rev_induct)
  case Nil
  then show ?case by (cases fuel) simp_all
next
  case (snoc x xs)
  obtain f where f: "fuel = Suc f" using snoc.prems(2) by (cases fuel) auto
  obtain n where n: "st_nodes st x = Some n" "n_prev n = last (0 # xs)" and sg: "seg st 0 xs x"
    using snoc.prems(1) by (auto simp: seg_append)
  have IH: "lookup_from f st (last (0 # xs)) nm =
      Ret (case find_last (cstr nm) (fields_at st xs) of None \<Rightarrow> 0 | Some i \<Rightarrow> xs ! i)"
    using snoc.prems f by (intro snoc.IH [OF sg]) auto
  have "field_at st x = n_field n" using n(1) by (rule field_at_node)
  then show ?case
    using snoc.prems(3-5) n IH f
    by (auto simp: streq_c_terminated find_last_snoc nth_append split: option.split dest: find_last_less)
qed

lemma linked_length: "linked st msg xs \<Longrightarrow> length xs \<le> st_brk st"
  using card_mono [of "{0<..<st_brk st}" "set xs"] distinct_card [of xs] by (auto simp: linked_def)

lemma LookupMMessageField_ptr_ok:
  assumes "linked st msg xs" "0 \<in> set nm" "list_all (\<lambda>f. 0 \<in> set (f_name f)) (fields_at st xs)"
  shows "LookupMMessageField_ptr st msg nm tc =
    Ret (case find_last (cstr nm) (fields_at st xs) of
           None \<Rightarrow> None
         | Some i \<Rightarrow> if tc = B_ANY_TYPE \<or> tc = f_typeCode (fields_at st xs ! i) then Some (xs ! i) else None)"
proof -
  have sg: "seg st 0 xs 0" and z: "0 \<notin> set xs" "o_last msg = last (0 # xs)"
    using assms(1) by (auto simp: linked_def)
  note lk = lookup_from_ok [OF sg linked_length [OF assms(1)] z(1) assms(2,3)]
  show ?thesis
  proof (cases "find_last (cstr nm) (fields_at st xs)")
    case None
    then show ?thesis using lk z(2) by (simp add: LookupMMessageField_ptr_def)
  next
    case (Some i)
    then have i: "i < length xs" using find_last_less by fastforce
    then obtain n where "st_nodes st (xs ! i) = Some n" using seg_node [OF sg nth_mem] by blast
    moreover have "xs ! i \<noteq> 0" using z(1) nth_mem [OF i] by metis
    ultimately show ?thesis
      using lk z(2) Some i by (simp add: LookupMMessageField_ptr_def fields_at_def field_at_node)
  qed
qed

section \<open>The list as a container of named fields\<close>

text \<open>The state as the locale sees it, and what it stands for.\<close>

fun walk :: "nat \<Rightarrow> store \<Rightarrow> nat \<Rightarrow> nat list" where
  "walk 0 st a = []"
| "walk (Suc fuel) st a =
     (case st_nodes st a of
        Some n \<Rightarrow> if a = 0 then [] else a # walk fuel st (n_next n)
      | None \<Rightarrow> [])"

definition nodes_of :: "store \<times> msg_object \<Rightarrow> nat list" where
  "nodes_of s = walk (st_brk (fst s)) (fst s) (o_first (snd s))"

lemma walk_seg:
  "seg st p xs 0 \<Longrightarrow> 0 \<notin> set xs \<Longrightarrow> st_nodes st 0 = None \<Longrightarrow> length xs \<le> fuel \<Longrightarrow>
    walk fuel st (hd (xs @ [0])) = xs"
proof (induction xs arbitrary: p fuel)
  case Nil
  then show ?case by (cases fuel) auto
next
  case (Cons x xs)
  then obtain f where "fuel = Suc f" by (cases fuel) auto
  then show ?case using Cons by auto
qed

definition store_ok :: "store \<times> msg_object \<Rightarrow> bool" where
  "store_ok s \<longleftrightarrow> linked (fst s) (snd s) (nodes_of s) \<and> st_nodes (fst s) 0 = None \<and> 0 < st_brk (fst s) \<and>
     list_all (\<lambda>f. 0 \<in> set (f_name f)) (fields_at (fst s) (nodes_of s))"

lemma nodes_of_linked:
  assumes "linked st msg xs" "st_nodes st 0 = None"
  shows "nodes_of (st, msg) = xs"
proof -
  have "0 \<notin> set xs" "seg st 0 xs 0" "o_first msg = hd (xs @ [0])"
    using assms(1) by (auto simp: linked_def)
  then show ?thesis
    using walk_seg [of st 0 xs "st_brk st"] assms(2) linked_length [OF assms(1)]
    by (simp add: nodes_of_def)
qed

lemma index_takeWhile:
  "distinct xs \<Longrightarrow> i < length xs \<Longrightarrow> length (takeWhile (\<lambda>b. b \<noteq> xs ! i) xs) = i"
  by (induction xs arbitrary: i) (auto simp: nth_Cons split: nat.split)

definition add_new :: "store \<times> msg_object \<Rightarrow> mfield \<Rightarrow> (store \<times> msg_object) run" where
  "add_new s f = (case new_node (fst s) f of (a, st) \<Rightarrow> AddMMessageField_ptr st (snd s) a)"

abbreviation store_fields :: "store \<times> msg_object \<Rightarrow> mfield list" where
  "store_fields s \<equiv> fields_at (fst s) (nodes_of s)"

abbreviation store_index :: "store \<times> msg_object \<Rightarrow> nat \<Rightarrow> nat" where
  "store_index s a \<equiv> length (takeWhile (\<lambda>b. b \<noteq> a) (nodes_of s))"

abbreviation store_look :: "store \<times> msg_object \<Rightarrow> bytes \<Rightarrow> nat option run" where
  "store_look s nm \<equiv> LookupMMessageField_ptr (fst s) (snd s) nm B_ANY_TYPE"

lemma store_look_law:
  assumes "store_ok s" "0 \<in> set nm"
  shows "\<exists>r. store_look s nm = Ret r \<and> map_option (store_index s) r = find_last (cstr nm) (store_fields s)"
proof -
  have "distinct (nodes_of s)" using assms(1) by (simp add: store_ok_def linked_def)
  then show ?thesis
    using assms LookupMMessageField_ptr_ok [of "fst s" "snd s" "nodes_of s" nm]
      find_last_less [of "cstr nm" "store_fields s"]
    by (auto simp: store_ok_def index_takeWhile split: option.split)
qed

lemma store_look_member:
  assumes "store_ok s" "0 \<in> set nm" "store_look s nm = Ret (Some a)"
  shows "a \<in> set (nodes_of s)"
proof -
  obtain i where "i < length (nodes_of s)" "a = nodes_of s ! i"
    using assms LookupMMessageField_ptr_ok [of "fst s" "snd s" "nodes_of s" nm]
      find_last_less [of "cstr nm" "store_fields s"]
    by (auto simp: store_ok_def split: option.splits)
  then show ?thesis by simp
qed

lemma store_detach_law:
  assumes "store_ok s" "0 \<in> set nm" "store_look s nm = Ret (Some a)"
  shows "\<exists>s'. DetachMMessageField_ptr (fst s) (snd s) a = Ret s' \<and> store_ok s' \<and>
    store_fields s' = remove_nth (store_index s a) (store_fields s)"
proof -
  obtain ys zs where sp: "nodes_of s = ys @ a # zs" "a \<notin> set ys"
    using split_list_first [OF store_look_member [OF assms]] by blast
  have l: "linked (fst s) (snd s) (ys @ a # zs)" using assms(1) sp(1) by (simp add: store_ok_def)
  obtain st' msg' where d: "DetachMMessageField_ptr (fst s) (snd s) a = Ret (st', msg')"
    "linked st' msg' (ys @ zs)" "frame_ok (set (ys @ a # zs)) (fst s) st'"
    using DetachMMessageField_ptr_ok [OF l] by blast
  have z: "0 \<notin> set (ys @ a # zs)" using l by (auto simp: linked_def)
  then have "st_nodes st' 0 = None" "0 < st_brk st'"
    using assms(1) frame_okD(2,3) [OF d(3)] by (auto simp: store_ok_def)
  moreover have n: "nodes_of (st', msg') = ys @ zs"
    by (rule nodes_of_linked [OF d(2)]) fact
  moreover have "fields_at st' xs = fields_at (fst s) xs" for xs by (rule fields_at_frame [OF d(3)])
  moreover have "store_index s a = length ys" using sp(2) unfolding sp(1) by (subst takeWhile_append2) auto
  moreover have "remove_nth (length ys) (fields_at (fst s) ys @ g # gs) = fields_at (fst s) ys @ gs" for g gs
    using remove_nth_append [of "fields_at (fst s) ys" g gs] by simp
  ultimately show ?thesis
    using d(1,2) assms(1) by (auto simp: store_ok_def sp(1))
qed

lemma store_add_law:
  assumes "store_ok s" "0 \<in> set (f_name f)"
  shows "\<exists>s'. add_new s f = Ret s' \<and> store_ok s' \<and> store_fields s' = store_fields s @ [f]"
proof -
  let ?a = "st_brk (fst s)"
  obtain st where st: "st = snd (new_node (fst s) f)" by simp
  have l: "linked (fst s) (snd s) (nodes_of s)" using assms(1) by (simp add: store_ok_def)
  have out: "?a \<notin> set (nodes_of s)" using l by (auto simp: linked_def)
  have new: "st_brk st = Suc ?a" "st_nodes st ?a = Some \<lparr>n_prev = 0, n_next = 0, n_field = f\<rparr>"
    "\<And>b. b \<noteq> ?a \<Longrightarrow> st_nodes st b = st_nodes (fst s) b"
    by (simp_all add: st new_node_def)
  have same: "fields_at st (nodes_of s) = fields_at (fst s) (nodes_of s)"
  proof -
    have "st_nodes st b = st_nodes (fst s) b" if "b \<in> set (nodes_of s)" for b
      using new(3) [of b] out that by metis
    then show ?thesis by (simp add: fields_at_def field_at_def)
  qed
  have "linked st (snd s) (nodes_of s)"
    using l new out seg_cong [of "nodes_of s" st "fst s" 0 0] by (fastforce simp: linked_def)
  from AddMMessageField_ptr_ok [OF this out] obtain st' msg' where
    a: "AddMMessageField_ptr st (snd s) ?a = Ret (st', msg')" "linked st' msg' (nodes_of s @ [?a])"
      "frame_ok (insert ?a (set (nodes_of s))) st st'"
    using new(1,2) assms(1) by (auto simp: store_ok_def)
  have "0 \<notin> insert ?a (set (nodes_of s))" "0 < ?a" "st_nodes (fst s) 0 = None"
    using assms(1) l by (auto simp: store_ok_def linked_def)
  then have z: "st_nodes st' 0 = None" "0 < st_brk st'"
    using new(1) new(3) [of 0] frame_okD(2) [OF a(3)] frame_okD(3) [OF a(3), of 0] by simp_all
  have "nodes_of (st', msg') = nodes_of s @ [?a]" by (rule nodes_of_linked [OF a(2) z(1)])
  moreover have "fields_at st' xs = fields_at st xs" "field_at st' b = field_at st b" for xs b
    by (rule fields_at_frame [OF a(3)], rule frame_okD(1) [OF a(3)])
  moreover have "field_at st ?a = f" using new(2) by (simp add: field_at_def)
  moreover have "add_new s f = Ret (st', msg')"
    using a(1) by (simp add: add_new_def st new_node_def)
  ultimately show ?thesis
    using a(2) z assms same by (auto simp: store_ok_def)
qed

interpretation ls: field_list store_ok store_fields store_index store_look
  "\<lambda>s a. DetachMMessageField_ptr (fst s) (snd s) a" add_new
  by unfold_locales (rule store_look_law store_detach_law store_add_law; assumption)+

section \<open>Refinement\<close>

text \<open>The state of the store represents the message \<open>m\<close>.\<close>

definition represents :: "store \<times> msg_object \<Rightarrow> mmessage \<Rightarrow> bool" where
  "represents s m \<longleftrightarrow> store_ok s \<and> m = MMessage (o_what (snd s)) (store_fields s)"

definition free_node :: "store \<Rightarrow> nat \<Rightarrow> store" where
  "free_node st a = st\<lparr>st_nodes := (st_nodes st)(a := None)\<rparr>"

lemma free_node_simps [simp]:
  "st_brk (free_node st a) = st_brk st"
  "st_nodes (free_node st a) b = (if b = a then None else st_nodes st b)"
  "b \<noteq> a \<Longrightarrow> field_at (free_node st a) b = field_at st b"
  by (simp_all add: free_node_def field_at_def)

lemma free_other:
  "a \<notin> set xs \<Longrightarrow> seg (free_node st a) p xs q = seg st p xs q"
  "a \<notin> set xs \<Longrightarrow> linked (free_node st a) msg xs = linked st msg xs"
  "a \<notin> set xs \<Longrightarrow> fields_at (free_node st a) xs = fields_at st xs"
proof -
  assume a: "a \<notin> set xs"
  have *: "seg (free_node st a) p xs q = seg st p xs q" for p q
    using a by (intro seg_cong) auto
  show "seg (free_node st a) p xs q = seg st p xs q" by (rule *)
  show "linked (free_node st a) msg xs = linked st msg xs" by (simp add: linked_def *)
  have "field_at (free_node st a) x = field_at st x" if "x \<in> set xs" for x
    using a that by (intro free_node_simps(3)) auto
  then show "fields_at (free_node st a) xs = fields_at st xs" by (simp add: fields_at_def)
qed

lemma FreeMMessageField_ptr_node:
  "a \<noteq> 0 \<Longrightarrow> st_nodes st a = Some n \<Longrightarrow> FreeMMessageField_ptr st a = Ret (free_node st a)"
  by (simp add: FreeMMessageField_ptr_def free_node_def)

lemma find_last_present: "s \<in> set (names fs) \<Longrightarrow> \<exists>i. find_last s fs = Some i"
  using find_last_None [of s fs] by (cases "find_last s fs") auto

lemma find_last_split:
  assumes "find_last s (fields_at st xs) = Some i"
  shows "\<exists>ys zs. xs = ys @ (xs ! i) # zs \<and> length ys = i"
proof -
  have "i < length xs" using find_last_less [OF assms] by simp
  then show ?thesis using id_take_nth_drop [of i xs]
    by (intro exI [of _ "take i xs"] exI [of _ "drop (Suc i) xs"]) auto
qed

text \<open>Detaching a field and freeing it.\<close>

lemma detach_free:
  assumes "linked st msg (ys @ a # zs)" "st_nodes st 0 = None"
  shows "\<exists>st' msg' st''. DetachMMessageField_ptr st msg a = Ret (st', msg') \<and>
    FreeMMessageField_ptr st' a = Ret st'' \<and> linked st'' msg' (ys @ zs) \<and> o_what msg' = o_what msg \<and>
    fields_at st'' (ys @ zs) = fields_at st (ys @ zs) \<and> st_nodes st'' a = None \<and>
    st_nodes st'' 0 = None \<and> st_brk st'' = st_brk st"
proof -
  obtain st' msg' n where d: "DetachMMessageField_ptr st msg a = Ret (st', msg')" "linked st' msg' (ys @ zs)"
    "frame_ok (set (ys @ a # zs)) st st'" "st_nodes st' a = Some n" "o_what msg' = o_what msg"
    using DetachMMessageField_ptr_ok [OF assms(1)] by blast
  have a: "a \<noteq> 0" "a \<notin> set (ys @ zs)" "0 \<notin> set (ys @ a # zs)" using assms(1) by (auto simp: linked_def)
  then have "st_nodes st' 0 = None" using frame_okD(3) [OF d(3)] assms(2) by simp
  moreover have "fields_at (free_node st' a) (ys @ zs) = fields_at st (ys @ zs)"
    using free_other(3) [OF a(2)] fields_at_frame [OF d(3)] by simp
  ultimately show ?thesis
    using d free_other(2) [OF a(2)] FreeMMessageField_ptr_node [OF a(1) d(4)] frame_okD(2) [OF d(3)]
    by simp
qed

text \<open>
  C8: Removing a field with the pointers of the linked list does, on every message it
  represents, what removal from the list of fields does: the same status and a list that
  represents the resulting message, with the node freed and nothing else.
\<close>

theorem remove_refines:
  assumes "represents s m" "0 \<in> set nm"
  shows "\<exists>status m' s'. MMRemoveField m nm = Ret (status, m') \<and>
    MMRemoveField_ptr (fst s) (snd s) nm = Ret (status, s') \<and> represents s' m'"
proof -
  obtain st msg xs where s: "s = (st, msg)" "nodes_of s = xs" by (cases s) auto
  have ok: "linked st msg xs" "st_nodes st 0 = None" "0 < st_brk st"
    "list_all (\<lambda>f. 0 \<in> set (f_name f)) (fields_at st xs)"
    and m: "m = MMessage (o_what msg) (fields_at st xs)"
    using assms(1) s by (auto simp: represents_def store_ok_def)
  have tree: "LookupMMessageField m nm B_ANY_TYPE = Ret (find_last (cstr nm) (fields_at st xs))"
    using ok(4) assms(2) by (simp add: m LookupMMessageField_def LookupAux_find_last option.case_eq_if)
  note ptr = LookupMMessageField_ptr_ok [OF ok(1) assms(2) ok(4), of B_ANY_TYPE]
  show ?thesis
  proof (cases "find_last (cstr nm) (fields_at st xs)")
    case None
    then show ?thesis
      using tree ptr assms(1) by (simp add: MMRemoveField_def MMRemoveField_ptr_def s(1))
  next
    case (Some i)
    obtain ys zs where xs: "xs = ys @ (xs ! i) # zs" "length ys = i" using find_last_split [OF Some] by blast
    obtain a where a: "xs ! i = a" by simp
    obtain st' msg' st'' where d: "DetachMMessageField_ptr st msg a = Ret (st', msg')"
      "FreeMMessageField_ptr st' a = Ret st''" "linked st'' msg' (ys @ zs)" "o_what msg' = o_what msg"
      "fields_at st'' (ys @ zs) = fields_at st (ys @ zs)" "st_nodes st'' 0 = None" "st_brk st'' = st_brk st"
      using detach_free [OF _ ok(2), of msg ys a zs] ok(1) xs(1) a by metis
    have fs: "fields_at st xs = fields_at st ys @ field_at st a # fields_at st zs"
      by (subst xs(1)) (simp add: a)
    have rm: "remove_nth i (fields_at st xs) = fields_at st (ys @ zs)"
      unfolding fs using remove_nth_append [of "fields_at st ys"] xs(2) by simp
    have "nodes_of (st'', msg') = ys @ zs" by (rule nodes_of_linked [OF d(3,6)])
    then have "represents (st'', msg') (MMessage (o_what msg) (fields_at st (ys @ zs)))"
      using d(3-7) ok(3,4) fs by (simp add: represents_def store_ok_def)
    then show ?thesis
      using tree ptr Some d(1,2) rm
      by (simp add: MMRemoveField_def MMRemoveField_ptr_def s(1) a m DetachMMessageField_def)
  qed
qed


definition ex_store :: "store \<times> msg_object" where
  "ex_store = (\<lparr>st_nodes = [1 \<mapsto> \<lparr>n_prev = 0, n_next = 0, n_field = ex_int32_field\<rparr>], st_brk = 2\<rparr>,
     \<lparr>o_what = 7, o_numFields = 1, o_first = 1, o_last = 1\<rparr>)"

lemma represents_linked:
  assumes "linked st msg xs" "st_nodes st 0 = None" "0 < st_brk st"
    and "list_all (\<lambda>f. 0 \<in> set (f_name f)) (fields_at st xs)"
  shows "represents (st, msg) (MMessage (o_what msg) (fields_at st xs)) \<and> nodes_of (st, msg) = xs"
  using nodes_of_linked [OF assms(1,2)] assms by (simp add: represents_def store_ok_def)

lemma ex_store_represents: "represents ex_store ex_message \<and> nodes_of ex_store = [1]"
  using represents_linked [of "fst ex_store" "snd ex_store" "[1]"]
  by (simp add: ex_store_def linked_def ex_message_def fields_at_def field_at_def ex_int32_field_def)

theorem remove_refines_witness:
  "\<exists>s'. MMRemoveField_ptr (fst ex_store) (snd ex_store) [97, 0] = Ret (B_NO_ERROR, s') \<and>
    represents s' (MMessage 7 [])"
proof -
  have "MMRemoveField ex_message [97, 0] = Ret (B_NO_ERROR, MMessage 7 [])"
    by (simp add: ex_message_def ex_int32_field_def MMRemoveField_def LookupMMessageField_def
        DetachMMessageField_def streq_c_terminated remove_nth_def)
  then show ?thesis
    using remove_refines [OF conjunct1 [OF ex_store_represents], of "[97, 0]"] by auto
qed

section \<open>Clearing\<close>

text \<open>Nodes connected by their \<open>next\<close> pointers alone.\<close>

fun chain :: "store \<Rightarrow> nat list \<Rightarrow> nat \<Rightarrow> bool" where
  "chain st [] q \<longleftrightarrow> True"
| "chain st (a # as) q \<longleftrightarrow> (\<exists>n. st_nodes st a = Some n \<and> n_next n = hd (as @ [q])) \<and> chain st as q"

definition free_nodes :: "store \<Rightarrow> nat list \<Rightarrow> store" where
  "free_nodes st xs = st\<lparr>st_nodes := (\<lambda>b. if b \<in> set xs then None else st_nodes st b)\<rparr>"

lemma free_nodes_simps [simp]:
  "st_brk (free_nodes st xs) = st_brk st" "free_nodes st [] = st"
  "st_nodes (free_nodes st xs) b = (if b \<in> set xs then None else st_nodes st b)"
  "free_nodes (free_node st a) xs = free_nodes st (a # xs)"
  by (auto simp: free_nodes_def free_node_def fun_eq_iff intro!: store.equality)

lemma seg_chain: "seg st p xs q \<Longrightarrow> chain st xs q"
  by (induction xs arbitrary: p) auto

lemma chain_cong: "(\<And>a. a \<in> set xs \<Longrightarrow> st_nodes st' a = st_nodes st a) \<Longrightarrow> chain st' xs q = chain st xs q"
  by (induction xs) auto

lemma clear_from_chain:
  "chain st xs q \<Longrightarrow> distinct xs \<Longrightarrow> 0 \<notin> set xs \<Longrightarrow>
    clear_from (length xs + k) st (hd (xs @ [q])) = clear_from k (free_nodes st xs) q"
proof (induction xs arbitrary: st)
  case (Cons a xs)
  obtain n where n: "st_nodes st a = Some n" "n_next n = hd (xs @ [q])" using Cons.prems(1) by auto
  have "chain (free_node st a) xs q"
    using Cons.prems(1,2) chain_cong [of xs "free_node st a" st q] by fastforce
  then have "clear_from (length xs + k) (free_node st a) (hd (xs @ [q])) =
      clear_from k (free_nodes (free_node st a) xs) q"
    using Cons.prems by (intro Cons.IH) auto
  then show ?case
    using Cons.prems(3) n FreeMMessageField_ptr_node [OF _ n(1)] by simp
qed simp

lemma clear_from_zero [simp]: "clear_from k st 0 = Ret st"
  by (cases k) simp_all

lemma MMClearMessage_ptr_linked:
  assumes "linked st msg xs"
  shows "MMClearMessage_ptr st msg =
    Ret (free_nodes st xs, msg\<lparr>o_first := 0, o_last := 0, o_numFields := 0\<rparr>)"
proof -
  obtain k where k: "st_brk st = length xs + k"
    using linked_length [OF assms] le_Suc_ex by blast
  have "chain st xs 0" "distinct xs" "0 \<notin> set xs" "o_first msg = hd (xs @ [0])"
    using assms seg_chain by (auto simp: linked_def)
  then show ?thesis
    using clear_from_chain [of st xs 0 k] by (simp add: MMClearMessage_ptr_def k)
qed

text \<open>
  Clearing a message ends, frees exactly the nodes of its fields and leaves a list that
  represents the cleared message.
\<close>

theorem clear_refines:
  assumes "represents (st, msg) m"
  shows "\<exists>st' msg'. MMClearMessage_ptr st msg = Ret (st', msg') \<and> represents (st', msg') (MMClearMessage m) \<and>
    (\<forall>a. st_nodes st' a = (if a \<in> set (nodes_of (st, msg)) then None else st_nodes st a))"
proof -
  let ?msg = "msg\<lparr>o_first := 0, o_last := 0, o_numFields := 0\<rparr>"
  have l: "linked st msg (nodes_of (st, msg))" "st_nodes st 0 = None" "0 < st_brk st"
    using assms by (auto simp: represents_def store_ok_def)
  have "represents (free_nodes st xs, ?msg) (MMClearMessage m)" for xs
    using represents_linked [of "free_nodes st xs" ?msg "[]"] l(2,3) assms
    by (simp add: linked_def MMClearMessage_def represents_def)
  then show ?thesis using MMClearMessage_ptr_linked [OF l(1)] by simp
qed

theorem clear_refines_witness:
  "\<exists>st' msg'. MMClearMessage_ptr (fst ex_store) (snd ex_store) = Ret (st', msg') \<and>
    represents (st', msg') (MMessage 7 []) \<and> st_nodes st' 1 = None"
  using clear_refines [of "fst ex_store" "snd ex_store" ex_message] ex_store_represents
  by (auto simp: MMClearMessage_def ex_message_def)

section \<open>Two messages\<close>

definition two_messages :: "store \<Rightarrow> msg_object \<Rightarrow> mmessage \<Rightarrow> msg_object \<Rightarrow> mmessage \<Rightarrow> bool" where
  "two_messages st src m dst m' \<longleftrightarrow> represents (st, src) m \<and> represents (st, dst) m' \<and>
     set (nodes_of (st, src)) \<inter> set (nodes_of (st, dst)) = {}"

definition named_list :: "store \<Rightarrow> nat list \<Rightarrow> bool" where
  "named_list st xs \<longleftrightarrow> list_all (\<lambda>f. 0 \<in> set (f_name f)) (fields_at st xs)"

lemma two_messages_linked:
  assumes "two_messages st src m dst m'"
  obtains xs ys where "linked st src xs" "linked st dst ys" "set xs \<inter> set ys = {}"
    "st_nodes st 0 = None" "0 < st_brk st" "named_list st xs" "named_list st ys"
    "m = MMessage (o_what src) (fields_at st xs)" "m' = MMessage (o_what dst) (fields_at st ys)"
    "xs = nodes_of (st, src)" "ys = nodes_of (st, dst)"
  using that assms unfolding two_messages_def represents_def store_ok_def named_list_def by simp

lemma two_messagesI:
  assumes "linked st src xs" "linked st dst ys" "set xs \<inter> set ys = {}"
    "st_nodes st 0 = None" "0 < st_brk st" "named_list st xs" "named_list st ys"
    "m = MMessage (o_what src) (fields_at st xs)" "m' = MMessage (o_what dst) (fields_at st ys)"
  shows "two_messages st src m dst m'"
  using represents_linked [OF assms(1,4,5)] represents_linked [OF assms(2,4,5)] assms(3,6-)
  by (simp add: two_messages_def named_list_def)

lemma named_list_simps [simp]:
  "named_list st (xs @ ys) \<longleftrightarrow> named_list st xs \<and> named_list st ys"
  "named_list st (a # xs) \<longleftrightarrow> 0 \<in> set (f_name (field_at st a)) \<and> named_list st xs" "named_list st []"
  by (auto simp: named_list_def)

lemma named_list_frame: "frame_ok A st st' \<Longrightarrow> named_list st' xs = named_list st xs"
  by (simp add: named_list_def fields_at_frame)

lemma Lookup_ptr_named:
  assumes "linked st msg xs" "0 \<in> set nm" "named_list st xs"
  shows "LookupMMessageField_ptr st msg nm B_ANY_TYPE =
    Ret (map_option (nth xs) (find_last (cstr nm) (fields_at st xs)))"
  using LookupMMessageField_ptr_ok [OF assms(1,2), of B_ANY_TYPE] assms(3)
  by (simp add: named_list_def option.case_eq_if map_option_case split: option.split)

text \<open>Adding a node that has been freed.\<close>

lemma add_freed: "st_nodes st a = None \<Longrightarrow> AddMMessageField_ptr st msg a = Fault"
  by (simp add: AddMMessageField_ptr_def set_prev_def deref_freed)

text \<open>The first step of a move: the field leaves its message, with its links cleared.\<close>

lemma move_detach:
  assumes "linked st src xs" "linked st dst ys" "set xs \<inter> set ys = {}" "i < length xs" "st_nodes st 0 = None"
  shows "\<exists>st' src' n us vs. DetachMMessageField_ptr st src (xs ! i) = Ret (st', src') \<and>
    xs = us @ (xs ! i) # vs \<and> length us = i \<and> linked st' src' (us @ vs) \<and> linked st' dst ys \<and>
    frame_ok (set xs) st st' \<and> st_nodes st' (xs ! i) = Some n \<and> n_next n = 0 \<and> o_what src' = o_what src \<and>
    st_nodes st' 0 = None"
proof -
  obtain us vs where xs: "xs = us @ (xs ! i) # vs" "length us = i"
    using id_take_nth_drop [OF assms(4)] assms(4) that [of "take i xs" "drop (Suc i) xs"] by simp
  obtain a where a: "xs ! i = a" by simp
  have l: "linked st src (us @ a # vs)" using assms(1) xs(1) a by simp
  obtain st' src' n where d: "DetachMMessageField_ptr st src a = Ret (st', src')" "linked st' src' (us @ vs)"
    "frame_ok (set (us @ a # vs)) st st'" "st_nodes st' a = Some n" "n_next n = 0" "o_what src' = o_what src"
    using DetachMMessageField_ptr_ok [OF l] by blast
  have fr: "frame_ok (set xs) st st'" using d(3) xs(1) a by simp
  have "0 \<notin> set xs" using assms(1) by (auto simp: linked_def)
  then have "st_nodes st' 0 = None" using frame_okD(3) [OF fr] assms(5) by simp
  then show ?thesis
    unfolding a using d xs a fr linked_frame [OF assms(2) fr assms(3)] by blast
qed

text \<open>
  C16: Moving a field to another message that has no field of the name takes it out of the
  source and puts it at the end of the destination; the field itself and all others are as they
  were, and no node is allocated or freed. Without such a field in the source nothing changes and
  the status is an error.
\<close>

theorem move_field:
  assumes "two_messages st src m dst m'" "0 \<in> set nm" "cstr nm \<notin> set (names (m_fields m'))"
  shows "case find_last (cstr nm) (m_fields m) of
      None \<Rightarrow> MMMoveField False st src nm (Some dst) = Ret (B_ERROR, st, src, Some dst)
    | Some i \<Rightarrow> \<exists>st' src' dst'. MMMoveField False st src nm (Some dst) = Ret (B_NO_ERROR, st', src', Some dst') \<and>
        two_messages st' src' (DetachMMessageField m i) dst' (AddMMessageField m' (m_fields m ! i))"
proof -
  obtain xs ys where l: "linked st src xs" "linked st dst ys" "set xs \<inter> set ys = {}"
    "st_nodes st 0 = None" "0 < st_brk st" "named_list st xs" "named_list st ys"
    and m: "m = MMessage (o_what src) (fields_at st xs)" "m' = MMessage (o_what dst) (fields_at st ys)"
    using two_messages_linked [OF assms(1)] by metis
  note look = Lookup_ptr_named [OF l(1) assms(2) l(6)]
  show ?thesis
  proof (cases "find_last (cstr nm) (fields_at st xs)")
    case None
    then show ?thesis using look by (simp add: m MMMoveField_def)
  next
    case (Some i)
    have i: "i < length xs" using find_last_less [OF Some] by simp
    from move_detach [OF l(1,2,3) i l(4)] obtain st' src' n us vs where
      d: "DetachMMessageField_ptr st src (xs ! i) = Ret (st', src')" "xs = us @ (xs ! i) # vs" "length us = i"
        "linked st' src' (us @ vs)" "linked st' dst ys" "frame_ok (set xs) st st'"
        "st_nodes st' (xs ! i) = Some n" "n_next n = 0" "o_what src' = o_what src" "st_nodes st' 0 = None"
      by blast
    obtain a where a: "xs ! i = a" by simp
    have a_in: "a \<in> set xs" using nth_mem [OF i] a by simp
    have "a \<notin> set ys" "0 < a" "a < st_brk st'"
      using a_in l(1,3) frame_okD(2) [OF d(6)] by (auto simp: linked_def)
    from AddMMessageField_ptr_ok [OF d(5) this d(7,8) [unfolded a]] obtain st2 dst2 where
      e: "AddMMessageField_ptr st' dst a = Ret (st2, dst2)" "linked st2 dst2 (ys @ [a])"
        "frame_ok (insert a (set ys)) st' st2" "o_what dst2 = o_what dst" by blast
    have "LookupMMessageField_ptr st' dst nm B_ANY_TYPE = Ret None"
      using Lookup_ptr_named [OF d(5) assms(2)] l(7) assms(3) fields_at_frame [OF d(6)]
      by (simp add: named_list_frame [OF d(6)] m find_last_None [THEN iffD2])
    then have run: "MMMoveField False st src nm (Some dst) = Ret (B_NO_ERROR, st2, src', Some dst2)"
      using look Some d(1) e(1) a by (simp add: MMMoveField_def)
    have xs: "xs = us @ a # vs" using d(2) a by simp
    have fs: "fields_at st2 zs = fields_at st zs" "field_at st2 b = field_at st b" for zs b
      using fields_at_frame [OF e(3)] fields_at_frame [OF d(6)] frame_okD(1) [OF e(3)] frame_okD(1) [OF d(6)]
      by simp_all
    have rm: "remove_nth i (fields_at st xs) = fields_at st (us @ vs)" "fields_at st xs ! i = field_at st a"
      using remove_nth_append [of "fields_at st us" "field_at st a" "fields_at st vs"] d(3) i a
      by (simp_all add: xs fields_at_def nth_append)
    have dis: "a \<notin> set (us @ vs)" "insert a (set ys) \<inter> set (us @ vs) = {}" "0 \<notin> insert a (set ys)"
      using l(1-3) by (auto simp: xs linked_def)
    have "two_messages st2 src' (DetachMMessageField m i) dst2 (AddMMessageField m' (m_fields m ! i))"
    proof (rule two_messagesI)
      show "linked st2 src' (us @ vs)" by (rule linked_frame [OF d(4) e(3) dis(2)])
      show "linked st2 dst2 (ys @ [a])" by (rule e)
      show "st_nodes st2 0 = None" using frame_okD(3) [OF e(3) dis(3)] d(10) by simp
      show "0 < st_brk st2" using frame_okD(2) [OF e(3)] frame_okD(2) [OF d(6)] l(5) by simp
      show "named_list st2 (us @ vs)" "named_list st2 (ys @ [a])"
        using l(6,7) fs by (simp_all add: named_list_def xs)
    qed (use dis e(4) d(9) rm fs m in \<open>auto simp: DetachMMessageField_def AddMMessageField_def\<close>)
    then show ?thesis using run Some by (simp add: m)
  qed
qed

definition ex_pair :: store where
  "ex_pair = \<lparr>st_nodes = [1 \<mapsto> \<lparr>n_prev = 0, n_next = 0, n_field = ex_int32_field\<rparr>,
       2 \<mapsto> \<lparr>n_prev = 0, n_next = 0, n_field = MField [98, 0] B_INT8_TYPE 1 1 (Flat [5]) True\<rparr>], st_brk = 3\<rparr>"

definition ex_object :: "nat \<Rightarrow> msg_object" where
  "ex_object a = \<lparr>o_what = 7, o_numFields = 1, o_first = a, o_last = a\<rparr>"

lemma ex_pair_ok:
  "two_messages ex_pair (ex_object 1) ex_message
     (ex_object 2) (MMessage 7 [MField [98, 0] B_INT8_TYPE 1 1 (Flat [5]) True])"
  by (rule two_messagesI [of _ _ "[1]" _ "[2]"])
    (auto simp: linked_def ex_pair_def ex_object_def named_list_def field_at_def ex_message_def
      ex_int32_field_def)

theorem move_field_witness:
  "\<exists>st' src' dst'. MMMoveField False ex_pair (ex_object 1) [97, 0] (Some (ex_object 2)) =
      Ret (B_NO_ERROR, st', src', Some dst') \<and>
    two_messages st' src' (MMessage 7 []) dst'
      (MMessage 7 [MField [98, 0] B_INT8_TYPE 1 1 (Flat [5]) True, ex_int32_field])"
proof -
  have "find_last (cstr [97, 0]) (m_fields ex_message) = Some 0"
    by (simp add: ex_message_def ex_int32_field_def)
  then show ?thesis
    using move_field [OF ex_pair_ok, of "[97, 0]"]
    by (auto simp: DetachMMessageField_def AddMMessageField_def remove_nth_def ex_message_def names_def)
qed

text \<open>
  C17: Moving a field to a message that already has a field of the name frees the moved field
  instead of the old one and then links the freed block into the destination: every such move
  accesses freed memory.
\<close>

theorem move_field_conflict:
  assumes "two_messages st src m dst m'" "0 \<in> set nm"
    and "cstr nm \<in> set (names (m_fields m))" "cstr nm \<in> set (names (m_fields m'))"
  shows "MMMoveField False st src nm (Some dst) = Fault"
proof -
  obtain xs ys where l: "linked st src xs" "linked st dst ys" "set xs \<inter> set ys = {}"
    "st_nodes st 0 = None" "0 < st_brk st" "named_list st xs" "named_list st ys"
    and m: "m = MMessage (o_what src) (fields_at st xs)" "m' = MMessage (o_what dst) (fields_at st ys)"
    using two_messages_linked [OF assms(1)] by metis
  obtain i j where ij: "find_last (cstr nm) (fields_at st xs) = Some i"
    "find_last (cstr nm) (fields_at st ys) = Some j"
    using find_last_present [OF assms(3)] find_last_present [OF assms(4)] by (auto simp: m)
  then have i: "i < length xs" "j < length ys" using find_last_less by fastforce+
  from move_detach [OF l(1,2,3) i(1) l(4)] obtain st' src' n where
    d: "DetachMMessageField_ptr st src (xs ! i) = Ret (st', src')" "linked st' dst ys"
      "frame_ok (set xs) st st'" "st_nodes st' (xs ! i) = Some n" "st_nodes st' 0 = None" by blast
  have "LookupMMessageField_ptr st' dst nm B_ANY_TYPE = Ret (Some (ys ! j))"
    using Lookup_ptr_named [OF d(2) assms(2)] l(7) ij(2) fields_at_frame [OF d(3)]
    by (simp add: named_list_frame [OF d(3)])
  moreover from move_detach [OF d(2,2) _ i(2) d(5)] DetachMMessageField_ptr_ok
  obtain st2 dst2 where e: "DetachMMessageField_ptr st' dst (ys ! j) = Ret (st2, dst2)" "frame_ok (set ys) st' st2"
    using split_list [OF nth_mem [OF i(2)]] d(2) by metis
  moreover have "xs ! i \<notin> set ys" "xs ! i \<noteq> 0" using nth_mem [OF i(1)] l(1,3) by (auto simp: linked_def)
  then have "FreeMMessageField_ptr st2 (xs ! i) = Ret (free_node st2 (xs ! i))"
    using FreeMMessageField_ptr_node frame_okD(3) [OF e(2)] d(4) by simp
  ultimately show ?thesis
    using Lookup_ptr_named [OF l(1) assms(2) l(6)] ij(1) d(1) add_freed
    by (simp add: MMMoveField_def)
qed

lemma ex_pair_same:
  "two_messages (write_node ex_pair 2 \<lparr>n_prev = 0, n_next = 0, n_field = ex_int32_field\<rparr>)
     (ex_object 1) ex_message (ex_object 2) ex_message"
  by (rule two_messagesI [of _ _ "[1]" _ "[2]"])
    (auto simp: linked_def ex_pair_def ex_object_def named_list_def field_at_def ex_message_def
      ex_int32_field_def)

theorem move_field_conflict_witness:
  "MMMoveField False (write_node ex_pair 2 \<lparr>n_prev = 0, n_next = 0, n_field = ex_int32_field\<rparr>)
     (ex_object 1) [97, 0] (Some (ex_object 2)) = Fault"
  using move_field_conflict [OF ex_pair_same, of "[97, 0]"]
  by (simp add: ex_message_def ex_int32_field_def names_def)

text \<open>The node for the clone does not disturb the lists that are there.\<close>

lemma new_node_linked:
  assumes "linked st msg xs" "new_node st f = (c, st')"
  shows "linked st' msg xs \<and> fields_at st' xs = fields_at st xs"
proof -
  have x: "b \<noteq> st_brk st" if "b \<in> set xs" for b using assms(1) that by (auto simp: linked_def)
  then have "st_nodes st' b = st_nodes st b" if "b \<in> set xs" for b
    using assms(2) that by (auto simp: new_node_def)
  then show ?thesis
    using assms seg_cong [of xs st' st 0 0]
    by (fastforce simp: new_node_def linked_def fields_at_def field_at_def)
qed

lemma chain_next_cong:
  "(\<And>b. b \<in> set xs \<Longrightarrow> map_option n_next (st_nodes st' b) = map_option n_next (st_nodes st b)) \<Longrightarrow>
    chain st xs q \<Longrightarrow> chain st' xs q"
  by (induction xs) (fastforce split: option.splits)+

lemma chain_snoc:
  "chain st (xs @ [l]) q \<longleftrightarrow> chain st xs l \<and> (\<exists>n. st_nodes st l = Some n \<and> n_next n = q)"
  by (induction xs) (auto simp: hd_append)

text \<open>Adding a node that is still in another list.\<close>

lemma add_shared:
  assumes "linked st src xs" "linked st dst ys" "set xs \<inter> set ys = {}" "a \<in> set xs"
  shows "\<exists>st' dst'. AddMMessageField_ptr st dst a = Ret (st', dst') \<and> chain st' xs 0 \<and> chain st' ys a \<and>
    o_first dst' = hd (ys @ [a]) \<and> o_last dst' = a \<and> st_brk st' = st_brk st"
proof -
  have sg: "seg st 0 xs 0" "seg st 0 ys 0" using assms(1,2) by (auto simp: linked_def)
  obtain n where n: "st_nodes st a = Some n" using seg_node [OF sg(1) assms(4)] by blast
  let ?st1 = "write_node st a (n\<lparr>n_prev := o_last dst\<rparr>)"
  have c1: "chain ?st1 xs 0" using chain_next_cong [of xs ?st1 st, OF _ seg_chain [OF sg(1)]] n by simp
  show ?thesis
  proof (cases ys rule: rev_cases)
    case Nil
    then show ?thesis using assms(2) n c1 by (simp add: AddMMessageField_ptr_def linked_def)
  next
    case (snoc us l)
    have l: "l \<noteq> 0" "o_last dst = l" "l \<notin> set xs" "l \<noteq> a" "l \<notin> set us" "o_first dst = hd (us @ [l])"
      using assms(2-4) snoc by (auto simp: linked_def hd_append)
    have cl: "chain st us l" "\<exists>nl. st_nodes st l = Some nl"
      using seg_chain [OF sg(2)] by (auto simp: snoc chain_snoc)
    obtain nl where nl: "st_nodes st l = Some nl" using cl(2) by blast
    let ?st2 = "write_node ?st1 l (nl\<lparr>n_next := a\<rparr>)"
    have "AddMMessageField_ptr st dst a = Ret (?st2, dst\<lparr>o_last := a, o_numFields := o_numFields dst + 1\<rparr>)"
      using n nl l by (simp add: AddMMessageField_ptr_def)
    moreover have "chain ?st2 xs 0"
      by (rule chain_next_cong [OF _ c1]) (use l in auto)
    moreover have "chain ?st2 us l"
      by (rule chain_next_cong [OF _ cl(1)]) (use l n in auto)
    then have "chain ?st2 ys a" by (simp add: snoc chain_snoc)
    ultimately show ?thesis using l(6) by (simp add: snoc hd_append)
  qed
qed

text \<open>Clearing the two owners of a shared node, one after the other.\<close>

lemma clear_both:
  assumes "chain st xs 0" "chain st ys a" "distinct xs" "distinct ys" "set xs \<inter> set ys = {}"
    and "set xs \<subseteq> {0<..<st_brk st}" "set ys \<subseteq> {0<..<st_brk st}" "a \<in> set xs"
    and "o_first src = hd (xs @ [0])" "o_first dst = hd (ys @ [a])"
  shows "MMClearMessage_ptr st src = Ret (free_nodes st xs, src\<lparr>o_first := 0, o_last := 0, o_numFields := 0\<rparr>) \<and>
    MMClearMessage_ptr (free_nodes st xs) dst = Fault"
proof -
  have len: "length zs < st_brk st" if "distinct zs" "set zs \<subseteq> {0<..<st_brk st}" for zs
    using card_mono [OF _ that(2)] distinct_card [OF that(1)] assms(6,8) by fastforce
  obtain k where k: "st_brk st = length xs + k"
    using len [OF assms(3,6)] le_Suc_ex less_imp_le by metis
  obtain k' where k': "st_brk st = length ys + Suc k'"
    using len [OF assms(4,7)] less_iff_Suc_add by (metis add_Suc_right)
  have z: "0 \<notin> set xs" "0 \<notin> set ys" "a \<noteq> 0" using assms(6-8) by auto
  have "chain (free_nodes st xs) ys a"
    by (rule chain_next_cong [OF _ assms(2)]) (use assms(5) in auto)
  then have "clear_from (length ys + Suc k') (free_nodes st xs) (hd (ys @ [a])) = Fault"
    using clear_from_chain [OF _ assms(4) z(2), of "free_nodes st xs" a "Suc k'"] z(3) assms(5,8)
    by (auto simp: deref_freed)
  then have "MMClearMessage_ptr (free_nodes st xs) dst = Fault"
    unfolding MMClearMessage_ptr_def free_nodes_simps(1) k' assms(10) by (simp only: bind_run.simps)
  then show ?thesis
    using clear_from_chain [OF assms(1,3) z(1), of k] assms(9)
    by (simp add: MMClearMessage_ptr_def k)
qed

text \<open>
  C18: Copying a field to another message frees memory that is in use: when the destination has
  a field of the name, the copy accesses the source's field after freeing it; when it has none,
  the source's own field, and not its clone, becomes the destination's last field, so that
  clearing the source and then the destination accesses a freed field.
\<close>

theorem copy_field_shares:
  assumes "two_messages st src m dst m'" "0 \<in> set nm" "msg_ok m" "no_oom E"
    and "find_last (cstr nm) (m_fields m) = Some i" "a = nodes_of (st, src) ! i"
  shows "if cstr nm \<in> set (names (m_fields m')) then MMCopyField False E st src nm (Some dst) k = Fault
    else \<exists>st' dst' k' st''. MMCopyField False E st src nm (Some dst) k = Ret (B_NO_ERROR, st', Some dst', k') \<and>
      o_last dst' = a \<and> MMClearMessage_ptr st' src = Ret (st'', src\<lparr>o_first := 0, o_last := 0, o_numFields := 0\<rparr>) \<and>
      MMClearMessage_ptr st'' dst' = Fault"
proof -
  obtain xs ys where l: "linked st src xs" "linked st dst ys" "set xs \<inter> set ys = {}"
    "st_nodes st 0 = None" "0 < st_brk st" "named_list st xs" "named_list st ys"
    and m: "m = MMessage (o_what src) (fields_at st xs)" "m' = MMessage (o_what dst) (fields_at st ys)"
    and ys: "xs = nodes_of (st, src)"
    using two_messages_linked [OF assms(1)] by metis
  have i: "i < length xs" using find_last_less [OF assms(5)] by (simp add: m)
  have a: "a = xs ! i" "a \<in> set xs" using assms(6) ys nth_mem [OF i] by auto
  have sg: "seg st 0 xs 0" using l(1) by (simp add: linked_def)
  obtain n where n: "st_nodes st a = Some n" using seg_node [OF sg a(2)] by blast
  have "n_field n \<in> set (m_fields m)"
    using imageI [OF a(2), of "field_at st"] field_at_node [OF n] by (simp add: m fields_at_def)
  then have "field_ok (n_field n)" using assms(3) by (simp add: msg_ok_fields list_all_iff)
  then obtain k' where cl: "CloneMMessageField E (n_field n) k = Ret (Some (n_field n), k')"
    using CloneMMessageField_complete [OF _ assms(4)] by blast
  obtain c st1 where new: "new_node st (n_field n) = (c, st1)" by (cases "new_node st (n_field n)")
  note l1 = new_node_linked [OF l(1) new] and l2 = new_node_linked [OF l(2) new]
  note look = Lookup_ptr_named [OF l(1) assms(2) l(6)] and look1 = Lookup_ptr_named [OF _ assms(2), of st1 dst ys]
  show ?thesis
  proof (cases "find_last (cstr nm) (fields_at st ys)")
    case None
    obtain st2 dst2 where e: "AddMMessageField_ptr st1 dst a = Ret (st2, dst2)" "chain st2 xs 0" "chain st2 ys a"
      "o_first dst2 = hd (ys @ [a])" "o_last dst2 = a" "st_brk st2 = st_brk st1"
      using add_shared [OF _ _ l(3) a(2)] l1 l2 by blast
    have "MMCopyField False E st src nm (Some dst) k = Ret (B_NO_ERROR, st2, Some dst2, k')"
      using look look1 assms(5) None l2 l(7) n cl new e(1) a(1)
      by (simp add: MMCopyField_def m named_list_def)
    moreover have "MMClearMessage_ptr st2 src = Ret (free_nodes st2 xs, src\<lparr>o_first := 0, o_last := 0, o_numFields := 0\<rparr>) \<and>
        MMClearMessage_ptr (free_nodes st2 xs) dst2 = Fault"
      by (rule clear_both [OF e(2,3) _ _ l(3)]) (use l1 l2 e a(2) in \<open>auto simp: linked_def\<close>)
    ultimately show ?thesis using None e(5) by (simp add: m find_last_None)
  next
    case (Some j)
    have j: "j < length ys" using find_last_less [OF Some] by simp
    obtain us vs where "ys = us @ (ys ! j) # vs" using split_list [OF nth_mem [OF j]] by blast
    then obtain st2 dst2 where e: "DetachMMessageField_ptr st1 dst (ys ! j) = Ret (st2, dst2)"
      "frame_ok (set ys) st1 st2"
      using DetachMMessageField_ptr_ok [of st1 dst us "ys ! j" vs] l2 by auto
    have "a \<noteq> 0" "a \<notin> set ys" using a(2) l(1,3) by (auto simp: linked_def)
    moreover have "seg st1 0 xs 0" using l1 by (simp add: linked_def)
    then obtain n1 where "st_nodes st1 a = Some n1" using seg_node [OF _ a(2)] by blast
    ultimately have "FreeMMessageField_ptr st2 a = Ret (free_node st2 a)"
      using FreeMMessageField_ptr_node frame_okD(3) [OF e(2)] by simp
    then have "MMCopyField False E st src nm (Some dst) k = Fault"
      using look look1 assms(5) Some l2 l(7) n cl new e(1) a(1) add_freed
      by (simp add: MMCopyField_def m named_list_def)
    moreover have "cstr nm \<in> set (names (m_fields m'))" using Some find_last_None [of "cstr nm" "fields_at st ys"] by (simp add: m)
    ultimately show ?thesis by simp
  qed
qed

theorem copy_field_shares_witness:
  "\<exists>st' dst' k' st'' src'. MMCopyField False ex_env ex_pair (ex_object 1) [97, 0] (Some (ex_object 2)) 0 =
      Ret (B_NO_ERROR, st', Some dst', k') \<and>
    o_last dst' = 1 \<and> MMClearMessage_ptr st' (ex_object 1) = Ret (st'', src') \<and> MMClearMessage_ptr st'' dst' = Fault"
proof -
  have "nodes_of (ex_pair, ex_object 1) ! 0 = 1"
    by (simp add: nodes_of_def ex_pair_def ex_object_def numeral_eq_Suc)
  moreover have "find_last (cstr [97, 0]) (m_fields ex_message) = Some 0"
    by (simp add: ex_message_def ex_int32_field_def)
  moreover note copy_field_shares [OF ex_pair_ok _ ex_message_ok ex_env_simps(5), where nm = "[97, 0]" and k = 0]
  ultimately show ?thesis by (fastforce simp: names_def)
qed

end
