(* ===== verification/Mini_Equal.thy ===== *)
theory Mini_Equal
  imports Mini_Put
begin

text \<open>
  \<open>MMAreMessagesEqual\<close> of \<^verbatim>\<open>minimessage/MiniMessage.c\<close>, and the equivalence of messages that
  it decides: the same what code and, name by name, the same fields, in any order. The
  shortcut for two equal pointers is left out; on well-formed messages it makes no difference,
  because every message is equal to itself.
\<close>

section \<open>The code\<close>

fun equal_bufs :: "bytes option list \<Rightarrow> bytes option list \<Rightarrow> bool run" where
  "equal_bufs [] ys = Ret True"
| "equal_bufs (x # xs) [] = Fault"
| "equal_bufs (x # xs) (y # ys) =
     (case (x, y) of
        (None, None) \<Rightarrow> equal_bufs xs ys
      | (Some a, Some b) \<Rightarrow> if MBAreByteBuffersEqual a b then equal_bufs xs ys else Ret False
      | _ \<Rightarrow> Ret False)"

definition memcmp_eq :: "nat \<Rightarrow> bytes \<Rightarrow> bytes \<Rightarrow> bool run" where
  "memcmp_eq n a b =
     bind_run (guard (n \<le> length a \<and> n \<le> length b)) (\<lambda>_. Ret (take n a = take n b))"

function (sequential) MMAreMessagesEqual :: "mmessage \<Rightarrow> mmessage \<Rightarrow> bool run"
  and equal_fields :: "mfield list \<Rightarrow> mmessage \<Rightarrow> bool run"
  and equal_data :: "mfield \<Rightarrow> mfield \<Rightarrow> bool run"
  and equal_msgs :: "mmessage option list \<Rightarrow> mmessage option list \<Rightarrow> bool run" where
  "MMAreMessagesEqual (MMessage w fs) msg2 =
     (if w \<noteq> m_what msg2 \<or> of_nat (length fs) \<noteq> m_numFields msg2 then Ret False
      else equal_fields fs msg2)"
| "equal_fields [] msg2 = Ret True"
| "equal_fields (f1 # fs) msg2 =
     bind_run (LookupMMessageField msg2 (f_name f1) (f_typeCode f1)) (\<lambda>r. case r of
       None \<Rightarrow> Ret False
     | Some i \<Rightarrow>
         let f2 = m_fields msg2 ! i in
         if f_numItems f2 \<noteq> f_numItems f1 \<or> f_typeCode f2 \<noteq> f_typeCode f1 then Ret False
         else bind_run (equal_data f1 f2) (\<lambda>eq. if eq then equal_fields fs msg2 else Ret False))"
| "equal_data (MField nm tc isz n d fl) f2 =
     (if IsTypeCodeVariableSize tc then
        if tc = B_MESSAGE_TYPE then
          (case d of
             Msgs xs \<Rightarrow> (case f_data f2 of
                 Msgs ys \<Rightarrow> bind_run (guard (length xs = unat n)) (\<lambda>_. equal_msgs xs ys)
               | _ \<Rightarrow> Fault)
           | _ \<Rightarrow> Fault)
        else
          (case d of
             Bufs xs \<Rightarrow> (case f_data f2 of
                 Bufs ys \<Rightarrow> bind_run (guard (length xs = unat n)) (\<lambda>_. equal_bufs xs ys)
               | _ \<Rightarrow> Fault)
           | _ \<Rightarrow> Fault)
      else
        (case d of
           Flat a \<Rightarrow> (case f_data f2 of
               Flat b \<Rightarrow> memcmp_eq (unat (n * isz)) a b
             | _ \<Rightarrow> Fault)
         | _ \<Rightarrow> Fault))"
| "equal_msgs [] ys = Ret True"
| "equal_msgs (x # xs) ys =
     (case ys of
        [] \<Rightarrow> Fault
      | y # ys' \<Rightarrow>
          (case x of
             None \<Rightarrow> if y = None then equal_msgs xs ys' else Ret False
           | Some a \<Rightarrow> (case y of
               None \<Rightarrow> Ret False
             | Some b \<Rightarrow> bind_run (MMAreMessagesEqual a b) (\<lambda>eq.
                 if eq then equal_msgs xs ys' else Ret False))))"
  by pat_completeness auto
termination
  by (relation "measure (\<lambda>t. case t of
        Inl (Inl (m, _)) \<Rightarrow> size m
      | Inl (Inr (fs, _)) \<Rightarrow> size_list size fs
      | Inr (Inl (f, _)) \<Rightarrow> size f
      | Inr (Inr (xs, _)) \<Rightarrow> size_list (size_option size) xs)") auto

section \<open>The equivalence\<close>

fun data_equiv :: "(mmessage \<Rightarrow> mmessage \<Rightarrow> bool) \<Rightarrow> mdata \<Rightarrow> mdata \<Rightarrow> bool" where
  "data_equiv R (Flat a) (Flat b) \<longleftrightarrow> a = b"
| "data_equiv R (Bufs xs) (Bufs ys) \<longleftrightarrow> xs = ys"
| "data_equiv R (Msgs xs) (Msgs ys) \<longleftrightarrow> list_all2 (rel_option R) xs ys"
| "data_equiv R _ _ \<longleftrightarrow> False"

definition field_equiv :: "(mmessage \<Rightarrow> mmessage \<Rightarrow> bool) \<Rightarrow> mfield \<Rightarrow> mfield \<Rightarrow> bool" where
  "field_equiv R f g \<longleftrightarrow> cstr (f_name f) = cstr (f_name g) \<and> f_typeCode f = f_typeCode g \<and>
     f_numItems f = f_numItems g \<and> data_equiv R (f_data f) (f_data g)"

lemma data_equiv_mono:
  "(\<And>x y. R x y \<Longrightarrow> S x y) \<Longrightarrow> data_equiv R d e \<Longrightarrow> data_equiv S d e"
  by (cases "(R, d, e)" rule: data_equiv.cases)
    (auto elim!: list_all2_mono option.rel_mono_strong)

lemma field_equiv_mono [mono]:
  "(\<And>x y. R x y \<longrightarrow> S x y) \<Longrightarrow> field_equiv R f g \<longrightarrow> field_equiv S f g"
  unfolding field_equiv_def using data_equiv_mono [of R S] by blast

inductive msg_equiv :: "mmessage \<Rightarrow> mmessage \<Rightarrow> bool" where
  "length fs = length gs \<Longrightarrow> \<forall>f \<in> set fs. \<exists>g \<in> set gs. field_equiv msg_equiv f g \<Longrightarrow>
    msg_equiv (MMessage w fs) (MMessage w gs)"

inductive_simps msg_equiv_iff: "msg_equiv (MMessage w fs) (MMessage v gs)"

text \<open>The number of fields is kept in 32 bits.\<close>

inductive few_fields :: "mmessage \<Rightarrow> bool" where
  "length fs < 2 ^ 32 \<Longrightarrow>
    (\<And>f xs m. f \<in> set fs \<Longrightarrow> f_data f = Msgs xs \<Longrightarrow> Some m \<in> set xs \<Longrightarrow> few_fields m) \<Longrightarrow>
    few_fields (MMessage w fs)"

inductive_simps few_fields_iff: "few_fields (MMessage w fs)"

lemma few_fields_item:
  assumes "few_fields m" "f \<in> set (m_fields m)" "f_data f = Msgs xs" "Some a \<in> set xs"
  shows "few_fields a"
  using assms by (cases rule: few_fields.cases) (metis mmessage.sel(2))

lemma msg_ok_item:
  assumes "msg_ok m" "f \<in> set (m_fields m)" "f_data f = Msgs xs" "Some a \<in> set xs"
  shows "msg_ok a"
  using assms by (cases rule: msg_ok.cases) (metis mmessage.sel(2))

section \<open>The code decides the equivalence\<close>

lemma equal_bufs_spec: "length xs = length ys \<Longrightarrow> equal_bufs xs ys = Ret (xs = ys)"
  by (induction xs ys rule: equal_bufs.induct) (auto split: option.split)

lemma equal_msgs_spec:
  assumes "length xs = length ys"
    and "\<And>a b. Some a \<in> set xs \<Longrightarrow> Some b \<in> set ys \<Longrightarrow> MMAreMessagesEqual a b = Ret (msg_equiv a b)"
  shows "equal_msgs xs ys = Ret (list_all2 (rel_option msg_equiv) xs ys)"
  using assms by (induction xs ys rule: list_induct2) (auto split: option.split)

lemma equal_data_spec:
  assumes "header_ok f" "header_ok g" "f_typeCode f = f_typeCode g" "f_numItems f = f_numItems g"
    and IH: "\<And>xs ys a b. f_data f = Msgs xs \<Longrightarrow> f_data g = Msgs ys \<Longrightarrow> Some a \<in> set xs \<Longrightarrow>
      Some b \<in> set ys \<Longrightarrow> MMAreMessagesEqual a b = Ret (msg_equiv a b)"
  shows "equal_data f g = Ret (data_equiv msg_equiv (f_data f) (f_data g))"
proof (cases f)
  case (MField nm tc isz n d fl)
  show ?thesis
  proof (cases d)
    case (Flat a)
    then obtain b where b: "f_data g = Flat b" "length b = unat n * unat isz"
      using assms(1-4) MField by (cases g) (auto split: mdata.splits simp: IsTypeCodeVariableSize_simps)
    have a: "length a = unat n * unat isz" "length a < 2 ^ 32" "\<not> IsTypeCodeVariableSize tc"
      using assms(1) MField Flat by auto
    have "unat (n * isz) = unat n * unat isz" by (rule unat_mult_small) (use a in simp)
    then show ?thesis using a b by (simp add: MField Flat memcmp_eq_def)
  next
    case (Bufs xs)
    then obtain ys where "f_data g = Bufs ys" "length ys = unat n"
      using assms(1-4) MField by (cases g) (auto split: mdata.splits)
    then show ?thesis using assms(1) Bufs MField by (simp add: equal_bufs_spec)
  next
    case (Msgs xs)
    then obtain ys where ys: "f_data g = Msgs ys" "length ys = unat n"
      using assms(1-4) MField by (cases g) (auto split: mdata.splits)
    then have "equal_msgs xs ys = Ret (list_all2 (rel_option msg_equiv) xs ys)"
      using IH [of xs ys] MField Msgs assms(1) by (intro equal_msgs_spec) auto
    then show ?thesis using ys assms(1) Msgs MField by simp
  qed
qed

lemma unique_field:
  assumes "distinct (names fs)" "i < length fs" "g \<in> set fs" "cstr (f_name g) = cstr (f_name (fs ! i))"
  shows "g = fs ! i"
proof -
  obtain j where j: "j < length fs" "g = fs ! j" using assms(3) by (auto simp: in_set_conv_nth)
  have "names fs ! j = names fs ! i" using assms(2,4) j by simp
  then have "j = i" using nth_eq_iff_index_eq [OF assms(1)] assms(2) j(1) by simp
  with j show ?thesis by simp
qed

lemma equal_fields_spec:
  assumes "list_all header_ok fs" "msg_ok m"
    and "\<And>f g xs ys a b. f \<in> set fs \<Longrightarrow> g \<in> set (m_fields m) \<Longrightarrow> f_data f = Msgs xs \<Longrightarrow>
      f_data g = Msgs ys \<Longrightarrow> Some a \<in> set xs \<Longrightarrow> Some b \<in> set ys \<Longrightarrow>
      MMAreMessagesEqual a b = Ret (msg_equiv a b)"
  shows "equal_fields fs m = Ret (\<forall>f \<in> set fs. \<exists>g \<in> set (m_fields m). field_equiv msg_equiv f g)"
  using assms
proof (induction fs)
  case (Cons f fs)
  let ?gs = "m_fields m"
  have IH: "equal_fields fs m = Ret (\<forall>f \<in> set fs. \<exists>g \<in> set ?gs. field_equiv msg_equiv f g)"
  proof (rule Cons.IH)
    show "MMAreMessagesEqual a b = Ret (msg_equiv a b)"
      if "h \<in> set fs" "g \<in> set ?gs" "f_data h = Msgs xs" "f_data g = Msgs ys"
        "Some a \<in> set xs" "Some b \<in> set ys" for h g xs ys a b
      by (rule Cons.prems(3) [OF _ that(2-6)]) (use that(1) in simp)
  qed (use Cons.prems(1,2) in simp_all)
  have nul: "0 \<in> set (f_name f)" using Cons.prems(1) by (simp add: header_ok_name name_ok_nul)
  have look: "LookupMMessageField m (f_name f) (f_typeCode f) =
      Ret (case find_last (cstr (f_name f)) ?gs of None \<Rightarrow> None
         | Some i \<Rightarrow> if f_typeCode f = B_ANY_TYPE \<or> f_typeCode f = f_typeCode (?gs ! i) then Some i else None)"
    by (rule LookupMMessageField_ok [OF Cons.prems(2) nul])
  show ?case
  proof (cases "find_last (cstr (f_name f)) ?gs")
    case None
    then have "\<not> (\<exists>g \<in> set ?gs. field_equiv msg_equiv f g)"
      by (auto simp: find_last_None field_equiv_def set_names)
    then show ?thesis using look None by simp
  next
    case (Some i)
    then have i: "i < length ?gs" "cstr (f_name (?gs ! i)) = cstr (f_name f)"
      using find_last_Some [OF Some] by simp_all
    have "g = ?gs ! i" if "g \<in> set ?gs" "field_equiv msg_equiv f g" for g
      using unique_field [OF _ i(1) that(1)] Cons.prems(2) i(2) that(2)
      by (simp add: msg_ok_fields field_equiv_def)
    then have uniq: "(\<exists>g \<in> set ?gs. field_equiv msg_equiv f g) = field_equiv msg_equiv f (?gs ! i)"
      using nth_mem [OF i(1)] by blast
    show ?thesis
    proof (cases "f_numItems (?gs ! i) = f_numItems f \<and> f_typeCode (?gs ! i) = f_typeCode f")
      case False
      then show ?thesis using look Some uniq by (auto simp: field_equiv_def Let_def)
    next
      case True
      have "header_ok (?gs ! i)"
        using Cons.prems(2) i(1) by (simp add: msg_ok_fields list_all_length field_ok_def)
      then have "equal_data f (?gs ! i) = Ret (data_equiv msg_equiv (f_data f) (f_data (?gs ! i)))"
        proof (rule equal_data_spec [rotated])
        show "MMAreMessagesEqual a b = Ret (msg_equiv a b)"
          if "f_data f = Msgs xs" "f_data (?gs ! i) = Msgs ys" "Some a \<in> set xs" "Some b \<in> set ys"
          for xs ys a b
          by (rule Cons.prems(3) [OF _ nth_mem [OF i(1)] that]) simp
      qed (use Cons.prems(1) True in simp_all)
      then show ?thesis using look Some uniq IH True i(2) by (simp add: field_equiv_def)
    qed
  qed
qed simp

lemma MMAreMessagesEqual_spec:
  assumes "msg_ok m1" "msg_ok m2" "few_fields m1" "few_fields m2"
  shows "MMAreMessagesEqual m1 m2 = Ret (msg_equiv m1 m2)"
  using assms
proof (induction m1 arbitrary: m2 rule: mmessage_induct)
  case (MMessage w fs)
  obtain v gs where m2: "m2 = MMessage v gs" by (cases m2)
  have "length fs < 2 ^ 32" "length gs < 2 ^ 32"
    using MMessage.prems(3,4) by (simp_all add: few_fields_iff m2)
  then have "(of_nat (length fs) :: u32) = of_nat (length gs) \<longleftrightarrow> length fs = length gs"
    by (metis unat_of_nat_u32)
  moreover have "equal_fields fs m2 = Ret (\<forall>f \<in> set fs. \<exists>g \<in> set (m_fields m2). field_equiv msg_equiv f g)"
  proof (rule equal_fields_spec)
    show "MMAreMessagesEqual a b = Ret (msg_equiv a b)"
      if "f \<in> set fs" "g \<in> set (m_fields m2)" "f_data f = Msgs xs" "f_data g = Msgs ys"
        "Some a \<in> set xs" "Some b \<in> set ys" for f g xs ys a b
    proof (rule MMessage.IH [OF that(1,3,5)])
      show "msg_ok a" "few_fields a"
        using msg_ok_item [OF MMessage.prems(1) _ that(3,5)]
          few_fields_item [OF MMessage.prems(3) _ that(3,5)] that(1) by simp_all
      show "msg_ok b" "few_fields b"
        using msg_ok_item [OF MMessage.prems(2) that(2,4,6)]
          few_fields_item [OF MMessage.prems(4) that(2,4,6)] by simp_all
    qed
  qed (use MMessage.prems(1,2) in \<open>simp_all add: msg_ok_iff\<close>)
  ultimately show ?case by (auto simp: m2 msg_equiv_iff m_numFields_def)
qed

section \<open>It is an equivalence\<close>

lemma data_equiv_refl:
  assumes "\<And>xs m. d = Msgs xs \<Longrightarrow> Some m \<in> set xs \<Longrightarrow> R m m"
  shows "data_equiv R d d"
proof (cases d)
  case (Msgs xs)
  then have "rel_option R x x" if "x \<in> set xs" for x
    using assms that by (cases x) auto
  then show ?thesis by (simp add: Msgs list_all2_same)
qed simp_all

lemma msg_equiv_refl: "msg_equiv m m"
proof (induction m rule: mmessage_induct)
  case (MMessage w fs)
  have "field_equiv msg_equiv f f" if "f \<in> set fs" for f
    using MMessage [OF that] data_equiv_refl [of "f_data f" msg_equiv] by (simp add: field_equiv_def)
  then show ?case by (auto simp: msg_equiv_iff)
qed

lemma data_equiv_trans:
  assumes "data_equiv R d1 d2" "data_equiv R d2 d3"
    and "\<And>xs x y z. d1 = Msgs xs \<Longrightarrow> Some x \<in> set xs \<Longrightarrow> R x y \<Longrightarrow> R y z \<Longrightarrow> R x z"
  shows "data_equiv R d1 d3"
proof (cases d1)
  case (Msgs xs)
  then obtain ys zs where yz: "d2 = Msgs ys" "d3 = Msgs zs"
    using assms(1,2) by (cases d2; cases d3) auto
  have "rel_option R x z" if "x \<in> set xs" "rel_option R x y" "rel_option R y z" for x y z
    by (cases x; cases y; cases z) (use that assms(3) [OF Msgs] in auto)
  then show ?thesis
    using assms(1,2) unfolding Msgs yz by (auto simp: list_all2_conv_all_nth)
qed (use assms(1,2) in \<open>cases d2; cases d3; auto\<close>)+

lemma msg_equiv_trans: "msg_equiv a b \<Longrightarrow> msg_equiv b c \<Longrightarrow> msg_equiv a c"
proof (induction a arbitrary: b c rule: mmessage_induct)
  case (MMessage w fs)
  obtain v gs u hs where bc: "b = MMessage v gs" "c = MMessage u hs" by (cases b; cases c)
  have "\<exists>h \<in> set hs. field_equiv msg_equiv f h" if f: "f \<in> set fs" for f
  proof -
    obtain g where g: "g \<in> set gs" "field_equiv msg_equiv f g"
      using MMessage.prems(1) f by (auto simp: bc msg_equiv_iff)
    then obtain h where h: "h \<in> set hs" "field_equiv msg_equiv g h"
      using MMessage.prems(2) by (auto simp: bc msg_equiv_iff)
    have "data_equiv msg_equiv (f_data f) (f_data h)"
      by (rule data_equiv_trans [of _ _ "f_data g"])
        (use g(2) h(2) MMessage.IH [OF f] in \<open>auto simp: field_equiv_def\<close>)
    then show ?thesis using g(2) h by (auto simp: field_equiv_def)
  qed
  then show ?case using MMessage.prems by (auto simp: bc msg_equiv_iff)
qed

lemma data_equiv_sym:
  assumes "data_equiv R d1 d2"
    and "\<And>xs ys x y. d1 = Msgs xs \<Longrightarrow> d2 = Msgs ys \<Longrightarrow> Some x \<in> set xs \<Longrightarrow> Some y \<in> set ys \<Longrightarrow>
      R x y \<Longrightarrow> R y x"
  shows "data_equiv R d2 d1"
proof (cases d1)
  case (Msgs xs)
  then obtain ys where ys: "d2 = Msgs ys"
    using assms(1) by (cases d2) auto
  have "rel_option R y x" if "x \<in> set xs" "y \<in> set ys" "rel_option R x y" for x y
    by (cases x; cases y) (use that assms(2) [OF Msgs ys] in auto)
  then show ?thesis
    using assms(1) unfolding Msgs ys by (auto simp: list_all2_conv_all_nth)
qed (use assms(1) in \<open>cases d2; auto\<close>)+

lemma msg_equiv_sym: "msg_ok a \<Longrightarrow> msg_ok b \<Longrightarrow> msg_equiv a b \<Longrightarrow> msg_equiv b a"
proof (induction a arbitrary: b rule: mmessage_induct)
  case (MMessage w fs)
  obtain v gs where b: "b = MMessage v gs" by (cases b)
  have len: "length fs = length gs" and v: "w = v"
    and ex: "\<And>f. f \<in> set fs \<Longrightarrow> \<exists>g \<in> set gs. field_equiv msg_equiv f g"
    using MMessage.prems(3) by (auto simp: b msg_equiv_iff)
  have dist: "distinct (names fs)" "distinct (names gs)"
    using MMessage.prems(1,2) by (auto simp: b)
  have "set (names fs) \<subseteq> set (names gs)"
    using ex by (fastforce simp: set_names field_equiv_def)
  moreover have "card (set (names fs)) = card (set (names gs))"
    using dist len by (simp add: distinct_card)
  ultimately have same: "set (names fs) = set (names gs)"
    by (intro card_subset_eq) auto
  have "\<exists>f \<in> set fs. field_equiv msg_equiv g f" if g: "g \<in> set gs" for g
  proof -
    obtain f where f: "f \<in> set fs" "cstr (f_name f) = cstr (f_name g)"
      using g same unfolding set_names by (metis (no_types, lifting) imageE image_eqI)
    obtain g' where g': "g' \<in> set gs" "field_equiv msg_equiv f g'" using ex [OF f(1)] by blast
    obtain i where i: "i < length gs" "g = gs ! i" using g by (auto simp: in_set_conv_nth)
    have "cstr (f_name g') = cstr (f_name (gs ! i))"
      using f(2) g'(2) unfolding i(2) [symmetric] field_equiv_def by metis
    from unique_field [OF dist(2) i(1) g'(1) this] have "g' = g" unfolding i(2) .
    then have fg: "field_equiv msg_equiv f g" using g' by simp
    have "data_equiv msg_equiv (f_data g) (f_data f)"
    proof (rule data_equiv_sym)
      show "data_equiv msg_equiv (f_data f) (f_data g)" using fg by (simp add: field_equiv_def)
      show "msg_equiv y x" if "f_data f = Msgs xs" "f_data g = Msgs ys" "Some x \<in> set xs"
          "Some y \<in> set ys" "msg_equiv x y" for xs ys x y
        using msg_ok_item [OF MMessage.prems(1) _ that(1,3)] f(1)
          msg_ok_item [OF MMessage.prems(2) _ that(2,4)] g that(5)
        by (intro MMessage.IH [OF f(1) that(1,3)]) (simp_all add: b)
    qed
    then show ?thesis using fg by (intro bexI [OF _ f(1)]) (simp add: field_equiv_def)
  qed
  then show ?case using len v by (simp add: b msg_equiv_iff)
qed

section \<open>The properties of the comparison\<close>

text \<open>
  C13: On well-formed messages the comparison never leaves the memory of the messages and
  returns true exactly if they have the same what code and, in whatever order, the same
  fields: name, type, number of items and contents, at any depth.
\<close>

theorem comparison_decides_equivalence:
  assumes "msg_ok m1" "msg_ok m2" "few_fields m1" "few_fields m2"
  shows "MMAreMessagesEqual m1 m2 = Ret (msg_equiv m1 m2)"
  by (rule MMAreMessagesEqual_spec [OF assms])

definition ex_two_fields :: "bool \<Rightarrow> mmessage" where
  "ex_two_fields flip = (let f = MField [98, 0] B_BOOL_TYPE 1 1 (Flat [1]) True in
     MMessage 7 (if flip then [f, ex_int32_field] else [ex_int32_field, f]))"

lemma ex_two_fields_ok [simp]: "msg_ok (ex_two_fields b)" "few_fields (ex_two_fields b)"
proof -
  have "B_BOOL_TYPE \<noteq> B_POINTER_TYPE" by (simp add: type_code_defs)
  then show "msg_ok (ex_two_fields b)" "few_fields (ex_two_fields b)"
    by (auto simp: ex_two_fields_def ex_int32_field_def Let_def msg_ok_iff few_fields_iff name_ok_def)
qed

theorem comparison_decides_equivalence_witness:
  "MMAreMessagesEqual (ex_two_fields True) (ex_two_fields False) = Ret True \<and>
   MMAreMessagesEqual (ex_two_fields True) ex_message = Ret False"
proof
  have "msg_equiv (ex_two_fields True) (ex_two_fields False)"
    by (simp add: ex_two_fields_def msg_equiv_iff field_equiv_def ex_int32_field_def Let_def)
  then show "MMAreMessagesEqual (ex_two_fields True) (ex_two_fields False) = Ret True"
    using comparison_decides_equivalence [OF ex_two_fields_ok(1,1) ex_two_fields_ok(2,2)] by simp
  have few: "few_fields ex_message" by (simp add: ex_message_def ex_int32_field_def few_fields_iff)
  have "\<not> msg_equiv (ex_two_fields True) ex_message"
    by (simp add: ex_two_fields_def msg_equiv_iff ex_message_def Let_def)
  then show "MMAreMessagesEqual (ex_two_fields True) ex_message = Ret False"
    using comparison_decides_equivalence [OF ex_two_fields_ok(1) ex_message_ok ex_two_fields_ok(2) few]
    by simp
qed

text \<open>
  The comparison is an equivalence relation on well-formed messages, although it only
  looks the fields of the first message up in the second.
\<close>

theorem comparison_is_equivalence:
  assumes "msg_ok a" "msg_ok b" "msg_ok c" "few_fields a" "few_fields b" "few_fields c"
  shows "MMAreMessagesEqual a a = Ret True \<and> MMAreMessagesEqual a b = MMAreMessagesEqual b a \<and>
    (MMAreMessagesEqual a b = Ret True \<longrightarrow> MMAreMessagesEqual b c = Ret True \<longrightarrow>
     MMAreMessagesEqual a c = Ret True)"
  using assms msg_equiv_refl [of a] msg_equiv_sym [of a b] msg_equiv_sym [of b a] msg_equiv_trans [of a b c]
  by (auto simp: MMAreMessagesEqual_spec)

theorem comparison_is_equivalence_witness:
  "MMAreMessagesEqual (ex_two_fields True) (ex_two_fields True) = Ret True \<and>
   MMAreMessagesEqual (ex_two_fields True) (ex_two_fields False) =
     MMAreMessagesEqual (ex_two_fields False) (ex_two_fields True)"
  using comparison_is_equivalence [OF ex_two_fields_ok(1,1,1) ex_two_fields_ok(2,2,2), of True False True]
  by blast

end
