(* ===== verification/Queue_Model.thy ===== *)
theory Queue_Model
  imports Muscle_Prelude
begin

text \<open>
  The double-ended queue of \<^verbatim>\<open>util/Queue.h\<close>: a ring buffer that starts in an array inside the
  object and moves to the heap when it grows. \<open>ItemType()\<close> is \<open>default\<close>, and the
  allocator is a parameter: \<open>alloc n\<close> is the array that \<open>newnothrow ItemType[n]\<close> returns, as
  it is initialised, or \<open>None\<close> for \<open>NULL\<close>. Two queues that an operation takes are
  two objects, and items are passed by value.
\<close>

section \<open>The object\<close>

definition SMALL_QUEUE_SIZE :: nat where "SMALL_QUEUE_SIZE = 3"

text \<open>Where \<open>_queue\<close> points: nowhere, to \<open>_smallQueue\<close> or to an array on the heap.\<close>

datatype 'a qptr = QNull | QSmall | QHeap "'a list"

record 'a queue =
  q_smallQueue :: "'a list"
  q_queue :: "'a qptr"
  q_queueSize :: u32
  q_itemCount :: u32
  q_headIndex :: u32
  q_tailIndex :: u32
  q_initialSize :: u32

text \<open>The constructor; \<open>small\<close>, \<open>h\<close> and \<open>t\<close> are what the memory of the members holds.\<close>

definition Queue_new :: "u32 \<Rightarrow> 'a list \<Rightarrow> u32 \<Rightarrow> u32 \<Rightarrow> 'a queue" where
  "Queue_new initialSize small h t =
     \<lparr>q_smallQueue = small, q_queue = QNull, q_queueSize = 0, q_itemCount = 0, q_headIndex = h,
      q_tailIndex = t, q_initialSize = initialSize\<rparr>"

definition slots :: "'a queue \<Rightarrow> 'a list" where
  "slots q = (case q_queue q of QNull \<Rightarrow> [] | QSmall \<Rightarrow> q_smallQueue q | QHeap xs \<Rightarrow> xs)"

definition set_slots :: "'a queue \<Rightarrow> 'a list \<Rightarrow> 'a queue" where
  "set_slots q xs = (case q_queue q of
     QNull \<Rightarrow> q | QSmall \<Rightarrow> q\<lparr>q_smallQueue := xs\<rparr> | QHeap _ \<Rightarrow> q\<lparr>q_queue := QHeap xs\<rparr>)"

text \<open>\<open>_queue[i]\<close> as a value and as the target of an assignment.\<close>

definition read_slot :: "'a queue \<Rightarrow> u32 \<Rightarrow> 'a run" where
  "read_slot q i = bind_run (guard (unat i < length (slots q))) (\<lambda>_. Ret (slots q ! unat i))"

definition write_slot :: "'a queue \<Rightarrow> u32 \<Rightarrow> 'a \<Rightarrow> 'a queue run" where
  "write_slot q i x =
     bind_run (guard (unat i < length (slots q))) (\<lambda>_. Ret (set_slots q ((slots q)[unat i := x])))"

definition NextIndex :: "'a queue \<Rightarrow> u32 \<Rightarrow> u32" where
  "NextIndex q idx = (if idx \<ge> q_queueSize q - 1 then 0 else idx + 1)"

definition PrevIndex :: "'a queue \<Rightarrow> u32 \<Rightarrow> u32" where
  "PrevIndex q idx = (if idx = 0 then q_queueSize q - 1 else idx - 1)"

definition InternalizeIndex :: "'a queue \<Rightarrow> u32 \<Rightarrow> u32 run" where
  "InternalizeIndex q idx =
     bind_run (guard (q_queueSize q \<noteq> 0)) (\<lambda>_. Ret ((q_headIndex q + idx) mod q_queueSize q))"

definition GetNumItems :: "'a queue \<Rightarrow> u32" where "GetNumItems q = q_itemCount q"

section \<open>Single items\<close>

text \<open>\<open>GetItemAt\<close> with a place for the item, and the one that returns a pointer (here: what it points to).\<close>

definition GetItemAt :: "'a queue \<Rightarrow> u32 \<Rightarrow> (status \<times> 'a option) run" where
  "GetItemAt q index =
     (if index \<ge> q_itemCount q then Ret (B_ERROR, None)
      else bind_run (InternalizeIndex q index) (\<lambda>i. bind_run (read_slot q i) (\<lambda>x. Ret (B_NO_ERROR, Some x))))"

definition GetItemPointer :: "'a queue \<Rightarrow> u32 \<Rightarrow> 'a run" where
  "GetItemPointer q i = bind_run (InternalizeIndex q i) (\<lambda>i. read_slot q i)"

definition Queue_at :: "'a queue \<Rightarrow> u32 \<Rightarrow> 'a run" where
  "Queue_at q i =
     bind_run (guard (i < q_itemCount q)) (\<lambda>_. bind_run (InternalizeIndex q i) (\<lambda>i. read_slot q i))"

definition Queue_at_put :: "'a queue \<Rightarrow> u32 \<Rightarrow> 'a \<Rightarrow> 'a queue run" where
  "Queue_at_put q i x =
     bind_run (guard (i < q_itemCount q)) (\<lambda>_. bind_run (InternalizeIndex q i) (\<lambda>i. write_slot q i x))"

definition ReplaceItemAt :: "'a queue \<Rightarrow> u32 \<Rightarrow> 'a \<Rightarrow> (status \<times> 'a queue) run" where
  "ReplaceItemAt q index newItem =
     (if index \<ge> q_itemCount q then Ret (B_ERROR, q)
      else bind_run (InternalizeIndex q index) (\<lambda>i.
             bind_run (write_slot q i newItem) (\<lambda>q. Ret (B_NO_ERROR, q))))"

text \<open>The index of the removed slot is kept in an \<open>int\<close>, so it must not reach \<open>2\<^sup>3\<^sup>1\<close>.\<close>

definition RemoveHead :: "('a :: default) queue \<Rightarrow> (status \<times> 'a queue) run" where
  "RemoveHead q =
     (if q_itemCount q = 0 then Ret (B_ERROR, q)
      else
        let oldHeadIndex = q_headIndex q;
            q = q\<lparr>q_headIndex := NextIndex q (q_headIndex q), q_itemCount := q_itemCount q - 1\<rparr>
        in bind_run (guard (oldHeadIndex < 2 ^ 31)) (\<lambda>_.
           bind_run (write_slot q oldHeadIndex default) (\<lambda>q. Ret (B_NO_ERROR, q))))"

definition RemoveHead_item :: "('a :: default) queue \<Rightarrow> (status \<times> 'a option \<times> 'a queue) run" where
  "RemoveHead_item q =
     (if q_itemCount q = 0 then Ret (B_ERROR, None, q)
      else bind_run (read_slot q (q_headIndex q)) (\<lambda>x.
             bind_run (RemoveHead q) (\<lambda>(st, q). Ret (st, Some x, q))))"

definition RemoveTail :: "('a :: default) queue \<Rightarrow> (status \<times> 'a queue) run" where
  "RemoveTail q =
     (if q_itemCount q = 0 then Ret (B_ERROR, q)
      else
        let removedItemIndex = q_tailIndex q;
            q = q\<lparr>q_tailIndex := PrevIndex q (q_tailIndex q), q_itemCount := q_itemCount q - 1\<rparr>
        in bind_run (guard (removedItemIndex < 2 ^ 31)) (\<lambda>_.
           bind_run (write_slot q removedItemIndex default) (\<lambda>q. Ret (B_NO_ERROR, q))))"

definition RemoveTail_item :: "('a :: default) queue \<Rightarrow> (status \<times> 'a option \<times> 'a queue) run" where
  "RemoveTail_item q =
     (if q_itemCount q = 0 then Ret (B_ERROR, None, q)
      else bind_run (read_slot q (q_tailIndex q)) (\<lambda>x.
             bind_run (RemoveTail q) (\<lambda>(st, q). Ret (st, Some x, q))))"

section \<open>Growing, shrinking and clearing\<close>

text \<open>Copying the first items, in order, to the start of a new array.\<close>

fun copy_items :: "'a queue \<Rightarrow> nat \<Rightarrow> u32 \<Rightarrow> 'a list \<Rightarrow> 'a list run" where
  "copy_items q 0 i newQueue = Ret newQueue"
| "copy_items q (Suc n) i newQueue =
     bind_run (GetItemAt q i) (\<lambda>(st, x). case x of
       Some x \<Rightarrow> bind_run (guard (unat i < length newQueue)) (\<lambda>_.
                   copy_items q n (i + 1) (newQueue[unat i := x]))
     | None \<Rightarrow> copy_items q n (i + 1) newQueue)"

text \<open>\<open>while(_itemCount > sz) RemoveTail()\<close>, with a unit of fuel for each round.\<close>

fun shrink :: "nat \<Rightarrow> ('a :: default) queue \<Rightarrow> u32 \<Rightarrow> 'a queue run" where
  "shrink 0 q sz = (if q_itemCount q > sz then NoFuel else Ret q)"
| "shrink (Suc n) q sz =
     (if q_itemCount q > sz then bind_run (RemoveTail q) (\<lambda>(_, q). shrink n q sz) else Ret q)"

definition grow :: "(u32 \<Rightarrow> ('a :: default) list option) \<Rightarrow> 'a queue \<Rightarrow> u32 \<Rightarrow> bool \<Rightarrow> u32 \<Rightarrow> (status \<times> 'a queue) run" where
  "grow alloc q sz setNumItems extraPreallocs =
     (let sqLen = of_nat SMALL_QUEUE_SIZE;
          temp = sz + extraPreallocs;
          newQLen = max (q_initialSize q) (if setNumItems \<or> temp \<le> sqLen then max sqLen temp else temp);
          onHeap = (q_queue q = QSmall \<or> newQLen > sqLen)
      in case (if onHeap then alloc newQLen else Some (q_smallQueue q)) of
           None \<Rightarrow> Ret (B_ERROR, q)
         | Some newQueue \<Rightarrow>
             let newQLen = (if onHeap then newQLen else sqLen)
             in bind_run (copy_items q (unat (q_itemCount q)) 0 newQueue) (\<lambda>newQueue.
                  let itemCount = (if setNumItems then sz else q_itemCount q);
                      q = q\<lparr>q_itemCount := itemCount, q_headIndex := 0, q_tailIndex := itemCount - 1\<rparr>;
                      q = (if q_queue q = QSmall
                           then q\<lparr>q_smallQueue := replicate SMALL_QUEUE_SIZE default\<rparr> else q);
                      q = (if onHeap then q\<lparr>q_queue := QHeap newQueue\<rparr>
                           else q\<lparr>q_queue := QSmall, q_smallQueue := newQueue\<rparr>)
                  in Ret (B_NO_ERROR, q\<lparr>q_queueSize := newQLen\<rparr>)))"

definition set_count :: "('a :: default) queue \<Rightarrow> u32 \<Rightarrow> 'a queue run" where
  "set_count q sz =
     (if q_itemCount q < sz then
        bind_run (guard (q_queueSize q \<noteq> 0)) (\<lambda>_.
          Ret (q\<lparr>q_tailIndex := (q_tailIndex q + (sz - q_itemCount q)) mod q_queueSize q,
                 q_itemCount := sz\<rparr>))
      else shrink (unat (q_itemCount q)) q sz)"

definition EnsureSize :: "(u32 \<Rightarrow> ('a :: default) list option) \<Rightarrow> 'a queue \<Rightarrow> u32 \<Rightarrow> bool \<Rightarrow> u32 \<Rightarrow> (status \<times> 'a queue) run" where
  "EnsureSize alloc q sz setNumItems extraPreallocs =
     bind_run (if q_queue q = QNull \<or> q_queueSize q < sz
               then grow alloc q sz setNumItems extraPreallocs else Ret (B_NO_ERROR, q)) (\<lambda>(st, q).
       if st = B_ERROR then Ret (B_ERROR, q)
       else if setNumItems then bind_run (set_count q sz) (\<lambda>q. Ret (B_NO_ERROR, q))
       else Ret (B_NO_ERROR, q))"

fun clear_loop :: "nat \<Rightarrow> ('a :: default) queue \<Rightarrow> 'a queue run" where
  "clear_loop 0 q = NoFuel"
| "clear_loop (Suc n) q =
     bind_run (RemoveTail q) (\<lambda>(st, q). if st = B_NO_ERROR then clear_loop n q else Ret q)"

definition Clear :: "('a :: default) queue \<Rightarrow> bool \<Rightarrow> 'a queue run" where
  "Clear q releaseCachedBuffers =
     (if releaseCachedBuffers \<and> q_queue q \<noteq> QSmall
      then Ret (q\<lparr>q_queue := QNull, q_queueSize := 0, q_itemCount := 0\<rparr>)
      else clear_loop (Suc (unat (q_itemCount q))) q)"

section \<open>Adding\<close>

definition AddTail :: "(u32 \<Rightarrow> ('a :: default) list option) \<Rightarrow> 'a queue \<Rightarrow> 'a \<Rightarrow> (status \<times> 'a queue) run" where
  "AddTail alloc q item =
     bind_run (EnsureSize alloc q (q_itemCount q + 1) False (q_itemCount q + 1)) (\<lambda>(st, q).
       if st = B_ERROR then Ret (B_ERROR, q)
       else
         let q = (if q_itemCount q = 0 then q\<lparr>q_headIndex := 0, q_tailIndex := 0\<rparr>
                  else q\<lparr>q_tailIndex := NextIndex q (q_tailIndex q)\<rparr>)
         in bind_run (write_slot q (q_tailIndex q) item) (\<lambda>q.
              Ret (B_NO_ERROR, q\<lparr>q_itemCount := q_itemCount q + 1\<rparr>)))"

definition AddHead :: "(u32 \<Rightarrow> ('a :: default) list option) \<Rightarrow> 'a queue \<Rightarrow> 'a \<Rightarrow> (status \<times> 'a queue) run" where
  "AddHead alloc q item =
     bind_run (EnsureSize alloc q (q_itemCount q + 1) False (q_itemCount q + 1)) (\<lambda>(st, q).
       if st = B_ERROR then Ret (B_ERROR, q)
       else
         let q = (if q_itemCount q = 0 then q\<lparr>q_headIndex := 0, q_tailIndex := 0\<rparr>
                  else q\<lparr>q_headIndex := PrevIndex q (q_headIndex q)\<rparr>)
         in bind_run (write_slot q (q_headIndex q) item) (\<lambda>q.
              Ret (B_NO_ERROR, q\<lparr>q_itemCount := q_itemCount q + 1\<rparr>)))"

text \<open>
  The operations on many items: the loops that assign \<open>n\<close> items from the index \<open>i\<close> on. An
  item is taken from the other queue or array by \<open>get\<close>.
\<close>

fun assign_items :: "(u32 \<Rightarrow> 'a run) \<Rightarrow> nat \<Rightarrow> 'a queue \<Rightarrow> u32 \<Rightarrow> u32 \<Rightarrow> 'a queue run" where
  "assign_items get 0 q i j = Ret q"
| "assign_items get (Suc n) q i j =
     bind_run (get j) (\<lambda>x. bind_run (Queue_at_put q i x) (\<lambda>q. assign_items get n q (i + 1) (j + 1)))"

definition array_at :: "'a list \<Rightarrow> u32 \<Rightarrow> 'a run" where
  "array_at items i = bind_run (guard (unat i < length items)) (\<lambda>_. Ret (items ! unat i))"

definition AddTail_queue ::
    "(u32 \<Rightarrow> ('a :: default) list option) \<Rightarrow> 'a queue \<Rightarrow> 'a queue \<Rightarrow> u32 \<Rightarrow> u32 \<Rightarrow> (status \<times> 'a queue) run" where
  "AddTail_queue alloc q other startIndex numNewItems =
     (let hisSize = GetNumItems other;
          numNewItems = min numNewItems (if startIndex < hisSize then hisSize - startIndex else 0);
          mySize = GetNumItems q;
          newSize = mySize + numNewItems
      in bind_run (EnsureSize alloc q newSize True 0) (\<lambda>(st, q).
           if st \<noteq> B_NO_ERROR then Ret (B_ERROR, q)
           else bind_run (assign_items (Queue_at other) (unat newSize - unat mySize) q mySize startIndex)
                  (\<lambda>q. Ret (B_NO_ERROR, q))))"

definition AddTail_array ::
    "(u32 \<Rightarrow> ('a :: default) list option) \<Rightarrow> 'a queue \<Rightarrow> 'a list \<Rightarrow> u32 \<Rightarrow> (status \<times> 'a queue) run" where
  "AddTail_array alloc q items numItems =
     (let mySize = GetNumItems q;
          newSize = mySize + numItems
      in bind_run (EnsureSize alloc q newSize True 0) (\<lambda>(st, q).
           if st \<noteq> B_NO_ERROR then Ret (B_ERROR, q)
           else bind_run (assign_items (array_at items) (unat newSize - unat mySize) q mySize 0)
                  (\<lambda>q. Ret (B_NO_ERROR, q))))"

text \<open>Adding the items \<open>start + n - 1\<close>, \dots, \<open>start\<close> at the head.\<close>

fun add_heads ::
    "(u32 \<Rightarrow> ('a :: default) list option) \<Rightarrow> (u32 \<Rightarrow> 'a run) \<Rightarrow> nat \<Rightarrow> 'a queue \<Rightarrow> u32 \<Rightarrow> (status \<times> 'a queue) run" where
  "add_heads alloc get 0 q start = Ret (B_NO_ERROR, q)"
| "add_heads alloc get (Suc n) q start =
     bind_run (get (start + of_nat n)) (\<lambda>x.
     bind_run (AddHead alloc q x) (\<lambda>(st, q).
       if st = B_ERROR then Ret (B_ERROR, q) else add_heads alloc get n q start))"

definition AddHead_queue ::
    "(u32 \<Rightarrow> ('a :: default) list option) \<Rightarrow> 'a queue \<Rightarrow> 'a queue \<Rightarrow> u32 \<Rightarrow> u32 \<Rightarrow> (status \<times> 'a queue) run" where
  "AddHead_queue alloc q other startIndex numNewItems =
     (let hisSize = GetNumItems other;
          numNewItems = min numNewItems (if startIndex < hisSize then hisSize - startIndex else 0)
      in bind_run (EnsureSize alloc q (numNewItems + GetNumItems q) False 0) (\<lambda>(st, q).
           if st \<noteq> B_NO_ERROR then Ret (B_ERROR, q)
           else add_heads alloc (Queue_at other)
                  (nat (sint (startIndex + numNewItems - 1) - sint startIndex + 1)) q startIndex))"

definition AddHead_array ::
    "(u32 \<Rightarrow> ('a :: default) list option) \<Rightarrow> 'a queue \<Rightarrow> 'a list \<Rightarrow> u32 \<Rightarrow> (status \<times> 'a queue) run" where
  "AddHead_array alloc q items numItems =
     bind_run (EnsureSize alloc q (q_itemCount q + numItems) False 0) (\<lambda>(st, q).
       if st \<noteq> B_NO_ERROR then Ret (B_ERROR, q)
       else add_heads alloc (array_at items) (nat (sint (numItems - 1) + 1)) q 0)"

section \<open>Inserting and removing in the middle\<close>

text \<open>
  The shifting loops of \<open>RemoveItemAt\<close>, a unit of fuel for each round, and those of
  \<open>InsertItemAt\<close>, which make \<open>n\<close> rounds.
\<close>

fun shift_from_head :: "nat \<Rightarrow> 'a queue \<Rightarrow> u32 \<Rightarrow> 'a queue run" where
  "shift_from_head 0 q i = (if i \<noteq> q_headIndex q then NoFuel else Ret q)"
| "shift_from_head (Suc n) q i =
     (if i \<noteq> q_headIndex q then
        let prev = PrevIndex q i
        in bind_run (read_slot q prev) (\<lambda>x. bind_run (write_slot q i x) (\<lambda>q. shift_from_head n q prev))
      else Ret q)"

fun shift_from_tail :: "nat \<Rightarrow> 'a queue \<Rightarrow> u32 \<Rightarrow> 'a queue run" where
  "shift_from_tail 0 q i = (if i \<noteq> q_tailIndex q then NoFuel else Ret q)"
| "shift_from_tail (Suc n) q i =
     (if i \<noteq> q_tailIndex q then
        let next = NextIndex q i
        in bind_run (read_slot q next) (\<lambda>x. bind_run (write_slot q i x) (\<lambda>q. shift_from_tail n q next))
      else Ret q)"

definition RemoveItemAt :: "('a :: default) queue \<Rightarrow> u32 \<Rightarrow> (status \<times> 'a queue) run" where
  "RemoveItemAt q index =
     (if index \<ge> q_itemCount q then Ret (B_ERROR, q)
      else
        bind_run (InternalizeIndex q index) (\<lambda>internalizedIndex.
        bind_run (if index < q_itemCount q div 2
                  then bind_run (shift_from_head (unat (q_itemCount q)) q internalizedIndex) (\<lambda>q.
                         Ret (q_headIndex q, q\<lparr>q_headIndex := NextIndex q (q_headIndex q)\<rparr>))
                  else bind_run (shift_from_tail (unat (q_itemCount q)) q internalizedIndex) (\<lambda>q.
                         Ret (q_tailIndex q, q\<lparr>q_tailIndex := PrevIndex q (q_tailIndex q)\<rparr>)))
          (\<lambda>(indexToClear, q).
             bind_run (write_slot (q\<lparr>q_itemCount := q_itemCount q - 1\<rparr>) indexToClear default) (\<lambda>q.
               Ret (B_NO_ERROR, q)))))"

definition RemoveItemAt_item :: "('a :: default) queue \<Rightarrow> u32 \<Rightarrow> (status \<times> 'a option \<times> 'a queue) run" where
  "RemoveItemAt_item q index =
     (if index \<ge> q_itemCount q then Ret (B_ERROR, None, q)
      else bind_run (InternalizeIndex q index) (\<lambda>i.
           bind_run (read_slot q i) (\<lambda>x.
           bind_run (RemoveItemAt q index) (\<lambda>(st, q). Ret (st, Some x, q)))))"

fun shift_down :: "nat \<Rightarrow> 'a queue \<Rightarrow> u32 \<Rightarrow> 'a queue run" where
  "shift_down 0 q i = Ret q"
| "shift_down (Suc n) q i =
     bind_run (GetItemPointer q (i + 1)) (\<lambda>x.
     bind_run (ReplaceItemAt q i x) (\<lambda>(_, q). shift_down n q (i + 1)))"

fun shift_up :: "nat \<Rightarrow> 'a queue \<Rightarrow> u32 \<Rightarrow> 'a queue run" where
  "shift_up 0 q i = Ret q"
| "shift_up (Suc n) q i =
     bind_run (GetItemPointer q (i - 1)) (\<lambda>x.
     bind_run (ReplaceItemAt q i x) (\<lambda>(_, q). shift_up n q (i - 1)))"

definition InsertItemAt ::
    "(u32 \<Rightarrow> ('a :: default) list option) \<Rightarrow> 'a queue \<Rightarrow> u32 \<Rightarrow> 'a \<Rightarrow> (status \<times> 'a queue) run" where
  "InsertItemAt alloc q index newItem =
     (if index > q_itemCount q then Ret (B_ERROR, q)
      else if index = q_itemCount q then AddTail alloc q newItem
      else if index = 0 then AddHead alloc q newItem
      else if index < q_itemCount q div 2 then
        bind_run (AddHead alloc q default) (\<lambda>(st, q).
          if st \<noteq> B_NO_ERROR then Ret (B_ERROR, q)
          else bind_run (shift_down (unat index) q 0) (\<lambda>q. ReplaceItemAt q index newItem))
      else
        bind_run (AddTail alloc q default) (\<lambda>(st, q).
          if st \<noteq> B_NO_ERROR then Ret (B_ERROR, q)
          else bind_run (shift_up (nat (sint (q_itemCount q) - 1 - sint index)) q (q_itemCount q - 1))
                 (\<lambda>q. ReplaceItemAt q index newItem)))"

end
