(* ===== verification/Queue_Ring.thy ===== *)
theory Queue_Ring
  imports Queue_Model
begin

text \<open>
  The ring buffer as a list. A window of a ring, its invariant, and what each access to the
  buffer does to the list of items; then the single operations of the queue.
\<close>

section \<open>Windows of a ring\<close>

definition ring :: "'a list \<Rightarrow> nat \<Rightarrow> nat \<Rightarrow> 'a list" where
  "ring xs h n = map (\<lambda>i. xs ! ((h + i) mod length xs)) [0..<n]"

lemma length_ring [simp]: "length (ring xs h n) = n"
  by (simp add: ring_def)

lemma nth_ring [simp]: "i < n \<Longrightarrow> ring xs h n ! i = xs ! ((h + i) mod length xs)"
  by (simp add: ring_def)

lemma ring_Nil [simp]: "ring xs h n = [] \<longleftrightarrow> n = 0"
  by (simp add: ring_def)

lemma ring_0 [simp]: "ring xs h 0 = []"
  by (simp add: ring_def)

lemma ring_snoc: "ring xs h (Suc n) = ring xs h n @ [xs ! ((h + n) mod length xs)]"
  by (simp add: ring_def)

lemma ring_mod: "ring xs (h mod length xs) n = ring xs h n"
  by (simp add: ring_def mod_simps)

lemma ring_Cons: "ring xs h (Suc n) = xs ! (h mod length xs) # ring xs (Suc h) n"
  by (simp add: ring_def map_upt_Suc del: upt_Suc)

lemma ring_zero: "n \<le> length xs \<Longrightarrow> ring xs 0 n = take n xs"
  by (rule nth_equalityI) auto

lemma mod_add_cancel:
  assumes "(h + i) mod L = (h + j) mod L" "i < L" "j < L"
  shows "i = (j :: nat)"
proof -
  have aux: "a = b" if "(h + a) mod L = (h + b) mod L" "a \<le> b" "b < L" for a b
  proof -
    have "L dvd (h + b) - (h + a)" using mod_eq_dvd_iff_nat [of "h + a" "h + b" L] that by simp
    then have "L dvd b - a" by simp
    then show ?thesis using that(2,3) by (cases "b - a = 0") (auto dest: dvd_imp_le)
  qed
  show ?thesis using aux [of i j] aux [of j i] assms by (cases "i \<le> j") auto
qed

lemma ring_write:
  assumes "i < n" "n \<le> length xs"
  shows "ring (xs[(h + i) mod length xs := x]) h n = (ring xs h n)[i := x]"
proof (rule nth_equalityI)
  fix j assume "j < length (ring (xs[(h + i) mod length xs := x]) h n)"
  then have j: "j < n" by simp
  have "(h + i) mod length xs = (h + j) mod length xs \<longleftrightarrow> i = j"
    using mod_add_cancel [of h i "length xs" j] assms j by auto
  moreover have "(h + i) mod length xs < length xs" using assms by (intro mod_less_divisor) linarith
  ultimately show "ring (xs[(h + i) mod length xs := x]) h n ! j = (ring xs h n)[i := x] ! j"
    using j by (auto simp: nth_list_update)
qed simp

lemma ring_write_outside:
  assumes "n \<le> i" "i < length xs"
  shows "ring (xs[(h + i) mod length xs := x]) h n = ring xs h n"
proof (rule nth_equalityI)
  fix j assume "j < length (ring (xs[(h + i) mod length xs := x]) h n)"
  then have j: "j < n" by simp
  then have "(h + i) mod length xs \<noteq> (h + j) mod length xs"
    using mod_add_cancel [of h i "length xs" j] assms by auto
  then show "ring (xs[(h + i) mod length xs := x]) h n ! j = ring xs h n ! j"
    using j by simp
qed simp

section \<open>The invariant\<close>

text \<open>
  The allocator returns arrays of the length asked for, and none of more than \<open>2\<^sup>3\<^sup>0\<close> items.
  The head is a slot, and the slot after the last item is the one the tail index announces; an
  empty queue may have a tail of \<open>- 1\<close>.
\<close>

definition max_slots :: nat where "max_slots = 2 ^ 30"

definition alloc_ok :: "(u32 \<Rightarrow> 'a list option) \<Rightarrow> bool" where
  "alloc_ok alloc \<longleftrightarrow> (\<forall>n xs. alloc n = Some xs \<longrightarrow> length xs = unat n \<and> unat n \<le> max_slots)"

definition queue_ok :: "'a queue \<Rightarrow> bool" where
  "queue_ok q \<longleftrightarrow> length (q_smallQueue q) = SMALL_QUEUE_SIZE \<and> unat (q_queueSize q) = length (slots q) \<and>
     length (slots q) \<le> max_slots \<and> unat (q_itemCount q) \<le> length (slots q) \<and>
     (q_queue q \<noteq> QNull \<longrightarrow> slots q \<noteq> [] \<and> unat (q_headIndex q) < length (slots q) \<and>
        (q_itemCount q \<noteq> 0 \<longrightarrow> unat (q_tailIndex q) < length (slots q)) \<and>
        unat (q_tailIndex q + 1) \<le> length (slots q) \<and>
        unat (q_tailIndex q + 1) mod length (slots q)
          = (unat (q_headIndex q) + unat (q_itemCount q)) mod length (slots q))"

definition items :: "'a queue \<Rightarrow> 'a list" where
  "items q = ring (slots q) (unat (q_headIndex q)) (unat (q_itemCount q))"

lemma length_items [simp]: "length (items q) = unat (q_itemCount q)"
  by (simp add: items_def)

lemma slots_update [simp]:
  "slots (q\<lparr>q_queueSize := s\<rparr>) = slots q" "slots (q\<lparr>q_itemCount := n\<rparr>) = slots q"
  "slots (q\<lparr>q_headIndex := n\<rparr>) = slots q" "slots (q\<lparr>q_tailIndex := n\<rparr>) = slots q"
  by (cases "q_queue q"; simp add: slots_def)+

lemma slots_set_slots: "q_queue q \<noteq> QNull \<Longrightarrow> slots (set_slots q xs) = xs"
  by (auto simp: slots_def set_slots_def split: qptr.split)

lemma set_slots_simps [simp]:
  "q_queueSize (set_slots q xs) = q_queueSize q" "q_itemCount (set_slots q xs) = q_itemCount q"
  "q_headIndex (set_slots q xs) = q_headIndex q" "q_tailIndex (set_slots q xs) = q_tailIndex q"
  "q_initialSize (set_slots q xs) = q_initialSize q"
  "q_queue (set_slots q xs) = QNull \<longleftrightarrow> q_queue q = QNull" "q_queue (set_slots q xs) = QSmall \<longleftrightarrow> q_queue q = QSmall"
  by (auto simp: set_slots_def split: qptr.split)

lemma slots_Null: "slots q \<noteq> [] \<Longrightarrow> q_queue q \<noteq> QNull"
  by (auto simp: slots_def)

lemma queue_ok_set_slots:
  "queue_ok q \<Longrightarrow> length xs = length (slots q) \<Longrightarrow> queue_ok (set_slots q xs)"
  by (cases "q_queue q") (auto simp: queue_ok_def slots_set_slots set_slots_def slots_def)

text \<open>The index arithmetic in terms of natural numbers.\<close>

lemma word_mod_unat: "unat (a mod b) = unat a mod unat (b :: u32)"
  by (simp add: unat_mod)

lemma InternalizeIndex_ok:
  assumes "queue_ok q" "q_itemCount q \<noteq> 0 \<or> q_queue q \<noteq> QNull" "unat i \<le> max_slots"
  shows "\<exists>k. InternalizeIndex q i = Ret k \<and> unat k = (unat (q_headIndex q) + unat i) mod length (slots q) \<and>
    unat k < length (slots q)"
proof -
  have s: "slots q \<noteq> []" using assms(1,2) by (auto simp: queue_ok_def unat_eq_0 slots_def split: qptr.splits)
  then have h: "unat (q_headIndex q) < length (slots q)" "length (slots q) \<le> max_slots"
    "unat (q_queueSize q) = length (slots q)"
    using assms(1) slots_Null [OF s] by (auto simp: queue_ok_def)
  then have "q_queueSize q \<noteq> 0" using s by auto
  moreover have "unat (q_headIndex q + i) = unat (q_headIndex q) + unat i"
    using h assms(3) by (intro unat_add_lem [THEN iffD1]) (simp add: max_slots_def)
  ultimately show ?thesis using h s by (simp add: InternalizeIndex_def word_mod_unat)
qed

section \<open>Reading and replacing items\<close>

lemma items_less:
  assumes "queue_ok q" "unat i < length (items q)"
  shows "q_queue q \<noteq> QNull" "unat i \<le> max_slots" "\<not> i \<ge> q_itemCount q" "i < q_itemCount q"
  using assms by (auto simp: queue_ok_def slots_def word_le_nat_alt word_less_nat_alt split: qptr.splits)

text \<open>The queue with the item \<open>i\<close> replaced.\<close>

definition put_item :: "'a queue \<Rightarrow> nat \<Rightarrow> 'a \<Rightarrow> 'a queue" where
  "put_item q i x = set_slots q ((slots q)[(unat (q_headIndex q) + i) mod length (slots q) := x])"

lemma put_item_simps [simp]:
  "queue_ok q \<Longrightarrow> queue_ok (put_item q i x)"
  "q_itemCount (put_item q i x) = q_itemCount q" "q_queueSize (put_item q i x) = q_queueSize q"
  "q_queue (put_item q i x) = QNull \<longleftrightarrow> q_queue q = QNull"
  "q_queue (put_item q i x) = QSmall \<longleftrightarrow> q_queue q = QSmall"
  "q_initialSize (put_item q i x) = q_initialSize q"
  by (simp_all add: put_item_def queue_ok_set_slots)

lemma items_put_item [simp]:
  assumes "queue_ok q" "i < length (items q)"
  shows "items (put_item q i x) = (items q)[i := x]"
proof -
  have "q_queue q \<noteq> QNull" "unat (q_itemCount q) \<le> length (slots q)"
    using assms by (auto simp: queue_ok_def slots_def split: qptr.splits)
  then show ?thesis
    using assms(2) ring_write [of i "unat (q_itemCount q)" "slots q" "unat (q_headIndex q)" x]
    by (simp add: items_def put_item_def slots_set_slots)
qed

text \<open>The slot of an item.\<close>

lemma item_index:
  assumes "queue_ok q" "unat i < length (items q)"
  shows "\<exists>k. InternalizeIndex q i = Ret k \<and> read_slot q k = Ret (items q ! unat i) \<and>
    (\<forall>x. write_slot q k x = Ret (put_item q (unat i) x))"
  using InternalizeIndex_ok [OF assms(1) _ items_less(2) [OF assms]] items_less(1) [OF assms] assms(2)
  by (auto simp: read_slot_def items_def write_slot_def put_item_def)

lemma GetItemPointer_ok:
  "queue_ok q \<Longrightarrow> unat i < length (items q) \<Longrightarrow> GetItemPointer q i = Ret (items q ! unat i)"
  using item_index [of q i] by (auto simp: GetItemPointer_def)

lemma Queue_at_ok:
  "queue_ok q \<Longrightarrow> unat i < length (items q) \<Longrightarrow> Queue_at q i = Ret (items q ! unat i)"
  using item_index [of q i] items_less(4) [of q i] by (auto simp: Queue_at_def)

lemma GetItemAt_ok:
  assumes "queue_ok q"
  shows "GetItemAt q i =
    Ret (if unat i < length (items q) then (B_NO_ERROR, Some (items q ! unat i)) else (B_ERROR, None))"
  using item_index [OF assms, of i] by (auto simp: GetItemAt_def word_le_nat_alt)

lemma Queue_at_put_ok:
  "queue_ok q \<Longrightarrow> unat i < length (items q) \<Longrightarrow> Queue_at_put q i x = Ret (put_item q (unat i) x)"
  using item_index [of q i] items_less(4) [of q i] by (auto simp: Queue_at_put_def)

lemma ReplaceItemAt_ok:
  "queue_ok q \<Longrightarrow> unat i < length (items q) \<Longrightarrow> ReplaceItemAt q i x = Ret (B_NO_ERROR, put_item q (unat i) x)"
  using item_index [of q i] items_less(3) [of q i] by (auto simp: ReplaceItemAt_def)

lemma ReplaceItemAt_out: "unat i \<ge> length (items q) \<Longrightarrow> ReplaceItemAt q i x = Ret (B_ERROR, q)"
  by (simp add: ReplaceItemAt_def word_le_nat_alt)

section \<open>Removing at the ends\<close>

text \<open>
  Slots outside the window hold \<open>default\<close>, and so does the array inside the object while it
  is not in use.
\<close>

definition clean_outside :: "('a :: default) list \<Rightarrow> nat \<Rightarrow> nat \<Rightarrow> bool" where
  "clean_outside xs h n \<longleftrightarrow> (\<forall>i. n \<le> i \<longrightarrow> i < length xs \<longrightarrow> xs ! ((h + i) mod length xs) = default)"

definition clean :: "('a :: default) queue \<Rightarrow> bool" where
  "clean q \<longleftrightarrow> clean_outside (slots q) (unat (q_headIndex q)) (unat (q_itemCount q)) \<and>
     (q_queue q \<noteq> QSmall \<longrightarrow> q_smallQueue q = replicate SMALL_QUEUE_SIZE default)"

lemma clean_outside_mod: "clean_outside xs (h mod length xs) n = clean_outside xs h n"
  by (simp add: clean_outside_def mod_simps)

lemma update_same: "xs ! j = d \<Longrightarrow> j < length xs \<Longrightarrow> xs[i := d] ! j = d"
  by (cases "i = j") simp_all

lemma clean_outside_drop_last:
  assumes "clean_outside xs h (Suc n)"
  shows "clean_outside (xs[(h + n) mod length xs := default]) h n"
  unfolding clean_outside_def
proof (intro allI impI)
  fix i assume "n \<le> i" "i < length (xs[(h + n) mod length xs := default])"
  then have "i = n \<or> xs ! ((h + i) mod length xs) = default" "(h + i) mod length xs < length xs"
    using assms by (cases "i = n"; auto simp: clean_outside_def intro: mod_less_divisor)+
  then show "xs[(h + n) mod length xs := default] ! ((h + i) mod length (xs[(h + n) mod length xs := default])) = default"
    by (auto simp: nth_list_update update_same)
qed

lemma clean_outside_drop_first:
  assumes "clean_outside xs h (Suc n)"
  shows "clean_outside (xs[h mod length xs := default]) (Suc h) n"
  unfolding clean_outside_def
proof (intro allI impI)
  fix i assume i: "n \<le> i" "i < length (xs[h mod length xs := default])"
  then have "(Suc h + i) mod length xs = h mod length xs \<or> xs ! ((Suc h + i) mod length xs) = default"
  proof (cases "Suc i = length xs")
    case True
    have "(Suc h + i) mod length xs = (h + length xs) mod length xs" unfolding True [symmetric] by simp
    then show ?thesis by simp
  next
    case False
    then show ?thesis using i assms by (auto simp: clean_outside_def dest: spec [of _ "Suc i"])
  qed
  moreover have "(Suc h + i) mod length xs < length xs" using i(2) by (intro mod_less_divisor) auto
  ultimately show "xs[h mod length xs := default] ! ((Suc h + i) mod length (xs[h mod length xs := default])) = default"
    by (auto simp: nth_list_update update_same)
qed

lemma clean_outside_write:
  assumes "clean_outside xs h n" "i < n" "n \<le> length xs"
  shows "clean_outside (xs[(h + i) mod length xs := x]) h n"
  unfolding clean_outside_def
proof (intro allI impI)
  fix j assume j: "n \<le> j" "j < length (xs[(h + i) mod length xs := x])"
  then have "(h + i) mod length xs \<noteq> (h + j) mod length xs"
    using mod_add_cancel [of h i "length xs" j] assms(2) by auto
  then show "xs[(h + i) mod length xs := x] ! ((h + j) mod length (xs[(h + i) mod length xs := x])) = default"
    using assms(1) j by (simp add: clean_outside_def)
qed

text \<open>What is the same before and after the operations that do not allocate.\<close>

definition same_array :: "'a queue \<Rightarrow> 'a queue \<Rightarrow> bool" where
  "same_array q q' \<longleftrightarrow> length (slots q') = length (slots q) \<and> q_initialSize q' = q_initialSize q \<and>
     (q_queue q' = QNull \<longleftrightarrow> q_queue q = QNull) \<and> (q_queue q' = QSmall \<longleftrightarrow> q_queue q = QSmall)"

lemma queue_okD:
  assumes "queue_ok q" "q_queue q \<noteq> QNull"
  shows "unat (q_queueSize q) = length (slots q)" "0 < length (slots q)" "length (slots q) \<le> max_slots"
    "unat (q_itemCount q) \<le> length (slots q)" "unat (q_headIndex q) < length (slots q)"
    "q_itemCount q \<noteq> 0 \<Longrightarrow> unat (q_tailIndex q) < length (slots q)"
    "unat (q_tailIndex q + 1) mod length (slots q)
      = (unat (q_headIndex q) + unat (q_itemCount q)) mod length (slots q)"
    "unat (q_tailIndex q + 1) \<le> length (slots q)"
  using assms by (auto simp: queue_ok_def)

lemma queue_ok_nonempty: "queue_ok q \<Longrightarrow> q_itemCount q \<noteq> 0 \<Longrightarrow> q_queue q \<noteq> QNull"
  by (auto simp: queue_ok_def slots_def unat_eq_0)

lemma NextIndex_ok:
  assumes "unat i < unat (q_queueSize q)"
  shows "unat (NextIndex q i) = Suc (unat i) mod unat (q_queueSize q)"
proof -
  have "q_queueSize q \<noteq> 0" using assms by auto
  then have q: "unat (q_queueSize q - 1) = unat (q_queueSize q) - 1" by (simp add: unat_minus_one)
  have "unat i + 1 < 2 ^ 32" using assms unsigned_less [where ?'a = nat, of "q_queueSize q"] by simp
  then have "unat (i + 1) = unat i + 1" by (simp add: unat_word_ariths)
  then show ?thesis using assms q by (auto simp: NextIndex_def word_le_nat_alt not_le mod_if)
qed

lemma PrevIndex_ok:
  assumes "unat i < unat (q_queueSize q)"
  shows "unat (PrevIndex q i) = (unat i + unat (q_queueSize q) - 1) mod unat (q_queueSize q)"
proof (cases "i = 0")
  case True
  have "q_queueSize q \<noteq> 0" using assms by auto
  then show ?thesis using True assms by (simp add: PrevIndex_def unat_minus_one)
next
  case False
  then have "unat (i - 1) = unat i - 1" "0 < unat i" by (auto simp: unat_minus_one unat_gt_0)
  then have e: "unat i + unat (q_queueSize q) - 1 = (unat i - 1) + unat (q_queueSize q)" by simp
  show ?thesis unfolding e mod_add_self2 using assms False \<open>unat (i - 1) = unat i - 1\<close> by (simp add: PrevIndex_def)
qed

lemma mod_add_1_cancel: "(t + 1) mod L = (k + 1) mod L \<Longrightarrow> t < L \<Longrightarrow> t = k mod (L :: nat)"
  using mod_add_cancel [of 1 t L "k mod L"] by (simp add: mod_simps add.commute)

text \<open>The tail index, and a queue with one item less.\<close>

lemma tail_slot:
  assumes "queue_ok q" "q_itemCount q \<noteq> 0"
  shows "unat (q_tailIndex q) = (unat (q_headIndex q) + (unat (q_itemCount q) - 1)) mod length (slots q)"
proof -
  note ok = queue_okD [OF assms(1) queue_ok_nonempty [OF assms]]
  have n: "0 < unat (q_itemCount q)" using assms(2) by (simp add: unat_gt_0)
  have "unat (q_tailIndex q + 1) = unat (q_tailIndex q) + 1"
    using ok(3) ok(6) [OF assms(2)] by (simp add: unat_word_ariths max_slots_def)
  then show ?thesis
    using mod_add_1_cancel [of "unat (q_tailIndex q)" "length (slots q)"
        "unat (q_headIndex q) + (unat (q_itemCount q) - 1)"] ok(6) [OF assms(2)] ok(7) n
    by (simp add: add.assoc)
qed

lemma butlast_ring: "butlast (ring xs h n) = ring xs h (n - 1)"
  by (cases n) (simp_all add: ring_snoc)

lemma tl_ring: "tl (ring xs h n) = ring xs (Suc h) (n - 1)"
  by (cases n) (simp_all add: ring_Cons)

lemma write_slot_ok:
  "unat i < length (slots q) \<Longrightarrow> write_slot q i x = Ret (set_slots q ((slots q)[unat i := x]))"
  by (simp add: write_slot_def)

lemma set_slots_same [simp]:
  "length xs = length (slots q) \<Longrightarrow> same_array q (set_slots q xs)"
  by (cases "q_queue q") (auto simp: same_array_def set_slots_def slots_def)

lemma set_slots_small: "q_queue q \<noteq> QSmall \<Longrightarrow> q_smallQueue (set_slots q xs) = q_smallQueue q"
  by (cases "q_queue q") (simp_all add: set_slots_def)

lemma RemoveTail_ok:
  assumes "queue_ok q" "q_itemCount q \<noteq> 0"
  shows "\<exists>q'. RemoveTail q = Ret (B_NO_ERROR, q') \<and> queue_ok q' \<and> items q' = butlast (items q) \<and>
    same_array q q' \<and> (clean q \<longrightarrow> clean q')"
proof -
  let ?L = "length (slots q)" and ?h = "unat (q_headIndex q)" and ?n = "unat (q_itemCount q)"
  have nn: "q_queue q \<noteq> QNull" by (rule queue_ok_nonempty [OF assms])
  note ok = queue_okD [OF assms(1) nn] and t = tail_slot [OF assms]
  have n: "0 < ?n" "unat (q_itemCount q - 1) = ?n - 1" using assms(2) by (simp_all add: unat_gt_0 unat_minus_one)
  let ?q1 = "q\<lparr>q_tailIndex := PrevIndex q (q_tailIndex q), q_itemCount := q_itemCount q - 1\<rparr>"
  let ?xs = "(slots q)[(?h + (?n - 1)) mod ?L := default]"
  obtain q2 where q2: "q2 = set_slots ?q1 ?xs" by simp
  have "q_tailIndex q < 2 ^ 31" using ok(3) ok(6) [OF assms(2)] by (simp add: word_less_nat_alt max_slots_def)
  then have run: "RemoveTail q = Ret (B_NO_ERROR, q2)"
    using assms(2) ok(6) unfolding q2 t [symmetric] by (simp add: RemoveTail_def write_slot_ok Let_def)
  have sl: "slots q2 = ?xs" unfolding q2 by (rule slots_set_slots) (simp add: nn)
  have q2s: "q_itemCount q2 = q_itemCount q - 1" "q_headIndex q2 = q_headIndex q" "q_initialSize q2 = q_initialSize q"
    "q_queue q2 = QNull \<longleftrightarrow> q_queue q = QNull" "q_queue q2 = QSmall \<longleftrightarrow> q_queue q = QSmall"
    "q_queue q \<noteq> QSmall \<Longrightarrow> q_smallQueue q2 = q_smallQueue q"
    by (simp_all add: q2 set_slots_small)
  have it: "items q2 = butlast (items q)"
    using ring_write_outside [of "?n - 1" "?n - 1" "slots q" ?h default] ok(4) n
    by (simp add: items_def butlast_ring sl q2s)
  have p: "unat (PrevIndex q (q_tailIndex q)) = (unat (q_tailIndex q) + ?L - 1) mod ?L"
    using PrevIndex_ok [of "q_tailIndex q" q] ok(1) ok(6) [OF assms(2)] by simp
  then have p1: "unat (PrevIndex q (q_tailIndex q)) < ?L" using ok(2) by simp
  then have p2: "unat (PrevIndex q (q_tailIndex q) + 1) = unat (PrevIndex q (q_tailIndex q)) + 1"
    using ok(3) by (simp add: unat_word_ariths max_slots_def)
  then have p3: "unat (PrevIndex q (q_tailIndex q) + 1) \<le> ?L" using p1 by simp
  from p2 have "unat (PrevIndex q (q_tailIndex q) + 1) mod ?L = (unat (q_tailIndex q) + ?L) mod ?L"
    using p ok(2) by (simp add: mod_Suc_eq)
  then have "queue_ok ?q1"
    using assms(1) nn ok p1 p3 t n by (auto simp: queue_ok_def)
  then have "queue_ok q2" unfolding q2 by (rule queue_ok_set_slots) simp
  moreover have "clean q2" if c: "clean q"
    using c clean_outside_drop_last [of "slots q" ?h "?n - 1"] n by (simp add: clean_def sl q2s)
  moreover have "same_array q q2" using sl q2s by (simp add: same_array_def)
  ultimately show ?thesis using run it by blast
qed

lemma RemoveHead_ok:
  assumes "queue_ok q" "q_itemCount q \<noteq> 0"
  shows "\<exists>q'. RemoveHead q = Ret (B_NO_ERROR, q') \<and> queue_ok q' \<and> items q' = tl (items q) \<and>
    same_array q q' \<and> (clean q \<longrightarrow> clean q')"
proof -
  let ?L = "length (slots q)" and ?h = "unat (q_headIndex q)" and ?n = "unat (q_itemCount q)"
  have nn: "q_queue q \<noteq> QNull" by (rule queue_ok_nonempty [OF assms])
  note ok = queue_okD [OF assms(1) nn] and t = tail_slot [OF assms]
  have n: "0 < ?n" "unat (q_itemCount q - 1) = ?n - 1" using assms(2) by (simp_all add: unat_gt_0 unat_minus_one)
  let ?q1 = "q\<lparr>q_headIndex := NextIndex q (q_headIndex q), q_itemCount := q_itemCount q - 1\<rparr>"
  let ?xs = "(slots q)[?h mod ?L := default]"
  obtain q2 where q2: "q2 = set_slots ?q1 ?xs" by simp
  have h: "?h mod ?L = ?h" using ok(5) by simp
  have "q_headIndex q < 2 ^ 31" using ok(3,5) by (simp add: word_less_nat_alt max_slots_def)
  then have run: "RemoveHead q = Ret (B_NO_ERROR, q2)"
    using assms(2) ok(5) unfolding q2 h by (simp add: RemoveHead_def write_slot_ok Let_def)
  have sl: "slots q2 = ?xs" unfolding q2 by (rule slots_set_slots) (simp add: nn)
  have nx: "unat (NextIndex q (q_headIndex q)) = Suc ?h mod ?L"
    using NextIndex_ok [of "q_headIndex q" q] ok(1,5) by simp
  have q2s: "q_itemCount q2 = q_itemCount q - 1" "unat (q_headIndex q2) = Suc ?h mod ?L" "q_initialSize q2 = q_initialSize q"
    "q_queue q2 = QNull \<longleftrightarrow> q_queue q = QNull" "q_queue q2 = QSmall \<longleftrightarrow> q_queue q = QSmall"
    "q_queue q \<noteq> QSmall \<Longrightarrow> q_smallQueue q2 = q_smallQueue q"
    by (simp_all add: q2 set_slots_small nx)
  have "Suc ?h + (?L - 1) = ?h + ?L" using ok(2) by linarith
  then have "(Suc ?h + (?L - 1)) mod ?L = ?h mod ?L" by (simp only: mod_add_self2)
  then have "ring ?xs (Suc ?h) (?n - 1) = ring (slots q) (Suc ?h) (?n - 1)"
    using ring_write_outside [of "?n - 1" "?L - 1" "slots q" "Suc ?h" default] ok(2,4) by simp
  then have it: "items q2 = tl (items q)"
    using ring_mod [of ?xs "Suc ?h"] n by (simp add: items_def tl_ring sl q2s)
  have "Suc ?h mod ?L + ?n - Suc 0 = Suc ?h mod ?L + (?n - 1)" "Suc ?h + (?n - 1) = ?h + ?n" using n by linarith+
  then have "(Suc ?h mod ?L + ?n - Suc 0) mod ?L = (?h + ?n) mod ?L" by (metis mod_add_left_eq)
  then have "queue_ok ?q1"
    using assms(1) nn ok n t nx by (auto simp: queue_ok_def)
  then have "queue_ok q2" unfolding q2 by (rule queue_ok_set_slots) simp
  moreover have "clean q2" if c: "clean q"
    using c clean_outside_drop_first [of "slots q" ?h "?n - 1"] n clean_outside_mod [of ?xs "Suc ?h"]
    by (simp add: clean_def sl q2s)
  moreover have "same_array q q2" using sl q2s by (simp add: same_array_def)
  ultimately show ?thesis using run it by blast
qed

lemma RemoveTail_empty [simp]: "q_itemCount q = 0 \<Longrightarrow> RemoveTail q = Ret (B_ERROR, q)"
  by (simp add: RemoveTail_def)

lemma RemoveHead_empty [simp]: "q_itemCount q = 0 \<Longrightarrow> RemoveHead q = Ret (B_ERROR, q)"
  by (simp add: RemoveHead_def)

lemma items_Nil_iff [simp]: "items q = [] \<longleftrightarrow> q_itemCount q = 0"
  using length_items [of q] by (auto simp: unat_eq_0 simp del: length_items simp flip: length_0_conv)

lemma items_empty [simp]: "q_itemCount q = 0 \<Longrightarrow> items q = []"
  by simp

lemma Nil_items_iff [simp]: "[] = items q \<longleftrightarrow> q_itemCount q = 0"
  using items_Nil_iff [of q] by metis

lemma read_head:
  assumes "queue_ok q" "q_itemCount q \<noteq> 0"
  shows "read_slot q (q_headIndex q) = Ret (hd (items q))"
proof -
  note ok = queue_okD [OF assms(1) queue_ok_nonempty [OF assms]]
  have "0 < unat (q_itemCount q)" using assms(2) by (simp add: unat_gt_0)
  then show ?thesis using ok(2,5) hd_conv_nth [of "items q"] assms(2) by (simp add: read_slot_def items_def)
qed

lemma read_tail:
  assumes "queue_ok q" "q_itemCount q \<noteq> 0"
  shows "read_slot q (q_tailIndex q) = Ret (last (items q))"
proof -
  note ok = queue_okD [OF assms(1) queue_ok_nonempty [OF assms]]
  have "0 < unat (q_itemCount q)" using assms(2) by (simp add: unat_gt_0)
  then show ?thesis
    using ok(6) [OF assms(2)] tail_slot [OF assms] last_conv_nth [of "items q"] assms(2)
    by (simp add: read_slot_def items_def)
qed

lemma RemoveHead_item_ok:
  assumes "queue_ok q" "q_itemCount q \<noteq> 0"
  shows "\<exists>q'. RemoveHead_item q = Ret (B_NO_ERROR, Some (hd (items q)), q') \<and> queue_ok q' \<and>
    items q' = tl (items q) \<and> same_array q q' \<and> (clean q \<longrightarrow> clean q')"
  using RemoveHead_ok [OF assms] read_head [OF assms] assms(2) by (auto simp: RemoveHead_item_def)

lemma RemoveTail_item_ok:
  assumes "queue_ok q" "q_itemCount q \<noteq> 0"
  shows "\<exists>q'. RemoveTail_item q = Ret (B_NO_ERROR, Some (last (items q)), q') \<and> queue_ok q' \<and>
    items q' = butlast (items q) \<and> same_array q q' \<and> (clean q \<longrightarrow> clean q')"
  using RemoveTail_ok [OF assms] read_tail [OF assms] assms(2) by (auto simp: RemoveTail_item_def)

section \<open>Shrinking and clearing\<close>

lemma same_array_refl [simp]: "same_array q q"
  by (simp add: same_array_def)

lemma same_array_trans: "same_array q q' \<Longrightarrow> same_array q' q'' \<Longrightarrow> same_array q q''"
  by (simp add: same_array_def)

lemma RemoveTail_count: "items q' = butlast (items q) \<Longrightarrow> unat (q_itemCount q') = unat (q_itemCount q) - 1"
  using length_items [of q'] length_items [of q] by simp

lemma shrink_ok:
  assumes "queue_ok q" "unat (q_itemCount q) \<le> unat sz + n"
  shows "\<exists>q'. shrink n q sz = Ret q' \<and> queue_ok q' \<and> items q' = take (unat sz) (items q) \<and>
    same_array q q' \<and> (clean q \<longrightarrow> clean q')"
  using assms
proof (induction n arbitrary: q)
  case 0
  then show ?case by (simp add: word_less_nat_alt)
next
  case (Suc n)
  show ?case
  proof (cases "q_itemCount q > sz")
    case True
    then have lt: "unat sz < unat (q_itemCount q)" "q_itemCount q \<noteq> 0" by (auto simp: word_less_nat_alt)
    obtain q1 where q1: "RemoveTail q = Ret (B_NO_ERROR, q1)" "queue_ok q1" "items q1 = butlast (items q)"
      "same_array q q1" "clean q \<longrightarrow> clean q1"
      using RemoveTail_ok [OF Suc.prems(1) lt(2)] by blast
    have "unat (q_itemCount q1) \<le> unat sz + n" using RemoveTail_count [OF q1(3)] Suc.prems(2) by simp
    from Suc.IH [OF q1(2) this] obtain q' where "shrink n q1 sz = Ret q'" "queue_ok q'"
      "items q' = take (unat sz) (items q1)" "same_array q1 q'" "clean q1 \<longrightarrow> clean q'" by blast
    moreover have "take (unat sz) (items q1) = take (unat sz) (items q)"
      using lt by (auto simp: q1(3) butlast_conv_take min_def)
    ultimately show ?thesis using True q1 same_array_trans [OF q1(4)] by auto
  next
    case False
    then have "unat (q_itemCount q) \<le> unat sz" by (simp add: word_less_nat_alt)
    then show ?thesis using False Suc.prems(1) by simp
  qed
qed

lemma clear_loop_ok:
  assumes "queue_ok q" "unat (q_itemCount q) < n"
  shows "\<exists>q'. clear_loop n q = Ret q' \<and> queue_ok q' \<and> items q' = [] \<and> same_array q q' \<and> (clean q \<longrightarrow> clean q')"
  using assms
proof (induction n arbitrary: q)
  case (Suc n)
  show ?case
  proof (cases "q_itemCount q = 0")
    case True
    then show ?thesis using Suc.prems(1) by simp
  next
    case False
    then obtain q1 where q1: "RemoveTail q = Ret (B_NO_ERROR, q1)" "queue_ok q1" "items q1 = butlast (items q)"
      "same_array q q1" "clean q \<longrightarrow> clean q1"
      using RemoveTail_ok [OF Suc.prems(1)] by blast
    have "unat (q_itemCount q1) < n"
      using RemoveTail_count [OF q1(3)] Suc.prems(2) False unat_gt_0 [of "q_itemCount q"] by linarith
    from Suc.IH [OF q1(2) this] show ?thesis using q1 same_array_trans [OF q1(4)] by auto
  qed
qed simp

lemma Clear_ok:
  assumes "queue_ok q"
  shows "\<exists>q'. Clear q rel = Ret q' \<and> queue_ok q' \<and> items q' = [] \<and> (clean q \<longrightarrow> clean q')"
proof (cases "rel \<and> q_queue q \<noteq> QSmall")
  case True
  then show ?thesis
    using assms by (auto simp: Clear_def queue_ok_def items_def slots_def clean_def clean_outside_def)
next
  case False
  then show ?thesis using clear_loop_ok [OF assms, of "Suc (unat (q_itemCount q))"] by (auto simp: Clear_def)
qed

end
