(* ===== verification/Queue_Grow.thy ===== *)
theory Queue_Grow
  imports Queue_Ring
begin

text \<open>
  Allocation: \<open>EnsureSize\<close> moves the items to a larger array and sets the number of items; adding
  one item at either end of the queue.
\<close>

lemma copy_items_ok:
  assumes "queue_ok q" "unat i + n = length (items q)" "length (items q) \<le> length xs"
  shows "copy_items q n i xs = Ret (take (unat i) xs @ drop (unat i) (items q) @ drop (length (items q)) xs)"
  using assms
proof (induction n arbitrary: i xs)
  case 0
  then show ?case by simp
next
  case (Suc n)
  have lt: "unat i < length (items q)" using Suc.prems(2) by simp
  have "unat i + 1 < 2 ^ 32"
    using lt unsigned_less [where ?'a = nat, of "q_itemCount q"] by (simp del: length_items add: length_items [of q])
  then have i1: "unat (i + 1) = Suc (unat i)" by (simp add: unat_word_ariths)
  have "copy_items q n (i + 1) (xs[unat i := items q ! unat i]) =
      Ret (take (unat (i + 1)) (xs[unat i := items q ! unat i]) @ drop (unat (i + 1)) (items q) @
        drop (length (items q)) (xs[unat i := items q ! unat i]))"
    by (rule Suc.IH [OF Suc.prems(1)]) (use Suc.prems i1 in simp_all)
  moreover have "take (Suc (unat i)) (xs[unat i := items q ! unat i]) = take (unat i) xs @ [items q ! unat i]"
    using lt Suc.prems(3) by (simp add: take_Suc_conv_app_nth)
  moreover have "drop (unat i) (items q) = items q ! unat i # drop (Suc (unat i)) (items q)"
    using lt by (simp add: Cons_nth_drop_Suc)
  ultimately show ?case
    using Suc.prems lt GetItemAt_ok [OF Suc.prems(1), of i] by (simp add: i1)
qed

text \<open>The array of a fresh allocation, as the classes that the library stores initialise it.\<close>

definition alloc_blank :: "(u32 \<Rightarrow> ('a :: default) list option) \<Rightarrow> bool" where
  "alloc_blank alloc \<longleftrightarrow> (\<forall>n xs. alloc n = Some xs \<longrightarrow> xs = replicate (unat n) default)"

text \<open>
  Reallocation: the items are at the start of the new array, followed by what that array held.
\<close>

lemma grow_ok:
  assumes "queue_ok q" "alloc_ok alloc" "q_queue q = QNull \<or> q_queueSize q < sz"
    and "unat sz + unat extra < 2 ^ 32"
  shows "(grow alloc q sz setn extra = Ret (B_ERROR, q)) \<or>
    (\<exists>q' rest. grow alloc q sz setn extra = Ret (B_NO_ERROR, q') \<and> slots q' = items q @ rest \<and>
       q_queue q' \<noteq> QNull \<and> unat (q_queueSize q') = length (slots q') \<and> unat sz \<le> length (slots q') \<and>
       length (slots q') \<le> max_slots \<and> 0 < length (slots q') \<and> q_headIndex q' = 0 \<and> q_itemCount q' = (if setn then sz else q_itemCount q) \<and>
       q_tailIndex q' = q_itemCount q' - 1 \<and> length (q_smallQueue q') = SMALL_QUEUE_SIZE \<and>
       (clean q \<and> alloc_blank alloc \<longrightarrow> set rest \<subseteq> {default} \<and>
          (q_queue q' \<noteq> QSmall \<longrightarrow> q_smallQueue q' = replicate SMALL_QUEUE_SIZE default)))"
proof -
  obtain temp where temp: "temp = sz + extra" by simp
  have ut: "unat temp = unat sz + unat extra" using assms(4) by (simp add: temp unat_word_ariths)
  obtain nl where nl: "nl = max (q_initialSize q)
      (if setn \<or> temp \<le> of_nat SMALL_QUEUE_SIZE then max (of_nat SMALL_QUEUE_SIZE) temp else temp)" by simp
  have nl_ge: "unat sz \<le> unat nl"
    using ut by (auto simp: nl max_def word_le_nat_alt split: if_splits)
  obtain heap where heap: "heap \<longleftrightarrow> q_queue q = QSmall \<or> nl > of_nat SMALL_QUEUE_SIZE" by simp
  obtain src where src: "src = (if heap then alloc nl else Some (q_smallQueue q))" by simp
  have sm: "length (q_smallQueue q) = SMALL_QUEUE_SIZE" using assms(1) by (simp add: queue_ok_def)
  show ?thesis
  proof (cases src)
    case None
    have "grow alloc q sz setn extra = Ret (B_ERROR, q)"
      unfolding grow_def Let_def temp [symmetric] nl [symmetric] heap [symmetric] src [symmetric] None
      by simp
    then show ?thesis by blast
  next
    case (Some xs)
    obtain len where len: "len = (if heap then nl else of_nat SMALL_QUEUE_SIZE)" by simp
    have xs: "length xs = unat len" "unat len \<le> max_slots"
      using Some assms(2) sm
      by (auto simp: src len alloc_ok_def heap SMALL_QUEUE_SIZE_def max_slots_def split: if_splits)
    have blank: "set xs \<subseteq> {default}" if c: "clean q \<and> alloc_blank alloc"
    proof (cases heap)
      case True
      then have "xs = replicate (unat nl) default" using c Some by (simp add: src alloc_blank_def)
      then show ?thesis by (simp add: set_replicate_conv_if)
    next
      case False
      then have "xs = replicate SMALL_QUEUE_SIZE default" using c Some heap by (simp add: src clean_def)
      then show ?thesis by (simp add: set_replicate_conv_if)
    qed
    have sz: "unat sz \<le> unat len" "0 < unat len"
      using nl_ge assms(3,1) heap
      by (auto simp: len SMALL_QUEUE_SIZE_def word_le_nat_alt word_less_nat_alt not_less queue_ok_def slots_def)
    have cnt: "length (items q) \<le> length xs"
      using assms(1,3) sz(1) xs(1) by (auto simp: queue_ok_def slots_def word_less_nat_alt)
    have cp: "copy_items q (unat (q_itemCount q)) 0 xs = Ret (items q @ drop (length (items q)) xs)"
      using copy_items_ok [OF assms(1) _ cnt, of 0 "unat (q_itemCount q)"] by simp
    obtain n1 where n1: "n1 = (if setn then sz else q_itemCount q)" by simp
    let ?q1 = "q\<lparr>q_itemCount := n1, q_headIndex := 0, q_tailIndex := n1 - 1\<rparr>"
    let ?q2 = "if q_queue ?q1 = QSmall then ?q1\<lparr>q_smallQueue := replicate SMALL_QUEUE_SIZE default\<rparr> else ?q1"
    obtain ys where ys: "ys = items q @ drop (length (items q)) xs" by simp
    let ?q3 = "if heap then ?q2\<lparr>q_queue := QHeap ys\<rparr> else ?q2\<lparr>q_queue := QSmall, q_smallQueue := ys\<rparr>"
    obtain q' where q': "q' = ?q3\<lparr>q_queueSize := len\<rparr>" by simp
    have run: "grow alloc q sz setn extra = Ret (B_NO_ERROR, q')"
      unfolding grow_def Let_def temp [symmetric] nl [symmetric] heap [symmetric] src [symmetric] Some
        option.case cp bind_run.simps q' n1 ys len by simp
    have sl: "slots q' = ys" by (simp add: q' slots_def)
    have ly: "length ys = unat len" using cnt xs(1) by (simp add: ys)
    have "q_queue q' \<noteq> QNull" "q_queueSize q' = len" "q_headIndex q' = 0" "q_itemCount q' = n1" "q_tailIndex q' = n1 - 1"
      by (simp_all add: q')
    moreover have "length (q_smallQueue q') = SMALL_QUEUE_SIZE"
      using sm ly by (auto simp: q' len SMALL_QUEUE_SIZE_def)
    moreover have "set (drop (length (items q)) xs) \<subseteq> {default}" if "clean q \<and> alloc_blank alloc"
      using blank [OF that] set_drop_subset [of _ xs] by blast
    moreover have "q_smallQueue q' = replicate SMALL_QUEUE_SIZE default" if "clean q" "q_queue q' \<noteq> QSmall"
      using that by (auto simp: q' clean_def split: if_splits)
    ultimately show ?thesis
      using run sl ly xs(2) sz ys unfolding n1 by auto
  qed
qed

text \<open>
  The two stages together: \<open>junk\<close> is what the new slots hold, blank when the array was clean.
\<close>

lemma clean_append:
  assumes "set rest \<subseteq> {default}" "i < length ys + length rest" "length ys \<le> i"
  shows "(ys @ rest) ! i = default"
  using assms nth_mem [of "i - length ys" rest] by (force simp: nth_append)

lemma linear_queue_ok:
  assumes "q_queue q \<noteq> QNull" "unat (q_queueSize q) = length (slots q)" "0 < length (slots q)"
    "length (slots q) \<le> max_slots" "q_headIndex q = 0" "q_tailIndex q = q_itemCount q - 1"
    "length (q_smallQueue q) = SMALL_QUEUE_SIZE" "unat (q_itemCount q) \<le> length (slots q)"
  shows "queue_ok q \<and> items q = take (unat (q_itemCount q)) (slots q)"
proof -
  have "unat (q_itemCount q - 1) < unat (q_itemCount q)" if "q_itemCount q \<noteq> 0"
    using that unat_gt_0 [of "q_itemCount q"] by (simp add: unat_minus_one)
  then show ?thesis using assms by (auto simp: queue_ok_def items_def ring_zero)
qed

lemma EnsureSize_ok:
  assumes "queue_ok q" "alloc_ok alloc" "unat sz + unat extra < 2 ^ 32"
  shows "EnsureSize alloc q sz False extra = Ret (B_ERROR, q) \<or>
    (\<exists>q'. EnsureSize alloc q sz False extra = Ret (B_NO_ERROR, q') \<and> queue_ok q' \<and> items q' = items q \<and>
       q_queue q' \<noteq> QNull \<and> unat sz \<le> length (slots q') \<and> (clean q \<and> alloc_blank alloc \<longrightarrow> clean q'))"
proof (cases "q_queue q = QNull \<or> q_queueSize q < sz")
  case False
  then have "EnsureSize alloc q sz False extra = Ret (B_NO_ERROR, q)" by (simp add: EnsureSize_def)
  moreover have "q_queue q \<noteq> QNull" "unat sz \<le> length (slots q)"
    using False assms(1) by (auto simp: queue_ok_def not_less word_le_nat_alt)
  ultimately show ?thesis using assms(1) by blast
next
  case True
  have cnt: "unat (q_itemCount q) \<le> unat sz \<or> q_itemCount q = 0"
    using assms(1) True by (auto simp: queue_ok_def slots_def word_less_nat_alt unat_eq_0)
  from grow_ok [OF assms(1,2) True assms(3), of False] show ?thesis
  proof (elim disjE exE conjE)
    fix q' rest
    assume g: "grow alloc q sz False extra = Ret (B_NO_ERROR, q')" "slots q' = items q @ rest"
      "q_queue q' \<noteq> QNull" "unat (q_queueSize q') = length (slots q')" "unat sz \<le> length (slots q')"
      "length (slots q') \<le> max_slots" "0 < length (slots q')" "q_headIndex q' = 0"
      "q_itemCount q' = (if False then sz else q_itemCount q)" "q_tailIndex q' = q_itemCount q' - 1"
      "length (q_smallQueue q') = SMALL_QUEUE_SIZE"
      "clean q \<and> alloc_blank alloc \<longrightarrow> set rest \<subseteq> {default} \<and>
        (q_queue q' \<noteq> QSmall \<longrightarrow> q_smallQueue q' = replicate SMALL_QUEUE_SIZE default)"
    have "queue_ok q' \<and> items q' = take (unat (q_itemCount q')) (slots q')"
      by (rule linear_queue_ok [OF g(3,4,7,6,8,10,11)]) (use g(2,9) in simp)
    then have "queue_ok q'" "items q' = items q" using g(2,9) by simp_all
    moreover from this have "clean q'" if "clean q \<and> alloc_blank alloc"
      using g(12) that g(8,9) clean_append [of rest _ "items q"] by (simp add: clean_def clean_outside_def g(2))
    ultimately show ?thesis
      using True g(1,3,5) by (simp add: EnsureSize_def)
  qed (use True in \<open>simp add: EnsureSize_def\<close>)
qed

text \<open>Setting the number of items when the array is large enough.\<close>

lemma set_count_ok:
  assumes "queue_ok q" "q_queue q \<noteq> QNull" "unat sz \<le> length (slots q)"
  shows "\<exists>q' junk. set_count q sz = Ret q' \<and> queue_ok q' \<and> items q' = take (unat sz) (items q) @ junk \<and>
    length junk = unat sz - unat (q_itemCount q) \<and> same_array q q' \<and>
    (clean q \<longrightarrow> clean q' \<and> set junk \<subseteq> {default})"
proof (cases "q_itemCount q < sz")
  case False
  then have "unat (q_itemCount q) \<le> unat sz + unat (q_itemCount q)" "unat sz - unat (q_itemCount q) = 0"
    by (auto simp: word_less_nat_alt)
  from shrink_ok [OF assms(1) this(1)] False show ?thesis
    by (auto simp: set_count_def word_less_nat_alt intro!: exI [of _ "[]"])
next
  case True
  let ?L = "length (slots q)" and ?h = "unat (q_headIndex q)" and ?n = "unat (q_itemCount q)"
  note ok = queue_okD [OF assms(1,2)]
  have lt: "?n < unat sz" using True by (simp add: word_less_nat_alt)
  obtain d where d: "d = sz - q_itemCount q" by simp
  have ud: "unat d = unat sz - ?n" using lt by (simp add: d unat_sub word_le_nat_alt)
  then have d0: "0 < unat d" "d \<noteq> 0" using lt by auto
  have um: "unat (d - 1) = unat d - 1" using d0(2) by (rule unat_minus_one)
  have "unat (q_tailIndex q + 1) + unat (d - 1) < 2 ^ 32"
    unfolding um using ok(3,8) assms(3) ud by (simp add: max_slots_def)
  then have "unat ((q_tailIndex q + 1) + (d - 1)) = unat (q_tailIndex q + 1) + unat (d - 1)"
    by (intro unat_add_lem [THEN iffD1]) simp
  then have ut: "unat (q_tailIndex q + d) = unat (q_tailIndex q + 1) + (unat d - 1)" unfolding um by simp
  let ?t = "(q_tailIndex q + d) mod q_queueSize q"
  have t: "unat ?t = (unat (q_tailIndex q + 1) + (unat d - 1)) mod ?L"
    using ut ok(1) by (simp add: unat_mod)
  then have tL: "unat ?t < ?L" using ok(2) by simp
  then have t1: "unat (?t + 1) = unat ?t + 1" using ok(3) by (simp add: unat_word_ariths max_slots_def)
  have "unat (?t + 1) mod ?L = (unat (q_tailIndex q + 1) + (unat d - 1) + 1) mod ?L"
    unfolding t1 t by (simp only: mod_add_left_eq)
  also have "unat (q_tailIndex q + 1) + (unat d - 1) + 1 = unat (q_tailIndex q + 1) + unat d" using d0 by simp
  also have "\<dots> mod ?L = (?h + ?n + unat d) mod ?L" using ok(7) by (metis mod_add_left_eq)
  finally have tm: "unat (?t + 1) mod ?L = (?h + unat sz) mod ?L" using ud lt by simp
  obtain q' where q': "q' = q\<lparr>q_tailIndex := ?t, q_itemCount := sz\<rparr>" by simp
  have q0: "q_queueSize q \<noteq> 0" using ok(1,2) by auto
  have run: "set_count q sz = Ret q'" using True q0 by (simp add: set_count_def q' d)
  have sl: "slots q' = slots q" by (simp add: q')
  have "queue_ok q'"
    using assms ok tL tm t1 by (auto simp: queue_ok_def sl q')
  moreover have "items q' = take (unat sz) (items q) @ drop ?n (items q')"
  proof (rule nth_equalityI)
    fix i assume "i < length (items q')"
    then show "items q' ! i = (take (unat sz) (items q) @ drop ?n (items q')) ! i"
      using lt by (auto simp: nth_append items_def q' min_def)
  qed (use lt in \<open>simp add: q'\<close>)
  moreover have "set (drop ?n (items q')) \<subseteq> {default}" if "clean q"
    using that assms(3) by (auto simp: set_conv_nth items_def q' clean_def clean_outside_def)
  moreover have "clean q'" if "clean q"
    using that lt by (simp add: clean_def clean_outside_def q')
  moreover have "same_array q q'" by (simp add: same_array_def q')
  ultimately show ?thesis using run by (intro exI [of _ q'] exI [of _ "drop ?n (items q')"]) (simp add: q')
qed

lemma EnsureSize_set_ok:
  assumes "queue_ok q" "alloc_ok alloc"
  shows "EnsureSize alloc q sz True 0 = Ret (B_ERROR, q) \<or>
    (\<exists>q' junk. EnsureSize alloc q sz True 0 = Ret (B_NO_ERROR, q') \<and> queue_ok q' \<and>
       items q' = take (unat sz) (items q) @ junk \<and> length junk = unat sz - unat (q_itemCount q) \<and>
       (clean q \<and> alloc_blank alloc \<longrightarrow> clean q' \<and> set junk \<subseteq> {default}))"
proof (cases "q_queue q = QNull \<or> q_queueSize q < sz")
  case False
  then have "q_queue q \<noteq> QNull" "unat sz \<le> length (slots q)"
    using assms(1) by (auto simp: queue_ok_def not_less word_le_nat_alt)
  from set_count_ok [OF assms(1) this] show ?thesis using False by (auto simp: EnsureSize_def)
next
  case True
  have cnt: "unat (q_itemCount q) \<le> unat sz"
    using assms(1) True by (auto simp: queue_ok_def slots_def word_less_nat_alt unat_eq_0)
  have "unat sz + unat (0 :: u32) < 2 ^ 32" using unsigned_less [where ?'a = nat, of sz] by simp
  from grow_ok [OF assms True this, of True] show ?thesis
  proof (elim disjE exE conjE)
    fix q' rest
    assume g: "grow alloc q sz True 0 = Ret (B_NO_ERROR, q')" "slots q' = items q @ rest"
      "q_queue q' \<noteq> QNull" "unat (q_queueSize q') = length (slots q')" "unat sz \<le> length (slots q')"
      "length (slots q') \<le> max_slots" "0 < length (slots q')" "q_headIndex q' = 0"
      "q_itemCount q' = (if True then sz else q_itemCount q)" "q_tailIndex q' = q_itemCount q' - 1"
      "length (q_smallQueue q') = SMALL_QUEUE_SIZE"
      "clean q \<and> alloc_blank alloc \<longrightarrow> set rest \<subseteq> {default} \<and>
        (q_queue q' \<noteq> QSmall \<longrightarrow> q_smallQueue q' = replicate SMALL_QUEUE_SIZE default)"
    have q': "queue_ok q' \<and> items q' = take (unat (q_itemCount q')) (slots q')"
      by (rule linear_queue_ok [OF g(3,4,7,6,8,10,11)]) (use g(5,9) in simp)
    then have it: "items q' = take (unat sz) (items q) @ take (unat sz - unat (q_itemCount q)) rest"
      using g(2,9) by simp
    have "clean q' \<and> set (take (unat sz - unat (q_itemCount q)) rest) \<subseteq> {default}" if "clean q \<and> alloc_blank alloc"
      using g(12) that g(8,9) clean_append [of rest _ "items q"] cnt set_take_subset [of _ rest]
      by (auto simp: clean_def clean_outside_def g(2))
    moreover have "set_count q' sz = Ret q'" using g(9) by (cases "unat sz") (simp_all add: set_count_def)
    ultimately show ?thesis
      using True g(1,2,5) q' it
      by (intro disjI2 exI [of _ q'] exI [of _ "take (unat sz - unat (q_itemCount q)) rest"])
        (auto simp: EnsureSize_def)
  qed (use True in \<open>simp add: EnsureSize_def\<close>)
qed

section \<open>Adding at the ends\<close>

text \<open>The room for one more item.\<close>

lemma room_ok:
  assumes "queue_ok q" "alloc_ok alloc"
  shows "EnsureSize alloc q (q_itemCount q + 1) False (q_itemCount q + 1) = Ret (B_ERROR, q) \<or>
    (\<exists>q'. EnsureSize alloc q (q_itemCount q + 1) False (q_itemCount q + 1) = Ret (B_NO_ERROR, q') \<and> queue_ok q' \<and>
       items q' = items q \<and> q_itemCount q' = q_itemCount q \<and> q_queue q' \<noteq> QNull \<and>
       unat (q_itemCount q) < length (slots q') \<and> (clean q \<and> alloc_blank alloc \<longrightarrow> clean q'))"
proof -
  have "unat (q_itemCount q) \<le> max_slots" using assms(1) by (simp add: queue_ok_def)
  then have u: "unat (q_itemCount q + 1) = unat (q_itemCount q) + 1" "unat (q_itemCount q) < 2 ^ 31 - 1"
    by (simp_all add: unat_word_ariths max_slots_def)
  have same: "q_itemCount q' = q_itemCount q" if "items q' = items q" for q' :: "'a queue"
    using that length_items [of q'] by (simp add: word_unat_eq_iff)
  have "unat (q_itemCount q + 1) + unat (q_itemCount q + 1) < 2 ^ 32" using u by simp
  from EnsureSize_ok [OF assms this] show ?thesis
  proof (elim disjE exE conjE)
    fix q' assume q': "EnsureSize alloc q (q_itemCount q + 1) False (q_itemCount q + 1) = Ret (B_NO_ERROR, q')"
      "queue_ok q'" "items q' = items q" "q_queue q' \<noteq> QNull" "unat (q_itemCount q + 1) \<le> length (slots q')"
      "clean q \<and> alloc_blank alloc \<longrightarrow> clean q'"
    then show ?thesis using same [OF q'(3)] u(1) by auto
  qed simp
qed

text \<open>
  When there is room for one more item: in a free slot, in the array inside the object, or in an
  array of \<open>next_size\<close> slots that the allocator grants.
\<close>

definition next_size :: "'a queue \<Rightarrow> u32" where
  "next_size q = max (q_initialSize q) (if 2 * (q_itemCount q + 1) \<le> of_nat SMALL_QUEUE_SIZE then of_nat SMALL_QUEUE_SIZE else 2 * (q_itemCount q + 1))"

definition has_room :: "(u32 \<Rightarrow> 'a list option) \<Rightarrow> 'a queue \<Rightarrow> bool" where
  "has_room alloc q \<longleftrightarrow> unat (q_itemCount q) < length (slots q) \<or>
     (q_queue q = QNull \<and> next_size q \<le> of_nat SMALL_QUEUE_SIZE) \<or> alloc (next_size q) \<noteq> None"

lemma EnsureSize_room:
  assumes "queue_ok q" "alloc_ok alloc"
  shows "EnsureSize alloc q (q_itemCount q + 1) False (q_itemCount q + 1) = Ret (B_ERROR, q) \<longleftrightarrow> \<not> has_room alloc q"
proof (cases "q_queue q = QNull \<or> q_queueSize q < q_itemCount q + 1")
  case False
  have "unat (q_itemCount q) \<le> max_slots" using assms(1) by (simp add: queue_ok_def)
  then have "unat (q_itemCount q + 1) = unat (q_itemCount q) + 1" by (simp add: unat_word_ariths max_slots_def)
  then have "unat (q_itemCount q) < length (slots q)"
    using False assms(1) by (auto simp: queue_ok_def not_less word_le_nat_alt)
  then show ?thesis using False by (simp add: EnsureSize_def has_room_def)
next
  case True
  have full: "\<not> unat (q_itemCount q) < length (slots q)"
  proof
    assume lt: "unat (q_itemCount q) < length (slots q)"
    then have "q_queue q \<noteq> QNull" "unat (q_itemCount q + 1) = unat (q_itemCount q) + 1"
      using assms(1) by (auto simp: slots_def queue_ok_def unat_word_ariths max_slots_def)
    then show False using True lt assms(1) by (auto simp: queue_ok_def word_less_nat_alt)
  qed
  have size: "next_size q = max (q_initialSize q) (if False \<or> q_itemCount q + 1 + (q_itemCount q + 1) \<le> of_nat SMALL_QUEUE_SIZE
      then max (of_nat SMALL_QUEUE_SIZE) (q_itemCount q + 1 + (q_itemCount q + 1)) else q_itemCount q + 1 + (q_itemCount q + 1))"
    unfolding next_size_def mult_2 by (simp add: max_def)
  have heap: "\<not> next_size q \<le> of_nat SMALL_QUEUE_SIZE" if "q_queue q \<noteq> QNull"
  proof -
    have "slots q \<noteq> []" using that assms(1) by (simp add: queue_ok_def)
    then have n: "0 < unat (q_itemCount q)" "unat (q_itemCount q) \<le> max_slots"
      using full assms(1) by (auto simp: queue_ok_def simp del: length_greater_0_conv simp flip: length_greater_0_conv)
    then have "unat (2 * (q_itemCount q + 1)) = 2 * (unat (q_itemCount q) + 1)"
      by (simp add: unat_word_ariths max_slots_def)
    then have "\<not> 2 * (q_itemCount q + 1) \<le> of_nat SMALL_QUEUE_SIZE"
      using n(1) by (simp add: word_le_nat_alt SMALL_QUEUE_SIZE_def)
    then show ?thesis unfolding next_size_def max.bounded_iff by simp
  qed
  have "grow alloc q (q_itemCount q + 1) False (q_itemCount q + 1) = Ret (B_ERROR, q) \<longleftrightarrow>
      (if q_queue q = QSmall \<or> next_size q > of_nat SMALL_QUEUE_SIZE then alloc (next_size q) else Some (q_smallQueue q)) = None"
    unfolding grow_def Let_def size [symmetric] by (auto simp: run_simps split: option.split)
  also have "\<dots> \<longleftrightarrow> \<not> has_room alloc q"
    using full heap by (auto simp: has_room_def not_le)
  finally show ?thesis
    using True by (auto simp: EnsureSize_def run_simps)
qed

text \<open>Storing an item in the free slot after the last or before the first.\<close>

lemma store_tail:
  assumes ok: "queue_ok q" "q_queue q \<noteq> QNull" "unat (q_itemCount q) < length (slots q)"
    and t: "unat t = (unat (q_headIndex q) + unat (q_itemCount q)) mod length (slots q)"
  shows "\<exists>q'. write_slot (q\<lparr>q_tailIndex := t\<rparr>) t x = Ret q' \<and> queue_ok (q'\<lparr>q_itemCount := q_itemCount q' + 1\<rparr>) \<and>
    items (q'\<lparr>q_itemCount := q_itemCount q' + 1\<rparr>) = items q @ [x] \<and>
    length (slots q') = length (slots q) \<and>
    (clean q \<longrightarrow> clean (q'\<lparr>q_itemCount := q_itemCount q' + 1\<rparr>))"
proof -
  let ?L = "length (slots q)" and ?h = "unat (q_headIndex q)" and ?n = "unat (q_itemCount q)"
  note qd = queue_okD [OF ok(1,2)]
  let ?xs = "(slots q)[(?h + ?n) mod ?L := x]"
  obtain q' where q': "q' = set_slots (q\<lparr>q_tailIndex := t\<rparr>) ?xs" by simp
  have tL: "unat t < ?L" using t qd(2) by simp
  have run: "write_slot (q\<lparr>q_tailIndex := t\<rparr>) t x = Ret q'" using tL by (simp add: write_slot_ok q' t)
  have sl: "slots q' = ?xs" unfolding q' by (rule slots_set_slots) (simp add: ok)
  have n1: "unat (q_itemCount q + 1) = Suc ?n" using qd(3,4) by (simp add: unat_word_ariths max_slots_def)
  have t1: "unat (t + 1) = unat t + 1" using tL qd(3) by (simp add: unat_word_ariths max_slots_def)
  have q's: "q_itemCount q' = q_itemCount q" "q_headIndex q' = q_headIndex q" "q_tailIndex q' = t"
    "q_queueSize q' = q_queueSize q" "q_queue q' = QNull \<longleftrightarrow> q_queue q = QNull"
    "q_queue q' = QSmall \<longleftrightarrow> q_queue q = QSmall" "q_queue q \<noteq> QSmall \<Longrightarrow> q_smallQueue q' = q_smallQueue q"
    by (simp_all add: q' set_slots_small)
  have "length (q_smallQueue q') = SMALL_QUEUE_SIZE"
    using ok(1) by (auto simp: q' set_slots_def queue_ok_def slots_def split: qptr.splits)
  moreover have "(unat t + 1) mod ?L = (?h + Suc ?n) mod ?L" unfolding t by (simp only: mod_add_left_eq) simp
  ultimately have "queue_ok (q'\<lparr>q_itemCount := q_itemCount q' + 1\<rparr>)"
    using ok qd tL t1 n1 by (auto simp: queue_ok_def sl q's)
  moreover have "items (q'\<lparr>q_itemCount := q_itemCount q' + 1\<rparr>) = items q @ [x]"
    using n1 ring_write_outside [of ?n ?n "slots q" ?h x] ok(3) qd(2)
    by (simp add: items_def sl q's ring_snoc)
  moreover have "clean (q'\<lparr>q_itemCount := q_itemCount q' + 1\<rparr>)" if c: "clean q"
  proof -
    have "clean_outside (slots q) ?h (Suc ?n)" using c by (simp add: clean_def clean_outside_def)
    then show ?thesis
      using clean_outside_write [of "slots q" ?h "Suc ?n" ?n x] ok(3) n1 c by (simp add: clean_def sl q's)
  qed
  moreover have "length (slots q') = ?L" by (simp add: sl)
  ultimately show ?thesis using run by blast
qed

lemma store_head:
  assumes ok: "queue_ok q" "q_queue q \<noteq> QNull" "unat (q_itemCount q) < length (slots q)" "q_itemCount q \<noteq> 0"
  shows "\<exists>q'. write_slot (q\<lparr>q_headIndex := PrevIndex q (q_headIndex q)\<rparr>) (PrevIndex q (q_headIndex q)) x = Ret q' \<and>
    queue_ok (q'\<lparr>q_itemCount := q_itemCount q' + 1\<rparr>) \<and>
    items (q'\<lparr>q_itemCount := q_itemCount q' + 1\<rparr>) = x # items q \<and>
    length (slots q') = length (slots q) \<and>
    (clean q \<longrightarrow> clean (q'\<lparr>q_itemCount := q_itemCount q' + 1\<rparr>))"
proof -
  let ?L = "length (slots q)" and ?h = "unat (q_headIndex q)" and ?n = "unat (q_itemCount q)"
  note qd = queue_okD [OF ok(1,2)]
  obtain p where p: "p = PrevIndex q (q_headIndex q)" by simp
  obtain k where k: "k = (?h + (?L - 1)) mod ?L" by simp
  have up: "unat p = k" using PrevIndex_ok [of "q_headIndex q" q] qd(1,2,5) by (simp add: p k)
  have pL: "unat p < ?L" using qd(2) by (simp add: up k)
  have bk: "Suc (unat p) mod ?L = ?h"
  proof -
    have "Suc (unat p) mod ?L = Suc (?h + (?L - 1)) mod ?L" unfolding up k by (simp only: mod_Suc_eq)
    also have "Suc (?h + (?L - 1)) = ?h + ?L" using qd(2) by simp
    finally show ?thesis using qd(5) by simp
  qed
  let ?xs = "(slots q)[k := x]"
  obtain q' where q': "q' = set_slots (q\<lparr>q_headIndex := p\<rparr>) ?xs" by simp
  have run: "write_slot (q\<lparr>q_headIndex := p\<rparr>) p x = Ret q'" using pL by (simp add: write_slot_ok q' up)
  have sl: "slots q' = ?xs" unfolding q' by (rule slots_set_slots) (simp add: ok)
  have n1: "unat (q_itemCount q + 1) = Suc ?n" using qd(3,4) by (simp add: unat_word_ariths max_slots_def)
  have q's: "q_itemCount q' = q_itemCount q" "q_headIndex q' = p" "q_tailIndex q' = q_tailIndex q"
    "q_queueSize q' = q_queueSize q" "q_queue q' = QNull \<longleftrightarrow> q_queue q = QNull"
    "q_queue q' = QSmall \<longleftrightarrow> q_queue q = QSmall" "q_queue q \<noteq> QSmall \<Longrightarrow> q_smallQueue q' = q_smallQueue q"
    by (simp_all add: q' set_slots_small)
  have "length (q_smallQueue q') = SMALL_QUEUE_SIZE"
    using ok(1) by (auto simp: q' set_slots_def queue_ok_def slots_def split: qptr.splits)
  moreover have "(?h + ?n) mod ?L = (unat p + Suc ?n) mod ?L"
    using bk by (metis add_Suc_right add_Suc mod_add_left_eq)
  ultimately have "queue_ok (q'\<lparr>q_itemCount := q_itemCount q' + 1\<rparr>)"
    using ok qd pL n1 by (auto simp: queue_ok_def sl q's)
  moreover have "items (q'\<lparr>q_itemCount := q_itemCount q' + 1\<rparr>) = x # items q"
  proof -
    have "ring ?xs (unat p) (Suc ?n) = ?xs ! (unat p mod length ?xs) # ring ?xs (Suc (unat p)) ?n" by (rule ring_Cons)
    also have "ring ?xs (Suc (unat p)) ?n = ring ?xs ?h ?n" using ring_mod [of ?xs "Suc (unat p)" ?n] bk by simp
    also have "\<dots> = ring (slots q) ?h ?n" unfolding k using ok(3) by (intro ring_write_outside) auto
    finally show ?thesis using pL up n1 by (simp add: items_def sl q's)
  qed
  moreover have "clean (q'\<lparr>q_itemCount := q_itemCount q' + 1\<rparr>)" if c: "clean q"
  proof -
    have "?xs ! ((unat p + i) mod ?L) = default" if i: "Suc ?n \<le> i" "i < ?L" for i
    proof -
      have "(unat p + i) mod ?L = (Suc (unat p) + (i - 1)) mod ?L" using i(1) by simp
      also have "\<dots> = (?h + (i - 1)) mod ?L" using bk by (metis mod_add_left_eq)
      finally have e: "(unat p + i) mod ?L = (?h + (i - 1)) mod ?L" .
      have "(?h + (i - 1)) mod ?L \<noteq> k"
        unfolding k
      proof
        assume e: "(?h + (i - 1)) mod ?L = (?h + (?L - 1)) mod ?L"
        have "i - 1 < ?L" "?L - 1 < ?L" using i by linarith+
        from mod_add_cancel [OF e this] show False using i by linarith
      qed
      moreover have "slots q ! ((?h + (i - 1)) mod ?L) = default"
      proof -
        have "?n \<le> i - 1" "i - 1 < ?L" using i by linarith+
        then show ?thesis using c unfolding clean_def clean_outside_def by blast
      qed
      ultimately show ?thesis unfolding e by simp
    qed
    then show ?thesis using c n1 by (simp add: clean_def clean_outside_def sl q's)
  qed
  moreover have "length (slots q') = ?L" by (simp add: sl)
  ultimately show ?thesis using run unfolding p by blast
qed

text \<open>An empty queue starts again at slot 0.\<close>

lemma clean_outside_empty: "clean_outside xs h 0 \<Longrightarrow> clean_outside xs h' 0"
  unfolding clean_outside_def
proof (intro allI impI)
  fix i assume c: "\<forall>i. 0 \<le> i \<longrightarrow> i < length xs \<longrightarrow> xs ! ((h + i) mod length xs) = default" and i: "i < length xs"
  have L: "0 < length xs" using i by linarith
  obtain j where j: "j = (h' + i + (length xs - h mod length xs)) mod length xs" by simp
  have "h mod length xs + (length xs - h mod length xs) = length xs"
    using L by (simp add: less_imp_le)
  then have "(h mod length xs + (h' + i + (length xs - h mod length xs))) mod length xs = (h' + i) mod length xs"
    by (metis add.commute add.left_commute mod_add_self2)
  then have "(h + j) mod length xs = (h' + i) mod length xs"
    by (simp add: j mod_simps)
  moreover have "j < length xs" using L by (simp add: j)
  ultimately show "xs ! ((h' + i) mod length xs) = default" using c by (metis le0)
qed

lemma restart_ok:
  assumes "queue_ok q" "q_queue q \<noteq> QNull" "q_itemCount q = 0"
  shows "queue_ok (q\<lparr>q_headIndex := 0, q_tailIndex := - 1\<rparr>) \<and>
    items (q\<lparr>q_headIndex := 0, q_tailIndex := - 1\<rparr>) = items q \<and>
    (clean q \<longrightarrow> clean (q\<lparr>q_headIndex := 0, q_tailIndex := - 1\<rparr>))"
  using assms clean_outside_empty by (auto simp: queue_ok_def clean_def items_def)

lemma first_item:
  assumes "queue_ok q" "q_queue q \<noteq> QNull" "q_itemCount q = 0"
  shows "\<exists>q'. write_slot (q\<lparr>q_headIndex := 0, q_tailIndex := 0\<rparr>) 0 x = Ret q' \<and>
    queue_ok (q'\<lparr>q_itemCount := q_itemCount q' + 1\<rparr>) \<and>
    items (q'\<lparr>q_itemCount := q_itemCount q' + 1\<rparr>) = [x] \<and>
    length (slots q') = length (slots q) \<and>
    (clean q \<longrightarrow> clean (q'\<lparr>q_itemCount := q_itemCount q' + 1\<rparr>))"
proof -
  note re = restart_ok [OF assms] and qd = queue_okD [OF assms(1,2)]
  have "items q = []" using assms(3) by simp
  then show ?thesis
    using store_tail [of "q\<lparr>q_headIndex := 0, q_tailIndex := - 1\<rparr>" 0 x] re assms(2,3) qd(2) by auto
qed

lemma AddTail_ok:
  assumes "queue_ok q" "alloc_ok alloc"
  shows "AddTail alloc q x = Ret (B_ERROR, q) \<or>
    (\<exists>q'. AddTail alloc q x = Ret (B_NO_ERROR, q') \<and> queue_ok q' \<and> items q' = items q @ [x] \<and>
       (clean q \<and> alloc_blank alloc \<longrightarrow> clean q'))"
proof -
  from room_ok [OF assms] show ?thesis
  proof (elim disjE exE conjE)
    fix q1 assume r: "EnsureSize alloc q (q_itemCount q + 1) False (q_itemCount q + 1) = Ret (B_NO_ERROR, q1)"
      "queue_ok q1" "items q1 = items q" "q_itemCount q1 = q_itemCount q" "q_queue q1 \<noteq> QNull"
      "unat (q_itemCount q) < length (slots q1)" "clean q \<and> alloc_blank alloc \<longrightarrow> clean q1"
    note qd = queue_okD [OF r(2,5)]
    show ?thesis
    proof (cases "q_itemCount q1 = 0")
      case True
      obtain q' where "write_slot (q1\<lparr>q_headIndex := 0, q_tailIndex := 0\<rparr>) 0 x = Ret q'"
        "queue_ok (q'\<lparr>q_itemCount := q_itemCount q' + 1\<rparr>)" "items (q'\<lparr>q_itemCount := q_itemCount q' + 1\<rparr>) = [x]"
        "clean q1 \<longrightarrow> clean (q'\<lparr>q_itemCount := q_itemCount q' + 1\<rparr>)"
        using first_item [OF r(2,5) True, of x] by blast
      moreover have "items q = []" using True r(3) by (simp flip: r(3))
      ultimately show ?thesis using r(1,7) True by (auto simp: AddTail_def Let_def)
    next
      case False
      have "unat (NextIndex q1 (q_tailIndex q1)) = (unat (q_headIndex q1) + unat (q_itemCount q1)) mod length (slots q1)"
        using NextIndex_ok [of "q_tailIndex q1" q1] qd tail_slot [OF r(2) False] False unat_gt_0 [of "q_itemCount q1"]
        by (simp add: mod_Suc_eq)
      then show ?thesis
        using store_tail [OF r(2,5), of "NextIndex q1 (q_tailIndex q1)" x] r(1,3,4,6,7) False
        by (auto simp: AddTail_def Let_def)
    qed
  qed (simp add: AddTail_def)
qed

lemma AddHead_ok:
  assumes "queue_ok q" "alloc_ok alloc"
  shows "AddHead alloc q x = Ret (B_ERROR, q) \<or>
    (\<exists>q'. AddHead alloc q x = Ret (B_NO_ERROR, q') \<and> queue_ok q' \<and> items q' = x # items q \<and>
       (clean q \<and> alloc_blank alloc \<longrightarrow> clean q'))"
proof -
  from room_ok [OF assms] show ?thesis
  proof (elim disjE exE conjE)
    fix q1 assume r: "EnsureSize alloc q (q_itemCount q + 1) False (q_itemCount q + 1) = Ret (B_NO_ERROR, q1)"
      "queue_ok q1" "items q1 = items q" "q_itemCount q1 = q_itemCount q" "q_queue q1 \<noteq> QNull"
      "unat (q_itemCount q) < length (slots q1)" "clean q \<and> alloc_blank alloc \<longrightarrow> clean q1"
    show ?thesis
    proof (cases "q_itemCount q1 = 0")
      case True
      obtain q' where "write_slot (q1\<lparr>q_headIndex := 0, q_tailIndex := 0\<rparr>) 0 x = Ret q'"
        "queue_ok (q'\<lparr>q_itemCount := q_itemCount q' + 1\<rparr>)" "items (q'\<lparr>q_itemCount := q_itemCount q' + 1\<rparr>) = [x]"
        "clean q1 \<longrightarrow> clean (q'\<lparr>q_itemCount := q_itemCount q' + 1\<rparr>)"
        using first_item [OF r(2,5) True, of x] by blast
      moreover have "items q = []" using True r(3) by (simp flip: r(3))
      ultimately show ?thesis using r(1,7) True by (auto simp: AddHead_def Let_def)
    next
      case False
      then show ?thesis
        using store_head [OF r(2,5), of x] r(1,3,4,6,7) by (auto simp: AddHead_def Let_def)
    qed
  qed (simp add: AddHead_def)
qed

text \<open>Adding one item fails exactly when there is no room for it.\<close>

lemma AddTail_fails:
  assumes "queue_ok q" "alloc_ok alloc"
  shows "AddTail alloc q x = Ret (B_ERROR, q) \<longleftrightarrow> \<not> has_room alloc q"
proof -
  have "AddTail alloc q x = Ret (B_ERROR, q) \<longleftrightarrow> EnsureSize alloc q (q_itemCount q + 1) False (q_itemCount q + 1) = Ret (B_ERROR, q)"
    using room_ok [OF assms] by (auto simp: AddTail_def run_simps Let_def)
  then show ?thesis unfolding EnsureSize_room [OF assms] .
qed

lemma AddHead_fails:
  assumes "queue_ok q" "alloc_ok alloc"
  shows "AddHead alloc q x = Ret (B_ERROR, q) \<longleftrightarrow> \<not> has_room alloc q"
proof -
  have "AddHead alloc q x = Ret (B_ERROR, q) \<longleftrightarrow> EnsureSize alloc q (q_itemCount q + 1) False (q_itemCount q + 1) = Ret (B_ERROR, q)"
    using room_ok [OF assms] by (auto simp: AddHead_def run_simps Let_def)
  then show ?thesis unfolding EnsureSize_room [OF assms] .
qed

text \<open>With a free slot there is no allocation, and no failure.\<close>

lemma AddHead_room:
  assumes "queue_ok q" "unat (q_itemCount q) < length (slots q)"
  shows "\<exists>q'. AddHead alloc q x = Ret (B_NO_ERROR, q') \<and> queue_ok q' \<and> items q' = x # items q \<and>
    length (slots q') = length (slots q) \<and> (clean q \<longrightarrow> clean q')"
proof -
  have nn: "q_queue q \<noteq> QNull" using assms(2) by (intro slots_Null) auto
  note qd = queue_okD [OF assms(1) nn]
  have "unat (q_itemCount q + 1) = unat (q_itemCount q) + 1"
    using qd(3,4) by (simp add: unat_word_ariths max_slots_def)
  then have "\<not> q_queueSize q < q_itemCount q + 1" using assms(2) qd(1) by (simp add: word_less_nat_alt)
  then have e: "EnsureSize alloc q (q_itemCount q + 1) False (q_itemCount q + 1) = Ret (B_NO_ERROR, q)"
    using nn by (simp add: EnsureSize_def)
  show ?thesis
  proof (cases "q_itemCount q = 0")
    case True
    then have "items q = []" by simp
    then show ?thesis using first_item [OF assms(1) nn True, of x] e True by (auto simp: AddHead_def Let_def)
  next
    case False
    then show ?thesis using store_head [OF assms(1) nn assms(2) False, of x] e by (auto simp: AddHead_def Let_def)
  qed
qed

end
