(* ===== verification/Queue_Bulk.thy ===== *)
theory Queue_Bulk
  imports Queue_Grow
begin

text \<open>
  The operations on many items and those in the middle of the queue: appending and prepending
  the items of a queue or an array, inserting and removing at an index.
\<close>

section \<open>Appending and prepending\<close>

lemma clean_put_item: "queue_ok q \<Longrightarrow> clean q \<Longrightarrow> i < length (items q) \<Longrightarrow> clean (put_item q i x)"
proof -
  assume q: "queue_ok q" "clean q" "i < length (items q)"
  then have "q_queue q \<noteq> QNull" "unat (q_itemCount q) \<le> length (slots q)"
    by (auto simp: queue_ok_def slots_def split: qptr.splits)
  then show ?thesis
    using q clean_outside_write [of "slots q" "unat (q_headIndex q)" "unat (q_itemCount q)" i x]
    by (simp add: clean_def put_item_def slots_set_slots set_slots_small)
qed

lemma items_bound: "queue_ok q \<Longrightarrow> length (items q) \<le> max_slots"
  by (simp add: queue_ok_def)

lemma unat_Suc_index: "unat (i :: u32) < max_slots \<Longrightarrow> unat (i + 1) = Suc (unat i)"
  by (simp add: unat_word_ariths max_slots_def)

lemma assign_items_ok:
  assumes "queue_ok q" "\<And>k. k < length ys \<Longrightarrow> get (j + of_nat k) = Ret (ys ! k)"
    "unat i + length ys \<le> length (items q)"
  shows "\<exists>q'. assign_items get (length ys) q i j = Ret q' \<and> queue_ok q' \<and>
    items q' = take (unat i) (items q) @ ys @ drop (unat i + length ys) (items q) \<and> (clean q \<longrightarrow> clean q')"
  using assms
proof (induction ys arbitrary: q i j)
  case (Cons y ys)
  have i: "unat i < length (items q)" using Cons.prems(3) by simp
  then have i1: "unat (i + 1) = Suc (unat i)"
    using items_bound [OF Cons.prems(1)] by (intro unat_Suc_index) simp
  let ?q1 = "put_item q (unat i) y"
  have g: "get (j + 1 + of_nat k) = Ret (ys ! k)" if "k < length ys" for k
    using Cons.prems(2) [of "Suc k"] that by (simp add: ac_simps)
  have "queue_ok ?q1" "unat (i + 1) + length ys \<le> length (items ?q1)" using Cons.prems i i1 by auto
  from Cons.IH [OF this(1) g this(2)] obtain q' where
    q': "assign_items get (length ys) ?q1 (i + 1) (j + 1) = Ret q'" "queue_ok q'" "clean ?q1 \<longrightarrow> clean q'"
      "items q' = take (Suc (unat i)) (items ?q1) @ ys @ drop (Suc (unat i) + length ys) (items ?q1)"
    by (auto simp: i1)
  have "items q' = take (unat i) (items q) @ (y # ys) @ drop (unat i + length (y # ys)) (items q)"
    using q'(4) i Cons.prems(1) by (simp add: take_Suc_conv_app_nth)
  then show ?case
    using q' i Cons.prems Cons.prems(2) [of 0] Queue_at_put_ok [OF Cons.prems(1) i, of y]
      clean_put_item [OF Cons.prems(1) _ i] by auto
qed simp

text \<open>The two ways of growing by a known number of items.\<close>

lemma append_ok:
  assumes "queue_ok q" "alloc_ok alloc" "\<And>k. k < length ys \<Longrightarrow> get (j + of_nat k) = Ret (ys ! k)"
    "unat newSize = length (items q) + length ys"
  shows "EnsureSize alloc q newSize True 0 = Ret (B_ERROR, q) \<or>
    (\<exists>q1 q'. EnsureSize alloc q newSize True 0 = Ret (B_NO_ERROR, q1) \<and>
       assign_items get (unat newSize - unat (GetNumItems q)) q1 (GetNumItems q) j = Ret q' \<and>
       queue_ok q' \<and> items q' = items q @ ys \<and> (clean q \<and> alloc_blank alloc \<longrightarrow> clean q'))"
proof -
  from EnsureSize_set_ok [OF assms(1,2), of newSize] show ?thesis
  proof (elim disjE exE conjE)
    fix q1 junk assume r: "EnsureSize alloc q newSize True 0 = Ret (B_NO_ERROR, q1)" "queue_ok q1"
      "items q1 = take (unat newSize) (items q) @ junk" "length junk = unat newSize - unat (q_itemCount q)"
      "clean q \<and> alloc_blank alloc \<longrightarrow> clean q1 \<and> set junk \<subseteq> {default}"
    have it: "items q1 = items q @ junk" "length junk = length ys" using r(3,4) assms(4) by simp_all
    have "unat (GetNumItems q) + length ys \<le> length (items q1)" by (simp add: it GetNumItems_def)
    from assign_items_ok [OF r(2) assms(3) this] obtain q' where
      "assign_items get (length ys) q1 (GetNumItems q) j = Ret q'" "queue_ok q'" "clean q1 \<longrightarrow> clean q'"
      "items q' = take (unat (GetNumItems q)) (items q1) @ ys @ drop (unat (GetNumItems q) + length ys) (items q1)"
      by blast
    then show ?thesis using r(1,5) assms(4) by (auto simp: GetNumItems_def it)
  qed simp
qed

lemma unat_less: "unat (n :: u32) < 2 ^ 32"
proof -
  have "(unsigned n :: nat) < 2 ^ LENGTH(32)" by (rule unsigned_less)
  then show ?thesis by simp
qed

lemma array_at_take:
  assumes "unat (n :: u32) \<le> length xs" "k < length (take (unat n) xs)"
  shows "array_at xs (0 + of_nat k) = Ret (take (unat n) xs ! k)"
proof -
  have "k < unat n" using assms(2) by simp
  then have "k < 2 ^ 32" using unat_less [of n] by (rule less_trans)
  then have "unat (of_nat k :: u32) = k" by (simp add: unat_of_nat take_bit_eq_mod)
  then show ?thesis using assms by (simp add: array_at_def)
qed

lemma AddTail_array_ok:
  assumes "queue_ok q" "alloc_ok alloc" "unat n \<le> length xs" "length (items q) + unat n < 2 ^ 32"
  shows "AddTail_array alloc q xs n = Ret (B_ERROR, q) \<or>
    (\<exists>q'. AddTail_array alloc q xs n = Ret (B_NO_ERROR, q') \<and> queue_ok q' \<and>
       items q' = items q @ take (unat n) xs \<and> (clean q \<and> alloc_blank alloc \<longrightarrow> clean q'))"
proof -
  have "unat (GetNumItems q + n) = length (items q) + length (take (unat n) xs)"
    using assms(3,4) by (simp add: GetNumItems_def unat_word_ariths)
  from append_ok [OF assms(1,2) array_at_take [OF assms(3)] this] show ?thesis
    by (auto simp: AddTail_array_def Let_def)
qed

text \<open>The part of another queue that is added.\<close>

definition part :: "'a queue \<Rightarrow> u32 \<Rightarrow> u32 \<Rightarrow> 'a list" where
  "part other startIndex n = take (unat n) (drop (unat startIndex) (items other))"

lemma length_part:
  "length (part other startIndex n) =
    unat (min n (if startIndex < GetNumItems other then GetNumItems other - startIndex else 0))"
  by (auto simp: part_def GetNumItems_def min_def word_le_nat_alt word_less_nat_alt unat_sub)

lemma Queue_at_part:
  assumes "queue_ok other" "k < length (part other startIndex n)"
  shows "Queue_at other (startIndex + of_nat k) = Ret (part other startIndex n ! k)"
proof -
  have "k < length (items other) - unat startIndex" using assms(2) by (simp add: part_def)
  then have lt: "unat startIndex + k < length (items other)" by linarith
  then have "unat startIndex + k < 2 ^ 32" using items_bound [OF assms(1)] by (simp add: max_slots_def)
  then have "unat (startIndex + of_nat k) = unat startIndex + k"
    by (simp add: unat_word_ariths unat_of_nat take_bit_eq_mod)
  then show ?thesis using Queue_at_ok [OF assms(1)] lt assms(2) by (simp add: part_def)
qed

lemma AddTail_queue_ok:
  assumes "queue_ok q" "alloc_ok alloc" "queue_ok other"
  shows "AddTail_queue alloc q other startIndex n = Ret (B_ERROR, q) \<or>
    (\<exists>q'. AddTail_queue alloc q other startIndex n = Ret (B_NO_ERROR, q') \<and> queue_ok q' \<and>
       items q' = items q @ part other startIndex n \<and> (clean q \<and> alloc_blank alloc \<longrightarrow> clean q'))"
proof -
  have "length (part other startIndex n) \<le> length (items other)" by (simp add: part_def)
  then have "length (items q) + length (part other startIndex n) < 2 ^ 32"
    using items_bound [OF assms(1)] items_bound [OF assms(3)] by (simp add: max_slots_def)
  then have "unat (GetNumItems q + min n (if startIndex < GetNumItems other then GetNumItems other - startIndex else 0))
      = length (items q) + length (part other startIndex n)"
    unfolding length_part by (simp add: unat_word_ariths GetNumItems_def)
  from append_ok [OF assms(1,2) _ this, of "Queue_at other" startIndex] Queue_at_part [OF assms(3)]
  show ?thesis by (auto simp: AddTail_queue_def Let_def)
qed

lemma add_heads_ok:
  assumes "queue_ok q" "\<And>k. k < length ys \<Longrightarrow> get (start + of_nat k) = Ret (ys ! k)"
    "length (items q) + length ys \<le> length (slots q)"
  shows "\<exists>q'. add_heads alloc get (length ys) q start = Ret (B_NO_ERROR, q') \<and> queue_ok q' \<and>
    items q' = ys @ items q \<and> (clean q \<longrightarrow> clean q')"
  using assms
proof (induction ys arbitrary: q rule: rev_induct)
  case (snoc y ys)
  have "unat (q_itemCount q) < length (slots q)" using snoc.prems(3) by simp
  from AddHead_room [OF snoc.prems(1) this, of alloc y] obtain q1 where
    q1: "AddHead alloc q y = Ret (B_NO_ERROR, q1)" "queue_ok q1" "items q1 = y # items q"
      "length (slots q1) = length (slots q)" "clean q \<longrightarrow> clean q1" by blast
  have g: "get (start + of_nat k) = Ret (ys ! k)" if "k < length ys" for k
    using snoc.prems(2) [of k] that by (simp add: nth_append)
  have "length (items q1) + length ys \<le> length (slots q1)"
    using q1(3,4) snoc.prems(3) by (simp del: length_items)
  from snoc.IH [OF q1(2) g this] obtain q' where "add_heads alloc get (length ys) q1 start = Ret (B_NO_ERROR, q')"
    "queue_ok q'" "items q' = ys @ items q1" "clean q1 \<longrightarrow> clean q'" by blast
  then show ?case using snoc.prems(2) [of "length ys"] q1 by auto
qed simp

lemma prepend_ok:
  assumes "queue_ok q" "alloc_ok alloc" "\<And>k. k < length ys \<Longrightarrow> get (start + of_nat k) = Ret (ys ! k)"
    "unat newSize = length (items q) + length ys"
  shows "EnsureSize alloc q newSize False 0 = Ret (B_ERROR, q) \<or>
    (\<exists>q1 q'. EnsureSize alloc q newSize False 0 = Ret (B_NO_ERROR, q1) \<and>
       add_heads alloc get (length ys) q1 start = Ret (B_NO_ERROR, q') \<and>
       queue_ok q' \<and> items q' = ys @ items q \<and> (clean q \<and> alloc_blank alloc \<longrightarrow> clean q'))"
proof -
  have "unat newSize + unat (0 :: u32) < 2 ^ 32" using unsigned_less [where ?'a = nat, of newSize] by simp
  from EnsureSize_ok [OF assms(1,2) this] show ?thesis
  proof (elim disjE exE conjE)
    fix q1 assume r: "EnsureSize alloc q newSize False 0 = Ret (B_NO_ERROR, q1)" "queue_ok q1"
      "items q1 = items q" "unat newSize \<le> length (slots q1)" "clean q \<and> alloc_blank alloc \<longrightarrow> clean q1"
    have "length (items q1) + length ys \<le> length (slots q1)"
      unfolding r(3) using r(4) assms(4) by simp
    from add_heads_ok [OF r(2) assms(3) this] show ?thesis using r by auto
  qed simp
qed

lemma sint_small: "unat (w :: u32) < 2 ^ 31 \<Longrightarrow> sint w = int (unat w)"
proof -
  assume "unat w < 2 ^ 31"
  then have "int (unat w) < int (2 ^ 31)" by (simp only: of_nat_less_iff)
  moreover have "- (2 ^ 31) \<le> int (unat w)" by (rule order_trans [of _ 0]) simp_all
  ultimately have "signed_take_bit 31 (int (unat w)) = int (unat w)"
    unfolding signed_take_bit_int_eq_self_iff by simp
  then show ?thesis by (simp add: sint_uint)
qed

text \<open>The number of rounds of the loops that count down with an \<open>int\<close>.\<close>

lemma countdown:
  assumes "unat (start :: u32) + m \<le> 2 ^ 31" "unat start < 2 ^ 31"
  shows "nat (sint (start + of_nat m - 1) - sint start + 1) = m"
proof (cases "unat start + m = 0")
  case True
  then have "start = 0" "m = 0" by (simp_all add: unat_eq_0)
  then show ?thesis by simp
next
  case False
  have "unat (start + of_nat m) = unat start + m"
    using assms(1) by (simp add: unat_word_ariths unat_of_nat take_bit_eq_mod)
  moreover from this False have "start + of_nat m \<noteq> 0" by auto
  ultimately have "unat (start + of_nat m - 1) = unat start + m - 1" by (simp add: unat_minus_one)
  then have "sint (start + of_nat m - 1) = int (unat start + m - 1)" "sint start = int (unat start)"
    using assms False sint_small [of start] sint_small [of "start + of_nat m - 1"] by simp_all
  then show ?thesis using False by simp
qed

lemma AddHead_queue_ok:
  assumes "queue_ok q" "alloc_ok alloc" "queue_ok other" "unat startIndex < 2 ^ 31"
  shows "AddHead_queue alloc q other startIndex n = Ret (B_ERROR, q) \<or>
    (\<exists>q'. AddHead_queue alloc q other startIndex n = Ret (B_NO_ERROR, q') \<and> queue_ok q' \<and>
       items q' = part other startIndex n @ items q \<and> (clean q \<and> alloc_blank alloc \<longrightarrow> clean q'))"
proof -
  let ?ys = "part other startIndex n"
  obtain m where m: "m = min n (if startIndex < GetNumItems other then GetNumItems other - startIndex else 0)" by simp
  have um: "unat m = length ?ys" unfolding m by (rule length_part [symmetric])
  then have mo: "m = of_nat (length ?ys)" by (simp flip: um)
  have "length ?ys \<le> length (items other)" by (simp add: part_def)
  then have l: "length ?ys \<le> 2 ^ 30" "length ?ys \<noteq> 0 \<Longrightarrow> unat startIndex + length ?ys \<le> 2 ^ 30"
    using items_bound [OF assms(3)] by (auto simp: max_slots_def part_def)
  then have "unat (m + GetNumItems q) = length (items q) + length ?ys"
    using items_bound [OF assms(1)] um by (simp add: unat_word_ariths GetNumItems_def max_slots_def)
  note p = prepend_ok [OF assms(1,2) _ this, of "Queue_at other" startIndex, OF Queue_at_part [OF assms(3)]]
  have "nat (sint (startIndex + m - 1) - sint startIndex + 1) = length ?ys"
    unfolding mo by (rule countdown) (use l assms(4) in \<open>cases "length ?ys = 0"; simp\<close>)+
  then show ?thesis
    using p unfolding AddHead_queue_def Let_def m [symmetric] by auto
qed

lemma AddHead_array_ok:
  assumes "queue_ok q" "alloc_ok alloc" "unat n \<le> length xs" "length (items q) + unat n < 2 ^ 32" "unat n \<le> 2 ^ 31"
  shows "AddHead_array alloc q xs n = Ret (B_ERROR, q) \<or>
    (\<exists>q'. AddHead_array alloc q xs n = Ret (B_NO_ERROR, q') \<and> queue_ok q' \<and>
       items q' = take (unat n) xs @ items q \<and> (clean q \<and> alloc_blank alloc \<longrightarrow> clean q'))"
proof -
  have l: "length (take (unat n) xs) = unat n" using assms(3) by simp
  have "unat (q_itemCount q + n) = length (items q) + length (take (unat n) xs)"
    using assms(3,4) by (simp add: unat_word_ariths)
  note p = prepend_ok [OF assms(1,2) _ this, of "array_at xs" 0, OF array_at_take [OF assms(3)], unfolded l]
  have "nat (sint (n - 1) + 1) = unat n"
    using countdown [of 0 "unat n"] assms(5) by simp
  then show ?thesis
    using p by (auto simp: AddHead_array_def)
qed

section \<open>Removing in the middle\<close>

text \<open>The slot \<open>k\<close> holds item \<open>i\<close>.\<close>

definition slot_of :: "'a queue \<Rightarrow> nat \<Rightarrow> u32 \<Rightarrow> bool" where
  "slot_of q i k \<longleftrightarrow> unat k = (unat (q_headIndex q) + i) mod length (slots q)"

text \<open>Nothing but the contents of the slots differs.\<close>

definition same_window :: "'a queue \<Rightarrow> 'a queue \<Rightarrow> bool" where
  "same_window q q' \<longleftrightarrow> same_array q q' \<and> q_headIndex q' = q_headIndex q \<and> q_tailIndex q' = q_tailIndex q \<and>
     q_itemCount q' = q_itemCount q \<and> q_queueSize q' = q_queueSize q"

lemma same_window_put [simp]: "same_window q (put_item q i x)"
  by (cases "q_queue q")
    (simp_all add: same_window_def put_item_def set_slots_def same_array_def slots_def)

lemma same_window_refl [simp]: "same_window q q"
  by (simp add: same_window_def)

lemma same_window_trans: "same_window q q' \<Longrightarrow> same_window q' q'' \<Longrightarrow> same_window q q''"
  by (auto simp: same_window_def intro: same_array_trans)

lemma slot_of_same: "same_window q q' \<Longrightarrow> slot_of q' i k = slot_of q i k"
  by (simp add: slot_of_def same_window_def same_array_def)

lemma slot_of_put [simp]: "slot_of (put_item q j x) i k = slot_of q i k"
  by (rule slot_of_same) simp

lemma slot_access:
  assumes "queue_ok q" "i < length (items q)" "slot_of q i k"
  shows "read_slot q k = Ret (items q ! i)" "write_slot q k x = Ret (put_item q i x)" "unat k < length (slots q)"
proof -
  have "0 < length (slots q)" using assms(1,2) by (auto simp: queue_ok_def)
  then show l: "unat k < length (slots q)" using assms(3) by (simp add: slot_of_def)
  show "read_slot q k = Ret (items q ! i)" "write_slot q k x = Ret (put_item q i x)"
    using l assms by (simp_all add: read_slot_def write_slot_ok put_item_def items_def slot_of_def)
qed

lemma slot_of_inj:
  assumes "queue_ok q" "slot_of q i k" "slot_of q j k" "i < length (items q)" "j < length (items q)"
  shows "i = j"
proof -
  have "length (items q) \<le> length (slots q)" using assms(1) by (simp add: queue_ok_def)
  then show ?thesis using mod_add_cancel assms(2-) unfolding slot_of_def by (metis less_le_trans)
qed

lemma slot_of_head: "queue_ok q \<Longrightarrow> items q \<noteq> [] \<Longrightarrow> slot_of q 0 (q_headIndex q)"
  using queue_okD(5) [of q] queue_ok_nonempty [of q] by (simp add: slot_of_def)

lemma slot_of_tail: "queue_ok q \<Longrightarrow> items q \<noteq> [] \<Longrightarrow> slot_of q (length (items q) - 1) (q_tailIndex q)"
  using tail_slot [of q] by (simp add: slot_of_def)

lemma slot_of_prev:
  assumes "queue_ok q" "slot_of q (Suc i) k" "Suc i < length (items q)"
  shows "slot_of q i (PrevIndex q k)"
proof -
  have nn: "q_queue q \<noteq> QNull" using assms(1,3) by (auto simp: queue_ok_def slots_def)
  note qd = queue_okD [OF assms(1) nn]
  have "unat (PrevIndex q k) = (unat k + (length (slots q) - 1)) mod length (slots q)"
    using PrevIndex_ok [of k q] slot_access(3) [OF assms(1,3,2)] qd(1,2) by simp
  also have "\<dots> = (unat (q_headIndex q) + Suc i + (length (slots q) - 1)) mod length (slots q)"
    using assms(2) by (simp add: slot_of_def mod_simps)
  also have "unat (q_headIndex q) + Suc i + (length (slots q) - 1) = unat (q_headIndex q) + i + length (slots q)"
    using qd(2) by simp
  finally show ?thesis by (simp add: slot_of_def)
qed

lemma slot_of_next:
  assumes "queue_ok q" "slot_of q i k" "i < length (items q)"
  shows "slot_of q (Suc i) (NextIndex q k)"
proof -
  have nn: "q_queue q \<noteq> QNull" using assms(1,3) by (auto simp: queue_ok_def slots_def)
  have "unat (NextIndex q k) = Suc (unat k) mod length (slots q)"
    using NextIndex_ok [of k q] slot_access(3) [OF assms(1,3,2)] queue_okD(1) [OF assms(1) nn] by simp
  then show ?thesis using assms(2) by (simp add: slot_of_def mod_simps)
qed

text \<open>Shifting the items before or after \<open>i\<close> by one.\<close>

lemma shift_from_head_ok:
  assumes "queue_ok q" "slot_of q i k" "i < length (items q)" "i \<le> n"
  shows "\<exists>q'. shift_from_head n q k = Ret q' \<and> queue_ok q' \<and> same_window q q' \<and>
    items q' = hd (items q) # take i (items q) @ drop (Suc i) (items q) \<and> (clean q \<longrightarrow> clean q')"
  using assms
proof (induction i arbitrary: q k n)
  case 0
  have "items q \<noteq> []" using 0(3) by auto
  moreover from this have "k = q_headIndex q"
    using 0(2) slot_of_head [OF 0(1)] by (simp add: slot_of_def word_unat_eq_iff)
  moreover from \<open>items q \<noteq> []\<close> have "hd (items q) # drop (Suc 0) (items q) = items q" by (cases "items q") auto
  ultimately show ?case using 0(1) by (cases n) auto
next
  case (Suc i)
  obtain m where m: "n = Suc m" using Suc.prems(4) by (cases n) auto
  have i: "i < length (items q)" using Suc.prems(3) by simp
  have ne: "items q \<noteq> []" using i by auto
  have "k \<noteq> q_headIndex q"
    using slot_of_inj [OF Suc.prems(1,2) _ Suc.prems(3), of 0] slot_of_head [OF Suc.prems(1) ne] i by auto
  moreover have p: "slot_of q i (PrevIndex q k)" by (rule slot_of_prev [OF Suc.prems(1-3)])
  moreover note slot_access(1) [OF Suc.prems(1) i p] slot_access(2) [OF Suc.prems(1,3,2)]
  ultimately have run: "shift_from_head n q k = shift_from_head m (put_item q (Suc i) (items q ! i)) (PrevIndex q k)"
    by (simp add: m Let_def)
  let ?q1 = "put_item q (Suc i) (items q ! i)"
  have q1: "queue_ok ?q1" "slot_of ?q1 i (PrevIndex q k)" "i < length (items ?q1)" "i \<le> m"
    using Suc.prems p i m by auto
  from Suc.IH [OF q1] obtain q' where q': "shift_from_head m ?q1 (PrevIndex q k) = Ret q'" "queue_ok q'"
    "same_window ?q1 q'" "items q' = hd (items ?q1) # take i (items ?q1) @ drop (Suc i) (items ?q1)"
    "clean ?q1 \<longrightarrow> clean q'" by blast
  have "items q' = hd (items q) # take (Suc i) (items q) @ drop (Suc (Suc i)) (items q)"
    using Suc.prems(1,3) i ne
    by (simp add: q'(4) hd_conv_nth take_Suc_conv_app_nth Cons_nth_drop_Suc [symmetric] del: length_items)
  then show ?case
    using run q' same_window_trans [OF same_window_put q'(3)] clean_put_item [OF Suc.prems(1) _ Suc.prems(3)]
    by (intro exI [of _ q']) auto
qed

lemma shift_from_tail_ok:
  assumes "queue_ok q" "slot_of q i k" "i + m = length (items q) - 1" "items q \<noteq> []" "m \<le> n"
  shows "\<exists>q'. shift_from_tail n q k = Ret q' \<and> queue_ok q' \<and> same_window q q' \<and>
    items q' = take i (items q) @ drop (Suc i) (items q) @ [last (items q)] \<and> (clean q \<longrightarrow> clean q')"
  using assms
proof (induction m arbitrary: q k i n)
  case 0
  have "k = q_tailIndex q"
    using 0(2,3) slot_of_tail [OF 0(1,4)] by (simp add: slot_of_def word_unat_eq_iff)
  moreover have "take i (items q) @ drop (Suc i) (items q) @ [last (items q)] = items q"
    using 0(3,4) append_butlast_last_id [OF 0(4)] by (simp add: butlast_conv_take)
  ultimately show ?case using 0(1) by (cases n) auto
next
  case (Suc m)
  obtain l where l: "n = Suc l" using Suc.prems(5) by (cases n) auto
  have i: "i < length (items q)" "Suc i < length (items q)" using Suc.prems(3) by simp_all
  have "k \<noteq> q_tailIndex q"
    using slot_of_inj [OF Suc.prems(1,2) _ i(1), of "length (items q) - 1"] slot_of_tail [OF Suc.prems(1,4)]
      Suc.prems(3) by fastforce
  moreover have p: "slot_of q (Suc i) (NextIndex q k)" by (rule slot_of_next [OF Suc.prems(1,2) i(1)])
  moreover note slot_access(1) [OF Suc.prems(1) i(2) p] slot_access(2) [OF Suc.prems(1) i(1) Suc.prems(2)]
  ultimately have run: "shift_from_tail n q k = shift_from_tail l (put_item q i (items q ! Suc i)) (NextIndex q k)"
    by (simp add: l Let_def)
  let ?q1 = "put_item q i (items q ! Suc i)"
  have q1: "queue_ok ?q1" "slot_of ?q1 (Suc i) (NextIndex q k)" "Suc i + m = length (items ?q1) - 1"
    "items ?q1 \<noteq> []" "m \<le> l"
    using Suc.prems p l by auto
  from Suc.IH [OF q1] obtain q' where q': "shift_from_tail l ?q1 (NextIndex q k) = Ret q'" "queue_ok q'"
    "same_window ?q1 q'" "items q' = take (Suc i) (items ?q1) @ drop (Suc (Suc i)) (items ?q1) @ [last (items ?q1)]"
    "clean ?q1 \<longrightarrow> clean q'" by blast
  have "items q' = take i (items q) @ drop (Suc i) (items q) @ [last (items q)]"
    using Suc.prems(1,4) i less_imp_neq [of "Suc i" "length (items q)"]
    by (auto simp add: q'(4) last_list_update take_Suc_conv_app_nth Cons_nth_drop_Suc [symmetric] del: length_items)
  then show ?case
    using run q' same_window_trans [OF same_window_put q'(3)] clean_put_item [OF Suc.prems(1) _ i(1)]
    by (intro exI [of _ q']) auto
qed

text \<open>The last step is the removal of the item that is now at the end.\<close>

lemma RemoveItemAt_ok:
  assumes "queue_ok q" "unat i < length (items q)"
  shows "\<exists>q'. RemoveItemAt q i = Ret (B_NO_ERROR, q') \<and> queue_ok q' \<and>
    items q' = take (unat i) (items q) @ drop (Suc (unat i)) (items q) \<and> (clean q \<longrightarrow> clean q')"
proof -
  obtain k where k: "InternalizeIndex q i = Ret k" "slot_of q (unat i) k"
    using InternalizeIndex_ok [OF assms(1) _ items_less(2) [OF assms]] items_less(1) [OF assms]
    by (auto simp: slot_of_def)
  have ne: "items q \<noteq> []" using assms(2) by auto
  have out: "\<not> i \<ge> q_itemCount q" using items_less(3) [OF assms] .
  show ?thesis
  proof (cases "i < q_itemCount q div 2")
    case True
    have "unat i \<le> unat (q_itemCount q)" using assms(2) by simp
    from shift_from_head_ok [OF assms(1) k(2) assms(2) this] obtain q1 where
      q1: "shift_from_head (unat (q_itemCount q)) q k = Ret q1" "queue_ok q1" "same_window q q1"
        "items q1 = hd (items q) # take (unat i) (items q) @ drop (Suc (unat i)) (items q)"
        "clean q \<longrightarrow> clean q1" by blast
    have "q_itemCount q1 \<noteq> 0" using q1(3) ne by (simp add: same_window_def)
    from RemoveHead_ok [OF q1(2) this] obtain q2 where
      q2: "RemoveHead q1 = Ret (B_NO_ERROR, q2)" "queue_ok q2" "items q2 = tl (items q1)" "clean q1 \<longrightarrow> clean q2"
      by blast
    from q2(1) \<open>q_itemCount q1 \<noteq> 0\<close> have
      "write_slot (q1\<lparr>q_headIndex := NextIndex q1 (q_headIndex q1), q_itemCount := q_itemCount q1 - 1\<rparr>)
         (q_headIndex q1) default = Ret q2"
      by (auto simp: RemoveHead_def Let_def run_simps split: if_splits)
    then have "RemoveItemAt q i = Ret (B_NO_ERROR, q2)"
      using k(1) out True q1(1) by (simp add: RemoveItemAt_def)
    then show ?thesis using q1 q2 by auto
  next
    case False
    have a: "unat i + (length (items q) - 1 - unat i) = length (items q) - 1"
      "length (items q) - 1 - unat i \<le> unat (q_itemCount q)" using assms(2) by simp_all
    from shift_from_tail_ok [OF assms(1) k(2) a(1) ne a(2)] obtain q1 where
      q1: "shift_from_tail (unat (q_itemCount q)) q k = Ret q1" "queue_ok q1" "same_window q q1"
        "items q1 = take (unat i) (items q) @ drop (Suc (unat i)) (items q) @ [last (items q)]"
        "clean q \<longrightarrow> clean q1" by blast
    have "q_itemCount q1 \<noteq> 0" using q1(3) ne by (simp add: same_window_def)
    from RemoveTail_ok [OF q1(2) this] obtain q2 where
      q2: "RemoveTail q1 = Ret (B_NO_ERROR, q2)" "queue_ok q2" "items q2 = butlast (items q1)" "clean q1 \<longrightarrow> clean q2"
      by blast
    from q2(1) \<open>q_itemCount q1 \<noteq> 0\<close> have
      "write_slot (q1\<lparr>q_tailIndex := PrevIndex q1 (q_tailIndex q1), q_itemCount := q_itemCount q1 - 1\<rparr>)
         (q_tailIndex q1) default = Ret q2"
      by (auto simp: RemoveTail_def Let_def run_simps split: if_splits)
    then have "RemoveItemAt q i = Ret (B_NO_ERROR, q2)"
      using k(1) out False q1(1) by (simp add: RemoveItemAt_def)
    moreover have "items q2 = take (unat i) (items q) @ drop (Suc (unat i)) (items q)"
      using q2(3) q1(4) by (simp add: butlast_append)
    ultimately show ?thesis using q1 q2 by auto
  qed
qed

lemma RemoveItemAt_out: "unat i \<ge> length (items q) \<Longrightarrow> RemoveItemAt q i = Ret (B_ERROR, q)"
  by (simp add: RemoveItemAt_def word_le_nat_alt)

section \<open>Inserting in the middle\<close>

lemma shift_down_ok:
  assumes "queue_ok q" "unat i + n < length (items q)"
  shows "\<exists>q'. shift_down n q i = Ret q' \<and> queue_ok q' \<and>
    items q' = take (unat i) (items q) @ take n (drop (Suc (unat i)) (items q)) @ drop (unat i + n) (items q) \<and>
    (clean q \<longrightarrow> clean q')"
  using assms
proof (induction n arbitrary: q i)
  case 0
  then show ?case by simp
next
  case (Suc n)
  have i: "unat i < length (items q)" "Suc (unat i) < length (items q)" using Suc.prems(2) by simp_all
  then have i1: "unat (i + 1) = Suc (unat i)"
    using items_bound [OF Suc.prems(1)] by (intro unat_Suc_index) simp
  let ?q1 = "put_item q (unat i) (items q ! Suc (unat i))"
  have q1: "queue_ok ?q1" "unat (i + 1) + n < length (items ?q1)" using Suc.prems i1 by auto
  from Suc.IH [OF q1] obtain q' where q': "shift_down n ?q1 (i + 1) = Ret q'" "queue_ok q'"
    "items q' = take (Suc (unat i)) (items ?q1) @ take n (drop (Suc (Suc (unat i))) (items ?q1)) @
       drop (Suc (unat i) + n) (items ?q1)" "clean ?q1 \<longrightarrow> clean q'" by (auto simp: i1)
  have run: "shift_down (Suc n) q i = shift_down n ?q1 (i + 1)"
    using GetItemPointer_ok [OF Suc.prems(1), of "i + 1"] ReplaceItemAt_ok [OF Suc.prems(1) i(1)] i(2) i1 by simp
  have "items q' = take (unat i) (items q) @ take (Suc n) (drop (Suc (unat i)) (items q)) @ drop (unat i + Suc n) (items q)"
    using Suc.prems(1) i
    by (simp add: q'(3) take_Suc_conv_app_nth Cons_nth_drop_Suc [symmetric] del: length_items)
  then show ?case using run q' clean_put_item [OF Suc.prems(1) _ i(1)] by auto
qed

lemma shift_up_step:
  assumes "Suc n \<le> j" "j < length xs" "ys = xs[j := xs ! (j - 1)]"
  shows "take (Suc (j - 1 - n)) ys @ take n (drop (j - 1 - n) ys) @ drop (Suc (j - 1)) ys =
    take (Suc (j - Suc n)) xs @ take (Suc n) (drop (j - Suc n) xs) @ drop (Suc j) xs"
proof -
  obtain d where d: "j = d + Suc n" using assms(1) le_Suc_ex by (metis add.commute)
  have "take (Suc n) (drop d xs) = take n (drop d xs) @ [xs ! (d + n)]"
    using assms(2) by (simp add: d take_Suc_conv_app_nth)
  moreover have "drop (d + Suc n) ys = xs ! (d + n) # drop (Suc (d + Suc n)) xs"
    using assms(2,3) by (simp add: d Cons_nth_drop_Suc [symmetric])
  moreover have "take n (drop d ys) = take n (drop d xs)" "take (Suc d) ys = take (Suc d) xs"
    using assms(3) by (simp_all add: d drop_update_swap)
  ultimately show ?thesis by (simp add: d)
qed

lemma shift_up_ok:
  assumes "queue_ok q" "n \<le> unat i" "unat i < length (items q)"
  shows "\<exists>q'. shift_up n q i = Ret q' \<and> queue_ok q' \<and>
    items q' = take (Suc (unat i - n)) (items q) @ take n (drop (unat i - n) (items q)) @ drop (Suc (unat i)) (items q) \<and>
    (clean q \<longrightarrow> clean q')"
  using assms
proof (induction n arbitrary: q i)
  case 0
  then show ?case by simp
next
  case (Suc n)
  have "i \<noteq> 0" using Suc.prems(2) by auto
  then have i1: "unat (i - 1) = unat i - 1" by (rule unat_minus_one)
  let ?q1 = "put_item q (unat i) (items q ! (unat i - 1))"
  have q1: "queue_ok ?q1" "n \<le> unat (i - 1)" "unat (i - 1) < length (items ?q1)" using Suc.prems i1 by auto
  from Suc.IH [OF q1] obtain q' where q': "shift_up n ?q1 (i - 1) = Ret q'" "queue_ok q'"
    "items q' = take (Suc (unat i - 1 - n)) (items ?q1) @ take n (drop (unat i - 1 - n) (items ?q1)) @
       drop (Suc (unat i - 1)) (items ?q1)" "clean ?q1 \<longrightarrow> clean q'" by (auto simp: i1)
  have run: "shift_up (Suc n) q i = shift_up n ?q1 (i - 1)"
    using GetItemPointer_ok [OF Suc.prems(1), of "i - 1"] ReplaceItemAt_ok [OF Suc.prems(1,3)] Suc.prems(3) i1 by simp
  have "items q' = take (Suc (unat i - Suc n)) (items q) @ take (Suc n) (drop (unat i - Suc n) (items q)) @
      drop (Suc (unat i)) (items q)"
    unfolding q'(3) using Suc.prems by (intro shift_up_step) simp_all
  then show ?case using run q' clean_put_item [OF Suc.prems(1) _ Suc.prems(3)] by auto
qed

lemma insert_at_gap:
  assumes "i \<le> length xs" "tl ys = drop i xs" "ys \<noteq> []"
  shows "(take i xs @ ys)[i := x] = take i xs @ x # drop i xs"
  using assms by (cases ys) (simp_all add: list_update_append)

lemma InsertItemAt_ok:
  assumes "queue_ok q" "alloc_ok alloc" "unat i \<le> length (items q)"
  shows "if has_room alloc q then
      \<exists>q'. InsertItemAt alloc q i x = Ret (B_NO_ERROR, q') \<and> queue_ok q' \<and>
        items q' = take (unat i) (items q) @ x # drop (unat i) (items q) \<and> (clean q \<and> alloc_blank alloc \<longrightarrow> clean q')
    else InsertItemAt alloc q i x = Ret (B_ERROR, q)"
proof -
  note fails = AddTail_fails [OF assms(1,2)] AddHead_fails [OF assms(1,2)]
  have le: "\<not> i > q_itemCount q" using assms(3) by (simp add: word_less_nat_alt not_less)
  consider "i = q_itemCount q" | "i \<noteq> q_itemCount q" "i = 0"
    | "i \<noteq> q_itemCount q" "i \<noteq> 0" "i < q_itemCount q div 2"
    | "i \<noteq> q_itemCount q" "i \<noteq> 0" "\<not> i < q_itemCount q div 2" by blast
  then show ?thesis
  proof cases
    case 1
    then show ?thesis using AddTail_ok [OF assms(1,2), of x] fails(1) [of x] by (auto simp: InsertItemAt_def)
  next
    case 2
    then have "0 < q_itemCount q" by (simp add: word_neq_0_conv [symmetric])
    then show ?thesis using 2 AddHead_ok [OF assms(1,2), of x] fails(2) [of x] by (auto simp: InsertItemAt_def)
  next
    case 3
    from AddHead_ok [OF assms(1,2), of default] show ?thesis
    proof (elim disjE exE conjE)
      fix q1 assume q1: "AddHead alloc q default = Ret (B_NO_ERROR, q1)" "queue_ok q1" "items q1 = default # items q"
        "clean q \<and> alloc_blank alloc \<longrightarrow> clean q1"
      have "unat (0 :: u32) + unat i < length (items q1)" unfolding q1(3) using assms(3) by simp
      from shift_down_ok [OF q1(2) this] obtain q2 where q2: "shift_down (unat i) q1 0 = Ret q2" "queue_ok q2"
        "items q2 = take (unat i) (items q) @ drop (unat i) (default # items q)" "clean q1 \<longrightarrow> clean q2"
        unfolding q1(3) by auto
      have i: "unat i < length (items q2)" unfolding q2(3) using assms(3) by simp
      have "items (put_item q2 (unat i) x) = take (unat i) (items q) @ x # drop (unat i) (items q)"
        using i q2(2) assms(3) insert_at_gap [OF assms(3), of "drop (unat i) (default # items q)"]
        by (simp add: q2(3) tl_drop del: length_items)
      moreover have "has_room alloc q" using fails(2) [of default] q1(1) by simp
      ultimately show ?thesis
        using 3 le q1(1,4) q2 ReplaceItemAt_ok [OF q2(2) i] clean_put_item [OF q2(2) _ i]
        by (auto simp: InsertItemAt_def)
    qed (use 3 le fails(2) [of default] in \<open>simp add: InsertItemAt_def\<close>)
  next
    case 4
    from AddTail_ok [OF assms(1,2), of default] show ?thesis
    proof (elim disjE exE conjE)
      fix q1 assume q1: "AddTail alloc q default = Ret (B_NO_ERROR, q1)" "queue_ok q1" "items q1 = items q @ [default]"
        "clean q \<and> alloc_blank alloc \<longrightarrow> clean q1"
      let ?n = "length (items q)"
      have n1: "unat (q_itemCount q1) = Suc ?n" using q1(3) length_items [of q1] by simp
      then have c: "q_itemCount q1 \<noteq> 0" by auto
      then have un: "unat (q_itemCount q1 - 1) = ?n" using n1 by (simp add: unat_minus_one)
      have "Suc ?n \<le> 2 ^ 30" using items_bound [OF q1(2)] n1 by (simp add: max_slots_def)
      then have rounds: "nat (sint (q_itemCount q1) - 1 - sint i) = ?n - unat i"
      proof -
        have "sint (q_itemCount q1) = int (Suc ?n)" "sint i = int (unat i)"
          using sint_small [of "q_itemCount q1"] sint_small [of i] n1 assms(3) \<open>Suc ?n \<le> 2 ^ 30\<close> by simp_all
        then show ?thesis unfolding \<open>sint i = _\<close> \<open>sint (q_itemCount q1) = _\<close> by linarith
      qed
      have lt: "?n - unat i \<le> unat (q_itemCount q1 - 1)" "unat (q_itemCount q1 - 1) < length (items q1)"
        unfolding un q1(3) by simp_all
      from shift_up_ok [OF q1(2) lt] obtain q2 where q2: "shift_up (?n - unat i) q1 (q_itemCount q1 - 1) = Ret q2"
        "queue_ok q2" "items q2 = take (Suc (unat i)) (items q1) @ take (?n - unat i) (drop (unat i) (items q1))"
        "clean q1 \<longrightarrow> clean q2"
        unfolding un using assms(3) by (auto simp: q1(3) simp del: length_items)
      have it: "items q2 = take (unat i) (items q) @ (items q1 ! unat i # drop (unat i) (items q))"
      proof -
        have "unat i < length (items q1)" unfolding q1(3) using assms(3) by simp
        then have "take (Suc (unat i)) (items q1) = take (unat i) (items q1) @ [items q1 ! unat i]"
          by (rule take_Suc_conv_app_nth)
        then show ?thesis using assms(3) by (simp add: q2(3)) (simp add: q1(3))
      qed
      then have i: "unat i < length (items q2)" using assms(3) by simp
      have "items (put_item q2 (unat i) x) = take (unat i) (items q) @ x # drop (unat i) (items q)"
        using i q2(2) insert_at_gap [OF assms(3), of "items q1 ! unat i # drop (unat i) (items q)"]
        by (simp add: it del: length_items)
      moreover have "has_room alloc q" using fails(1) [of default] q1(1) by simp
      ultimately show ?thesis
        using 4 le q1(1,4) q2 rounds ReplaceItemAt_ok [OF q2(2) i] clean_put_item [OF q2(2) _ i]
        by (auto simp: InsertItemAt_def)
    qed (use 4 le fails(1) [of default] in \<open>simp add: InsertItemAt_def\<close>)
  qed
qed

lemma InsertItemAt_out: "unat i > length (items q) \<Longrightarrow> InsertItemAt alloc q i x = Ret (B_ERROR, q)"
  by (simp add: InsertItemAt_def word_less_nat_alt)

end
