(* ===== verification/Queue_More.thy ===== *)
theory Queue_More
  imports Queue_Bulk
begin

text \<open>
  The remaining operations of \<^verbatim>\<open>util/Queue.h\<close> except sorting: comparison and assignment, search,
  swapping and reversing, removal by value, prefixes and suffixes, the exchange of the
  contents of two queues.
\<close>

section \<open>The operations\<close>

fun equal_items :: "nat \<Rightarrow> 'a queue \<Rightarrow> 'a queue \<Rightarrow> bool run" where
  "equal_items 0 q rhs = Ret True"
| "equal_items (Suc n) q rhs =
     bind_run (Queue_at q (of_nat n)) (\<lambda>x. bind_run (Queue_at rhs (of_nat n)) (\<lambda>y.
       if x \<noteq> y then Ret False else equal_items n q rhs))"

definition Queue_eq :: "'a queue \<Rightarrow> 'a queue \<Rightarrow> bool run" where
  "Queue_eq q rhs =
     (if GetNumItems q \<noteq> GetNumItems rhs then Ret False
      else equal_items (nat (sint (GetNumItems q - 1) + 1)) q rhs)"

definition Queue_assign :: "(u32 \<Rightarrow> ('a :: default) list option) \<Rightarrow> 'a queue \<Rightarrow> 'a queue \<Rightarrow> 'a queue run" where
  "Queue_assign alloc q rhs =
     (let numItems = GetNumItems rhs
      in bind_run (EnsureSize alloc q numItems True 0) (\<lambda>(st, q).
           if st = B_NO_ERROR then assign_items (Queue_at rhs) (unat numItems) q 0 0 else Ret q))"

definition Queue_copy ::
    "(u32 \<Rightarrow> ('a :: default) list option) \<Rightarrow> 'a list \<Rightarrow> u32 \<Rightarrow> u32 \<Rightarrow> 'a queue \<Rightarrow> 'a queue run" where
  "Queue_copy alloc small h t rhs = Queue_assign alloc (Queue_new (q_initialSize rhs) small h t) rhs"

text \<open>\<open>n\<close> rounds of a search downwards from the index \<open>n - 1\<close>.\<close>

fun index_down :: "nat \<Rightarrow> 'a queue \<Rightarrow> 'a \<Rightarrow> int run" where
  "index_down 0 q x = Ret (- 1)"
| "index_down (Suc n) q x =
     bind_run (GetItemPointer q (of_nat n)) (\<lambda>y. if y = x then Ret (int n) else index_down n q x)"

definition IndexOf :: "'a queue \<Rightarrow> 'a \<Rightarrow> int run" where
  "IndexOf q item = (if q_queue q \<noteq> QNull then index_down (nat (sint (GetNumItems q))) q item else Ret (- 1))"

definition Swap :: "'a queue \<Rightarrow> u32 \<Rightarrow> u32 \<Rightarrow> 'a queue run" where
  "Swap q fromIndex toIndex =
     bind_run (GetItemPointer q fromIndex) (\<lambda>temp.
     bind_run (GetItemPointer q toIndex) (\<lambda>x.
     bind_run (ReplaceItemAt q fromIndex x) (\<lambda>(_, q).
     bind_run (ReplaceItemAt q toIndex temp) (\<lambda>(_, q). Ret q))))"

fun reverse_loop :: "nat \<Rightarrow> 'a queue \<Rightarrow> u32 \<Rightarrow> u32 \<Rightarrow> 'a queue run" where
  "reverse_loop 0 q i j = (if i < j then NoFuel else Ret q)"
| "reverse_loop (Suc n) q i j =
     (if i < j then bind_run (Swap q i j) (\<lambda>q. reverse_loop n q (i + 1) (j - 1)) else Ret q)"

definition ReverseItemOrdering :: "'a queue \<Rightarrow> u32 \<Rightarrow> u32 \<Rightarrow> 'a queue run" where
  "ReverseItemOrdering q fro till =
     (let sz = GetNumItems q
      in if sz > 0 then
           let till = till - 1;
               till = (if till \<ge> sz then sz - 1 else till)
           in reverse_loop (unat sz) q fro till
         else Ret q)"

fun remove_first_from :: "nat \<Rightarrow> ('a :: default) queue \<Rightarrow> 'a \<Rightarrow> u32 \<Rightarrow> (status \<times> 'a queue) run" where
  "remove_first_from 0 q val i = Ret (B_ERROR, q)"
| "remove_first_from (Suc n) q val i =
     bind_run (Queue_at q i) (\<lambda>x. if x = val then RemoveItemAt q i else remove_first_from n q val (i + 1))"

definition RemoveFirstInstanceOf :: "('a :: default) queue \<Rightarrow> 'a \<Rightarrow> (status \<times> 'a queue) run" where
  "RemoveFirstInstanceOf q val = remove_first_from (unat (GetNumItems q)) q val 0"

fun remove_last_down :: "nat \<Rightarrow> ('a :: default) queue \<Rightarrow> 'a \<Rightarrow> (status \<times> 'a queue) run" where
  "remove_last_down 0 q val = Ret (B_ERROR, q)"
| "remove_last_down (Suc n) q val =
     bind_run (Queue_at q (of_nat n)) (\<lambda>x.
       if x = val then RemoveItemAt q (of_nat n) else remove_last_down n q val)"

definition RemoveLastInstanceOf :: "('a :: default) queue \<Rightarrow> 'a \<Rightarrow> (status \<times> 'a queue) run" where
  "RemoveLastInstanceOf q val = remove_last_down (nat (sint (GetNumItems q))) q val"

text \<open>
  \<open>RemoveAllInstancesOf\<close>: the loop that moves the items to keep to the front, then the one that
  removes what is left over at the end.
\<close>

fun keep_others :: "nat \<Rightarrow> 'a queue \<Rightarrow> 'a \<Rightarrow> u32 \<Rightarrow> u32 \<Rightarrow> u32 \<Rightarrow> ('a queue \<times> u32 \<times> u32) run" where
  "keep_others 0 q val readFrom writeTo ret = Ret (q, writeTo, ret)"
| "keep_others (Suc n) q val readFrom writeTo ret =
     bind_run (Queue_at q readFrom) (\<lambda>nextRead.
       if nextRead = val then keep_others n q val (readFrom + 1) writeTo (ret + 1)
       else bind_run (if readFrom > writeTo then Queue_at_put q writeTo nextRead else Ret q) (\<lambda>q.
              keep_others n q val (readFrom + 1) (writeTo + 1) ret))"

fun remove_tails :: "nat \<Rightarrow> ('a :: default) queue \<Rightarrow> 'a queue run" where
  "remove_tails 0 q = Ret q"
| "remove_tails (Suc n) q = bind_run (RemoveTail q) (\<lambda>(_, q). remove_tails n q)"

definition RemoveAllInstancesOf :: "('a :: default) queue \<Rightarrow> 'a \<Rightarrow> (u32 \<times> 'a queue) run" where
  "RemoveAllInstancesOf q val =
     (let origSize = GetNumItems q
      in bind_run (keep_others (unat origSize) q val 0 0 0) (\<lambda>(q, writeTo, ret).
           bind_run (remove_tails (unat origSize - unat writeTo) q) (\<lambda>q. Ret (ret, q))))"

definition StartsWith_item :: "'a queue \<Rightarrow> 'a \<Rightarrow> bool run" where
  "StartsWith_item q prefix =
     (if GetNumItems q > 0 then bind_run (GetItemPointer q 0) (\<lambda>x. Ret (x = prefix)) else Ret False)"

definition EndsWith_item :: "'a queue \<Rightarrow> 'a \<Rightarrow> bool run" where
  "EndsWith_item q suffix =
     (if GetNumItems q > 0 then bind_run (GetItemPointer q (q_itemCount q - 1)) (\<lambda>x. Ret (x = suffix))
      else Ret False)"

fun prefix_from :: "nat \<Rightarrow> 'a queue \<Rightarrow> 'a queue \<Rightarrow> u32 \<Rightarrow> bool run" where
  "prefix_from 0 p q i = Ret True"
| "prefix_from (Suc n) p q i =
     bind_run (Queue_at p i) (\<lambda>x. bind_run (Queue_at q i) (\<lambda>y.
       if x \<noteq> y then Ret False else prefix_from n p q (i + 1)))"

definition StartsWith :: "'a queue \<Rightarrow> 'a queue \<Rightarrow> bool run" where
  "StartsWith q prefixQueue =
     (if GetNumItems prefixQueue > GetNumItems q then Ret False
      else prefix_from (unat (GetNumItems prefixQueue)) prefixQueue q 0)"

fun suffix_down :: "nat \<Rightarrow> 'a queue \<Rightarrow> 'a queue \<Rightarrow> u32 \<Rightarrow> bool run" where
  "suffix_down 0 s q i = Ret True"
| "suffix_down (Suc n) s q i =
     bind_run (Queue_at s i) (\<lambda>x. bind_run (Queue_at q i) (\<lambda>y.
       if x \<noteq> y then Ret False else suffix_down n s q (i - 1)))"

definition EndsWith :: "'a queue \<Rightarrow> 'a queue \<Rightarrow> bool run" where
  "EndsWith q suffixQueue =
     (if GetNumItems suffixQueue > GetNumItems q then Ret False
      else
        let lastToCheck = sint (GetNumItems q - GetNumItems suffixQueue);
            i = GetNumItems q - 1
        in suffix_down (nat (sint i - lastToCheck + 1)) suffixQueue q i)"

text \<open>\<open>GetArrayPointerAux\<close>: the index of the first slot and the number of items of a sub-array.\<close>

definition GetArrayPointerAux :: "'a queue \<Rightarrow> u32 \<Rightarrow> (u32 \<times> u32) option" where
  "GetArrayPointerAux q whichArray =
     (if q_itemCount q > 0 then
        if whichArray = 0 then
          Some (q_headIndex q,
                if q_headIndex q \<le> q_tailIndex q then (q_tailIndex q - q_headIndex q) + 1
                else q_queueSize q - q_headIndex q)
        else if whichArray = 1 \<and> q_headIndex q > q_tailIndex q then Some (0, q_tailIndex q + 1)
        else None
      else None)"

section \<open>Exchanging the contents of two queues\<close>

fun copy_to_small :: "nat \<Rightarrow> 'a queue \<Rightarrow> 'a list \<Rightarrow> u32 \<Rightarrow> 'a list run" where
  "copy_to_small 0 q small i = Ret small"
| "copy_to_small (Suc n) q small i =
     bind_run (Queue_at q i) (\<lambda>x.
     bind_run (guard (unat i < length small)) (\<lambda>_. copy_to_small n q (small[unat i := x]) (i + 1)))"

definition SwapContentsAux :: "'a queue \<Rightarrow> 'a queue \<Rightarrow> ('a queue \<times> 'a queue) run" where
  "SwapContentsAux q largeThat =
     (let ni = GetNumItems q
      in bind_run (copy_to_small (unat ni) q (q_smallQueue largeThat) 0) (\<lambda>small.
           let q' = q\<lparr>q_queue := q_queue largeThat, q_queueSize := q_queueSize largeThat,
                      q_headIndex := q_headIndex largeThat, q_tailIndex := q_tailIndex largeThat\<rparr>;
               that = largeThat\<lparr>q_smallQueue := small\<rparr>;
               that = (if ni > 0
                       then that\<lparr>q_queue := QSmall, q_queueSize := of_nat SMALL_QUEUE_SIZE,
                                 q_headIndex := 0, q_tailIndex := ni - 1\<rparr>
                       else that\<lparr>q_queue := QNull, q_queueSize := 0\<rparr>)
           in Ret (q'\<lparr>q_itemCount := q_itemCount largeThat\<rparr>, that\<lparr>q_itemCount := q_itemCount q\<rparr>)))"

fun swap_items :: "nat \<Rightarrow> 'a queue \<Rightarrow> 'a queue \<Rightarrow> u32 \<Rightarrow> ('a queue \<times> 'a queue) run" where
  "swap_items 0 q that i = Ret (q, that)"
| "swap_items (Suc n) q that i =
     bind_run (Queue_at q i) (\<lambda>x. bind_run (Queue_at that i) (\<lambda>y.
     bind_run (Queue_at_put q i y) (\<lambda>q. bind_run (Queue_at_put that i x) (\<lambda>that.
       swap_items n q that (i + 1)))))"

definition SwapContents ::
    "(u32 \<Rightarrow> ('a :: default) list option) \<Rightarrow> 'a queue \<Rightarrow> 'a queue \<Rightarrow> ('a queue \<times> 'a queue) run" where
  "SwapContents alloc q that =
     (let thisSmall = (q_queue q = QSmall);
          thatSmall = (q_queue that = QSmall)
      in if thisSmall \<and> thatSmall then
           let commonSize = min (GetNumItems q) (GetNumItems that);
               sizeDiff = sint (GetNumItems q) - sint (GetNumItems that);
               toThat = (sizeDiff > 0);
               copyTo = (if toThat then that else q);
               copyFrom = (if toThat then q else that)
           in bind_run (AddTail_queue alloc copyTo copyFrom commonSize (- 1)) (\<lambda>(_, copyTo).
              bind_run (EnsureSize alloc copyFrom commonSize True 0) (\<lambda>(_, copyFrom).
                swap_items (unat commonSize) (if toThat then copyFrom else copyTo)
                  (if toThat then copyTo else copyFrom) 0))
         else if thisSmall then SwapContentsAux q that
         else if thatSmall then
           bind_run (SwapContentsAux that q) (\<lambda>(that, q). Ret (q, that))
         else
           Ret (q\<lparr>q_queue := q_queue that, q_queueSize := q_queueSize that, q_headIndex := q_headIndex that,
                  q_tailIndex := q_tailIndex that, q_itemCount := q_itemCount that\<rparr>,
                that\<lparr>q_queue := q_queue q, q_queueSize := q_queueSize q, q_headIndex := q_headIndex q,
                     q_tailIndex := q_tailIndex q, q_itemCount := q_itemCount q\<rparr>))"

end
