(* ===== verification/Queue_Search.thy ===== *)
theory Queue_Search
  imports Queue_More
begin

text \<open>
  What the search, comparison and removal operations of the queue do to its list of items.
\<close>

section \<open>Comparison and assignment\<close>

lemma unat_index: "i < length (items q) \<Longrightarrow> queue_ok q \<Longrightarrow> unat (of_nat i :: u32) = i"
  using items_bound [of q] by (simp add: unat_of_nat take_bit_eq_mod max_slots_def)

lemma Queue_at_nat: "queue_ok q \<Longrightarrow> i < length (items q) \<Longrightarrow> Queue_at q (of_nat i) = Ret (items q ! i)"
  using Queue_at_ok [of q "of_nat i"] unat_index [of i q] by simp

lemma rounds_down: "queue_ok q \<Longrightarrow> nat (sint (GetNumItems q - 1) + 1) = length (items q)"
  using countdown [of 0 "unat (q_itemCount q)"] items_bound [of q] by (simp add: max_slots_def GetNumItems_def)

lemma rounds_up: "queue_ok q \<Longrightarrow> nat (sint (GetNumItems q)) = length (items q)"
  using sint_small [of "q_itemCount q"] items_bound [of q] by (simp add: max_slots_def GetNumItems_def)

lemma equal_items_ok:
  assumes "queue_ok q" "queue_ok rhs" "n \<le> length (items q)" "n \<le> length (items rhs)"
  shows "equal_items n q rhs = Ret (take n (items q) = take n (items rhs))"
  using assms(3,4)
proof (induction n)
  case (Suc n)
  then show ?case
    using Queue_at_nat [OF assms(1), of n] Queue_at_nat [OF assms(2), of n]
    by (auto simp: take_Suc_conv_app_nth simp del: length_items)
qed simp

lemma Queue_eq_ok:
  assumes "queue_ok q" "queue_ok rhs"
  shows "Queue_eq q rhs = Ret (items q = items rhs)"
proof (cases "GetNumItems q = GetNumItems rhs")
  case True
  then have "length (items q) = length (items rhs)" by (simp add: GetNumItems_def)
  then show ?thesis using True equal_items_ok [OF assms, of "length (items q)"] rounds_down [OF assms(1)]
    by (simp add: Queue_eq_def del: length_items)
next
  case False
  then have "length (items q) \<noteq> length (items rhs)" by (simp add: GetNumItems_def word_unat_eq_iff)
  then have "items q \<noteq> items rhs" by metis
  then show ?thesis using False by (simp add: Queue_eq_def)
qed

lemma Queue_assign_ok:
  assumes "queue_ok q" "alloc_ok alloc" "queue_ok rhs"
  shows "Queue_assign alloc q rhs = Ret q \<or>
    (\<exists>q'. Queue_assign alloc q rhs = Ret q' \<and> queue_ok q' \<and> items q' = items rhs)"
proof -
  from EnsureSize_set_ok [OF assms(1,2), of "GetNumItems rhs"] show ?thesis
  proof (elim disjE exE conjE)
    fix q1 junk assume q1: "EnsureSize alloc q (GetNumItems rhs) True 0 = Ret (B_NO_ERROR, q1)" "queue_ok q1"
      "items q1 = take (unat (GetNumItems rhs)) (items q) @ junk"
      "length junk = unat (GetNumItems rhs) - unat (q_itemCount q)"
    have l: "length (items q1) = length (items rhs)"
      unfolding q1(3) by (simp add: q1(4) GetNumItems_def)
    have "unat (0 :: u32) + length (items rhs) \<le> length (items q1)" unfolding l by simp
    from assign_items_ok [OF q1(2) _ this, of "Queue_at rhs" 0] obtain q' where
      "assign_items (Queue_at rhs) (length (items rhs)) q1 0 0 = Ret q'" "queue_ok q'" "items q' = items rhs"
      using Queue_at_nat [OF assms(3)] l by auto
    then show ?thesis using q1(1) by (simp add: Queue_assign_def GetNumItems_def)
  qed (simp add: Queue_assign_def Let_def)
qed

section \<open>Search\<close>

lemma GetItemPointer_nat:
  "queue_ok q \<Longrightarrow> i < length (items q) \<Longrightarrow> GetItemPointer q (of_nat i) = Ret (items q ! i)"
  using GetItemPointer_ok [of q "of_nat i"] unat_index [of i q] by simp

lemma index_down_ok:
  assumes "queue_ok q" "n \<le> length (items q)"
  shows "\<exists>r. index_down n q x = Ret r \<and>
    (r = - 1 \<and> x \<notin> set (take n (items q)) \<or>
     (\<exists>i<n. r = int i \<and> items q ! i = x \<and> x \<notin> set (drop (Suc i) (take n (items q)))))"
  using assms(2)
proof (induction n)
  case (Suc n)
  have n: "n < length (items q)" using Suc.prems by simp
  show ?case
  proof (cases "items q ! n = x")
    case True
    then show ?thesis using GetItemPointer_nat [OF assms(1) n] by auto
  next
    case False
    then have "x \<notin> set (drop (Suc i) (take (Suc n) (items q)))" if "x \<notin> set (drop (Suc i) (take n (items q)))" for i
      using that n by (auto simp: take_Suc_conv_app_nth simp del: length_items dest: in_set_dropD)
    then show ?thesis
      using False GetItemPointer_nat [OF assms(1) n] Suc n
      by (auto simp: take_Suc_conv_app_nth less_Suc_eq simp del: length_items)
  qed
qed simp

lemma IndexOf_ok:
  assumes "queue_ok q"
  shows "\<exists>r. IndexOf q x = Ret r \<and>
    (r = - 1 \<and> x \<notin> set (items q) \<or>
     (\<exists>i<length (items q). r = int i \<and> items q ! i = x \<and> x \<notin> set (drop (Suc i) (items q))))"
proof (cases "q_queue q = QNull")
  case True
  then have "q_itemCount q = 0" using assms by (auto simp: queue_ok_def slots_def unat_eq_0)
  then show ?thesis using True by (simp add: IndexOf_def)
next
  case False
  then show ?thesis
    using index_down_ok [OF assms order_refl, of x] rounds_up [OF assms] by (simp add: IndexOf_def del: length_items)
qed

lemma prefix_from_ok:
  assumes "queue_ok p" "queue_ok q" "unat i + n = length (items p)" "length (items p) \<le> length (items q)"
  shows "prefix_from n p q i =
    Ret (drop (unat i) (items p) = take n (drop (unat i) (items q)))"
  using assms(3)
proof (induction n arbitrary: i)
  case 0
  then show ?case by simp
next
  case (Suc n)
  have i: "unat i < length (items p)" "unat i < length (items q)" using Suc.prems assms(4) by simp_all
  then have "unat (i + 1) = Suc (unat i)"
    using items_bound [OF assms(1)] by (intro unat_Suc_index) simp
  moreover from this have "prefix_from n p q (i + 1) =
      Ret (drop (Suc (unat i)) (items p) = take n (drop (Suc (unat i)) (items q)))"
    using Suc.IH [of "i + 1"] Suc.prems by simp
  ultimately show ?case
    using Queue_at_ok [OF assms(1) i(1)] Queue_at_ok [OF assms(2) i(2)] i
    by (simp add: Cons_nth_drop_Suc [symmetric] del: length_items)
qed

lemma StartsWith_ok:
  assumes "queue_ok q" "queue_ok p"
  shows "StartsWith q p = Ret (\<exists>zs. items q = items p @ zs)"
proof (cases "GetNumItems p > GetNumItems q")
  case True
  then have "length (items q) < length (items p)" by (simp add: GetNumItems_def word_less_nat_alt)
  then have "\<nexists>zs. items q = items p @ zs" by (metis length_append not_add_less1)
  then show ?thesis using True by (simp add: StartsWith_def)
next
  case False
  then have le: "length (items p) \<le> length (items q)" by (simp add: GetNumItems_def word_less_nat_alt)
  have "items p = take (length (items p)) (items q) \<longleftrightarrow> (\<exists>zs. items q = items p @ zs)"
    by (metis append_eq_conv_conj append_take_drop_id)
  then show ?thesis
    using False prefix_from_ok [OF assms(2,1) _ le, of 0 "length (items p)"]
    by (simp add: StartsWith_def GetNumItems_def)
qed

text \<open>
  \<open>EndsWith\<close> takes both items at the same index: it works for a suffix of the same length, and
  reads beyond the end of a shorter one.
\<close>

lemma EndsWith_shorter:
  assumes "queue_ok q" "queue_ok s" "length (items s) < length (items q)" "items s \<noteq> []"
  shows "EndsWith q s = Fault"
proof -
  let ?i = "GetNumItems q - 1"
  have q0: "q_itemCount q \<noteq> 0" using assms(3) by auto
  then have ui: "unat ?i = length (items q) - 1" by (simp add: GetNumItems_def unat_minus_one)
  then have "\<not> unat ?i < unat (q_itemCount s)" using assms(3) by simp
  then have "Queue_at s ?i = Fault" using assms(3) by (simp add: Queue_at_def guard_def word_less_nat_alt not_less)
  moreover have "\<not> GetNumItems s > GetNumItems q" using assms(3) by (simp add: GetNumItems_def word_less_nat_alt)
  moreover have "0 < nat (sint ?i - sint (GetNumItems q - GetNumItems s) + 1)"
  proof -
    have "unat (GetNumItems q - GetNumItems s) = length (items q) - length (items s)"
      using assms(3) by (simp add: GetNumItems_def unat_sub word_le_nat_alt)
    then have "sint (GetNumItems q - GetNumItems s) = int (length (items q) - length (items s))"
      "sint ?i = int (length (items q) - 1)"
      using sint_small [of "GetNumItems q - GetNumItems s"] sint_small [of ?i] ui items_bound [OF assms(1)]
      by (simp_all add: max_slots_def)
    moreover have "0 < length (items s)" using assms(4) by (simp del: length_items items_Nil_iff)
    ultimately show ?thesis using assms(3) by linarith
  qed
  then obtain n where "nat (sint ?i - sint (GetNumItems q - GetNumItems s) + 1) = Suc n"
    using gr0_conv_Suc by blast
  ultimately show ?thesis by (simp add: EndsWith_def Let_def)
qed

section \<open>Swapping and reversing\<close>

lemma Swap_ok:
  assumes "queue_ok q" "unat i < length (items q)" "unat j < length (items q)"
  shows "\<exists>q'. Swap q i j = Ret q' \<and> queue_ok q' \<and> same_window q q' \<and>
    items q' = (items q)[unat i := items q ! unat j, unat j := items q ! unat i] \<and> (clean q \<longrightarrow> clean q')"
proof -
  let ?q1 = "put_item q (unat i) (items q ! unat j)"
  have "queue_ok ?q1" "unat j < length (items ?q1)" using assms by simp_all
  then show ?thesis
    using GetItemPointer_ok [OF assms(1,2)] GetItemPointer_ok [OF assms(1,3)] ReplaceItemAt_ok [OF assms(1,2)]
      ReplaceItemAt_ok [of ?q1 j] assms clean_put_item [OF assms(1) _ assms(2)] clean_put_item [of ?q1 "unat j"]
      same_window_trans [OF same_window_put same_window_put]
    by (simp add: Swap_def)
qed

text \<open>The list with the items of a range turned around.\<close>

definition rev_range :: "nat \<Rightarrow> nat \<Rightarrow> 'a list \<Rightarrow> 'a list" where
  "rev_range a b xs = take a xs @ rev (drop a (take b xs)) @ drop b xs"

lemma rev_range_step:
  assumes "a < b" "b < length xs"
  shows "rev_range a (Suc b) xs = rev_range (Suc a) b (xs[a := xs ! b, b := xs ! a])"
proof -
  obtain us x ys where 1: "xs = us @ x # ys" "length us = a"
    using id_take_nth_drop [of a xs] assms by (metis length_take less_trans min.absorb4)
  then have "b - Suc a < length ys" using assms by simp
  then obtain vs y ws where 2: "ys = vs @ y # ws" "length vs = b - Suc a"
    using id_take_nth_drop [of "b - Suc a" ys] by (metis length_take min.absorb4)
  have b: "b = Suc (a + length vs)" using 2(2) assms(1) by simp
  show ?thesis
    using 1(2) unfolding 1(1) 2(1) b rev_range_def by (simp add: nth_append list_update_append)
qed

lemma rev_range_short: "a \<le> b \<Longrightarrow> b \<le> Suc a \<Longrightarrow> rev_range a b xs = xs"
  by (cases "a < length xs")
    (auto simp: rev_range_def le_Suc_eq take_Suc_conv_app_nth Cons_nth_drop_Suc)

lemma reverse_loop_ok:
  assumes "queue_ok q" "unat i \<le> Suc (unat j)" "unat j < length (items q)" "unat j \<le> unat i + n"
  shows "\<exists>q'. reverse_loop n q i j = Ret q' \<and> queue_ok q' \<and>
    items q' = rev_range (unat i) (Suc (unat j)) (items q) \<and> (clean q \<longrightarrow> clean q')"
  using assms
proof (induction n arbitrary: q i j)
  case 0
  then have "rev_range (unat i) (Suc (unat j)) (items q) = items q" by (intro rev_range_short) auto
  then show ?case using 0 by (simp add: word_less_nat_alt)
next
  case (Suc n)
  show ?case
  proof (cases "i < j")
    case False
    then have "rev_range (unat i) (Suc (unat j)) (items q) = items q"
      using Suc.prems(2) by (intro rev_range_short) (auto simp: word_less_nat_alt)
    then show ?thesis using False Suc.prems(1) by simp
  next
    case True
    then have lt: "unat i < unat j" by (simp add: word_less_nat_alt)
    then have "unat i < length (items q)" "j \<noteq> 0" using Suc.prems(3) by auto
    then have u: "unat (i + 1) = Suc (unat i)" "unat (j - 1) = unat j - 1"
      using items_bound [OF Suc.prems(1)] by (auto intro!: unat_Suc_index simp: unat_minus_one)
    from Swap_ok [OF Suc.prems(1) \<open>unat i < length (items q)\<close> Suc.prems(3)] obtain q1 where
      q1: "Swap q i j = Ret q1" "queue_ok q1" "clean q \<longrightarrow> clean q1"
        "items q1 = (items q)[unat i := items q ! unat j, unat j := items q ! unat i]" by blast
    have "length (items q1) = length (items q)" unfolding q1(4) by simp
    then have pre: "unat (i + 1) \<le> Suc (unat (j - 1))" "unat (j - 1) < length (items q1)"
      "unat (j - 1) \<le> unat (i + 1) + n" using Suc.prems(3,4) lt u by simp_all
    from Suc.IH [OF q1(2) pre] obtain q2 where q2: "reverse_loop n q1 (i + 1) (j - 1) = Ret q2" "queue_ok q2"
      "items q2 = rev_range (unat (i + 1)) (Suc (unat (j - 1))) (items q1)" "clean q1 \<longrightarrow> clean q2" by blast
    have "items q2 = rev_range (unat i) (Suc (unat j)) (items q)"
      unfolding q2(3) q1(4) rev_range_step [OF lt Suc.prems(3)] using u lt by simp
    then show ?thesis using True q1 q2 by simp
  qed
qed

text \<open>A range that ends at 0 wraps around and reverses everything from its start on.\<close>

lemma ReverseItemOrdering_ok:
  assumes "queue_ok q" "unat a \<le> unat b" "b \<noteq> 0" "unat a \<le> length (items q)"
  shows "\<exists>q'. ReverseItemOrdering q a b = Ret q' \<and> queue_ok q' \<and>
    items q' = rev_range (unat a) (min (unat b) (length (items q))) (items q) \<and> (clean q \<longrightarrow> clean q')"
proof (cases "q_itemCount q = 0")
  case True
  then show ?thesis using assms(1) by (simp add: ReverseItemOrdering_def GetNumItems_def rev_range_def)
next
  case False
  let ?n = "q_itemCount q"
  obtain j where j: "j = (if b - 1 \<ge> ?n then ?n - 1 else b - 1)" by simp
  have n0: "0 < unat ?n" "0 < unat b" using False assms(3) by (simp_all add: unat_gt_0)
  then have uj: "Suc (unat j) = min (unat b) (unat ?n)"
    using False assms(3) by (auto simp: j unat_minus_one word_le_nat_alt min_def)
  have "unat a \<le> Suc (unat j)" "unat j < length (items q)" "unat j \<le> unat a + unat ?n"
    using uj n0 assms(2,4) by (auto simp: min_def split: if_splits)
  from reverse_loop_ok [OF assms(1) this] show ?thesis
    using False uj by (simp add: ReverseItemOrdering_def GetNumItems_def Let_def j word_neq_0_conv)
qed

lemma ReverseItemOrdering_wraps:
  assumes "queue_ok q" "q_itemCount q \<noteq> 0" "unat a \<le> length (items q)"
  shows "\<exists>q'. ReverseItemOrdering q a 0 = Ret q' \<and>
    items q' = rev_range (unat a) (length (items q)) (items q) \<and> (clean q \<longrightarrow> clean q')"
proof -
  let ?n = "q_itemCount q"
  have n0: "0 < unat ?n" using assms(2) by (simp add: unat_gt_0)
  then have uj: "Suc (unat (?n - 1)) = unat ?n" using assms(2) by (simp add: unat_minus_one)
  have "unat a \<le> Suc (unat (?n - 1))" "unat (?n - 1) < length (items q)" "unat (?n - 1) \<le> unat a + unat ?n"
    using uj assms(3) by auto
  from reverse_loop_ok [OF assms(1) this] show ?thesis
    using uj assms(2) by (auto simp: ReverseItemOrdering_def GetNumItems_def Let_def word_neq_0_conv)
qed

section \<open>Removing by value\<close>

lemma remove_first_from_ok:
  assumes "queue_ok q" "unat i + n = length (items q)" "x \<notin> set (take (unat i) (items q))"
  shows "if x \<in> set (items q)
    then \<exists>q'. remove_first_from n q x i = Ret (B_NO_ERROR, q') \<and> queue_ok q' \<and>
      items q' = remove1 x (items q) \<and> (clean q \<longrightarrow> clean q')
    else remove_first_from n q x i = Ret (B_ERROR, q)"
  using assms
proof (induction n arbitrary: i)
  case 0
  then show ?case by simp
next
  case (Suc n)
  have i: "unat i < length (items q)" using Suc.prems(2) by simp
  then have i1: "unat (i + 1) = Suc (unat i)" using items_bound [OF assms(1)] by (intro unat_Suc_index) simp
  show ?case
  proof (cases "items q ! unat i = x")
    case True
    have "remove1 x (items q) = take (unat i) (items q) @ drop (Suc (unat i)) (items q)"
      using Suc.prems(3) True i id_take_nth_drop [OF i] remove1_append [of x "take (unat i) (items q)"]
      by (metis remove1.simps(2))
    moreover have "x \<in> set (items q)" using True i nth_mem by blast
    ultimately show ?thesis
      using RemoveItemAt_ok [OF assms(1) i] Queue_at_ok [OF assms(1) i] True by auto
  next
    case False
    then have "x \<notin> set (take (unat (i + 1)) (items q))"
      using Suc.prems(3) i i1 by (simp add: take_Suc_conv_app_nth del: length_items)
    moreover have "unat (i + 1) + n = length (items q)" using Suc.prems(2) i1 by simp
    ultimately show ?thesis
      using Suc.IH [OF assms(1), of "i + 1"] Queue_at_ok [OF assms(1) i] False by simp
  qed
qed

lemma RemoveFirstInstanceOf_ok:
  assumes "queue_ok q"
  shows "if x \<in> set (items q)
    then \<exists>q'. RemoveFirstInstanceOf q x = Ret (B_NO_ERROR, q') \<and> queue_ok q' \<and>
      items q' = remove1 x (items q) \<and> (clean q \<longrightarrow> clean q')
    else RemoveFirstInstanceOf q x = Ret (B_ERROR, q)"
  using remove_first_from_ok [OF assms, of 0 "length (items q)" x]
  by (cases "x \<in> set (items q)") (simp_all add: RemoveFirstInstanceOf_def GetNumItems_def)

lemma remove_last_down_ok:
  assumes "queue_ok q" "n \<le> length (items q)" "x \<notin> set (drop n (items q))"
  shows "if x \<in> set (items q)
    then \<exists>q'. remove_last_down n q x = Ret (B_NO_ERROR, q') \<and> queue_ok q' \<and>
      items q' = rev (remove1 x (rev (items q))) \<and> (clean q \<longrightarrow> clean q')
    else remove_last_down n q x = Ret (B_ERROR, q)"
  using assms(2,3)
proof (induction n)
  case 0
  then show ?case by simp
next
  case (Suc n)
  have n: "n < length (items q)" using Suc.prems(1) by simp
  have split: "items q = take n (items q) @ items q ! n # drop (Suc n) (items q)" using id_take_nth_drop [OF n] .
  show ?case
  proof (cases "items q ! n = x")
    case True
    have "rev (items q) = rev (drop (Suc n) (items q)) @ x # rev (take n (items q))"
      using split True by (metis rev.simps(2) rev_append append_assoc append_Cons append_Nil)
    then have "rev (remove1 x (rev (items q))) = take n (items q) @ drop (Suc n) (items q)"
      using Suc.prems(2) by (simp add: remove1_append)
    moreover have "x \<in> set (items q)" using True n nth_mem by blast
    ultimately show ?thesis
      using RemoveItemAt_ok [OF assms(1), of "of_nat n"] Queue_at_nat [OF assms(1) n] True unat_index [OF n assms(1)] n
      by auto
  next
    case False
    then have "x \<notin> set (drop n (items q))"
      using Suc.prems(2) n by (simp add: Cons_nth_drop_Suc [symmetric] del: length_items)
    then show ?thesis using Suc.IH n Queue_at_nat [OF assms(1) n] False by simp
  qed
qed

lemma RemoveLastInstanceOf_ok:
  assumes "queue_ok q"
  shows "if x \<in> set (items q)
    then \<exists>q'. RemoveLastInstanceOf q x = Ret (B_NO_ERROR, q') \<and> queue_ok q' \<and>
      items q' = rev (remove1 x (rev (items q))) \<and> (clean q \<longrightarrow> clean q')
    else RemoveLastInstanceOf q x = Ret (B_ERROR, q)"
  using remove_last_down_ok [OF assms, of "length (items q)" x] rounds_up [OF assms]
  by (cases "x \<in> set (items q)") (simp_all add: RemoveLastInstanceOf_def)

text \<open>The invariant of the loop that keeps the other items: what has been read is at the front.\<close>

lemma keep_others_ok:
  assumes "queue_ok q" "unat r + n = length (items q)" "take (unat w) (items q) = filter (\<lambda>y. y \<noteq> x) ds"
    "unat w = length (filter (\<lambda>y. y \<noteq> x) ds)" "length ds = unat r" "unat k = length (filter (\<lambda>y. y = x) ds)"
  shows "\<exists>q' w' k'. keep_others n q x r w k = Ret (q', w', k') \<and> queue_ok q' \<and>
    length (items q') = length (items q) \<and>
    unat w' = length (filter (\<lambda>y. y \<noteq> x) (ds @ drop (unat r) (items q))) \<and>
    take (unat w') (items q') = filter (\<lambda>y. y \<noteq> x) (ds @ drop (unat r) (items q)) \<and>
    unat k' = length (filter (\<lambda>y. y = x) (ds @ drop (unat r) (items q))) \<and> (clean q \<longrightarrow> clean q')"
  using assms
proof (induction n arbitrary: q r w k ds)
  case 0
  then show ?case by simp
next
  case (Suc n)
  have r: "unat r < length (items q)" using Suc.prems(2) by simp
  have wk: "unat w \<le> unat r" "unat k \<le> unat r"
    using Suc.prems(4-6) length_filter_le [of _ ds] by metis+
  have u: "unat (r + 1) = Suc (unat r)" "unat (w + 1) = Suc (unat w)" "unat (k + 1) = Suc (unat k)"
    using items_bound [OF Suc.prems(1)] r wk by (auto intro!: unat_Suc_index)
  let ?y = "items q ! unat r"
  have dr: "drop (unat r) (items q) = ?y # drop (unat (r + 1)) (items q)"
    using r u(1) by (simp add: Cons_nth_drop_Suc del: length_items)
  have at: "Queue_at q r = Ret ?y" by (rule Queue_at_ok [OF Suc.prems(1) r])
  have len: "unat (r + 1) + n = length (items q)" "length (ds @ [?y]) = unat (r + 1)"
    using Suc.prems(2,5) u(1) by simp_all
  show ?case
  proof (cases "?y = x")
    case True
    have "\<exists>q' w' k'. keep_others n q x (r + 1) w (k + 1) = Ret (q', w', k') \<and> queue_ok q' \<and>
      length (items q') = length (items q) \<and>
      unat w' = length (filter (\<lambda>y. y \<noteq> x) ((ds @ [?y]) @ drop (unat (r + 1)) (items q))) \<and>
      take (unat w') (items q') = filter (\<lambda>y. y \<noteq> x) ((ds @ [?y]) @ drop (unat (r + 1)) (items q)) \<and>
      unat k' = length (filter (\<lambda>y. y = x) ((ds @ [?y]) @ drop (unat (r + 1)) (items q))) \<and> (clean q \<longrightarrow> clean q')"
      by (rule Suc.IH [OF Suc.prems(1) len(1) _ _ len(2)]) (use Suc.prems True u in simp_all)
    then show ?thesis using True at dr by simp
  next
    case False
    obtain q1 where q1: "(if r > w then Queue_at_put q w ?y else Ret q) = Ret q1" "queue_ok q1"
      "items q1 = (items q)[unat w := ?y]" "clean q \<longrightarrow> clean q1"
    proof (cases "r > w")
      case True
      have w: "unat w < length (items q)" using wk r by simp
      show ?thesis
        using that [of "put_item q (unat w) ?y"] True Queue_at_put_ok [OF Suc.prems(1) w] Suc.prems(1)
          clean_put_item [OF Suc.prems(1) _ w] w by simp
    next
      case False
      then have "unat w = unat r" using wk by (simp add: word_less_nat_alt)
      then show ?thesis using that [of q] False Suc.prems(1) by simp
    qed
    have d1: "drop (unat (r + 1)) (items q1) = drop (unat (r + 1)) (items q)"
      unfolding q1(3) using wk u by simp
    have t1: "take (unat (w + 1)) (items q1) = filter (\<lambda>y. y \<noteq> x) (ds @ [?y])"
      unfolding q1(3) using wk r u Suc.prems(3) False by (simp add: take_Suc_conv_app_nth del: length_items)
    have l1: "length (items q1) = length (items q)" unfolding q1(3) by (simp del: length_items)
    have "\<exists>q' w' k'. keep_others n q1 x (r + 1) (w + 1) k = Ret (q', w', k') \<and> queue_ok q' \<and>
      length (items q') = length (items q1) \<and>
      unat w' = length (filter (\<lambda>y. y \<noteq> x) ((ds @ [?y]) @ drop (unat (r + 1)) (items q1))) \<and>
      take (unat w') (items q') = filter (\<lambda>y. y \<noteq> x) ((ds @ [?y]) @ drop (unat (r + 1)) (items q1)) \<and>
      unat k' = length (filter (\<lambda>y. y = x) ((ds @ [?y]) @ drop (unat (r + 1)) (items q1))) \<and> (clean q1 \<longrightarrow> clean q')"
      by (rule Suc.IH [OF q1(2) _ t1 _ len(2)]) (use len l1 Suc.prems False u in simp_all)
    then show ?thesis using False at dr d1 q1(1,4) l1 by auto
  qed
qed

lemma remove_tails_ok:
  assumes "queue_ok q" "n \<le> length (items q)"
  shows "\<exists>q'. remove_tails n q = Ret q' \<and> queue_ok q' \<and> items q' = take (length (items q) - n) (items q) \<and>
    (clean q \<longrightarrow> clean q')"
  using assms
proof (induction n arbitrary: q)
  case (Suc n)
  then have "q_itemCount q \<noteq> 0" by auto
  from RemoveTail_ok [OF Suc.prems(1) this] obtain q1 where q1: "RemoveTail q = Ret (B_NO_ERROR, q1)" "queue_ok q1"
    "items q1 = butlast (items q)" "clean q \<longrightarrow> clean q1" by blast
  have l: "length (items q1) = length (items q) - 1" unfolding q1(3) by simp
  have "n \<le> length (items q1)" unfolding l using Suc.prems(2) by simp
  from Suc.IH [OF q1(2) this] obtain q2 where q2: "remove_tails n q1 = Ret q2" "queue_ok q2"
    "items q2 = take (length (items q1) - n) (items q1)" "clean q1 \<longrightarrow> clean q2" by blast
  have "items q2 = take (length (items q) - Suc n) (items q)"
    unfolding q2(3) l unfolding q1(3) by (simp add: butlast_conv_take min_def del: length_items)
  then show ?case using q1 q2 by auto
qed simp

lemma RemoveAllInstancesOf_ok:
  assumes "queue_ok q"
  shows "\<exists>q' n. RemoveAllInstancesOf q x = Ret (n, q') \<and> queue_ok q' \<and>
    items q' = filter (\<lambda>y. y \<noteq> x) (items q) \<and> unat n = length (filter (\<lambda>y. y = x) (items q)) \<and>
    (clean q \<longrightarrow> clean q')"
proof -
  from keep_others_ok [OF assms, of 0 "length (items q)" 0 x "[]" 0] obtain q1 w k where
    q1: "keep_others (length (items q)) q x 0 0 0 = Ret (q1, w, k)" "queue_ok q1" "length (items q1) = length (items q)"
      "unat w = length (filter (\<lambda>y. y \<noteq> x) (items q))" "take (unat w) (items q1) = filter (\<lambda>y. y \<noteq> x) (items q)"
      "unat k = length (filter (\<lambda>y. y = x) (items q))" "clean q \<longrightarrow> clean q1" by (auto simp del: length_items)
  have "unat w \<le> length (items q)" using q1(4) length_filter_le by metis
  moreover have "length (items q) - unat w \<le> length (items q1)" unfolding q1(3) by simp
  from remove_tails_ok [OF q1(2) this] obtain q2 where "remove_tails (length (items q) - unat w) q1 = Ret q2"
    "queue_ok q2" "items q2 = take (length (items q1) - (length (items q) - unat w)) (items q1)" "clean q1 \<longrightarrow> clean q2"
    by blast
  ultimately show ?thesis
    using q1 by (auto simp: RemoveAllInstancesOf_def GetNumItems_def Let_def)
qed

end
