(* ===== verification/Queue_Swap.thy ===== *)
theory Queue_Swap
  imports Queue_Search
begin

text \<open>
  Suffix tests on queues of the same length, and the exchange of the contents of two queues, in all
  the combinations of arrays inside the objects and on the heap.
\<close>

section \<open>Suffixes\<close>

lemma of_nat_Suc_minus: "of_nat (Suc n) - 1 = (of_nat n :: u32)"
  by simp

lemma suffix_down_ok:
  assumes "queue_ok s" "queue_ok q" "n \<le> length (items s)" "n \<le> length (items q)"
  shows "suffix_down n s q (of_nat n - 1) = Ret (take n (items s) = take n (items q))"
  using assms(3,4)
proof (induction n)
  case (Suc n)
  then show ?case
    using Queue_at_nat [OF assms(1), of n] Queue_at_nat [OF assms(2), of n]
    by (auto simp: take_Suc_conv_app_nth simp del: length_items)
qed simp

lemma EndsWith_same_length:
  assumes "queue_ok q" "queue_ok s" "length (items s) = length (items q)"
  shows "EndsWith q s = Ret (items s = items q)"
proof -
  have c: "GetNumItems s = GetNumItems q" using assms(3) by (simp add: GetNumItems_def word_unat_eq_iff)
  then show ?thesis
    using suffix_down_ok [OF assms(2,1), of "length (items q)"] rounds_down [OF assms(1)] assms(3)
    by (simp add: EndsWith_def GetNumItems_def)
qed

section \<open>Two queues with their items in the objects\<close>

lemma EnsureSize_fits:
  assumes "queue_ok q" "q_queue q \<noteq> QNull" "unat sz \<le> length (slots q)"
  shows "EnsureSize alloc q sz True 0 = bind_run (set_count q sz) (\<lambda>q. Ret (B_NO_ERROR, q))"
  using assms by (simp add: EnsureSize_def queue_ok_def word_less_nat_alt)

lemma AddTail_queue_fits:
  assumes "queue_ok q" "alloc_ok alloc" "queue_ok other" "q_queue q \<noteq> QNull"
    "length (items q) + length (part other j n) \<le> length (slots q)"
  shows "\<exists>q'. AddTail_queue alloc q other j n = Ret (B_NO_ERROR, q') \<and> queue_ok q' \<and>
    items q' = items q @ part other j n \<and> (clean q \<and> alloc_blank alloc \<longrightarrow> clean q')"
proof -
  have "AddTail_queue alloc q other j n \<noteq> Ret (B_ERROR, q)"
  proof -
    obtain m where m: "m = GetNumItems q + min n (if j < GetNumItems other then GetNumItems other - j else 0)" by simp
    have "length (slots q) < 2 ^ 32" using assms(1) by (simp add: queue_ok_def max_slots_def)
    then have "unat m = length (items q) + length (part other j n)"
      unfolding m using assms(5) length_part [of other j n]
      by (simp add: GetNumItems_def unat_word_ariths)
    then obtain q1 where "EnsureSize alloc q m True 0 = Ret (B_NO_ERROR, q1)"
      using set_count_ok [OF assms(1,4), of m] EnsureSize_fits [OF assms(1,4), of m alloc] assms(5) by auto
    then show ?thesis
      unfolding AddTail_queue_def Let_def m [symmetric]
      by (cases "assign_items (Queue_at other) (unat m - unat (GetNumItems q)) q1 (GetNumItems q) j") auto
  qed
  then show ?thesis using AddTail_queue_ok [OF assms(1-3), of j n] by blast
qed

lemma swap_items_ok:
  assumes "queue_ok q" "queue_ok r" "unat i + n \<le> length (items q)" "unat i + n \<le> length (items r)"
  shows "\<exists>q' r'. swap_items n q r i = Ret (q', r') \<and> queue_ok q' \<and> queue_ok r' \<and>
    items q' = take (unat i) (items q) @ take n (drop (unat i) (items r)) @ drop (unat i + n) (items q) \<and>
    items r' = take (unat i) (items r) @ take n (drop (unat i) (items q)) @ drop (unat i + n) (items r) \<and>
    (clean q \<longrightarrow> clean q') \<and> (clean r \<longrightarrow> clean r')"
  using assms
proof (induction n arbitrary: q r i)
  case (Suc n)
  have i: "unat i < length (items q)" "unat i < length (items r)" using Suc.prems(3,4) by simp_all
  have i1: "unat (i + 1) = Suc (unat i)" using items_bound [OF Suc.prems(1)] i by (intro unat_Suc_index) simp
  let ?q = "put_item q (unat i) (items r ! unat i)" and ?r = "put_item r (unat i) (items q ! unat i)"
  have pre: "queue_ok ?q" "queue_ok ?r" "unat (i + 1) + n \<le> length (items ?q)" "unat (i + 1) + n \<le> length (items ?r)"
    using Suc.prems i1 by simp_all
  from Suc.IH [OF pre] obtain q' r' where s: "swap_items n ?q ?r (i + 1) = Ret (q', r')" "queue_ok q'" "queue_ok r'"
    "items q' = take (unat (i + 1)) (items ?q) @ take n (drop (unat (i + 1)) (items ?r)) @ drop (unat (i + 1) + n) (items ?q)"
    "items r' = take (unat (i + 1)) (items ?r) @ take n (drop (unat (i + 1)) (items ?q)) @ drop (unat (i + 1) + n) (items ?r)"
    "clean ?q \<longrightarrow> clean q'" "clean ?r \<longrightarrow> clean r'" by blast
  have run: "swap_items (Suc n) q r i = Ret (q', r')"
    using Queue_at_ok [OF Suc.prems(1) i(1)] Queue_at_ok [OF Suc.prems(2) i(2)]
      Queue_at_put_ok [OF Suc.prems(1) i(1)] Queue_at_put_ok [OF Suc.prems(2) i(2)] s(1) by simp
  have "items q' = take (unat i) (items q) @ take (Suc n) (drop (unat i) (items r)) @ drop (unat i + Suc n) (items q)"
    "items r' = take (unat i) (items r) @ take (Suc n) (drop (unat i) (items q)) @ drop (unat i + Suc n) (items r)"
    unfolding s(4,5) i1 using i Suc.prems(1,2)
    by (simp_all add: take_Suc_conv_app_nth Cons_nth_drop_Suc [symmetric] del: length_items)
  then show ?case
    using run s clean_put_item [OF Suc.prems(1) _ i(1)] clean_put_item [OF Suc.prems(2) _ i(2)] by auto
qed simp

text \<open>The shorter queue \<open>s\<close> and the longer one \<open>l\<close>, with arrays that have room for both.\<close>

lemma exchange_small:
  assumes "queue_ok s" "queue_ok l" "alloc_ok alloc" "q_queue s \<noteq> QNull" "q_queue l \<noteq> QNull"
    "length (items s) \<le> length (items l)" "length (items l) \<le> length (slots s)"
    and c: "c = GetNumItems s"
  shows "\<exists>s1 l1 s2 l2. AddTail_queue alloc s l c (- 1) = Ret (B_NO_ERROR, s1) \<and>
    EnsureSize alloc l c True 0 = Ret (B_NO_ERROR, l1) \<and> queue_ok s1 \<and> queue_ok l1 \<and>
    items s1 = items s @ drop (length (items s)) (items l) \<and> items l1 = take (length (items s)) (items l) \<and>
    (clean s \<and> alloc_blank alloc \<longrightarrow> clean s1) \<and> (clean l \<longrightarrow> clean l1)"
proof -
  have uc: "unat c = length (items s)" by (simp add: c GetNumItems_def)
  have "unat (- 1 :: u32) = 2 ^ 32 - 1" by (simp add: unsigned_minus_1_eq_mask mask_eq_exp_minus_1)
  then have "length (items l) \<le> unat (- 1 :: u32)"
    using items_bound [OF assms(2)] by (simp add: max_slots_def)
  then have p: "part l c (- 1) = drop (length (items s)) (items l)" by (simp add: part_def uc del: length_items)
  have "length (items s) + length (part l c (- 1)) \<le> length (slots s)"
    unfolding p using assms(6,7) by simp
  from AddTail_queue_fits [OF assms(1,3,2,4) this] obtain s1 where
    s1: "AddTail_queue alloc s l c (- 1) = Ret (B_NO_ERROR, s1)" "queue_ok s1"
      "items s1 = items s @ drop (length (items s)) (items l)" "clean s \<and> alloc_blank alloc \<longrightarrow> clean s1"
    unfolding p by blast
  have fit: "unat c \<le> length (slots l)" using uc assms(2,6) by (simp add: queue_ok_def)
  from set_count_ok [OF assms(2,5) fit] obtain l1 junk where l1: "set_count l c = Ret l1" "queue_ok l1"
    "items l1 = take (unat c) (items l) @ junk" "length junk = unat c - unat (q_itemCount l)" "clean l \<longrightarrow> clean l1"
    by blast
  have "junk = []" using l1(4) assms(6) uc by simp
  then show ?thesis using s1 l1 EnsureSize_fits [OF assms(2,5) fit] uc by simp
qed

lemma swap_small:
  assumes "queue_ok q" "queue_ok r" "alloc_ok alloc" "q_queue q = QSmall" "q_queue r = QSmall"
  shows "\<exists>q' r'. SwapContents alloc q r = Ret (q', r') \<and> queue_ok q' \<and> queue_ok r' \<and>
    items q' = items r \<and> items r' = items q \<and> (clean q \<and> clean r \<and> alloc_blank alloc \<longrightarrow> clean q' \<and> clean r')"
proof -
  have nn: "q_queue q \<noteq> QNull" "q_queue r \<noteq> QNull" using assms(4,5) by simp_all
  have sm: "length (slots q) = 3" "length (slots r) = 3"
    using assms by (simp_all add: queue_ok_def slots_def SMALL_QUEUE_SIZE_def)
  have le: "length (items q) \<le> 3" "length (items r) \<le> 3" using assms(1,2) sm by (simp_all add: queue_ok_def)
  have sint: "sint (GetNumItems x) = int (length (items x))" if "length (items x) \<le> 3" for x :: "'a queue"
    using sint_small [of "GetNumItems x"] that by (simp add: GetNumItems_def)
  show ?thesis
  proof (cases "length (items r) < length (items q)")
    case True
    have c: "sint (GetNumItems q) - sint (GetNumItems r) > 0" "min (GetNumItems q) (GetNumItems r) = GetNumItems r"
      using True sint [OF le(1)] sint [OF le(2)] by (linarith, auto simp: min_def GetNumItems_def word_le_nat_alt)
    from exchange_small [OF assms(2,1,3) nn(2,1) _ _ refl] True le sm obtain r1 q1 where
      e: "AddTail_queue alloc r q (GetNumItems r) (- 1) = Ret (B_NO_ERROR, r1)"
        "EnsureSize alloc q (GetNumItems r) True 0 = Ret (B_NO_ERROR, q1)" "queue_ok r1" "queue_ok q1"
        "items r1 = items r @ drop (length (items r)) (items q)" "items q1 = take (length (items r)) (items q)"
        "clean r \<and> alloc_blank alloc \<longrightarrow> clean r1" "clean q \<longrightarrow> clean q1" by auto
    have "unat (0 :: u32) + length (items r) \<le> length (items q1)" "unat (0 :: u32) + length (items r) \<le> length (items r1)"
      unfolding e(5,6) using True by simp_all
    from swap_items_ok [OF e(4,3) this] obtain q2 r2 where
      s: "swap_items (length (items r)) q1 r1 0 = Ret (q2, r2)" "queue_ok q2" "queue_ok r2"
        "items q2 = take (length (items r)) (items r1) @ drop (length (items r)) (items q1)"
        "items r2 = take (length (items r)) (items q1) @ drop (length (items r)) (items r1)"
        "clean q1 \<longrightarrow> clean q2" "clean r1 \<longrightarrow> clean r2" by auto
    have "items q2 = items r" "items r2 = items q" unfolding s(4,5) e(5,6) using True by simp_all
    then show ?thesis
      using assms(4,5) c e s by (auto simp: SwapContents_def Let_def GetNumItems_def)
  next
    case False
    have c: "\<not> sint (GetNumItems q) - sint (GetNumItems r) > 0" "min (GetNumItems q) (GetNumItems r) = GetNumItems q"
      using False sint [OF le(1)] sint [OF le(2)] by (linarith, auto simp: min_def GetNumItems_def word_le_nat_alt)
    from exchange_small [OF assms(1,2,3) nn _ _ refl] False le sm obtain q1 r1 where
      e: "AddTail_queue alloc q r (GetNumItems q) (- 1) = Ret (B_NO_ERROR, q1)"
        "EnsureSize alloc r (GetNumItems q) True 0 = Ret (B_NO_ERROR, r1)" "queue_ok q1" "queue_ok r1"
        "items q1 = items q @ drop (length (items q)) (items r)" "items r1 = take (length (items q)) (items r)"
        "clean q \<and> alloc_blank alloc \<longrightarrow> clean q1" "clean r \<longrightarrow> clean r1" by auto
    have "unat (0 :: u32) + length (items q) \<le> length (items q1)" "unat (0 :: u32) + length (items q) \<le> length (items r1)"
      unfolding e(5,6) using False by simp_all
    from swap_items_ok [OF e(3,4) this] obtain q2 r2 where
      s: "swap_items (length (items q)) q1 r1 0 = Ret (q2, r2)" "queue_ok q2" "queue_ok r2"
        "items q2 = take (length (items q)) (items r1) @ drop (length (items q)) (items q1)"
        "items r2 = take (length (items q)) (items q1) @ drop (length (items q)) (items r1)"
        "clean q1 \<longrightarrow> clean q2" "clean r1 \<longrightarrow> clean r2" by auto
    have "items q2 = items r" "items r2 = items q" unfolding s(4,5) e(5,6) using False by simp_all
    then show ?thesis
      using assms(4,5) c e s by (auto simp: SwapContents_def Let_def GetNumItems_def)
  qed
qed

section \<open>One queue with its items in the object\<close>

lemma copy_to_small_ok:
  assumes "queue_ok q" "unat i + n = length (items q)" "length (items q) \<le> length xs"
  shows "copy_to_small n q xs i = Ret (take (unat i) xs @ drop (unat i) (items q) @ drop (length (items q)) xs)"
  using assms(2,3)
proof (induction n arbitrary: i xs)
  case 0
  then show ?case by simp
next
  case (Suc n)
  have lt: "unat i < length (items q)" using Suc.prems(1) by simp
  then have i1: "unat (i + 1) = Suc (unat i)" using items_bound [OF assms(1)] by (intro unat_Suc_index) simp
  have "copy_to_small n q (xs[unat i := items q ! unat i]) (i + 1) =
      Ret (take (unat (i + 1)) (xs[unat i := items q ! unat i]) @ drop (unat (i + 1)) (items q) @
        drop (length (items q)) (xs[unat i := items q ! unat i]))"
    by (rule Suc.IH) (use Suc.prems i1 in simp_all)
  then show ?case
    using Suc.prems lt Queue_at_ok [OF assms(1) lt] i1
    by (simp add: take_Suc_conv_app_nth Cons_nth_drop_Suc [symmetric])
qed

lemma SwapContentsAux_ok:
  assumes "queue_ok q" "queue_ok r" "q_queue q = QSmall" "q_queue r \<noteq> QSmall"
  shows "\<exists>q' r'. SwapContentsAux q r = Ret (q', r') \<and> queue_ok q' \<and> queue_ok r' \<and>
    items q' = items r \<and> items r' = items q \<and> q_smallQueue q' = q_smallQueue q"
proof -
  let ?n = "length (items q)"
  have len: "length (q_smallQueue q) = 3" "length (q_smallQueue r) = 3" "?n \<le> 3"
    using assms by (simp_all add: queue_ok_def slots_def SMALL_QUEUE_SIZE_def)
  obtain small where small: "small = items q @ drop ?n (q_smallQueue r)" by simp
  have cp: "copy_to_small (unat (GetNumItems q)) q (q_smallQueue r) 0 = Ret small"
    using copy_to_small_ok [OF assms(1), of 0 ?n "q_smallQueue r"] len by (simp add: GetNumItems_def small)
  obtain q' where q': "q' = q\<lparr>q_queue := q_queue r, q_queueSize := q_queueSize r, q_headIndex := q_headIndex r,
      q_tailIndex := q_tailIndex r, q_itemCount := q_itemCount r\<rparr>" by simp
  obtain r' where r': "r' = (if q_itemCount q > 0
      then r\<lparr>q_smallQueue := small, q_queue := QSmall, q_queueSize := of_nat SMALL_QUEUE_SIZE, q_headIndex := 0,
             q_tailIndex := q_itemCount q - 1, q_itemCount := q_itemCount q\<rparr>
      else r\<lparr>q_smallQueue := small, q_queue := QNull, q_queueSize := 0, q_itemCount := q_itemCount q\<rparr>)" by simp
  have run: "SwapContentsAux q r = Ret (q', r')"
    using cp by (simp add: SwapContentsAux_def Let_def GetNumItems_def q' r')
  have sl: "slots q' = slots r"
    using assms(4) by (cases "q_queue r") (simp_all add: q' slots_def)
  have "queue_ok q'" using assms(2) len by (simp add: queue_ok_def sl) (simp add: q' SMALL_QUEUE_SIZE_def)
  moreover have "items q' = items r" by (simp add: items_def sl) (simp add: q')
  moreover have "queue_ok r' \<and> items r' = items q"
  proof (cases "q_itemCount q = 0")
    case True
    then show ?thesis
      using len by (simp add: r' queue_ok_def slots_def small SMALL_QUEUE_SIZE_def items_def)
  next
    case False
    then have "q_itemCount q > 0" by (simp add: word_neq_0_conv)
    then have r's: "slots r' = small" "q_queue r' = QSmall" "q_queueSize r' = 3" "q_headIndex r' = 0"
      "q_tailIndex r' = q_itemCount r' - 1" "q_itemCount r' = q_itemCount q" "q_smallQueue r' = small"
      by (simp_all add: r' slots_def SMALL_QUEUE_SIZE_def)
    have "queue_ok r' \<and> items r' = take (unat (q_itemCount r')) (slots r')"
      by (rule linear_queue_ok) (use r's len in \<open>simp_all add: small max_slots_def SMALL_QUEUE_SIZE_def\<close>)
    then show ?thesis using r's by (simp add: small)
  qed
  ultimately show ?thesis using run by (simp add: q')
qed

lemma SwapContents_ok:
  assumes "queue_ok q" "queue_ok r" "alloc_ok alloc"
  shows "\<exists>q' r'. SwapContents alloc q r = Ret (q', r') \<and> queue_ok q' \<and> queue_ok r' \<and>
    items q' = items r \<and> items r' = items q"
proof -
  consider "q_queue q = QSmall" "q_queue r = QSmall" | "q_queue q = QSmall" "q_queue r \<noteq> QSmall"
    | "q_queue q \<noteq> QSmall" "q_queue r = QSmall" | "q_queue q \<noteq> QSmall" "q_queue r \<noteq> QSmall" by blast
  then show ?thesis
  proof cases
    case 1
    then show ?thesis using swap_small [OF assms] by blast
  next
    case 2
    then show ?thesis using SwapContentsAux_ok [OF assms(1,2)] by (auto simp: SwapContents_def Let_def)
  next
    case 3
    then show ?thesis using SwapContentsAux_ok [OF assms(2,1)] by (auto simp: SwapContents_def Let_def)
  next
    case 4
    then obtain q' r' where run: "SwapContents alloc q r = Ret (q', r')" and
      d: "q' = q\<lparr>q_queue := q_queue r, q_queueSize := q_queueSize r, q_headIndex := q_headIndex r,
                  q_tailIndex := q_tailIndex r, q_itemCount := q_itemCount r\<rparr>"
         "r' = r\<lparr>q_queue := q_queue q, q_queueSize := q_queueSize q, q_headIndex := q_headIndex q,
                  q_tailIndex := q_tailIndex q, q_itemCount := q_itemCount q\<rparr>"
      by (simp add: SwapContents_def Let_def)
    have sl: "slots q' = slots r" "slots r' = slots q"
      using 4 by (cases "q_queue q"; cases "q_queue r"; simp add: d slots_def)+
    have "queue_ok q'" "queue_ok r'" using assms(1,2) by (simp_all add: queue_ok_def sl) (simp_all add: d)
    moreover have "items q' = items r" "items r' = items q" by (simp_all add: items_def sl) (simp_all add: d)
    ultimately show ?thesis using run by blast
  qed
qed

end
