(* ===== verification/Queue_Sort.thy ===== *)
theory Queue_Sort
  imports Queue_Search "HOL-Library.Sorting_Algorithms"
begin

text \<open>
  The in-place merge sort of \<^verbatim>\<open>util/Queue.h\<close>: a bubble sort for short ranges, and a merge by
  rotations that needs no second array. The comparison function, with its cookie, is the
  parameter \<open>cmp\<close>.
\<close>

section \<open>The code\<close>

text \<open>The inner loop of the bubble sort, \<open>n\<close> rounds at most, and the outer one.\<close>

fun bubble_down :: "('a \<Rightarrow> 'a \<Rightarrow> int) \<Rightarrow> nat \<Rightarrow> 'a queue \<Rightarrow> u32 \<Rightarrow> 'a queue run" where
  "bubble_down cmp 0 q j = Ret q"
| "bubble_down cmp (Suc n) q j =
     bind_run (GetItemPointer q j) (\<lambda>x. bind_run (GetItemPointer q (j - 1)) (\<lambda>y.
       if cmp x y < 0 then bind_run (Swap q j (j - 1)) (\<lambda>q. bubble_down cmp n q (j - 1)) else Ret q))"

fun bubble_range :: "('a \<Rightarrow> 'a \<Rightarrow> int) \<Rightarrow> nat \<Rightarrow> 'a queue \<Rightarrow> u32 \<Rightarrow> u32 \<Rightarrow> 'a queue run" where
  "bubble_range cmp 0 q fro i = Ret q"
| "bubble_range cmp (Suc n) q fro i =
     bind_run (bubble_down cmp (unat i - unat fro) q i) (\<lambda>q. bubble_range cmp n q fro (i + 1))"

lemma half_less: "0 < (len :: u32) \<Longrightarrow> unat (len div 2) < unat len"
  by (simp add: unat_div word_less_nat_alt)

lemma rest_less: "0 < (len :: u32) \<Longrightarrow> unat (len - len div 2 - 1) = unat len - unat len div 2 - 1"
proof -
  assume "0 < len"
  then have "len div 2 \<le> len" "unat (len div 2) < unat len"
    using half_less [of len] by (auto simp: word_le_nat_alt)
  moreover from this have "unat (len - len div 2) = unat len - unat (len div 2)" by (simp add: unat_sub)
  moreover from calculation have "len - len div 2 \<noteq> 0" by (metis unat_0 zero_less_diff less_irrefl)
  ultimately show ?thesis by (simp add: unat_minus_one unat_div)
qed

text \<open>The two binary searches; \<open>len\<close> shrinks in every round.\<close>

function Lower_loop :: "('a \<Rightarrow> 'a \<Rightarrow> int) \<Rightarrow> 'a queue \<Rightarrow> 'a \<Rightarrow> u32 \<Rightarrow> u32 \<Rightarrow> u32 run" where
  "Lower_loop cmp q val fro len =
     (if len > 0 then
        let half = len div 2;
            mid = fro + half
        in bind_run (GetItemPointer q mid) (\<lambda>x.
             if cmp x val < 0 then Lower_loop cmp q val (mid + 1) (len - half - 1)
             else Lower_loop cmp q val fro half)
      else Ret fro)"
  by pat_completeness auto

termination
  by (relation "measure (\<lambda>(cmp, q, val, fro, len). unat len)")
    (auto simp: half_less rest_less word_less_nat_alt)

declare Lower_loop.simps [simp del]

definition Lower :: "('a \<Rightarrow> 'a \<Rightarrow> int) \<Rightarrow> 'a queue \<Rightarrow> u32 \<Rightarrow> u32 \<Rightarrow> 'a \<Rightarrow> u32 run" where
  "Lower cmp q fro till val = (if till > fro then Lower_loop cmp q val fro (till - fro) else Ret fro)"

function Upper_loop :: "('a \<Rightarrow> 'a \<Rightarrow> int) \<Rightarrow> 'a queue \<Rightarrow> 'a \<Rightarrow> u32 \<Rightarrow> u32 \<Rightarrow> u32 run" where
  "Upper_loop cmp q val fro len =
     (if len > 0 then
        let half = len div 2;
            mid = fro + half
        in bind_run (GetItemPointer q mid) (\<lambda>x.
             if cmp val x < 0 then Upper_loop cmp q val fro half
             else Upper_loop cmp q val (mid + 1) (len - half - 1))
      else Ret fro)"
  by pat_completeness auto

termination
  by (relation "measure (\<lambda>(cmp, q, val, fro, len). unat len)")
    (auto simp: half_less rest_less word_less_nat_alt)

declare Upper_loop.simps [simp del]

definition Upper :: "('a \<Rightarrow> 'a \<Rightarrow> int) \<Rightarrow> 'a queue \<Rightarrow> u32 \<Rightarrow> u32 \<Rightarrow> 'a \<Rightarrow> u32 run" where
  "Upper cmp q fro till val = (if till > fro then Upper_loop cmp q val fro (till - fro) else Ret fro)"

text \<open>The greatest common divisor, as the loop before the rotation computes it.\<close>

function gcd_loop :: "u32 \<Rightarrow> u32 \<Rightarrow> u32" where
  "gcd_loop m n = (if n \<noteq> 0 then gcd_loop n (m mod n) else m)"
  by pat_completeness auto

termination
  by (relation "measure (\<lambda>(m, n). unat n)") (auto simp: unat_mod unat_gt_0)

declare gcd_loop.simps [simp del]

text \<open>One cycle of a rotation, a unit of fuel for each move; then the cycles \<open>n - 1\<close>, \dots, 0.\<close>

fun rotate_cycle :: "nat \<Rightarrow> 'a queue \<Rightarrow> u32 \<Rightarrow> u32 \<Rightarrow> u32 \<Rightarrow> u32 \<Rightarrow> u32 \<Rightarrow> u32 \<Rightarrow> ('a queue \<times> u32) run" where
  "rotate_cycle 0 q first_cut second_cut shift n p1 p2 = NoFuel"
| "rotate_cycle (Suc fuel) q first_cut second_cut shift n p1 p2 =
     (if p2 \<noteq> first_cut + n then
        bind_run (GetItemPointer q p2) (\<lambda>x.
        bind_run (ReplaceItemAt q p1 x) (\<lambda>(_, q).
          rotate_cycle fuel q first_cut second_cut shift n p2
            (if second_cut - p2 > shift then p2 + shift else first_cut + (shift - (second_cut - p2)))))
      else Ret (q, p1))"

fun rotate_cycles :: "nat \<Rightarrow> nat \<Rightarrow> 'a queue \<Rightarrow> u32 \<Rightarrow> u32 \<Rightarrow> u32 \<Rightarrow> 'a queue run" where
  "rotate_cycles fuel 0 q first_cut pivot second_cut = Ret q"
| "rotate_cycles fuel (Suc n) q first_cut pivot second_cut =
     (let n' = of_nat n;
          shift = pivot - first_cut;
          p1 = first_cut + n'
      in bind_run (GetItemPointer q p1) (\<lambda>val.
         bind_run (rotate_cycle fuel q first_cut second_cut shift n' p1 (p1 + shift)) (\<lambda>(q, p1).
         bind_run (ReplaceItemAt q p1 val) (\<lambda>(_, q).
           rotate_cycles fuel n q first_cut pivot second_cut))))"

definition rotate_range :: "nat \<Rightarrow> 'a queue \<Rightarrow> u32 \<Rightarrow> u32 \<Rightarrow> u32 \<Rightarrow> 'a queue run" where
  "rotate_range fuel q first_cut pivot second_cut =
     (if pivot \<noteq> first_cut \<and> pivot \<noteq> second_cut then
        rotate_cycles fuel (unat (gcd_loop (second_cut - first_cut) (pivot - first_cut))) q
          first_cut pivot second_cut
      else Ret q)"

text \<open>Where the merge cuts its two parts: the longer one in the middle, the other by a search.\<close>

definition merge_cut :: "('a \<Rightarrow> 'a \<Rightarrow> int) \<Rightarrow> 'a queue \<Rightarrow> u32 \<Rightarrow> u32 \<Rightarrow> u32 \<Rightarrow> u32 \<Rightarrow> u32 \<Rightarrow>
    (u32 \<times> u32 \<times> u32 \<times> u32) run" where
  "merge_cut cmp q fro pivot till len1 len2 =
     (if len1 > len2 then
        let len11 = len1 div 2;
            first_cut = fro + len11
        in bind_run (GetItemPointer q first_cut) (\<lambda>x.
           bind_run (Lower cmp q pivot till x) (\<lambda>second_cut.
             Ret (len11, first_cut, second_cut, second_cut - pivot)))
      else
        let len22 = len2 div 2;
            second_cut = pivot + len22
        in bind_run (GetItemPointer q second_cut) (\<lambda>x.
           bind_run (Upper cmp q fro pivot x) (\<lambda>first_cut.
             Ret (first_cut - fro, first_cut, second_cut, len22))))"

text \<open>The recursion, with its depth as fuel.\<close>

fun Merge :: "nat \<Rightarrow> ('a \<Rightarrow> 'a \<Rightarrow> int) \<Rightarrow> 'a queue \<Rightarrow> u32 \<Rightarrow> u32 \<Rightarrow> u32 \<Rightarrow> u32 \<Rightarrow> u32 \<Rightarrow> 'a queue run" where
  "Merge 0 cmp q fro pivot till len1 len2 = NoFuel"
| "Merge (Suc fuel) cmp q fro pivot till len1 len2 =
     (if len1 \<noteq> 0 \<and> len2 \<noteq> 0 then
        if len1 + len2 = 2 then
          bind_run (GetItemPointer q pivot) (\<lambda>x. bind_run (GetItemPointer q fro) (\<lambda>y.
            if cmp x y < 0 then Swap q pivot fro else Ret q))
        else
          bind_run (merge_cut cmp q fro pivot till len1 len2) (\<lambda>(len11, first_cut, second_cut, len22).
          bind_run (rotate_range (Suc (unat (second_cut - first_cut))) q first_cut pivot second_cut) (\<lambda>q.
            let new_mid = first_cut + len22
            in bind_run (Merge fuel cmp q fro first_cut new_mid len11 len22) (\<lambda>q.
                 Merge fuel cmp q new_mid second_cut till (len1 - len11) (len2 - len22))))
      else Ret q)"

fun Sort :: "nat \<Rightarrow> ('a \<Rightarrow> 'a \<Rightarrow> int) \<Rightarrow> 'a queue \<Rightarrow> u32 \<Rightarrow> u32 \<Rightarrow> 'a queue run" where
  "Sort 0 cmp q fro till = NoFuel"
| "Sort (Suc fuel) cmp q fro till =
     (let sz = GetNumItems q;
          till = (if till > sz then sz else till)
      in if till > fro then
           if till < fro + 12 then
             if till > fro + 1 then bubble_range cmp (unat till - unat (fro + 1)) q fro (fro + 1)
             else Ret q
           else
             let middle = (fro + till) div 2
             in bind_run (Sort fuel cmp q fro middle) (\<lambda>q.
                bind_run (Sort fuel cmp q middle till) (\<lambda>q.
                  Merge (unat (till - fro)) cmp q fro middle till (middle - fro) (till - middle)))
         else Ret q)"

end
