(* ===== verification/Queue_Rotate.thy ===== *)
theory Queue_Rotate
  imports Queue_Sort
begin

text \<open>
  The rotation step of the merge sort: the cycles of the rotation cover the range, each slot once,
  so the two parts of the range change places.
\<close>

section \<open>Cycles of a rotation\<close>

definition orbit :: "nat \<Rightarrow> nat \<Rightarrow> nat \<Rightarrow> nat \<Rightarrow> nat" where
  "orbit k L n t = (n + t * k) mod L"

lemma orbit_simps:
  "n < L \<Longrightarrow> orbit k L n 0 = n" "orbit k L n (Suc t) = (orbit k L n t + k) mod L"
  "0 < L \<Longrightarrow> orbit k L n t < L"
  by (simp_all add: orbit_def mod_simps ac_simps)

lemma gcd_split:
  assumes "0 < (L :: nat)"
  obtains T k' where "L = gcd L k * T" "k = gcd L k * k'" "coprime T k'" "0 < T" "T = L div gcd L k"
proof -
  have g: "gcd L k \<noteq> 0" using assms by simp
  have "L = gcd L k * (L div gcd L k)" "k = gcd L k * (k div gcd L k)" by simp_all
  moreover have "coprime (L div gcd L k) (k div gcd L k)" using assms by (intro div_gcd_coprime) simp
  moreover have "0 < L div gcd L k" using assms by (simp add: div_greater_zero_iff)
  ultimately show ?thesis using that by blast
qed

lemma orbit_inj:
  assumes "0 < L" "orbit k L n t = orbit k L n u" "t < L div gcd L k" "u < L div gcd L k"
  shows "t = u"
proof -
  have aux: "t = u" if e: "orbit k L n t = orbit k L n u" "u \<le> t" "t < L div gcd L k" for t u
  proof -
    obtain T k' where s: "L = gcd L k * T" "k = gcd L k * k'" "coprime T k'" "0 < T" "T = L div gcd L k"
      by (rule gcd_split [OF assms(1)])
    have "u * k \<le> t * k" using e(2) by (rule mult_le_mono1)
    then have "L dvd (n + t * k) - (n + u * k)"
      using e(1) mod_eq_dvd_iff_nat [of "n + u * k" "n + t * k" L] by (simp add: orbit_def)
    then have "L dvd (t - u) * k" by (simp add: diff_mult_distrib)
    then have "gcd L k * T dvd gcd L k * ((t - u) * k')"
      using s(1,2) by (metis mult.left_commute)
    then have "T dvd (t - u) * k'" using assms(1) by simp
    then have "T dvd t - u" using s(3) by (simp add: coprime_dvd_mult_left_iff)
    then show ?thesis using e(2,3) s(5) by (cases "t - u = 0") (auto dest: dvd_imp_le)
  qed
  show ?thesis using aux [of t u] aux [of u t] assms(2-4) by (cases "u \<le> t") auto
qed

lemma orbit_return:
  assumes "0 < L" "n < L"
  shows "orbit k L n (L div gcd L k) = n"
proof -
  obtain T k' where s: "L = gcd L k * T" "k = gcd L k * k'" "T = L div gcd L k"
    by (rule gcd_split [OF assms(1)])
  have "T * k = L * k'" using s(1,2) by (metis mult.assoc mult.commute)
  then show ?thesis using assms by (simp add: orbit_def s(3) [symmetric])
qed

lemma orbit_residue: "orbit k L n t mod gcd L k = n mod gcd L k"
proof -
  have "orbit k L n t mod gcd L k = (n + t * k) mod gcd L k" unfolding orbit_def by (rule mod_mod_cancel) simp
  also have "\<dots> = n mod gcd L k" by (metis gcd_dvd2 dvd_mult mod_add_right_eq dvd_imp_mod_0 add_0_right)
  finally show ?thesis .
qed

lemma orbit_cover:
  assumes "0 < L" "n < gcd L k"
  shows "orbit k L n ` {..<L div gcd L k} = {p. p < L \<and> p mod gcd L k = n}"
proof (rule card_subset_eq)
  show "finite {p. p < L \<and> p mod gcd L k = n}" by simp
  show "orbit k L n ` {..<L div gcd L k} \<subseteq> {p. p < L \<and> p mod gcd L k = n}"
    using orbit_simps(3) [OF assms(1)] orbit_residue assms(2) by auto
  have "inj_on (orbit k L n) {..<L div gcd L k}" by (rule inj_onI) (auto intro: orbit_inj [OF assms(1)])
  then have "card (orbit k L n ` {..<L div gcd L k}) = L div gcd L k" by (simp add: card_image)
  moreover have "card {p. p < L \<and> p mod gcd L k = n} = L div gcd L k"
  proof -
    let ?g = "gcd L k"
    have "{p. p < L \<and> p mod ?g = n} = (\<lambda>i. n + i * ?g) ` {..<L div ?g}"
    proof (intro equalityI subsetI)
      fix p assume p: "p \<in> {p. p < L \<and> p mod ?g = n}"
      then have "p = n + p div ?g * ?g" using div_mult_mod_eq [of p ?g] by simp
      moreover have "p < L div ?g * ?g" using p by simp
      then have "p div ?g < L div ?g" by (rule less_mult_imp_div_less)
      ultimately show "p \<in> (\<lambda>i. n + i * ?g) ` {..<L div ?g}" by blast
    next
      fix p assume "p \<in> (\<lambda>i. n + i * ?g) ` {..<L div ?g}"
      then obtain i where i: "p = n + i * ?g" "i < L div ?g" by auto
      have "(Suc i) * ?g \<le> L div ?g * ?g" using i(2) by (intro mult_le_mono1) simp
      then have "p < L" using i(1) assms(2) by (simp add: algebra_simps)
      then show "p \<in> {p. p < L \<and> p mod ?g = n}" using i(1) assms(2) by simp
    qed
    moreover have "inj_on (\<lambda>i. n + i * ?g) {..<L div ?g}" using assms(2) by (auto intro!: inj_onI)
    ultimately show ?thesis by (simp add: card_image)
  qed
  ultimately show "card (orbit k L n ` {..<L div gcd L k}) = card {p. p < L \<and> p mod gcd L k = n}" by simp
qed

section \<open>The items during a rotation\<close>

text \<open>
  The list with the places of \<open>A\<close> done: each holds what was \<open>k\<close> places further in the range of
  length \<open>L\<close> that starts at \<open>f\<close>.
\<close>

definition moved :: "nat \<Rightarrow> nat \<Rightarrow> nat \<Rightarrow> nat set \<Rightarrow> 'a list \<Rightarrow> 'a list" where
  "moved f k L A xs = map (\<lambda>i. if i \<in> A then xs ! (f + (i - f + k) mod L) else xs ! i) [0..<length xs]"

lemma length_moved [simp]: "length (moved f k L A xs) = length xs"
  by (simp add: moved_def)

lemma nth_moved: "i < length xs \<Longrightarrow> moved f k L A xs ! i = (if i \<in> A then xs ! (f + (i - f + k) mod L) else xs ! i)"
  by (simp add: moved_def)

lemma moved_empty [simp]: "moved f k L {} xs = xs"
  by (rule nth_equalityI) (simp_all add: nth_moved)

lemma moved_update:
  assumes "i < length xs" "x = xs ! (f + (i - f + k) mod L)"
  shows "(moved f k L A xs)[i := x] = moved f k L (insert i A) xs"
  using assms by (intro nth_equalityI) (auto simp: nth_moved nth_list_update)

lemma moved_all:
  assumes "f + L \<le> length xs" "k < L"
  shows "moved f k L {f..<f + L} xs = take f xs @ rotate k (take L (drop f xs)) @ drop (f + L) xs"
proof (rule nth_equalityI)
  fix i assume "i < length (moved f k L {f..<f + L} xs)"
  then have i: "i < length xs" by simp
  have L: "length (take L (drop f xs)) = L" using assms(1) by simp
  show "moved f k L {f..<f + L} xs ! i = (take f xs @ rotate k (take L (drop f xs)) @ drop (f + L) xs) ! i"
  proof (cases "f \<le> i \<and> i < f + L")
    case True
    then have "i - f < L" by linarith
    then have "rotate k (take L (drop f xs)) ! (i - f) = xs ! (f + (k + (i - f)) mod L)"
      using nth_rotate [of "i - f" "take L (drop f xs)" k] L assms(2) by simp
    then show ?thesis using True i assms(1) L \<open>i - f < L\<close> by (simp add: nth_moved nth_append ac_simps)
  next
    case False
    then show ?thesis using i assms(1) L by (auto simp: nth_moved nth_append)
  qed
qed (use assms in simp)

text \<open>The machine words of a cycle.\<close>

lemma rotate_next:
  assumes "unat (second_cut :: u32) = f + L" "unat shift = k" "unat first_cut = f" "k < L" "unat p2 = f + a" "a < L"
    "f + L \<le> max_slots"
  shows "unat (if second_cut - p2 > shift then p2 + shift else first_cut + (shift - (second_cut - p2)))
    = f + (a + k) mod L"
proof -
  have d: "unat (second_cut - p2) = L - a"
    using assms(1,5,6) by (subst unat_sub) (auto simp: word_le_nat_alt)
  show ?thesis
  proof (cases "second_cut - p2 > shift")
    case True
    then have "a + k < L" using d assms(2,6) by (simp add: word_less_nat_alt)
    then show ?thesis using True assms by (simp add: unat_word_ariths max_slots_def)
  next
    case False
    then have ge: "L - a \<le> k" using d assms(2) by (simp add: word_less_nat_alt)
    then have "unat (shift - (second_cut - p2)) = k - (L - a)"
      using d assms(2) by (subst unat_sub) (auto simp: word_le_nat_alt)
    moreover have "(a + k) mod L = k - (L - a)" 
    proof -
      have "(a + k) mod L = (k - (L - a) + L) mod L" using ge assms(6) by (simp add: ac_simps)
      then show ?thesis using assms(4) by simp
    qed
    ultimately show ?thesis
      using False assms by (simp add: unat_word_ariths max_slots_def)
  qed
qed

lemma moved_step:
  assumes "queue_ok q" "items q = moved f k L A xs" "f + L \<le> length xs" "0 < L" "a < L" "b = (a + k) mod L"
    "unat p1 = f + a" "unat p2 = f + b" "f + b \<notin> A"
  shows "\<exists>q'. GetItemPointer q p2 = Ret (xs ! (f + b)) \<and> ReplaceItemAt q p1 (xs ! (f + b)) = Ret (B_NO_ERROR, q') \<and>
    queue_ok q' \<and> items q' = moved f k L (insert (f + a) A) xs \<and> (clean q \<longrightarrow> clean q')"
proof -
  have b: "b < L" using assms(4,6) by simp
  have "length (items q) = length xs" unfolding assms(2) by simp
  then have lt: "unat p1 < length (items q)" "unat p2 < length (items q)" using assms(3,5,7,8) b by simp_all
  have "items q ! unat p2 = xs ! (f + b)" unfolding assms(2) using assms(3,8,9) b by (simp add: nth_moved)
  moreover have "(moved f k L A xs)[f + a := xs ! (f + b)] = moved f k L (insert (f + a) A) xs"
    using assms(3,5,6) by (intro moved_update) simp_all
  ultimately show ?thesis
    using GetItemPointer_ok [OF assms(1) lt(2)] ReplaceItemAt_ok [OF assms(1) lt(1)] lt(1) assms(1,2,7)
      clean_put_item [OF assms(1) _ lt(1)] by simp
qed

lemma rotate_cycle_ok:
  assumes k: "0 < k" "k < L" "n < gcd L k" and len: "f + L \<le> length xs" "length xs \<le> max_slots"
    and w: "unat first_cut = f" "unat second_cut = f + L" "unat shift = k" "unat n' = n"
    and A: "\<And>u. u < L div gcd L k \<Longrightarrow> f + orbit k L n u \<notin> A"
  shows "queue_ok q \<Longrightarrow> items q = moved f k L (A \<union> (\<lambda>u. f + orbit k L n u) ` {..<t}) xs \<Longrightarrow>
    Suc t + m = L div gcd L k \<Longrightarrow> unat p1 = f + orbit k L n t \<Longrightarrow> unat p2 = f + orbit k L n (Suc t) \<Longrightarrow> m < fuel \<Longrightarrow>
    \<exists>q' p. rotate_cycle fuel q first_cut second_cut shift n' p1 p2 = Ret (q', p) \<and>
      unat p = f + orbit k L n (L div gcd L k - 1) \<and> queue_ok q' \<and>
      items q' = moved f k L (A \<union> (\<lambda>u. f + orbit k L n u) ` {..<L div gcd L k - 1}) xs \<and> (clean q \<longrightarrow> clean q')"
proof (induction m arbitrary: q t p1 p2 fuel)
  let ?o = "orbit k L n" and ?T = "L div gcd L k"
  have L0: "0 < L" using k by simp
  have "gcd L k \<le> L" using L0 by (intro dvd_imp_le) simp_all
  then have n: "n < L" using k(3) by linarith
  have fn: "unat (first_cut + n') = f + n"
    using w len n by (simp add: unat_word_ariths max_slots_def)
  {
    case 0
    then have t: "Suc t = ?T" by simp
    then have "?o (Suc t) = n" using orbit_return [OF L0 n] by simp
    then have "p2 = first_cut + n'" using 0(5) fn by (simp add: word_unat_eq_iff)
    moreover obtain f' where "fuel = Suc f'" using 0(6) by (cases fuel) auto
    moreover have "?T - 1 = t" using t by simp
    ultimately show ?case using 0(1,2,4) by simp
  next
    case (Suc m)
    obtain f' where fuel: "fuel = Suc f'" using Suc.prems(6) by (cases fuel) auto
    have tT: "Suc t < ?T" using Suc.prems(3) by simp
    have "?o (Suc t) \<noteq> n"
      using orbit_inj [OF L0, of k n "Suc t" 0] orbit_simps(1) [OF n, of k] tT by auto
    then have ne: "p2 \<noteq> first_cut + n'" using Suc.prems(5) fn by auto
    have "f + ?o (Suc t) \<notin> A \<union> (\<lambda>u. f + ?o u) ` {..<t}"
    proof
      assume "f + ?o (Suc t) \<in> A \<union> (\<lambda>u. f + ?o u) ` {..<t}"
      then obtain u where u: "?o (Suc t) = ?o u" "u < t" using A [OF tT] by auto
      then have "Suc t = u" using tT by (intro orbit_inj [OF L0 u(1)]) simp_all
      then show False using u(2) by simp
    qed
    from moved_step [OF Suc.prems(1,2) len(1) L0 orbit_simps(3) [OF L0] orbit_simps(2) Suc.prems(4,5) this]
    obtain q1 where q1: "GetItemPointer q p2 = Ret (xs ! (f + ?o (Suc t)))"
      "ReplaceItemAt q p1 (xs ! (f + ?o (Suc t))) = Ret (B_NO_ERROR, q1)" "queue_ok q1"
      "items q1 = moved f k L (insert (f + ?o t) (A \<union> (\<lambda>u. f + ?o u) ` {..<t})) xs" "clean q \<longrightarrow> clean q1" by blast
    let ?p3 = "if second_cut - p2 > shift then p2 + shift else first_cut + (shift - (second_cut - p2))"
    have p3: "unat ?p3 = f + ?o (Suc (Suc t))"
      using rotate_next [OF w(2,3,1) k(2) Suc.prems(5) orbit_simps(3) [OF L0]] len
      unfolding orbit_simps(2) [of k L n "Suc t"] by simp
    have it: "items q1 = moved f k L (A \<union> (\<lambda>u. f + ?o u) ` {..<Suc t}) xs"
      using q1(4) by (simp add: lessThan_Suc)
    have "Suc (Suc t) + m = ?T" "m < f'" using Suc.prems(3,6) fuel by simp_all
    from Suc.IH [OF q1(3) it this(1) Suc.prems(5) p3 this(2)] show ?case
      using ne q1(1,2,5) fuel by auto
  }
qed

section \<open>All cycles\<close>

definition residues_from :: "nat \<Rightarrow> nat \<Rightarrow> nat \<Rightarrow> nat \<Rightarrow> nat set" where
  "residues_from f L g n = (\<lambda>p. f + p) ` {p. p < L \<and> n \<le> p mod g}"

lemma residues_step:
  assumes "0 < L" "n < gcd L k"
  shows "residues_from f L (gcd L k) (Suc n) \<union> (\<lambda>u. f + orbit k L n u) ` {..<L div gcd L k} =
    residues_from f L (gcd L k) n"
proof -
  have "(\<lambda>u. f + orbit k L n u) ` {..<L div gcd L k} = (\<lambda>p. f + p) ` (orbit k L n ` {..<L div gcd L k})"
    by (simp add: image_image)
  also have "\<dots> = (\<lambda>p. f + p) ` {p. p < L \<and> p mod gcd L k = n}" by (simp only: orbit_cover [OF assms])
  finally show ?thesis by (auto simp: residues_from_def image_iff Suc_le_eq le_less)
qed

lemma residues_all: "residues_from f L g 0 = {f..<f + L}"
proof (intro equalityI subsetI)
  fix x assume "x \<in> {f..<f + L}"
  then have "x = f + (x - f)" "x - f < L" by auto
  then show "x \<in> residues_from f L g 0" unfolding residues_from_def by blast
qed (auto simp: residues_from_def)

lemma residues_none: "0 < g \<Longrightarrow> residues_from f L g g = {}"
  by (auto simp: residues_from_def not_le)

lemma rotate_cycles_ok:
  assumes k: "0 < k" "k < L" and len: "f + L \<le> length xs" "length xs \<le> max_slots"
    and w: "unat first_cut = f" "unat second_cut = f + L" "unat pivot = f + k" and fuel: "L < fuel"
  shows "queue_ok q \<Longrightarrow> n \<le> gcd L k \<Longrightarrow> items q = moved f k L (residues_from f L (gcd L k) n) xs \<Longrightarrow>
    \<exists>q'. rotate_cycles fuel n q first_cut pivot second_cut = Ret q' \<and> queue_ok q' \<and>
      items q' = moved f k L {f..<f + L} xs \<and> (clean q \<longrightarrow> clean q')"
proof (induction n arbitrary: q)
  case 0
  then show ?case by (simp add: residues_all)
next
  case (Suc n)
  let ?g = "gcd L k" and ?T = "L div gcd L k" and ?o = "orbit k L n"
  let ?A = "residues_from f L ?g (Suc n)"
  have L0: "0 < L" using k by simp
  have ng: "n < ?g" using Suc.prems(2) by simp
  have gL: "?g \<le> L - k"
  proof -
    have "?g dvd L - k" by (simp add: dvd_diff_nat)
    then show ?thesis using k by (intro dvd_imp_le) simp_all
  qed
  then have nk: "n + k < L" using ng k by linarith
  have T0: "0 < ?T" using gL k by (simp add: div_greater_zero_iff)
  have small: "f + L \<le> max_slots" using len by simp
  have un: "unat (of_nat n :: u32) = n" using nk small by (simp add: unat_of_nat take_bit_eq_mod max_slots_def)
  let ?p1 = "first_cut + of_nat n" and ?shift = "pivot - first_cut"
  have up1: "unat ?p1 = f + n" using w(1) un nk small by (simp add: unat_word_ariths max_slots_def)
  have ush: "unat ?shift = k" using w(1,3) by (simp add: unat_sub word_le_nat_alt)
  have up2: "unat (?p1 + ?shift) = f + (n + k)" 
  proof -
    have "unat ?p1 + unat ?shift < 2 ^ LENGTH(32)" unfolding up1 ush using nk small by (simp add: max_slots_def)
    then have "unat (?p1 + ?shift) = unat ?p1 + unat ?shift" by (rule unat_add_lem [THEN iffD1])
    then show ?thesis unfolding up1 ush by (simp only: add.assoc)
  qed
  have o0: "?o 0 = n" "?o (Suc 0) = n + k" using nk by (simp_all add: orbit_def)
  have notin: "f + ?o u \<notin> ?A" if "u < ?T" for u
  proof -
    have "?o u mod ?g = n" using orbit_cover [OF L0 ng] that by blast
    then show ?thesis by (auto simp: residues_from_def)
  qed
  have "length (items q) = length xs" unfolding Suc.prems(3) by simp
  then have lt1: "unat ?p1 < length (items q)" using up1 nk len by simp
  have val: "GetItemPointer q ?p1 = Ret (xs ! (f + n))"
  proof -
    have "f + n \<notin> ?A" using notin [OF T0] o0(1) by simp
    then have "moved f k L ?A xs ! (f + n) = xs ! (f + n)"
      using nk len by (subst nth_moved) simp_all
    then show ?thesis
      using GetItemPointer_ok [OF Suc.prems(1) lt1] unfolding up1 Suc.prems(3) by simp
  qed
  have it0: "items q = moved f k L (?A \<union> (\<lambda>u. f + ?o u) ` {..<0}) xs" using Suc.prems(3) by simp
  have m: "Suc 0 + (?T - 1) = ?T" "?T - 1 < fuel" using T0 fuel div_le_dividend [of L ?g] by linarith+
  from rotate_cycle_ok [OF k ng len w(1,2) ush un notin Suc.prems(1) it0 m(1) _ _ m(2), of ?p1 "?p1 + ?shift"]
  obtain q1 p where q1: "rotate_cycle fuel q first_cut second_cut ?shift (of_nat n) ?p1 (?p1 + ?shift) = Ret (q1, p)"
    "unat p = f + ?o (?T - 1)" "queue_ok q1"
    "items q1 = moved f k L (?A \<union> (\<lambda>u. f + ?o u) ` {..<?T - 1}) xs" "clean q \<longrightarrow> clean q1"
    using up1 up2 o0 by auto
  have oL: "?o (?T - 1) < L" by (rule orbit_simps(3) [OF L0])
  have "length (items q1) = length xs" unfolding q1(4) by simp
  then have lt2: "unat p < length (items q1)" using q1(2) oL len by simp
  have "(?o (?T - 1) + k) mod L = ?o (Suc (?T - 1))" by (simp only: orbit_simps(2))
  also have "\<dots> = n" using orbit_return [OF L0, of n k] T0 nk by simp
  finally have last: "(?o (?T - 1) + k) mod L = n" .
  let ?q2 = "put_item q1 (unat p) (xs ! (f + n))"
  have "items ?q2 = (items q1)[f + ?o (?T - 1) := xs ! (f + n)]" using q1(2,3) lt2 by simp
  also have "\<dots> = moved f k L (insert (f + ?o (?T - 1)) (?A \<union> (\<lambda>u. f + ?o u) ` {..<?T - 1})) xs"
    unfolding q1(4) using oL len last by (intro moved_update) simp_all
  also have "insert (f + ?o (?T - 1)) (?A \<union> (\<lambda>u. f + ?o u) ` {..<?T - 1}) = ?A \<union> (\<lambda>u. f + ?o u) ` {..<Suc (?T - 1)}"
    by (auto simp: lessThan_Suc)
  also have "\<dots> = residues_from f L ?g n" using residues_step [OF L0 ng, of f] T0 by simp
  finally have it2: "items ?q2 = moved f k L (residues_from f L ?g n) xs" .
  have "queue_ok ?q2" using q1(3) by simp
  from Suc.IH [OF this _ it2] ng show ?case
    using val q1(1,5) ReplaceItemAt_ok [OF q1(3) lt2] clean_put_item [OF q1(3) _ lt2]
    by (auto simp: Let_def)
qed

lemma gcd_loop_eq: "unat (gcd_loop m n) = gcd (unat m) (unat n)"
proof (induction m n rule: gcd_loop.induct)
  case (1 m n)
  show ?case
  proof (cases "n = 0")
    case True
    then show ?thesis by (subst gcd_loop.simps) simp
  next
    case False
    then have "gcd_loop m n = gcd_loop n (m mod n)" by (subst gcd_loop.simps) simp
    then show ?thesis using 1 [OF False] by (simp add: unat_mod gcd.commute gcd_red_nat [symmetric])
  qed
qed

text \<open>The two parts of the range change places.\<close>

lemma rotate_range_ok:
  assumes "queue_ok q" "items q = us @ as @ bs @ ws"
    "unat first_cut = length us" "unat pivot = length us + length as" "unat second_cut = length us + length as + length bs"
  shows "\<exists>q'. rotate_range (Suc (unat (second_cut - first_cut))) q first_cut pivot second_cut = Ret q' \<and> queue_ok q' \<and>
    items q' = us @ bs @ as @ ws \<and> (clean q \<longrightarrow> clean q')"
proof (cases "as = [] \<or> bs = []")
  case True
  then have "pivot = first_cut \<or> pivot = second_cut" using assms(3-5) by (auto simp: word_unat_eq_iff)
  then have "rotate_range (Suc (unat (second_cut - first_cut))) q first_cut pivot second_cut = Ret q"
    by (auto simp: rotate_range_def)
  then show ?thesis using True assms(1,2) by auto
next
  case False
  let ?k = "length as" and ?L = "length as + length bs" and ?f = "length us"
  have ne: "pivot \<noteq> first_cut" "pivot \<noteq> second_cut" using False assms(3-5) by auto
  have us: "unat (second_cut - first_cut) = ?L" "unat (pivot - first_cut) = ?k"
    using assms(3-5) by (simp_all add: unat_sub word_le_nat_alt)
  have g: "unat (gcd_loop (second_cut - first_cut) (pivot - first_cut)) = gcd ?L ?k" by (simp add: gcd_loop_eq us)
  have k: "0 < ?k" "?k < ?L" using False by simp_all
  have len: "?f + ?L \<le> length (items q)" "length (items q) \<le> max_slots"
    using items_bound [OF assms(1)] by (simp_all add: assms(2) del: length_items)
  have "0 < gcd ?L ?k" using k by simp
  then have "items q = moved ?f ?k ?L (residues_from ?f ?L (gcd ?L ?k) (gcd ?L ?k)) (items q)"
    by (simp add: residues_none)
  from rotate_cycles_ok [OF k len assms(3) _ assms(4) _ assms(1) order_refl this, of second_cut "Suc ?L"]
  obtain q' where q': "rotate_cycles (Suc ?L) (gcd ?L ?k) q first_cut pivot second_cut = Ret q'" "queue_ok q'"
    "items q' = moved ?f ?k ?L {?f..<?f + ?L} (items q)" "clean q \<longrightarrow> clean q'"
    using assms(5) by (auto simp: add.assoc)
  have "rotate ?k (as @ bs) = bs @ as" by (rule rotate_append)
  then have "items q' = us @ bs @ as @ ws"
    unfolding q'(3) moved_all [OF len(1) k(2)] by (simp add: assms(2))
  then show ?thesis using q' ne us(1) g by (simp add: rotate_range_def)
qed

end
