(* ===== verification/Queue_Sort_Proof.thy ===== *)
theory Queue_Sort_Proof
  imports Queue_Rotate
begin

text \<open>
  \<open>Queue::Sort\<close> sorts: the items of the range become the stable sort of the library's theory
  Sorting_Algorithms. \<open>orders cmp c\<close> says that the comparison function \<open>cmp\<close> of the code tells which of
  two items is the lesser in the order of the comparator \<open>c\<close>; the code never asks it anything else.
\<close>

section \<open>The order\<close>

definition orders :: "('a \<Rightarrow> 'a \<Rightarrow> int) \<Rightarrow> 'a comparator \<Rightarrow> bool" where
  "orders cmp c = (\<forall>x y. (cmp x y < 0) = (compare c x y = Less))"

abbreviation stable_sort :: "'a comparator \<Rightarrow> 'a list \<Rightarrow> 'a list" where
  "stable_sort \<equiv> Sorting_Algorithms.sort"

abbreviation ordered :: "'a comparator \<Rightarrow> 'a list \<Rightarrow> bool" where
  "ordered \<equiv> Sorting_Algorithms.sorted"

lemma orders_less: "orders cmp c \<Longrightarrow> (cmp x y < 0) = (compare c x y = Less)"
  by (simp add: orders_def)

lemma orders_greater: "orders cmp c \<Longrightarrow> (cmp x y < 0) = (compare c y x = Greater)"
  by (simp add: orders_def compare.less_iff_sym_greater)

lemma ordered_append: "ordered c (xs @ ys) \<longleftrightarrow>
    ordered c xs \<and> ordered c ys \<and> (\<forall>x\<in>set xs. \<forall>y\<in>set ys. compare c x y \<noteq> Greater)"
  by (rule sorted_append_iff)

lemma stable_sort_ordered: "ordered c xs \<Longrightarrow> stable_sort c xs = xs"
  by (rule sort_eqI) simp_all

text \<open>What a merge may exchange: parts strictly the wrong way round.\<close>

lemma no_common_segment:
  assumes "\<forall>a\<in>set as. \<forall>b\<in>set bs. compare c a b = Greater"
  shows "stable_segment c l as = [] \<or> stable_segment c l bs = []"
proof (rule ccontr)
  assume "\<not> ?thesis"
  then obtain a b where "a \<in> set as" "b \<in> set bs" "compare c l a = Equiv" "compare c l b = Equiv"
    by (auto simp: filter_empty_conv)
  moreover from this have "compare c a b = Greater" using assms by blast
  ultimately show False using compare.equiv_subst_left [of c l a b] by simp
qed

lemma merge_split:
  assumes le: "\<forall>x\<in>set as1 \<union> set bs1. \<forall>y\<in>set as2 \<union> set bs2. compare c x y \<noteq> Greater"
    and gt: "\<forall>x\<in>set as2. \<forall>y\<in>set bs1. compare c x y = Greater"
  shows "stable_sort c (as1 @ bs1) @ stable_sort c (as2 @ bs2) = stable_sort c (as1 @ as2 @ bs1 @ bs2)"
proof (rule sort_eqI [symmetric])
  show "mset (as1 @ as2 @ bs1 @ bs2) = mset (stable_sort c (as1 @ bs1) @ stable_sort c (as2 @ bs2))" by simp
  show "ordered c (stable_sort c (as1 @ bs1) @ stable_sort c (as2 @ bs2))"
    using le by (simp add: ordered_append)
  fix l
  have "stable_segment c l as2 @ stable_segment c l bs1 = stable_segment c l bs1 @ stable_segment c l as2"
    using no_common_segment [OF gt, of l] by auto
  then show "stable_segment c l (as1 @ as2 @ bs1 @ bs2) =
      stable_segment c l (stable_sort c (as1 @ bs1) @ stable_sort c (as2 @ bs2))"
    by (simp add: stable_sort)
qed

section \<open>The bubble sort\<close>

lemma insert_last:
  assumes "ordered c (as1 @ as2)" "\<forall>y\<in>set as2. compare c x y = Less" "as1 \<noteq> [] \<longrightarrow> compare c x (last as1) \<noteq> Less"
  shows "as1 @ x # as2 = stable_sort c (as1 @ as2 @ [x])"
proof -
  have "compare c y x \<noteq> Greater" if "y \<in> set as1" for y
  proof -
    have "as1 \<noteq> []" using that by auto
    then obtain zs z where as1: "as1 = zs @ [z]" by (cases as1 rule: rev_cases) auto
    have zx: "compare c z x \<noteq> Greater" using assms(3) as1 compare.greater_iff_sym_less [of c z x] by simp
    have "\<forall>u\<in>set zs. compare c u z \<noteq> Greater" using assms(1) unfolding as1 ordered_append by simp
    then have "compare c y z \<noteq> Greater" using that unfolding as1 by auto
    then show ?thesis using zx by (rule compare.trans_not_greater)
  qed
  then have le': "\<forall>u\<in>set as1. compare c u x \<noteq> Greater" by blast
  have "\<forall>u\<in>set as1. \<forall>v\<in>set as2. compare c u v \<noteq> Greater"
    using assms(1) unfolding ordered_append by simp
  then have le: "\<forall>u\<in>set as1 \<union> set [x]. \<forall>v\<in>set as2 \<union> set []. compare c u v \<noteq> Greater"
    using assms(2) by auto
  have gt: "\<forall>u\<in>set as2. \<forall>v\<in>set [x]. compare c u v = Greater"
    using assms(2) compare.greater_iff_sym_less [of c] by simp
  have o: "ordered c (as1 @ [x])" "ordered c as2" using assms(1) le' unfolding ordered_append by simp_all
  have "as1 @ x # as2 = stable_sort c (as1 @ [x]) @ stable_sort c (as2 @ [])"
    by (simp only: append_Nil2 stable_sort_ordered [OF o(1)] stable_sort_ordered [OF o(2)] append_assoc append_Cons append_Nil)
  then show ?thesis unfolding merge_split [OF le gt] by simp
qed

lemma bubble_down_ok:
  assumes cmp: "orders cmp c"
  shows "queue_ok q \<Longrightarrow> items q = us @ as @ x # bs \<Longrightarrow> unat j = length us + length as \<Longrightarrow>
    \<exists>q' as1 as2. as = as1 @ as2 \<and> bubble_down cmp (length as) q j = Ret q' \<and> queue_ok q' \<and>
      items q' = us @ as1 @ x # as2 @ bs \<and> (clean q \<longrightarrow> clean q') \<and>
      (\<forall>y\<in>set as2. compare c x y = Less) \<and> (as1 \<noteq> [] \<longrightarrow> compare c x (last as1) \<noteq> Less)"
proof (induction as arbitrary: q bs j rule: rev_induct)
  case Nil
  then show ?case by simp
next
  case (snoc y as)
  have len: "length (items q) = length us + Suc (length as) + Suc (length bs)"
    by (simp add: snoc.prems(2) del: length_items)
  have j: "unat j < length (items q)" using snoc.prems(3) len by simp
  have j1: "unat (j - 1) = length us + length as"
    using snoc.prems(3) by (subst unat_minus_one) auto
  then have j1': "unat (j - 1) < length (items q)" using len by simp
  have x: "items q ! unat j = x" "items q ! unat (j - 1) = y"
    unfolding j1 unfolding snoc.prems(2,3) by (simp_all add: nth_append)
  note get = GetItemPointer_ok [OF snoc.prems(1) j] GetItemPointer_ok [OF snoc.prems(1) j1']
  show ?case
  proof (cases "cmp x y < 0")
    case True
    obtain q1 where q1: "Swap q j (j - 1) = Ret q1" "queue_ok q1"
      "items q1 = (items q)[unat j := items q ! unat (j - 1), unat (j - 1) := items q ! unat j]" "clean q \<longrightarrow> clean q1"
      using Swap_ok [OF snoc.prems(1) j j1'] by blast
    have "items q1 = us @ as @ x # (y # bs)"
      unfolding q1(3) x unfolding j1 snoc.prems(2,3) by (simp add: list_update_append)
    from snoc.IH [OF q1(2) this j1] obtain q' as1 as2 where q': "as = as1 @ as2"
      "bubble_down cmp (length as) q1 (j - 1) = Ret q'" "queue_ok q'" "items q' = us @ as1 @ x # as2 @ y # bs"
      "clean q1 \<longrightarrow> clean q'" "\<forall>y\<in>set as2. compare c x y = Less" "as1 \<noteq> [] \<longrightarrow> compare c x (last as1) \<noteq> Less"
      by blast
    have "compare c x y = Less" using True orders_less [OF cmp] by blast
    then show ?thesis
      using q' q1(1,4) True get x by (intro exI [of _ q'] exI [of _ as1] exI [of _ "as2 @ [y]"]) simp
  next
    case False
    then have "compare c x y \<noteq> Less" using orders_less [OF cmp] by blast
    then show ?thesis
      using snoc.prems(1,2) False get x by (intro exI [of _ q] exI [of _ "as @ [y]"] exI [of _ "[]"]) simp
  qed
qed

lemma stable_sort_snoc:
  assumes "stable_sort c as = as1 @ as2" "as1 @ x # as2 = stable_sort c (as1 @ as2 @ [x])"
  shows "as1 @ x # as2 = stable_sort c (as @ [x])"
proof -
  have "stable_sort c (as @ [x]) = stable_sort c (stable_sort c as @ [x])"
    by (rule sort_eqI) (simp_all add: stable_sort)
  then show ?thesis using assms by simp
qed

lemma bubble_range_ok:
  assumes cmp: "orders cmp c"
  shows "queue_ok q \<Longrightarrow> items q = us @ stable_sort c as @ bs @ ws \<Longrightarrow> unat fro = length us \<Longrightarrow>
    unat i = length us + length as \<Longrightarrow>
    \<exists>q'. bubble_range cmp (length bs) q fro i = Ret q' \<and> queue_ok q' \<and>
      items q' = us @ stable_sort c (as @ bs) @ ws \<and> (clean q \<longrightarrow> clean q')"
proof (induction bs arbitrary: q as i)
  case (Cons x bs)
  have "items q = us @ stable_sort c as @ x # bs @ ws" using Cons.prems(2) by simp
  from bubble_down_ok [OF cmp Cons.prems(1) this, of i] Cons.prems(4)
  obtain q1 as1 as2 where q1: "stable_sort c as = as1 @ as2" "bubble_down cmp (length as) q i = Ret q1" "queue_ok q1"
    "items q1 = us @ as1 @ x # as2 @ bs @ ws" "clean q \<longrightarrow> clean q1"
    "\<forall>y\<in>set as2. compare c x y = Less" "as1 \<noteq> [] \<longrightarrow> compare c x (last as1) \<noteq> Less" by auto
  have "ordered c (as1 @ as2)" using sorted_sort [of c as] q1(1) by simp
  then have "as1 @ x # as2 = stable_sort c (as @ [x])"
    by (intro stable_sort_snoc [OF q1(1)] insert_last q1(6,7))
  then have it: "items q1 = us @ stable_sort c (as @ [x]) @ bs @ ws"
    using q1(4) by (metis append_Cons append_assoc)
  have "length (items q) = length us + length as + Suc (length bs) + length ws"
    by (simp add: Cons.prems(2) del: length_items)
  then have "unat i < max_slots" using Cons.prems(4) items_bound [OF Cons.prems(1)] by simp
  then have "unat (i + 1) = length us + length (as @ [x])" using Cons.prems(4) by (simp add: unat_Suc_index)
  from Cons.IH [OF q1(3) it Cons.prems(3) this]
  obtain q' where "bubble_range cmp (length bs) q1 fro (i + 1) = Ret q'" "queue_ok q'"
    "items q' = us @ stable_sort c ((as @ [x]) @ bs) @ ws" "clean q1 \<longrightarrow> clean q'" by blast
  moreover have "unat i - unat fro = length as" using Cons.prems(3,4) by simp
  ultimately show ?case using q1(2,5) by simp
qed simp

end
