(* ===== verification/Queue_Merge_Proof.thy ===== *)
theory Queue_Merge_Proof
  imports Queue_Sort_Proof
begin

text \<open>
  The merge of \<open>Queue::Sort\<close>: its binary searches, the split of two sorted parts around an item, and
  the recursion with the depth that is enough for it.
\<close>

section \<open>The binary searches\<close>

text \<open>The items below the value come first in the range that is searched.\<close>

definition below_first :: "('a \<Rightarrow> 'a \<Rightarrow> int) \<Rightarrow> 'a list \<Rightarrow> 'a \<Rightarrow> nat \<Rightarrow> nat \<Rightarrow> bool" where
  "below_first cmp xs val a b = (\<forall>i j. a \<le> i \<and> i \<le> j \<and> j < b \<and> cmp (xs ! j) val < 0 \<longrightarrow> cmp (xs ! i) val < 0)"

definition bound_at :: "('a \<Rightarrow> 'a \<Rightarrow> int) \<Rightarrow> 'a list \<Rightarrow> 'a \<Rightarrow> nat \<Rightarrow> nat \<Rightarrow> nat \<Rightarrow> bool" where
  "bound_at cmp xs val a b k = (a \<le> k \<and> k \<le> b \<and> (\<forall>i. a \<le> i \<and> i < k \<longrightarrow> cmp (xs ! i) val < 0) \<and>
    (\<forall>i. k \<le> i \<and> i < b \<longrightarrow> \<not> cmp (xs ! i) val < 0))"

lemma bound_at_lower:
  assumes "below_first cmp xs val a b" "\<not> cmp (xs ! m) val < 0" "a \<le> m" "m < b" "bound_at cmp xs val a m k"
  shows "bound_at cmp xs val a b k"
proof -
  have "\<not> cmp (xs ! i) val < 0" if "k \<le> i" "i < b" for i
  proof (cases "i < m")
    case True
    then show ?thesis using assms(5) that by (simp add: bound_at_def)
  next
    case False
    then show ?thesis using assms(1-3) that unfolding below_first_def by (meson not_le)
  qed
  then show ?thesis using assms(3-5) by (simp add: bound_at_def)
qed

lemma bound_at_upper:
  assumes "below_first cmp xs val a b" "cmp (xs ! m) val < 0" "a \<le> m" "m < b" "bound_at cmp xs val (Suc m) b k"
  shows "bound_at cmp xs val a b k"
proof -
  have "cmp (xs ! i) val < 0" if "a \<le> i" "i < k" for i
  proof (cases "i \<le> m")
    case True
    then show ?thesis using assms(1,2,4) that unfolding below_first_def by blast
  next
    case False
    then show ?thesis using assms(5) that by (simp add: bound_at_def)
  qed
  then show ?thesis using assms(3-5) by (simp add: bound_at_def)
qed

lemma below_first_part: "below_first cmp xs val a b \<Longrightarrow> a \<le> a' \<Longrightarrow> b' \<le> b \<Longrightarrow> below_first cmp xs val a' b'"
  by (simp add: below_first_def) (meson le_trans less_le_trans)

lemma Lower_loop_ok:
  assumes "queue_ok q"
  shows "unat fro + unat len \<le> length (items q) \<Longrightarrow> below_first cmp (items q) val (unat fro) (unat fro + unat len) \<Longrightarrow>
    \<exists>p. Lower_loop cmp q val fro len = Ret p \<and> bound_at cmp (items q) val (unat fro) (unat fro + unat len) (unat p)"
proof (induction "unat len" arbitrary: fro len rule: less_induct)
  case less
  let ?a = "unat fro" and ?n = "unat len" and ?L = "items q"
  show ?case
  proof (cases "len = 0")
    case True
    then show ?thesis by (subst Lower_loop.simps) (simp add: bound_at_def)
  next
    case False
    then have pos: "0 < len" and n0: "0 < ?n" by (simp_all add: word_gt_0 unat_gt_0)
    have bound: "?a + ?n \<le> max_slots" using less.prems(1) items_bound [OF assms] by simp
    let ?mid = "fro + len div 2"
    have mid: "unat ?mid = ?a + ?n div 2"
      using bound by (simp add: unat_word_ariths unat_div max_slots_def)
    have h: "?n div 2 < ?n" using n0 by simp
    have lt: "unat ?mid < length ?L" using mid h less.prems(1) by linarith
    note get = GetItemPointer_ok [OF assms lt]
    show ?thesis
    proof (cases "cmp (?L ! unat ?mid) val < 0")
      case True
      let ?len' = "len - len div 2 - 1"
      have len': "unat ?len' = ?n - ?n div 2 - 1" using rest_less [OF pos] .
      have "unat ?mid < max_slots" using mid h bound by linarith
      then have mid1: "unat (?mid + 1) = Suc (unat ?mid)" by (rule unat_Suc_index)
      have fin: "unat (?mid + 1) + unat ?len' = ?a + ?n" using mid1 mid len' n0 by linarith
      have dec: "unat ?len' < unat len" using len' n0 by linarith
      have within: "unat (?mid + 1) + unat ?len' \<le> length ?L" unfolding fin by (rule less.prems(1))
      have "?a \<le> unat (?mid + 1)" using mid mid1 by linarith
      then have "below_first cmp ?L val (unat (?mid + 1)) (unat (?mid + 1) + unat ?len')"
        unfolding fin by (intro below_first_part [OF less.prems(2)]) simp_all
      from less.hyps [OF dec within this] obtain p where p: "Lower_loop cmp q val (?mid + 1) ?len' = Ret p"
        "bound_at cmp ?L val (Suc (unat ?mid)) (?a + ?n) (unat p)" unfolding fin unfolding mid1 by blast
      have "bound_at cmp ?L val ?a (?a + ?n) (unat p)"
        using mid h by (intro bound_at_upper [OF less.prems(2) True _ _ p(2)]) simp_all
      then show ?thesis using p(1) get True pos by (subst Lower_loop.simps) (simp add: Let_def)
    next
      case False
      have half: "unat (len div 2) = ?n div 2" by (simp add: unat_div)
      have "unat (len div 2) < unat len" using half h by simp
      moreover have "?a + ?n div 2 \<le> length ?L" using less.prems(1) h by linarith
      ultimately obtain p where p: "Lower_loop cmp q val fro (len div 2) = Ret p"
        "bound_at cmp ?L val ?a (unat ?mid) (unat p)"
        using less.hyps [of "len div 2" fro] below_first_part [OF less.prems(2), of ?a "?a + ?n div 2"] mid half by auto
      have "bound_at cmp ?L val ?a (?a + ?n) (unat p)"
        using mid h by (intro bound_at_lower [OF less.prems(2) False _ _ p(2)]) simp_all
      then show ?thesis using p(1) get False pos by (subst Lower_loop.simps) (simp add: Let_def)
    qed
  qed
qed

lemma Lower_ok:
  assumes "queue_ok q" "unat fro \<le> unat till" "unat till \<le> length (items q)"
    "below_first cmp (items q) val (unat fro) (unat till)"
  shows "\<exists>p. Lower cmp q fro till val = Ret p \<and> bound_at cmp (items q) val (unat fro) (unat till) (unat p)"
proof (cases "till > fro")
  case True
  then have "unat fro + unat (till - fro) = unat till" using assms(2) by (simp add: unat_sub word_le_nat_alt)
  then show ?thesis using Lower_loop_ok [OF assms(1), of fro "till - fro"] assms(3,4) True by (simp add: Lower_def)
next
  case False
  then have "unat till = unat fro" using assms(2) by (simp add: word_less_nat_alt)
  then show ?thesis using False by (auto simp: Lower_def bound_at_def)
qed

text \<open>The other search is the same with the answers of the comparison turned round.\<close>

definition not_above :: "('a \<Rightarrow> 'a \<Rightarrow> int) \<Rightarrow> 'a \<Rightarrow> 'a \<Rightarrow> int" where
  "not_above cmp x val = (if cmp val x < 0 then 0 else -1)"

lemma not_above_less [simp]: "(not_above cmp x val < 0) = (\<not> cmp val x < 0)"
  by (simp add: not_above_def)

lemma Upper_loop_Lower: "Upper_loop cmp q val fro len = Lower_loop (not_above cmp) q val fro len"
proof (induction cmp q val fro len rule: Upper_loop.induct)
  case (1 cmp q val fro len)
  show ?case
  proof (cases "len > 0")
    case True
    have "bind_run (GetItemPointer q (fro + len div 2)) (\<lambda>x.
        if cmp val x < 0 then Upper_loop cmp q val fro (len div 2)
        else Upper_loop cmp q val (fro + len div 2 + 1) (len - len div 2 - 1)) =
      bind_run (GetItemPointer q (fro + len div 2)) (\<lambda>x.
        if not_above cmp x val < 0 then Lower_loop (not_above cmp) q val (fro + len div 2 + 1) (len - len div 2 - 1)
        else Lower_loop (not_above cmp) q val fro (len div 2))"
      using 1 [OF True refl refl] by (cases "GetItemPointer q (fro + len div 2)") simp_all
    then show ?thesis using True by (subst Upper_loop.simps, subst Lower_loop.simps) (simp add: Let_def)
  next
    case False
    then show ?thesis by (subst Upper_loop.simps, subst Lower_loop.simps) simp
  qed
qed

lemma Upper_Lower: "Upper cmp q fro till val = Lower (not_above cmp) q fro till val"
  by (simp add: Upper_def Lower_def Upper_loop_Lower)

section \<open>The cut\<close>

lemma ordered_nth: "ordered c ys \<Longrightarrow> i \<le> j \<Longrightarrow> j < length ys \<Longrightarrow> compare c (ys ! i) (ys ! j) \<noteq> Greater"
proof (cases "i = j")
  case False
  assume ys: "ordered c ys" "i \<le> j" "j < length ys"
  then have "ordered c (take j ys @ drop j ys)" by simp
  moreover have "ys ! i \<in> set (take j ys)"
    using ys False by (auto simp: in_set_conv_nth intro!: exI [of _ i])
  moreover have "ys ! j \<in> set (drop j ys)"
    using ys by (simp add: Cons_nth_drop_Suc [symmetric])
  ultimately show ?thesis unfolding ordered_append by blast
qed simp

lemma below_first_ordered:
  assumes "ordered c ys" "\<And>x y. compare c x y \<noteq> Greater \<Longrightarrow> cmp y val < 0 \<Longrightarrow> cmp x val < 0"
  shows "below_first cmp (pre @ ys @ post) val (length pre) (length pre + length ys)"
  unfolding below_first_def
proof (intro allI impI)
  fix i j
  assume ij: "length pre \<le> i \<and> i \<le> j \<and> j < length pre + length ys \<and> cmp ((pre @ ys @ post) ! j) val < 0"
  then have "(pre @ ys @ post) ! i = ys ! (i - length pre)" "(pre @ ys @ post) ! j = ys ! (j - length pre)"
    by (auto simp: nth_append)
  moreover have "compare c (ys ! (i - length pre)) (ys ! (j - length pre)) \<noteq> Greater"
    using ij by (intro ordered_nth [OF assms(1)]) auto
  ultimately show "cmp ((pre @ ys @ post) ! i) val < 0" using assms(2) ij by metis
qed

lemma below_first_cmp:
  assumes "orders cmp c" "ordered c ys"
  shows "below_first cmp (pre @ ys @ post) val (length pre) (length pre + length ys)"
    "below_first (not_above cmp) (pre @ ys @ post) val (length pre) (length pre + length ys)"
proof -
  show "below_first cmp (pre @ ys @ post) val (length pre) (length pre + length ys)"
  proof (rule below_first_ordered [OF assms(2)])
    fix x y assume "compare c x y \<noteq> Greater" "cmp y val < 0"
    then have "compare c x y = Less \<or> compare c x y = Equiv" "compare c y val = Less"
      using orders_less [OF assms(1)] comp.exhaust by auto
    then have "compare c x val = Less" using compare.trans_less compare.trans_equiv_less by metis
    then show "cmp x val < 0" using orders_less [OF assms(1)] by blast
  qed
  show "below_first (not_above cmp) (pre @ ys @ post) val (length pre) (length pre + length ys)"
  proof (rule below_first_ordered [OF assms(2)])
    fix x y assume xy: "compare c x y \<noteq> Greater" "not_above cmp y val < 0"
    then have "compare c y val \<noteq> Greater" using orders_greater [OF assms(1)] by simp
    then have "compare c x val \<noteq> Greater" using xy(1) compare.trans_not_greater by metis
    then show "not_above cmp x val < 0" using orders_greater [OF assms(1)] by simp
  qed
qed

lemma bound_at_split:
  assumes "bound_at cmp (pre @ ys @ post) val (length pre) (length pre + length ys) k"
  shows "\<exists>ys1 ys2. ys = ys1 @ ys2 \<and> k = length pre + length ys1 \<and> (\<forall>y\<in>set ys1. cmp y val < 0) \<and> (\<forall>y\<in>set ys2. \<not> cmp y val < 0)"
proof -
  let ?j = "k - length pre"
  have k: "length pre \<le> k" "k \<le> length pre + length ys" using assms by (simp_all add: bound_at_def)
  have nth: "(pre @ ys @ post) ! (length pre + i) = ys ! i" if "i < length ys" for i
    using that by (simp add: nth_append)
  have "cmp (ys ! i) val < 0" if "i < ?j" for i
  proof -
    have "i < length ys" "length pre \<le> length pre + i" "length pre + i < k" using that k by linarith+
    then show ?thesis using assms nth unfolding bound_at_def by metis
  qed
  then have lo: "\<forall>y\<in>set (take ?j ys). cmp y val < 0" by (auto simp: in_set_conv_nth)
  have "\<not> cmp (ys ! (?j + i)) val < 0" if "?j + i < length ys" for i
  proof -
    have "k \<le> length pre + (?j + i)" "length pre + (?j + i) < length pre + length ys" using that k by linarith+
    then show ?thesis using assms nth [OF that] unfolding bound_at_def by metis
  qed
  then have hi: "\<forall>y\<in>set (drop ?j ys). \<not> cmp y val < 0" by (auto simp: in_set_conv_nth add.commute)
  have "k = length pre + length (take ?j ys)" using k by simp
  then show ?thesis using lo hi by (intro exI [of _ "take ?j ys"] exI [of _ "drop ?j ys"]) simp
qed

text \<open>What a cut must give for the two halves to be merged apart.\<close>

definition good_cut :: "'a comparator \<Rightarrow> 'a list \<Rightarrow> 'a list \<Rightarrow> 'a list \<Rightarrow> 'a list \<Rightarrow> bool" where
  "good_cut c as1 as2 bs1 bs2 =
     ((\<forall>x\<in>set as1 \<union> set bs1. \<forall>y\<in>set as2 \<union> set bs2. compare c x y \<noteq> Greater) \<and>
      (\<forall>x\<in>set as2. \<forall>y\<in>set bs1. compare c x y = Greater) \<and>
      0 < length as1 + length bs1 \<and> 0 < length as2 + length bs2)"

lemma cut_order:
  assumes "\<forall>u\<in>set as1 \<union> set bs1. compare c u x \<noteq> Greater" "\<forall>v\<in>set as2 \<union> set bs2. compare c x v \<noteq> Greater"
  shows "\<forall>u\<in>set as1 \<union> set bs1. \<forall>v\<in>set as2 \<union> set bs2. compare c u v \<noteq> Greater"
  using assms compare.trans_not_greater by metis

lemma ordered_at:
  assumes "ordered c (xs @ x # ys)"
  shows "\<forall>u\<in>set xs. compare c u x \<noteq> Greater" "\<forall>v\<in>set (x # ys). compare c x v \<noteq> Greater"
  using assms sorted_Cons_imp_not_less [of c x ys] unfolding ordered_append by auto

lemma good_cut_lower:
  assumes "ordered c (as1 @ x # as2)" "\<forall>y\<in>set bs1. compare c y x = Less" "\<forall>y\<in>set bs2. compare c y x \<noteq> Less" "as1 \<noteq> []"
  shows "good_cut c as1 (x # as2) bs1 bs2"
proof -
  have "\<forall>v\<in>set bs2. compare c x v \<noteq> Greater" using assms(3) by (simp add: compare.greater_iff_sym_less)
  then have le: "\<forall>u\<in>set as1 \<union> set bs1. \<forall>v\<in>set (x # as2) \<union> set bs2. compare c u v \<noteq> Greater"
    using ordered_at [OF assms(1)] assms(2) by (intro cut_order [of _ _ _ x]) auto
  have "compare c u y = Greater" if "u \<in> set (x # as2)" "y \<in> set bs1" for u y
  proof -
    have "compare c y x = Less" "compare c x u \<noteq> Greater" using assms(2) that ordered_at(2) [OF assms(1)] by auto
    then have "compare c y u = Less" by (cases "compare c x u") (auto intro: compare.trans_less compare.trans_less_equiv)
    then show ?thesis by (simp add: compare.greater_iff_sym_less)
  qed
  then show ?thesis using le assms(4) by (simp add: good_cut_def)
qed

lemma good_cut_upper:
  assumes "ordered c (bs1 @ x # bs2)" "\<forall>y\<in>set as1. compare c x y \<noteq> Less" "\<forall>y\<in>set as2. compare c x y = Less" "bs1 \<noteq> []"
  shows "good_cut c as1 as2 bs1 (x # bs2)"
proof -
  have "\<forall>u\<in>set as1. compare c u x \<noteq> Greater" using assms(2) by (simp add: compare.greater_iff_sym_less)
  then have le: "\<forall>u\<in>set as1 \<union> set bs1. \<forall>v\<in>set as2 \<union> set (x # bs2). compare c u v \<noteq> Greater"
    using ordered_at [OF assms(1)] assms(3) by (intro cut_order [of _ _ _ x]) auto
  have "compare c u y = Greater" if "u \<in> set as2" "y \<in> set bs1" for u y
  proof -
    have "compare c x u = Less" "compare c y x \<noteq> Greater" using assms(3) that ordered_at(1) [OF assms(1)] by auto
    then have "compare c y u = Less" by (cases "compare c y x") (auto intro: compare.trans_less compare.trans_equiv_less)
    then show ?thesis by (simp add: compare.greater_iff_sym_less)
  qed
  then show ?thesis using le assms(4) by (simp add: good_cut_def)
qed

lemma merge_cut_ok:
  assumes cmp: "orders cmp c" and q: "queue_ok q" "items q = us @ as @ bs @ ws"
    and as: "ordered c as" "ordered c bs" "as \<noteq> []" "bs \<noteq> []" "length as + length bs \<noteq> 2"
    and w: "unat fro = length us" "unat pivot = length us + length as" "unat till = length us + length as + length bs"
      "unat len1 = length as" "unat len2 = length bs"
  shows "\<exists>as1 as2 bs1 bs2 len11 first_cut second_cut len22. as = as1 @ as2 \<and> bs = bs1 @ bs2 \<and> good_cut c as1 as2 bs1 bs2 \<and>
    merge_cut cmp q fro pivot till len1 len2 = Ret (len11, first_cut, second_cut, len22) \<and>
    unat len11 = length as1 \<and> unat len22 = length bs1 \<and> unat first_cut = length us + length as1 \<and>
    unat second_cut = length us + length as + length bs1"
proof -
  have len: "length (items q) = length us + length as + length bs + length ws" by (simp add: q(2) del: length_items)
  then have bound: "length us + length as + length bs \<le> max_slots" using items_bound [OF q(1)] by simp
  show ?thesis
  proof (cases "len1 > len2")
    case True
    let ?h = "length as div 2" and ?first_cut = "fro + len1 div 2"
    have "length bs < length as" "0 < length bs" using True w(4,5) as(4) by (auto simp: word_less_nat_alt)
    then have "2 \<le> length as" by linarith
    then have h: "0 < ?h" "?h < length as" by (simp_all add: div_greater_zero_iff)
    have l11: "unat (len1 div 2) = ?h" using w(4) by (simp add: unat_div)
    have fc: "unat ?first_cut = length us + ?h" using l11 w(1) h bound by (simp add: unat_word_ariths max_slots_def)
    obtain as1 x as2 where a: "as = as1 @ x # as2" "length as1 = ?h" "as ! ?h = x"
      using id_take_nth_drop [OF h(2)] h(2) by (metis length_take min.absorb4)
    have "unat ?first_cut < length (items q)" using fc h len by linarith
    moreover have "items q ! unat ?first_cut = x" unfolding q(2) fc a(3) [symmetric] using h by (simp add: nth_append)
    ultimately have get: "GetItemPointer q ?first_cut = Ret x" using GetItemPointer_ok [OF q(1)] by metis
    have "below_first cmp (items q) x (unat pivot) (unat till)"
      using below_first_cmp(1) [OF cmp as(2), of "us @ as" ws x] w(2,3) by (simp add: q(2))
    then obtain p where p: "Lower cmp q pivot till x = Ret p" "bound_at cmp (items q) x (unat pivot) (unat till) (unat p)"
      using Lower_ok [OF q(1), of pivot till] w(2,3) len by (auto simp del: length_items)
    then have "bound_at cmp ((us @ as) @ bs @ ws) x (length (us @ as)) (length (us @ as) + length bs) (unat p)"
      using w(2,3) by (simp add: q(2))
    from bound_at_split [OF this] obtain bs1 bs2 where b: "bs = bs1 @ bs2" "unat p = length us + length as + length bs1"
      "\<forall>y\<in>set bs1. cmp y x < 0" "\<forall>y\<in>set bs2. \<not> cmp y x < 0" by auto
    have "good_cut c as1 (x # as2) bs1 bs2"
      using as(1) b(3,4) a(1,2) h(1) orders_less [OF cmp, of _ x]
      by (intro good_cut_lower) (auto simp del: list.size)
    moreover have "unat (p - pivot) = length bs1" using b(2) w(2) by (simp add: unat_sub word_le_nat_alt)
    moreover have "merge_cut cmp q fro pivot till len1 len2 = Ret (len1 div 2, ?first_cut, p, p - pivot)"
      using True get p(1) by (simp add: merge_cut_def Let_def)
    ultimately show ?thesis using a b(1,2) l11 fc by metis
  next
    case False
    let ?h = "length bs div 2" and ?second_cut = "pivot + len2 div 2"
    have "length as \<le> length bs" "0 < length as" using False w(4,5) as(3) by (auto simp: word_less_nat_alt)
    then have "2 \<le> length bs" using as(5) by linarith
    then have h: "0 < ?h" "?h < length bs" by (simp_all add: div_greater_zero_iff)
    have l22: "unat (len2 div 2) = ?h" using w(5) by (simp add: unat_div)
    have sc: "unat ?second_cut = length us + length as + ?h"
      using l22 w(2) h bound by (simp add: unat_word_ariths max_slots_def)
    obtain bs1 x bs2 where b: "bs = bs1 @ x # bs2" "length bs1 = ?h" "bs ! ?h = x"
      using id_take_nth_drop [OF h(2)] h(2) by (metis length_take min.absorb4)
    have "unat ?second_cut < length (items q)" using sc h len by linarith
    moreover have "items q ! unat ?second_cut = x" unfolding q(2) sc b(3) [symmetric] using h by (simp add: nth_append)
    ultimately have get: "GetItemPointer q ?second_cut = Ret x" using GetItemPointer_ok [OF q(1)] by metis
    have "below_first (not_above cmp) (items q) x (unat fro) (unat pivot)"
      using below_first_cmp(2) [OF cmp as(1), of us "bs @ ws" x] w(1,2) by (simp add: q(2))
    then obtain p where p: "Upper cmp q fro pivot x = Ret p"
      "bound_at (not_above cmp) (items q) x (unat fro) (unat pivot) (unat p)"
      using Lower_ok [OF q(1), of fro pivot] w(1,2) len unfolding Upper_Lower by (auto simp del: length_items)
    then have "bound_at (not_above cmp) (us @ as @ bs @ ws) x (length us) (length us + length as) (unat p)"
      using w(1,2) by (simp add: q(2))
    from bound_at_split [OF this] obtain as1 as2 where a: "as = as1 @ as2" "unat p = length us + length as1"
      "\<forall>y\<in>set as1. \<not> cmp x y < 0" "\<forall>y\<in>set as2. cmp x y < 0" by auto
    have "good_cut c as1 as2 bs1 (x # bs2)"
      using as(2) a(3,4) b h(1) orders_less [OF cmp] by (intro good_cut_upper) auto
    moreover have "unat (p - fro) = length as1" using a(2) w(1) by (simp add: unat_sub word_le_nat_alt)
    moreover have "merge_cut cmp q fro pivot till len1 len2 = Ret (p - fro, p, ?second_cut, len2 div 2)"
      using False get p(1) by (simp add: merge_cut_def Let_def)
    ultimately show ?thesis using b a(1,2) l22 sc by metis
  qed
qed

section \<open>Merge and sort\<close>

lemma merge_two:
  assumes "orders cmp c" "queue_ok q" "items q = us @ [a] @ [b] @ ws" "unat fro = length us" "unat pivot = Suc (length us)"
  shows "\<exists>q'. bind_run (GetItemPointer q pivot) (\<lambda>x. bind_run (GetItemPointer q fro) (\<lambda>y.
      if cmp x y < 0 then Swap q pivot fro else Ret q)) = Ret q' \<and> queue_ok q' \<and>
    items q' = us @ stable_sort c [a, b] @ ws \<and> (clean q \<longrightarrow> clean q')"
proof -
  have lt: "unat pivot < length (items q)" "unat fro < length (items q)"
    by (simp_all add: assms(3-5) del: length_items)
  have x: "items q ! unat pivot = b" "items q ! unat fro = a" by (simp_all add: assms(3-5) nth_append)
  obtain q' where q': "Swap q pivot fro = Ret q'" "queue_ok q'"
    "items q' = (items q)[unat pivot := a, unat fro := b]" "clean q \<longrightarrow> clean q'"
    using Swap_ok [OF assms(2) lt] unfolding x by blast
  have "items q' = us @ [b] @ [a] @ ws" unfolding q'(3) assms(3-5) by (simp add: list_update_append)
  moreover have "GetItemPointer q pivot = Ret b" "GetItemPointer q fro = Ret a"
    using GetItemPointer_ok [OF assms(2) lt(1)] GetItemPointer_ok [OF assms(2) lt(2)] unfolding x by simp_all
  ultimately show ?thesis using q'(1,2,4) assms(2,3) orders_greater [OF assms(1), of b a] by simp
qed

lemma Merge_ok:
  assumes cmp: "orders cmp c"
  shows "queue_ok q \<Longrightarrow> items q = us @ as @ bs @ ws \<Longrightarrow> ordered c as \<Longrightarrow> ordered c bs \<Longrightarrow>
    unat fro = length us \<Longrightarrow> unat pivot = length us + length as \<Longrightarrow> unat till = length us + length as + length bs \<Longrightarrow>
    unat len1 = length as \<Longrightarrow> unat len2 = length bs \<Longrightarrow> length as + length bs \<le> fuel \<Longrightarrow> 0 < fuel \<Longrightarrow>
    \<exists>q'. Merge fuel cmp q fro pivot till len1 len2 = Ret q' \<and> queue_ok q' \<and>
      items q' = us @ stable_sort c (as @ bs) @ ws \<and> (clean q \<longrightarrow> clean q')"
proof (induction fuel arbitrary: q us as bs ws fro pivot till len1 len2)
  case (Suc fuel)
  note q = Suc.prems(1,2) and o = Suc.prems(3,4) and w = Suc.prems(5-9)
  have len: "length (items q) = length us + length as + length bs + length ws" by (simp add: q(2) del: length_items)
  then have bound: "length us + length as + length bs \<le> max_slots" using items_bound [OF q(1)] by simp
  have e: "(len1 = 0) = (as = [])" "(len2 = 0) = (bs = [])"
    using w(4,5) by (metis length_0_conv unat_eq_zero)+
  have "unat (len1 + len2) = length as + length bs" using w(4,5) bound by (simp add: unat_word_ariths max_slots_def)
  then have e2: "(len1 + len2 = 2) = (length as + length bs = 2)" by (simp add: word_unat_eq_iff)
  consider "as = [] \<or> bs = []" | "as \<noteq> []" "bs \<noteq> []" "length as + length bs = 2"
    | "as \<noteq> []" "bs \<noteq> []" "length as + length bs \<noteq> 2" by blast
  then show ?case
  proof cases
    case 1
    then show ?thesis using e q stable_sort_ordered [OF o(1)] stable_sort_ordered [OF o(2)] by auto
  next
    case 2
    then have "length as = Suc 0" "length bs = Suc 0" by (cases as; cases bs; simp)+
    then obtain a b where ab: "as = [a]" "bs = [b]" by (auto simp: length_Suc_conv)
    show ?thesis
      using merge_two [OF cmp q(1) q(2) [unfolded ab] w(1), of pivot] w(2) e e2 2 ab by simp
  next
    case 3
    from merge_cut_ok [OF cmp q o 3 w]
    obtain as1 as2 bs1 bs2 len11 first_cut second_cut len22 where
      c: "as = as1 @ as2" "bs = bs1 @ bs2" "good_cut c as1 as2 bs1 bs2"
        "merge_cut cmp q fro pivot till len1 len2 = Ret (len11, first_cut, second_cut, len22)"
        "unat len11 = length as1" "unat len22 = length bs1" "unat first_cut = length us + length as1"
        "unat second_cut = length us + length as + length bs1" by blast
    have "items q = (us @ as1) @ as2 @ bs1 @ (bs2 @ ws)" using q(2) c(1,2) by simp
    from rotate_range_ok [OF q(1) this, of first_cut pivot second_cut] c w(2)
    obtain q1 where q1: "rotate_range (Suc (unat (second_cut - first_cut))) q first_cut pivot second_cut = Ret q1"
      "queue_ok q1" "items q1 = us @ as1 @ bs1 @ as2 @ bs2 @ ws" "clean q \<longrightarrow> clean q1" by auto
    let ?s1 = "stable_sort c (as1 @ bs1)" and ?new_mid = "first_cut + len22"
    have nm: "unat ?new_mid = length us + length as1 + length bs1"
      using c bound by (simp add: unat_word_ariths max_slots_def)
    have oo: "ordered c as1" "ordered c as2" "ordered c bs1" "ordered c bs2"
      using o unfolding c(1,2) ordered_append by blast+
    have n: "length as1 + length bs1 \<le> fuel" "length as2 + length bs2 \<le> fuel" "0 < fuel"
    proof -
      have "length as = length as1 + length as2" "length bs = length bs1 + length bs2"
        "0 < length as1 + length bs1" "0 < length as2 + length bs2"
        using c(1-3) unfolding good_cut_def by simp_all
      then show "length as1 + length bs1 \<le> fuel" "length as2 + length bs2 \<le> fuel" "0 < fuel"
        using Suc.prems(10) by linarith+
    qed
    from Suc.IH [OF q1(2,3) oo(1,3) w(1) c(7) nm c(5,6) n(1,3)]
    obtain q2 where q2: "Merge fuel cmp q1 fro first_cut ?new_mid len11 len22 = Ret q2" "queue_ok q2"
      "items q2 = (us @ ?s1) @ as2 @ bs2 @ ws" "clean q1 \<longrightarrow> clean q2" by auto
    have d: "unat (len1 - len11) = length as2" "unat (len2 - len22) = length bs2"
      using c w(4,5) by (simp_all add: unat_sub word_le_nat_alt)
    have l: "unat ?new_mid = length (us @ ?s1)" "unat second_cut = length (us @ ?s1) + length as2"
      "unat till = length (us @ ?s1) + length as2 + length bs2" using nm c(1,2,8) w(3) by simp_all
    from Suc.IH [OF q2(2,3) oo(2,4) l d n(2,3)]
    obtain q3 where q3: "Merge fuel cmp q2 ?new_mid second_cut till (len1 - len11) (len2 - len22) = Ret q3" "queue_ok q3"
      "items q3 = us @ (?s1 @ stable_sort c (as2 @ bs2)) @ ws" "clean q2 \<longrightarrow> clean q3" by auto
    have "?s1 @ stable_sort c (as2 @ bs2) = stable_sort c (as @ bs)"
      using c(1-3) merge_split [of as1 bs1 as2 bs2 c] by (simp add: good_cut_def)
    then show ?thesis using q3 q2(1,4) q1(1,4) c(4) e e2 3 by simp
  qed
qed simp

text \<open>Depth: every level of the sort halves the range, so more units than items is always enough.\<close>

lemma Sort_ok:
  assumes cmp: "orders cmp c"
  shows "queue_ok q \<Longrightarrow> unat fro \<le> unat till \<Longrightarrow> unat till \<le> length (items q) \<Longrightarrow> unat till - unat fro < fuel \<Longrightarrow>
    \<exists>q'. Sort fuel cmp q fro till = Ret q' \<and> queue_ok q' \<and> (clean q \<longrightarrow> clean q') \<and>
      items q' = take (unat fro) (items q) @ stable_sort c (drop (unat fro) (take (unat till) (items q))) @ drop (unat till) (items q)"
proof (induction fuel arbitrary: q fro till)
  case (Suc fuel)
  note q = Suc.prems(1)
  let ?f = "unat fro" and ?t = "unat till" and ?L = "items q"
  have bound: "length ?L \<le> max_slots" by (rule items_bound [OF q])
  have "unat (GetNumItems q) = length ?L" using q by (simp add: GetNumItems_def)
  then have clip: "(if till > GetNumItems q then GetNumItems q else till) = till"
    using Suc.prems(3) by (auto simp: word_less_nat_alt simp del: length_items)
  let ?us = "take ?f ?L" and ?ws = "drop ?t ?L" and ?xs = "drop ?f (take ?t ?L)"
  have split: "?L = ?us @ ?xs @ ?ws"
    using Suc.prems(2) by (metis append_assoc append_take_drop_id min.absorb1 take_take)
  have len: "length ?us = ?f" "length ?xs = ?t - ?f" using Suc.prems(2,3) by (simp_all del: length_items)
  have f1: "unat (fro + 1) = Suc ?f" "unat (fro + 12) = ?f + 12"
    using bound Suc.prems(2,3) by (simp_all add: unat_word_ariths max_slots_def del: length_items)
  consider "?t \<le> Suc ?f" | "Suc ?f < ?t" "?t < ?f + 12" | "?f + 12 \<le> ?t" by linarith
  then show ?case
  proof cases
    case 1
    then have "length ?xs \<le> Suc 0" using len(2) by simp
    then have "stable_sort c ?xs = ?xs" by (intro stable_sort_ordered) (cases ?xs; simp)
    moreover have "Sort (Suc fuel) cmp q fro till = Ret q"
      using 1 f1 clip by (auto simp: Let_def word_less_nat_alt)
    ultimately show ?thesis using q split by metis
  next
    case 2
    then have "Sort (Suc fuel) cmp q fro till = bubble_range cmp (?t - Suc ?f) q fro (fro + 1)"
      using f1 clip by (simp add: Let_def word_less_nat_alt)
    moreover obtain x xs where x: "?xs = x # xs" using 2 len(2) by (cases ?xs) simp_all
    moreover have "length xs = ?t - Suc ?f" using len(2) unfolding x by simp
    moreover have "?L = ?us @ stable_sort c [x] @ xs @ ?ws" using split unfolding x by simp
    ultimately show ?thesis
      using bubble_range_ok [OF cmp q, of ?us "[x]" xs ?ws fro "fro + 1"] len f1 by auto
  next
    case 3
    let ?m = "(fro + till) div 2"
    have m: "unat ?m = (?f + ?t) div 2"
      using bound Suc.prems(2,3) by (simp add: unat_div unat_word_ariths max_slots_def del: length_items)
    have b: "?f < unat ?m" "unat ?m < ?t" using 3 m by linarith+
    have run: "Sort (Suc fuel) cmp q fro till = bind_run (Sort fuel cmp q fro ?m) (\<lambda>q.
        bind_run (Sort fuel cmp q ?m till) (\<lambda>q. Merge (unat (till - fro)) cmp q fro ?m till (?m - fro) (till - ?m)))"
      using 3 f1 clip by (simp add: Let_def word_less_nat_alt)
    obtain ys zs where yz: "?xs = ys @ zs" "length ys = unat ?m - ?f" "length zs = ?t - unat ?m"
    proof -
      have "length (take (unat ?m - ?f) ?xs) = unat ?m - ?f" "length (drop (unat ?m - ?f) ?xs) = ?t - unat ?m"
        using len(2) b by simp_all
      then show ?thesis by (rule that [OF append_take_drop_id [symmetric]])
    qed
    have L: "?L = ?us @ ys @ zs @ ?ws" using split yz(1) by simp
    have "unat ?m \<le> length ?L" "unat ?m - ?f < fuel" using b Suc.prems(3,4) by linarith+
    with Suc.IH [OF q, of fro ?m] b obtain q1 where q1: "Sort fuel cmp q fro ?m = Ret q1" "queue_ok q1" "clean q \<longrightarrow> clean q1"
      "items q1 = ?us @ stable_sort c (drop ?f (take (unat ?m) ?L)) @ drop (unat ?m) ?L" by auto
    have "drop ?f (take (unat ?m) ?L) = ys" "drop (unat ?m) ?L = zs @ ?ws"
      using len(1) yz(2) b by (subst L, simp)+
    then have i1: "items q1 = ?us @ stable_sort c ys @ zs @ ?ws" using q1(4) by simp
    then have "length (items q1) = length ?us + length ys + length zs + length ?ws" by (simp del: length_items length_take length_drop)
    also have "\<dots> = length (?us @ ys @ zs @ ?ws)" by simp
    finally have "length (items q1) = length ?L" using L by (simp only:)
    then have "?t \<le> length (items q1)" using Suc.prems(3) by simp
    moreover have "?t - unat ?m < fuel" using b Suc.prems(4) by linarith
    ultimately obtain q2 where q2: "Sort fuel cmp q1 ?m till = Ret q2" "queue_ok q2" "clean q1 \<longrightarrow> clean q2"
      "items q2 = take (unat ?m) (items q1) @ stable_sort c (drop (unat ?m) (take ?t (items q1))) @ drop ?t (items q1)"
      using Suc.IH [OF q1(2), of ?m till] b by auto
    have "take (unat ?m) (items q1) = ?us @ stable_sort c ys" "drop (unat ?m) (take ?t (items q1)) = zs" "drop ?t (items q1) = ?ws"
      unfolding i1 using len(1) yz(2,3) b by simp_all
    then have i2: "items q2 = ?us @ stable_sort c ys @ stable_sort c zs @ ?ws" using q2(4) by simp
    have d: "unat (?m - fro) = length ys" "unat (till - ?m) = length zs" "unat (till - fro) = length ys + length zs"
      using b yz(2,3) by (simp_all add: unat_sub word_le_nat_alt)
    have "stable_sort c (stable_sort c ys @ stable_sort c zs) = stable_sort c (ys @ zs)"
      by (rule sort_eqI) (simp_all add: stable_sort)
    moreover obtain q3 where "Merge (unat (till - fro)) cmp q2 fro ?m till (?m - fro) (till - ?m) = Ret q3" "queue_ok q3"
      "items q3 = ?us @ stable_sort c (stable_sort c ys @ stable_sort c zs) @ ?ws" "clean q2 \<longrightarrow> clean q3"
      using Merge_ok [OF cmp q2(2) i2 sorted_sort sorted_sort, of fro ?m till "?m - fro" "till - ?m" "unat (till - fro)"] d len(1) yz(2,3) b
      by auto
    ultimately show ?thesis using run q1(1,3) q2(1,3) yz(1) by simp
  qed
qed simp

end
