(* ===== verification/Queue_Props.thy ===== *)
theory Queue_Props
  imports Queue_Swap Queue_Merge_Proof
begin

text \<open>
  What the queue promises to the rest of the library. A locale states the contract of a deque and
  what follows for any sequence of calls; the queue is an instance. Then the properties of the
  queue and concrete runs.
\<close>

section \<open>The contract of a deque\<close>

datatype 'a deque_op = PushTail 'a | PushHead 'a | PopHead | PopTail

type_synonym 'a deque_out = "status \<times> 'a option"

text \<open>Running a list of calls, with what each of them returned.\<close>

fun deque_step ::
    "('s \<Rightarrow> 'a \<Rightarrow> (status \<times> 's) run) \<Rightarrow> ('s \<Rightarrow> 'a \<Rightarrow> (status \<times> 's) run) \<Rightarrow>
     ('s \<Rightarrow> (status \<times> 'a option \<times> 's) run) \<Rightarrow> ('s \<Rightarrow> (status \<times> 'a option \<times> 's) run) \<Rightarrow>
     's \<Rightarrow> 'a deque_op \<Rightarrow> ('a deque_out \<times> 's) run" where
  "deque_step add_t add_h rem_h rem_t s (PushTail x) = bind_run (add_t s x) (\<lambda>(st, s). Ret ((st, None), s))"
| "deque_step add_t add_h rem_h rem_t s (PushHead x) = bind_run (add_h s x) (\<lambda>(st, s). Ret ((st, None), s))"
| "deque_step add_t add_h rem_h rem_t s PopHead = bind_run (rem_h s) (\<lambda>(st, x, s). Ret ((st, x), s))"
| "deque_step add_t add_h rem_h rem_t s PopTail = bind_run (rem_t s) (\<lambda>(st, x, s). Ret ((st, x), s))"

fun run_calls :: "('s \<Rightarrow> 'o \<Rightarrow> ('r \<times> 's) run) \<Rightarrow> 'o list \<Rightarrow> 's \<Rightarrow> ('r list \<times> 's) run" where
  "run_calls step [] s = Ret ([], s)"
| "run_calls step (c # cs) s =
     bind_run (step s c) (\<lambda>(r, s). bind_run (run_calls step cs s) (\<lambda>(rs, s). Ret (r # rs, s)))"

text \<open>
  The abstract deque is a list: \<open>list_step xs c r\<close> is the list after a call \<open>c\<close> that
  returned \<open>r\<close>, or \<open>None\<close> if a deque that holds \<open>xs\<close> may not return that. A call that adds
  an item may fail for want of memory; one that removes an item fails on the empty deque only.
\<close>

fun list_step :: "'a list \<Rightarrow> 'a deque_op \<Rightarrow> 'a deque_out \<Rightarrow> 'a list option" where
  "list_step xs (PushTail x) r =
     (if r = (B_NO_ERROR, None) then Some (xs @ [x]) else if r = (B_ERROR, None) then Some xs else None)"
| "list_step xs (PushHead x) r =
     (if r = (B_NO_ERROR, None) then Some (x # xs) else if r = (B_ERROR, None) then Some xs else None)"
| "list_step xs PopHead r =
     (if xs = [] then if r = (B_ERROR, None) then Some [] else None
      else if r = (B_NO_ERROR, Some (hd xs)) then Some (tl xs) else None)"
| "list_step xs PopTail r =
     (if xs = [] then if r = (B_ERROR, None) then Some [] else None
      else if r = (B_NO_ERROR, Some (last xs)) then Some (butlast xs) else None)"

fun list_run :: "'a list \<Rightarrow> ('a deque_op \<times> 'a deque_out) list \<Rightarrow> 'a list option" where
  "list_run xs [] = Some xs"
| "list_run xs ((c, r) # crs) = (case list_step xs c r of None \<Rightarrow> None | Some xs \<Rightarrow> list_run xs crs)"

locale deque =
  fixes inv :: "'s \<Rightarrow> bool" and contents :: "'s \<Rightarrow> 'a list"
    and add_tail add_head :: "'s \<Rightarrow> 'a \<Rightarrow> (status \<times> 's) run"
    and remove_head remove_tail :: "'s \<Rightarrow> (status \<times> 'a option \<times> 's) run"
  assumes add_tail: "inv s \<Longrightarrow> \<exists>st s'. add_tail s x = Ret (st, s') \<and> inv s' \<and>
      contents s' = (if st = B_NO_ERROR then contents s @ [x] else contents s)"
    and add_head: "inv s \<Longrightarrow> \<exists>st s'. add_head s x = Ret (st, s') \<and> inv s' \<and>
      contents s' = (if st = B_NO_ERROR then x # contents s else contents s)"
    and remove_head: "inv s \<Longrightarrow> contents s \<noteq> [] \<Longrightarrow>
      \<exists>s'. remove_head s = Ret (B_NO_ERROR, Some (hd (contents s)), s') \<and> inv s' \<and> contents s' = tl (contents s)"
    and remove_tail: "inv s \<Longrightarrow> contents s \<noteq> [] \<Longrightarrow>
      \<exists>s'. remove_tail s = Ret (B_NO_ERROR, Some (last (contents s)), s') \<and> inv s' \<and> contents s' = butlast (contents s)"
    and remove_empty: "inv s \<Longrightarrow> contents s = [] \<Longrightarrow>
      remove_head s = Ret (B_ERROR, None, s) \<and> remove_tail s = Ret (B_ERROR, None, s)"
begin

lemma step_refines:
  assumes "inv s"
  shows "\<exists>r s' xs. deque_step add_tail add_head remove_head remove_tail s c = Ret (r, s') \<and> inv s' \<and>
    list_step (contents s) c r = Some xs \<and> contents s' = xs"
proof (cases c)
  case (PushTail x)
  obtain st s' where "add_tail s x = Ret (st, s')" "inv s'"
    "contents s' = (if st = B_NO_ERROR then contents s @ [x] else contents s)"
    using add_tail [OF assms, of x] by blast
  then show ?thesis using PushTail by (intro exI [of _ "(st, None)"] exI [of _ s']) (cases st; simp)
next
  case (PushHead x)
  obtain st s' where "add_head s x = Ret (st, s')" "inv s'"
    "contents s' = (if st = B_NO_ERROR then x # contents s else contents s)"
    using add_head [OF assms, of x] by blast
  then show ?thesis using PushHead by (intro exI [of _ "(st, None)"] exI [of _ s']) (cases st; simp)
next
  case PopHead
  then show ?thesis
    using remove_head [OF assms] remove_empty [OF assms] assms by (cases "contents s = []") auto
next
  case PopTail
  then show ?thesis
    using remove_tail [OF assms] remove_empty [OF assms] assms by (cases "contents s = []") auto
qed

lemma calls_refine:
  "inv s \<Longrightarrow> \<exists>rs s'. run_calls (deque_step add_tail add_head remove_head remove_tail) cs s = Ret (rs, s') \<and> inv s' \<and>
    length rs = length cs \<and> list_run (contents s) (zip cs rs) = Some (contents s')"
proof (induction cs arbitrary: s)
  case (Cons c cs)
  obtain r s1 where 1: "deque_step add_tail add_head remove_head remove_tail s c = Ret (r, s1)" "inv s1"
    "list_step (contents s) c r = Some (contents s1)"
    using step_refines [OF Cons.prems, of c] by blast
  obtain rs s2 where "run_calls (deque_step add_tail add_head remove_head remove_tail) cs s1 = Ret (rs, s2)" "inv s2"
    "length rs = length cs" "list_run (contents s1) (zip cs rs) = Some (contents s2)"
    using Cons.IH [OF 1(2)] by blast
  then show ?case using 1 by (intro exI [of _ "r # rs"] exI [of _ s2]) simp
qed simp

end

section \<open>The queue is a deque\<close>

text \<open>The allocator of a machine with enough memory.\<close>

definition plenty :: "u32 \<Rightarrow> ('a :: default) list option" where
  "plenty n = (if n \<le> 2 ^ 30 then Some (replicate (unat n) default) else None)"

lemma plenty_ok [simp]: "alloc_ok plenty" "alloc_blank plenty"
  by (auto simp: plenty_def alloc_ok_def alloc_blank_def max_slots_def word_le_nat_alt split: if_splits)

lemma queue_deque:
  assumes "alloc_ok alloc"
  shows "deque queue_ok items (AddTail alloc) (AddHead alloc) RemoveHead_item RemoveTail_item"
proof unfold_locales
  fix q :: "'a queue" and x assume q: "queue_ok q"
  show "\<exists>st q'. AddTail alloc q x = Ret (st, q') \<and> queue_ok q' \<and> items q' = (if st = B_NO_ERROR then items q @ [x] else items q)"
    using AddTail_ok [OF q assms, of x] q by auto
  show "\<exists>st q'. AddHead alloc q x = Ret (st, q') \<and> queue_ok q' \<and> items q' = (if st = B_NO_ERROR then x # items q else items q)"
    using AddHead_ok [OF q assms, of x] q by auto
next
  fix q :: "'a queue" assume q: "queue_ok q" "items q \<noteq> []"
  then have "q_itemCount q \<noteq> 0" by simp
  then show "\<exists>q'. RemoveHead_item q = Ret (B_NO_ERROR, Some (hd (items q)), q') \<and> queue_ok q' \<and> items q' = tl (items q)"
    "\<exists>q'. RemoveTail_item q = Ret (B_NO_ERROR, Some (last (items q)), q') \<and> queue_ok q' \<and> items q' = butlast (items q)"
    using RemoveHead_item_ok [OF q(1)] RemoveTail_item_ok [OF q(1)] by blast+
qed (auto simp: RemoveHead_item_def RemoveTail_item_def)

interpretation plenty_deque: deque queue_ok items "AddTail plenty" "AddHead plenty" RemoveHead_item RemoveTail_item
  by (rule queue_deque) simp

section \<open>Items that are machine integers\<close>

text \<open>A new queue with some items added at its tail.\<close>

fun AddTails :: "(u32 \<Rightarrow> ('a :: default) list option) \<Rightarrow> 'a list \<Rightarrow> 'a queue \<Rightarrow> 'a queue run" where
  "AddTails alloc [] q = Ret q"
| "AddTails alloc (x # xs) q = bind_run (AddTail alloc q x) (\<lambda>(_, q). AddTails alloc xs q)"

definition empty_queue :: "('a :: default) queue" where
  "empty_queue = Queue_new 3 (replicate SMALL_QUEUE_SIZE default) 0 0"

lemma empty_queue_ok [simp]: "queue_ok empty_queue" "items empty_queue = []" "clean empty_queue"
  by (simp_all add: empty_queue_def Queue_new_def queue_ok_def clean_def clean_outside_def slots_def items_def max_slots_def)

text \<open>A queue in its inner array that has wrapped round: the items are in slots 2, 0 and 1.\<close>

definition wrapped :: "u32 queue" where
  "wrapped = \<lparr>q_smallQueue = [20, 30, 10], q_queue = QSmall, q_queueSize = 3, q_itemCount = 3,
     q_headIndex = 2, q_tailIndex = 1, q_initialSize = 3\<rparr>"

lemma wrapped_ok [simp]: "queue_ok wrapped" "items wrapped = [10, 20, 30]" "clean wrapped" "q_itemCount wrapped = 3"
proof -
  show "items wrapped = [10, 20, 30]"
    by (simp add: wrapped_def items_def ring_def slots_def upt_conv_Cons)
qed (simp_all add: wrapped_def queue_ok_def clean_def clean_outside_def slots_def max_slots_def SMALL_QUEUE_SIZE_def)

text \<open>A queue on the heap, with a free slot.\<close>

definition on_heap :: "u32 queue" where
  "on_heap = \<lparr>q_smallQueue = [0, 0, 0], q_queue = QHeap [3, 0, 7, 1, 7], q_queueSize = 5, q_itemCount = 4,
     q_headIndex = 2, q_tailIndex = 0, q_initialSize = 3\<rparr>"

lemma on_heap_ok [simp]: "queue_ok on_heap" "items on_heap = [7, 1, 7, 3]" "clean on_heap" "q_itemCount on_heap = 4"
proof -
  show "items on_heap = [7, 1, 7, 3]"
    by (simp add: on_heap_def items_def ring_def slots_def upt_conv_Cons)
  have "[3, 0, 7, 1, 7 :: u32] ! ((2 + i) mod 5) = default" if "4 \<le> i" "i < 5" for i :: nat
  proof -
    have "i = 4" using that by simp
    then show ?thesis by (simp add: default_word_def)
  qed
  then have "clean_outside [3, 0, 7, 1, 7 :: u32] 2 4" by (simp add: clean_outside_def)
  then show "clean on_heap"
    by (simp add: on_heap_def clean_def slots_def SMALL_QUEUE_SIZE_def default_word_def numeral_3_eq_3)
qed (simp_all add: on_heap_def queue_ok_def slots_def max_slots_def SMALL_QUEUE_SIZE_def)

section \<open>Properties\<close>

text \<open>
  C20: any sequence of calls of \<open>AddTail\<close>, \<open>AddHead\<close>, \<open>RemoveHead\<close> and
  \<open>RemoveTail\<close> on a queue in a good state returns normally, with a result for each call,
  leaves a queue in a good state, and does what a list does: first in first out at one end, last in first
  out at the other, with an error for a removal from the empty queue and only there. An addition for which
  there is no memory leaves the queue as it is.
\<close>

theorem queue_calls_refine:
  assumes "queue_ok q" "alloc_ok alloc"
  shows "\<exists>rs q'. run_calls (deque_step (AddTail alloc) (AddHead alloc) RemoveHead_item RemoveTail_item) cs q = Ret (rs, q') \<and>
    queue_ok q' \<and> length rs = length cs \<and> list_run (items q) (zip cs rs) = Some (items q')"
  by (rule deque.calls_refine [OF queue_deque [OF assms(2)] assms(1)])

theorem queue_calls_refine_witness:
  "\<exists>rs q'. run_calls (deque_step (AddTail plenty) (AddHead plenty) RemoveHead_item RemoveTail_item)
      [PopHead, PushTail 40, PushHead 5, PushTail 50, PopTail] wrapped = Ret (rs, q') \<and>
    queue_ok q' \<and> length rs = length [PopHead, PushTail 40, PushHead 5, PushTail 50, PopTail :: u32 deque_op] \<and>
    list_run (items wrapped) (zip [PopHead, PushTail 40, PushHead 5, PushTail 50, PopTail] rs) = Some (items q')"
  by (rule queue_calls_refine) simp_all

lemma RemoveItemAt_item_ok:
  assumes "queue_ok q" "unat i < length (items q)"
  shows "\<exists>q'. RemoveItemAt_item q i = Ret (B_NO_ERROR, Some (items q ! unat i), q') \<and> queue_ok q' \<and>
    items q' = take (unat i) (items q) @ drop (Suc (unat i)) (items q) \<and> (clean q \<longrightarrow> clean q')"
  using RemoveItemAt_ok [OF assms] item_index [OF assms] items_less(3) [OF assms]
  by (auto simp: RemoveItemAt_item_def)

text \<open>
  C38: \<open>InsertItemAt\<close> fails beyond the end, and fails and changes nothing when the ring is full and the allocator refuses the
  larger array. Otherwise it succeeds and puts the item at its place; \<open>RemoveItemAt\<close> at the same place then
  returns that item and brings the old items back, whichever end of the ring the two calls shift.
\<close>

theorem insert_then_remove:
  assumes "queue_ok q" "alloc_ok alloc"
  shows "if unat i > length (items q) \<or> \<not> has_room alloc q then InsertItemAt alloc q i x = Ret (B_ERROR, q)
    else \<exists>q1 q2. InsertItemAt alloc q i x = Ret (B_NO_ERROR, q1) \<and> queue_ok q1 \<and>
       items q1 = take (unat i) (items q) @ x # drop (unat i) (items q) \<and>
       RemoveItemAt_item q1 i = Ret (B_NO_ERROR, Some x, q2) \<and> queue_ok q2 \<and> items q2 = items q"
proof (cases "unat i > length (items q)")
  case True
  then show ?thesis using InsertItemAt_out [OF True] by simp
next
  case False
  then have i: "unat i \<le> length (items q)" by simp
  show ?thesis
  proof (cases "has_room alloc q")
    case True
    obtain q1 where q1: "InsertItemAt alloc q i x = Ret (B_NO_ERROR, q1)" "queue_ok q1"
      "items q1 = take (unat i) (items q) @ x # drop (unat i) (items q)"
      using InsertItemAt_ok [OF assms i, of x] True by auto
    have "length (take (unat i) (items q)) = unat i" using i by simp
    then have "unat i < length (items q1)" "items q1 ! unat i = x"
      "take (unat i) (items q1) @ drop (Suc (unat i)) (items q1) = items q"
      unfolding q1(3) by (simp_all add: nth_append del: length_take length_items)
    then obtain q2 where "RemoveItemAt_item q1 i = Ret (B_NO_ERROR, Some x, q2)" "queue_ok q2" "items q2 = items q"
      using RemoveItemAt_item_ok [OF q1(2), of i] by auto
    then show ?thesis using q1 False True by auto
  qed (use InsertItemAt_ok [OF assms i, of x] in simp)
qed

theorem insert_then_remove_witness:
  "(\<exists>q1 q2. InsertItemAt plenty wrapped 2 25 = Ret (B_NO_ERROR, q1) \<and>
      items q1 = take 2 (items wrapped) @ 25 # drop 2 (items wrapped) \<and>
      RemoveItemAt_item q1 2 = Ret (B_NO_ERROR, Some 25, q2) \<and> items q2 = items wrapped) \<and>
    InsertItemAt plenty wrapped 9 25 = Ret (B_ERROR, wrapped)"
proof -
  have "has_room plenty wrapped" by (simp add: has_room_def next_size_def plenty_def wrapped_def SMALL_QUEUE_SIZE_def)
  then show ?thesis
    using insert_then_remove [of wrapped plenty 2 25] insert_then_remove [of wrapped plenty 9 25] by auto
qed

text \<open>
  on a queue whose free slots are blank, with an allocator that returns blank arrays,
  \<open>EnsureSize\<close> with \<open>setNumItems\<close> cuts the items or adds blank ones at the end, and
  keeps the free slots blank: no removed item comes back.
\<close>

theorem EnsureSize_adds_blanks:
  assumes "queue_ok q" "alloc_ok alloc" "alloc_blank alloc" "clean q"
  shows "EnsureSize alloc q sz True 0 = Ret (B_ERROR, q) \<or>
    (\<exists>q'. EnsureSize alloc q sz True 0 = Ret (B_NO_ERROR, q') \<and> queue_ok q' \<and> clean q' \<and>
       items q' = take (unat sz) (items q) @ replicate (unat sz - length (items q)) default)"
proof (cases "EnsureSize alloc q sz True 0 = Ret (B_ERROR, q)")
  case False
  then obtain q' junk where q': "EnsureSize alloc q sz True 0 = Ret (B_NO_ERROR, q')" "queue_ok q'" "clean q'"
    "items q' = take (unat sz) (items q) @ junk" "length junk = unat sz - unat (q_itemCount q)" "set junk \<subseteq> {default}"
    using EnsureSize_set_ok [OF assms(1,2), of sz] assms(3,4) by blast
  have "junk = replicate (length junk) default" using q'(6) by (intro replicate_eqI) auto
  then show ?thesis using q' by auto
qed simp

theorem EnsureSize_adds_blanks_witness:
  "EnsureSize plenty on_heap 5 True 0 = Ret (B_ERROR, on_heap) \<or>
    (\<exists>q'. EnsureSize plenty on_heap 5 True 0 = Ret (B_NO_ERROR, q') \<and> queue_ok q' \<and> clean q' \<and>
       items q' = take (unat (5 :: u32)) (items on_heap) @ replicate (unat (5 :: u32) - length (items on_heap)) default)"
  by (rule EnsureSize_adds_blanks) simp_all

text \<open>
  \<open>RemoveAllInstancesOf\<close> removes the items that equal its argument, keeps the others in their
  order, and returns how many it removed.
\<close>

theorem RemoveAllInstancesOf_filters:
  assumes "queue_ok q"
  shows "\<exists>q' n. RemoveAllInstancesOf q x = Ret (n, q') \<and> queue_ok q' \<and> items q' = filter (\<lambda>y. y \<noteq> x) (items q) \<and>
    unat n = count_list (items q) x"
proof -
  have "(\<lambda>y. y = x) = (=) x" by auto
  then show ?thesis using RemoveAllInstancesOf_ok [OF assms, of x] by (auto simp: count_list_eq_length_filter)
qed

theorem RemoveAllInstancesOf_filters_witness:
  "\<exists>q' n. RemoveAllInstancesOf on_heap 7 = Ret (n, q') \<and> queue_ok q' \<and> items q' = [1, 3] \<and> unat n = Suc (Suc 0)"
  using RemoveAllInstancesOf_filters [of on_heap 7] by simp

text \<open>
  \<open>SwapContents\<close> exchanges the items of two queues, wherever the two keep them, and never
  fails, whatever the allocator does.
\<close>

theorem SwapContents_exchanges:
  assumes "queue_ok q" "queue_ok r" "alloc_ok alloc"
  shows "\<exists>q' r'. SwapContents alloc q r = Ret (q', r') \<and> queue_ok q' \<and> queue_ok r' \<and>
    items q' = items r \<and> items r' = items q"
  by (rule SwapContents_ok [OF assms])

theorem SwapContents_exchanges_witness:
  "\<exists>q' r'. SwapContents (\<lambda>_. None) wrapped on_heap = Ret (q', r') \<and> queue_ok q' \<and> queue_ok r' \<and>
    items q' = items on_heap \<and> items r' = items wrapped"
  by (rule SwapContents_exchanges) (simp_all add: alloc_ok_def)

text \<open>
  but \<open>SwapContents\<close> leaves the items of a small queue behind in its inner array: after two
  exchanges, \<open>EnsureSize\<close> brings items back that the queue no longer had.
\<close>

theorem SwapContents_leaves_items:
  "bind_run (AddTails plenty [1, 2, 3 :: u32] empty_queue) (\<lambda>a.
   bind_run (AddTails plenty [4, 5, 6, 7] empty_queue) (\<lambda>b.
   bind_run (AddTails plenty [9] empty_queue) (\<lambda>c.
   bind_run (SwapContents plenty a b) (\<lambda>(a, b).
   bind_run (SwapContents plenty a c) (\<lambda>(a, c).
   bind_run (EnsureSize plenty a 3 True 0) (\<lambda>(st, a'). Ret (items a, st, items a')))))))
   = Ret ([9], B_NO_ERROR, [9, 2, 3])"
  by code_simp

text \<open>
  \<open>EndsWith\<close> with a longer queue is false and with one of the same length compares the items; with a
  shorter one that is not empty it reads the other queue out of its range and aborts.
\<close>

theorem EndsWith_aborts:
  assumes "queue_ok q" "queue_ok s"
  shows "EndsWith q s =
    (if length (items s) > length (items q) then Ret False
     else if length (items s) = length (items q) then Ret (items s = items q)
     else if items s = [] then Ret True else Fault)"
proof -
  have "EndsWith q s = Ret False" if "length (items s) > length (items q)"
    using that by (simp add: EndsWith_def GetNumItems_def word_less_nat_alt)
  moreover have "EndsWith q s = Ret True" if "length (items s) < length (items q)" "items s = []"
  proof -
    have "q_itemCount s = 0" using that(2) by simp
    moreover have "sint (q_itemCount q - 1) = sint (q_itemCount q) - 1"
      using that(1) assms(1) rounds_down [OF assms(1)] rounds_up [OF assms(1)] by (simp add: GetNumItems_def)
    ultimately show ?thesis by (simp add: EndsWith_def GetNumItems_def)
  qed
  ultimately show ?thesis
    using EndsWith_same_length [OF assms] EndsWith_shorter [OF assms] by (auto simp del: length_items items_Nil_iff)
qed

theorem EndsWith_aborts_witness: "EndsWith on_heap wrapped = Fault"
  using EndsWith_aborts [of on_heap wrapped] by simp

text \<open>
  C37: \<open>Sort\<close> with a comparison function that says of any two items which is the lesser in some total order
  of equivalence classes terminates, and the items of the range become the stable sort of what they were:
  equal items keep their order. The items outside of the range stay where they are.
\<close>

theorem Sort_stable:
  assumes "queue_ok q" "orders cmp c" "unat fro \<le> unat till" "unat till \<le> length (items q)"
  shows "\<exists>q'. Sort (Suc (length (items q))) cmp q fro till = Ret q' \<and> queue_ok q' \<and>
    items q' = take (unat fro) (items q) @ stable_sort c (drop (unat fro) (take (unat till) (items q))) @ drop (unat till) (items q) \<and>
    (clean q \<longrightarrow> clean q')"
proof -
  have "unat till - unat fro < Suc (length (items q))" using assms(4) by linarith
  then show ?thesis using Sort_ok [OF assms(2,1) assms(3,4)] by blast
qed

definition by_value :: "u32 \<Rightarrow> u32 \<Rightarrow> int" where
  "by_value x y = uint x - uint y"

theorem Sort_stable_witness:
  "\<exists>q'. Sort (Suc (length (items on_heap))) by_value on_heap 1 4 = Ret q' \<and> queue_ok q' \<and> items q' = [7, 1, 3, 7]"
proof -
  have c: "orders by_value default" by (simp add: orders_def by_value_def word_less_def)
  show ?thesis using Sort_stable [OF on_heap_ok(1) c, of 1 4] by (auto simp del: Sort.simps)
qed

end
