(* ===== verification/Hash_Model.thy ===== *)
theory Hash_Model
  imports Muscle_Prelude
begin

text \<open>
  The hash table of \<^verbatim>\<open>util/Hashtable.h\<close>: one array of entries that holds the chains of
  the buckets, the doubly linked list for iteration and the free list; a permutation of the
  array says in which slot each bucket starts. A pointer to an entry is its index. The hash
  functor is the parameter \<open>hash\<close>; a comparison function has its cookie applied.
  \<open>alloc n\<close> tells whether there is memory for an array of \<open>n\<close> entries.
\<close>

section \<open>Entries, iterators and tables\<close>

type_synonym ptr = "nat option"

definition MUSCLE_HASHTABLE_INVALID_HASH_CODE :: u32 where
  "MUSCLE_HASHTABLE_INVALID_HASH_CODE = - 1"

record ('k, 'v) hentry =
  h_hash :: u32
  h_key :: 'k
  h_value :: 'v
  h_bucketPrev :: ptr
  h_bucketNext :: ptr
  h_iterPrev :: ptr
  h_iterNext :: ptr
  h_mapTo :: nat
  h_mappedFrom :: nat

text \<open>
  An iterator. Its identity stands for its address; the flags say whether it goes backwards and whether
  it stays unregistered. The state of a registered one is in the list of its table.
\<close>

record hiter =
  i_id :: nat
  i_backwards :: bool
  i_noregister :: bool
  i_nextKeyCookie :: ptr
  i_nextValueCookie :: ptr

datatype autosort = AUTOSORT_DISABLED | AUTOSORT_BY_KEY | AUTOSORT_BY_VALUE

record ('k, 'v) htable =
  t_initialCapacity :: u32
  t_count :: u32
  t_tableSize :: u32
  t_table :: "('k, 'v) hentry list option"
  t_iterHead :: ptr
  t_iterTail :: ptr
  t_freeHead :: ptr
  t_userKeyCompareFunc :: "('k \<Rightarrow> 'k \<Rightarrow> int) option"
  t_userValueCompareFunc :: "('v \<Rightarrow> 'v \<Rightarrow> int) option"
  t_autoSortMode :: autosort
  t_iterList :: "hiter list"

definition Hashtable_new :: "u32 \<Rightarrow> ('k, 'v) htable" where
  "Hashtable_new initialCapacity =
     \<lparr>t_initialCapacity = initialCapacity, t_count = 0, t_tableSize = initialCapacity, t_table = None,
      t_iterHead = None, t_iterTail = None, t_freeHead = None, t_userKeyCompareFunc = None,
      t_userValueCompareFunc = None, t_autoSortMode = AUTOSORT_DISABLED, t_iterList = []\<rparr>"

text \<open>Reading and updating an entry; \<open>bucket\<close> is the entry that a hash code selects.\<close>

definition entry :: "('k, 'v) htable \<Rightarrow> nat \<Rightarrow> ('k, 'v) hentry run" where
  "entry t i = (case t_table t of
     None \<Rightarrow> Fault
   | Some es \<Rightarrow> bind_run (guard (i < length es)) (\<lambda>_. Ret (es ! i)))"

definition set_entry :: "('k, 'v) htable \<Rightarrow> nat \<Rightarrow> (('k, 'v) hentry \<Rightarrow> ('k, 'v) hentry) \<Rightarrow> ('k, 'v) htable run" where
  "set_entry t i f = (case t_table t of
     None \<Rightarrow> Fault
   | Some es \<Rightarrow> bind_run (guard (i < length es)) (\<lambda>_. Ret (t\<lparr>t_table := Some (es[i := f (es ! i)])\<rparr>)))"

definition set_opt :: "('k, 'v) htable \<Rightarrow> ptr \<Rightarrow> (('k, 'v) hentry \<Rightarrow> ('k, 'v) hentry) \<Rightarrow> ('k, 'v) htable run" where
  "set_opt t p f = (case p of None \<Rightarrow> Ret t | Some i \<Rightarrow> set_entry t i f)"

definition bucket :: "('k, 'v) htable \<Rightarrow> u32 \<Rightarrow> nat run" where
  "bucket t h =
     bind_run (guard (t_tableSize t \<noteq> 0)) (\<lambda>_.
     bind_run (entry t (unat (h mod t_tableSize t))) (\<lambda>e. Ret (h_mapTo e)))"

definition ComputeHash :: "('k \<Rightarrow> u32) \<Rightarrow> 'k \<Rightarrow> u32" where
  "ComputeHash hash key =
     (let ret = hash key in if ret = MUSCLE_HASHTABLE_INVALID_HASH_CODE then ret + 1 else ret)"

section \<open>The entries array\<close>

definition CreateEntriesArray :: "(u32 \<Rightarrow> bool) \<Rightarrow> u32 \<Rightarrow> ('k :: default, 'v :: default) hentry list option run" where
  "CreateEntriesArray alloc sz =
     (if \<not> alloc sz then Ret None
      else bind_run (guard (sz \<noteq> 0)) (\<lambda>_.
        Ret (Some (map (\<lambda>i. \<lparr>h_hash = MUSCLE_HASHTABLE_INVALID_HASH_CODE, h_key = default, h_value = default,
          h_bucketPrev = (if i = 0 then None else Some (i - 1)),
          h_bucketNext = (if Suc i < unat sz then Some (Suc i) else None),
          h_iterPrev = None, h_iterNext = None, h_mapTo = i, h_mappedFrom = i\<rparr>) [0..<unat sz]))))"

definition ReturnToFreeList :: "('k :: default, 'v :: default) htable \<Rightarrow> nat \<Rightarrow> ('k, 'v) htable run" where
  "ReturnToFreeList t this =
     bind_run (set_entry t this (\<lambda>e. e\<lparr>h_hash := MUSCLE_HASHTABLE_INVALID_HASH_CODE, h_key := default, h_value := default,
       h_iterPrev := None, h_iterNext := None, h_bucketPrev := None, h_bucketNext := t_freeHead t\<rparr>)) (\<lambda>t.
     bind_run (set_opt t (t_freeHead t) (\<lambda>e. e\<lparr>h_bucketPrev := Some this\<rparr>)) (\<lambda>t.
       Ret (t\<lparr>t_freeHead := Some this\<rparr>)))"

text \<open>\<open>_freeHead = this->RemoveFromFreeList(_freeHead)\<close>\<close>

definition RemoveFromFreeList :: "('k, 'v) htable \<Rightarrow> nat \<Rightarrow> ('k, 'v) htable run" where
  "RemoveFromFreeList t this =
     bind_run (entry t this) (\<lambda>e.
     bind_run (set_opt t (h_bucketNext e) (\<lambda>n. n\<lparr>h_bucketPrev := h_bucketPrev e\<rparr>)) (\<lambda>t.
     bind_run (set_opt t (h_bucketPrev e) (\<lambda>p. p\<lparr>h_bucketNext := h_bucketNext e\<rparr>)) (\<lambda>t.
       let ret = (if t_freeHead t = Some this then h_bucketNext e else t_freeHead t)
       in bind_run (set_entry t this (\<lambda>e. e\<lparr>h_bucketPrev := None, h_bucketNext := None\<rparr>)) (\<lambda>t.
            Ret (t\<lparr>t_freeHead := ret\<rparr>)))))"

definition SwapMaps :: "('k, 'v) htable \<Rightarrow> nat \<Rightarrow> nat \<Rightarrow> ('k, 'v) htable run" where
  "SwapMaps t this e =
     bind_run (entry t this) (\<lambda>a. bind_run (entry t e) (\<lambda>b.
     bind_run (set_entry t e (\<lambda>x. x\<lparr>h_mapTo := h_mapTo a\<rparr>)) (\<lambda>t.
     bind_run (set_entry t this (\<lambda>x. x\<lparr>h_mapTo := h_mapTo b\<rparr>)) (\<lambda>t.
     bind_run (set_entry t (h_mapTo b) (\<lambda>x. x\<lparr>h_mappedFrom := this\<rparr>)) (\<lambda>t.
       set_entry t (h_mapTo a) (\<lambda>x. x\<lparr>h_mappedFrom := e\<rparr>))))))"

definition IsBucketHead :: "('k, 'v) htable \<Rightarrow> nat \<Rightarrow> bool run" where
  "IsBucketHead t e =
     bind_run (entry t e) (\<lambda>x.
       if h_hash x \<noteq> MUSCLE_HASHTABLE_INVALID_HASH_CODE
       then bind_run (bucket t (h_hash x)) (\<lambda>b. Ret (b = e)) else Ret False)"

section \<open>Looking up\<close>

definition keys_equal :: "('k, 'v) htable \<Rightarrow> 'k \<Rightarrow> 'k \<Rightarrow> bool" where
  "keys_equal t a b = (case t_userKeyCompareFunc t of Some f \<Rightarrow> f a b = 0 | None \<Rightarrow> a = b)"

text \<open>The walk through a bucket, a unit of fuel for each entry.\<close>

fun find_in_bucket :: "nat \<Rightarrow> ('k, 'v) htable \<Rightarrow> u32 \<Rightarrow> 'k \<Rightarrow> ptr \<Rightarrow> ptr run" where
  "find_in_bucket 0 t h key p = NoFuel"
| "find_in_bucket (Suc n) t h key p = (case p of
     None \<Rightarrow> Ret None
   | Some e \<Rightarrow> bind_run (entry t e) (\<lambda>x.
       if h_hash x = h \<and> keys_equal t (h_key x) key then Ret (Some e)
       else find_in_bucket n t h key (h_bucketNext x)))"

definition GetEntry :: "('k, 'v) htable \<Rightarrow> u32 \<Rightarrow> 'k \<Rightarrow> ptr run" where
  "GetEntry t h key =
     bind_run (bucket t h) (\<lambda>e.
     bind_run (IsBucketHead t e) (\<lambda>hd.
       if hd then find_in_bucket (Suc (unat (t_tableSize t))) t h key (Some e) else Ret None))"

text \<open>\<open>(_count>0) ? GetEntry(ComputeHash(key), key) : NULL\<close>\<close>

definition find_key :: "('k \<Rightarrow> u32) \<Rightarrow> ('k, 'v) htable \<Rightarrow> 'k \<Rightarrow> ptr run" where
  "find_key hash t key = (if t_count t > 0 then GetEntry t (ComputeHash hash key) key else Ret None)"

definition GetValue :: "('k \<Rightarrow> u32) \<Rightarrow> ('k, 'v) htable \<Rightarrow> 'k \<Rightarrow> 'v option run" where
  "GetValue hash t key = bind_run (find_key hash t key) (\<lambda>p. case p of
     None \<Rightarrow> Ret None
   | Some e \<Rightarrow> bind_run (entry t e) (\<lambda>x. Ret (Some (h_value x))))"

definition GetKey :: "('k \<Rightarrow> u32) \<Rightarrow> ('k, 'v) htable \<Rightarrow> 'k \<Rightarrow> 'k option run" where
  "GetKey hash t key = bind_run (find_key hash t key) (\<lambda>p. case p of
     None \<Rightarrow> Ret None
   | Some e \<Rightarrow> bind_run (entry t e) (\<lambda>x. Ret (Some (h_key x))))"

definition ContainsKey :: "('k \<Rightarrow> u32) \<Rightarrow> ('k, 'v) htable \<Rightarrow> 'k \<Rightarrow> bool run" where
  "ContainsKey hash t key = bind_run (find_key hash t key) (\<lambda>p. Ret (p \<noteq> None))"

section \<open>The iteration list\<close>

definition InsertIterationEntry :: "('k, 'v) htable \<Rightarrow> nat \<Rightarrow> ptr \<Rightarrow> ('k, 'v) htable run" where
  "InsertIterationEntry t e behind =
     bind_run (set_entry t e (\<lambda>x. x\<lparr>h_iterPrev := behind\<rparr>)) (\<lambda>t.
     bind_run (case behind of None \<Rightarrow> Ret (t_iterHead t) | Some b \<Rightarrow> bind_run (entry t b) (\<lambda>x. Ret (h_iterNext x))) (\<lambda>next.
     bind_run (set_entry t e (\<lambda>x. x\<lparr>h_iterNext := next\<rparr>)) (\<lambda>t.
     bind_run (case behind of None \<Rightarrow> Ret (t\<lparr>t_iterHead := Some e\<rparr>)
               | Some b \<Rightarrow> set_entry t b (\<lambda>x. x\<lparr>h_iterNext := Some e\<rparr>)) (\<lambda>t.
       case next of None \<Rightarrow> Ret (t\<lparr>t_iterTail := Some e\<rparr>)
       | Some n \<Rightarrow> set_entry t n (\<lambda>x. x\<lparr>h_iterPrev := Some e\<rparr>)))))"

text \<open>An iterator that stands on the removed entry \<open>x\<close> steps to the next one.\<close>

definition step_cookie :: "bool \<Rightarrow> ('k, 'v) hentry \<Rightarrow> ptr" where
  "step_cookie backwards x = (if backwards then h_iterPrev x else h_iterNext x)"

definition leave_entry :: "nat \<Rightarrow> ('k, 'v) hentry \<Rightarrow> hiter \<Rightarrow> hiter" where
  "leave_entry e x it =
     (let it = (if i_nextKeyCookie it = Some e
                then it\<lparr>i_nextKeyCookie := step_cookie (i_backwards it) x\<rparr> else it)
      in if i_nextValueCookie it = Some e
         then it\<lparr>i_nextValueCookie := step_cookie (i_backwards it) x\<rparr> else it)"

definition RemoveIterationEntry :: "('k, 'v) htable \<Rightarrow> nat \<Rightarrow> ('k, 'v) htable run" where
  "RemoveIterationEntry t e =
     bind_run (entry t e) (\<lambda>x.
       let t = t\<lparr>t_iterList := map (leave_entry e x) (t_iterList t)\<rparr>;
           t = (if t_iterHead t = Some e then t\<lparr>t_iterHead := h_iterNext x\<rparr> else t);
           t = (if t_iterTail t = Some e then t\<lparr>t_iterTail := h_iterPrev x\<rparr> else t)
       in bind_run (set_opt t (h_iterPrev x) (\<lambda>p. p\<lparr>h_iterNext := h_iterNext x\<rparr>)) (\<lambda>t.
          bind_run (set_opt t (h_iterNext x) (\<lambda>n. n\<lparr>h_iterPrev := h_iterPrev x\<rparr>)) (\<lambda>t.
            set_entry t e (\<lambda>x. x\<lparr>h_iterPrev := None, h_iterNext := None\<rparr>))))"

type_synonym ('k, 'v) orderings = "('k \<Rightarrow> 'k \<Rightarrow> int) option \<times> ('v \<Rightarrow> 'v \<Rightarrow> int) option"

definition CompareEntries :: "('k, 'v) orderings \<Rightarrow> ('k, 'v) hentry \<Rightarrow> ('k, 'v) hentry \<Rightarrow> int" where
  "CompareEntries fs left right = (case snd fs of
     Some g \<Rightarrow> g (h_value left) (h_value right)
   | None \<Rightarrow> (case fst fs of Some f \<Rightarrow> f (h_key left) (h_key right) | None \<Rightarrow> 0))"

text \<open>The search for the first entry behind the head that is greater, a unit of fuel for each entry.\<close>

fun insertion_point :: "nat \<Rightarrow> ('k, 'v) htable \<Rightarrow> ('k, 'v) orderings \<Rightarrow> ('k, 'v) hentry \<Rightarrow> nat \<Rightarrow> ptr \<Rightarrow> ptr run" where
  "insertion_point 0 t fs x prev next = NoFuel"
| "insertion_point (Suc n) t fs x prev next = (case next of
     None \<Rightarrow> Ret (t_iterTail t)
   | Some e \<Rightarrow> bind_run (entry t e) (\<lambda>y.
       if CompareEntries fs x y < 0 then Ret (Some prev)
       else insertion_point n t fs x e (h_iterNext y)))"

definition InsertSortedIterationEntry :: "('k, 'v) htable \<Rightarrow> nat \<Rightarrow> ('k, 'v) orderings \<Rightarrow> ('k, 'v) htable run" where
  "InsertSortedIterationEntry t e fs =
     bind_run
       (case t_iterHead t of
          Some first \<Rightarrow>
            if fst fs \<noteq> None \<or> snd fs \<noteq> None then
              bind_run (entry t e) (\<lambda>x. bind_run (entry t first) (\<lambda>h.
                if CompareEntries fs x h < 0 then Ret None
                else case t_iterTail t of None \<Rightarrow> Fault
                  | Some e' \<Rightarrow> bind_run (entry t e') (\<lambda>l.
                      if CompareEntries fs x l < 0
                      then insertion_point (unat (t_tableSize t)) t fs x first (h_iterNext h)
                      else Ret (t_iterTail t))))
            else Ret (t_iterTail t)
        | None \<Rightarrow> Ret (t_iterTail t))
       (\<lambda>insertAfter. InsertIterationEntry t e insertAfter)"

section \<open>Moving entries in the iteration\<close>

definition MoveToFront :: "('k \<Rightarrow> u32) \<Rightarrow> ('k, 'v) htable \<Rightarrow> 'k \<Rightarrow> (status \<times> ('k, 'v) htable) run" where
  "MoveToFront hash t moveMe = bind_run (find_key hash t moveMe) (\<lambda>p. case p of
     None \<Rightarrow> Ret (B_ERROR, t)
   | Some e \<Rightarrow> bind_run (entry t e) (\<lambda>x.
       if h_iterPrev x \<noteq> None then
         bind_run (RemoveIterationEntry t e) (\<lambda>t.
         bind_run (InsertIterationEntry t e None) (\<lambda>t. Ret (B_NO_ERROR, t)))
       else Ret (B_NO_ERROR, t)))"

definition MoveToBack :: "('k \<Rightarrow> u32) \<Rightarrow> ('k, 'v) htable \<Rightarrow> 'k \<Rightarrow> (status \<times> ('k, 'v) htable) run" where
  "MoveToBack hash t moveMe = bind_run (find_key hash t moveMe) (\<lambda>p. case p of
     None \<Rightarrow> Ret (B_ERROR, t)
   | Some e \<Rightarrow> bind_run (entry t e) (\<lambda>x.
       if h_iterNext x \<noteq> None then
         bind_run (RemoveIterationEntry t e) (\<lambda>t.
         bind_run (InsertIterationEntry t e (t_iterTail t)) (\<lambda>t. Ret (B_NO_ERROR, t)))
       else Ret (B_NO_ERROR, t)))"

definition MoveToBefore :: "('k \<Rightarrow> u32) \<Rightarrow> ('k, 'v) htable \<Rightarrow> 'k \<Rightarrow> 'k \<Rightarrow> (status \<times> ('k, 'v) htable) run" where
  "MoveToBefore hash t moveMe toBeforeMe =
     (if t_count t > 0 then
        bind_run (GetEntry t (ComputeHash hash moveMe) moveMe) (\<lambda>p.
        bind_run (GetEntry t (ComputeHash hash toBeforeMe) toBeforeMe) (\<lambda>q. case (p, q) of
          (Some e, Some f) \<Rightarrow>
            if e = f then Ret (B_ERROR, t)
            else bind_run (entry t e) (\<lambda>x.
              if h_iterNext x \<noteq> Some f then
                bind_run (RemoveIterationEntry t e) (\<lambda>t.
                bind_run (entry t f) (\<lambda>y.
                bind_run (InsertIterationEntry t e (h_iterPrev y)) (\<lambda>t. Ret (B_NO_ERROR, t))))
              else Ret (B_NO_ERROR, t))
        | _ \<Rightarrow> Ret (B_ERROR, t)))
      else Ret (B_ERROR, t))"

definition MoveToBehind :: "('k \<Rightarrow> u32) \<Rightarrow> ('k, 'v) htable \<Rightarrow> 'k \<Rightarrow> 'k \<Rightarrow> (status \<times> ('k, 'v) htable) run" where
  "MoveToBehind hash t moveMe toBehindMe =
     (if t_count t > 0 then
        bind_run (GetEntry t (ComputeHash hash toBehindMe) toBehindMe) (\<lambda>q.
        bind_run (GetEntry t (ComputeHash hash moveMe) moveMe) (\<lambda>p. case (p, q) of
          (Some e, Some d) \<Rightarrow>
            if d = e then Ret (B_ERROR, t)
            else bind_run (entry t e) (\<lambda>x.
              if h_iterPrev x \<noteq> Some d then
                bind_run (RemoveIterationEntry t e) (\<lambda>t.
                bind_run (InsertIterationEntry t e (Some d)) (\<lambda>t. Ret (B_NO_ERROR, t)))
              else Ret (B_NO_ERROR, t))
        | _ \<Rightarrow> Ret (B_ERROR, t)))
      else Ret (B_ERROR, t))"

section \<open>Putting, growing and removing\<close>

text \<open>\<open>NextPrime\<close>: the inner loop looks for an odd divisor from 3 on; fuel for both loops.\<close>

fun odd_divisor :: "nat \<Rightarrow> u32 \<Rightarrow> u32 \<Rightarrow> u32 run" where
  "odd_divisor 0 start i = NoFuel"
| "odd_divisor (Suc n) start i =
     (if i * i \<le> start \<and> start mod i \<noteq> 0 then odd_divisor n start (i + 2) else Ret i)"

fun next_prime_from :: "nat \<Rightarrow> u32 \<Rightarrow> u32 run" where
  "next_prime_from 0 start = NoFuel"
| "next_prime_from (Suc n) start =
     bind_run (odd_divisor (2 ^ 16) start 3) (\<lambda>i.
       if i * i > start then Ret start else next_prime_from n (start + 2))"

definition NextPrime :: "nat \<Rightarrow> u32 \<Rightarrow> u32 run" where
  "NextPrime fuel start = next_prime_from fuel (if start mod 2 = 0 then start + 1 else start)"

text \<open>The new position of an entry whose value has changed, in a table that is sorted by value.\<close>

fun smaller_before :: "nat \<Rightarrow> ('k, 'v) htable \<Rightarrow> ('v \<Rightarrow> 'v \<Rightarrow> int) \<Rightarrow> 'v \<Rightarrow> nat \<Rightarrow> nat run" where
  "smaller_before 0 t g v e = NoFuel"
| "smaller_before (Suc n) t g v e =
     bind_run (entry t e) (\<lambda>x. case h_iterPrev x of
       None \<Rightarrow> Ret e
     | Some p \<Rightarrow> bind_run (entry t p) (\<lambda>y.
         if g v (h_value y) < 0 then smaller_before n t g v p else Ret e))"

fun greater_behind :: "nat \<Rightarrow> ('k, 'v) htable \<Rightarrow> ('v \<Rightarrow> 'v \<Rightarrow> int) \<Rightarrow> 'v \<Rightarrow> nat \<Rightarrow> nat run" where
  "greater_behind 0 t g v e = NoFuel"
| "greater_behind (Suc n) t g v e =
     bind_run (entry t e) (\<lambda>x. case h_iterNext x of
       None \<Rightarrow> Ret e
     | Some q \<Rightarrow> bind_run (entry t q) (\<lambda>y.
         if g v (h_value y) > 0 then greater_behind n t g v q else Ret e))"

definition reposition :: "('k \<Rightarrow> u32) \<Rightarrow> ('k, 'v) htable \<Rightarrow> ('v \<Rightarrow> 'v \<Rightarrow> int) \<Rightarrow> nat \<Rightarrow> ('k, 'v) htable run" where
  "reposition hash t g e =
     bind_run (entry t e) (\<lambda>x.
     bind_run (case h_iterPrev x of None \<Rightarrow> Ret False
               | Some p \<Rightarrow> bind_run (entry t p) (\<lambda>y. Ret (g (h_value x) (h_value y) < 0))) (\<lambda>smaller.
     bind_run (case h_iterNext x of None \<Rightarrow> Ret False
               | Some q \<Rightarrow> bind_run (entry t q) (\<lambda>y. Ret (g (h_value x) (h_value y) > 0))) (\<lambda>greater.
       if smaller then
         bind_run (smaller_before (unat (t_tableSize t)) t g (h_value x) (the (h_iterPrev x))) (\<lambda>m.
         bind_run (entry t m) (\<lambda>y.
         bind_run (MoveToBefore hash t (h_key x) (h_key y)) (\<lambda>(_, t). Ret t)))
       else if greater then
         bind_run (greater_behind (unat (t_tableSize t)) t g (h_value x) (the (h_iterNext x))) (\<lambda>m.
         bind_run (entry t m) (\<lambda>y.
         bind_run (MoveToBehind hash t (h_key x) (h_key y)) (\<lambda>(_, t). Ret t)))
       else Ret t)))"

definition replace_value :: "('k \<Rightarrow> u32) \<Rightarrow> ('k, 'v) htable \<Rightarrow> nat \<Rightarrow> 'v \<Rightarrow> ('k, 'v) htable run" where
  "replace_value hash t e value =
     bind_run (set_entry t e (\<lambda>x. x\<lparr>h_value := value\<rparr>)) (\<lambda>t.
       case (t_autoSortMode t, t_userValueCompareFunc t) of
         (AUTOSORT_BY_VALUE, Some g) \<Rightarrow> reposition hash t g e
       | _ \<Rightarrow> Ret t)"

definition sort_orderings :: "('k, 'v) htable \<Rightarrow> ('k, 'v) orderings" where
  "sort_orderings t =
     (if t_autoSortMode t = AUTOSORT_BY_KEY then t_userKeyCompareFunc t else None,
      if t_autoSortMode t = AUTOSORT_BY_VALUE then t_userValueCompareFunc t else None)"

text \<open>
  A new entry in a table that has a free one: behind the first entry of its bucket, or, if the bucket is
  empty, in the slot of the bucket. If another bucket uses that slot, a free one takes its place.
\<close>

definition chain_entry :: "('k, 'v) htable \<Rightarrow> nat \<Rightarrow> u32 \<Rightarrow> 'k \<Rightarrow> 'v \<Rightarrow> (nat \<times> ('k, 'v) htable) run" where
  "chain_entry t slot h key value = (case t_freeHead t of
     None \<Rightarrow> Fault
   | Some e \<Rightarrow>
       bind_run (RemoveFromFreeList t e) (\<lambda>t.
       bind_run (set_entry t e (\<lambda>x. x\<lparr>h_hash := h, h_key := key, h_value := value\<rparr>)) (\<lambda>t.
       bind_run (entry t slot) (\<lambda>s.
       bind_run (set_entry t e (\<lambda>x. x\<lparr>h_bucketPrev := Some slot, h_bucketNext := h_bucketNext s\<rparr>)) (\<lambda>t.
       bind_run (set_opt t (h_bucketNext s) (\<lambda>x. x\<lparr>h_bucketPrev := Some e\<rparr>)) (\<lambda>t.
       bind_run (set_entry t slot (\<lambda>x. x\<lparr>h_bucketNext := Some e\<rparr>)) (\<lambda>t. Ret (e, t))))))))"

definition clear_slot :: "('k, 'v) htable \<Rightarrow> nat \<Rightarrow> (nat \<times> ('k, 'v) htable) run" where
  "clear_slot t slot =
     bind_run (entry t slot) (\<lambda>s.
       if h_hash s \<noteq> MUSCLE_HASHTABLE_INVALID_HASH_CODE then
         (case t_freeHead t of
            None \<Rightarrow> Fault
          | Some f \<Rightarrow>
              bind_run (entry t f) (\<lambda>x.
              bind_run (SwapMaps t (h_mappedFrom s) (h_mappedFrom x)) (\<lambda>t. Ret (f, t))))
       else Ret (slot, t))"

definition head_entry :: "('k, 'v) htable \<Rightarrow> nat \<Rightarrow> u32 \<Rightarrow> 'k \<Rightarrow> 'v \<Rightarrow> (nat \<times> ('k, 'v) htable) run" where
  "head_entry t slot h key value =
     bind_run (RemoveFromFreeList t slot) (\<lambda>t.
     bind_run (set_entry t slot (\<lambda>x. x\<lparr>h_hash := h, h_key := key, h_value := value,
       h_bucketPrev := None, h_bucketNext := None\<rparr>)) (\<lambda>t. Ret (slot, t)))"

definition new_entry :: "('k, 'v) htable \<Rightarrow> u32 \<Rightarrow> 'k \<Rightarrow> 'v \<Rightarrow> (nat \<times> ('k, 'v) htable) run" where
  "new_entry t h key value =
     bind_run (bucket t h) (\<lambda>slot.
     bind_run (IsBucketHead t slot) (\<lambda>hd.
       if hd then chain_entry t slot h key value
       else bind_run (clear_slot t slot) (\<lambda>(slot, t). head_entry t slot h key value)))"

definition put_new :: "('k, 'v) htable \<Rightarrow> u32 \<Rightarrow> 'k \<Rightarrow> 'v \<Rightarrow> (nat \<times> ('k, 'v) htable) run" where
  "put_new t h key value =
     bind_run (new_entry t h key value) (\<lambda>(e, t).
     bind_run (InsertSortedIterationEntry t e (sort_orderings t)) (\<lambda>t.
       Ret (e, t\<lparr>t_count := t_count t + 1\<rparr>)))"

text \<open>The exchange of two tables; the owners of iterators are not modelled.\<close>

definition swap_contents :: "('k, 'v) htable \<Rightarrow> ('k, 'v) htable \<Rightarrow> ('k, 'v) htable \<times> ('k, 'v) htable" where
  "swap_contents t s = (s\<lparr>t_initialCapacity := t_initialCapacity t\<rparr>, t\<lparr>t_initialCapacity := t_initialCapacity s\<rparr>)"

text \<open>The iterators that stand on the entry \<open>e\<close>, redirected to its clone, as \<open>_scratchSpace\<close> records.\<close>

definition redirect :: "(nat \<Rightarrow> ptr) \<Rightarrow> hiter \<Rightarrow> hiter" where
  "redirect clone it = it\<lparr>i_nextKeyCookie := Option.bind (i_nextKeyCookie it) clone,
     i_nextValueCookie := Option.bind (i_nextValueCookie it) clone\<rparr>"

text \<open>The array is allocated on demand.\<close>

definition demand_table :: "(u32 \<Rightarrow> bool) \<Rightarrow> ('k :: default, 'v :: default) htable \<Rightarrow> ('k, 'v) htable run" where
  "demand_table alloc t =
     (if t_table t = None then
        bind_run (CreateEntriesArray alloc (t_tableSize t)) (\<lambda>es.
          Ret (t\<lparr>t_table := es, t_freeHead := (if es = None then None else Some 0)\<rparr>))
      else Ret t)"

text \<open>
  \<open>PutAux\<close>, \<open>EnsureSize\<close> and its loop over the entries call each other; the fuel bounds the
  depth, and the entries that the loop still has to copy. \<open>PutAux\<close> returns the entry or
  \<open>None\<close>, and the old value if it has replaced one. The parameter \<open>pf\<close> is the fuel of \<open>NextPrime\<close>.
\<close>

function PutAux ::
    "('k \<Rightarrow> u32) \<Rightarrow> (u32 \<Rightarrow> bool) \<Rightarrow> nat \<Rightarrow> nat \<Rightarrow> ('k :: default, 'v :: default) htable \<Rightarrow> u32 \<Rightarrow> 'k \<Rightarrow> 'v \<Rightarrow>
     (ptr \<times> 'v option \<times> ('k, 'v) htable) run"
  and EnsureSize_aux ::
    "('k \<Rightarrow> u32) \<Rightarrow> (u32 \<Rightarrow> bool) \<Rightarrow> nat \<Rightarrow> nat \<Rightarrow> ('k, 'v) htable \<Rightarrow> u32 \<Rightarrow> (status \<times> ('k, 'v) htable) run"
  and copy_entries ::
    "('k \<Rightarrow> u32) \<Rightarrow> (u32 \<Rightarrow> bool) \<Rightarrow> nat \<Rightarrow> nat \<Rightarrow> nat \<Rightarrow> ('k, 'v) htable \<Rightarrow> ptr \<Rightarrow> ('k, 'v) htable \<Rightarrow> (nat \<Rightarrow> ptr) \<Rightarrow>
     (status \<times> ('k, 'v) htable \<times> (nat \<Rightarrow> ptr)) run" where
  "PutAux hash alloc pf 0 t h key value = NoFuel"
| "PutAux hash alloc pf (Suc n) t h key value =
     bind_run (demand_table alloc t) (\<lambda>t.
       if t_table t = None then Ret (None, None, t)
       else
         bind_run (GetEntry t h key) (\<lambda>p. case p of
           Some e \<Rightarrow>
             bind_run (entry t e) (\<lambda>x.
             bind_run (replace_value hash t e value) (\<lambda>t. Ret (Some e, Some (h_value x), t)))
         | None \<Rightarrow>
             if t_count t = t_tableSize t then
               bind_run (EnsureSize_aux hash alloc pf n t (t_tableSize t * 2)) (\<lambda>(st, t).
                 if st = B_NO_ERROR then PutAux hash alloc pf n t h key value else Ret (None, None, t))
             else
               bind_run (put_new t h key value) (\<lambda>(e, t). Ret (Some e, None, t))))"
| "EnsureSize_aux hash alloc pf 0 t requestedSize = NoFuel"
| "EnsureSize_aux hash alloc pf (Suc n) t requestedSize =
     (if t_tableSize t \<ge> requestedSize then Ret (B_NO_ERROR, t)
      else
        bind_run (NextPrime pf (max (t_count t) requestedSize)) (\<lambda>newSize.
          let biggerTable = (Hashtable_new newSize)\<lparr>t_userKeyCompareFunc := t_userKeyCompareFunc t,
                t_userValueCompareFunc := t_userValueCompareFunc t, t_autoSortMode := t_autoSortMode t\<rparr>
          in bind_run (copy_entries hash alloc pf n (Suc (unat (t_tableSize t))) t (t_iterHead t) biggerTable (\<lambda>_. None))
               (\<lambda>(st, biggerTable, clone).
                  if st = B_ERROR then Ret (B_ERROR, t)
                  else Ret (B_NO_ERROR, (fst (swap_contents t biggerTable))
                         \<lparr>t_iterList := map (redirect clone) (t_iterList t)\<rparr>))))"
| "copy_entries hash alloc pf n 0 t next bigger clone = NoFuel"
| "copy_entries hash alloc pf n (Suc m) t next bigger clone = (case next of
     None \<Rightarrow> Ret (B_NO_ERROR, bigger, clone)
   | Some e \<Rightarrow> bind_run (entry t e) (\<lambda>x.
       bind_run (PutAux hash alloc pf n bigger (h_hash x) (h_key x) (h_value x)) (\<lambda>(hisClone, _, bigger).
         case hisClone of None \<Rightarrow> Ret (B_ERROR, bigger, clone)
         | Some c \<Rightarrow> copy_entries hash alloc pf n m t (h_iterNext x) bigger (clone(e := Some c)))))"
  by pat_completeness auto

termination
  by (relation "(\<lambda>x. case x of Inl (_, _, _, n, _) \<Rightarrow> 2 * n
        | Inr (Inl (_, _, _, n, _)) \<Rightarrow> 2 * n
        | Inr (Inr (_, _, _, n, m, _)) \<Rightarrow> 2 * n + 1) <*mlex*>
      measure (\<lambda>x. case x of Inr (Inr (_, _, _, n, m, _)) \<Rightarrow> m | _ \<Rightarrow> 0)")
    (auto intro: mlex_less mlex_leq wf_mlex)

end
