(* ===== verification/Hash_More.thy ===== *)
theory Hash_More
  imports Hash_Model
begin

text \<open>
  The public operations of \<^verbatim>\<open>util/Hashtable.h\<close> on top of \<open>PutAux\<close>, removal, clearing,
  positions in the iteration, comparison and assignment, iterators, and the merge
  sort of the iteration list.
\<close>

section \<open>Operations of the table\<close>

text \<open>The depth of the recursion of \<open>PutAux\<close>: growing, copying, putting.\<close>

definition put_depth :: nat where "put_depth = 3"

definition Hashtable_EnsureSize ::
    "('k \<Rightarrow> u32) \<Rightarrow> (u32 \<Rightarrow> bool) \<Rightarrow> nat \<Rightarrow> ('k :: default, 'v :: default) htable \<Rightarrow> u32 \<Rightarrow> (status \<times> ('k, 'v) htable) run" where
  "Hashtable_EnsureSize hash alloc pf t requestedSize = EnsureSize_aux hash alloc pf put_depth t requestedSize"

definition Put ::
    "('k \<Rightarrow> u32) \<Rightarrow> (u32 \<Rightarrow> bool) \<Rightarrow> nat \<Rightarrow> ('k :: default, 'v :: default) htable \<Rightarrow> 'k \<Rightarrow> 'v \<Rightarrow>
     (status \<times> 'v option \<times> ('k, 'v) htable) run" where
  "Put hash alloc pf t key value =
     bind_run (PutAux hash alloc pf put_depth t (ComputeHash hash key) key value) (\<lambda>(p, old, t).
       Ret (if p \<noteq> None then B_NO_ERROR else B_ERROR, old, t))"

definition GetOrPut ::
    "('k \<Rightarrow> u32) \<Rightarrow> (u32 \<Rightarrow> bool) \<Rightarrow> nat \<Rightarrow> ('k :: default, 'v :: default) htable \<Rightarrow> 'k \<Rightarrow> 'v \<Rightarrow>
     ('v option \<times> ('k, 'v) htable) run" where
  "GetOrPut hash alloc pf t key defValue =
     bind_run (GetValue hash t key) (\<lambda>r. case r of
       Some v \<Rightarrow> Ret (Some v, t)
     | None \<Rightarrow> bind_run (Put hash alloc pf t key defValue) (\<lambda>(st, _, t).
         if st = B_NO_ERROR then bind_run (GetValue hash t key) (\<lambda>r. Ret (r, t)) else Ret (None, t)))"

text \<open>Taking the entry \<open>e\<close>, which is \<open>x\<close>, out of its bucket.\<close>

definition unlink_entry :: "('k, 'v) htable \<Rightarrow> nat \<Rightarrow> ('k, 'v) hentry \<Rightarrow> ('k, 'v) htable run" where
  "unlink_entry t e x = (case (h_bucketPrev x, h_bucketNext x) of
       (Some p, n) \<Rightarrow>
         bind_run (set_entry t p (\<lambda>y. y\<lparr>h_bucketNext := n\<rparr>)) (\<lambda>t.
           set_opt t n (\<lambda>y. y\<lparr>h_bucketPrev := Some p\<rparr>))
     | (None, Some n) \<Rightarrow>
         bind_run (set_entry t n (\<lambda>y. y\<lparr>h_bucketPrev := None\<rparr>)) (\<lambda>t.
         bind_run (entry t n) (\<lambda>y. SwapMaps t (h_mappedFrom x) (h_mappedFrom y)))
     | (None, None) \<Rightarrow> Ret t)"

text \<open>\<open>RemoveAux\<close>; it returns the removed value.\<close>

definition RemoveAux ::
    "('k \<Rightarrow> u32) \<Rightarrow> ('k :: default, 'v :: default) htable \<Rightarrow> 'k \<Rightarrow> (status \<times> 'v option \<times> ('k, 'v) htable) run" where
  "RemoveAux hash t key = bind_run (find_key hash t key) (\<lambda>p. case p of
     None \<Rightarrow> Ret (B_ERROR, None, t)
   | Some e \<Rightarrow>
       bind_run (RemoveIterationEntry t e) (\<lambda>t.
       bind_run (entry t e) (\<lambda>x.
       bind_run (unlink_entry t e x) (\<lambda>t.
       bind_run (ReturnToFreeList t e) (\<lambda>t.
         Ret (B_NO_ERROR, Some (h_value x), t\<lparr>t_count := t_count t - 1\<rparr>))))))"

fun return_all :: "nat \<Rightarrow> ('k :: default, 'v :: default) htable \<Rightarrow> ('k, 'v) htable run" where
  "return_all 0 t = NoFuel"
| "return_all (Suc n) t = (case t_iterHead t of
     None \<Rightarrow> Ret t
   | Some e \<Rightarrow> bind_run (entry t e) (\<lambda>x.
       bind_run (ReturnToFreeList t e) (\<lambda>t. return_all n (t\<lparr>t_iterHead := h_iterNext x\<rparr>))))"

text \<open>The registered iterators lose their owner and their position, so the table forgets them.\<close>

definition Hashtable_Clear :: "('k :: default, 'v :: default) htable \<Rightarrow> bool \<Rightarrow> ('k, 'v) htable run" where
  "Hashtable_Clear t releaseCachedBuffers =
     (let t = t\<lparr>t_iterList := []\<rparr>
      in bind_run
           (if t_count t > 0 then
              bind_run (if \<not> releaseCachedBuffers then return_all (Suc (unat (t_tableSize t))) t else Ret t) (\<lambda>t.
                Ret (t\<lparr>t_iterHead := None, t_iterTail := None, t_count := 0\<rparr>))
            else Ret t)
           (\<lambda>t. Ret (if releaseCachedBuffers
                then t\<lparr>t_table := None, t_freeHead := None, t_tableSize := t_initialCapacity t\<rparr> else t)))"

text \<open>Following the iteration list for \<open>n\<close> steps, and collecting it.\<close>

fun walk_next :: "nat \<Rightarrow> ('k, 'v) htable \<Rightarrow> ptr \<Rightarrow> ptr run" where
  "walk_next 0 t p = Ret p"
| "walk_next (Suc n) t p = (case p of None \<Rightarrow> Ret None | Some e \<Rightarrow> bind_run (entry t e) (\<lambda>x. walk_next n t (h_iterNext x)))"

fun walk_prev :: "nat \<Rightarrow> ('k, 'v) htable \<Rightarrow> ptr \<Rightarrow> ptr run" where
  "walk_prev 0 t p = Ret p"
| "walk_prev (Suc n) t p = (case p of None \<Rightarrow> Ret None | Some e \<Rightarrow> bind_run (entry t e) (\<lambda>x. walk_prev n t (h_iterPrev x)))"

definition GetEntryAt :: "('k, 'v) htable \<Rightarrow> u32 \<Rightarrow> ptr run" where
  "GetEntryAt t idx =
     (if idx < t_count t then
        if idx < t_count t div 2 then walk_next (unat idx) t (t_iterHead t)
        else walk_prev (unat (t_count t - (idx + 1))) t (t_iterTail t)
      else Ret None)"

definition GetKeyAt :: "('k, 'v) htable \<Rightarrow> u32 \<Rightarrow> (status \<times> 'k option) run" where
  "GetKeyAt t index = bind_run (GetEntryAt t index) (\<lambda>p. case p of
     None \<Rightarrow> Ret (B_ERROR, None)
   | Some e \<Rightarrow> bind_run (entry t e) (\<lambda>x. Ret (B_NO_ERROR, Some (h_key x))))"

fun count_prev :: "nat \<Rightarrow> ('k, 'v) htable \<Rightarrow> ptr \<Rightarrow> int \<Rightarrow> int run" where
  "count_prev 0 t p c = NoFuel"
| "count_prev (Suc n) t p c = (case p of
     None \<Rightarrow> Ret c
   | Some e \<Rightarrow> bind_run (entry t e) (\<lambda>x. count_prev n t (h_iterPrev x) (c + 1)))"

definition IndexOfKey :: "('k \<Rightarrow> u32) \<Rightarrow> ('k, 'v) htable \<Rightarrow> 'k \<Rightarrow> int run" where
  "IndexOfKey hash t key = bind_run (find_key hash t key) (\<lambda>p.
     if p = None then Ret (- 1)
     else if p = t_iterTail t then Ret (sint (t_count t - 1))
     else count_prev (Suc (unat (t_tableSize t))) t p (- 1))"

definition GetFirstKey :: "('k, 'v) htable \<Rightarrow> 'k option run" where
  "GetFirstKey t = (case t_iterHead t of None \<Rightarrow> Ret None | Some e \<Rightarrow> bind_run (entry t e) (\<lambda>x. Ret (Some (h_key x))))"

definition GetLastKey :: "('k, 'v) htable \<Rightarrow> 'k option run" where
  "GetLastKey t = (case t_iterTail t of None \<Rightarrow> Ret None | Some e \<Rightarrow> bind_run (entry t e) (\<lambda>x. Ret (Some (h_key x))))"

definition Hashtable_SwapContents :: "('k, 'v) htable \<Rightarrow> ('k, 'v) htable \<Rightarrow> ('k, 'v) htable \<times> ('k, 'v) htable" where
  "Hashtable_SwapContents t s = swap_contents t s"

section \<open>Iterators\<close>

definition RegisterIterator :: "('k, 'v) htable \<Rightarrow> hiter \<Rightarrow> ('k, 'v) htable" where
  "RegisterIterator t it = (if i_noregister it then t else t\<lparr>t_iterList := it # t_iterList t\<rparr>)"

definition UnregisterIterator :: "('k, 'v) htable \<Rightarrow> hiter \<Rightarrow> ('k, 'v) htable" where
  "UnregisterIterator t it =
     (if i_noregister it then t else t\<lparr>t_iterList := filter (\<lambda>x. i_id x \<noteq> i_id it) (t_iterList t)\<rparr>)"

definition InitializeIterator :: "('k, 'v) htable \<Rightarrow> nat \<Rightarrow> bool \<Rightarrow> bool \<Rightarrow> hiter \<times> ('k, 'v) htable" where
  "InitializeIterator t i backwards noregister =
     (let p = (if backwards then t_iterTail t else t_iterHead t);
          it = \<lparr>i_id = i, i_backwards = backwards, i_noregister = noregister, i_nextKeyCookie = p, i_nextValueCookie = p\<rparr>
      in (it, RegisterIterator t it))"

definition InitializeIteratorAt ::
    "('k \<Rightarrow> u32) \<Rightarrow> ('k, 'v) htable \<Rightarrow> nat \<Rightarrow> bool \<Rightarrow> bool \<Rightarrow> 'k \<Rightarrow> (hiter \<times> ('k, 'v) htable) run" where
  "InitializeIteratorAt hash t i backwards noregister startAt =
     bind_run (find_key hash t startAt) (\<lambda>p.
       let it = \<lparr>i_id = i, i_backwards = backwards, i_noregister = noregister, i_nextKeyCookie = p, i_nextValueCookie = p\<rparr>
       in Ret (it, RegisterIterator t it))"

text \<open>\<open>operator =\<close> of iterators: leave the old table \<open>t\<close>, join the one of \<open>rhs\<close> (here the same).\<close>

definition iterator_assign :: "('k, 'v) htable \<Rightarrow> hiter \<Rightarrow> hiter \<Rightarrow> hiter \<times> ('k, 'v) htable" where
  "iterator_assign t it rhs =
     (if i_id it = i_id rhs then (it, t)
      else let t = UnregisterIterator t it;
               it = rhs\<lparr>i_id := i_id it\<rparr>
           in (it, RegisterIterator t it))"

definition PeekNextKey :: "('k, 'v) htable \<Rightarrow> hiter \<Rightarrow> 'k option run" where
  "PeekNextKey t it = (case i_nextKeyCookie it of None \<Rightarrow> Ret None | Some e \<Rightarrow> bind_run (entry t e) (\<lambda>x. Ret (Some (h_key x))))"

definition PeekNextValue :: "('k, 'v) htable \<Rightarrow> hiter \<Rightarrow> 'v option run" where
  "PeekNextValue t it = (case i_nextValueCookie it of None \<Rightarrow> Ret None | Some e \<Rightarrow> bind_run (entry t e) (\<lambda>x. Ret (Some (h_value x))))"

definition IterateCookie :: "('k, 'v) htable \<Rightarrow> ptr \<Rightarrow> bool \<Rightarrow> ptr run" where
  "IterateCookie t c backwards =
     (case c of None \<Rightarrow> Ret None | Some e \<Rightarrow> bind_run (entry t e) (\<lambda>x. Ret (step_cookie backwards x)))"

definition GetNextKey :: "('k, 'v) htable \<Rightarrow> hiter \<Rightarrow> ('k option \<times> hiter) run" where
  "GetNextKey t it = bind_run (PeekNextKey t it) (\<lambda>r. case r of
     None \<Rightarrow> Ret (None, it)
   | Some k \<Rightarrow> bind_run (IterateCookie t (i_nextKeyCookie it) (i_backwards it)) (\<lambda>c.
       Ret (Some k, it\<lparr>i_nextKeyCookie := c\<rparr>)))"

definition GetNextValue :: "('k, 'v) htable \<Rightarrow> hiter \<Rightarrow> ('v option \<times> hiter) run" where
  "GetNextValue t it = bind_run (PeekNextValue t it) (\<lambda>r. case r of
     None \<Rightarrow> Ret (None, it)
   | Some v \<Rightarrow> bind_run (IterateCookie t (i_nextValueCookie it) (i_backwards it)) (\<lambda>c.
       Ret (Some v, it\<lparr>i_nextValueCookie := c\<rparr>)))"

definition GetNextKeyAndValue :: "('k, 'v) htable \<Rightarrow> hiter \<Rightarrow> (('k \<times> 'v) option \<times> hiter) run" where
  "GetNextKeyAndValue t it = bind_run (GetNextKey t it) (\<lambda>(k, it). case k of
     None \<Rightarrow> Ret (None, it)
   | Some k \<Rightarrow> bind_run (GetNextValue t it) (\<lambda>(v, it). case v of
       None \<Rightarrow> Ret (None, it)
     | Some v \<Rightarrow> Ret (Some (k, v), it)))"

text \<open>The next key from the registered iterator \<open>i\<close>.\<close>

definition next_registered :: "('k, 'v) htable \<Rightarrow> nat \<Rightarrow> ('k option \<times> ('k, 'v) htable) run" where
  "next_registered t i = (case find (\<lambda>it. i_id it = i) (t_iterList t) of
     None \<Rightarrow> Ret (None, t)
   | Some it \<Rightarrow> bind_run (GetNextKey t it) (\<lambda>(k, it).
       Ret (k, t\<lparr>t_iterList := map (\<lambda>x. if i_id x = i then it else x) (t_iterList t)\<rparr>)))"

section \<open>Sorting the iteration\<close>

text \<open>
  The merge sort of the linked list: passes over runs of \<open>mergeSize\<close> entries. \<open>run_end\<close> steps
  over a run, \<open>merge_runs\<close> merges two neighbours and returns where the second one ends. Each
  loop has fuel.
\<close>

fun run_end :: "nat \<Rightarrow> ('k, 'v) htable \<Rightarrow> u32 \<Rightarrow> u32 \<Rightarrow> u32 \<Rightarrow> nat \<Rightarrow> (u32 \<times> ptr) run" where
  "run_end 0 t mergeSize i psize q = NoFuel"
| "run_end (Suc n) t mergeSize i psize q =
     (if i < mergeSize then
        bind_run (entry t q) (\<lambda>x. case h_iterNext x of
          None \<Rightarrow> Ret (psize + 1, None)
        | Some q \<Rightarrow> run_end n t mergeSize (i + 1) (psize + 1) q)
      else Ret (psize, Some q))"

definition take_second :: "('k, 'v) htable \<Rightarrow> ('k, 'v) orderings \<Rightarrow> ptr \<Rightarrow> u32 \<Rightarrow> ptr \<Rightarrow> u32 \<Rightarrow> bool run" where
  "take_second t fs p psize q qsize =
     (if psize = 0 then Ret True
      else if qsize = 0 \<or> q = None then Ret False
      else case (p, q) of
        (Some a, Some b) \<Rightarrow> bind_run (entry t a) (\<lambda>x. bind_run (entry t b) (\<lambda>y.
          Ret (\<not> CompareEntries fs x y \<le> 0)))
      | _ \<Rightarrow> Fault)"

definition append_entry :: "('k, 'v) htable \<Rightarrow> nat \<Rightarrow> ('k, 'v) htable run" where
  "append_entry t e =
     bind_run (case t_iterTail t of
         Some l \<Rightarrow> set_entry t l (\<lambda>x. x\<lparr>h_iterNext := Some e\<rparr>)
       | None \<Rightarrow> Ret (t\<lparr>t_iterHead := Some e\<rparr>)) (\<lambda>t.
     bind_run (set_entry t e (\<lambda>x. x\<lparr>h_iterPrev := t_iterTail t\<rparr>)) (\<lambda>t.
       Ret (t\<lparr>t_iterTail := Some e\<rparr>)))"

fun merge_runs ::
    "nat \<Rightarrow> ('k, 'v) htable \<Rightarrow> ('k, 'v) orderings \<Rightarrow> ptr \<Rightarrow> u32 \<Rightarrow> ptr \<Rightarrow> u32 \<Rightarrow> (ptr \<times> ('k, 'v) htable) run" where
  "merge_runs 0 t fs p psize q qsize = NoFuel"
| "merge_runs (Suc n) t fs p psize q qsize =
     (if psize > 0 \<or> (qsize > 0 \<and> q \<noteq> None) then
        bind_run (take_second t fs p psize q qsize) (\<lambda>second.
          case (if second then q else p) of
            None \<Rightarrow> Fault
          | Some e \<Rightarrow>
              bind_run (entry t e) (\<lambda>x.
              bind_run (append_entry t e) (\<lambda>t.
                if second then merge_runs n t fs p psize (h_iterNext x) (qsize - 1)
                else merge_runs n t fs (h_iterNext x) (psize - 1) q qsize)))
      else Ret (q, t))"

fun sort_pass ::
    "nat \<Rightarrow> ('k, 'v) htable \<Rightarrow> ('k, 'v) orderings \<Rightarrow> u32 \<Rightarrow> ptr \<Rightarrow> u32 \<Rightarrow> (u32 \<times> ('k, 'v) htable) run" where
  "sort_pass 0 t fs mergeSize p numMerges = NoFuel"
| "sort_pass (Suc n) t fs mergeSize p numMerges = (case p of
     None \<Rightarrow> Ret (numMerges, t)
   | Some e \<Rightarrow>
       bind_run (run_end (Suc (unat (t_tableSize t))) t mergeSize 0 0 e) (\<lambda>(psize, q).
       bind_run (merge_runs (Suc (unat (t_tableSize t))) t fs (Some e) psize q mergeSize) (\<lambda>(p, t).
         sort_pass n t fs mergeSize p (numMerges + 1))))"

fun sort_passes :: "nat \<Rightarrow> ('k, 'v) htable \<Rightarrow> ('k, 'v) orderings \<Rightarrow> u32 \<Rightarrow> ('k, 'v) htable run" where
  "sort_passes 0 t fs mergeSize = NoFuel"
| "sort_passes (Suc n) t fs mergeSize =
     bind_run (sort_pass (Suc (unat (t_tableSize t))) (t\<lparr>t_iterHead := None, t_iterTail := None\<rparr>) fs mergeSize
       (t_iterHead t) 0) (\<lambda>(numMerges, t). case t_iterTail t of
         None \<Rightarrow> Fault
       | Some l \<Rightarrow> bind_run (set_entry t l (\<lambda>x. x\<lparr>h_iterNext := None\<rparr>)) (\<lambda>t.
           if numMerges \<le> 1 then Ret t else sort_passes n t fs (mergeSize * 2)))"

definition SortByAux :: "('k, 'v) htable \<Rightarrow> ('k, 'v) orderings \<Rightarrow> (status \<times> ('k, 'v) htable) run" where
  "SortByAux t fs =
     (if fst fs \<noteq> None \<or> snd fs \<noteq> None then
        bind_run (if t_iterHead t \<noteq> None then sort_passes 33 t fs 1 else Ret t) (\<lambda>t. Ret (B_NO_ERROR, t))
      else Ret (B_ERROR, t))"

definition Hashtable_Sort :: "('k, 'v) htable \<Rightarrow> (status \<times> ('k, 'v) htable) run" where
  "Hashtable_Sort t = SortByAux t
     (if t_autoSortMode t \<noteq> AUTOSORT_BY_VALUE then t_userKeyCompareFunc t else None,
      if t_autoSortMode t \<noteq> AUTOSORT_BY_KEY then t_userValueCompareFunc t else None)"

definition SortByKey :: "('k, 'v) htable \<Rightarrow> ('k \<Rightarrow> 'k \<Rightarrow> int) \<Rightarrow> ('k, 'v) htable run" where
  "SortByKey t f = bind_run (SortByAux t (Some f, None)) (\<lambda>(_, t). Ret t)"

definition SortByValue :: "('k, 'v) htable \<Rightarrow> ('v \<Rightarrow> 'v \<Rightarrow> int) \<Rightarrow> ('k, 'v) htable run" where
  "SortByValue t g = bind_run (SortByAux t (None, Some g)) (\<lambda>(_, t). Ret t)"

definition SetAutoSortMode :: "('k, 'v) htable \<Rightarrow> autosort \<Rightarrow> bool \<Rightarrow> ('k, 'v) htable run" where
  "SetAutoSortMode t mode sortNow =
     (if sortNow then bind_run (Hashtable_Sort (t\<lparr>t_autoSortMode := mode\<rparr>)) (\<lambda>(_, t). Ret t)
      else Ret (t\<lparr>t_autoSortMode := mode\<rparr>))"

section \<open>Operations that iterate\<close>

text \<open>
  Their iterators register and unregister within the operation, while the iterated table does not change;
  so they are taken as unregistered here.
\<close>

fun all_in :: "nat \<Rightarrow> ('k \<Rightarrow> u32) \<Rightarrow> ('k, 'v) htable \<Rightarrow> hiter \<Rightarrow> ('k, 'v) htable \<Rightarrow> bool run" where
  "all_in 0 hash t it rhs = NoFuel"
| "all_in (Suc n) hash t it rhs = bind_run (GetNextKeyAndValue t it) (\<lambda>(kv, it). case kv of
     None \<Rightarrow> Ret True
   | Some (k, v) \<Rightarrow> bind_run (GetValue hash rhs k) (\<lambda>w. if w \<noteq> Some v then Ret False else all_in n hash t it rhs))"

definition Hashtable_eq :: "('k \<Rightarrow> u32) \<Rightarrow> ('k, 'v) htable \<Rightarrow> ('k, 'v) htable \<Rightarrow> bool run" where
  "Hashtable_eq hash t rhs =
     (if t_count t \<noteq> t_count rhs then Ret False
      else all_in (Suc (unat (t_count t))) hash t (fst (InitializeIterator t 0 False True)) rhs)"

fun some_value :: "nat \<Rightarrow> ('k, 'v) htable \<Rightarrow> hiter \<Rightarrow> 'v \<Rightarrow> bool run" where
  "some_value 0 t it v = NoFuel"
| "some_value (Suc n) t it v = bind_run (GetNextValue t it) (\<lambda>(r, it). case r of
     None \<Rightarrow> Ret False
   | Some w \<Rightarrow> if w = v then Ret True else some_value n t it v)"

definition ContainsValue :: "('k, 'v) htable \<Rightarrow> 'v \<Rightarrow> bool run" where
  "ContainsValue t value = some_value (Suc (unat (t_count t))) t (fst (InitializeIterator t 0 False True)) value"

fun put_all ::
    "nat \<Rightarrow> ('k \<Rightarrow> u32) \<Rightarrow> (u32 \<Rightarrow> bool) \<Rightarrow> nat \<Rightarrow> ('k :: default, 'v :: default) htable \<Rightarrow> ('k, 'v) htable \<Rightarrow> hiter \<Rightarrow>
     ('k, 'v) htable run" where
  "put_all 0 hash alloc pf t rhs it = NoFuel"
| "put_all (Suc n) hash alloc pf t rhs it = bind_run (GetNextKeyAndValue rhs it) (\<lambda>(kv, it). case kv of
     None \<Rightarrow> Ret t
   | Some (k, v) \<Rightarrow> bind_run (Put hash alloc pf t k v) (\<lambda>(_, _, t). put_all n hash alloc pf t rhs it))"

definition Hashtable_assign ::
    "('k \<Rightarrow> u32) \<Rightarrow> (u32 \<Rightarrow> bool) \<Rightarrow> nat \<Rightarrow> ('k :: default, 'v :: default) htable \<Rightarrow> ('k, 'v) htable \<Rightarrow> ('k, 'v) htable run" where
  "Hashtable_assign hash alloc pf t rhs =
     bind_run (Hashtable_Clear t False) (\<lambda>t.
     bind_run (Hashtable_EnsureSize hash alloc pf t (t_count rhs)) (\<lambda>(st, t).
       if st = B_NO_ERROR then put_all (Suc (unat (t_count rhs))) hash alloc pf t rhs (fst (InitializeIterator rhs 0 False True))
       else Ret t))"

end
