(* ===== verification/Hash_Chain.thy ===== *)
theory Hash_Chain
  imports Hash_More
begin

text \<open>
  Doubly linked lists that live in an array: what a list of indices says of the links of its
  members, and how insertion and removal change them. Then updates of the entries
  array as functions of the index, into which the straight-line code of the table rewrites.
\<close>

section \<open>Links\<close>

fun first :: "'a list \<Rightarrow> 'a option" where
  "first [] = None"
| "first (x # xs) = Some x"

lemma first_append [simp]: "first (xs @ ys) = (if xs = [] then first ys else first xs)"
  by (cases xs) simp_all

lemma first_None [simp]: "first xs = None \<longleftrightarrow> xs = []" "None = first xs \<longleftrightarrow> xs = []"
  by (cases xs; simp)+

lemma first_SomeD: "first xs = Some x \<Longrightarrow> \<exists>ys. xs = x # ys"
  by (cases xs) simp_all

lemma first_in_set: "first xs = Some x \<Longrightarrow> x \<in> set xs"
  by (cases xs) simp_all

lemma first_rev_SomeD: "first (rev xs) = Some x \<Longrightarrow> \<exists>ys. xs = ys @ [x]"
  by (cases xs rule: rev_cases) simp_all

text \<open>The member behind \<open>x\<close>.\<close>

fun succ_of :: "'a list \<Rightarrow> 'a \<Rightarrow> 'a option" where
  "succ_of [] x = None"
| "succ_of (y # ys) x = (if x = y then first ys else succ_of ys x)"

lemma succ_of_notin: "x \<notin> set xs \<Longrightarrow> succ_of xs x = None"
  by (induction xs) auto

lemma succ_of_append: "distinct (xs @ ys) \<Longrightarrow> succ_of (xs @ ys) x =
    (if first (rev xs) = Some x then first ys else if x \<in> set xs then succ_of xs x else succ_of ys x)"
  by (induction xs) (auto simp: succ_of_notin dest: first_in_set split: if_splits)

lemma succ_of_mid: "distinct (xs @ x # ys) \<Longrightarrow> succ_of (xs @ x # ys) x = first ys"
  by (auto simp: succ_of_append dest: first_in_set)

definition chain :: "('a \<Rightarrow> 'a option) \<Rightarrow> ('a \<Rightarrow> 'a option) \<Rightarrow> 'a list \<Rightarrow> bool" where
  "chain nx pv xs \<longleftrightarrow> distinct xs \<and> (\<forall>x\<in>set xs. nx x = succ_of xs x \<and> pv x = succ_of (rev xs) x)"

lemma chain_Nil [simp]: "chain nx pv []"
  by (simp add: chain_def)

lemma chain_distinct: "chain nx pv xs \<Longrightarrow> distinct xs"
  by (simp add: chain_def)

lemma links_cong:
  "chain nx pv xs \<Longrightarrow> (\<And>x. x \<in> set xs \<Longrightarrow> nx' x = nx x \<and> pv' x = pv x) \<Longrightarrow> chain nx' pv' xs"
  by (simp add: chain_def)

lemma chain_rev: "chain nx pv xs \<Longrightarrow> chain pv nx (rev xs)"
  by (simp add: chain_def)

lemma chain_mid:
  assumes "chain nx pv (xs @ x # ys)"
  shows "nx x = first ys" "pv x = first (rev xs)"
  using assms succ_of_mid [of xs x ys] succ_of_mid [of "rev ys" x "rev xs"] by (auto simp: chain_def)

lemma chain_insert:
  assumes "chain nx pv (xs @ ys)" "e \<notin> set (xs @ ys)"
    "nx' e = first ys" "pv' e = first (rev xs)"
    "\<And>x. x \<in> set (xs @ ys) \<Longrightarrow> nx' x = (if first (rev xs) = Some x then Some e else nx x)"
    "\<And>x. x \<in> set (xs @ ys) \<Longrightarrow> pv' x = (if first ys = Some x then Some e else pv x)"
  shows "chain nx' pv' (xs @ e # ys)"
proof -
  have d: "distinct (xs @ ys)" "distinct (xs @ e # ys)" "distinct (rev ys @ rev xs)" "distinct (rev ys @ e # rev xs)"
    using assms(1,2) by (auto simp: chain_def)
  have "nx' x = succ_of (xs @ e # ys) x \<and> pv' x = succ_of (rev (xs @ e # ys)) x" if "x \<in> set (xs @ e # ys)" for x
  proof (cases "x = e")
    case True
    then show ?thesis
      using assms(3,4) succ_of_mid [OF d(2)] succ_of_mid [OF d(4)] by simp
  next
    case False
    then have "x \<in> set (xs @ ys)" "nx x = succ_of (xs @ ys) x" "pv x = succ_of (rev ys @ rev xs) x"
      using that assms(1) by (auto simp: chain_def)
    then show ?thesis
      using False d assms(5,6) [of x]
      by (auto simp: succ_of_append succ_of_append [of xs "e # ys"] succ_of_append [of "rev ys" "e # rev xs"])
  qed
  then show ?thesis using d(2) by (simp add: chain_def)
qed

lemma chain_remove:
  assumes "chain nx pv (xs @ e # ys)"
    "\<And>x. x \<in> set (xs @ ys) \<Longrightarrow> nx' x = (if first (rev xs) = Some x then first ys else nx x)"
    "\<And>x. x \<in> set (xs @ ys) \<Longrightarrow> pv' x = (if first ys = Some x then first (rev xs) else pv x)"
  shows "chain nx' pv' (xs @ ys)"
proof -
  have d: "distinct (xs @ ys)" "distinct (xs @ e # ys)" "distinct (rev ys @ rev xs)" "distinct (rev ys @ e # rev xs)"
    using assms(1) by (auto simp: chain_def)
  have "nx' x = succ_of (xs @ ys) x \<and> pv' x = succ_of (rev (xs @ ys)) x" if x: "x \<in> set (xs @ ys)" for x
  proof -
    have "x \<noteq> e" using x d(2) by auto
    moreover have "nx x = succ_of (xs @ e # ys) x" "pv x = succ_of (rev ys @ e # rev xs) x"
      using x assms(1) by (auto simp: chain_def)
    ultimately show ?thesis
      using d assms(2,3) [OF x] x
      by (auto simp: succ_of_append succ_of_append [of xs "e # ys"] succ_of_append [of "rev ys" "e # rev xs"])
  qed
  then show ?thesis using d(1) by (simp add: chain_def)
qed

section \<open>Updates of an array\<close>

definition amap :: "(nat \<Rightarrow> 'a \<Rightarrow> 'a) \<Rightarrow> 'a list \<Rightarrow> 'a list" where
  "amap f es = map (\<lambda>i. f i (es ! i)) [0..<length es]"

lemma length_amap [simp]: "length (amap f es) = length es"
  by (simp add: amap_def)

lemma nth_amap [simp]: "i < length es \<Longrightarrow> amap f es ! i = f i (es ! i)"
  by (simp add: amap_def)

lemma amap_eqI: "(\<And>i x. f i x = g i x) \<Longrightarrow> amap f es = amap g es"
  by (simp add: amap_def)

lemma update_amap:
  "j < length es \<Longrightarrow> (amap f es)[j := g (f j (es ! j))] = amap (\<lambda>i x. if i = j then g (f i x) else f i x) es"
  by (rule nth_equalityI) (auto simp: nth_list_update)

lemma amap_id: "amap (\<lambda>i x. x) es = es"
  by (rule nth_equalityI) simp_all

lemma update_amap_id:
  "j < length es \<Longrightarrow> es[j := g (es ! j)] = amap (\<lambda>i x. if i = j then g x else x) es"
  by (rule nth_equalityI) (auto simp: nth_list_update)

lemma entry_ok [simp]: "t_table t = Some es \<Longrightarrow> i < length es \<Longrightarrow> entry t i = Ret (es ! i)"
  by (simp add: entry_def)

lemma entry_amap [simp]: "t_table t = Some (amap f es) \<Longrightarrow> i < length es \<Longrightarrow> entry t i = Ret (f i (es ! i))"
  by (simp add: entry_def)

lemma set_entry_ok:
  "t_table t = Some es \<Longrightarrow> j < length es \<Longrightarrow>
    set_entry t j g = Ret (t\<lparr>t_table := Some (amap (\<lambda>i x. if i = j then g x else x) es)\<rparr>)"
  by (simp add: set_entry_def update_amap_id)

lemma set_entry_amap [simp]:
  "t_table t = Some (amap f es) \<Longrightarrow> j < length es \<Longrightarrow>
    set_entry t j g = Ret (t\<lparr>t_table := Some (amap (\<lambda>i x. if i = j then g (f i x) else f i x) es)\<rparr>)"
  by (simp add: set_entry_def update_amap)

lemma set_opt_amap [simp]:
  assumes "t_table t = Some (amap f es)" "\<And>j. p = Some j \<Longrightarrow> j < length es"
  shows "set_opt t p g = Ret (t\<lparr>t_table := Some (amap (\<lambda>i x. if p = Some i then g (f i x) else f i x) es)\<rparr>)"
proof (cases p)
  case None
  have "t = t\<lparr>t_table := Some (amap f es)\<rparr>" using assms(1) by (cases t) simp
  then show ?thesis using None by (simp add: set_opt_def)
next
  case (Some j)
  then show ?thesis using assms set_entry_amap [of t f es j g] by (simp add: set_opt_def eq_commute [of j])
qed

end
