(* ===== verification/Hash_Inv.thy ===== *)
theory Hash_Inv
  imports Hash_Chain
begin

text \<open>
  The invariant of the hash table: which entries are in use, in which order, which are free, and
  the chain of every bucket. Then looking up, and the iteration list.
\<close>

section \<open>The invariant\<close>

definition iter_chain :: "('k, 'v) hentry list \<Rightarrow> nat list \<Rightarrow> bool" where
  "iter_chain es xs = chain (\<lambda>i. h_iterNext (es ! i)) (\<lambda>i. h_iterPrev (es ! i)) xs"

definition bucket_chain :: "('k, 'v) hentry list \<Rightarrow> nat list \<Rightarrow> bool" where
  "bucket_chain es xs = chain (\<lambda>i. h_bucketNext (es ! i)) (\<lambda>i. h_bucketPrev (es ! i)) xs"

definition bucket_of :: "('k, 'v) hentry list \<Rightarrow> nat \<Rightarrow> nat" where
  "bucket_of es i = unat (h_hash (es ! i)) mod length es"

definition maps_ok :: "('k, 'v) hentry list \<Rightarrow> bool" where
  "maps_ok es \<longleftrightarrow> (\<forall>i<length es. h_mapTo (es ! i) < length es \<and> h_mappedFrom (es ! i) < length es \<and>
     h_mappedFrom (es ! h_mapTo (es ! i)) = i \<and> h_mapTo (es ! h_mappedFrom (es ! i)) = i)"

text \<open>\<open>buckets_ok es used bk\<close>: the chain of the bucket \<open>b\<close> is \<open>bk b\<close>, and it starts in the slot of \<open>b\<close>.\<close>

definition buckets_ok :: "('k, 'v) hentry list \<Rightarrow> nat set \<Rightarrow> (nat \<Rightarrow> nat list) \<Rightarrow> bool" where
  "buckets_ok es used bk \<longleftrightarrow> (\<forall>b<length es. bucket_chain es (bk b) \<and> set (bk b) = {i\<in>used. bucket_of es i = b} \<and>
     (bk b \<noteq> [] \<longrightarrow> h_mapTo (es ! b) = hd (bk b)))"

text \<open>The invariant without the iteration list, for a set of entries in use.\<close>

definition core :: "('k \<Rightarrow> u32) \<Rightarrow> ('k, 'v) hentry list \<Rightarrow> nat set \<Rightarrow> nat list \<Rightarrow> (nat \<Rightarrow> nat list) \<Rightarrow> bool" where
  "core hash es used free bk \<longleftrightarrow>
     bucket_chain es free \<and> used \<inter> set free = {} \<and> used \<union> set free = {..<length es} \<and> maps_ok es \<and> buckets_ok es used bk \<and>
     (\<forall>i\<in>set free. h_hash (es ! i) = MUSCLE_HASHTABLE_INVALID_HASH_CODE) \<and>
     (\<forall>i\<in>used. h_hash (es ! i) = ComputeHash hash (h_key (es ! i))) \<and> inj_on (\<lambda>i. h_key (es ! i)) used"

definition layout :: "('k \<Rightarrow> u32) \<Rightarrow> ('k, 'v) hentry list \<Rightarrow> nat list \<Rightarrow> nat list \<Rightarrow> (nat \<Rightarrow> nat list) \<Rightarrow> bool" where
  "layout hash es ord free bk \<longleftrightarrow> iter_chain es ord \<and> core hash es (set ord) free bk"

definition keys_ok :: "('k, 'v) htable \<Rightarrow> bool" where
  "keys_ok t \<longleftrightarrow> (\<forall>f. t_userKeyCompareFunc t = Some f \<longrightarrow> (\<forall>x y. (f x y = 0) = (x = y)))"

definition cookie_ok :: "nat list \<Rightarrow> ptr \<Rightarrow> bool" where
  "cookie_ok ord c \<longleftrightarrow> (\<forall>e. c = Some e \<longrightarrow> e \<in> set ord)"

definition iters_ok :: "nat list \<Rightarrow> hiter list \<Rightarrow> bool" where
  "iters_ok ord its \<longleftrightarrow> (\<forall>it\<in>set its. cookie_ok ord (i_nextKeyCookie it) \<and> cookie_ok ord (i_nextValueCookie it))"

definition heads_ok :: "('k, 'v) htable \<Rightarrow> nat list \<Rightarrow> bool" where
  "heads_ok t ord \<longleftrightarrow> unat (t_count t) = length ord \<and> t_iterHead t = first ord \<and> t_iterTail t = first (rev ord) \<and>
     keys_ok t \<and> t_tableSize t \<noteq> 0"

definition table_ok :: "('k \<Rightarrow> u32) \<Rightarrow> ('k, 'v) htable \<Rightarrow> nat list \<Rightarrow> bool" where
  "table_ok hash t ord \<longleftrightarrow> heads_ok t ord \<and> iters_ok ord (t_iterList t) \<and>
     (case t_table t of
        None \<Rightarrow> ord = []
      | Some es \<Rightarrow> length es = unat (t_tableSize t) \<and> (\<exists>free bk. layout hash es ord free bk \<and> t_freeHead t = first free))"

text \<open>What the table holds, in the order of iteration.\<close>

definition contents :: "('k, 'v) htable \<Rightarrow> nat list \<Rightarrow> ('k \<times> 'v) list" where
  "contents t ord = (case t_table t of None \<Rightarrow> [] | Some es \<Rightarrow> map (\<lambda>i. (h_key (es ! i), h_value (es ! i))) ord)"

lemma ComputeHash_valid [simp]: "ComputeHash hash key \<noteq> MUSCLE_HASHTABLE_INVALID_HASH_CODE"
  by (simp add: ComputeHash_def MUSCLE_HASHTABLE_INVALID_HASH_CODE_def Let_def)

lemma layoutD:
  assumes "layout hash es ord free bk"
  shows "distinct ord" "distinct free" "\<And>i. i \<in> set ord \<Longrightarrow> i < length es" "\<And>i. i \<in> set free \<Longrightarrow> i < length es"
    "\<And>i. i \<in> set ord \<Longrightarrow> i \<notin> set free" "\<And>i. i < length es \<Longrightarrow> i \<in> set ord \<or> i \<in> set free"
    "length ord + length free = length es"
proof -
  show d: "distinct ord" "distinct free"
    using assms by (auto simp: layout_def core_def iter_chain_def bucket_chain_def chain_def)
  show "\<And>i. i \<in> set ord \<Longrightarrow> i < length es" "\<And>i. i \<in> set free \<Longrightarrow> i < length es"
    "\<And>i. i \<in> set ord \<Longrightarrow> i \<notin> set free" "\<And>i. i < length es \<Longrightarrow> i \<in> set ord \<or> i \<in> set free"
    using assms by (auto simp: layout_def core_def)
  have "card (set ord \<union> set free) = card (set ord) + card (set free)"
    using assms by (intro card_Un_disjoint) (auto simp: layout_def core_def)
  then show "length ord + length free = length es"
    using assms d by (simp add: layout_def core_def distinct_card)
qed

lemma coreD:
  assumes "core hash es used free bk"
  shows "bucket_chain es free" "used \<inter> set free = {}" "used \<union> set free = {..<length es}" "maps_ok es" "buckets_ok es used bk"
    "\<And>i. i \<in> set free \<Longrightarrow> h_hash (es ! i) = MUSCLE_HASHTABLE_INVALID_HASH_CODE"
    "\<And>i. i \<in> used \<Longrightarrow> h_hash (es ! i) = ComputeHash hash (h_key (es ! i))" "inj_on (\<lambda>i. h_key (es ! i)) used"
    "\<And>i. i \<in> used \<Longrightarrow> i < length es" "\<And>i. i \<in> set free \<Longrightarrow> i < length es" "\<And>i. i \<in> used \<Longrightarrow> i \<notin> set free"
  using assms by (auto simp: core_def)

lemma buckets_okD:
  assumes "buckets_ok es used bk" "b < length es"
  shows "bucket_chain es (bk b)" "set (bk b) = {i\<in>used. bucket_of es i = b}" "bk b \<noteq> [] \<Longrightarrow> h_mapTo (es ! b) = hd (bk b)"
  using assms by (simp_all add: buckets_ok_def)

section \<open>Looking up\<close>

lemma bucket_ok:
  assumes "t_table t = Some es" "length es = unat (t_tableSize t)" "t_tableSize t \<noteq> 0"
  shows "bucket t h = Ret (h_mapTo (es ! (unat h mod length es)))"
proof -
  have "0 < length es" using assms(2,3) by (simp add: unat_gt_0)
  then have "unat (h mod t_tableSize t) < length es" "unat (h mod t_tableSize t) = unat h mod length es"
    using assms(2) by (simp_all add: unat_mod)
  then show ?thesis using assms by (simp add: bucket_def)
qed

lemma mapTo_inj:
  assumes "maps_ok es" "h_mapTo (es ! i) = h_mapTo (es ! j)" "i < length es" "j < length es"
  shows "i = j"
  using assms unfolding maps_ok_def by metis

lemma IsBucketHead_ok:
  assumes t: "t_table t = Some es" "length es = unat (t_tableSize t)" "t_tableSize t \<noteq> 0"
    and c: "core hash es used free bk" and b: "b < length es"
  shows "IsBucketHead t (h_mapTo (es ! b)) = Ret (bk b \<noteq> [])"
proof -
  let ?e = "h_mapTo (es ! b)"
  note m = coreD(4) [OF c]
  have e: "?e < length es" using m b by (simp add: maps_ok_def)
  note bk = buckets_okD(2,3) [OF coreD(5) [OF c] b]
  show ?thesis
  proof (cases "?e \<in> used")
    case True
    then have "h_hash (es ! ?e) \<noteq> MUSCLE_HASHTABLE_INVALID_HASH_CODE" using coreD(7) [OF c True] by simp
    then have "IsBucketHead t ?e = Ret (h_mapTo (es ! bucket_of es ?e) = ?e)"
      using e t by (simp add: IsBucketHead_def bucket_ok bucket_of_def)
    moreover have "0 < length es" using b by linarith
    then have "bucket_of es ?e < length es" by (simp add: bucket_of_def)
    then have "h_mapTo (es ! bucket_of es ?e) = ?e \<Longrightarrow> bucket_of es ?e = b" by (intro mapTo_inj [OF m _ _ b])
    then have "h_mapTo (es ! bucket_of es ?e) = ?e \<longleftrightarrow> bucket_of es ?e = b" by (intro iffI) simp_all
    moreover have "bucket_of es ?e = b \<longleftrightarrow> bk b \<noteq> []"
    proof
      assume "bk b \<noteq> []"
      then have "?e \<in> set (bk b)" using bk(2) by simp
      then show "bucket_of es ?e = b" using bk(1) by simp
    next
      assume "bucket_of es ?e = b"
      then have "?e \<in> set (bk b)" using bk(1) True by simp
      then show "bk b \<noteq> []" by auto
    qed
    ultimately show ?thesis by simp
  next
    case False
    then have "?e \<in> set free" using coreD(3) [OF c] e by auto
    then have "h_hash (es ! ?e) = MUSCLE_HASHTABLE_INVALID_HASH_CODE" by (rule coreD(6) [OF c])
    moreover have "bk b = []" using bk False by (metis (no_types, lifting) hd_in_set mem_Collect_eq)
    ultimately show ?thesis using e t by (simp add: IsBucketHead_def)
  qed
qed

lemma keys_equal_iff: "keys_ok t \<Longrightarrow> keys_equal t a b \<longleftrightarrow> a = b"
  by (auto simp: keys_equal_def keys_ok_def split: option.splits)

lemma find_in_bucket_ok:
  assumes "t_table t = Some es" "keys_ok t"
  shows "bucket_chain es (xs @ ys) \<Longrightarrow> (\<And>i. i \<in> set ys \<Longrightarrow> i < length es) \<Longrightarrow> length ys < n \<Longrightarrow>
    find_in_bucket n t h key (first ys) = Ret (find (\<lambda>i. h_hash (es ! i) = h \<and> h_key (es ! i) = key) ys)"
proof (induction ys arbitrary: xs n)
  case Nil
  then show ?case by (cases n) simp_all
next
  case (Cons y ys)
  obtain m where n: "n = Suc m" using Cons.prems(3) by (cases n) auto
  have "h_bucketNext (es ! y) = first ys"
    using chain_mid(1) [of _ _ xs y ys] Cons.prems(1) by (simp add: bucket_chain_def)
  moreover have "find_in_bucket m t h key (first ys) = Ret (find (\<lambda>i. h_hash (es ! i) = h \<and> h_key (es ! i) = key) ys)"
    using Cons.prems n by (intro Cons.IH [of "xs @ [y]"]) simp_all
  ultimately show ?case using n Cons.prems(2) [of y] assms by (simp add: keys_equal_iff)
qed

definition key_index :: "('k, 'v) hentry list \<Rightarrow> nat list \<Rightarrow> 'k \<Rightarrow> ptr" where
  "key_index es ord key = find (\<lambda>i. h_key (es ! i) = key) ord"

lemma key_index_Some:
  assumes "inj_on (\<lambda>i. h_key (es ! i)) (set ord)"
  shows "key_index es ord key = Some e \<longleftrightarrow> e \<in> set ord \<and> h_key (es ! e) = key"
proof
  assume "key_index es ord key = Some e"
  then show "e \<in> set ord \<and> h_key (es ! e) = key"
    unfolding key_index_def find_Some_iff by (auto simp: in_set_conv_nth)
next
  assume e: "e \<in> set ord \<and> h_key (es ! e) = key"
  then have "key_index es ord key \<noteq> None" by (auto simp: key_index_def find_None_iff)
  then obtain f where f: "key_index es ord key = Some f" by blast
  then have "f \<in> set ord \<and> h_key (es ! f) = key"
    unfolding key_index_def find_Some_iff by (auto simp: in_set_conv_nth)
  then show "key_index es ord key = Some e" using e f assms by (auto dest: inj_onD)
qed

lemma key_index_None: "key_index es ord key = None \<longleftrightarrow> key \<notin> (\<lambda>i. h_key (es ! i)) ` set ord"
  by (auto simp: key_index_def find_None_iff)

lemma GetEntry_ok:
  assumes t: "t_table t = Some es" "length es = unat (t_tableSize t)" "t_tableSize t \<noteq> 0" "keys_ok t"
    and c: "core hash es (set ord) free bk" and h: "h = ComputeHash hash key"
  shows "GetEntry t h key = Ret (key_index es ord key)"
proof -
  have N: "0 < length es" using t(2,3) by (simp add: unat_gt_0)
  let ?b = "unat h mod length es"
  have b: "?b < length es" using N by simp
  note inj = coreD(8) [OF c] and ho = coreD(7) [OF c] and bk = buckets_okD [OF coreD(5) [OF c] b]
  have in_bk: "key_index es ord key = find (\<lambda>i. h_hash (es ! i) = h \<and> h_key (es ! i) = key) (bk ?b)"
  proof (cases "find (\<lambda>i. h_hash (es ! i) = h \<and> h_key (es ! i) = key) (bk ?b)")
    case None
    have "key \<notin> (\<lambda>i. h_key (es ! i)) ` set ord"
    proof
      assume "key \<in> (\<lambda>i. h_key (es ! i)) ` set ord"
      then obtain i where i: "i \<in> set ord" "h_key (es ! i) = key" by auto
      then have "h_hash (es ! i) = h" using ho h by simp
      moreover from this have "i \<in> set (bk ?b)" using bk(2) i by (simp add: bucket_of_def)
      ultimately show False using None i(2) by (auto simp: find_None_iff)
    qed
    then show ?thesis using None by (simp add: key_index_None)
  next
    case (Some e)
    then have "e \<in> set (bk ?b)" "h_key (es ! e) = key" unfolding find_Some_iff by (auto simp: in_set_conv_nth)
    then show ?thesis using Some bk(2) by (simp add: key_index_Some [OF inj])
  qed
  show ?thesis
  proof (cases "bk ?b = []")
    case True
    then show ?thesis
      using in_bk IsBucketHead_ok [OF t(1-3) c b] by (simp add: GetEntry_def bucket_ok [OF t(1-3)])
  next
    case False
    then have hd: "Some (h_mapTo (es ! ?b)) = first (bk ?b)" using bk(3) by (cases "bk ?b") simp_all
    have lt: "i < length es" if "i \<in> set (bk ?b)" for i using bk(2) that coreD(9) [OF c] by simp
    have "distinct (bk ?b)" using bk(1) by (simp add: bucket_chain_def chain_def)
    moreover have "set (bk ?b) \<subseteq> {..<length es}" using lt by auto
    ultimately have "length (bk ?b) \<le> length es"
      using card_mono [of "{..<length es}" "set (bk ?b)"] by (simp add: distinct_card)
    then show ?thesis
      using False hd lt in_bk IsBucketHead_ok [OF t(1-3) c b] bk(1) t
        find_in_bucket_ok [OF t(1,4), of "[]" "bk ?b" "Suc (unat (t_tableSize t))" h key]
      by (simp add: GetEntry_def bucket_ok)
  qed
qed

end
