(* ===== verification/Hash_Iter.thy ===== *)
theory Hash_Iter
  imports Hash_Inv
begin

text \<open>
  The iteration list of the hash table: insertion behind an entry, removal with the
  registered iterators, and the insertion that keeps the order of an auto-sorted table.
\<close>

section \<open>What other parts of the invariant do not look at\<close>

definition same_buckets :: "('k, 'v) hentry list \<Rightarrow> ('k, 'v) hentry list \<Rightarrow> bool" where
  "same_buckets es es' \<longleftrightarrow> length es' = length es \<and> (\<forall>i<length es. h_hash (es' ! i) = h_hash (es ! i) \<and>
     h_key (es' ! i) = h_key (es ! i) \<and> h_value (es' ! i) = h_value (es ! i) \<and>
     h_bucketNext (es' ! i) = h_bucketNext (es ! i) \<and> h_bucketPrev (es' ! i) = h_bucketPrev (es ! i) \<and>
     h_mapTo (es' ! i) = h_mapTo (es ! i) \<and> h_mappedFrom (es' ! i) = h_mappedFrom (es ! i))"

lemma same_buckets_refl [simp]: "same_buckets es es"
  by (simp add: same_buckets_def)

lemma same_buckets_trans: "same_buckets es es1 \<Longrightarrow> same_buckets es1 es2 \<Longrightarrow> same_buckets es es2"
  by (simp add: same_buckets_def)

lemma same_bucketsD:
  assumes "same_buckets es es'"
  shows "length es' = length es" "i < length es \<Longrightarrow> h_hash (es' ! i) = h_hash (es ! i)"
    "i < length es \<Longrightarrow> h_key (es' ! i) = h_key (es ! i)" "i < length es \<Longrightarrow> h_value (es' ! i) = h_value (es ! i)"
    "i < length es \<Longrightarrow> h_bucketNext (es' ! i) = h_bucketNext (es ! i)"
    "i < length es \<Longrightarrow> h_bucketPrev (es' ! i) = h_bucketPrev (es ! i)"
    "i < length es \<Longrightarrow> h_mapTo (es' ! i) = h_mapTo (es ! i)"
    "i < length es \<Longrightarrow> h_mappedFrom (es' ! i) = h_mappedFrom (es ! i)"
  using assms by (simp_all add: same_buckets_def)

lemma bucket_chain_cong:
  assumes "bucket_chain es xs" "\<And>i. i \<in> set xs \<Longrightarrow>
    h_bucketNext (es' ! i) = h_bucketNext (es ! i) \<and> h_bucketPrev (es' ! i) = h_bucketPrev (es ! i)"
  shows "bucket_chain es' xs"
  using assms unfolding bucket_chain_def by (rule links_cong)

lemma core_same_buckets:
  assumes c: "core hash es used free bk" and s: "same_buckets es es'"
  shows "core hash es' used free bk"
proof -
  note p = coreD [OF c] and sd = same_bucketsD [OF s]
  have f: "bucket_chain es' free"
    using p(1) by (rule bucket_chain_cong) (simp add: sd p(10))
  have "h_mapTo (es ! i) < length es" "h_mappedFrom (es ! i) < length es" if "i < length es" for i
    using p(4) that by (simp_all add: maps_ok_def)
  then have m: "maps_ok es'" using p(4) by (simp add: maps_ok_def sd)
  have b: "buckets_ok es' used bk"
    unfolding buckets_ok_def
  proof (intro allI impI)
    fix b assume "b < length es'"
    then have b: "b < length es" by (simp add: sd)
    note bk = buckets_okD [OF p(5) b]
    have bo: "bucket_of es' i = bucket_of es i" if "i \<in> used" for i
      using p(9) [OF that] by (simp add: bucket_of_def sd)
    have "i < length es" if "i \<in> set (bk b)" for i using that bk(2) p(9) by simp
    then have "bucket_chain es' (bk b)" by (intro bucket_chain_cong [OF bk(1)]) (simp add: sd)
    moreover have "set (bk b) = {i\<in>used. bucket_of es' i = b}" unfolding bk(2) using bo by auto
    ultimately show "bucket_chain es' (bk b) \<and> set (bk b) = {i\<in>used. bucket_of es' i = b} \<and>
        (bk b \<noteq> [] \<longrightarrow> h_mapTo (es' ! b) = hd (bk b))"
      using bk(3) b by (simp add: sd)
  qed
  have "inj_on (\<lambda>i. h_key (es' ! i)) used = inj_on (\<lambda>i. h_key (es ! i)) used"
    using p(9) by (intro inj_on_cong) (simp add: sd)
  then show ?thesis
    using p(2,3,6-8) f m b p(9,10) by (simp add: core_def sd)
qed

lemma layout_same_buckets:
  "layout hash es ord free bk \<Longrightarrow> same_buckets es es' \<Longrightarrow> iter_chain es' ord' \<Longrightarrow> set ord' = set ord \<Longrightarrow>
    layout hash es' ord' free bk"
  unfolding layout_def using core_same_buckets by metis

section \<open>Insertion and removal\<close>

lemma t_table_same: "t_table t = Some es \<Longrightarrow> t\<lparr>t_table := Some es\<rparr> = t"
  by (cases t) simp

lemma amap_start: "t_table t = Some es \<Longrightarrow> t_table t = Some (amap (\<lambda>i x. x) es)"
  by (simp add: amap_id)

lemma InsertIterationEntry_ok:
  assumes t: "t_table t = Some es" and c: "iter_chain es (xs @ ys)" "\<And>i. i \<in> set (xs @ ys) \<Longrightarrow> i < length es"
    and e: "e < length es" "e \<notin> set (xs @ ys)" and h: "t_iterHead t = first (xs @ ys)" "t_iterTail t = first (rev (xs @ ys))"
  shows "\<exists>es'. InsertIterationEntry t e (first (rev xs)) =
      Ret (t\<lparr>t_table := Some es', t_iterHead := first (xs @ e # ys), t_iterTail := first (rev (xs @ e # ys))\<rparr>) \<and>
    same_buckets es es' \<and> iter_chain es' (xs @ e # ys)"
proof -
  let ?b = "first (rev xs)" and ?n = "first ys"
  have bl: "j < length es" if "?b = Some j" for j using that c(2) by (auto dest: first_in_set)
  have nl: "j < length es" if "?n = Some j" for j using that c(2) by (auto dest: first_in_set)
  have be: "?b \<noteq> Some e" and ne: "?n \<noteq> Some e" using e(2) by (auto dest: first_in_set)
  have d: "distinct (xs @ ys)" using c(1) by (simp add: iter_chain_def chain_def)
  have bn: "?b \<noteq> ?n \<or> ?b = None" using d first_in_set [of "rev xs"] first_in_set [of ys] by (cases ?b) auto
  have nx: "h_iterNext (es ! j) = ?n" if "?b = Some j" for j
  proof -
    obtain zs where "xs = zs @ [j]" using first_rev_SomeD [OF \<open>?b = Some j\<close>] by blast
    then show ?thesis using c(1) chain_mid(1) [of _ _ zs j ys] by (simp add: iter_chain_def)
  qed
  let ?F = "\<lambda>i x. if i = e then x\<lparr>h_iterPrev := ?b, h_iterNext := ?n\<rparr>
    else if ?b = Some i then x\<lparr>h_iterNext := Some e\<rparr> else if ?n = Some i then x\<lparr>h_iterPrev := Some e\<rparr> else x"
  let ?es = "amap ?F es"
  have "InsertIterationEntry t e ?b =
      Ret (t\<lparr>t_table := Some ?es, t_iterHead := first (xs @ e # ys), t_iterTail := first (rev (xs @ e # ys))\<rparr>)"
  proof (cases "?b")
    case None
    then have x: "xs = []" by simp
    have "(if ?n = None then True else True)" by simp
    show ?thesis
    proof (cases ?n)
      case None
      then show ?thesis using x t e(1) h
        by (simp add: InsertIterationEntry_def set_entry_ok) (auto intro!: htable.equality amap_eqI)
    next
      case (Some n)
      then show ?thesis using x t e(1) h nl ne
        by (simp add: InsertIterationEntry_def set_entry_ok) (auto intro!: htable.equality amap_eqI)
    qed
  next
    case (Some b)
    then have bb: "b < length es" "b \<noteq> e" "h_iterNext (es ! b) = ?n" "xs \<noteq> []" using bl be nx by auto
    show ?thesis
    proof (cases ?n)
      case None
      then show ?thesis using Some bb t e(1) h
        by (simp add: InsertIterationEntry_def set_entry_ok) (auto intro!: htable.equality amap_eqI)
    next
      case (Some n)
      then show ?thesis using \<open>?b = Some b\<close> bb t e(1) h nl ne bn
        by (simp add: InsertIterationEntry_def set_entry_ok) (auto intro!: htable.equality amap_eqI)
    qed
  qed
  moreover have "same_buckets es ?es" by (simp add: same_buckets_def)
  moreover have "iter_chain ?es (xs @ e # ys)"
    unfolding iter_chain_def
  proof (rule chain_insert [OF c(1) [unfolded iter_chain_def] e(2)])
    fix x assume x: "x \<in> set (xs @ ys)"
    then have "x \<noteq> e" "x < length es" using e(2) c(2) by auto
    then show "h_iterNext (?es ! x) = (if ?b = Some x then Some e else h_iterNext (es ! x))"
      "h_iterPrev (?es ! x) = (if ?n = Some x then Some e else h_iterPrev (es ! x))"
      using bn by auto
  qed (use e(1) in simp_all)
  ultimately show ?thesis by blast
qed

text \<open>A cookie that stood on the removed entry goes on to the next one in its direction.\<close>

definition leave :: "nat list \<Rightarrow> nat \<Rightarrow> bool \<Rightarrow> ptr \<Rightarrow> ptr" where
  "leave ord e backwards c = (if c = Some e then succ_of (if backwards then rev ord else ord) e else c)"

lemma leave_entry_ok:
  assumes "iter_chain es (xs @ e # ys)"
  shows "leave_entry e (es ! e) it = it\<lparr>i_nextKeyCookie := leave (xs @ e # ys) e (i_backwards it) (i_nextKeyCookie it),
    i_nextValueCookie := leave (xs @ e # ys) e (i_backwards it) (i_nextValueCookie it)\<rparr>"
  using assms by (simp add: leave_entry_def Let_def leave_def step_cookie_def iter_chain_def chain_def)

lemma cookie_ok_leave:
  assumes "cookie_ok (xs @ e # ys) c" "distinct (xs @ e # ys)"
  shows "cookie_ok (xs @ ys) (leave (xs @ e # ys) e bw c)"
proof -
  have d: "distinct (rev ys @ e # rev xs)" using assms(2) by auto
  have "succ_of (rev (xs @ e # ys)) e = first (rev xs)" using succ_of_mid [OF d] by simp
  then show ?thesis
    using assms succ_of_mid [OF assms(2)] by (auto simp: leave_def cookie_ok_def dest: first_in_set)
qed

lemma iters_ok_leave:
  assumes "iters_ok (xs @ e # ys) its" "iter_chain es (xs @ e # ys)"
  shows "iters_ok (xs @ ys) (map (leave_entry e (es ! e)) its)"
proof -
  have "distinct (xs @ e # ys)" using assms(2) by (simp add: iter_chain_def chain_def)
  then show ?thesis
    using assms(1) cookie_ok_leave [of xs e ys] by (simp add: iters_ok_def leave_entry_ok [OF assms(2)])
qed

lemma RemoveIterationEntry_ok:
  assumes t: "t_table t = Some es" and c: "iter_chain es (xs @ e # ys)" "\<And>i. i \<in> set (xs @ e # ys) \<Longrightarrow> i < length es"
    and h: "t_iterHead t = first (xs @ e # ys)" "t_iterTail t = first (rev (xs @ e # ys))"
  shows "\<exists>es'. RemoveIterationEntry t e =
      Ret (t\<lparr>t_table := Some es', t_iterHead := first (xs @ ys), t_iterTail := first (rev (xs @ ys)),
             t_iterList := map (leave_entry e (es ! e)) (t_iterList t)\<rparr>) \<and>
    same_buckets es es' \<and> iter_chain es' (xs @ ys)"
proof -
  let ?b = "first (rev xs)" and ?n = "first ys"
  have d: "distinct (xs @ e # ys)" using c(1) by (simp add: iter_chain_def chain_def)
  have bl: "j < length es \<and> j \<noteq> e" if "?b = Some j" for j using that c(2) d by (auto dest!: first_in_set)
  have nl: "j < length es \<and> j \<noteq> e" if "?n = Some j" for j using that c(2) d by (auto dest!: first_in_set)
  have bn: "?b \<noteq> ?n \<or> ?b = None" using d first_in_set [of "rev xs"] first_in_set [of ys] by (cases ?b) auto
  have l: "h_iterNext (es ! e) = ?n" "h_iterPrev (es ! e) = ?b"
    using chain_mid [OF c(1) [unfolded iter_chain_def]] by simp_all
  have e: "e < length es" using c(2) by simp
  have hd: "(if first (xs @ e # ys) = Some e then ?n else first (xs @ e # ys)) = first (xs @ ys)"
    using d by (cases xs) auto
  have tl: "(if first (rev (xs @ e # ys)) = Some e then ?b else first (rev (xs @ e # ys))) = first (rev (xs @ ys))"
    using d by (cases ys rule: rev_cases) auto
  let ?F = "\<lambda>i x. if i = e then x\<lparr>h_iterPrev := None, h_iterNext := None\<rparr>
    else if ?b = Some i then x\<lparr>h_iterNext := ?n\<rparr> else if ?n = Some i then x\<lparr>h_iterPrev := ?b\<rparr> else x"
  let ?es = "amap ?F es"
  let ?its = "map (leave_entry e (es ! e)) (t_iterList t)"
  obtain t1 where t1: "t1 = t\<lparr>t_iterList := ?its, t_iterHead := first (xs @ ys), t_iterTail := first (rev (xs @ ys))\<rparr>" by simp
  have "(let t' = t\<lparr>t_iterList := ?its\<rparr>; t' = (if t_iterHead t' = Some e then t'\<lparr>t_iterHead := ?n\<rparr> else t');
      t' = (if t_iterTail t' = Some e then t'\<lparr>t_iterTail := ?b\<rparr> else t') in t') = t1"
    unfolding t1 hd [symmetric] tl [symmetric] h [symmetric] by (cases t) (simp add: Let_def)
  then have "RemoveIterationEntry t e = bind_run (set_opt t1 ?b (\<lambda>p. p\<lparr>h_iterNext := ?n\<rparr>)) (\<lambda>t.
      bind_run (set_opt t ?n (\<lambda>n. n\<lparr>h_iterPrev := ?b\<rparr>)) (\<lambda>t.
        set_entry t e (\<lambda>x. x\<lparr>h_iterPrev := None, h_iterNext := None\<rparr>)))"
    using t e l unfolding RemoveIterationEntry_def Let_def by (simp only: entry_ok bind_run.simps)
  moreover have "t_table t1 = Some (amap (\<lambda>i x. x) es)" using t t1 by (simp add: amap_id)
  ultimately have "RemoveIterationEntry t e = Ret (t1\<lparr>t_table := Some ?es\<rparr>)"
    using bl nl bn e by simp (auto intro!: htable.equality amap_eqI)
  moreover have "same_buckets es ?es" by (simp add: same_buckets_def)
  moreover have "iter_chain ?es (xs @ ys)"
    unfolding iter_chain_def
  proof (rule chain_remove [OF c(1) [unfolded iter_chain_def]])
    fix x assume x: "x \<in> set (xs @ ys)"
    then have "x \<noteq> e" "x < length es" using d c(2) by auto
    then show "h_iterNext (?es ! x) = (if ?b = Some x then ?n else h_iterNext (es ! x))"
      "h_iterPrev (?es ! x) = (if ?n = Some x then ?b else h_iterPrev (es ! x))"
      using bn by auto
  qed
  moreover have "t1\<lparr>t_table := Some ?es\<rparr> = t\<lparr>t_table := Some ?es, t_iterHead := first (xs @ ys),
      t_iterTail := first (rev (xs @ ys)), t_iterList := ?its\<rparr>" unfolding t1 by simp
  ultimately show ?thesis by (intro exI [of _ ?es]) (simp only:)
qed

end
