(* ===== verification/Hash_Bucket.thy ===== *)
theory Hash_Bucket
  imports Hash_Iter
begin

text \<open>
  The buckets and the free list: a new entry behind the head of its bucket or in the slot of an
  empty one, the exchange of two slots, and the removal of an entry.
\<close>

section \<open>The free list\<close>

lemma RemoveFromFreeList_ok:
  assumes t: "t_table t = Some es" and c: "bucket_chain es (fs @ e # gs)" "\<And>i. i \<in> set (fs @ e # gs) \<Longrightarrow> i < length es"
    and h: "t_freeHead t = first (fs @ e # gs)"
  shows "RemoveFromFreeList t e = Ret (t\<lparr>t_table := Some (amap (\<lambda>i x.
      if i = e then x\<lparr>h_bucketPrev := None, h_bucketNext := None\<rparr>
      else if first (rev fs) = Some i then x\<lparr>h_bucketNext := first gs\<rparr>
      else if first gs = Some i then x\<lparr>h_bucketPrev := first (rev fs)\<rparr> else x) es), t_freeHead := first (fs @ gs)\<rparr>)"
proof -
  let ?b = "first (rev fs)" and ?n = "first gs"
  have d: "distinct (fs @ e # gs)" using c(1) by (simp add: bucket_chain_def chain_def)
  have bl: "j < length es \<and> j \<noteq> e" if "?b = Some j" for j using that c(2) d by (auto dest!: first_in_set)
  have nl: "j < length es \<and> j \<noteq> e" if "?n = Some j" for j using that c(2) d by (auto dest!: first_in_set)
  have bn: "?b \<noteq> ?n \<or> ?b = None" using d first_in_set [of "rev fs"] first_in_set [of gs] by (cases ?b) auto
  have l: "h_bucketNext (es ! e) = ?n" "h_bucketPrev (es ! e) = ?b"
    using chain_mid [OF c(1) [unfolded bucket_chain_def]] by simp_all
  have e: "e < length es" using c(2) by simp
  have hd: "(if t_freeHead t = Some e then ?n else t_freeHead t) = first (fs @ gs)"
    using d h by (cases fs) auto
  obtain H where H: "H = first (fs @ gs)" by simp
  note s = amap_start [OF t]
  have "RemoveFromFreeList t e = Ret (t\<lparr>t_table := Some (amap (\<lambda>i x.
      if i = e then (if ?b = Some i then (if ?n = Some i then x\<lparr>h_bucketPrev := ?b\<rparr> else x)\<lparr>h_bucketNext := ?n\<rparr>
        else if ?n = Some i then x\<lparr>h_bucketPrev := ?b\<rparr> else x)\<lparr>h_bucketPrev := None, h_bucketNext := None\<rparr>
      else if ?b = Some i then (if ?n = Some i then x\<lparr>h_bucketPrev := ?b\<rparr> else x)\<lparr>h_bucketNext := ?n\<rparr>
        else if ?n = Some i then x\<lparr>h_bucketPrev := ?b\<rparr> else x) es), t_freeHead := H\<rparr>)"
    using s t e l bl nl hd [folded H] by (cases "t_freeHead t = Some e") (simp_all add: RemoveFromFreeList_def Let_def cong: if_cong)
  also have "\<dots> = Ret (t\<lparr>t_table := Some (amap (\<lambda>i x.
      if i = e then x\<lparr>h_bucketPrev := None, h_bucketNext := None\<rparr>
      else if ?b = Some i then x\<lparr>h_bucketNext := ?n\<rparr>
      else if ?n = Some i then x\<lparr>h_bucketPrev := ?b\<rparr> else x) es), t_freeHead := first (fs @ gs)\<rparr>)"
    unfolding H using bl nl bn by (auto intro!: htable.equality amap_eqI)
  finally show ?thesis .
qed

text \<open>What the iteration and the entries other than \<open>e\<close> keep.\<close>

definition same_others :: "nat \<Rightarrow> ('k, 'v) hentry list \<Rightarrow> ('k, 'v) hentry list \<Rightarrow> bool" where
  "same_others e es es' \<longleftrightarrow> length es' = length es \<and> (\<forall>i<length es. h_iterNext (es' ! i) = h_iterNext (es ! i) \<and>
     h_iterPrev (es' ! i) = h_iterPrev (es ! i) \<and>
     (i \<noteq> e \<longrightarrow> h_hash (es' ! i) = h_hash (es ! i) \<and> h_key (es' ! i) = h_key (es ! i) \<and> h_value (es' ! i) = h_value (es ! i)))"

lemma same_othersD:
  assumes "same_others e es es'"
  shows "length es' = length es" "i < length es \<Longrightarrow> h_iterNext (es' ! i) = h_iterNext (es ! i)"
    "i < length es \<Longrightarrow> h_iterPrev (es' ! i) = h_iterPrev (es ! i)"
    "i < length es \<Longrightarrow> i \<noteq> e \<Longrightarrow> h_hash (es' ! i) = h_hash (es ! i)"
    "i < length es \<Longrightarrow> i \<noteq> e \<Longrightarrow> h_key (es' ! i) = h_key (es ! i)"
    "i < length es \<Longrightarrow> i \<noteq> e \<Longrightarrow> h_value (es' ! i) = h_value (es ! i)"
  using assms by (simp_all add: same_others_def)

lemma same_others_trans: "same_others e es es1 \<Longrightarrow> same_others e es1 es2 \<Longrightarrow> same_others e es es2"
  by (simp add: same_others_def)

lemma iter_chain_same_others:
  "iter_chain es xs \<Longrightarrow> same_others e es es' \<Longrightarrow> (\<And>i. i \<in> set xs \<Longrightarrow> i < length es) \<Longrightarrow> iter_chain es' xs"
  unfolding iter_chain_def by (erule links_cong) (simp add: same_othersD)

text \<open>
  A new entry: the parts of the invariant for the new array. The buckets other than \<open>b\<close> keep their
  members and links.
\<close>

lemma core_new:
  assumes c: "core hash es used free bk" and b: "b < length es" "b = unat h mod length es"
    and h: "h = ComputeHash hash key" "key \<notin> (\<lambda>i. h_key (es ! i)) ` used"
    and e: "e \<in> set free" "set free' = set free - {e}"
    and es': "same_others e es es'" "h_hash (es' ! e) = h" "h_key (es' ! e) = key"
    and m: "maps_ok es'" "\<And>i. i < length es \<Longrightarrow> i \<noteq> b \<Longrightarrow> bk i \<noteq> [] \<Longrightarrow> h_mapTo (es' ! i) = h_mapTo (es ! i)"
    and free': "bucket_chain es' free'"
    and xs: "bucket_chain es' xs" "set xs = insert e (set (bk b))" "h_mapTo (es' ! b) = hd xs"
    and o: "\<And>i. i \<in> used \<Longrightarrow> i \<notin> set (bk b) \<Longrightarrow> h_bucketNext (es' ! i) = h_bucketNext (es ! i) \<and> h_bucketPrev (es' ! i) = h_bucketPrev (es ! i)"
  shows "core hash es' (insert e used) free' (bk(b := xs))"
proof -
  note p = coreD [OF c] and so = same_othersD [OF es'(1)]
  have eu: "e \<notin> used" "e < length es" using e(1) p(10,11) by auto
  have bo: "bucket_of es' i = bucket_of es i" if "i \<in> used" for i
  proof -
    have "i \<noteq> e" using that eu by auto
    then show ?thesis using p(9) [OF that] by (simp add: bucket_of_def so)
  qed
  have be: "bucket_of es' e = b" using es'(2) b(2) so(1) by (simp add: bucket_of_def)
  have "buckets_ok es' (insert e used) (bk(b := xs))"
    unfolding buckets_ok_def
  proof (intro allI impI)
    fix a assume "a < length es'"
    then have a: "a < length es" by (simp add: so)
    note bka = buckets_okD [OF p(5) a] and bkb = buckets_okD(2) [OF p(5) b(1)]
    show "bucket_chain es' ((bk(b := xs)) a) \<and> set ((bk(b := xs)) a) = {i \<in> insert e used. bucket_of es' i = a} \<and>
        ((bk(b := xs)) a \<noteq> [] \<longrightarrow> h_mapTo (es' ! a) = hd ((bk(b := xs)) a))"
    proof (cases "a = b")
      case True
      then show ?thesis using xs be bo bkb by auto
    next
      case False
      have "i \<in> used \<and> i \<notin> set (bk b)" if "i \<in> set (bk a)" for i using that bka(2) bkb False by auto
      then have "bucket_chain es' (bk a)" by (intro bucket_chain_cong [OF bka(1)]) (simp add: o)
      moreover have "set (bk a) = {i \<in> insert e used. bucket_of es' i = a}" using bka(2) be bo False by auto
      ultimately show ?thesis using False bka(3) m(2) [OF a False] by simp
    qed
  qed
  moreover have "inj_on (\<lambda>i. h_key (es' ! i)) (insert e used)"
  proof -
    have "h_key (es' ! i) = h_key (es ! i)" if "i \<in> used" for i
      using that eu(1) p(9) [OF that] so(5) [of i] by metis
    then have "inj_on (\<lambda>i. h_key (es' ! i)) used" "(\<lambda>i. h_key (es' ! i)) ` used = (\<lambda>i. h_key (es ! i)) ` used"
      using p(8) by (auto simp: inj_on_def)
    then show ?thesis using h(2) es'(3) eu(1) by auto
  qed
  moreover have "\<forall>i\<in>set free'. h_hash (es' ! i) = MUSCLE_HASHTABLE_INVALID_HASH_CODE"
    using e(2) p(6,10) so(4) by simp
  moreover have "\<forall>i\<in>insert e used. h_hash (es' ! i) = ComputeHash hash (h_key (es' ! i))"
  proof
    fix i assume "i \<in> insert e used"
    then consider "i = e" | "i \<in> used" "i \<noteq> e" by auto
    then show "h_hash (es' ! i) = ComputeHash hash (h_key (es' ! i))"
      using p(7,9) es'(2,3) h(1) by cases (simp_all add: so)
  qed
  ultimately show ?thesis
    using m(1) free' p(2,3) e eu by (auto simp: core_def so)
qed

section \<open>A new entry\<close>

lemma maps_ok_same:
  assumes "maps_ok es" "length es' = length es"
    "\<And>i. i < length es \<Longrightarrow> h_mapTo (es' ! i) = h_mapTo (es ! i) \<and> h_mappedFrom (es' ! i) = h_mappedFrom (es ! i)"
  shows "maps_ok es'"
proof -
  have "h_mapTo (es ! i) < length es" "h_mappedFrom (es ! i) < length es" if "i < length es" for i
    using assms(1) that by (simp_all add: maps_ok_def)
  then show ?thesis using assms by (simp add: maps_ok_def)
qed

lemma chain_entry_ok:
  assumes t: "t_table t = Some es" and c: "core hash es used (e # gs) bk" and b: "b < length es" "b = unat h mod length es"
    and h: "h = ComputeHash hash key" "key \<notin> (\<lambda>i. h_key (es ! i)) ` used"
    and f: "t_freeHead t = Some e" and bk: "bk b = slot # ys"
  shows "\<exists>es'. chain_entry t slot h key value = Ret (e, t\<lparr>t_table := Some es', t_freeHead := first gs\<rparr>) \<and>
    core hash es' (insert e used) gs (bk(b := slot # e # ys)) \<and> same_others e es es' \<and>
    h_key (es' ! e) = key \<and> h_value (es' ! e) = value"
proof -
  note p = coreD [OF c] and bkb = buckets_okD [OF coreD(5) [OF c] b(1)]
  have d: "distinct (slot # ys)" "distinct (e # gs)" using bkb(1) p(1) bk by (auto simp: bucket_chain_def chain_def)
  have fl: "i \<notin> used" "i < length es" if "i = e \<or> i \<in> set gs" for i using that p(10,11) by auto
  have ul: "i < length es" "i \<noteq> e" "i \<notin> set gs" if "i \<in> used" for i using p(9,11) that by auto
  have sl: "slot \<in> used" "\<And>i. i \<in> set ys \<Longrightarrow> i \<in> used" using bkb(2) bk by auto
  have fg: "j < length es" "j \<noteq> e" "j \<notin> used" if "first gs = Some j" for j
    using first_in_set [OF that] fl [of j] d(2) by auto
  have fy: "j < length es" "j \<noteq> e" "j \<noteq> slot" "j \<in> used" if "first ys = Some j" for j
    using first_in_set [OF that] sl(2) ul d(1) by auto
  have nx: "h_bucketNext (es ! slot) = first ys" "h_bucketPrev (es ! slot) = None"
    using chain_mid [of _ _ "[]" slot ys] bkb(1) bk by (simp_all add: bucket_chain_def)
  let ?F = "\<lambda>i x. if i = e then x\<lparr>h_hash := h, h_key := key, h_value := value, h_bucketPrev := Some slot, h_bucketNext := first ys\<rparr>
    else if i = slot then x\<lparr>h_bucketNext := Some e\<rparr> else if first ys = Some i then x\<lparr>h_bucketPrev := Some e\<rparr>
    else if first gs = Some i then x\<lparr>h_bucketPrev := None\<rparr> else x"
  let ?es = "amap ?F es"
  have sg: "first gs \<noteq> Some slot" "slot \<noteq> e" "slot < length es" "e < length es"
    using fg(3) sl(1) ul(2) [OF sl(1)] ul(1) [OF sl(1)] fl(2) [of e] by auto
  have "RemoveFromFreeList t e = Ret (t\<lparr>t_table := Some (amap (\<lambda>i x.
      if i = e then x\<lparr>h_bucketPrev := None, h_bucketNext := None\<rparr>
      else if first gs = Some i then x\<lparr>h_bucketPrev := None\<rparr> else x) es), t_freeHead := first gs\<rparr>)"
    using RemoveFromFreeList_ok [of t es "[]" e gs] t p(1,10) f by (simp cong: if_cong)
  moreover have "first ys \<noteq> Some slot" "first ys \<noteq> Some e" using fy(2,3) by auto
  ultimately have "chain_entry t slot h key value = Ret (e, t\<lparr>t_freeHead := first gs, t_table := Some ?es\<rparr>)"
    using sg nx f fy(1) by (simp add: chain_entry_def) (auto intro!: htable.equality amap_eqI dest: fy fg)
  moreover have so: "same_others e es ?es" by (simp add: same_others_def)
  moreover have "core hash ?es (insert e used) gs (bk(b := slot # e # ys))"
  proof (rule core_new [OF c b h _ _ so])
    show "maps_ok ?es" using p(4) by (rule maps_ok_same) simp_all
    have "chain (\<lambda>i. h_bucketNext (?es ! i)) (\<lambda>i. h_bucketPrev (?es ! i)) ([] @ gs)"
    proof (rule chain_remove [of "\<lambda>i. h_bucketNext (es ! i)" "\<lambda>i. h_bucketPrev (es ! i)" "[]" e gs])
      show "chain (\<lambda>i. h_bucketNext (es ! i)) (\<lambda>i. h_bucketPrev (es ! i)) ([] @ e # gs)" using p(1) by (simp add: bucket_chain_def)
      fix x assume "x \<in> set ([] @ gs)"
      then have x: "x \<noteq> e" "x \<noteq> slot" "first ys \<noteq> Some x" "x < length es"
        using d(2) sl(1) ul(3) fl(2) fy(4) by (auto dest: first_in_set)
      then show "h_bucketNext (?es ! x) = (if first (rev []) = Some x then first gs else h_bucketNext (es ! x))"
        "h_bucketPrev (?es ! x) = (if first gs = Some x then first (rev []) else h_bucketPrev (es ! x))" by simp_all
    qed
    then show "bucket_chain ?es gs" by (simp add: bucket_chain_def)
    have "chain (\<lambda>i. h_bucketNext (?es ! i)) (\<lambda>i. h_bucketPrev (?es ! i)) ([slot] @ e # ys)"
    proof (rule chain_insert [of "\<lambda>i. h_bucketNext (es ! i)" "\<lambda>i. h_bucketPrev (es ! i)"])
      show "chain (\<lambda>i. h_bucketNext (es ! i)) (\<lambda>i. h_bucketPrev (es ! i)) ([slot] @ ys)" using bkb(1) bk by (simp add: bucket_chain_def)
      show "e \<notin> set ([slot] @ ys)" using sl ul(2) by auto
      show "h_bucketNext (?es ! e) = first ys" "h_bucketPrev (?es ! e) = first (rev [slot])" using sg by simp_all
      fix x assume "x \<in> set ([slot] @ ys)"
      then have x: "x \<noteq> e" "first gs \<noteq> Some x" "x < length es" using sl ul fg(3) by auto
      then show "h_bucketNext (?es ! x) = (if first (rev [slot]) = Some x then Some e else h_bucketNext (es ! x))"
        "h_bucketPrev (?es ! x) = (if first ys = Some x then Some e else h_bucketPrev (es ! x))" using fy(3) by auto
    qed
    then show "bucket_chain ?es (slot # e # ys)" by (simp add: bucket_chain_def)
    show "h_mapTo (?es ! b) = hd (slot # e # ys)" using bkb(3) bk b(1) by auto
    fix i assume i: "i \<in> used" "i \<notin> set (bk b)"
    then have "i \<noteq> e" "i \<noteq> slot" "first ys \<noteq> Some i" "first gs \<noteq> Some i" "i < length es"
      using ul bk fg(3) by (auto dest: first_in_set)
    then show "h_bucketNext (?es ! i) = h_bucketNext (es ! i) \<and> h_bucketPrev (?es ! i) = h_bucketPrev (es ! i)" by simp
  qed (use d(2) bk sg in auto)
  moreover have "h_key (?es ! e) = key" "h_value (?es ! e) = value" using sg by simp_all
  moreover have "t\<lparr>t_freeHead := first gs, t_table := Some ?es\<rparr> = t\<lparr>t_table := Some ?es, t_freeHead := first gs\<rparr>" by simp
  ultimately show ?thesis by (intro exI [of _ ?es]) (simp only:)
qed

lemma head_entry_ok:
  assumes t: "t_table t = Some es" and c: "core hash es used (fs @ e # gs) bk" and b: "b < length es" "b = unat h mod length es"
    and h: "h = ComputeHash hash key" "key \<notin> (\<lambda>i. h_key (es ! i)) ` used"
    and f: "t_freeHead t = first (fs @ e # gs)" and bk: "bk b = []" "h_mapTo (es ! b) = e"
  shows "\<exists>es'. head_entry t e h key value = Ret (e, t\<lparr>t_table := Some es', t_freeHead := first (fs @ gs)\<rparr>) \<and>
    core hash es' (insert e used) (fs @ gs) (bk(b := [e])) \<and> same_others e es es' \<and>
    h_key (es' ! e) = key \<and> h_value (es' ! e) = value"
proof -
  note p = coreD [OF c]
  have d: "distinct (fs @ e # gs)" using p(1) by (auto simp: bucket_chain_def chain_def)
  have fl: "i \<notin> used" "i < length es" if "i = e \<or> i \<in> set (fs @ gs)" for i using that p(10,11) by auto
  let ?b = "first (rev fs)" and ?n = "first gs"
  let ?F = "\<lambda>i x. if i = e then x\<lparr>h_hash := h, h_key := key, h_value := value, h_bucketPrev := None, h_bucketNext := None\<rparr>
    else if ?b = Some i then x\<lparr>h_bucketNext := ?n\<rparr> else if ?n = Some i then x\<lparr>h_bucketPrev := ?b\<rparr> else x"
  let ?es = "amap ?F es"
  have e: "e < length es" using fl(2) by simp
  have bn: "?b \<noteq> Some e" "?n \<noteq> Some e" using d by (auto dest: first_in_set)
  have bn': "?b \<noteq> ?n \<or> ?b = None" using d first_in_set [of "rev fs"] first_in_set [of gs] by (cases ?b) auto
  obtain H where H: "H = first (fs @ gs)" by simp
  have "head_entry t e h key value = Ret (e, t\<lparr>t_freeHead := H, t_table := Some ?es\<rparr>)"
    using RemoveFromFreeList_ok [OF t p(1) _ f] p(10) e bn unfolding H [symmetric]
    by (simp add: head_entry_def) (auto intro!: htable.equality amap_eqI)
  moreover have so: "same_others e es ?es" by (simp add: same_others_def)
  moreover have "core hash ?es (insert e used) (fs @ gs) (bk(b := [e]))"
  proof (rule core_new [OF c b h _ _ so])
    show "maps_ok ?es" using p(4) by (rule maps_ok_same) simp_all
    show "bucket_chain ?es (fs @ gs)"
      unfolding bucket_chain_def
    proof (rule chain_remove [OF p(1) [unfolded bucket_chain_def]])
      fix x assume "x \<in> set (fs @ gs)"
      then have "x \<noteq> e" "x < length es" using d fl(2) by auto
      then show "h_bucketNext (?es ! x) = (if ?b = Some x then ?n else h_bucketNext (es ! x))"
        "h_bucketPrev (?es ! x) = (if ?n = Some x then ?b else h_bucketPrev (es ! x))" using bn' by auto
    qed
    show "bucket_chain ?es [e]" using e by (simp add: bucket_chain_def chain_def)
    show "h_mapTo (?es ! b) = hd [e]" using bk(2) b(1) by auto
    fix i assume i: "i \<in> used" "i \<notin> set (bk b)"
    then have "i \<noteq> e" "?b \<noteq> Some i" "?n \<noteq> Some i" "i < length es"
      using fl(1) p(9) by (auto dest!: first_in_set)
    then show "h_bucketNext (?es ! i) = h_bucketNext (es ! i) \<and> h_bucketPrev (?es ! i) = h_bucketPrev (es ! i)" by simp
  qed (use d bk e in auto)
  moreover have "h_key (?es ! e) = key" "h_value (?es ! e) = value" using e by simp_all
  moreover have "t\<lparr>t_freeHead := H, t_table := Some ?es\<rparr> = t\<lparr>t_table := Some ?es, t_freeHead := first (fs @ gs)\<rparr>"
    using H by simp
  ultimately show ?thesis by (intro exI [of _ ?es]) (simp only:)
qed

definition same_but_maps :: "('k, 'v) hentry list \<Rightarrow> ('k, 'v) hentry list \<Rightarrow> bool" where
  "same_but_maps es es' \<longleftrightarrow> length es' = length es \<and> (\<forall>i<length es. h_hash (es' ! i) = h_hash (es ! i) \<and>
     h_key (es' ! i) = h_key (es ! i) \<and> h_value (es' ! i) = h_value (es ! i) \<and>
     h_bucketNext (es' ! i) = h_bucketNext (es ! i) \<and> h_bucketPrev (es' ! i) = h_bucketPrev (es ! i) \<and>
     h_iterNext (es' ! i) = h_iterNext (es ! i) \<and> h_iterPrev (es' ! i) = h_iterPrev (es ! i))"

lemma same_but_maps_others: "same_but_maps es es' \<Longrightarrow> same_others e es es'"
  by (simp add: same_but_maps_def same_others_def)

lemma core_same_but_maps:
  assumes c: "core hash es used free bk" and s: "same_but_maps es es'" and m: "maps_ok es'"
    and h: "\<And>b. b < length es \<Longrightarrow> bk b \<noteq> [] \<Longrightarrow> h_mapTo (es' ! b) = h_mapTo (es ! b)"
  shows "core hash es' used free bk"
proof -
  note p = coreD [OF c]
  have len: "length es' = length es" using s by (simp add: same_but_maps_def)
  have sd: "h_hash (es' ! i) = h_hash (es ! i) \<and> h_key (es' ! i) = h_key (es ! i) \<and>
    h_bucketNext (es' ! i) = h_bucketNext (es ! i) \<and> h_bucketPrev (es' ! i) = h_bucketPrev (es ! i)" if "i < length es" for i
    using s that by (simp add: same_but_maps_def)
  have f: "bucket_chain es' free" using p(1) by (rule bucket_chain_cong) (simp add: sd p(10))
  have "buckets_ok es' used bk"
    unfolding buckets_ok_def len
  proof (intro allI impI)
    fix b assume b: "b < length es"
    note bk = buckets_okD [OF p(5) b]
    have bo: "bucket_of es' i = bucket_of es i" if "i \<in> used" for i
      using sd [OF p(9) [OF that]] by (simp add: bucket_of_def len)
    have "i < length es" if "i \<in> set (bk b)" for i using that bk(2) p(9) by simp
    then have "bucket_chain es' (bk b)" by (intro bucket_chain_cong [OF bk(1)]) (simp add: sd)
    moreover have "set (bk b) = {i\<in>used. bucket_of es' i = b}" unfolding bk(2) using bo by auto
    ultimately show "bucket_chain es' (bk b) \<and> set (bk b) = {i\<in>used. bucket_of es' i = b} \<and>
        (bk b \<noteq> [] \<longrightarrow> h_mapTo (es' ! b) = hd (bk b))" using bk(3) h [OF b] by simp
  qed
  moreover have "inj_on (\<lambda>i. h_key (es' ! i)) used = inj_on (\<lambda>i. h_key (es ! i)) used"
    using p(9) by (intro inj_on_cong) (simp add: sd)
  ultimately show ?thesis using p(2,3,6-8) f m p(9,10) by (simp add: core_def sd len)
qed

text \<open>The exchange of two slots: nothing else changes than the permutation.\<close>

lemma SwapMaps_ok:
  assumes t: "t_table t = Some es" and m: "maps_ok es" and ac: "a < length es" "c < length es" "a \<noteq> c"
  shows "\<exists>es'. SwapMaps t a c = Ret (t\<lparr>t_table := Some es'\<rparr>) \<and> maps_ok es' \<and> length es' = length es \<and>
    same_but_maps es es' \<and>
    h_mapTo (es' ! a) = h_mapTo (es ! c) \<and> h_mapTo (es' ! c) = h_mapTo (es ! a) \<and>
    (\<forall>i<length es. i \<noteq> a \<longrightarrow> i \<noteq> c \<longrightarrow> h_mapTo (es' ! i) = h_mapTo (es ! i))"
proof -
  let ?A = "h_mapTo (es ! a)" and ?C = "h_mapTo (es ! c)"
  have m': "h_mapTo (es ! i) < length es" "h_mappedFrom (es ! i) < length es"
    "h_mappedFrom (es ! h_mapTo (es ! i)) = i" "h_mapTo (es ! h_mappedFrom (es ! i)) = i" if "i < length es" for i
    using m that by (simp_all add: maps_ok_def)
  have AC: "?A \<noteq> ?C" "?A < length es" "?C < length es" using mapTo_inj [OF m _ ac(1,2)] ac m'(1) by auto
  let ?F = "\<lambda>i x. x\<lparr>h_mapTo := (if i = a then ?C else if i = c then ?A else h_mapTo x),
    h_mappedFrom := (if i = ?A then c else if i = ?C then a else h_mappedFrom x)\<rparr>"
  let ?es = "amap ?F es"
  have "SwapMaps t a c = Ret (t\<lparr>t_table := Some (amap (\<lambda>i x. if i = ?A
      then (if i = ?C then (if i = a then (if i = c then x\<lparr>h_mapTo := ?A\<rparr> else x)\<lparr>h_mapTo := ?C\<rparr> else if i = c then x\<lparr>h_mapTo := ?A\<rparr> else x)
        \<lparr>h_mappedFrom := a\<rparr> else if i = a then (if i = c then x\<lparr>h_mapTo := ?A\<rparr> else x)\<lparr>h_mapTo := ?C\<rparr> else if i = c then x\<lparr>h_mapTo := ?A\<rparr> else x)
        \<lparr>h_mappedFrom := c\<rparr>
      else if i = ?C then (if i = a then (if i = c then x\<lparr>h_mapTo := ?A\<rparr> else x)\<lparr>h_mapTo := ?C\<rparr> else if i = c then x\<lparr>h_mapTo := ?A\<rparr> else x)
        \<lparr>h_mappedFrom := a\<rparr> else if i = a then (if i = c then x\<lparr>h_mapTo := ?A\<rparr> else x)\<lparr>h_mapTo := ?C\<rparr> else if i = c then x\<lparr>h_mapTo := ?A\<rparr> else x) es)\<rparr>)"
    using t ac AC by (simp add: SwapMaps_def set_entry_ok)
  also have "\<dots> = Ret (t\<lparr>t_table := Some ?es\<rparr>)"
    using ac(3) AC(1) by (auto intro!: htable.equality amap_eqI)
  finally have run: "SwapMaps t a c = Ret (t\<lparr>t_table := Some ?es\<rparr>)" .
  have "maps_ok ?es"
  proof -
    have from_ne: "h_mappedFrom (es ! i) \<noteq> a" "h_mappedFrom (es ! i) \<noteq> c" if "i < length es" "i \<noteq> ?A" "i \<noteq> ?C" for i
      using that m'(4) [OF that(1)] by auto
    have to_ne: "h_mapTo (es ! i) \<noteq> ?A" "h_mapTo (es ! i) \<noteq> ?C" if "i < length es" "i \<noteq> a" "i \<noteq> c" for i
      using that mapTo_inj [OF m _ that(1)] ac by auto
    have to_from: "h_mappedFrom (?es ! h_mapTo (?es ! i)) = i \<and> h_mapTo (?es ! i) < length es" if i: "i < length es" for i
    proof -
      consider "i = a" | "i = c" "i \<noteq> a" | "i \<noteq> a" "i \<noteq> c" by blast
      then show ?thesis using i AC ac m'(1,3) [OF i] to_ne [OF i] by cases simp_all
    qed
    have from_to: "h_mapTo (?es ! h_mappedFrom (?es ! i)) = i \<and> h_mappedFrom (?es ! i) < length es" if i: "i < length es" for i
    proof -
      consider "i = ?A" | "i = ?C" "i \<noteq> ?A" | "i \<noteq> ?A" "i \<noteq> ?C" by blast
      then show ?thesis using i AC ac m'(2,4) [OF i] from_ne [OF i] by cases simp_all
    qed
    show ?thesis unfolding maps_ok_def length_amap using to_from from_to by blast
  qed
  moreover have "same_but_maps es ?es" by (simp add: same_but_maps_def)
  ultimately show ?thesis using run ac by (intro exI [of _ ?es]) auto
qed

lemma clear_slot_ok:
  assumes t: "t_table t = Some es" and c: "core hash es used free bk" and b: "b < length es" "bk b = []"
    and f: "free \<noteq> []" "t_freeHead t = first free"
  shows "\<exists>e es'. clear_slot t (h_mapTo (es ! b)) = Ret (e, t\<lparr>t_table := Some es'\<rparr>) \<and>
    core hash es' used free bk \<and> e \<in> set free \<and> h_mapTo (es' ! b) = e \<and> same_but_maps es es'"
proof -
  note p = coreD [OF c]
  let ?s = "h_mapTo (es ! b)"
  have m': "h_mapTo (es ! i) < length es" "h_mappedFrom (es ! i) < length es"
    "h_mappedFrom (es ! h_mapTo (es ! i)) = i" "h_mapTo (es ! h_mappedFrom (es ! i)) = i" if "i < length es" for i
    using p(4) that by (simp_all add: maps_ok_def)
  have s: "?s < length es" by (rule m'(1) [OF b(1)])
  show ?thesis
  proof (cases "?s \<in> used")
    case True
    obtain x xs where x: "free = x # xs" using f(1) by (cases free) auto
    then have xf: "x < length es" "x \<notin> used" using p(10,11) [of x] by auto
    let ?c = "h_mappedFrom (es ! x)"
    have cx: "?c < length es" "h_mapTo (es ! ?c) = x" using m'(2,4) [OF xf(1)] by simp_all
    have bc: "b \<noteq> ?c" using True cx(2) xf(2) by auto
    have "bk ?c = []"
    proof (rule ccontr)
      assume ne: "bk ?c \<noteq> []"
      then have "x \<in> set (bk ?c)" using buckets_okD(3) [OF p(5) cx(1) ne] cx(2) hd_in_set by metis
      then show False using buckets_okD(2) [OF p(5) cx(1)] xf(2) by simp
    qed
    obtain es' where es': "SwapMaps t b ?c = Ret (t\<lparr>t_table := Some es'\<rparr>)" "maps_ok es'" "same_but_maps es es'"
      "h_mapTo (es' ! b) = h_mapTo (es ! ?c)" "\<forall>i<length es. i \<noteq> b \<longrightarrow> i \<noteq> ?c \<longrightarrow> h_mapTo (es' ! i) = h_mapTo (es ! i)"
      using SwapMaps_ok [OF t p(4) b(1) cx(1) bc] by blast
    have "core hash es' used free bk"
      using es'(5) b(2) \<open>bk ?c = []\<close> by (intro core_same_but_maps [OF c es'(3,2)]) metis
    moreover have "h_hash (es ! ?s) \<noteq> MUSCLE_HASHTABLE_INVALID_HASH_CODE" using p(7) [OF True] by simp
    then have "clear_slot t ?s = Ret (x, t\<lparr>t_table := Some es'\<rparr>)"
      using t s xf(1) f(2) x m'(3) [OF b(1)] es'(1) by (simp add: clear_slot_def)
    ultimately show ?thesis using es'(3,4) cx(2) x by (intro exI [of _ x] exI [of _ es']) simp
  next
    case False
    then have sf: "?s \<in> set free" using p(3) s by auto
    then have "clear_slot t ?s = Ret (?s, t\<lparr>t_table := Some es\<rparr>)"
      using t s p(6) by (simp add: clear_slot_def t_table_same)
    moreover have "same_but_maps es es" by (simp add: same_but_maps_def)
    ultimately show ?thesis using c sf by blast
  qed
qed

lemma new_entry_ok:
  assumes t: "t_table t = Some es" "length es = unat (t_tableSize t)" "t_tableSize t \<noteq> 0"
    and c: "core hash es used free bk" and h: "h = ComputeHash hash key" "key \<notin> (\<lambda>i. h_key (es ! i)) ` used"
    and f: "free \<noteq> []" "t_freeHead t = first free"
  shows "\<exists>e es' free' bk'. new_entry t h key value = Ret (e, t\<lparr>t_table := Some es', t_freeHead := first free'\<rparr>) \<and>
    core hash es' (insert e used) free' bk' \<and> e \<in> set free \<and> same_others e es es' \<and>
    h_key (es' ! e) = key \<and> h_value (es' ! e) = value"
proof -
  let ?b = "unat h mod length es"
  have "0 < length es" using t(2,3) by (simp add: unat_gt_0)
  then have b: "?b < length es" by simp
  note p = coreD [OF c]
  show ?thesis
  proof (cases "bk ?b")
    case (Cons slot ys)
    obtain e gs where f': "free = e # gs" using f(1) by (cases free) auto
    have "h_mapTo (es ! ?b) = slot" using buckets_okD(3) [OF p(5) b] Cons by simp
    then have "new_entry t h key value = chain_entry t slot h key value"
      using IsBucketHead_ok [OF t c b] Cons by (simp add: new_entry_def bucket_ok [OF t])
    then show ?thesis
      using chain_entry_ok [of t es hash used e gs bk ?b h key slot ys "value"] t(1) c b h Cons f(2) f' by auto
  next
    case Nil
    obtain e es1 where e: "clear_slot t (h_mapTo (es ! ?b)) = Ret (e, t\<lparr>t_table := Some es1\<rparr>)" "core hash es1 used free bk"
      "e \<in> set free" "h_mapTo (es1 ! ?b) = e" "same_but_maps es es1"
      using clear_slot_ok [OF t(1) c b Nil f] by blast
    have len: "length es1 = length es" using e(5) by (simp add: same_but_maps_def)
    obtain fs gs where fg: "free = fs @ e # gs" using e(3) by (meson split_list)
    have "h_key (es1 ! i) = h_key (es ! i)" if "i \<in> used" for i using e(5) p(9) [OF that] by (simp add: same_but_maps_def)
    then have k: "key \<notin> (\<lambda>i. h_key (es1 ! i)) ` used" using h(2) by auto
    let ?t = "t\<lparr>t_table := Some es1\<rparr>"
    obtain es2 where es2: "head_entry ?t e h key value = Ret (e, ?t\<lparr>t_table := Some es2, t_freeHead := first (fs @ gs)\<rparr>)"
      "core hash es2 (insert e used) (fs @ gs) (bk(?b := [e]))" "same_others e es1 es2" "h_key (es2 ! e) = key" "h_value (es2 ! e) = value"
      using head_entry_ok [of ?t es1 hash used fs e gs bk ?b h key "value"] e(2,4) b len h(1) k f(2) Nil fg by auto
    have "new_entry t h key value = head_entry ?t e h key value"
      using IsBucketHead_ok [OF t c b] Nil e(1) by (simp add: new_entry_def bucket_ok [OF t])
    moreover have "same_others e es es2"
      using same_but_maps_others [OF e(5)] es2(3) by (rule same_others_trans)
    ultimately show ?thesis using es2(1,2,4,5) e(3)
      by (intro exI [of _ e] exI [of _ es2] exI [of _ "fs @ gs"] exI [of _ "bk(?b := [e])"]) simp
  qed
qed

end
