(* ===== verification/Hash_Release.thy ===== *)
theory Hash_Release
  imports Hash_Bucket
begin

text \<open>The removal of an entry: out of its bucket and back to the free list.\<close>

section \<open>Out of the bucket\<close>

text \<open>
  Between the two steps the entry is in neither list: the invariant without it. The buckets have
  the members of \<open>used\<close> without \<open>e\<close>.
\<close>

definition core_without :: "('k \<Rightarrow> u32) \<Rightarrow> nat \<Rightarrow> ('k, 'v) hentry list \<Rightarrow> nat set \<Rightarrow> nat list \<Rightarrow> (nat \<Rightarrow> nat list) \<Rightarrow> bool" where
  "core_without hash e es used free bk \<longleftrightarrow>
     bucket_chain es free \<and> used \<inter> set free = {} \<and> used \<union> set free = {..<length es} - {e} \<and> e < length es \<and>
     maps_ok es \<and> buckets_ok es used bk \<and>
     (\<forall>i\<in>set free. h_hash (es ! i) = MUSCLE_HASHTABLE_INVALID_HASH_CODE) \<and>
     (\<forall>i\<in>used. h_hash (es ! i) = ComputeHash hash (h_key (es ! i))) \<and> inj_on (\<lambda>i. h_key (es ! i)) used"

text \<open>The entries other than \<open>e\<close> keep their place in the iteration and what they hold.\<close>

definition others_kept :: "nat \<Rightarrow> ('k, 'v) hentry list \<Rightarrow> ('k, 'v) hentry list \<Rightarrow> bool" where
  "others_kept e es es' \<longleftrightarrow> length es' = length es \<and> (\<forall>i<length es. i \<noteq> e \<longrightarrow> h_iterNext (es' ! i) = h_iterNext (es ! i) \<and>
     h_iterPrev (es' ! i) = h_iterPrev (es ! i) \<and> h_hash (es' ! i) = h_hash (es ! i) \<and>
     h_key (es' ! i) = h_key (es ! i) \<and> h_value (es' ! i) = h_value (es ! i))"

lemma others_keptD:
  assumes "others_kept e es es'"
  shows "length es' = length es" "i < length es \<Longrightarrow> i \<noteq> e \<Longrightarrow> h_iterNext (es' ! i) = h_iterNext (es ! i)"
    "i < length es \<Longrightarrow> i \<noteq> e \<Longrightarrow> h_iterPrev (es' ! i) = h_iterPrev (es ! i)"
    "i < length es \<Longrightarrow> i \<noteq> e \<Longrightarrow> h_hash (es' ! i) = h_hash (es ! i)"
    "i < length es \<Longrightarrow> i \<noteq> e \<Longrightarrow> h_key (es' ! i) = h_key (es ! i)"
    "i < length es \<Longrightarrow> i \<noteq> e \<Longrightarrow> h_value (es' ! i) = h_value (es ! i)"
  using assms by (simp_all add: others_kept_def)

lemma others_kept_trans: "others_kept e es es1 \<Longrightarrow> others_kept e es1 es2 \<Longrightarrow> others_kept e es es2"
  by (simp add: others_kept_def)

lemma core_without_bucket:
  assumes c: "core hash es used free bk" and e: "e \<in> used" and k: "others_kept e es es'" and m: "maps_ok es'"
    and b: "b = bucket_of es e" and xs: "bucket_chain es' xs" "set xs = set (bk b) - {e}" "xs \<noteq> [] \<Longrightarrow> h_mapTo (es' ! b) = hd xs"
    and h: "\<And>i. i < length es \<Longrightarrow> i \<noteq> b \<Longrightarrow> bk i \<noteq> [] \<Longrightarrow> h_mapTo (es' ! i) = h_mapTo (es ! i)"
    and o: "\<And>i. i < length es \<Longrightarrow> i \<notin> set (bk b) \<Longrightarrow> h_bucketNext (es' ! i) = h_bucketNext (es ! i) \<and> h_bucketPrev (es' ! i) = h_bucketPrev (es ! i)"
  shows "core_without hash e es' (used - {e}) free (bk(b := xs))"
proof -
  note p = coreD [OF c] and kd = others_keptD [OF k]
  have el: "e < length es" using p(9) e by simp
  then have bl: "b < length es" using b by (simp add: bucket_of_def) (metis gr_implies_not0 mod_less_divisor not_gr_zero)
  note bkb = buckets_okD(2) [OF p(5) bl]
  have bo: "bucket_of es' i = bucket_of es i" if "i \<in> used" "i \<noteq> e" for i
    using kd(4) [OF p(9) [OF that(1)] that(2)] by (simp add: bucket_of_def kd(1))
  have "buckets_ok es' (used - {e}) (bk(b := xs))"
    unfolding buckets_ok_def kd(1)
  proof (intro allI impI)
    fix a assume a: "a < length es"
    note bka = buckets_okD [OF p(5) a]
    show "bucket_chain es' ((bk(b := xs)) a) \<and> set ((bk(b := xs)) a) = {i \<in> used - {e}. bucket_of es' i = a} \<and>
        ((bk(b := xs)) a \<noteq> [] \<longrightarrow> h_mapTo (es' ! a) = hd ((bk(b := xs)) a))"
    proof (cases "a = b")
      case True
      then show ?thesis using xs bo bkb by auto
    next
      case False
      have "i < length es \<and> i \<notin> set (bk b)" if "i \<in> set (bk a)" for i using that bka(2) bkb False p(9) by auto
      then have "bucket_chain es' (bk a)" by (intro bucket_chain_cong [OF bka(1)]) (simp add: o)
      moreover have "set (bk a) = {i \<in> used - {e}. bucket_of es' i = a}" using bka(2) b bo False by auto
      ultimately show ?thesis using False bka(3) h [OF a False] by simp
    qed
  qed
  moreover have "bucket_chain es' free"
  proof (rule bucket_chain_cong [OF p(1)])
    fix i assume i: "i \<in> set free"
    then have "i \<notin> set (bk b)" using p(11) bkb by auto
    then show "h_bucketNext (es' ! i) = h_bucketNext (es ! i) \<and> h_bucketPrev (es' ! i) = h_bucketPrev (es ! i)"
      by (rule o [OF p(10) [OF i]])
  qed
  moreover have "inj_on (\<lambda>i. h_key (es' ! i)) (used - {e}) = inj_on (\<lambda>i. h_key (es ! i)) (used - {e})"
    using p(9) by (intro inj_on_cong) (simp add: kd)
  moreover have "inj_on (\<lambda>i. h_key (es ! i)) (used - {e})" using p(8) by (rule inj_on_subset) simp
  moreover have "i \<noteq> e" "i < length es" if "i \<in> set free" for i using that p(10,11) e by auto
  ultimately show ?thesis
    using p(2,3,6,7,9) el m e by (auto simp: core_without_def kd)
qed

lemma unlink_entry_ok:
  assumes t: "t_table t = Some es" and c: "core hash es used free bk" and e: "e \<in> used"
  shows "\<exists>es' bk'. unlink_entry t e (es ! e) = Ret (t\<lparr>t_table := Some es'\<rparr>) \<and>
    core_without hash e es' (used - {e}) free bk' \<and> others_kept e es es'"
proof -
  note p = coreD [OF c]
  let ?b = "bucket_of es e"
  have el: "e < length es" using p(9) e by simp
  then have "0 < length es" by linarith
  then have bl: "?b < length es" by (simp add: bucket_of_def)
  note bkb = buckets_okD [OF p(5) bl]
  obtain xs ys where s: "bk ?b = xs @ e # ys" using bkb(2) e by (metis (mono_tags, lifting) mem_Collect_eq split_list)
  have ch: "chain (\<lambda>i. h_bucketNext (es ! i)) (\<lambda>i. h_bucketPrev (es ! i)) (xs @ e # ys)"
    using bkb(1) s by (simp add: bucket_chain_def)
  note l = chain_mid [OF ch]
  have d: "distinct (xs @ e # ys)" using ch by (simp add: chain_def)
  have mem: "i \<in> used" "i < length es" "bucket_of es i = ?b" if "i \<in> set (xs @ e # ys)" for i
    using that bkb(2) s p(9) by auto
  have st: "set (xs @ ys) = set (bk ?b) - {e}" using d s by auto
  note cw = core_without_bucket [OF c e _ _ refl]
  consider "xs \<noteq> []" | n zs where "xs = []" "ys = n # zs" | "xs = []" "ys = []" by (cases xs; cases ys) auto
  then show ?thesis
  proof cases
    case 1
    let ?q = "last xs" and ?n = "first ys"
    have q: "first (rev xs) = Some ?q" using 1 by (cases xs rule: rev_cases) simp_all
    have "?q \<in> set xs" "set xs \<inter> set ys = {}" using 1 d by auto
    then have "?q \<notin> set ys" by blast
    then have qm: "?q \<in> set (xs @ e # ys)" "?q \<noteq> e" "?n \<noteq> Some ?q"
      using \<open>?q \<in> set xs\<close> d first_in_set [of ys ?q] by auto
    have nl: "j < length es" if "?n = Some j" for j using mem(2) [of j] first_in_set [OF that] by simp
    let ?es = "amap (\<lambda>i x. if i = ?q then x\<lparr>h_bucketNext := ?n\<rparr> else if ?n = Some i then x\<lparr>h_bucketPrev := Some ?q\<rparr> else x) es"
    have "unlink_entry t e (es ! e) = Ret (t\<lparr>t_table := Some ?es\<rparr>)"
      using t l q nl mem(2) [OF qm(1)] qm(3) by (simp add: unlink_entry_def set_entry_ok) (auto intro!: htable.equality amap_eqI)
    moreover have k: "others_kept e es ?es" by (simp add: others_kept_def)
    moreover have "core_without hash e ?es (used - {e}) free (bk(?b := xs @ ys))"
    proof (rule cw [OF k])
      show "maps_ok ?es" using p(4) by (rule maps_ok_same) simp_all
      show "bucket_chain ?es (xs @ ys)"
        unfolding bucket_chain_def
      proof (rule chain_remove [OF ch])
        fix x assume "x \<in> set (xs @ ys)"
        then have "x < length es" using mem(2) by simp
        then show "h_bucketNext (?es ! x) = (if first (rev xs) = Some x then ?n else h_bucketNext (es ! x))"
          "h_bucketPrev (?es ! x) = (if ?n = Some x then first (rev xs) else h_bucketPrev (es ! x))"
          using q qm(3) by auto
      qed
      show "h_mapTo (?es ! ?b) = hd (xs @ ys)" using bkb(3) s 1 bl by (cases xs) auto
      fix i assume i: "i < length es" "i \<notin> set (bk ?b)"
      then have "i \<noteq> ?q" "?n \<noteq> Some i" using s qm(1) by (auto dest: first_in_set)
      then show "h_bucketNext (?es ! i) = h_bucketNext (es ! i) \<and> h_bucketPrev (?es ! i) = h_bucketPrev (es ! i)"
        using i(1) by simp
    qed (use st in auto)
    ultimately show ?thesis by blast
  next
    case 2
    let ?es1 = "amap (\<lambda>i x. if i = n then x\<lparr>h_bucketPrev := None\<rparr> else x) es" and ?c = "h_mappedFrom (es ! n)"
    have n: "n \<in> set (xs @ e # ys)" "n \<noteq> e" using 2 d by auto
    have m': "h_mappedFrom (es ! i) < length es" "h_mappedFrom (es ! h_mapTo (es ! i)) = i" "h_mapTo (es ! h_mappedFrom (es ! i)) = i"
      if "i < length es" for i using p(4) that by (simp_all add: maps_ok_def)
    have be: "h_mapTo (es ! ?b) = e" using bkb(3) s 2 by simp
    then have eb: "h_mappedFrom (es ! e) = ?b" using m'(2) [OF bl] by simp
    note cn = m'(1,3) [OF mem(2) [OF n(1)]]
    have bc: "?b \<noteq> ?c" using be cn(2) n(2) by auto
    have "bk ?c = []"
    proof (rule ccontr)
      assume ne: "bk ?c \<noteq> []"
      then have "n \<in> set (bk ?c)" using buckets_okD(3) [OF p(5) cn(1) ne] cn(2) hd_in_set by metis
      then have "bucket_of es n = ?c" using buckets_okD(2) [OF p(5) cn(1)] by simp
      then show False using mem(3) [OF n(1)] bc by simp
    qed
    have m1: "maps_ok ?es1" using p(4) by (rule maps_ok_same) simp_all
    have t1: "t_table (t\<lparr>t_table := Some ?es1\<rparr>) = Some ?es1" by simp
    obtain es' where es': "SwapMaps (t\<lparr>t_table := Some ?es1\<rparr>) ?b ?c = Ret (t\<lparr>t_table := Some es'\<rparr>)" "maps_ok es'"
      "same_but_maps ?es1 es'" "h_mapTo (es' ! ?b) = h_mapTo (?es1 ! ?c)"
      "\<forall>i<length es. i \<noteq> ?b \<longrightarrow> i \<noteq> ?c \<longrightarrow> h_mapTo (es' ! i) = h_mapTo (?es1 ! i)"
      using SwapMaps_ok [OF t1 m1 _ _ bc] bl cn(1) by auto
    have "unlink_entry t e (es ! e) = Ret (t\<lparr>t_table := Some es'\<rparr>)"
      using t l 2 mem(2) [OF n(1)] eb es'(1) by (simp add: unlink_entry_def set_entry_ok)
    moreover have same: "h_bucketNext (es' ! i) = h_bucketNext (?es1 ! i) \<and> h_bucketPrev (es' ! i) = h_bucketPrev (?es1 ! i)"
      if "i < length es" for i using es'(3) that by (simp add: same_but_maps_def)
    moreover have k: "others_kept e es es'" using es'(3) by (simp add: others_kept_def same_but_maps_def)
    moreover have "core_without hash e es' (used - {e}) free (bk(?b := ys))"
    proof (rule cw [OF k es'(2)])
      have "chain (\<lambda>i. h_bucketNext (es' ! i)) (\<lambda>i. h_bucketPrev (es' ! i)) ([] @ ys)"
      proof (rule chain_remove [of "\<lambda>i. h_bucketNext (es ! i)" "\<lambda>i. h_bucketPrev (es ! i)" "[]" e])
        fix x assume "x \<in> set ([] @ ys)"
        then have "x < length es" using mem(2) by simp
        then show "h_bucketNext (es' ! x) = (if first (rev []) = Some x then first ys else h_bucketNext (es ! x))"
          "h_bucketPrev (es' ! x) = (if first ys = Some x then first (rev []) else h_bucketPrev (es ! x))"
          using same 2 by auto
      qed (use ch 2 in simp)
      then show "bucket_chain es' ys" by (simp add: bucket_chain_def)
      show "h_mapTo (es' ! ?b) = hd ys" using es'(4) cn 2 by (auto split: if_splits)
      fix i assume i: "i < length es"
      show "h_mapTo (es' ! i) = h_mapTo (es ! i)" if "i \<noteq> ?b" "bk i \<noteq> []"
      proof -
        have "i \<noteq> ?c" using that(2) \<open>bk ?c = []\<close> by auto
        then show ?thesis using es'(5) i that(1) by simp
      qed
      show "h_bucketNext (es' ! i) = h_bucketNext (es ! i) \<and> h_bucketPrev (es' ! i) = h_bucketPrev (es ! i)" if "i \<notin> set (bk ?b)"
      proof -
        have "i \<noteq> n" using that s 2 by auto
        then show ?thesis using same [OF i] i by simp
      qed
    qed (use st 2 in auto)
    ultimately show ?thesis by blast
  next
    case 3
    have k: "others_kept e es es" by (simp add: others_kept_def)
    have "unlink_entry t e (es ! e) = Ret (t\<lparr>t_table := Some es\<rparr>)"
      using t l 3 by (simp add: unlink_entry_def t_table_same)
    moreover have "core_without hash e es (used - {e}) free (bk(?b := []))"
      by (rule cw [OF k p(4)]) (use s 3 in \<open>auto simp: bucket_chain_def\<close>)
    ultimately show ?thesis using k by blast
  qed
qed

section \<open>Back to the free list\<close>

lemma ReturnToFreeList_ok:
  assumes t: "t_table t = Some es" and c: "core_without hash e es used free bk" and f: "t_freeHead t = first free"
  shows "\<exists>es'. ReturnToFreeList t e = Ret (t\<lparr>t_table := Some es', t_freeHead := Some e\<rparr>) \<and>
    core hash es' used (e # free) bk \<and> others_kept e es es'"
proof -
  have p: "bucket_chain es free" "used \<inter> set free = {}" "used \<union> set free = {..<length es} - {e}" "e < length es" "maps_ok es"
    "buckets_ok es used bk" "\<And>i. i \<in> set free \<Longrightarrow> h_hash (es ! i) = MUSCLE_HASHTABLE_INVALID_HASH_CODE"
    "\<And>i. i \<in> used \<Longrightarrow> h_hash (es ! i) = ComputeHash hash (h_key (es ! i))" "inj_on (\<lambda>i. h_key (es ! i)) used"
    using c by (simp_all add: core_without_def)
  have ne: "i < length es" "i \<noteq> e" if "i \<in> used \<or> i \<in> set free" for i using p(3) that by auto
  have nf: "first free \<noteq> Some e" "\<And>j. first free = Some j \<Longrightarrow> j < length es \<and> j \<notin> used"
    using ne p(2) by (auto dest!: first_in_set)
  let ?es = "amap (\<lambda>i x. if i = e then x\<lparr>h_hash := MUSCLE_HASHTABLE_INVALID_HASH_CODE, h_key := default, h_value := default,
       h_iterPrev := None, h_iterNext := None, h_bucketPrev := None, h_bucketNext := first free\<rparr>
    else if first free = Some i then x\<lparr>h_bucketPrev := Some e\<rparr> else x) es"
  have run: "ReturnToFreeList t e = Ret (t\<lparr>t_table := Some ?es, t_freeHead := Some e\<rparr>)"
    using t p(4) f nf by (simp add: ReturnToFreeList_def set_entry_ok) (auto intro!: htable.equality amap_eqI)
  have k: "others_kept e es ?es" by (simp add: others_kept_def)
  note kd = others_keptD [OF k]
  have "chain (\<lambda>i. h_bucketNext (?es ! i)) (\<lambda>i. h_bucketPrev (?es ! i)) ([] @ e # free)"
  proof (rule chain_insert [of "\<lambda>i. h_bucketNext (es ! i)" "\<lambda>i. h_bucketPrev (es ! i)"])
    show "chain (\<lambda>i. h_bucketNext (es ! i)) (\<lambda>i. h_bucketPrev (es ! i)) ([] @ free)" using p(1) by (simp add: bucket_chain_def)
    fix x assume "x \<in> set ([] @ free)"
    then have "x \<noteq> e" "x < length es" using ne by auto
    then show "h_bucketNext (?es ! x) = (if first (rev []) = Some x then Some e else h_bucketNext (es ! x))"
      "h_bucketPrev (?es ! x) = (if first free = Some x then Some e else h_bucketPrev (es ! x))" by simp_all
  qed (use p(4) ne in auto)
  then have "bucket_chain ?es (e # free)" by (simp add: bucket_chain_def)
  moreover have "maps_ok ?es" using p(5) by (rule maps_ok_same) simp_all
  moreover have "buckets_ok ?es used bk"
    unfolding buckets_ok_def length_amap
  proof (intro allI impI)
    fix b assume b: "b < length es"
    note bk = buckets_okD [OF p(6) b]
    have u: "i < length es \<and> i \<noteq> e \<and> first free \<noteq> Some i" if "i \<in> used" for i using ne [of i] nf(2) [of i] that by auto
    have "bucket_chain ?es (bk b)" by (rule bucket_chain_cong [OF bk(1)]) (use bk(2) u in auto)
    moreover have "bucket_of ?es i = bucket_of es i" if "i \<in> used" for i using u [OF that] by (simp add: bucket_of_def)
    then have "set (bk b) = {i \<in> used. bucket_of ?es i = b}" unfolding bk(2) by auto
    ultimately show "bucket_chain ?es (bk b) \<and> set (bk b) = {i \<in> used. bucket_of ?es i = b} \<and>
        (bk b \<noteq> [] \<longrightarrow> h_mapTo (?es ! b) = hd (bk b))" using bk(3) b by auto
  qed
  moreover have "inj_on (\<lambda>i. h_key (?es ! i)) used = inj_on (\<lambda>i. h_key (es ! i)) used"
    using ne by (intro inj_on_cong) (simp add: kd)
  moreover have "\<forall>i\<in>set (e # free). h_hash (?es ! i) = MUSCLE_HASHTABLE_INVALID_HASH_CODE"
    using p(4,7) ne by simp
  moreover have "\<forall>i\<in>used. h_hash (?es ! i) = ComputeHash hash (h_key (?es ! i))" using p(8) ne by (simp add: kd)
  moreover have "used \<inter> set (e # free) = {}" "used \<union> set (e # free) = {..<length ?es}"
    using p(2-4) ne by auto
  ultimately have "core hash ?es used (e # free) bk" using p(9) unfolding core_def by blast
  then show ?thesis using run k by blast
qed

end
