(* ===== verification/Hash_Ops.thy ===== *)
theory Hash_Ops
  imports Hash_Release
begin

text \<open>
  The operations of the table as operations on the list of its items and on the positions of its
  iterators: looking up, removing, and the entry that \<open>Put\<close> adds.
\<close>

section \<open>Looking up\<close>

lemma table_okD:
  assumes "table_ok hash t ord"
  shows "unat (t_count t) = length ord" "t_iterHead t = first ord" "t_iterTail t = first (rev ord)" "keys_ok t" "t_tableSize t \<noteq> 0"
    "iters_ok ord (t_iterList t)" "t_table t = None \<Longrightarrow> ord = []" "t_table t = Some es \<Longrightarrow> length es = unat (t_tableSize t)"
    "t_table t = Some es \<Longrightarrow> \<exists>free bk. layout hash es ord free bk \<and> t_freeHead t = first free"
  using assms by (simp_all add: table_ok_def heads_ok_def)

lemma layoutE:
  assumes "layout hash es ord free bk"
  shows "iter_chain es ord" "core hash es (set ord) free bk" "distinct ord" "\<And>i. i \<in> set ord \<Longrightarrow> i < length es"
  using assms layoutD(1,3) [OF assms] by (simp_all add: layout_def)

definition find_index :: "('k, 'v) htable \<Rightarrow> nat list \<Rightarrow> 'k \<Rightarrow> ptr" where
  "find_index t ord key = (case t_table t of None \<Rightarrow> None | Some es \<Rightarrow> key_index es ord key)"

lemma find_key_ok:
  assumes "table_ok hash t ord"
  shows "find_key hash t key = Ret (find_index t ord key)"
proof (cases "t_count t = 0")
  case True
  then have "ord = []" using table_okD(1) [OF assms] by simp
  then show ?thesis using True by (simp add: find_key_def find_index_def key_index_def split: option.split)
next
  case False
  then have "ord \<noteq> []" using table_okD(1) [OF assms] by (auto simp: unat_eq_zero)
  then obtain es where es: "t_table t = Some es" using table_okD(7) [OF assms] by (cases "t_table t") auto
  obtain free bk where l: "layout hash es ord free bk" using table_okD(9) [OF assms es] by blast
  have "0 < t_count t" using False by (simp add: word_gt_0)
  then show ?thesis
    using GetEntry_ok [OF es table_okD(8) [OF assms es] table_okD(5,4) [OF assms] layoutE(2) [OF l] refl] es
    by (simp add: find_key_def find_index_def)
qed

lemma contents_Some: "t_table t = Some es \<Longrightarrow> contents t ord = map (\<lambda>i. (h_key (es ! i), h_value (es ! i))) ord"
  by (simp add: contents_def)

lemma length_contents: "table_ok hash t ord \<Longrightarrow> length (contents t ord) = length ord"
  by (auto simp: contents_def dest: table_okD(7) split: option.split)

lemma contents_distinct:
  assumes "table_ok hash t ord"
  shows "distinct (map fst (contents t ord))"
proof (cases "t_table t")
  case (Some es)
  obtain free bk where l: "layout hash es ord free bk" using table_okD(9) [OF assms Some] by blast
  then show ?thesis
    using Some coreD(8) [OF layoutE(2) [OF l]] layoutE(3) [OF l] by (simp add: contents_def distinct_map o_def)
qed (simp add: contents_def)

lemma map_of_index:
  assumes "key_index es ord key = Some e"
  shows "map_of (map (\<lambda>i. (h_key (es ! i), h_value (es ! i))) ord) key = Some (h_value (es ! e))"
  using assms by (induction ord) (auto simp: key_index_def split: if_splits)

lemma map_of_no_index:
  "key_index es ord key = None \<Longrightarrow> map_of (map (\<lambda>i. (h_key (es ! i), h_value (es ! i))) ord) key = None"
  by (induction ord) (auto simp: key_index_def split: if_splits)

lemma find_index_entry:
  assumes "table_ok hash t ord" "find_index t ord key = Some e"
  shows "\<exists>es. t_table t = Some es \<and> e \<in> set ord \<and> e < length es \<and> h_key (es ! e) = key \<and>
    map_of (contents t ord) key = Some (h_value (es ! e))"
proof -
  obtain es where es: "t_table t = Some es" "key_index es ord key = Some e"
    using assms(2) by (auto simp: find_index_def split: option.splits)
  obtain free bk where l: "layout hash es ord free bk" using table_okD(9) [OF assms(1) es(1)] by blast
  show ?thesis
    using es map_of_index [OF es(2)] key_index_Some [OF coreD(8) [OF layoutE(2) [OF l]], of key e] layoutE(4) [OF l]
    by (simp add: contents_Some)
qed

lemma find_index_absent: "find_index t ord key = None \<longleftrightarrow> key \<notin> fst ` set (contents t ord)"
  by (auto simp: find_index_def contents_def key_index_None image_image split: option.split)

lemma GetValue_ok:
  assumes "table_ok hash t ord"
  shows "GetValue hash t key = Ret (map_of (contents t ord) key)"
proof (cases "find_index t ord key")
  case None
  then have "map_of (contents t ord) key = None" by (simp add: find_index_absent map_of_eq_None_iff)
  then show ?thesis using None find_key_ok [OF assms] by (simp add: GetValue_def)
next
  case (Some e)
  then show ?thesis using find_index_entry [OF assms Some] find_key_ok [OF assms] by (auto simp: GetValue_def)
qed

section \<open>Iterators\<close>

text \<open>What an iterator shows to the user: the keys that it stands on.\<close>

definition cookie_key :: "('k, 'v) htable \<Rightarrow> ptr \<Rightarrow> 'k option" where
  "cookie_key t c = (case t_table t of None \<Rightarrow> None | Some es \<Rightarrow> map_option (\<lambda>e. h_key (es ! e)) c)"

type_synonym 'k iter_view = "nat \<times> bool \<times> 'k option \<times> 'k option"

definition iter_view :: "('k, 'v) htable \<Rightarrow> hiter \<Rightarrow> 'k iter_view" where
  "iter_view t it = (i_id it, i_backwards it, cookie_key t (i_nextKeyCookie it), cookie_key t (i_nextValueCookie it))"

definition iter_views :: "('k, 'v) htable \<Rightarrow> 'k iter_view list" where
  "iter_views t = map (iter_view t) (t_iterList t)"

text \<open>The position after the key \<open>k\<close> goes away: the next key in the direction of the iterator.\<close>

definition leave_key :: "'k list \<Rightarrow> 'k \<Rightarrow> bool \<Rightarrow> 'k option \<Rightarrow> 'k option" where
  "leave_key ks k backwards c = (if c = Some k then succ_of (if backwards then rev ks else ks) k else c)"

fun leave_view :: "'k list \<Rightarrow> 'k \<Rightarrow> 'k iter_view \<Rightarrow> 'k iter_view" where
  "leave_view ks k (i, bw, c, d) = (i, bw, leave_key ks k bw c, leave_key ks k bw d)"

lemma succ_of_map:
  assumes "inj_on f (insert e (set xs))"
  shows "succ_of (map f xs) (f e) = map_option f (succ_of xs e)"
  using assms
proof (induction xs)
  case (Cons x xs)
  have "first (map f xs) = map_option f (first xs)" by (cases xs) simp_all
  moreover have "inj_on f (insert e (set xs))" using Cons.prems by (rule inj_on_subset) auto
  moreover have "f e = f x \<longleftrightarrow> e = x" using Cons.prems by (auto dest: inj_onD)
  ultimately show ?case using Cons.IH by simp
qed simp

lemma succ_of_in_set: "succ_of xs e = Some x \<Longrightarrow> x \<in> set xs"
  by (induction xs) (auto split: if_splits dest: first_in_set)

lemma leave_key_leave:
  assumes "inj_on (\<lambda>i. h_key (es ! i)) (set ord)" "e \<in> set ord" "cookie_ok ord c"
    "\<And>i. i \<in> set ord \<Longrightarrow> i \<noteq> e \<Longrightarrow> h_key (es' ! i) = h_key (es ! i)" "distinct ord"
  shows "map_option (\<lambda>i. h_key (es' ! i)) (leave ord e bw c) =
    leave_key (map (\<lambda>i. h_key (es ! i)) ord) (h_key (es ! e)) bw (map_option (\<lambda>i. h_key (es ! i)) c)"
proof (cases "c = Some e")
  case True
  let ?l = "if bw then rev ord else ord"
  have inj: "inj_on (\<lambda>i. h_key (es ! i)) (insert e (set ?l))" using assms(1,2) by (auto simp: insert_absorb)
  have "succ_of (if bw then rev (map (\<lambda>i. h_key (es ! i)) ord) else map (\<lambda>i. h_key (es ! i)) ord) (h_key (es ! e)) =
      map_option (\<lambda>i. h_key (es ! i)) (succ_of ?l e)"
    using succ_of_map [OF inj] by (simp add: rev_map split: if_splits)
  moreover have "map_option (\<lambda>i. h_key (es' ! i)) (succ_of ?l e) = map_option (\<lambda>i. h_key (es ! i)) (succ_of ?l e)"
  proof (rule option.map_cong0)
    fix x assume "x \<in> set_option (succ_of ?l e)"
    then have x: "succ_of ?l e = Some x" by (simp add: elem_set)
    have "distinct ?l" "e \<in> set ?l" using assms(2,5) by simp_all
    then have "x \<noteq> e" using x
      by (metis distinct.simps(2) first_in_set not_distinct_conv_prefix split_list succ_of_mid distinct_append)
    then show "h_key (es' ! x) = h_key (es ! x)" using assms(4) succ_of_in_set [OF x] by (cases bw) simp_all
  qed
  ultimately show ?thesis using True by (simp add: leave_def leave_key_def)
next
  case False
  then show ?thesis
    using assms by (cases c) (auto simp: leave_def leave_key_def cookie_ok_def dest: inj_onD)
qed

end
