(* ===== verification/Hash_Remove.thy ===== *)
theory Hash_Remove
  imports Hash_Ops
begin

text \<open>Removing an entry by its key, as an operation on the contents and on the iterators.\<close>

definition same_settings :: "('k, 'v) htable \<Rightarrow> ('k, 'v) htable \<Rightarrow> bool" where
  "same_settings t t' \<longleftrightarrow> t_initialCapacity t' = t_initialCapacity t \<and> t_userKeyCompareFunc t' = t_userKeyCompareFunc t \<and>
     t_userValueCompareFunc t' = t_userValueCompareFunc t \<and> t_autoSortMode t' = t_autoSortMode t"

lemma same_settings_refl [simp]: "same_settings t t"
  by (simp add: same_settings_def)

lemma same_settings_trans: "same_settings t t1 \<Longrightarrow> same_settings t1 t2 \<Longrightarrow> same_settings t t2"
  by (simp add: same_settings_def)

lemma contents_append [simp]: "contents t (xs @ ys) = contents t xs @ contents t ys"
  by (simp add: contents_def split: option.split)

lemma contents_cong:
  "t_table t = Some es \<Longrightarrow> t_table t' = Some es' \<Longrightarrow>
    (\<And>i. i \<in> set xs \<Longrightarrow> h_key (es' ! i) = h_key (es ! i) \<and> h_value (es' ! i) = h_value (es ! i)) \<Longrightarrow>
    contents t' xs = contents t xs"
  by (simp add: contents_def)

lemma iter_view_leave:
  assumes ok: "table_ok hash t (xs @ e # ys)" and es: "t_table t = Some es" "t_table t' = Some es'"
    and c: "iter_chain es (xs @ e # ys)" and it: "it \<in> set (t_iterList t)"
    and k: "\<And>i. i \<in> set (xs @ e # ys) \<Longrightarrow> i \<noteq> e \<Longrightarrow> h_key (es' ! i) = h_key (es ! i)"
  shows "iter_view t' (leave_entry e (es ! e) it) =
    leave_view (map fst (contents t (xs @ e # ys))) (h_key (es ! e)) (iter_view t it)"
proof -
  let ?ord = "xs @ e # ys"
  obtain free bk where l: "layout hash es ?ord free bk" using table_okD(9) [OF ok es(1)] by blast
  have inj: "inj_on (\<lambda>i. h_key (es ! i)) (set ?ord)" by (rule coreD(8) [OF layoutE(2) [OF l]])
  have ck: "cookie_ok ?ord (i_nextKeyCookie it)" "cookie_ok ?ord (i_nextValueCookie it)"
    using table_okD(6) [OF ok] it by (simp_all add: iters_ok_def)
  have keys: "map fst (contents t ?ord) = map (\<lambda>i. h_key (es ! i)) ?ord"
    using es(1) by (simp add: contents_Some)
  have e: "e \<in> set ?ord" by simp
  have lk: "map_option (\<lambda>i. h_key (es' ! i)) (leave ?ord e bw c) =
      leave_key (map (\<lambda>i. h_key (es ! i)) ?ord) (h_key (es ! e)) bw (map_option (\<lambda>i. h_key (es ! i)) c)"
    if "cookie_ok ?ord c" for bw c
    using k by (intro leave_key_leave [OF inj e that _ layoutE(3) [OF l]])
  show ?thesis
    unfolding leave_entry_ok [OF c] iter_view_def keys
    by (simp add: cookie_key_def es lk [OF ck(1)] lk [OF ck(2)] del: map_append)
qed

lemma find_index_split:
  assumes "table_ok hash t ord" "find_index t ord key = Some e"
  shows "\<exists>xs ys. ord = xs @ e # ys"
  using find_index_entry [OF assms] by (auto dest: split_list)

lemma unat_pred: "unat (c :: u32) = Suc n \<Longrightarrow> unat (c - 1) = n"
  by (metis diff_Suc_1 unat_eq_zero nat.simps(3) unat_minus_one)

lemma RemoveAux_ok:
  assumes ok: "table_ok hash t (xs @ e # ys)" and f: "find_index t (xs @ e # ys) key = Some e"
  shows "\<exists>t' v. RemoveAux hash t key = Ret (B_NO_ERROR, Some v, t') \<and> contents t [e] = [(key, v)] \<and>
    table_ok hash t' (xs @ ys) \<and> contents t' (xs @ ys) = contents t xs @ contents t ys \<and>
    iter_views t' = map (leave_view (map fst (contents t (xs @ e # ys))) key) (iter_views t) \<and>
    same_settings t t' \<and> t_tableSize t' = t_tableSize t"
proof -
  let ?ord = "xs @ e # ys"
  obtain es where es: "t_table t = Some es" "e < length es" "h_key (es ! e) = key"
    using find_index_entry [OF ok f] by auto
  obtain free bk where l: "layout hash es ?ord free bk" and fh: "t_freeHead t = first free"
    using table_okD(9) [OF ok es(1)] by blast
  note ic = layoutE(1) [OF l] and lc = layoutE(2) [OF l] and dist = layoutE(3) [OF l] and lt = layoutE(4) [OF l]
  obtain es1 where r1: "RemoveIterationEntry t e =
      Ret (t\<lparr>t_table := Some es1, t_iterHead := first (xs @ ys), t_iterTail := first (rev (xs @ ys)),
             t_iterList := map (leave_entry e (es ! e)) (t_iterList t)\<rparr>)"
    and s1: "same_buckets es es1" and c1: "iter_chain es1 (xs @ ys)"
    using RemoveIterationEntry_ok [OF es(1) ic lt table_okD(2,3) [OF ok]] by blast
  obtain t1 where t1: "t1 = t\<lparr>t_table := Some es1, t_iterHead := first (xs @ ys), t_iterTail := first (rev (xs @ ys)),
             t_iterList := map (leave_entry e (es ! e)) (t_iterList t)\<rparr>" by simp
  have lc1: "core hash es1 (set ?ord) free bk" by (rule core_same_buckets [OF lc s1])
  have e_in: "e \<in> set ?ord" by simp
  have tt1: "t_table t1 = Some es1" by (simp add: t1)
  obtain es2 bk2 where r2: "unlink_entry t1 e (es1 ! e) = Ret (t1\<lparr>t_table := Some es2\<rparr>)"
    and c2: "core_without hash e es2 (set ?ord - {e}) free bk2" and k2: "others_kept e es1 es2"
    using unlink_entry_ok [OF tt1 lc1 e_in] by blast
  have tt2: "t_table (t1\<lparr>t_table := Some es2\<rparr>) = Some es2" and fh2: "t_freeHead (t1\<lparr>t_table := Some es2\<rparr>) = first free"
    using fh by (simp_all add: t1)
  obtain es3 where r3: "ReturnToFreeList (t1\<lparr>t_table := Some es2\<rparr>) e =
      Ret (t1\<lparr>t_table := Some es2\<rparr>\<lparr>t_table := Some es3, t_freeHead := Some e\<rparr>)"
    and c3: "core hash es3 (set ?ord - {e}) (e # free) bk2" and k3: "others_kept e es2 es3"
    using ReturnToFreeList_ok [OF tt2 c2 fh2] by blast
  have k: "others_kept e es1 es3" by (rule others_kept_trans [OF k2 k3])
  have set: "set ?ord - {e} = set (xs @ ys)" using dist by auto
  obtain t' where t': "t' = t\<lparr>t_table := Some es3, t_iterHead := first (xs @ ys), t_iterTail := first (rev (xs @ ys)),
      t_iterList := map (leave_entry e (es ! e)) (t_iterList t), t_freeHead := Some e, t_count := t_count t - 1\<rparr>" by simp
  have run: "RemoveAux hash t key = Ret (B_NO_ERROR, Some (h_value (es1 ! e)), t')"
    using find_key_ok [OF ok, of key] f r1 r2 r3 es(2) same_bucketsD(1) [OF s1]
    unfolding t1 [symmetric] RemoveAux_def by (simp add: entry_ok [OF tt1] t' t1)
  have len: "length es1 = length es" "length es3 = length es"
    using same_bucketsD(1) [OF s1] others_keptD(1) [OF k] by simp_all
  have neq: "i < length es1 \<and> i \<noteq> e" if "i \<in> set (xs @ ys)" for i
    using that lt dist len by auto
  have ic3: "iter_chain es3 (xs @ ys)"
    using c1 unfolding iter_chain_def
    by (rule links_cong) (use others_keptD(2,3) [OF k] neq in simp)
  have lay: "layout hash es3 (xs @ ys) (e # free) bk2"
    using ic3 c3 unfolding set layout_def by simp
  have cnt: "unat (t_count t - 1) = length (xs @ ys)"
    using table_okD(1) [OF ok] by (intro unat_pred) simp
  have "iters_ok (xs @ ys) (map (leave_entry e (es ! e)) (t_iterList t))"
    by (rule iters_ok_leave [OF table_okD(6) [OF ok] ic])
  then have ok': "table_ok hash t' (xs @ ys)"
    using cnt table_okD(4,5,8) [OF ok] es(1) len lay
    by (auto simp: table_ok_def heads_ok_def t' keys_ok_def)
  have kv: "h_key (es3 ! i) = h_key (es ! i) \<and> h_value (es3 ! i) = h_value (es ! i)" if "i \<in> set (xs @ ys)" for i
    using others_keptD(5,6) [OF k] neq [OF that] same_bucketsD(3,4) [OF s1] len by simp
  have tt': "t_table t' = Some es3" by (simp add: t')
  have "contents t' (xs @ ys) = contents t (xs @ ys)" by (rule contents_cong [OF es(1) tt' kv])
  moreover have "iter_views t' = map (leave_view (map fst (contents t ?ord)) key) (iter_views t)"
  proof -
    have "t_iterList t' = map (leave_entry e (es ! e)) (t_iterList t)" by (simp add: t')
    moreover have "h_key (es3 ! i) = h_key (es ! i)" if "i \<in> set ?ord" "i \<noteq> e" for i
      using kv [of i] that by simp
    ultimately show ?thesis
      unfolding iter_views_def es(3) [symmetric]
      using iter_view_leave [OF ok es(1) tt' ic] by (simp del: contents_append)
  qed
  ultimately show ?thesis
    using run ok' es same_bucketsD(4) [OF s1, of e]
    by (intro exI [of _ t'] exI [of _ "h_value (es1 ! e)"]) (simp add: contents_Some same_settings_def t')
qed

lemma RemoveAux_absent:
  "table_ok hash t ord \<Longrightarrow> find_index t ord key = None \<Longrightarrow> RemoveAux hash t key = Ret (B_ERROR, None, t)"
  by (simp add: RemoveAux_def find_key_ok)

end
