(* ===== verification/Hash_Insert.thy ===== *)
theory Hash_Insert
  imports Hash_Remove
begin

text \<open>
  The place of a new entry in the iteration, and adding an entry as an operation on the
  contents.
\<close>

section \<open>The place in the order\<close>

text \<open>
  As the code searches it: in front of the first greater item, but only if the first or the
  last item is greater; so an unsorted list may get the item at its end.
\<close>

definition split_place :: "('a \<Rightarrow> bool) \<Rightarrow> 'a list \<Rightarrow> 'a list \<times> 'a list" where
  "split_place P xs =
     (if xs \<noteq> [] \<and> (P (hd xs) \<or> P (last xs)) then (takeWhile (Not \<circ> P) xs, dropWhile (Not \<circ> P) xs) else (xs, []))"

definition compare_items :: "('k, 'v) orderings \<Rightarrow> 'k \<times> 'v \<Rightarrow> 'k \<times> 'v \<Rightarrow> int" where
  "compare_items fs a b = (case snd fs of
     Some g \<Rightarrow> g (snd a) (snd b)
   | None \<Rightarrow> (case fst fs of Some f \<Rightarrow> f (fst a) (fst b) | None \<Rightarrow> 0))"

definition insert_item :: "('k, 'v) orderings \<Rightarrow> 'k \<times> 'v \<Rightarrow> ('k \<times> 'v) list \<Rightarrow> ('k \<times> 'v) list" where
  "insert_item fs kv xs =
     fst (split_place (\<lambda>x. compare_items fs kv x < 0) xs) @ kv # snd (split_place (\<lambda>x. compare_items fs kv x < 0) xs)"

lemma split_place_append: "fst (split_place P xs) @ snd (split_place P xs) = xs"
  by (simp add: split_place_def)

lemma split_place_map: "split_place P (map f xs) = map_prod (map f) (map f) (split_place (P \<circ> f) xs)"
  by (cases "xs = []") (simp_all add: split_place_def takeWhile_map dropWhile_map hd_map last_map o_assoc)

lemma split_place_cong: "(\<And>x. x \<in> set xs \<Longrightarrow> P x = Q x) \<Longrightarrow> split_place P xs = split_place Q xs"
proof (cases "xs = []")
  case False
  assume eq: "\<And>x. x \<in> set xs \<Longrightarrow> P x = Q x"
  then have "takeWhile (Not \<circ> P) xs = takeWhile (Not \<circ> Q) xs" "dropWhile (Not \<circ> P) xs = dropWhile (Not \<circ> Q) xs"
    by (simp_all cong: takeWhile_cong dropWhile_cong)
  then show ?thesis using False eq [of "hd xs"] eq [of "last xs"] by (simp add: split_place_def)
qed (simp add: split_place_def)

lemma insert_item_unsorted: "insert_item (None, None) kv xs = xs @ [kv]"
  by (simp add: insert_item_def split_place_def compare_items_def)

lemma CompareEntries_items: "CompareEntries fs x y = compare_items fs (h_key x, h_value x) (h_key y, h_value y)"
  by (simp add: CompareEntries_def compare_items_def split: option.split)

lemma insertion_point_ok:
  assumes es: "t_table t = Some es"
  shows "iter_chain es (us @ p # vs) \<Longrightarrow> (\<And>i. i \<in> set vs \<Longrightarrow> i < length es) \<Longrightarrow> length vs < n \<Longrightarrow>
    t_iterTail t = first (rev (p # vs)) \<Longrightarrow>
    insertion_point n t fs x p (first vs) =
      Ret (first (rev (p # takeWhile (\<lambda>i. \<not> CompareEntries fs x (es ! i) < 0) vs)))"
proof (induction vs arbitrary: us p n)
  case Nil
  then show ?case by (cases n) simp_all
next
  case (Cons v vs)
  obtain m where n: "n = Suc m" using Cons.prems(3) by (cases n) auto
  have ch: "iter_chain es ((us @ [p]) @ v # vs)" using Cons.prems(1) by simp
  have nx: "h_iterNext (es ! v) = first vs"
    using chain_mid(1) [of _ _ "us @ [p]" v vs] ch by (simp add: iter_chain_def)
  have "insertion_point m t fs x v (first vs) =
      Ret (first (rev (v # takeWhile (\<lambda>i. \<not> CompareEntries fs x (es ! i) < 0) vs)))"
    using Cons.prems n by (intro Cons.IH [OF ch]) simp_all
  then show ?case using n Cons.prems(2) [of v] nx entry_ok [OF es, of v] by simp
qed

lemma InsertSortedIterationEntry_ok:
  assumes es: "t_table t = Some es" "length es = unat (t_tableSize t)"
    and c: "iter_chain es ord" "\<And>i. i \<in> set ord \<Longrightarrow> i < length es" and e: "e < length es" "e \<notin> set ord"
    and h: "t_iterHead t = first ord" "t_iterTail t = first (rev ord)"
    and P: "(xs, ys) = split_place (\<lambda>i. CompareEntries fs (es ! e) (es ! i) < 0) ord"
  shows "InsertSortedIterationEntry t e fs = InsertIterationEntry t e (first (rev xs))"
proof (cases ord)
  case Nil
  then show ?thesis using h P by (simp add: InsertSortedIterationEntry_def split_place_def)
next
  case (Cons a vs)
  note a = entry_ok [OF es(1)] and ord = Cons
  have tl: "t_iterTail t = Some (last ord)" "last ord \<in> set ord"
  proof -
    have ne: "ord \<noteq> []" using Cons by simp
    then have "\<exists>us u. ord = us @ [u]" by (metis rev_exhaust)
    then show "t_iterTail t = Some (last ord)" using h(2) by auto
    show "last ord \<in> set ord" using ne by simp
  qed
  have nx: "h_iterNext (es ! a) = first vs"
    using chain_mid(1) [of _ _ "[]" a vs] c(1) ord by (simp add: iter_chain_def)
  have "distinct (e # ord)" using c(1) e by (simp add: iter_chain_def chain_def)
  moreover have "set (e # ord) \<subseteq> {..<length es}" using c(2) e by auto
  ultimately have "length (e # ord) \<le> length es"
    using card_mono [of "{..<length es}" "set (e # ord)"] by (metis card_lessThan distinct_card finite_lessThan)
  then have len: "length vs < unat (t_tableSize t)" using ord es(2) by simp
  note ip = insertion_point_ok [OF es(1), of "[]" a vs "unat (t_tableSize t)" fs "es ! e"]
  have ip': "insertion_point (unat (t_tableSize t)) t fs (es ! e) a (first vs) =
      Ret (first (rev (a # takeWhile (\<lambda>i. \<not> CompareEntries fs (es ! e) (es ! i) < 0) vs)))"
    using c h(2) ord len by (intro ip) simp_all
  have unordered: "CompareEntries fs x y = 0" if "fst fs = None" "snd fs = None" for x y :: "('a, 'b) hentry"
    using that by (simp add: CompareEntries_def)
  have hd: "t_iterHead t = Some a" "a < length es" "last ord < length es"
    using h(1) ord c(2) tl(2) by simp_all
  show ?thesis
  proof (cases "fst fs = None \<and> snd fs = None")
    case True
    then show ?thesis using P hd h(2) unordered by (simp add: InsertSortedIterationEntry_def split_place_def)
  next
    case False
    then have f: "fst fs \<noteq> None \<or> snd fs \<noteq> None" by simp
    let ?P = "\<lambda>i. CompareEntries fs (es ! e) (es ! i) < 0"
    consider "?P a" | "\<not> ?P a" "?P (last ord)" | "\<not> ?P a" "\<not> ?P (last ord)" by blast
    then show ?thesis
    proof cases
      case 1
      then show ?thesis
        using P f hd e(1) ord by (simp add: InsertSortedIterationEntry_def split_place_def a)
    next
      case 2
      then have "xs = a # takeWhile (\<lambda>i. \<not> ?P i) vs" using P ord by (simp add: split_place_def o_def)
      then show ?thesis
        using 2 f hd e(1) tl(1) nx ip' by (simp add: InsertSortedIterationEntry_def a)
    next
      case 3
      then have "xs = ord" using P ord by (simp add: split_place_def)
      then show ?thesis
        using 3 f hd e(1) tl(1) h(2) by (simp add: InsertSortedIterationEntry_def a)
    qed
  qed
qed

section \<open>A new entry\<close>

lemma iter_views_cong:
  assumes its: "iters_ok ord (t_iterList t)" "t_iterList t' = t_iterList t"
    and es: "t_table t = Some es" "t_table t' = Some es'"
    and k: "\<And>i. i \<in> set ord \<Longrightarrow> h_key (es' ! i) = h_key (es ! i)"
  shows "iter_views t' = iter_views t"
proof -
  have "cookie_key t' c = cookie_key t c" if "cookie_ok ord c" for c
    using that es k by (cases c) (auto simp: cookie_key_def cookie_ok_def)
  then show ?thesis using its by (auto simp: iter_views_def iter_view_def iters_ok_def)
qed

lemma iters_ok_mono: "iters_ok ord its \<Longrightarrow> set ord \<subseteq> set ord' \<Longrightarrow> iters_ok ord' its"
  by (auto simp: iters_ok_def cookie_ok_def)

lemma sort_orderings_cong:
  "same_settings t t' \<Longrightarrow> sort_orderings t' = sort_orderings t"
  by (simp add: same_settings_def sort_orderings_def)

lemma find_index_notin:
  "t_table t = Some es \<Longrightarrow> find_index t ord key = None \<Longrightarrow> key \<notin> (\<lambda>i. h_key (es ! i)) ` set ord"
  by (simp add: find_index_def key_index_None)

lemma put_new_ok:
  assumes ok: "table_ok hash t ord" and es: "t_table t = Some es" and room: "length ord < length es"
    and f: "find_index t ord key = None" and h: "h = ComputeHash hash key"
  shows "\<exists>e t' xs ys. put_new t h key val = Ret (e, t') \<and> ord = xs @ ys \<and> table_ok hash t' (xs @ e # ys) \<and> e \<notin> set ord \<and>
    contents t' (xs @ e # ys) = insert_item (sort_orderings t) (key, val) (contents t ord) \<and>
    contents t' [e] = [(key, val)] \<and> (\<forall>i\<in>set ord. contents t' [i] = contents t [i]) \<and>
    iter_views t' = iter_views t \<and> t_iterList t' = t_iterList t \<and> same_settings t t' \<and> t_tableSize t' = t_tableSize t \<and>
    t_table t' \<noteq> None"
proof -
  obtain free bk where l: "layout hash es ord free bk" and fh: "t_freeHead t = first free"
    using table_okD(9) [OF ok es(1)] by blast
  note ic = layoutE(1) [OF l] and lc = layoutE(2) [OF l] and lt = layoutE(4) [OF l] and size = table_okD(8) [OF ok es]
  have fn: "free \<noteq> []" using layoutD(7) [OF l] room by auto
  obtain e es1 free1 bk1 where r1: "new_entry t h key val = Ret (e, t\<lparr>t_table := Some es1, t_freeHead := first free1\<rparr>)"
    and c1: "core hash es1 (insert e (set ord)) free1 bk1" and e: "e \<in> set free" and so: "same_others e es es1"
    and kv: "h_key (es1 ! e) = key" "h_value (es1 ! e) = val"
    using new_entry_ok [OF es size table_okD(5) [OF ok] lc h find_index_notin [OF es f] fn fh] by blast
  note sod = same_othersD [OF so]
  have el: "e < length es1" "e \<notin> set ord" using e coreD(10,11) [OF lc] sod(1) by auto
  obtain t1 where t1: "t1 = t\<lparr>t_table := Some es1, t_freeHead := first free1\<rparr>" by simp
  have tt1: "t_table t1 = Some es1" "length es1 = unat (t_tableSize t1)" using size sod(1) by (simp_all add: t1)
  have ic1: "iter_chain es1 ord" by (rule iter_chain_same_others [OF ic so lt])
  have lt1: "\<And>i. i \<in> set ord \<Longrightarrow> i < length es1" using lt sod(1) by simp
  have hd1: "t_iterHead t1 = first ord" "t_iterTail t1 = first (rev ord)" using table_okD(2,3) [OF ok] by (simp_all add: t1)
  obtain xs ys where P: "(xs, ys) = split_place (\<lambda>i. CompareEntries (sort_orderings t) (es1 ! e) (es1 ! i) < 0) ord"
    by (metis surj_pair)
  have ord: "ord = xs @ ys" using split_place_append [of _ ord] P by (metis fst_conv snd_conv)
  note ins = InsertSortedIterationEntry_ok [OF tt1 ic1 lt1 el hd1 P]
  have e': "e \<notin> set (xs @ ys)" using el(2) unfolding ord .
  obtain es2 where r2: "InsertIterationEntry t1 e (first (rev xs)) =
      Ret (t1\<lparr>t_table := Some es2, t_iterHead := first (xs @ e # ys), t_iterTail := first (rev (xs @ e # ys))\<rparr>)"
    and s2: "same_buckets es1 es2" and ic2: "iter_chain es2 (xs @ e # ys)"
    using InsertIterationEntry_ok [OF tt1(1) ic1 [unfolded ord] lt1 [unfolded ord] el(1) e' hd1 [unfolded ord]] by blast
  obtain t' where t': "t' = t1\<lparr>t_table := Some es2, t_iterHead := first (xs @ e # ys),
      t_iterTail := first (rev (xs @ e # ys)), t_count := t_count t1 + 1\<rparr>" by simp
  have so1: "sort_orderings t1 = sort_orderings t" by (simp add: sort_orderings_def t1)
  have run: "put_new t h key val = Ret (e, t')"
    using r1 r2 ins by (simp add: put_new_def t1 [symmetric] so1 t' del: first_append rev_append)
  have set: "set (xs @ e # ys) = insert e (set ord)" by (simp add: ord)
  have lay: "layout hash es2 (xs @ e # ys) free1 bk1"
    unfolding layout_def set using ic2 core_same_buckets [OF c1 s2] by simp
  have "unat (t_tableSize t) < 2 ^ 32" using unsigned_less [of "t_tableSize t", where ?'a = nat] by simp
  then have "unat (t_count t + 1) = Suc (unat (t_count t))"
    using room size table_okD(1) [OF ok] by (simp add: unat_word_ariths)
  then have cnt: "unat (t_count t + 1) = length (xs @ e # ys)"
    using table_okD(1) [OF ok] ord by simp
  have len2: "length es2 = length es" using same_bucketsD(1) [OF s2] sod(1) by simp
  have its: "iters_ok (xs @ e # ys) (t_iterList t)"
    using table_okD(6) [OF ok] by (rule iters_ok_mono) (auto simp: ord)
  have ok': "table_ok hash t' (xs @ e # ys)"
    using cnt table_okD(4,5) [OF ok] size len2 lay its
    by (auto simp: table_ok_def heads_ok_def t' t1 keys_ok_def simp del: first_append rev_append length_append)
  have tt': "t_table t' = Some es2" by (simp add: t')
  have kvs: "h_key (es2 ! i) = h_key (es ! i) \<and> h_value (es2 ! i) = h_value (es ! i)" if "i \<in> set ord" for i
  proof -
    have "i \<noteq> e" "i < length es" using that el lt by auto
    then show ?thesis using same_bucketsD(3,4) [OF s2] sod by simp
  qed
  have ce: "contents t' [e] = [(key, val)]"
    using same_bucketsD(3,4) [OF s2 el(1)] kv by (simp add: contents_Some [OF tt'])
  have old: "contents t' zs = contents t zs" if "set zs \<subseteq> set ord" for zs
    using that kvs by (intro contents_cong [OF es tt']) auto
  let ?kv = "\<lambda>i. (h_key (es ! i), h_value (es ! i))"
  have kv1: "?kv i = (h_key (es1 ! i), h_value (es1 ! i))" if "i \<in> set ord" for i
  proof -
    have "i \<noteq> e" "i < length es" using that el lt by auto
    then show ?thesis using sod by simp
  qed
  have "split_place (\<lambda>x. compare_items (sort_orderings t) (key, val) x < 0) (contents t ord) =
      map_prod (map ?kv) (map ?kv) (split_place ((\<lambda>x. compare_items (sort_orderings t) (key, val) x < 0) \<circ> ?kv) ord)"
    by (simp only: contents_Some [OF es] split_place_map)
  also have "split_place ((\<lambda>x. compare_items (sort_orderings t) (key, val) x < 0) \<circ> ?kv) ord = (xs, ys)"
    unfolding P using kv kv1 by (intro split_place_cong) (simp add: CompareEntries_items)
  finally have place: "split_place (\<lambda>x. compare_items (sort_orderings t) (key, val) x < 0) (contents t ord) =
      (contents t xs, contents t ys)" by (simp add: contents_Some [OF es])
  have "contents t' (xs @ e # ys) = contents t' xs @ contents t' [e] @ contents t' ys"
    by (metis append_Cons append_Nil contents_append)
  then have "contents t' (xs @ e # ys) = insert_item (sort_orderings t) (key, val) (contents t ord)"
    unfolding insert_item_def place by (simp add: ce old ord)
  moreover have "iter_views t' = iter_views t"
    using kvs by (intro iter_views_cong [OF table_okD(6) [OF ok] _ es tt']) (simp_all add: t' t1)
  moreover have "same_settings t t'" by (simp add: same_settings_def t' t1)
  moreover have "\<forall>i\<in>set ord. contents t' [i] = contents t [i]" using old by simp
  ultimately show ?thesis
    using run ord ok' el(2) ce tt' by (intro exI [of _ e] exI [of _ t'] exI [of _ xs] exI [of _ ys]) (simp add: t' t1)
qed

end
