(* ===== verification/Hash_Grow.thy ===== *)
theory Hash_Grow
  imports Hash_Insert
begin

text \<open>
  The fresh array, replacing a value, and \<open>PutAux\<close> in a table that has room; then the loop that
  copies the entries into a bigger table, and \<open>EnsureSize\<close>.
\<close>

section \<open>The array on demand\<close>

lemma upt_split: "i < n \<Longrightarrow> [0..<n] = [0..<i] @ i # [Suc i..<n]"
  by (metis le0 less_imp_le_nat upt_add_eq_append upt_conv_Cons le_add_diff_inverse)

lemma chain_upt:
  assumes "\<And>i. i < n \<Longrightarrow> nx i = (if Suc i < n then Some (Suc i) else None)"
    "\<And>i. i < n \<Longrightarrow> pv i = (if i = 0 then None else Some (i - 1))"
  shows "chain nx pv [0..<n]"
proof -
  have "nx i = succ_of [0..<n] i \<and> pv i = succ_of (rev [0..<n]) i" if i: "i < n" for i
  proof -
    have d: "distinct ([0..<i] @ i # [Suc i..<n])" "distinct (rev [Suc i..<n] @ i # rev [0..<i])" by auto
    have "first [Suc i..<n] = (if Suc i < n then Some (Suc i) else None)" by (auto simp: upt_rec)
    moreover have "first (rev [0..<i]) = (if i = 0 then None else Some (i - 1))" by (cases i) simp_all
    moreover have "rev [0..<n] = rev [Suc i..<n] @ i # rev [0..<i]" using upt_split [OF i] by simp
    ultimately show ?thesis
      using assms i succ_of_mid [OF d(1)] succ_of_mid [OF d(2)] upt_split [OF i] by simp
  qed
  then show ?thesis by (simp add: chain_def)
qed

lemma CreateEntriesArray_ok:
  fixes hash :: "'k :: default \<Rightarrow> u32"
  assumes "alloc sz" "sz \<noteq> 0"
  shows "\<exists>es :: ('k, 'v :: default) hentry list. CreateEntriesArray alloc sz = Ret (Some es) \<and> length es = unat sz \<and>
    layout hash es [] [0..<unat sz] (\<lambda>_. [])"
proof -
  obtain es :: "('k, 'v) hentry list" where es: "CreateEntriesArray alloc sz = Ret (Some es)" "length es = unat sz"
    and e: "\<And>i. i < unat sz \<Longrightarrow> h_hash (es ! i) = MUSCLE_HASHTABLE_INVALID_HASH_CODE \<and> h_mapTo (es ! i) = i \<and>
      h_mappedFrom (es ! i) = i \<and> h_bucketNext (es ! i) = (if Suc i < unat sz then Some (Suc i) else None) \<and>
      h_bucketPrev (es ! i) = (if i = 0 then None else Some (i - 1))"
    using assms by (simp add: CreateEntriesArray_def)
  have "bucket_chain es [0..<unat sz]"
    unfolding bucket_chain_def by (rule chain_upt) (simp_all add: e)
  then have "layout hash es [] [0..<unat sz] (\<lambda>_. [])"
    by (simp add: layout_def core_def iter_chain_def chain_def maps_ok_def buckets_ok_def bucket_chain_def e es(2)
      atLeast0LessThan)
  then show ?thesis using es by blast
qed

lemma iter_views_empty:
  assumes "iters_ok [] (t_iterList t)" "t_iterList t' = t_iterList t"
  shows "iter_views t' = iter_views t"
proof -
  have "cookie_ok [] c \<longleftrightarrow> c = None" for c by (cases c) (simp_all add: cookie_ok_def)
  then show ?thesis using assms
    by (auto simp: iter_views_def iter_view_def iters_ok_def cookie_key_def split: option.splits)
qed

lemma demand_table_ok:
  fixes t :: "('k :: default, 'v :: default) htable"
  assumes ok: "table_ok hash t ord" and a: "t_table t \<noteq> None \<or> alloc (t_tableSize t)"
  shows "\<exists>t'. demand_table alloc t = Ret t' \<and> table_ok hash t' ord \<and> t_table t' \<noteq> None \<and> contents t' ord = contents t ord \<and>
    (\<forall>i. contents t' [i] = contents t [i] \<or> ord = []) \<and> iter_views t' = iter_views t \<and> t_iterList t' = t_iterList t \<and>
    same_settings t t' \<and> t_tableSize t' = t_tableSize t \<and> t_count t' = t_count t"
proof (cases "t_table t")
  case None
  then have a: "alloc (t_tableSize t)" using assms by simp
  have ord: "ord = []" by (rule table_okD(7) [OF ok None])
  obtain es :: "('k, 'v) hentry list" where es: "CreateEntriesArray alloc (t_tableSize t) = Ret (Some es)" "length es = unat (t_tableSize t)"
    "layout hash es [] [0..<unat (t_tableSize t)] (\<lambda>_. [])"
    using CreateEntriesArray_ok [of alloc "t_tableSize t" hash, where ?'v = 'v] a table_okD(5) [OF ok] by blast
  obtain t' where t': "t' = t\<lparr>t_table := Some es, t_freeHead := Some 0\<rparr>" by simp
  have "0 < unat (t_tableSize t)" using table_okD(5) [OF ok] by (simp add: unat_gt_0)
  then have "first [0..<unat (t_tableSize t)] = Some 0" by (simp add: upt_rec)
  then have "table_ok hash t' ord"
    using table_okD [OF ok] es(2,3) ord by (auto simp: table_ok_def heads_ok_def t' keys_ok_def)
  moreover have "iter_views t' = iter_views t"
    using table_okD(6) [OF ok] ord by (intro iter_views_empty) (simp_all add: t')
  ultimately show ?thesis
    using es None ord by (intro exI [of _ t']) (simp add: demand_table_def t' contents_def same_settings_def)
next
  case (Some es)
  then show ?thesis using ok by (simp add: demand_table_def)
qed

lemma demand_table_fails:
  assumes "t_table t = None" "\<not> alloc (t_tableSize t)"
  shows "demand_table alloc t = Ret (t\<lparr>t_table := None, t_freeHead := None\<rparr>)"
  using assms by (simp add: demand_table_def CreateEntriesArray_def)

lemma forget_free_ok:
  assumes "table_ok hash t ord" "t_table t = None"
  shows "table_ok hash (t\<lparr>t_table := None, t_freeHead := None\<rparr>) ord"
  using assms by (auto simp: table_ok_def heads_ok_def keys_ok_def)

section \<open>Replacing a value\<close>

text \<open>The tables in which a new value does not move its entry.\<close>

definition settled :: "('k, 'v) htable \<Rightarrow> bool" where
  "settled t \<longleftrightarrow> t_autoSortMode t = AUTOSORT_BY_VALUE \<longrightarrow> t_userValueCompareFunc t = None"

definition replace_item :: "'k \<times> 'v \<Rightarrow> ('k \<times> 'v) list \<Rightarrow> ('k \<times> 'v) list" where
  "replace_item kv = map (\<lambda>x. if fst x = fst kv then kv else x)"

definition assoc_put :: "('k, 'v) orderings \<Rightarrow> 'k \<times> 'v \<Rightarrow> ('k \<times> 'v) list \<Rightarrow> ('k \<times> 'v) list" where
  "assoc_put fs kv xs = (if fst kv \<in> fst ` set xs then replace_item kv xs else insert_item fs kv xs)"

lemma settled_cong: "same_settings t t' \<Longrightarrow> settled t' = settled t"
  by (simp add: same_settings_def settled_def)

lemma GetEntry_find:
  assumes ok: "table_ok hash t ord" and "t_table t \<noteq> None" and h: "h = ComputeHash hash key"
  shows "GetEntry t h key = Ret (find_index t ord key)"
proof -
  obtain es where es: "t_table t = Some es" using assms(2) by blast
  obtain free bk where l: "layout hash es ord free bk" using table_okD(9) [OF ok es] by blast
  show ?thesis
    using GetEntry_ok [OF es table_okD(8) [OF ok es] table_okD(5,4) [OF ok] layoutE(2) [OF l] h] es
    by (simp add: find_index_def)
qed

lemma iter_chain_cong:
  assumes "iter_chain es xs" "\<And>i. i \<in> set xs \<Longrightarrow>
    h_iterNext (es' ! i) = h_iterNext (es ! i) \<and> h_iterPrev (es' ! i) = h_iterPrev (es ! i)"
  shows "iter_chain es' xs"
  using assms unfolding iter_chain_def by (elim links_cong) simp

lemma set_value_ok:
  assumes l: "layout hash es ord free bk" and e: "e < length es"
  shows "layout hash (es[e := (es ! e)\<lparr>h_value := val\<rparr>]) ord free bk"
proof -
  let ?es = "es[e := (es ! e)\<lparr>h_value := val\<rparr>]"
  have k: "h_hash (?es ! i) = h_hash (es ! i)" "h_key (?es ! i) = h_key (es ! i)"
    "h_bucketNext (?es ! i) = h_bucketNext (es ! i)" "h_bucketPrev (?es ! i) = h_bucketPrev (es ! i)"
    "h_iterNext (?es ! i) = h_iterNext (es ! i)" "h_iterPrev (?es ! i) = h_iterPrev (es ! i)"
    "h_mapTo (?es ! i) = h_mapTo (es ! i)" "h_mappedFrom (?es ! i) = h_mappedFrom (es ! i)" for i
    using e by (cases "i = e"; simp)+
  have bc: "bucket_chain ?es xs = bucket_chain es xs" for xs by (simp add: bucket_chain_def k)
  have "maps_ok ?es = maps_ok es" "bucket_of ?es i = bucket_of es i" for i by (simp_all add: maps_ok_def bucket_of_def k)
  then show ?thesis using l by (simp add: layout_def core_def iter_chain_def buckets_ok_def bc k)
qed

lemma replace_value_ok:
  assumes ok: "table_ok hash t ord" and es: "t_table t \<noteq> None" and f: "find_index t ord key = Some e" and s: "settled t"
  shows "\<exists>t'. replace_value hash t e val = Ret t' \<and> table_ok hash t' ord \<and>
    contents t' ord = replace_item (key, val) (contents t ord) \<and>
    iter_views t' = iter_views t \<and> same_settings t t' \<and> t_tableSize t' = t_tableSize t"
proof -
  obtain es where es: "t_table t = Some es" "e \<in> set ord" "e < length es" "h_key (es ! e) = key"
    using find_index_entry [OF ok f] by auto
  obtain free bk where l: "layout hash es ord free bk" and fh: "t_freeHead t = first free"
    using table_okD(9) [OF ok es(1)] by blast
  let ?es = "es[e := (es ! e)\<lparr>h_value := val\<rparr>]"
  obtain t' where t': "t' = t\<lparr>t_table := Some ?es\<rparr>" by simp
  have run: "replace_value hash t e val = Ret t'"
    using es s by (auto simp: replace_value_def set_entry_def t' settled_def split: autosort.split option.split)
  have "table_ok hash t' ord"
    using ok set_value_ok [OF l es(3), of val] fh es(1) by (auto simp: table_ok_def heads_ok_def t' keys_ok_def)
  moreover have "h_key (?es ! i) = h_key (es ! i)" "h_value (?es ! i) = (if i = e then val else h_value (es ! i))" for i
    using es(3) by (cases "i = e"; simp)+
  moreover have "h_key (es ! i) = key \<longleftrightarrow> i = e" if "i \<in> set ord" for i
    using coreD(8) [OF layoutE(2) [OF l]] es that by (auto dest: inj_onD)
  ultimately show ?thesis
    using run es(1) by (intro exI [of _ t'])
      (auto simp: t' contents_def replace_item_def same_settings_def iter_views_def iter_view_def cookie_key_def
        cong: map_option_cong)
qed

section \<open>Putting where there is room\<close>

lemma PutAux_found:
  assumes ok: "table_ok hash t ord" and f: "find_index t ord key = Some e" and s: "settled t"
    and h: "h = ComputeHash hash key"
  shows "\<exists>t' v. PutAux hash alloc pf (Suc n) t h key val = Ret (Some e, Some v, t') \<and> map_of (contents t ord) key = Some v \<and>
    table_ok hash t' ord \<and> contents t' ord = replace_item (key, val) (contents t ord) \<and>
    iter_views t' = iter_views t \<and> same_settings t t' \<and> t_tableSize t' = t_tableSize t"
proof -
  obtain es where es: "t_table t = Some es" "e < length es" "map_of (contents t ord) key = Some (h_value (es ! e))"
    using find_index_entry [OF ok f] by auto
  obtain t' where "replace_value hash t e val = Ret t'" "table_ok hash t' ord"
    "contents t' ord = replace_item (key, val) (contents t ord)" "iter_views t' = iter_views t" "same_settings t t'"
    "t_tableSize t' = t_tableSize t"
    using replace_value_ok [OF ok _ f s] es(1) by blast
  then show ?thesis
    using es f GetEntry_find [OF ok _ h] entry_ok [OF es(1,2)]
    by (intro exI [of _ t'] exI [of _ "h_value (es ! e)"]) (simp add: demand_table_def)
qed

lemma find_index_after_demand:
  assumes "contents t' ord = contents t ord" "find_index t ord key = None"
  shows "find_index t' ord key = None"
  using assms by (simp add: find_index_absent)

lemma PutAux_room:
  assumes ok: "table_ok hash t ord" and f: "find_index t ord key = None" and h: "h = ComputeHash hash key"
    and room: "length ord < unat (t_tableSize t)" and a: "t_table t \<noteq> None \<or> alloc (t_tableSize t)"
  shows "\<exists>e t' xs ys. PutAux hash alloc pf (Suc n) t h key val = Ret (Some e, None, t') \<and> ord = xs @ ys \<and>
    table_ok hash t' (xs @ e # ys) \<and> e \<notin> set ord \<and>
    contents t' (xs @ e # ys) = insert_item (sort_orderings t) (key, val) (contents t ord) \<and>
    contents t' [e] = [(key, val)] \<and> (\<forall>i\<in>set ord. contents t' [i] = contents t [i]) \<and>
    iter_views t' = iter_views t \<and> t_iterList t' = t_iterList t \<and> same_settings t t' \<and> t_tableSize t' = t_tableSize t \<and>
    t_table t' \<noteq> None"
proof -
  obtain t1 where t1: "demand_table alloc t = Ret t1" "table_ok hash t1 ord" "t_table t1 \<noteq> None"
    "contents t1 ord = contents t ord" "\<forall>i. contents t1 [i] = contents t [i] \<or> ord = []"
    "iter_views t1 = iter_views t" "t_iterList t1 = t_iterList t" "same_settings t t1"
    "t_tableSize t1 = t_tableSize t" "t_count t1 = t_count t"
    using demand_table_ok [where alloc = alloc, OF ok a] by blast
  obtain es where es: "t_table t1 = Some es" using t1(3) by blast
  have f1: "find_index t1 ord key = None" by (rule find_index_after_demand [OF t1(4) f])
  have room1: "length ord < length es" using room table_okD(8) [OF t1(2) es] t1(9) by simp
  have "t_count t1 \<noteq> t_tableSize t1" using room table_okD(1) [OF ok] t1(9,10) by auto
  then have "PutAux hash alloc pf (Suc n) t h key val = bind_run (put_new t1 h key val) (\<lambda>(e, t). Ret (Some e, None, t))"
    using t1(1) es GetEntry_find [OF t1(2,3) h] f1 by simp
  then show ?thesis
    using put_new_ok [OF t1(2) es room1 f1 h, of val] t1(4-9) sort_orderings_cong [OF t1(8)]
    by (fastforce intro: same_settings_trans)
qed

lemma PutAux_no_memory:
  assumes "t_table t = None" "\<not> alloc (t_tableSize t)"
  shows "PutAux hash alloc pf (Suc n) t h key val = Ret (None, None, t\<lparr>t_table := None, t_freeHead := None\<rparr>)"
  using assms by (simp add: demand_table_fails)

end
