(* ===== verification/Hash_Resize.thy ===== *)
theory Hash_Resize
  imports Hash_Grow
begin

text \<open>
  Growing: the loop that copies the entries into a bigger table, \<open>EnsureSize\<close>, and \<open>PutAux\<close> in
  a full table. The bigger table has room for all entries, so the recursion is three levels deep.
\<close>

section \<open>Copying\<close>

text \<open>The clone of each entry that has been copied holds the same item.\<close>

definition clones_ok :: "('k, 'v) htable \<Rightarrow> nat list \<Rightarrow> ('k, 'v) htable \<Rightarrow> nat list \<Rightarrow> (nat \<Rightarrow> ptr) \<Rightarrow> bool" where
  "clones_ok t ws s bord clone \<longleftrightarrow>
     (\<forall>i\<in>set ws. \<exists>c. clone i = Some c \<and> c \<in> set bord \<and> contents s [c] = contents t [i])"

lemma clones_ok_step:
  assumes "clones_ok t ws s bord clone" "\<forall>i\<in>set bord. contents s' [i] = contents s [i]" "set bord \<subseteq> set bord'"
    "c \<in> set bord'" "contents s' [c] = contents t [z]" "z \<notin> set ws"
  shows "clones_ok t (ws @ [z]) s' bord' (clone(z := Some c))"
  using assms unfolding clones_ok_def by (fastforce simp: subset_iff)

abbreviation insert_all :: "('k, 'v) orderings \<Rightarrow> ('k \<times> 'v) list \<Rightarrow> ('k \<times> 'v) list \<Rightarrow> ('k \<times> 'v) list" where
  "insert_all fs \<equiv> fold (insert_item fs)"

lemma set_insert_item: "set (insert_item fs kv xs) = insert kv (set xs)"
proof -
  have "set xs = set (fst (split_place P xs)) \<union> set (snd (split_place P xs))" for P
    by (metis set_append split_place_append)
  then show ?thesis by (simp add: insert_item_def)
qed

lemma set_insert_all: "set (insert_all fs xs ys) = set ys \<union> set xs"
  by (induction xs arbitrary: ys) (simp_all add: set_insert_item)

lemma copy_entries_ok:
  assumes es: "t_table t = Some es" and ic: "iter_chain es (ws @ zs)" and lt: "\<And>i. i \<in> set zs \<Longrightarrow> i < length es"
    and hs: "\<And>i. i \<in> set zs \<Longrightarrow> h_hash (es ! i) = ComputeHash hash (h_key (es ! i))"
    and dk: "distinct (map (\<lambda>i. h_key (es ! i)) zs)"
    and ok: "table_ok hash s bord" and new: "\<And>i. i \<in> set zs \<Longrightarrow> h_key (es ! i) \<notin> fst ` set (contents s bord)"
    and room: "length bord + length zs \<le> unat (t_tableSize s)" and m: "length zs < m"
    and a: "t_table s \<noteq> None \<or> alloc (t_tableSize s)" and cl: "clones_ok t ws s bord clone"
  shows "\<exists>s' bord' clone'. copy_entries hash alloc pf (Suc n) m t (first zs) s clone = Ret (B_NO_ERROR, s', clone') \<and>
    table_ok hash s' bord' \<and> contents s' bord' = insert_all (sort_orderings s) (contents t zs) (contents s bord) \<and>
    clones_ok t (ws @ zs) s' bord' clone' \<and> same_settings s s' \<and> t_tableSize s' = t_tableSize s"
  using ic lt hs dk ok new room m a cl
proof (induction zs arbitrary: ws s bord clone m)
  case Nil
  then show ?case by (cases m) (auto simp: contents_def split: option.split)
next
  case (Cons z zs)
  obtain m' where m': "m = Suc m'" using Cons.prems(8) by (cases m) auto
  let ?k = "h_key (es ! z)" and ?v = "h_value (es ! z)"
  have z: "z < length es" using Cons.prems(2) by simp
  have f: "find_index s bord ?k = None" using Cons.prems(6) [of z] by (simp add: find_index_absent)
  have h: "h_hash (es ! z) = ComputeHash hash ?k" using Cons.prems(3) [of z] by simp
  have room: "length bord < unat (t_tableSize s)" using Cons.prems(7) by simp
  obtain c s1 xs ys where p: "PutAux hash alloc pf (Suc n) s (h_hash (es ! z)) ?k ?v = Ret (Some c, None, s1)"
    and b: "bord = xs @ ys" "table_ok hash s1 (xs @ c # ys)"
    and con: "contents s1 (xs @ c # ys) = insert_item (sort_orderings s) (?k, ?v) (contents s bord)"
    and ce: "contents s1 [c] = [(?k, ?v)]" and old: "\<forall>i\<in>set bord. contents s1 [i] = contents s [i]"
    and ss: "same_settings s s1" "t_tableSize s1 = t_tableSize s" "t_table s1 \<noteq> None"
    using PutAux_room [where alloc = alloc, OF Cons.prems(5) f h room Cons.prems(9), of pf n ?v] by blast
  have ic1: "iter_chain es ((ws @ [z]) @ zs)" using Cons.prems(1) by simp
  have nx: "h_iterNext (es ! z) = first zs" using chain_mid(1) [of _ _ ws z zs] Cons.prems(1) by (simp add: iter_chain_def)
  have lt1: "\<And>i. i \<in> set zs \<Longrightarrow> i < length es" using Cons.prems(2) by simp
  have hs1: "\<And>i. i \<in> set zs \<Longrightarrow> h_hash (es ! i) = ComputeHash hash (h_key (es ! i))" using Cons.prems(3) by simp
  have dk1: "distinct (map (\<lambda>i. h_key (es ! i)) zs)" using Cons.prems(4) by simp
  have new1: "h_key (es ! i) \<notin> fst ` set (contents s1 (xs @ c # ys))" if "i \<in> set zs" for i
  proof -
    have "h_key (es ! i) \<noteq> ?k" using Cons.prems(4) that by (auto simp: image_iff)
    moreover have "h_key (es ! i) \<notin> fst ` set (contents s bord)" using Cons.prems(6) that by simp
    ultimately show ?thesis unfolding con set_insert_item by simp
  qed
  have room1: "length (xs @ c # ys) + length zs \<le> unat (t_tableSize s1)" using Cons.prems(7) b(1) ss(2) by simp
  have zc: "contents t [z] = [(?k, ?v)]" using es by (simp add: contents_Some)
  have "distinct (ws @ z # zs)" using Cons.prems(1) by (simp add: iter_chain_def chain_def)
  then have zw: "z \<notin> set ws" by simp
  have sub: "set bord \<subseteq> set (xs @ c # ys)" using b(1) by auto
  have cl1: "clones_ok t (ws @ [z]) s1 (xs @ c # ys) (clone(z := Some c))"
    by (rule clones_ok_step [OF Cons.prems(10) old sub _ _ zw]) (simp_all add: ce zc)
  have m1: "length zs < m'" using Cons.prems(8) m' by simp
  obtain s' bord' clone' where r: "copy_entries hash alloc pf (Suc n) m' t (first zs) s1 (clone(z := Some c)) = Ret (B_NO_ERROR, s', clone')"
    and r': "table_ok hash s' bord'"
      "contents s' bord' = insert_all (sort_orderings s1) (contents t zs) (contents s1 (xs @ c # ys))"
      "clones_ok t ((ws @ [z]) @ zs) s' bord' clone'" "same_settings s1 s'" "t_tableSize s' = t_tableSize s1"
    using Cons.IH [OF ic1 lt1 hs1 dk1 b(2) new1 room1 m1 disjI1 [OF ss(3)] cl1] by blast
  have run: "copy_entries hash alloc pf (Suc n) m t (first (z # zs)) s clone = Ret (B_NO_ERROR, s', clone')"
    using p r nx unfolding m' by (simp add: entry_ok [OF es z] del: PutAux.simps)
  have "contents t (z # zs) = (?k, ?v) # contents t zs" using es by (simp add: contents_Some)
  then have "contents s' bord' = insert_all (sort_orderings s) (contents t (z # zs)) (contents s bord)"
    using r'(2) con sort_orderings_cong [OF ss(1)] by simp
  then show ?case
    using run r' ss(2) same_settings_trans [OF ss(1) r'(4)] by (intro exI [of _ s'] exI [of _ bord'] exI [of _ clone']) simp
qed

lemma copy_entries_no_memory:
  assumes "t_table t = Some es" "z < length es" "t_table s = None" "\<not> alloc (t_tableSize s)" "0 < m"
  shows "\<exists>s' clone'. copy_entries hash alloc pf (Suc n) m t (Some z) s clone = Ret (B_ERROR, s', clone')"
proof -
  obtain m' where m: "m = Suc m'" using assms(5) by (cases m) auto
  show ?thesis
    using PutAux_no_memory [where alloc = alloc, OF assms(3,4), of hash pf n] unfolding m
    by (simp add: entry_ok [OF assms(1,2)] del: PutAux.simps)
qed

section \<open>The order of a sorted table\<close>

text \<open>No item is less than one before it; then copying in this order keeps the order.\<close>

definition in_order :: "('k, 'v) orderings \<Rightarrow> ('k \<times> 'v) list \<Rightarrow> bool" where
  "in_order fs = sorted_wrt (\<lambda>a b. 0 \<le> compare_items fs b a)"

lemma in_order_unsorted: "in_order (None, None) xs"
proof -
  have "sorted_wrt (\<lambda>a b. True) xs" by (induction xs) simp_all
  then show ?thesis by (simp add: in_order_def compare_items_def)
qed

lemma insert_item_last:
  assumes "\<And>x. x \<in> set xs \<Longrightarrow> 0 \<le> compare_items fs kv x"
  shows "insert_item fs kv xs = xs @ [kv]"
proof (cases "xs = []")
  case False
  then show ?thesis using assms [of "hd xs"] assms [of "last xs"] by (simp add: insert_item_def split_place_def)
qed (simp add: insert_item_def split_place_def)

lemma insert_all_in_order: "in_order fs (ys @ xs) \<Longrightarrow> insert_all fs xs ys = ys @ xs"
proof (induction xs arbitrary: ys)
  case (Cons x xs)
  have "insert_item fs x ys = ys @ [x]"
    using Cons.prems by (intro insert_item_last) (simp add: in_order_def sorted_wrt_append)
  then show ?case using Cons.IH [of "ys @ [x]"] Cons.prems by simp
qed simp

section \<open>\<open>EnsureSize\<close>\<close>

lemma fresh_table_ok:
  assumes "keys_ok t" "n \<noteq> 0"
  shows "table_ok hash ((Hashtable_new n)\<lparr>t_userKeyCompareFunc := t_userKeyCompareFunc t,
    t_userValueCompareFunc := g, t_autoSortMode := m\<rparr>) []"
  using assms by (simp add: table_ok_def heads_ok_def keys_ok_def Hashtable_new_def iters_ok_def)

lemma iter_view_redirect:
  assumes it: "cookie_ok ord (i_nextKeyCookie it)" "cookie_ok ord (i_nextValueCookie it)"
    and cl: "clones_ok t ord s bord clone" and s': "t_table s' = t_table s" and ord: "t_table t = None \<Longrightarrow> ord = []"
  shows "iter_view s' (redirect clone it) = iter_view t it"
    "cookie_ok bord (i_nextKeyCookie (redirect clone it)) \<and> cookie_ok bord (i_nextValueCookie (redirect clone it))"
proof -
  have c: "cookie_key s' (Option.bind c clone) = cookie_key t c \<and> cookie_ok bord (Option.bind c clone)"
    if c: "cookie_ok ord c" for c
  proof (cases c)
    case None
    then show ?thesis by (simp add: cookie_key_def cookie_ok_def split: option.split)
  next
    case (Some e)
    then have "e \<in> set ord" using c by (simp add: cookie_ok_def)
    then obtain d where d: "clone e = Some d" "d \<in> set bord" "contents s [d] = contents t [e]" and "ord \<noteq> []"
      using cl unfolding clones_ok_def by fastforce
    then obtain es where es: "t_table t = Some es" using ord by (cases "t_table t") auto
    then obtain es' where "t_table s = Some es'" using d(3) by (cases "t_table s") (simp_all add: contents_def)
    then show ?thesis using d es Some s' by (simp add: contents_def cookie_key_def cookie_ok_def)
  qed
  show "iter_view s' (redirect clone it) = iter_view t it"
    using c it by (simp add: iter_view_def redirect_def)
  show "cookie_ok bord (i_nextKeyCookie (redirect clone it)) \<and> cookie_ok bord (i_nextValueCookie (redirect clone it))"
    using c it by (simp add: redirect_def)
qed

lemma table_ok_set_iters:
  assumes "table_ok hash s ord" "iters_ok ord its"
  shows "table_ok hash (s\<lparr>t_initialCapacity := n, t_iterList := its\<rparr>) ord"
  using assms by (auto simp: table_ok_def heads_ok_def keys_ok_def split: option.splits)

lemma EnsureSize_aux_ok:
  assumes ok: "table_ok hash t ord" and big: "t_tableSize t < requestedSize" and np: "NextPrime pf (max (t_count t) requestedSize) = Ret p"
    and p: "requestedSize \<le> p" and a: "alloc p \<or> ord = []"
  shows "\<exists>t' ord'. EnsureSize_aux hash alloc pf (Suc (Suc n)) t requestedSize = Ret (B_NO_ERROR, t') \<and> table_ok hash t' ord' \<and>
    contents t' ord' = insert_all (sort_orderings t) (contents t ord) [] \<and> iter_views t' = iter_views t \<and>
    same_settings t t' \<and> t_tableSize t' = p \<and> (t_table t' \<noteq> None \<or> ord = [])"
proof -
  obtain s where s: "s = (Hashtable_new p)\<lparr>t_userKeyCompareFunc := t_userKeyCompareFunc t,
    t_userValueCompareFunc := t_userValueCompareFunc t, t_autoSortMode := t_autoSortMode t\<rparr>" by simp
  have p0: "p \<noteq> 0" using big p by (metis word_not_simps(1) word_le_0_iff)
  have sok: "table_ok hash s []" unfolding s by (rule fresh_table_ok [OF table_okD(4) [OF ok] p0])
  have sc: "contents s [] = []" "t_tableSize s = p" "sort_orderings s = sort_orderings t" "t_table s = None"
    by (simp_all add: contents_def s Hashtable_new_def sort_orderings_def)
  have "\<exists>s' bord' clone'. copy_entries hash alloc pf (Suc n) (Suc (unat (t_tableSize t))) t (t_iterHead t) s (\<lambda>_. None) =
      Ret (B_NO_ERROR, s', clone') \<and> table_ok hash s' bord' \<and>
      contents s' bord' = insert_all (sort_orderings t) (contents t ord) [] \<and>
      clones_ok t ord s' bord' clone' \<and> same_settings s s' \<and> t_tableSize s' = p"
  proof (cases "t_table t")
    case None
    then have "ord = []" by (rule table_okD(7) [OF ok])
    then show ?thesis using sok sc table_okD(2) [OF ok]
      by (intro exI [of _ s] exI [of _ "[]"] exI [of _ "\<lambda>_. None"]) (simp add: clones_ok_def contents_def None)
  next
    case (Some es)
    obtain free bk where l: "layout hash es ord free bk" using table_okD(9) [OF ok Some] by blast
    note lc = layoutE(2) [OF l]
    have lt: "unat (t_tableSize t) < unat p" using big p by (metis leD not_less order_less_le_trans word_less_nat_alt)
    have len: "length ord \<le> unat (t_tableSize t)" using layoutD(7) [OF l] table_okD(8) [OF ok Some] by simp
    show ?thesis
    proof (cases "ord = []")
      case True
      then show ?thesis using sok sc table_okD(2) [OF ok]
        by (intro exI [of _ s] exI [of _ "[]"] exI [of _ "\<lambda>_. None"]) (simp add: clones_ok_def contents_def Some)
    next
      case False
      have ic: "iter_chain es ([] @ ord)" using layoutE(1) [OF l] by simp
      have dk: "distinct (map (\<lambda>i. h_key (es ! i)) ord)" using coreD(8) [OF lc] layoutE(3) [OF l] by (simp add: distinct_map)
      have "\<exists>s' bord' clone'. copy_entries hash alloc pf (Suc n) (Suc (unat (t_tableSize t))) t (first ord) s (\<lambda>_. None) =
          Ret (B_NO_ERROR, s', clone') \<and> table_ok hash s' bord' \<and>
          contents s' bord' = insert_all (sort_orderings s) (contents t ord) (contents s []) \<and>
          clones_ok t ([] @ ord) s' bord' clone' \<and> same_settings s s' \<and> t_tableSize s' = t_tableSize s"
        using a False lt len sc
        by (intro copy_entries_ok [OF Some ic layoutE(4) [OF l] coreD(7) [OF lc] dk sok]) (simp_all add: clones_ok_def)
      then show ?thesis using sc table_okD(2) [OF ok] by simp
    qed
  qed
  then obtain s' bord' clone' where c: "copy_entries hash alloc pf (Suc n) (Suc (unat (t_tableSize t))) t (t_iterHead t) s (\<lambda>_. None) =
      Ret (B_NO_ERROR, s', clone')" and ok': "table_ok hash s' bord'"
    and con: "contents s' bord' = insert_all (sort_orderings t) (contents t ord) []" and cl: "clones_ok t ord s' bord' clone'"
    and ss: "same_settings s s'" and size: "t_tableSize s' = p" by blast
  obtain t' where t': "t' = s'\<lparr>t_initialCapacity := t_initialCapacity t, t_iterList := map (redirect clone') (t_iterList t)\<rparr>" by simp
  have its: "cookie_ok ord (i_nextKeyCookie it)" "cookie_ok ord (i_nextValueCookie it)" if "it \<in> set (t_iterList t)" for it
    using table_okD(6) [OF ok] that by (simp_all add: iters_ok_def)
  have none: "t_table t = None \<Longrightarrow> ord = []" by (rule table_okD(7) [OF ok])
  have tt: "t_table t' = t_table s'" by (simp add: t')
  have "iters_ok bord' (map (redirect clone') (t_iterList t))"
    using iter_view_redirect(2) [OF its cl tt none] by (simp add: iters_ok_def)
  then have "table_ok hash t' bord'" unfolding t' by (rule table_ok_set_iters [OF ok'])
  moreover have "iter_views t' = iter_views t"
    using iter_view_redirect(1) [OF its cl tt none] by (simp add: iter_views_def) (simp add: t')
  moreover have "contents t' bord' = contents s' bord'" by (simp add: contents_def tt)
  moreover have "same_settings t t'" using ss by (simp add: same_settings_def t' s Hashtable_new_def)
  moreover have "EnsureSize_aux hash alloc pf (Suc (Suc n)) t requestedSize = Ret (B_NO_ERROR, t')"
    using big np c by (simp add: s [symmetric] t' swap_contents_def del: copy_entries.simps)
  moreover have "t_table t' \<noteq> None \<or> ord = []"
  proof (cases "bord' = []")
    case True
    then have "contents t' bord' = []" by (simp add: contents_def split: option.split)
    then have "insert_all (sort_orderings t) (contents t ord) [] = []" using con calculation(3) by simp
    then have "contents t ord = []" by (metis set_insert_all set_empty Un_empty)
    then show ?thesis using length_contents [OF ok] by simp
  next
    case False
    then show ?thesis using table_okD(7) [OF ok'] tt by auto
  qed
  ultimately show ?thesis using con size by (intro exI [of _ t'] exI [of _ bord']) (simp add: t')
qed

lemma EnsureSize_aux_no_memory:
  assumes ok: "table_ok hash t ord" and big: "t_tableSize t < requestedSize" and np: "NextPrime pf (max (t_count t) requestedSize) = Ret p"
    and a: "\<not> alloc p" "ord \<noteq> []"
  shows "EnsureSize_aux hash alloc pf (Suc (Suc n)) t requestedSize = Ret (B_ERROR, t)"
proof -
  obtain es where es: "t_table t = Some es" using table_okD(7) [OF ok] a(2) by (cases "t_table t") auto
  obtain free bk where l: "layout hash es ord free bk" using table_okD(9) [OF ok es] by blast
  obtain z zs where z: "ord = z # zs" using a(2) by (cases ord) auto
  have hd: "t_iterHead t = Some z" "z < length es" using table_okD(2) [OF ok] layoutE(4) [OF l, of z] z by simp_all
  obtain s where s: "s = (Hashtable_new p)\<lparr>t_userKeyCompareFunc := t_userKeyCompareFunc t,
    t_userValueCompareFunc := t_userValueCompareFunc t, t_autoSortMode := t_autoSortMode t\<rparr>" by simp
  have "\<exists>s' clone'. copy_entries hash alloc pf (Suc n) (Suc (unat (t_tableSize t))) t (Some z) s (\<lambda>_. None) = Ret (B_ERROR, s', clone')"
    using a by (intro copy_entries_no_memory [OF es hd(2)]) (simp_all add: s Hashtable_new_def)
  then show ?thesis using big np hd(1) by (auto simp: s [symmetric] simp del: copy_entries.simps)
qed

end
