(* ===== verification/Hash_Prime.thy ===== *)
theory Hash_Prime
  imports Hash_Resize
begin

text \<open>
  \<open>NextPrime\<close>: trial division in 32-bit arithmetic. Below \<open>65535\<^sup>2\<close> the square of the divisor
  does not wrap around, so the inner loop ends.
\<close>

definition no_divisor :: "nat \<Rightarrow> bool" where
  "no_divisor n \<longleftrightarrow> (\<forall>d. 1 < d \<longrightarrow> d < n \<longrightarrow> \<not> d dvd n)"

definition accepted :: "nat \<Rightarrow> bool" where
  "accepted n \<longleftrightarrow> (\<forall>l. (3 + 2 * l)\<^sup>2 \<le> n \<longrightarrow> \<not> (3 + 2 * l) dvd n)"

definition div_limit :: nat where "div_limit = 65535\<^sup>2"

lemma odd_at_least_3:
  assumes "odd (d :: nat)" "1 < d"
  shows "\<exists>l. d = 3 + 2 * l"
proof -
  obtain k where k: "d = 2 * k + 1" using assms(1) by (rule oddE)
  then have "d = 3 + 2 * (k - 1)" using assms(2) by auto
  then show ?thesis ..
qed

lemma accepted_no_divisor:
  assumes "odd n"
  shows "accepted n \<longleftrightarrow> no_divisor n"
proof
  assume acc: "accepted n"
  show "no_divisor n"
    unfolding no_divisor_def
  proof (intro allI impI notI)
    fix d assume d: "1 < d" "d < n" "d dvd n"
    then obtain e where e: "n = d * e" by (auto elim: dvdE)
    have odd: "odd d" "odd e" using assms e by simp_all
    have "1 < e" using d e by (cases "e = 0 \<or> e = 1") auto
    then obtain k l where kl: "d = 3 + 2 * k" "e = 3 + 2 * l" using odd_at_least_3 odd d(1) by meson
    show False
    proof (cases "d \<le> e")
      case True
      then have "(3 + 2 * k)\<^sup>2 \<le> n" using e kl by (simp only: power2_eq_square mult_le_mono)
      then show False using acc d(3) kl by (simp add: accepted_def)
    next
      case False
      then have "(3 + 2 * l)\<^sup>2 \<le> n" using e kl by (simp only: power2_eq_square) (rule mult_le_mono; simp)
      moreover have "(3 + 2 * l) dvd n" using e kl by simp
      ultimately show False using acc by (simp add: accepted_def)
    qed
  qed
next
  assume nd: "no_divisor n"
  show "accepted n"
    unfolding accepted_def
  proof (intro allI impI)
    fix l assume l: "(3 + 2 * l)\<^sup>2 \<le> n"
    have "1 * (3 + 2 * l) < (3 + 2 * l)\<^sup>2" unfolding power2_eq_square by (rule mult_strict_right_mono) simp_all
    then have "3 + 2 * l < n" using l by simp
    then show "\<not> (3 + 2 * l) dvd n" using nd by (simp add: no_divisor_def)
  qed
qed

lemma unat_odd_number:
  assumes "j \<le> 32766"
  shows "unat (of_nat (3 + 2 * j) :: u32) = 3 + 2 * j"
    "unat ((of_nat (3 + 2 * j) :: u32) * of_nat (3 + 2 * j)) = (3 + 2 * j)\<^sup>2"
proof -
  have le: "3 + 2 * j \<le> 65535" using assms by simp
  then show 1: "unat (of_nat (3 + 2 * j) :: u32) = 3 + 2 * j"
    by (simp only: unat_of_nat) simp
  have "(3 + 2 * j) * (3 + 2 * j) \<le> 65535 * 65535" using le by (intro mult_le_mono)
  then have "(3 + 2 * j) * (3 + 2 * j) < 2 ^ 32" by simp
  then show "unat ((of_nat (3 + 2 * j) :: u32) * of_nat (3 + 2 * j)) = (3 + 2 * j)\<^sup>2"
    by (simp only: unat_word_ariths 1 power2_eq_square len_num1 len_bit0 len_num0) simp
qed

lemma odd_divisor_ok:
  assumes s: "unat start < div_limit"
  shows "j \<le> 32766 \<Longrightarrow> 32766 - j < n \<Longrightarrow> (\<And>l. l < j \<Longrightarrow> \<not> (3 + 2 * l) dvd unat start) \<Longrightarrow>
    \<exists>i. odd_divisor n start (of_nat (3 + 2 * j)) = Ret i \<and> (start < i * i \<longleftrightarrow> accepted (unat start))"
proof (induction n arbitrary: j)
  case (Suc n)
  let ?i = "of_nat (3 + 2 * j) :: u32"
  note u = unat_odd_number [OF Suc.prems(1)]
  have sq: "?i * ?i \<le> start \<longleftrightarrow> (3 + 2 * j)\<^sup>2 \<le> unat start" "start < ?i * ?i \<longleftrightarrow> unat start < (3 + 2 * j)\<^sup>2"
    by (simp_all only: word_le_nat_alt word_less_nat_alt u)
  have dv: "start mod ?i = 0 \<longleftrightarrow> (3 + 2 * j) dvd unat start"
    by (simp only: unat_eq_zero [symmetric] unat_mod u mod_eq_0_iff_dvd)
  show ?case
  proof (cases "?i * ?i \<le> start \<and> start mod ?i \<noteq> 0")
    case True
    then have le: "(3 + 2 * j)\<^sup>2 \<le> unat start" and nd: "\<not> (3 + 2 * j) dvd unat start" using sq dv by simp_all
    have "j \<noteq> 32766"
    proof
      assume "j = 32766"
      then have "(65535 :: nat)\<^sup>2 \<le> unat start" using le by simp
      then show False using s unfolding div_limit_def by simp
    qed
    then have j: "Suc j \<le> 32766" "32766 - Suc j < n" using Suc.prems(1,2) by simp_all
    have nds: "\<And>l. l < Suc j \<Longrightarrow> \<not> (3 + 2 * l) dvd unat start" using Suc.prems(3) nd less_Suc_eq by auto
    have "?i + 2 = of_nat (3 + 2 * Suc j)" by simp
    then show ?thesis using Suc.IH [OF j nds] True by simp
  next
    case False
    have "start < ?i * ?i \<longleftrightarrow> accepted (unat start)"
    proof (cases "start < ?i * ?i")
      case True
      have "\<not> (3 + 2 * l) dvd unat start" if l: "(3 + 2 * l)\<^sup>2 \<le> unat start" for l
      proof (rule Suc.prems(3), rule ccontr)
        assume "\<not> l < j"
        then have "(3 + 2 * j)\<^sup>2 \<le> (3 + 2 * l)\<^sup>2" by (intro power_mono) simp_all
        moreover have "unat start < (3 + 2 * j)\<^sup>2" using True sq(2) by blast
        ultimately show False using l by linarith
      qed
      then show ?thesis using True by (simp add: accepted_def)
    next
      case False
      then have "(3 + 2 * j)\<^sup>2 \<le> unat start" "(3 + 2 * j) dvd unat start"
        using \<open>\<not> (?i * ?i \<le> start \<and> start mod ?i \<noteq> 0)\<close> sq dv by (simp_all only: not_less) simp_all
      then show ?thesis using False by (auto simp: accepted_def)
    qed
    moreover have "odd_divisor (Suc n) start ?i = Ret ?i"
      unfolding odd_divisor.simps by (rule if_not_P [OF False])
    ultimately show ?thesis by blast
  qed
qed simp

lemma next_prime_from_ok:
  assumes P: "odd P" "accepted P" "P < div_limit"
  shows "odd (unat start) \<Longrightarrow> unat start \<le> P \<Longrightarrow> P - unat start < n \<Longrightarrow>
    \<exists>r. next_prime_from n start = Ret r \<and> unat start \<le> unat r \<and> unat r \<le> P \<and> odd (unat r) \<and> accepted (unat r) \<and>
      (\<forall>s. unat start \<le> s \<longrightarrow> s < unat r \<longrightarrow> odd s \<longrightarrow> \<not> accepted s)"
proof (induction n arbitrary: start)
  case (Suc n)
  have lim: "unat start < div_limit" using Suc.prems(2) P(3) by simp
  have big: "32766 - 0 < (2 :: nat) ^ 16" by simp
  have none: "\<And>l. l < (0 :: nat) \<Longrightarrow> \<not> (3 + 2 * l) dvd unat start" by simp
  obtain i where i: "odd_divisor (2 ^ 16) start 3 = Ret i" "start < i * i \<longleftrightarrow> accepted (unat start)"
    using odd_divisor_ok [OF lim _ big none] by auto
  show ?case
  proof (cases "accepted (unat start)")
    case True
    then show ?thesis using i Suc.prems by (intro exI [of _ start]) simp
  next
    case False
    then have "unat start \<noteq> P" using P(2) by auto
    then have lt: "unat start + 2 \<le> P" using Suc.prems(1,2) P(1) by presburger
    have "P < 2 ^ 32" using P(3) by (simp add: div_limit_def power2_eq_square)
    then have u: "unat (start + 2) = unat start + 2" using lt by (simp add: unat_word_ariths)
    have "\<exists>r. next_prime_from n (start + 2) = Ret r \<and> unat (start + 2) \<le> unat r \<and> unat r \<le> P \<and> odd (unat r) \<and>
        accepted (unat r) \<and> (\<forall>s. unat (start + 2) \<le> s \<longrightarrow> s < unat r \<longrightarrow> odd s \<longrightarrow> \<not> accepted s)"
      using Suc.prems lt u by (intro Suc.IH) simp_all
    then obtain r where r: "next_prime_from n (start + 2) = Ret r" "unat start + 2 \<le> unat r" "unat r \<le> P" "odd (unat r)"
      "accepted (unat r)" "\<forall>s. unat start + 2 \<le> s \<longrightarrow> s < unat r \<longrightarrow> odd s \<longrightarrow> \<not> accepted s"
      unfolding u by blast
    have "\<not> accepted s" if s: "unat start \<le> s" "s < unat r" "odd s" for s
    proof (cases "s = unat start")
      case False
      then have "unat start + 2 \<le> s" using s Suc.prems(1) by presburger
      then show ?thesis using r(6) s by blast
    qed (use \<open>\<not> accepted (unat start)\<close> in simp)
    then show ?thesis using i False r(1-5) by (intro exI [of _ r]) simp
  qed
qed simp

lemma NextPrime_ok:
  assumes P: "odd P" "no_divisor P" "P < div_limit" and s: "unat start \<le> P" and n: "P - unat start < fuel"
  shows "\<exists>r. NextPrime fuel start = Ret r \<and> unat start \<le> unat r \<and> unat r \<le> P \<and> odd (unat r) \<and> no_divisor (unat r) \<and>
    (\<forall>q. unat start \<le> q \<longrightarrow> q < unat r \<longrightarrow> odd q \<longrightarrow> \<not> no_divisor q)"
proof -
  obtain start' where start': "start' = (if start mod 2 = 0 then start + 1 else start)" by simp
  have "P < 2 ^ 32" using P(3) by (simp add: div_limit_def power2_eq_square)
  moreover have ev: "start mod 2 = 0 \<longleftrightarrow> even (unat start)"
    by (simp add: unat_eq_zero [symmetric] unat_mod even_iff_mod_2_eq_zero)
  ultimately have u: "unat start' = (if even (unat start) then unat start + 1 else unat start)"
    using s P(1) unfolding start' by (cases "unat start = P") (auto simp: unat_word_ariths)
  have le: "unat start' \<le> P" using u s P(1) by (cases "unat start = P") auto
  have o: "odd (unat start')" using u by simp
  have n': "P - unat start' < fuel" using n u by auto
  have acc: "accepted P" using accepted_no_divisor [OF P(1)] P(2) by simp
  obtain r where r: "next_prime_from fuel start' = Ret r" "unat start' \<le> unat r" "unat r \<le> P" "odd (unat r)" "accepted (unat r)"
    "\<forall>q. unat start' \<le> q \<longrightarrow> q < unat r \<longrightarrow> odd q \<longrightarrow> \<not> accepted q"
    using next_prime_from_ok [OF P(1) acc P(3) o le n'] by blast
  have "unat start \<le> unat r" using r(2) u by (auto split: if_splits)
  moreover have "\<not> no_divisor q" if q: "unat start \<le> q" "q < unat r" "odd q" for q
  proof -
    have "unat start' \<le> q" using q u by (cases "q = unat start") auto
    then show ?thesis using r(6) q accepted_no_divisor [OF q(3)] by blast
  qed
  moreover have "no_divisor (unat r)" using accepted_no_divisor [OF r(4)] r(5) by simp
  ultimately show ?thesis using r by (intro exI [of _ r]) (simp add: NextPrime_def start' [symmetric])
qed

end
