(* ===== verification/Hash_Put.thy ===== *)
theory Hash_Put
  imports Hash_Prime
begin

text \<open>
  \<open>PutAux\<close> on every branch, and the invariant of a table that sorts itself: what a table
  represents is the list of its items in the order of iteration.
\<close>

section \<open>What a put does to the list of items\<close>

text \<open>The comparison of a sorted table is a total preorder.\<close>

definition orders :: "('k, 'v) orderings \<Rightarrow> bool" where
  "orders fs \<longleftrightarrow> (\<forall>a b. compare_items fs a b < 0 \<longrightarrow> 0 \<le> compare_items fs b a) \<and>
     (\<forall>a b c. 0 \<le> compare_items fs b a \<longrightarrow> 0 \<le> compare_items fs c b \<longrightarrow> 0 \<le> compare_items fs c a)"

lemma orders_unsorted: "orders (None, None)"
  by (simp add: orders_def compare_items_def)

lemma ordersD:
  assumes "orders fs"
  shows "compare_items fs a b < 0 \<Longrightarrow> 0 \<le> compare_items fs b a"
    "0 \<le> compare_items fs b a \<Longrightarrow> 0 \<le> compare_items fs c b \<Longrightarrow> 0 \<le> compare_items fs c a"
  using assms unfolding orders_def by blast+

lemma in_order_insert:
  assumes fs: "orders fs" and xs: "in_order fs xs"
  shows "in_order fs (insert_item fs kv xs)"
proof -
  let ?P = "\<lambda>x. compare_items fs kv x < 0"
  have split: "split_place ?P xs = (takeWhile (Not \<circ> ?P) xs, dropWhile (Not \<circ> ?P) xs)"
  proof (cases "xs \<noteq> [] \<and> (?P (hd xs) \<or> ?P (last xs))")
    case False
    have "\<not> ?P x" if x: "x \<in> set xs" for x
    proof
      assume "?P x"
      obtain ys l where l: "xs = ys @ [l]" using x by (cases xs rule: rev_cases) auto
      have kl: "0 \<le> compare_items fs kv l" using False x l by auto
      have "x = l \<or> 0 \<le> compare_items fs l x" using x xs l by (auto simp: in_order_def sorted_wrt_append)
      then have "0 \<le> compare_items fs kv x" using ordersD(2) [OF fs] kl by blast
      then show False using \<open>?P x\<close> by simp
    qed
    then have "takeWhile (Not \<circ> ?P) xs = xs" "dropWhile (Not \<circ> ?P) xs = []"
      by (simp_all add: takeWhile_eq_all_conv)
    moreover have "split_place ?P xs = (xs, [])" using False by (simp only: split_place_def if_False)
    ultimately show ?thesis by (simp only:)
  qed (simp add: split_place_def)
  obtain as bs where ab: "as = takeWhile (Not \<circ> ?P) xs" "bs = dropWhile (Not \<circ> ?P) xs" by simp
  have eq: "xs = as @ bs" by (simp add: ab)
  have as: "0 \<le> compare_items fs kv a" if "a \<in> set as" for a
    using that set_takeWhileD [of a "Not \<circ> ?P" xs] by (auto simp: ab)
  have bs: "0 \<le> compare_items fs b kv" if b: "b \<in> set bs" for b
  proof (cases bs)
    case (Cons y ys)
    have "?P y" using Cons by (simp add: ab dropWhile_eq_Cons_conv)
    then have yk: "0 \<le> compare_items fs y kv" by (rule ordersD(1) [OF fs])
    have "b = y \<or> 0 \<le> compare_items fs b y" using b xs Cons by (auto simp: in_order_def eq sorted_wrt_append)
    then show ?thesis using ordersD(2) [OF fs yk] yk by blast
  qed (use b in simp)
  have "insert_item fs kv xs = as @ kv # bs" by (simp add: insert_item_def split ab)
  then show ?thesis using xs as bs unfolding eq by (simp add: in_order_def sorted_wrt_append)
qed

text \<open>A new value leaves the order of a table that is not sorted by value.\<close>

lemma in_order_replace:
  assumes "snd fs = None" "in_order fs xs"
  shows "in_order fs (replace_item kv xs)"
proof -
  have "compare_items fs (if fst a = fst kv then kv else a) (if fst b = fst kv then kv else b) = compare_items fs a b" for a b
    using assms(1) by (simp add: compare_items_def split: option.split)
  then show ?thesis using assms(2) by (simp add: in_order_def replace_item_def sorted_wrt_map)
qed

lemma keys_replace: "map fst (replace_item kv xs) = map fst xs"
  by (simp add: replace_item_def)

lemma map_of_replace: "map_of (replace_item (k, v) xs) = (\<lambda>x. if x = k \<and> k \<in> fst ` set xs then Some v else map_of xs x)"
  by (induction xs) (auto simp: replace_item_def)

lemma map_of_insert:
  assumes "k \<notin> fst ` set xs"
  shows "map_of (insert_item fs (k, v) xs) = (map_of xs)(k \<mapsto> v)"
proof -
  let ?P = "\<lambda>x. compare_items fs (k, v) x < 0"
  obtain as bs where ab: "as = fst (split_place ?P xs)" "bs = snd (split_place ?P xs)" by simp
  have xs: "xs = as @ bs" by (simp add: ab split_place_append)
  have "map_of as k = None" "map_of bs k = None" using assms by (auto simp: xs map_of_eq_None_iff)
  moreover have "insert_item fs (k, v) xs = as @ (k, v) # bs" by (simp only: insert_item_def ab)
  ultimately show ?thesis by (auto simp: xs map_add_def split: option.split)
qed

lemma map_of_assoc_put: "map_of (assoc_put fs (k, v) xs) = (map_of xs)(k \<mapsto> v)"
  by (auto simp: assoc_put_def map_of_replace map_of_insert)

lemma length_assoc_put: "length (assoc_put fs kv xs) \<le> Suc (length xs)"
proof -
  have "length (fst (split_place P xs)) + length (snd (split_place P xs)) = length xs" for P
    by (metis length_append split_place_append)
  then show ?thesis by (simp add: assoc_put_def replace_item_def insert_item_def)
qed

section \<open>The represented list\<close>

text \<open>A table in a state that its operations keep, with the items it holds.\<close>

definition holds :: "('k \<Rightarrow> u32) \<Rightarrow> ('k, 'v) htable \<Rightarrow> nat list \<Rightarrow> ('k \<times> 'v) list \<Rightarrow> bool" where
  "holds hash t ord xs \<longleftrightarrow> table_ok hash t ord \<and> contents t ord = xs \<and> settled t \<and> orders (sort_orderings t) \<and>
     in_order (sort_orderings t) xs"

lemma holdsD:
  assumes "holds hash t ord xs"
  shows "table_ok hash t ord" "contents t ord = xs" "settled t" "orders (sort_orderings t)" "in_order (sort_orderings t) xs"
    "distinct (map fst xs)" "length xs = length ord"
  using assms contents_distinct [of hash t ord] length_contents [of hash t ord] by (auto simp: holds_def)

lemma settled_snd: "settled t \<Longrightarrow> snd (sort_orderings t) = None"
  by (simp add: settled_def sort_orderings_def)

text \<open>\<open>P\<close> is a prime that the growing table does not need to pass, and \<open>pf\<close> is fuel for it.\<close>

definition prime_bound :: "nat \<Rightarrow> nat \<Rightarrow> bool" where
  "prime_bound P pf \<longleftrightarrow> odd P \<and> no_divisor P \<and> P < div_limit \<and> P \<le> pf"

lemma NextPrime_growth:
  assumes P: "prime_bound P pf" and s: "unat s \<le> P" and c: "c \<le> s" "s \<noteq> 0"
  shows "\<exists>p. NextPrime pf (max c s) = Ret p \<and> s \<le> p \<and> unat p \<le> P"
proof -
  have "max c s = s" using c by (simp add: max_def)
  moreover have "P - unat s < pf" using P c(2) s by (simp add: prime_bound_def) (metis diff_less le_less_trans
    less_le_trans neq0_conv unat_gt_0 zero_less_diff diff_le_self le_trans not_less order_le_less)
  ultimately show ?thesis
    using NextPrime_ok [of P s pf] P s unfolding prime_bound_def by (auto simp: word_le_nat_alt)
qed

lemma PutAux_full:
  assumes H: "holds hash t ord xs" and f: "find_index t ord key = None" and h: "h = ComputeHash hash key"
    and full: "t_count t = t_tableSize t" and P: "prime_bound P pf" "2 * length ord \<le> P"
  shows "\<exists>p t' ord'. PutAux hash alloc pf (Suc (Suc (Suc n))) t h key val = Ret (p, None, t') \<and> table_ok hash t' ord' \<and>
    iter_views t' = iter_views t \<and> same_settings t t' \<and>
    (if p = None then contents t' ord' = xs \<and> (\<exists>s. \<not> alloc s)
     else contents t' ord' = insert_item (sort_orderings t) (key, val) xs)"
proof -
  note ok = holdsD(1) [OF H] and con = holdsD(2) [OF H]
  have len: "length ord = unat (t_tableSize t)" using table_okD(1) [OF ok] full by simp
  have pos: "0 < unat (t_tableSize t)" using table_okD(5) [OF ok] by (simp add: unat_gt_0)
  then obtain es where es: "t_table t = Some es" using table_okD(7) [OF ok] len by (cases "t_table t") auto
  have "P < 2 ^ 32" using P(1) by (simp add: prime_bound_def div_limit_def power2_eq_square)
  then have u: "unat (t_tableSize t * 2) = 2 * unat (t_tableSize t)" using P(2) len by (simp add: unat_word_ariths)
  then have big: "t_tableSize t < t_tableSize t * 2" using pos by (simp add: word_less_nat_alt)
  have le: "t_count t \<le> t_tableSize t * 2" using big full by simp
  have nz: "t_tableSize t * 2 \<noteq> 0" using u pos by (metis nat_0_less_mult_iff unat_0 not_less_zero zero_less_numeral)
  obtain p where np: "NextPrime pf (max (t_count t) (t_tableSize t * 2)) = Ret p" and p: "t_tableSize t * 2 \<le> p" "unat p \<le> P"
    using NextPrime_growth [OF P(1) _ le nz] u P(2) len by auto
  have step: "PutAux hash alloc pf (Suc (Suc (Suc n))) t h key val =
      bind_run (EnsureSize_aux hash alloc pf (Suc (Suc n)) t (t_tableSize t * 2)) (\<lambda>(st, t).
        if st = B_NO_ERROR then PutAux hash alloc pf (Suc (Suc n)) t h key val else Ret (None, None, t))"
    using es full GetEntry_find [OF ok _ h] f
    by (subst PutAux.simps) (simp add: demand_table_def del: PutAux.simps EnsureSize_aux.simps)
  show ?thesis
  proof (cases "alloc p")
    case True
    obtain t1 ord1 where e: "EnsureSize_aux hash alloc pf (Suc (Suc n)) t (t_tableSize t * 2) = Ret (B_NO_ERROR, t1)"
      and t1: "table_ok hash t1 ord1" "contents t1 ord1 = insert_all (sort_orderings t) (contents t ord) []"
        "iter_views t1 = iter_views t" "same_settings t t1" "t_tableSize t1 = p" "t_table t1 \<noteq> None \<or> ord = []"
      using EnsureSize_aux_ok [where alloc = alloc, OF ok big np p(1) disjI1 [OF True]] by blast
    have con1: "contents t1 ord1 = xs"
      using t1(2) insert_all_in_order [of "sort_orderings t" "[]" xs] holdsD(5) [OF H] con by simp
    have f1: "find_index t1 ord1 key = None" using f by (simp add: find_index_absent con1 con)
    have "length ord1 = length ord" using length_contents [OF t1(1)] con1 holdsD(7) [OF H] by simp
    then have room: "length ord1 < unat (t_tableSize t1)"
      using len pos p(1) u t1(5) by (simp add: word_le_nat_alt)
    have a1: "t_table t1 \<noteq> None \<or> alloc (t_tableSize t1)" using True t1(5) by simp
    obtain c t' us vs where "PutAux hash alloc pf (Suc (Suc n)) t1 h key val = Ret (Some c, None, t')" "table_ok hash t' (us @ c # vs)"
      "contents t' (us @ c # vs) = insert_item (sort_orderings t1) (key, val) (contents t1 ord1)"
      "iter_views t' = iter_views t1" "same_settings t1 t'"
      using PutAux_room [where alloc = alloc, OF t1(1) f1 h room a1, of pf "Suc n" val] by blast
    then show ?thesis
      using e con1 t1(3) same_settings_trans [OF t1(4)] sort_orderings_cong [OF t1(4)] unfolding step
      by (intro exI [of _ "Some c"] exI [of _ t'] exI [of _ "us @ c # vs"])
        (simp del: PutAux.simps EnsureSize_aux.simps)
  next
    case False
    have "ord \<noteq> []" using len pos by auto
    then have "EnsureSize_aux hash alloc pf (Suc (Suc n)) t (t_tableSize t * 2) = Ret (B_ERROR, t)"
      by (rule EnsureSize_aux_no_memory [where alloc = alloc, OF ok big np False])
    then show ?thesis
      using ok con False unfolding step
      by (intro exI [of _ None] exI [of _ t] exI [of _ ord]) (auto simp del: PutAux.simps EnsureSize_aux.simps)
  qed
qed

lemma length_le_size:
  assumes ok: "table_ok hash t ord"
  shows "length ord \<le> unat (t_tableSize t)"
proof (cases "t_table t")
  case None
  then show ?thesis using table_okD(7) [OF ok] by simp
next
  case (Some es)
  obtain free bk where "layout hash es ord free bk" using table_okD(9) [OF ok Some] by blast
  then show ?thesis using layoutD(7) table_okD(8) [OF ok Some] by fastforce
qed

lemma PutAux_ok:
  assumes H: "holds hash t ord xs" and h: "h = ComputeHash hash key" and P: "prime_bound P pf" "2 * length xs \<le> P"
  shows "\<exists>p old t' ord'. PutAux hash alloc pf (Suc (Suc (Suc n))) t h key val = Ret (p, old, t') \<and> table_ok hash t' ord' \<and>
    iter_views t' = iter_views t \<and> same_settings t t' \<and>
    (if p = None then old = None \<and> contents t' ord' = xs \<and> (\<exists>s. \<not> alloc s)
     else old = map_of xs key \<and> contents t' ord' = assoc_put (sort_orderings t) (key, val) xs)"
proof (cases "find_index t ord key")
  case (Some e)
  note ok = holdsD(1) [OF H] and con = holdsD(2) [OF H]
  have key: "key \<in> fst ` set xs" using find_index_absent [of t ord key] Some con by auto
  obtain t' v where "PutAux hash alloc pf (Suc (Suc (Suc n))) t h key val = Ret (Some e, Some v, t')"
    "map_of (contents t ord) key = Some v" "table_ok hash t' ord" "contents t' ord = replace_item (key, val) (contents t ord)"
    "iter_views t' = iter_views t" "same_settings t t'"
    using PutAux_found [where alloc = alloc, OF ok Some holdsD(3) [OF H] h, of pf "Suc (Suc n)" val] by blast
  then show ?thesis using con key
    by (intro exI [of _ "Some e"] exI [of _ "Some v"] exI [of _ t'] exI [of _ ord]) (simp add: assoc_put_def del: PutAux.simps)
next
  case None
  note ok = holdsD(1) [OF H] and con = holdsD(2) [OF H]
  have key: "key \<notin> fst ` set xs" using find_index_absent [of t ord key] None con by auto
  then have put: "assoc_put (sort_orderings t) (key, val) xs = insert_item (sort_orderings t) (key, val) xs" "map_of xs key = None"
    by (simp_all add: assoc_put_def map_of_eq_None_iff)
  show ?thesis
  proof (cases "t_table t = None \<and> \<not> alloc (t_tableSize t)")
    case True
    then have t: "t_table t = None" "\<not> alloc (t_tableSize t)" by simp_all
    let ?t = "t\<lparr>t_table := None, t_freeHead := None\<rparr>"
    have ord: "ord = []" by (rule table_okD(7) [OF ok t(1)])
    have "table_ok hash ?t ord" by (rule forget_free_ok [OF ok t(1)])
    moreover have "iter_views ?t = iter_views t" using table_okD(6) [OF ok] ord by (intro iter_views_empty) simp_all
    ultimately show ?thesis
      using PutAux_no_memory [where alloc = alloc, OF t, of hash pf "Suc (Suc n)" h key val] t con
      by (intro exI [of _ None] exI [of _ ?t] exI [of _ ord])
        (auto simp: contents_def same_settings_def simp del: PutAux.simps)
  next
    case False
    then have a: "t_table t \<noteq> None \<or> alloc (t_tableSize t)" by simp
    show ?thesis
    proof (cases "length ord < unat (t_tableSize t)")
      case True
      obtain c t' us vs where "PutAux hash alloc pf (Suc (Suc (Suc n))) t h key val = Ret (Some c, None, t')" "table_ok hash t' (us @ c # vs)"
        "contents t' (us @ c # vs) = insert_item (sort_orderings t) (key, val) (contents t ord)"
        "iter_views t' = iter_views t" "same_settings t t'"
        using PutAux_room [where alloc = alloc, OF ok None h True a, of pf "Suc (Suc n)" val] by blast
      then show ?thesis using con put
        by (intro exI [of _ "Some c"] exI [of _ None] exI [of _ t'] exI [of _ "us @ c # vs"]) (simp del: PutAux.simps)
    next
      case nofit: False
      have "length ord \<le> unat (t_tableSize t)" by (rule length_le_size [OF ok])
      then have full: "t_count t = t_tableSize t" using nofit table_okD(1) [OF ok] by (simp add: word_unat_eq_iff)
      have "2 * length ord \<le> P" using P(2) holdsD(7) [OF H] by simp
      from PutAux_full [where alloc = alloc, OF H None h full P(1) this, of n val]
      show ?thesis using put by (metis option.distinct(1))
    qed
  qed
qed

end
