(* ===== verification/Hash_Contract.thy ===== *)
theory Hash_Contract
  imports Hash_Put
begin

text \<open>
  The contract of the table, for a client that looks up, puts and removes while iterators are
  registered: the table represents a list of items and the positions of its iterators, and each
  operation is one on these. The locale states the laws; the table is its instance.
\<close>

section \<open>Calls on the represented state\<close>

datatype ('k, 'v) table_call = PutCall 'k 'v | RemoveCall 'k | GetCall 'k

type_synonym 'v answer = "status \<times> 'v option"

type_synonym ('k, 'v) seen = "('k \<times> 'v) list \<times> 'k iter_view list"

text \<open>The effect of a call, given whether it succeeded.\<close>

fun seen_call :: "('k \<times> 'v \<Rightarrow> ('k \<times> 'v) list \<Rightarrow> ('k \<times> 'v) list) \<Rightarrow> ('k, 'v) seen \<Rightarrow> ('k, 'v) table_call \<Rightarrow> status \<Rightarrow>
    'v answer \<times> ('k, 'v) seen" where
  "seen_call place (xs, vs) (PutCall k v) B_NO_ERROR = ((B_NO_ERROR, map_of xs k), (place (k, v) xs, vs))"
| "seen_call place (xs, vs) (PutCall k v) B_ERROR = ((B_ERROR, None), (xs, vs))"
| "seen_call place (xs, vs) (RemoveCall k) _ =
     (if k \<in> fst ` set xs
      then ((B_NO_ERROR, map_of xs k), (filter (\<lambda>x. fst x \<noteq> k) xs, map (leave_view (map fst xs) k) vs))
      else ((B_ERROR, None), (xs, vs)))"
| "seen_call place (xs, vs) (GetCall k) _ =
     ((if map_of xs k = None then B_ERROR else B_NO_ERROR, map_of xs k), (xs, vs))"

fun seen_calls :: "('k \<times> 'v \<Rightarrow> ('k \<times> 'v) list \<Rightarrow> ('k \<times> 'v) list) \<Rightarrow> ('k, 'v) seen \<Rightarrow> ('k, 'v) table_call list \<Rightarrow>
    'v answer list \<Rightarrow> ('k, 'v) seen \<Rightarrow> bool" where
  "seen_calls place a [] [] b = (b = a)"
| "seen_calls place a (c # cs) (r # rs) b = (fst (seen_call place a c (fst r)) = r \<and>
     seen_calls place (snd (seen_call place a c (fst r))) cs rs b)"
| "seen_calls place a _ _ b = False"

text \<open>The same answers, from a finite map.\<close>

fun map_calls :: "('k \<Rightarrow> 'v option) \<Rightarrow> ('k, 'v) table_call list \<Rightarrow> 'v answer list \<Rightarrow> ('k \<Rightarrow> 'v option) \<Rightarrow> bool" where
  "map_calls m [] [] m' = (m' = m)"
| "map_calls m (PutCall k v # cs) (r # rs) m' =
     (if fst r = B_NO_ERROR then snd r = m k \<and> map_calls (m(k \<mapsto> v)) cs rs m' else snd r = None \<and> map_calls m cs rs m')"
| "map_calls m (RemoveCall k # cs) (r # rs) m' =
     (r = (if m k = None then B_ERROR else B_NO_ERROR, m k) \<and> map_calls (m(k := None)) cs rs m')"
| "map_calls m (GetCall k # cs) (r # rs) m' =
     (r = (if m k = None then B_ERROR else B_NO_ERROR, m k) \<and> map_calls m cs rs m')"
| "map_calls m _ _ m' = False"

section \<open>The interface\<close>

fun run_table_calls :: "('s \<Rightarrow> 'c \<Rightarrow> ('a \<times> 's) run) \<Rightarrow> 's \<Rightarrow> 'c list \<Rightarrow> ('a list \<times> 's) run" where
  "run_table_calls step s [] = Ret ([], s)"
| "run_table_calls step s (c # cs) =
     bind_run (step s c) (\<lambda>(r, s). bind_run (run_table_calls step s cs) (\<lambda>(rs, s). Ret (r # rs, s)))"

fun item_count :: "('k, 'v) seen \<Rightarrow> nat" where
  "item_count (xs, vs) = length xs"

locale keyed_list =
  fixes rep :: "'s \<Rightarrow> ('k, 'v) seen \<Rightarrow> bool"
    and step :: "'s \<Rightarrow> ('k, 'v) table_call \<Rightarrow> ('v answer \<times> 's) run"
    and place :: "'k \<times> 'v \<Rightarrow> ('k \<times> 'v) list \<Rightarrow> ('k \<times> 'v) list"
    and limit :: nat and plentiful :: bool
  assumes step_law: "rep s a \<Longrightarrow> item_count a \<le> limit \<Longrightarrow>
      \<exists>r s' a'. step s c = Ret (r, s') \<and> seen_call place a c (fst r) = (r, a') \<and> rep s' a'"
    and put_law: "rep s a \<Longrightarrow> plentiful \<Longrightarrow> item_count a \<le> limit \<Longrightarrow> step s (PutCall k v) = Ret (r, s') \<Longrightarrow> fst r = B_NO_ERROR"
    and distinct_law: "rep s (xs, vs) \<Longrightarrow> distinct (map fst xs)"
    and place_law: "map_of (place (k, v) xs) = (map_of xs)(k \<mapsto> v)"
    and length_law: "length (place kv xs) \<le> Suc (length xs)"
begin

lemma item_count_call: "seen_call place a c st = (r, a') \<Longrightarrow> item_count a' \<le> Suc (item_count a)"
  by (cases "(place, a, c, st)" rule: seen_call.cases) (auto split: if_splits intro: le_SucI length_law)

lemma calls_ok:
  "rep s a \<Longrightarrow> item_count a + length cs \<le> limit \<Longrightarrow>
    \<exists>rs s' b. run_table_calls step s cs = Ret (rs, s') \<and> rep s' b \<and> seen_calls place a cs rs b"
proof (induction cs arbitrary: s a)
  case Nil
  then show ?case by (intro exI [of _ "[]"] exI [of _ s] exI [of _ a]) simp
next
  case (Cons c cs)
  obtain r s1 a1 where 1: "step s c = Ret (r, s1)" "seen_call place a c (fst r) = (r, a1)" "rep s1 a1"
    using step_law [OF Cons.prems(1), of c] Cons.prems(2) by auto
  have "item_count a1 + length cs \<le> limit" using item_count_call [OF 1(2)] Cons.prems(2) by simp
  from Cons.IH [OF 1(3) this] obtain rs s' b
    where "run_table_calls step s1 cs = Ret (rs, s')" "rep s' b" "seen_calls place a1 cs rs b" by blast
  then show ?case using 1 by (intro exI [of _ "r # rs"] exI [of _ s'] exI [of _ b]) simp
qed

text \<open>Puts do not fail where memory is plentiful.\<close>

lemma puts_succeed:
  "rep s a \<Longrightarrow> item_count a + length cs \<le> limit \<Longrightarrow> plentiful \<Longrightarrow> run_table_calls step s cs = Ret (rs, s') \<Longrightarrow>
    list_all2 (\<lambda>c r. (\<exists>k v. c = PutCall k v) \<longrightarrow> fst r = B_NO_ERROR) cs rs"
proof (induction cs arbitrary: s a rs)
  case (Cons c cs)
  obtain r s1 a1 where 1: "step s c = Ret (r, s1)" "seen_call place a c (fst r) = (r, a1)" "rep s1 a1"
    using step_law [OF Cons.prems(1), of c] Cons.prems(2) by auto
  have lim: "item_count a1 + length cs \<le> limit" using item_count_call [OF 1(2)] Cons.prems(2) by simp
  obtain rs' where rs: "rs = r # rs'" "run_table_calls step s1 cs = Ret (rs', s')"
    using Cons.prems(4) 1(1) by (auto simp: run_simps)
  have "fst r = B_NO_ERROR" if "c = PutCall k v" for k v
    using put_law [OF Cons.prems(1,3)] Cons.prems(2) 1(1) that by auto
  then show ?case using Cons.IH [OF 1(3) lim Cons.prems(3) rs(2)] rs(1) by auto
qed simp

lemma map_of_removed: "map_of (filter (\<lambda>x. fst x \<noteq> k) xs) = (map_of xs)(k := None)"
  by (induction xs) auto

lemma calls_like_map:
  "seen_calls place (xs, vs) cs rs (ys, ws) \<Longrightarrow> map_calls (map_of xs) cs rs (map_of ys)"
proof (induction cs arbitrary: xs vs rs)
  case Nil
  then show ?case by (cases rs) auto
next
  case (Cons c cs)
  obtain r rs' where rs: "rs = r # rs'" using Cons.prems by (cases rs) auto
  note p = Cons.prems [unfolded rs]
  show ?case
  proof (cases c)
    case (PutCall k v)
    show ?thesis
    proof (cases "fst r")
      case B_NO_ERROR
      then show ?thesis using p Cons.IH [of "place (k, v) xs" vs rs'] PutCall rs by (cases r) (auto simp: place_law fun_upd_def)
    next
      case B_ERROR
      then show ?thesis using p Cons.IH [of xs vs rs'] PutCall rs by (cases r) auto
    qed
  next
    case (RemoveCall k)
    have none: "map_of xs k = None \<longleftrightarrow> k \<notin> fst ` set xs" by (simp add: map_of_eq_None_iff)
    have same: "(map_of xs)(k := None) = map_of xs" if "k \<notin> fst ` set xs" using that none by auto
    show ?thesis
    proof (cases "k \<in> fst ` set xs")
      case True
      then have "map_of xs k \<noteq> None" using none by simp
      then show ?thesis
        using True p Cons.IH [of "filter (\<lambda>x. fst x \<noteq> k) xs" "map (leave_view (map fst xs) k) vs" rs'] RemoveCall rs
        by (auto simp: map_of_removed fun_upd_def)
    next
      case False
      then have "map_of xs k = None" using none by simp
      then show ?thesis using False p Cons.IH [of xs vs rs'] RemoveCall rs same by auto
    qed
  next
    case (GetCall k)
    then show ?thesis using p Cons.IH [of xs vs rs'] rs by auto
  qed
qed

end

section \<open>The table as an instance\<close>

definition table_call ::
    "('k \<Rightarrow> u32) \<Rightarrow> (u32 \<Rightarrow> bool) \<Rightarrow> nat \<Rightarrow> ('k :: default, 'v :: default) htable \<Rightarrow> ('k, 'v) table_call \<Rightarrow>
     ('v answer \<times> ('k, 'v) htable) run" where
  "table_call hash alloc pf t c = (case c of
     PutCall k v \<Rightarrow> bind_run (Put hash alloc pf t k v) (\<lambda>(st, old, t). Ret ((st, old), t))
   | RemoveCall k \<Rightarrow> bind_run (RemoveAux hash t k) (\<lambda>(st, old, t). Ret ((st, old), t))
   | GetCall k \<Rightarrow> bind_run (GetValue hash t k) (\<lambda>r. Ret ((if r = None then B_ERROR else B_NO_ERROR, r), t)))"

text \<open>\<open>seen_in hash fs t (xs, vs)\<close>: the table \<open>t\<close>, sorted by \<open>fs\<close>, holds \<open>xs\<close>, and its iterators show \<open>vs\<close>.\<close>

definition seen_in :: "('k \<Rightarrow> u32) \<Rightarrow> ('k, 'v) orderings \<Rightarrow> ('k, 'v) htable \<Rightarrow> ('k, 'v) seen \<Rightarrow> bool" where
  "seen_in hash fs t a \<longleftrightarrow> sort_orderings t = fs \<and> (\<exists>ord. holds hash t ord (fst a)) \<and> iter_views t = snd a"

lemma holds_after:
  assumes H: "holds hash t ord xs" and ok: "table_ok hash t' ord'" and ss: "same_settings t t'"
    and c: "contents t' ord' = ys" and o: "in_order (sort_orderings t) ys"
  shows "holds hash t' ord' ys"
  using assms settled_cong [OF ss] sort_orderings_cong [OF ss] by (simp add: holds_def)

lemma in_order_assoc_put:
  assumes "holds hash t ord xs"
  shows "in_order (sort_orderings t) (assoc_put (sort_orderings t) kv xs)"
  using in_order_insert [OF holdsD(4,5) [OF assms]] in_order_replace [OF settled_snd [OF holdsD(3) [OF assms]] holdsD(5) [OF assms]]
  by (simp add: assoc_put_def)

lemma Put_holds:
  assumes H: "holds hash t ord xs" and P: "prime_bound P pf" "2 * length xs \<le> P"
  shows "\<exists>st old t' ord'. Put hash alloc pf t k v = Ret (st, old, t') \<and> iter_views t' = iter_views t \<and> same_settings t t' \<and>
    (st = B_NO_ERROR \<and> old = map_of xs k \<and> holds hash t' ord' (assoc_put (sort_orderings t) (k, v) xs) \<or>
     st = B_ERROR \<and> old = None \<and> holds hash t' ord' xs \<and> (\<exists>s. \<not> alloc s))"
proof -
  have d: "put_depth = Suc (Suc (Suc 0))" by (simp add: put_depth_def)
  obtain p old t' ord' where p: "PutAux hash alloc pf put_depth t (ComputeHash hash k) k v = Ret (p, old, t')" "table_ok hash t' ord'"
    "iter_views t' = iter_views t" "same_settings t t'"
    "if p = None then old = None \<and> contents t' ord' = xs \<and> (\<exists>s. \<not> alloc s)
     else old = map_of xs k \<and> contents t' ord' = assoc_put (sort_orderings t) (k, v) xs"
    using PutAux_ok [where alloc = alloc and n = 0 and key = k and val = v, OF H refl P] unfolding d by blast
  show ?thesis
  proof (cases p)
    case None
    then have "holds hash t' ord' xs" using p(5) by (intro holds_after [OF H p(2,4) _ holdsD(5) [OF H]]) simp
    then show ?thesis using p None by (simp add: Put_def) blast
  next
    case (Some e)
    then have "holds hash t' ord' (assoc_put (sort_orderings t) (k, v) xs)"
      using p(5) by (intro holds_after [OF H p(2,4) _ in_order_assoc_put [OF H]]) simp
    then show ?thesis using p Some by (simp add: Put_def) blast
  qed
qed

lemma filter_key:
  assumes "distinct (map fst (as @ (k, v) # bs))"
  shows "filter (\<lambda>x. fst x \<noteq> k) (as @ (k, v) # bs) = as @ bs"
proof -
  have "fst x \<noteq> k" if "x \<in> set as \<union> set bs" for x using assms that by force
  then show ?thesis by simp
qed

lemma in_order_filter: "in_order fs xs \<Longrightarrow> in_order fs (filter P xs)"
  by (simp add: in_order_def sorted_wrt_filter)

lemma RemoveAux_holds:
  assumes H: "holds hash t ord xs"
  shows "\<exists>st old t' ord'. RemoveAux hash t k = Ret (st, old, t') \<and> same_settings t t' \<and>
    (if k \<in> fst ` set xs
     then st = B_NO_ERROR \<and> old = map_of xs k \<and> holds hash t' ord' (filter (\<lambda>x. fst x \<noteq> k) xs) \<and>
       iter_views t' = map (leave_view (map fst xs) k) (iter_views t)
     else st = B_ERROR \<and> old = None \<and> t' = t \<and> ord' = ord)"
proof (cases "find_index t ord k")
  case None
  then have "k \<notin> fst ` set xs" using find_index_absent [of t ord k] holdsD(2) [OF H] by simp
  then show ?thesis using RemoveAux_absent [OF holdsD(1) [OF H] None] by simp
next
  case (Some e)
  then have k: "k \<in> fst ` set xs" using find_index_absent [of t ord k] holdsD(2) [OF H] by force
  obtain us ws where ord: "ord = us @ e # ws" using find_index_split [OF holdsD(1) [OF H] Some] by blast
  obtain t' v where r: "RemoveAux hash t k = Ret (B_NO_ERROR, Some v, t')" "contents t [e] = [(k, v)]" "table_ok hash t' (us @ ws)"
    "contents t' (us @ ws) = contents t us @ contents t ws"
    "iter_views t' = map (leave_view (map fst (contents t (us @ e # ws))) k) (iter_views t)" "same_settings t t'"
    using RemoveAux_ok [of hash t us e ws k] holdsD(1) [OF H] Some unfolding ord by blast
  have xs: "xs = contents t us @ (k, v) # contents t ws"
    using holdsD(2) [OF H] r(2) contents_append [of t "[e]" ws] unfolding ord by simp
  have flt: "filter (\<lambda>x. fst x \<noteq> k) xs = contents t us @ contents t ws"
    using filter_key holdsD(6) [OF H] unfolding xs by fast
  have "map_of (contents t us) k = None" using holdsD(6) [OF H] unfolding xs by (auto simp: map_of_eq_None_iff)
  then have mk: "map_of xs k = Some v" by (simp add: xs map_add_def)
  have "holds hash t' (us @ ws) (filter (\<lambda>x. fst x \<noteq> k) xs)"
    by (rule holds_after [OF H r(3,6) _ in_order_filter [OF holdsD(5) [OF H]]]) (use flt r(4) contents_append [of t' us ws] in simp)
  moreover have "iter_views t' = map (leave_view (map fst xs) k) (iter_views t)"
    using r(5) unfolding ord [symmetric] holdsD(2) [OF H] .
  ultimately show ?thesis
    using r(1,6) k mk
    by (intro exI [of _ B_NO_ERROR] exI [of _ "Some v"] exI [of _ t'] exI [of _ "us @ ws"]) simp
qed

lemma GetValue_holds: "holds hash t ord xs \<Longrightarrow> GetValue hash t k = Ret (map_of xs k)"
  using GetValue_ok holdsD(1,2) by metis

lemma table_call_step:
  assumes S: "seen_in hash fs t a" and P: "prime_bound P pf" "2 * item_count a \<le> P"
  shows "\<exists>r t' a'. table_call hash alloc pf t c = Ret (r, t') \<and> seen_call (assoc_put fs) a c (fst r) = (r, a') \<and>
    seen_in hash fs t' a' \<and> ((\<exists>k v. c = PutCall k v) \<longrightarrow> fst r = B_ERROR \<longrightarrow> (\<exists>s. \<not> alloc s))"
proof -
  obtain xs vs where a: "a = (xs, vs)" by (cases a)
  obtain ord where H: "holds hash t ord xs" and fs: "sort_orderings t = fs" and vs: "iter_views t = vs"
    using S by (auto simp: seen_in_def a)
  show ?thesis
  proof (cases c)
    case (PutCall k v)
    obtain st old t' ord' where p: "Put hash alloc pf t k v = Ret (st, old, t')" "iter_views t' = iter_views t" "same_settings t t'"
      "st = B_NO_ERROR \<and> old = map_of xs k \<and> holds hash t' ord' (assoc_put (sort_orderings t) (k, v) xs) \<or>
       st = B_ERROR \<and> old = None \<and> holds hash t' ord' xs \<and> (\<exists>s. \<not> alloc s)"
    proof -
      have "2 * length xs \<le> P" using P(2) by (simp add: a)
      from Put_holds [where alloc = alloc, OF H P(1) this, of k v] show thesis using that by blast
    qed
    have fs': "sort_orderings t' = fs" using sort_orderings_cong [OF p(3)] fs by simp
    from p(4) show ?thesis
    proof
      assume "st = B_NO_ERROR \<and> old = map_of xs k \<and> holds hash t' ord' (assoc_put (sort_orderings t) (k, v) xs)"
      then show ?thesis using p(1,2) fs fs' vs PutCall
        by (intro exI [of _ "(st, old)"] exI [of _ t'] exI [of _ "(assoc_put fs (k, v) xs, vs)"])
          (auto simp: table_call_def a seen_in_def)
    next
      assume "st = B_ERROR \<and> old = None \<and> holds hash t' ord' xs \<and> (\<exists>s. \<not> alloc s)"
      then show ?thesis using p(1,2) fs' vs PutCall
        by (intro exI [of _ "(st, old)"] exI [of _ t'] exI [of _ "(xs, vs)"]) (auto simp: table_call_def a seen_in_def)
    qed
  next
    case (RemoveCall k)
    obtain st old t' ord' where r: "RemoveAux hash t k = Ret (st, old, t')" "same_settings t t'"
      "if k \<in> fst ` set xs
       then st = B_NO_ERROR \<and> old = map_of xs k \<and> holds hash t' ord' (filter (\<lambda>x. fst x \<noteq> k) xs) \<and>
         iter_views t' = map (leave_view (map fst xs) k) (iter_views t)
       else st = B_ERROR \<and> old = None \<and> t' = t \<and> ord' = ord"
      using RemoveAux_holds [OF H, of k] by blast
    have fs': "sort_orderings t' = fs" using sort_orderings_cong [OF r(2)] fs by simp
    show ?thesis
    proof (cases "k \<in> fst ` set xs")
      case True
      then show ?thesis using r fs' vs RemoveCall
        by (intro exI [of _ "(st, old)"] exI [of _ t'] exI [of _ "(filter (\<lambda>x. fst x \<noteq> k) xs, map (leave_view (map fst xs) k) vs)"])
          (auto simp: table_call_def a seen_in_def)
    next
      case False
      then show ?thesis using r fs' vs RemoveCall H
        by (intro exI [of _ "(st, old)"] exI [of _ t'] exI [of _ "(xs, vs)"]) (auto simp: table_call_def a seen_in_def)
    qed
  next
    case (GetCall k)
    then show ?thesis
      using GetValue_holds [OF H, of k] H fs vs
      by (intro exI [of _ "(if map_of xs k = None then B_ERROR else B_NO_ERROR, map_of xs k)"] exI [of _ t] exI [of _ a])
        (auto simp: table_call_def a seen_in_def)
  qed
qed

lemma table_keyed_list:
  assumes "prime_bound P pf"
  shows "keyed_list (seen_in hash fs) (table_call hash alloc pf) (assoc_put fs) (P div 2) (\<forall>s. alloc s)"
proof
  show "\<exists>r s' a'. table_call hash alloc pf s c = Ret (r, s') \<and> seen_call (assoc_put fs) a c (fst r) = (r, a') \<and> seen_in hash fs s' a'"
    if "seen_in hash fs s a" "item_count a \<le> P div 2" for s a c
  proof -
    have "2 * item_count a \<le> P" using that(2) by linarith
    from table_call_step [where alloc = alloc, OF that(1) assms this, of c] show ?thesis by blast
  qed
  show "fst r = B_NO_ERROR"
    if "seen_in hash fs s a" "\<forall>s. alloc s" "item_count a \<le> P div 2" "table_call hash alloc pf s (PutCall k v) = Ret (r, s')" for s a k v r s'
  proof -
    have "2 * item_count a \<le> P" using that(3) by linarith
    from table_call_step [where alloc = alloc, OF that(1) assms this, of "PutCall k v"] show ?thesis
      using that(2,4) by (cases "fst r") auto
  qed
  show "distinct (map fst xs)" if "seen_in hash fs s (xs, vs)" for s xs vs
    using that holdsD(6) by (auto simp: seen_in_def)
qed (simp_all add: map_of_assoc_put length_assoc_put)

end
