(* ===== verification/Hash_Props.thy ===== *)
theory Hash_Props
  imports Hash_Contract
begin

text \<open>
  The properties of the hash table: its calls refine a list of items and a finite map, its iterators
  survive removal, growing keeps contents and iterators, and \<open>NextPrime\<close> is within its bounds.
\<close>

section \<open>A prime bound, and the instance of the contract\<close>

lemma no_divisor_checked:
  assumes "odd n" "n < m\<^sup>2" "list_all (\<lambda>d. \<not> d dvd n) [3..<m]"
  shows "no_divisor n"
proof -
  have "\<not> (3 + 2 * l) dvd n" if l: "(3 + 2 * l)\<^sup>2 \<le> n" for l
  proof -
    have lt: "(3 + 2 * l)\<^sup>2 < m\<^sup>2" using l assms(2) by linarith
    have "3 + 2 * l < m"
    proof (rule ccontr)
      assume "\<not> 3 + 2 * l < m"
      then have "m\<^sup>2 \<le> (3 + 2 * l)\<^sup>2" by (intro power_mono) simp_all
      then show False using lt by linarith
    qed
    then show ?thesis using assms(3) by (simp add: list_all_iff)
  qed
  then show ?thesis using accepted_no_divisor [OF assms(1)] by (simp add: accepted_def)
qed

lemma prime_bound_13: "prime_bound 13 13"
proof -
  have "no_divisor 13" by (rule no_divisor_checked [of _ 4]) simp_all
  then show ?thesis by (simp add: prime_bound_def div_limit_def)
qed

lemma prime_bound_65521: "prime_bound 65521 65521"
proof -
  have "no_divisor 65521" by (rule no_divisor_checked [of _ 256]) simp_all
  then show ?thesis by (simp add: prime_bound_def div_limit_def)
qed

interpretation table_list: keyed_list "seen_in hash fs" "table_call hash alloc 65521" "assoc_put fs" "65521 div 2" "\<forall>s. alloc s"
  for hash :: "'k :: default \<Rightarrow> u32" and fs :: "('k, 'v :: default) orderings" and alloc
  by (rule table_keyed_list [OF prime_bound_65521])

lemma new_table_seen: "n \<noteq> 0 \<Longrightarrow> seen_in hash (None, None) (Hashtable_new n) ([], [])"
  by (auto simp: seen_in_def holds_def table_ok_def heads_ok_def keys_ok_def iters_ok_def contents_def settled_def
      orders_unsorted in_order_unsorted iter_views_def sort_orderings_def Hashtable_new_def)

section \<open>Stepping a registered iterator\<close>

fun advance :: "'k list \<Rightarrow> nat \<Rightarrow> 'k iter_view \<Rightarrow> 'k iter_view" where
  "advance ks i (j, bw, c, d) =
     (j, bw, if j = i then Option.bind c (succ_of (if bw then rev ks else ks)) else c, d)"

lemma cookie_step:
  assumes ok: "table_ok hash t ord" and c: "cookie_ok ord c" and con: "contents t ord = xs"
  shows "\<exists>c'. IterateCookie t c bw = Ret c' \<and> cookie_ok ord c' \<and>
    cookie_key t c' = Option.bind (cookie_key t c) (succ_of (if bw then rev (map fst xs) else map fst xs))"
proof (cases c)
  case None
  then show ?thesis by (simp add: IterateCookie_def cookie_key_def cookie_ok_def split: option.split)
next
  case (Some e)
  then have e: "e \<in> set ord" using c by (simp add: cookie_ok_def)
  then obtain es where es: "t_table t = Some es" using table_okD(7) [OF ok] by (cases "t_table t") auto
  obtain free bk where l: "layout hash es ord free bk" using table_okD(9) [OF ok es] by blast
  let ?l = "if bw then rev ord else ord" and ?k = "\<lambda>i. h_key (es ! i)"
  have "step_cookie bw (es ! e) = succ_of ?l e"
    using layoutE(1) [OF l] e by (simp add: iter_chain_def chain_def step_cookie_def)
  then have run: "IterateCookie t c bw = Ret (succ_of ?l e)"
    using layoutE(4) [OF l e] by (simp add: IterateCookie_def Some entry_ok [OF es])
  have ck: "cookie_ok ord (succ_of ?l e)" using succ_of_in_set [of ?l e] by (auto simp: cookie_ok_def split: if_splits)
  have "inj_on ?k (insert e (set ?l))" using coreD(8) [OF layoutE(2) [OF l]] e by (auto simp: insert_absorb)
  from succ_of_map [OF this] have "succ_of (map ?k ?l) (?k e) = map_option ?k (succ_of ?l e)" .
  moreover have "map fst xs = map ?k ord" using con es by (auto simp: contents_Some)
  ultimately show ?thesis
    using run ck es by (intro exI [of _ "succ_of ?l e"]) (simp add: cookie_key_def Some rev_map split: if_splits)
qed

lemma next_registered_ok:
  assumes H: "holds hash t ord xs" and u: "distinct (map fst (iter_views t))" and v: "(i, bw, c, d) \<in> set (iter_views t)"
  shows "\<exists>t'. next_registered t i = Ret (c, t') \<and> holds hash t' ord xs \<and>
    iter_views t' = map (advance (map fst xs) i) (iter_views t) \<and> same_settings t t'"
proof -
  note ok = holdsD(1) [OF H] and con = holdsD(2) [OF H]
  obtain it where it: "it \<in> set (t_iterList t)" "iter_view t it = (i, bw, c, d)" using v by (auto simp: iter_views_def)
  then have fields: "i_id it = i" "i_backwards it = bw" "cookie_key t (i_nextKeyCookie it) = c" by (simp_all add: iter_view_def)
  have ids: "distinct (map i_id (t_iterList t))" using u by (simp add: iter_views_def iter_view_def o_def)
  have uniq: "x = it" if "x \<in> set (t_iterList t)" "i_id x = i" for x
    using ids that it(1) fields(1) by (auto simp: distinct_map dest: inj_onD)
  have "find (\<lambda>x. i_id x = i) (t_iterList t) \<noteq> None" using it(1) fields(1) by (auto simp: find_None_iff)
  then obtain x where x: "find (\<lambda>x. i_id x = i) (t_iterList t) = Some x" by blast
  then have "x \<in> set (t_iterList t)" "i_id x = i" unfolding find_Some_iff by (auto simp: in_set_conv_nth)
  with x uniq have f: "find (\<lambda>x. i_id x = i) (t_iterList t) = Some it" by simp
  have ck: "cookie_ok ord (i_nextKeyCookie it)" using table_okD(6) [OF ok] it(1) by (simp add: iters_ok_def)
  obtain c' where c': "IterateCookie t (i_nextKeyCookie it) bw = Ret c'" "cookie_ok ord c'"
    "cookie_key t c' = Option.bind c (succ_of (if bw then rev (map fst xs) else map fst xs))"
    using cookie_step [OF ok ck con, of bw] fields(3) by blast
  have step: "\<exists>it'. GetNextKey t it = Ret (c, it') \<and> i_id it' = i \<and> i_backwards it' = bw \<and>
      i_nextValueCookie it' = i_nextValueCookie it \<and> cookie_ok ord (i_nextKeyCookie it') \<and>
      cookie_key t (i_nextKeyCookie it') = Option.bind c (succ_of (if bw then rev (map fst xs) else map fst xs))"
  proof (cases "i_nextKeyCookie it")
    case None
    then have "c = None" using fields(3) by (simp add: cookie_key_def split: option.splits)
    then show ?thesis using None fields ck by (intro exI [of _ it]) (simp add: GetNextKey_def PeekNextKey_def)
  next
    case (Some e)
    then have "e \<in> set ord" using ck by (simp add: cookie_ok_def)
    then obtain es where es: "t_table t = Some es" using table_okD(7) [OF ok] by (cases "t_table t") auto
    obtain free bk where l: "layout hash es ord free bk" using table_okD(9) [OF ok es] by blast
    have "e < length es" "c = Some (h_key (es ! e))" using layoutE(4) [OF l \<open>e \<in> set ord\<close>] fields(3) es Some by (simp_all add: cookie_key_def)
    then show ?thesis using c' Some fields
      by (intro exI [of _ "it\<lparr>i_nextKeyCookie := c'\<rparr>"]) (simp add: GetNextKey_def PeekNextKey_def entry_ok [OF es])
  qed
  then obtain it' where n: "GetNextKey t it = Ret (c, it')" "i_id it' = i" "i_backwards it' = bw"
    "i_nextValueCookie it' = i_nextValueCookie it" "cookie_ok ord (i_nextKeyCookie it')"
    "cookie_key t (i_nextKeyCookie it') = Option.bind c (succ_of (if bw then rev (map fst xs) else map fst xs))" by blast
  obtain t' where t': "t' = t\<lparr>t_iterList := map (\<lambda>x. if i_id x = i then it' else x) (t_iterList t)\<rparr>" by simp
  have "iters_ok ord (map (\<lambda>x. if i_id x = i then it' else x) (t_iterList t))"
    using table_okD(6) [OF ok] it(1) n(4,5) by (auto simp: iters_ok_def)
  then have ok': "table_ok hash t' ord" using ok unfolding t' by (auto simp: table_ok_def heads_ok_def keys_ok_def split: option.splits)
  have ss: "same_settings t t'" by (simp add: same_settings_def t')
  have "contents t' ord = xs" using con by (simp add: contents_def t')
  then have H': "holds hash t' ord xs" by (rule holds_after [OF H ok' ss _ holdsD(5) [OF H]])
  have ckt: "cookie_key t' = cookie_key t" by (simp add: fun_eq_iff cookie_key_def t')
  have "iter_view t' (if i_id x = i then it' else x) = advance (map fst xs) i (iter_view t x)" if "x \<in> set (t_iterList t)" for x
    using uniq [OF that] n fields by (auto simp: iter_view_def ckt)
  then have "iter_views t' = map (advance (map fst xs) i) (iter_views t)" by (simp add: iter_views_def t' [symmetric]) (simp add: t')
  moreover have "next_registered t i = Ret (c, t')" using f n(1) by (simp add: next_registered_def t')
  ultimately show ?thesis using H' ss by blast
qed

text \<open>A client loop: remove each key that the iterator \<open>i\<close> returns.\<close>

fun remove_while_iterating ::
    "('k \<Rightarrow> u32) \<Rightarrow> nat \<Rightarrow> ('k :: default, 'v :: default) htable \<Rightarrow> nat \<Rightarrow> ('k list \<times> ('k, 'v) htable) run" where
  "remove_while_iterating hash 0 t i = NoFuel"
| "remove_while_iterating hash (Suc n) t i =
     bind_run (next_registered t i) (\<lambda>(k, t). case k of
       None \<Rightarrow> Ret ([], t)
     | Some k \<Rightarrow> bind_run (RemoveAux hash t k) (\<lambda>(_, _, t).
         bind_run (remove_while_iterating hash n t i) (\<lambda>(ks, t). Ret (k # ks, t))))"

abbreviation facing :: "bool \<Rightarrow> 'a list \<Rightarrow> 'a list" where
  "facing bw xs \<equiv> (if bw then rev xs else xs)"

lemma fst_advance [simp]: "fst (advance ks i v) = fst v"
  by (cases v) simp

lemma fst_leave_view [simp]: "fst (leave_view ks k v) = fst v"
  by (cases v) simp

lemma facing_filter:
  assumes "facing bw (map fst xs) = k # ks" "distinct (map fst xs)"
  shows "facing bw (map fst (filter (\<lambda>x. fst x \<noteq> k) xs)) = ks" "k \<notin> set ks" "k \<in> fst ` set xs"
    "length (filter (\<lambda>x. fst x \<noteq> k) xs) < length xs"
proof -
  have "map fst (filter (\<lambda>x. fst x \<noteq> k) xs) = filter (\<lambda>y. y \<noteq> k) (map fst xs)" by (simp add: filter_map o_def)
  moreover have "facing bw (filter (\<lambda>y. y \<noteq> k) (map fst xs)) = filter (\<lambda>y. y \<noteq> k) (facing bw (map fst xs))"
    by (simp add: rev_filter)
  moreover have "distinct (facing bw (map fst xs))" using assms(2) by simp
  then have k: "k \<notin> set ks" using assms(1) by simp
  then have "filter (\<lambda>y. y \<noteq> k) (k # ks) = ks" by (auto simp: filter_id_conv)
  ultimately show "facing bw (map fst (filter (\<lambda>x. fst x \<noteq> k) xs)) = ks" using assms(1) by (cases bw) simp_all
  show "k \<notin> set ks" by (rule k)
  have "k \<in> set (facing bw (map fst xs))" using assms(1) by simp
  then show "k \<in> fst ` set xs" by (auto split: if_splits)
  then show "length (filter (\<lambda>x. fst x \<noteq> k) xs) < length xs" by (auto intro: length_filter_less)
qed

lemma remove_while_iterating_ok:
  assumes "holds hash t ord xs" "distinct (map fst (iter_views t))" "(i, bw, first (facing bw (map fst xs)), d) \<in> set (iter_views t)"
    "length xs < n"
  shows "\<exists>t' ord'. remove_while_iterating hash n t i = Ret (facing bw (map fst xs), t') \<and> holds hash t' ord' []"
  using assms
proof (induction n arbitrary: t ord xs d)
  case (Suc n)
  obtain t1 where t1: "next_registered t i = Ret (first (facing bw (map fst xs)), t1)" "holds hash t1 ord xs"
    "iter_views t1 = map (advance (map fst xs) i) (iter_views t)"
    using next_registered_ok [OF Suc.prems(1-3)] by blast
  show ?case
  proof (cases "facing bw (map fst xs)")
    case Nil
    then have "xs = []" by (simp split: if_splits)
    then show ?thesis using t1 by auto
  next
    case (Cons k ks)
    note dk = holdsD(6) [OF t1(2)]
    note ff = facing_filter [OF Cons dk]
    obtain st old t2 ord2 where r: "RemoveAux hash t1 k = Ret (st, old, t2)" "holds hash t2 ord2 (filter (\<lambda>x. fst x \<noteq> k) xs)"
      "iter_views t2 = map (leave_view (map fst xs) k) (iter_views t1)"
      using RemoveAux_holds [OF t1(2), of k] ff(3) by auto
    have "(i, bw, first ks, d) \<in> set (iter_views t1)"
      using Suc.prems(3) Cons unfolding t1(3) by (force simp: image_iff intro!: bexI [of _ "(i, bw, Some k, d)"])
    then have v2: "(i, bw, first ks, leave_key (map fst xs) k bw d) \<in> set (iter_views t2)"
      using ff(2) unfolding r(3) by (force simp: leave_key_def dest: first_in_set intro!: image_eqI [of _ _ "(i, bw, first ks, d)"])
    have "map fst (iter_views t2) = map fst (iter_views t)" by (simp add: r(3) t1(3) o_def)
    then have "\<exists>t' ord'. remove_while_iterating hash n t2 i =
        Ret (facing bw (map fst (filter (\<lambda>x. fst x \<noteq> k) xs)), t') \<and> holds hash t' ord' []"
      using Suc.prems(2,4) v2 ff(1,4) by (intro Suc.IH [OF r(2)]) (simp_all only: first.simps)
    then show ?thesis using t1(1) r(1) ff(1) Cons by auto
  qed
qed simp

lemma first_map: "first (map f xs) = map_option f (first xs)"
  by (cases xs) simp_all

lemma InitializeIterator_ok:
  assumes H: "holds hash t ord xs"
  shows "\<exists>t'. snd (InitializeIterator t i bw False) = t' \<and> holds hash t' ord xs \<and>
    iter_views t' = (i, bw, first (facing bw (map fst xs)), first (facing bw (map fst xs))) # iter_views t"
proof -
  note ok = holdsD(1) [OF H] and con = holdsD(2) [OF H]
  let ?c = "if bw then t_iterTail t else t_iterHead t"
  let ?it = "\<lparr>i_id = i, i_backwards = bw, i_noregister = False, i_nextKeyCookie = ?c, i_nextValueCookie = ?c\<rparr>"
  obtain t' where t': "t' = t\<lparr>t_iterList := ?it # t_iterList t\<rparr>" by simp
  have c: "?c = first (facing bw ord)" using table_okD(2,3) [OF ok] by simp
  have "cookie_ok ord ?c" unfolding c using first_in_set [of "facing bw ord"] by (auto simp: cookie_ok_def split: if_splits)
  then have "iters_ok ord (?it # t_iterList t)" using table_okD(6) [OF ok] by (simp add: iters_ok_def)
  then have ok': "table_ok hash t' ord" using ok unfolding t' by (auto simp: table_ok_def heads_ok_def keys_ok_def split: option.splits)
  have ss: "same_settings t t'" by (simp add: same_settings_def t')
  have "contents t' ord = xs" using con by (simp add: contents_def t')
  then have H': "holds hash t' ord xs" by (rule holds_after [OF H ok' ss _ holdsD(5) [OF H]])
  have ckt: "cookie_key t' = cookie_key t" by (simp add: fun_eq_iff cookie_key_def t')
  have key: "cookie_key t ?c = first (facing bw (map fst xs))"
  proof (cases "t_table t")
    case None
    then show ?thesis using con by (auto simp: cookie_key_def contents_def)
  next
    case (Some es)
    have "map fst xs = map (\<lambda>i. h_key (es ! i)) ord" using con Some by (auto simp: contents_Some)
    then show ?thesis unfolding c cookie_key_def Some by (simp add: rev_map first_map)
  qed
  have "iter_view t' = iter_view t" by (simp add: fun_eq_iff iter_view_def ckt)
  then have "iter_views t' = (i, bw, cookie_key t ?c, cookie_key t ?c) # iter_views t"
    by (simp add: iter_views_def t') (simp add: iter_view_def)
  moreover have "snd (InitializeIterator t i bw False) = t'" by (simp add: InitializeIterator_def RegisterIterator_def t' Let_def)
  ultimately show ?thesis using H' key by simp
qed

section \<open>Properties\<close>

text \<open>A small table: three slots at first, and a hash function with collisions.\<close>

definition ex_hash :: "u32 \<Rightarrow> u32" where
  "ex_hash k = k mod 4"

definition ex_calls :: "(u32, u32) table_call list" where
  "ex_calls = [PutCall 5 1, PutCall 3 2, PutCall 9 7, PutCall 1 4]"

definition ex_run :: "(u32 answer list \<times> (u32, u32) htable) run" where
  "ex_run = run_table_calls (table_call ex_hash (\<lambda>_. True) 13) (Hashtable_new 3) ex_calls"

definition ex_table :: "(u32, u32) htable" where
  "ex_table = (case ex_run of Ret (_, t) \<Rightarrow> t | _ \<Rightarrow> Hashtable_new 3)"

lemma ex_table_seen: "seen_in ex_hash (None, None) ex_table ([(5, 1), (3, 2), (9, 7), (1, 4)], [])"
proof -
  have n: "item_count ([], []) + length ex_calls \<le> 13 div 2" by (simp add: ex_calls_def)
  note k = table_keyed_list [OF prime_bound_13, of ex_hash "(None, None) :: (u32, u32) orderings" "\<lambda>_. True"]
  have s: "seen_in ex_hash (None, None) (Hashtable_new 3 :: (u32, u32) htable) ([], [])" by (rule new_table_seen) simp
  obtain rs t b where r: "run_table_calls (table_call ex_hash (\<lambda>_. True) 13) (Hashtable_new 3) ex_calls = Ret (rs, t)"
    "seen_in ex_hash (None, None) t b" "seen_calls (assoc_put (None, None)) ([], []) ex_calls rs b"
    using keyed_list.calls_ok [OF k s n] by blast
  have "list_all2 (\<lambda>c r. (\<exists>k v. c = PutCall k v) \<longrightarrow> fst r = B_NO_ERROR) ex_calls rs"
    using keyed_list.puts_succeed [OF k s n _ r(1)] by simp
  then have "b = ([(5, 1), (3, 2), (9, 7), (1, 4)], [])"
    using r(3) by (auto simp: ex_calls_def list_all2_Cons1 assoc_put_def insert_item_unsorted)
  then show ?thesis using r(1,2) by (simp add: ex_table_def ex_run_def)
qed

text \<open>
  C21: any sequence of puts, removals and look-ups leaves the table in a good state and answers like the
  list of its items in the order of iteration, and like a finite map. A put can only fail for lack
  of memory, and then changes nothing.
\<close>

theorem table_calls_refine:
  assumes "prime_bound P pf" "seen_in hash fs t (xs, vs)" "2 * (length xs + length cs) \<le> P"
  shows "\<exists>rs t' ys ws. run_table_calls (table_call hash alloc pf) t cs = Ret (rs, t') \<and> seen_in hash fs t' (ys, ws) \<and>
    seen_calls (assoc_put fs) (xs, vs) cs rs (ys, ws) \<and> map_calls (map_of xs) cs rs (map_of ys) \<and>
    ((\<forall>s. alloc s) \<longrightarrow> list_all2 (\<lambda>c r. (\<exists>k v. c = PutCall k v) \<longrightarrow> fst r = B_NO_ERROR) cs rs)"
proof -
  note k = table_keyed_list [OF assms(1), of hash fs alloc]
  have n: "item_count (xs, vs) + length cs \<le> P div 2" using assms(3) by simp
  obtain rs t' b where r: "run_table_calls (table_call hash alloc pf) t cs = Ret (rs, t')" "seen_in hash fs t' b"
    "seen_calls (assoc_put fs) (xs, vs) cs rs b"
    using keyed_list.calls_ok [OF k assms(2) n] by blast
  obtain ys ws where b: "b = (ys, ws)" by (cases b)
  show ?thesis
    using r keyed_list.calls_like_map [OF k, of xs vs cs rs ys ws] keyed_list.puts_succeed [OF k assms(2) n _ r(1)]
    unfolding b by blast
qed

lemma table_calls_refine_witness:
  "\<exists>t'. run_table_calls (table_call ex_hash (\<lambda>_. True) 13) ex_table [RemoveCall 3, PutCall 9 8] =
      Ret ([(B_NO_ERROR, Some 2), (B_NO_ERROR, Some 7)], t') \<and>
    seen_in ex_hash (None, None) t' ([(5, 1), (9, 8), (1, 4)], [])"
proof -
  have "2 * (length [(5, 1), (3, 2), (9, 7), (1 :: u32, 4 :: u32)] + length [RemoveCall 3, PutCall 9 8 :: (u32, u32) table_call]) \<le> 13"
    by simp
  from table_calls_refine [OF prime_bound_13 ex_table_seen this, of "\<lambda>_. True"] show ?thesis
    by (auto simp: list_all2_Cons1 assoc_put_def replace_item_def simp del: run_table_calls.simps)
qed

text \<open>
  C22: an iterator stays valid while the entries it returns are removed: a loop that removes each
  key that its registered iterator returns sees every key once, in order or backwards, and leaves
  the table empty.
\<close>

theorem removal_while_iterating:
  assumes "holds hash t ord xs" "distinct (map fst (iter_views t))" "i \<notin> fst ` set (iter_views t)"
  shows "\<exists>t' ord'. remove_while_iterating hash (Suc (length xs)) (snd (InitializeIterator t i backwards False)) i =
      Ret (if backwards then rev (map fst xs) else map fst xs, t') \<and> holds hash t' ord' []"
proof -
  obtain t1 where t1: "snd (InitializeIterator t i backwards False) = t1" "holds hash t1 ord xs"
    "iter_views t1 = (i, backwards, first (facing backwards (map fst xs)), first (facing backwards (map fst xs))) # iter_views t"
    using InitializeIterator_ok [OF assms(1)] by blast
  show ?thesis
    unfolding t1(1)
    by (rule remove_while_iterating_ok [OF t1(2), where d = "first (facing backwards (map fst xs))"]) (simp_all add: t1(3) assms)
qed

lemma removal_while_iterating_witness:
  "\<exists>t' ord'. remove_while_iterating ex_hash 5 (snd (InitializeIterator ex_table 1 True False)) 1 = Ret ([1, 9, 3, 5], t') \<and>
    holds ex_hash t' ord' []"
proof -
  obtain ord where "holds ex_hash ex_table ord [(5, 1), (3, 2), (9, 7), (1, 4)]" "iter_views ex_table = []"
    using ex_table_seen by (auto simp: seen_in_def)
  from removal_while_iterating [OF this(1), of 1 True] this(2) show ?thesis by (simp add: eval_nat_numeral)
qed

text \<open>
  C39: \<open>EnsureSize\<close> gives the table the requested number of slots and keeps its items, their order and the
  positions of the iterators, although every entry moves; without memory it leaves the table alone.
\<close>

theorem EnsureSize_keeps:
  assumes "prime_bound P pf" "holds hash t ord xs" "unat requestedSize \<le> P"
  shows "\<exists>st t' ord'. Hashtable_EnsureSize hash alloc pf t requestedSize = Ret (st, t') \<and> holds hash t' ord' xs \<and>
    iter_views t' = iter_views t \<and> (st = B_NO_ERROR \<longrightarrow> requestedSize \<le> t_tableSize t') \<and>
    (st = B_ERROR \<longrightarrow> t' = t \<and> (\<exists>s. \<not> alloc s))"
proof (cases "t_tableSize t < requestedSize")
  case False
  then have "requestedSize \<le> t_tableSize t" by simp
  then have "Hashtable_EnsureSize hash alloc pf t requestedSize = Ret (B_NO_ERROR, t)"
    by (simp add: Hashtable_EnsureSize_def put_depth_def eval_nat_numeral)
  then show ?thesis using assms(2) False by auto
next
  case True
  note ok = holdsD(1) [OF assms(2)] and con = holdsD(2) [OF assms(2)]
  have d: "put_depth = Suc (Suc 1)" by (simp add: put_depth_def)
  have "t_count t \<le> t_tableSize t" using length_le_size [OF ok] table_okD(1) [OF ok] by (simp add: word_le_nat_alt)
  then have le: "t_count t \<le> requestedSize" using True by simp
  have nz: "requestedSize \<noteq> 0" using True by auto
  obtain p where np: "NextPrime pf (max (t_count t) requestedSize) = Ret p" "requestedSize \<le> p"
    using NextPrime_growth [OF assms(1,3) le nz] by blast
  show ?thesis
  proof (cases "alloc p \<or> ord = []")
    case a: True
    obtain t' ord' where e: "EnsureSize_aux hash alloc pf (Suc (Suc 1)) t requestedSize = Ret (B_NO_ERROR, t')"
      "table_ok hash t' ord'" "contents t' ord' = insert_all (sort_orderings t) (contents t ord) []"
      "iter_views t' = iter_views t" "same_settings t t'" "t_tableSize t' = p"
      using EnsureSize_aux_ok [where alloc = alloc, OF ok True np a] by blast
    have "contents t' ord' = xs"
      using e(3) insert_all_in_order [of "sort_orderings t" "[]" xs] holdsD(5) [OF assms(2)] con by simp
    then have "holds hash t' ord' xs" by (rule holds_after [OF assms(2) e(2,5) _ holdsD(5) [OF assms(2)]])
    then show ?thesis using e np(2) unfolding Hashtable_EnsureSize_def d by blast
  next
    case False
    then have "EnsureSize_aux hash alloc pf (Suc (Suc 1)) t requestedSize = Ret (B_ERROR, t)"
      by (intro EnsureSize_aux_no_memory [where alloc = alloc, OF ok True np(1)]) simp_all
    then show ?thesis using assms(2) False unfolding Hashtable_EnsureSize_def d by auto
  qed
qed

lemma EnsureSize_keeps_witness:
  "\<exists>st t' ord'. Hashtable_EnsureSize ex_hash (\<lambda>_. True) 13 ex_table 12 = Ret (st, t') \<and>
    holds ex_hash t' ord' [(5, 1), (3, 2), (9, 7), (1, 4)] \<and> 12 \<le> t_tableSize t'"
proof -
  obtain ord where h: "holds ex_hash ex_table ord [(5, 1), (3, 2), (9, 7), (1, 4)]"
    using ex_table_seen by (auto simp: seen_in_def)
  have "unat (12 :: u32) \<le> 13" by simp
  from EnsureSize_keeps [OF prime_bound_13 h this, of "\<lambda>_. True"] show ?thesis
    by (metis (full_types) status.exhaust)
qed

text \<open>
  C40: \<open>NextPrime\<close> returns, below \<open>65535\<^sup>2\<close> and if a prime \<open>P\<close> is ahead, the least odd number from the start on
  that has no divisor; it does not pass \<open>P\<close>, and neither loop runs for ever.
\<close>

theorem NextPrime_least:
  assumes "odd P" "no_divisor P" "P < 65535\<^sup>2" "unat start \<le> P" "P - unat start < fuel"
  shows "\<exists>r. NextPrime fuel start = Ret r \<and> unat start \<le> unat r \<and> unat r \<le> P \<and> odd (unat r) \<and> no_divisor (unat r) \<and>
    (\<forall>q. unat start \<le> q \<longrightarrow> q < unat r \<longrightarrow> odd q \<longrightarrow> \<not> no_divisor q)"
  using NextPrime_ok [of P start fuel] assms by (simp add: div_limit_def)

lemma NextPrime_least_witness:
  "\<exists>r. NextPrime 10 6 = Ret r \<and> 6 \<le> unat r \<and> unat r \<le> 13 \<and> no_divisor (unat r)"
proof -
  have p: "odd (13 :: nat)" "no_divisor 13" "(13 :: nat) < 65535\<^sup>2" "unat (6 :: u32) \<le> 13" "13 - unat (6 :: u32) < 10"
    using prime_bound_13 by (simp_all add: prime_bound_def)
  from NextPrime_least [OF p] show ?thesis by auto
qed

end
