(* ===== verification/Match_Model.thy ===== *)
theory Match_Model
  imports Muscle_Prelude
begin

text \<open>
  The pattern matcher of \<^verbatim>\<open>regex/StringMatcher.cpp\<close>: wildcard patterns, which it translates into
  regular expressions, and ranges of integers. The regular-expression library is the pair
  of parameters \<open>regcomp\<close> (\<open>None\<close>: the expression is rejected) and \<open>regexec\<close> (whether it does not
  return \<open>REG_NOMATCH\<close>). A string is the list of its characters before the terminator.
\<close>

section \<open>Characters\<close>

abbreviation backslash :: char where "backslash \<equiv> CHR 0x5C"

definition in_chars :: "char \<Rightarrow> char \<Rightarrow> char \<Rightarrow> bool" where
  "in_chars lo hi c \<longleftrightarrow> (of_char lo :: nat) \<le> of_char c \<and> (of_char c :: nat) \<le> of_char hi"

abbreviation is_digit :: "char \<Rightarrow> bool" where "is_digit \<equiv> in_chars (CHR ''0'') (CHR ''9'')"

text \<open>\<open>atoi\<close> of the C library: white space, a sign, digits; undefined if the value is not an \<open>int\<close>.\<close>

definition is_space :: "char \<Rightarrow> bool" where
  "is_space c \<longleftrightarrow> c = CHR '' '' \<or> in_chars (CHR 0x09) (CHR 0x0D) c"

definition digits_value :: "string \<Rightarrow> int" where
  "digits_value s = foldl (\<lambda>v c. 10 * v + (of_char c - of_char (CHR ''0''))) 0 (takeWhile is_digit s)"

definition atoi :: "string \<Rightarrow> int run" where
  "atoi s =
     (let s = dropWhile is_space s;
          v = (case s of
                 [] \<Rightarrow> 0
               | c # cs \<Rightarrow> if c = CHR ''-'' then - digits_value cs
                           else if c = CHR ''+'' then digits_value cs else digits_value s)
      in bind_run (guard (- (2 ^ 31) \<le> v \<and> v < 2 ^ 31)) (\<lambda>_. Ret v))"

section \<open>Tokens\<close>

definition IsRegexToken :: "char \<Rightarrow> bool \<Rightarrow> bool" where
  "IsRegexToken c isFirstCharInString =
     (if c \<in> set ''[]*?,|()=^+${}:-'' \<or> c = backslash then True
      else if c \<in> set ''<~'' then isFirstCharInString
      else False)"

fun has_tokens_from :: "bool \<Rightarrow> string \<Rightarrow> bool" where
  "has_tokens_from isFirst [] = False"
| "has_tokens_from isFirst (c # cs) = (if IsRegexToken c isFirst then True else has_tokens_from False cs)"

definition HasRegexTokens :: "string \<Rightarrow> bool" where
  "HasRegexTokens str = has_tokens_from True str"

fun escape_from :: "bool \<Rightarrow> string option \<Rightarrow> string \<Rightarrow> string" where
  "escape_from isFirst optTokens [] = []"
| "escape_from isFirst optTokens (c # cs) =
     (if (case optTokens of Some ts \<Rightarrow> c \<in> set ts | None \<Rightarrow> IsRegexToken c isFirst) then [backslash] else []) @
     c # escape_from False optTokens cs"

definition EscapeRegexTokens :: "string \<Rightarrow> string option \<Rightarrow> string" where
  "EscapeRegexTokens s optTokens = escape_from True optTokens s"

text \<open>Both cases of a letter, as a bracket expression; the result and whether it differs.\<close>

definition char_plus :: "char \<Rightarrow> int \<Rightarrow> char" where
  "char_plus c n = char_of (of_char c + n)"

fun case_insensitive :: "string \<Rightarrow> string \<times> bool" where
  "case_insensitive [] = ([], False)"
| "case_insensitive (c # cs) =
     (let (ret, changed) = case_insensitive cs
      in if in_chars (CHR ''A'') (CHR ''Z'') c then (CHR ''['' # c # char_plus c 32 # CHR '']'' # ret, True)
         else if in_chars (CHR ''a'') (CHR ''z'') c then (CHR ''['' # c # char_plus c (- 32) # CHR '']'' # ret, True)
         else (c # ret, changed))"

definition MakeRegexCaseInsensitive :: "string \<Rightarrow> bool \<times> string" where
  "MakeRegexCaseInsensitive str =
     (let (ret, changed) = case_insensitive str in (changed, if changed then ret else str))"

section \<open>The matcher\<close>

definition MUSCLE_NO_LIMIT :: u32 where "MUSCLE_NO_LIMIT = - 1"

text \<open>The compiled expression is \<open>Some\<close> if \<open>_regExpValid\<close>.\<close>

record 'r matcher =
  m_regExp :: "'r option"
  m_negate :: bool
  m_hasRegexTokens :: bool
  m_pattern :: string
  m_rangeMin :: u32
  m_rangeMax :: u32

definition StringMatcher_new :: "'r matcher" where
  "StringMatcher_new = \<lparr>m_regExp = None, m_negate = False, m_hasRegexTokens = False, m_pattern = [],
     m_rangeMin = MUSCLE_NO_LIMIT, m_rangeMax = MUSCLE_NO_LIMIT\<rparr>"

text \<open>The range of a pattern such as \<open><15-23>\<close>, or \<open>MUSCLE_NO_LIMIT\<close> twice.\<close>

definition parse_range :: "string \<Rightarrow> (u32 \<times> u32) run" where
  "parse_range str =
     (if str \<noteq> [] \<and> hd str = CHR ''<'' then
        case dropWhile (\<lambda>c. c \<noteq> CHR ''-'') (tl str) of
          [] \<Rightarrow> Ret (MUSCLE_NO_LIMIT, MUSCLE_NO_LIMIT)
        | dash # rest \<Rightarrow>
            if last (dash # rest) = CHR ''>'' then
              bind_run (if hd (tl str) = CHR ''-'' then Ret 0 else atoi (tl str)) (\<lambda>lo.
              bind_run (if hd rest = CHR ''>'' then Ret (- 1)
                        else if hd rest = CHR ''-'' then Ret 0 else atoi rest) (\<lambda>hi.
                Ret (word_of_int lo, word_of_int hi)))
            else Ret (MUSCLE_NO_LIMIT, MUSCLE_NO_LIMIT)
      else Ret (MUSCLE_NO_LIMIT, MUSCLE_NO_LIMIT))"

text \<open>The loop over the characters; the flag is \<open>escapeMode\<close>.\<close>

fun translate :: "bool \<Rightarrow> string \<Rightarrow> string" where
  "translate escapeMode [] = (if escapeMode then [backslash] else [])"
| "translate True (c # cs) = c # translate False cs"
| "translate False (c # cs) =
     (if c = CHR '','' then CHR ''|'' # translate False cs
      else if c = CHR ''.'' then [backslash, c] @ translate False cs
      else if c = CHR ''*'' then [CHR ''.'', c] @ translate False cs
      else if c = CHR ''?'' then CHR ''.'' # translate False cs
      else if c = backslash then c # translate True cs
      else c # translate False cs)"

definition skip_escaped :: "string \<Rightarrow> string" where
  "skip_escaped str = (case str of
     a # b # _ \<Rightarrow> if a = backslash \<and> b = CHR ''<'' then tl str else str
   | _ \<Rightarrow> str)"

definition simple_pattern :: "string \<Rightarrow> string" where
  "simple_pattern str = ''^('' @ translate False (skip_escaped str) @ '')$''"

definition SetPattern :: "(string \<Rightarrow> 'r option) \<Rightarrow> 'r matcher \<Rightarrow> string \<Rightarrow> bool \<Rightarrow> (status \<times> 'r matcher) run" where
  "SetPattern regcomp m s isSimple =
     (let m = m\<lparr>m_pattern := s, m_hasRegexTokens := HasRegexTokens s\<rparr>;
          negated = (s \<noteq> [] \<and> hd s = CHR ''~'');
          str = (if isSimple \<and> negated then tl s else s);
          m = (if isSimple then m\<lparr>m_negate := negated\<rparr> else m)
      in bind_run (if isSimple then parse_range str else Ret (MUSCLE_NO_LIMIT, MUSCLE_NO_LIMIT)) (\<lambda>(lo, hi).
           let m = m\<lparr>m_rangeMin := lo, m_rangeMax := hi, m_regExp := None\<rparr>
           in if lo = MUSCLE_NO_LIMIT then
                let r = regcomp (if isSimple then simple_pattern str else str)
                in Ret (if r \<noteq> None then B_NO_ERROR else B_ERROR, m\<lparr>m_regExp := r\<rparr>)
              else Ret (B_NO_ERROR, m)))"

definition Match :: "('r \<Rightarrow> string \<Rightarrow> bool) \<Rightarrow> 'r matcher \<Rightarrow> string \<Rightarrow> bool run" where
  "Match regexec m str =
     bind_run
       (if m_rangeMin m = MUSCLE_NO_LIMIT then
          Ret (case m_regExp m of Some r \<Rightarrow> regexec r str | None \<Rightarrow> False)
        else if str \<noteq> [] \<and> is_digit (hd str) then
          bind_run (atoi str) (\<lambda>v. Ret (m_rangeMin m \<le> word_of_int v \<and> word_of_int v \<le> m_rangeMax m))
        else Ret False)
       (\<lambda>ret. Ret (if m_negate m then \<not> ret else ret))"

definition SetNegate :: "'r matcher \<Rightarrow> bool \<Rightarrow> 'r matcher" where
  "SetNegate m negate = m\<lparr>m_negate := negate\<rparr>"

definition IsPatternUnique :: "'r matcher \<Rightarrow> bool" where
  "IsPatternUnique m \<longleftrightarrow> \<not> m_hasRegexTokens m \<and> \<not> m_negate m \<and> m_rangeMin m = MUSCLE_NO_LIMIT"

end
