(* ===== verification/Path_Model.thy ===== *)
theory Path_Model
  imports Match_Model
begin

text \<open>
  Paths with wildcards: \<^verbatim>\<open>regex/PathMatcher.cpp\<close>, and the tokenizer of
  \<^verbatim>\<open>util/StringTokenizer.h\<close>. The table of entries is the list of its items in iteration order,
  as the theories on the hash table show it to be. A query filter is an object of an abstract
  class with one operation, which is the parameter \<open>fmatch\<close>. The parameter \<open>alloc\<close> says which
  requests for memory are granted; \<open>k\<close> counts them.
\<close>

section \<open>Tables of items\<close>

text \<open>\<open>Put\<close> on an unsorted table: the value is replaced where the key is, or the item appended.\<close>

definition table_put :: "'k \<Rightarrow> 'v \<Rightarrow> ('k \<times> 'v) list \<Rightarrow> ('k \<times> 'v) list" where
  "table_put k v xs =
     (if k \<in> fst ` set xs then map (\<lambda>kv. if fst kv = k then (k, v) else kv) xs else xs @ [(k, v)])"

definition remove_item :: "'k \<Rightarrow> ('k \<times> 'v) list \<Rightarrow> ('k \<times> 'v) list" where
  "remove_item k xs = filter (\<lambda>kv. fst kv \<noteq> k) xs"

section \<open>Clauses of a path\<close>

abbreviation slash :: char where "slash \<equiv> CHR ''/''"

text \<open>The part up to the next slash, and what is behind the slash if there is one.\<close>

definition next_clause :: "string \<Rightarrow> string \<times> string option" where
  "next_clause path =
     (takeWhile (\<lambda>c. c \<noteq> slash) path,
      case dropWhile (\<lambda>c. c \<noteq> slash) path of [] \<Rightarrow> None | _ # rest \<Rightarrow> Some rest)"

text \<open>\<open>GetPathClause\<close>: what is behind the given number of slashes; \<open>None\<close> is \<open>NULL\<close>.\<close>

fun GetPathClause :: "nat \<Rightarrow> string \<Rightarrow> string option" where
  "GetPathClause 0 path = Some path"
| "GetPathClause (Suc depth) path =
     (case snd (next_clause path) of None \<Rightarrow> None | Some rest \<Rightarrow> GetPathClause depth rest)"

definition GetPathClauseString :: "nat \<Rightarrow> string \<Rightarrow> string" where
  "GetPathClauseString depth path =
     (case GetPathClause depth path of None \<Rightarrow> [] | Some str \<Rightarrow> fst (next_clause str))"

lemma next_clause_shorter:
  assumes "next_clause path = (c, Some rest)"
  shows "length rest < length path"
proof -
  obtain d where "dropWhile (\<lambda>c. c \<noteq> slash) path = d # rest"
    using assms by (auto simp: next_clause_def split: list.splits)
  then show ?thesis using length_dropWhile_le [of "\<lambda>c. c \<noteq> slash" path] by simp
qed

function depth_loop :: "string \<Rightarrow> int" where
  "depth_loop path =
     (let depth = (if path \<noteq> [] then 1 else 0)
      in case next_clause path of
           (c, None) \<Rightarrow> depth
         | (c, Some rest) \<Rightarrow> depth + depth_loop rest)"
  by pat_completeness auto
termination by (relation "measure length") (auto dest: next_clause_shorter [OF sym])

definition GetPathDepth :: "string \<Rightarrow> int" where
  "GetPathDepth path = depth_loop (if path \<noteq> [] \<and> hd path = slash then tl path else path)"

text \<open>\<open>GetNextToken\<close> of \<open>StringTokenizer\<close>: the token and the rest to read.\<close>

definition GetNextToken :: "string \<Rightarrow> string \<Rightarrow> string option \<times> string" where
  "GetNextToken seps s =
     (let s = dropWhile (\<lambda>c. c \<in> set seps) s
      in if s = [] then (None, s)
         else (Some (takeWhile (\<lambda>c. c \<notin> set seps) s),
               case dropWhile (\<lambda>c. c \<notin> set seps) s of [] \<Rightarrow> [] | _ # rest \<Rightarrow> rest))"

section \<open>The matcher\<close>

text \<open>An entry: a matcher for each clause, \<open>None\<close> for the clause \<open>*\<close>, and perhaps a filter.\<close>

record ('r, 'f) path_entry =
  e_parser :: "'r matcher option list"
  e_filter :: "'f option"

record ('r, 'f) path_matcher =
  pm_entries :: "(string \<times> ('r, 'f) path_entry) list"
  pm_numFilters :: u32

definition PathMatcher_new :: "('r, 'f) path_matcher" where
  "PathMatcher_new = \<lparr>pm_entries = [], pm_numFilters = 0\<rparr>"

definition PathMatcher_Clear :: "('r, 'f) path_matcher \<Rightarrow> ('r, 'f) path_matcher" where
  "PathMatcher_Clear pm = pm\<lparr>pm_entries := [], pm_numFilters := 0\<rparr>"

definition FilterMatches :: "('f \<Rightarrow> 'm \<Rightarrow> bool) \<Rightarrow> ('r, 'f) path_entry \<Rightarrow> 'm option \<Rightarrow> bool" where
  "FilterMatches fmatch e optMsg =
     (case e_filter e of
        None \<Rightarrow> True
      | Some f \<Rightarrow> (case optMsg of None \<Rightarrow> True | Some msg \<Rightarrow> fmatch f msg))"

definition AdjustStringPrefix :: "string \<Rightarrow> string option \<Rightarrow> string" where
  "AdjustStringPrefix path optPrepend =
     (if path \<noteq> [] then
        if hd path = slash then tl path
        else case optPrepend of Some p \<Rightarrow> p @ [slash] @ path | None \<Rightarrow> path
      else path)"

definition RemovePathString :: "('r, 'f) path_matcher \<Rightarrow> string \<Rightarrow> status \<times> ('r, 'f) path_matcher" where
  "RemovePathString pm wildpath =
     (case map_of (pm_entries pm) wildpath of
        None \<Rightarrow> (B_ERROR, pm)
      | Some temp \<Rightarrow>
          (B_NO_ERROR, pm\<lparr>pm_entries := remove_item wildpath (pm_entries pm),
             pm_numFilters := (if e_filter temp \<noteq> None then pm_numFilters pm - 1 else pm_numFilters pm)\<rparr>))"

text \<open>The matchers of the clauses; \<open>None\<close> if memory runs out or a pattern is rejected. A matcher from the
  pool may have been used before; \<open>SetPattern\<close> overwrites all of it.\<close>

function parse_clauses :: "(string \<Rightarrow> 'r option) \<Rightarrow> (nat \<Rightarrow> bool) \<Rightarrow> nat \<Rightarrow> string \<Rightarrow> ('r matcher option list option \<times> nat) run" where
  "parse_clauses regcomp alloc k path =
     (let (temp, more) = next_clause path;
          (ok, k) = (if temp \<noteq> ''*'' then (alloc k, Suc k) else (True, k))
      in if \<not> ok then Ret (None, k)
         else bind_run
           (if temp \<noteq> ''*'' then bind_run (SetPattern regcomp StringMatcher_new temp True) (\<lambda>(st, m). Ret (st, Some m))
            else Ret (B_NO_ERROR, None)) (\<lambda>(st, sm).
           if st \<noteq> B_NO_ERROR \<or> \<not> alloc k then Ret (None, Suc k)
           else case more of
                  None \<Rightarrow> Ret (Some [sm], Suc k)
                | Some rest \<Rightarrow>
                    bind_run (parse_clauses regcomp alloc (Suc k) rest) (\<lambda>(sms, k).
                      Ret (map_option (\<lambda>sms. sm # sms) sms, k))))"
  by pat_completeness auto
termination by (relation "measure (\<lambda>(_, _, _, path). length path)") (auto dest: next_clause_shorter [OF sym])

text \<open>The request of the table itself comes last; replacing the value of a key needs no memory.\<close>

definition put_entry :: "(nat \<Rightarrow> bool) \<Rightarrow> nat \<Rightarrow> ('r, 'f) path_matcher \<Rightarrow> string \<Rightarrow> ('r, 'f) path_entry \<Rightarrow>
    status \<times> ('r, 'f) path_matcher \<times> nat" where
  "put_entry alloc k pm path e =
     (let known = path \<in> fst ` set (pm_entries pm)
      in if known \<or> alloc k then
           (B_NO_ERROR, pm\<lparr>pm_entries := table_put path e (pm_entries pm),
              pm_numFilters := (if e_filter e \<noteq> None then pm_numFilters pm + 1 else pm_numFilters pm)\<rparr>, if known then k else Suc k)
         else (B_ERROR, pm, Suc k))"

definition PutPathString :: "(string \<Rightarrow> 'r option) \<Rightarrow> (nat \<Rightarrow> bool) \<Rightarrow> nat \<Rightarrow> ('r, 'f) path_matcher \<Rightarrow> string \<Rightarrow> 'f option \<Rightarrow>
    (status \<times> ('r, 'f) path_matcher \<times> nat) run" where
  "PutPathString regcomp alloc k pm path flt =
     (if path = [] then Ret (B_ERROR, pm, k)
      else if \<not> alloc k then Ret (B_ERROR, pm, Suc k)
      else bind_run (parse_clauses regcomp alloc (Suc k) path) (\<lambda>(sms, k).
        case sms of
          None \<Rightarrow> Ret (B_ERROR, pm, k)
        | Some newQ \<Rightarrow> Ret (put_entry alloc k pm path \<lparr>e_parser = newQ, e_filter = flt\<rparr>)))"

definition PutPathFromString :: "(string \<Rightarrow> 'r option) \<Rightarrow> (nat \<Rightarrow> bool) \<Rightarrow> nat \<Rightarrow> ('r, 'f) path_matcher \<Rightarrow> string \<Rightarrow> 'f option \<Rightarrow>
    string option \<Rightarrow> (status \<times> ('r, 'f) path_matcher \<times> nat) run" where
  "PutPathFromString regcomp alloc k pm str flt prependIfNoLeadingSlash =
     PutPathString regcomp alloc k pm (AdjustStringPrefix str prependIfNoLeadingSlash) flt"

text \<open>
  \<open>PutPathsFromMessage\<close> reads one field of strings and one of messages. \<open>filters ! i\<close> is the outcome of the
  look-up and of the factory for the \<open>i\<close>th string: no message there, or what the factory made of it.
\<close>

fun put_paths :: "(string \<Rightarrow> 'r option) \<Rightarrow> (nat \<Rightarrow> bool) \<Rightarrow> nat \<Rightarrow> ('r, 'f) path_matcher \<Rightarrow> string option \<Rightarrow>
    'f option \<Rightarrow> status \<Rightarrow> string list \<Rightarrow> 'f option option list \<Rightarrow> (status \<times> ('r, 'f) path_matcher \<times> nat) run" where
  "put_paths regcomp alloc k pm prepend flt ret [] fs = Ret (ret, pm, k)"
| "put_paths regcomp alloc k pm prepend flt ret (str # strs) fs =
     (let flt = (case fs of Some f # _ \<Rightarrow> f | _ \<Rightarrow> flt)
      in bind_run (PutPathFromString regcomp alloc k pm str flt prepend) (\<lambda>(st, pm, k).
           put_paths regcomp alloc k pm prepend flt (if st \<noteq> B_NO_ERROR then B_ERROR else ret) strs (tl fs)))"

definition PutPathsFromMessage :: "(string \<Rightarrow> 'r option) \<Rightarrow> (nat \<Rightarrow> bool) \<Rightarrow> nat \<Rightarrow> ('r, 'f) path_matcher \<Rightarrow>
    string list \<Rightarrow> 'f option option list \<Rightarrow> string option \<Rightarrow> (status \<times> ('r, 'f) path_matcher \<times> nat) run" where
  "PutPathsFromMessage regcomp alloc k pm strs filters prepend =
     put_paths regcomp alloc k pm prepend None B_NO_ERROR strs filters"

fun put_entries :: "(nat \<Rightarrow> bool) \<Rightarrow> nat \<Rightarrow> ('r, 'f) path_matcher \<Rightarrow> (string \<times> ('r, 'f) path_entry) list \<Rightarrow>
    status \<times> ('r, 'f) path_matcher \<times> nat" where
  "put_entries alloc k pm [] = (B_NO_ERROR, pm, k)"
| "put_entries alloc k pm ((path, e) # es) =
     (case put_entry alloc k pm path e of
        (B_NO_ERROR, pm, k) \<Rightarrow> put_entries alloc k pm es
      | (B_ERROR, pm, k) \<Rightarrow> (B_ERROR, pm, k))"

definition PutPathsFromMatcher :: "(nat \<Rightarrow> bool) \<Rightarrow> nat \<Rightarrow> ('r, 'f) path_matcher \<Rightarrow> ('r, 'f) path_matcher \<Rightarrow>
    status \<times> ('r, 'f) path_matcher \<times> nat" where
  "PutPathsFromMatcher alloc k pm matcher = put_entries alloc k pm (pm_entries matcher)"

section \<open>Matching a path\<close>

text \<open>
  The answer of the matcher of a clause. \<open>None\<close> stands for \<open>*\<close>; a comparison with a number that is
  no \<open>int\<close> is undefined in the code and counts as no match.
\<close>

definition clause_matches :: "('r \<Rightarrow> string \<Rightarrow> bool) \<Rightarrow> 'r matcher option \<Rightarrow> string \<Rightarrow> bool" where
  "clause_matches regexec sm str = (case sm of None \<Rightarrow> True | Some m \<Rightarrow> Match regexec m str = Ret True)"

text \<open>The loop over the clauses of an entry and the tokens of the path.\<close>

fun tokens_match :: "('r \<Rightarrow> string \<Rightarrow> bool) \<Rightarrow> 'r matcher option list \<Rightarrow> string \<Rightarrow> bool" where
  "tokens_match regexec [] tok = True"
| "tokens_match regexec (sm # sms) tok =
     (case GetNextToken ''/'' tok of
        (None, _) \<Rightarrow> False
      | (Some nextToken, tok) \<Rightarrow> if \<not> clause_matches regexec sm nextToken then False else tokens_match regexec sms tok)"

definition entry_matches_path :: "('r \<Rightarrow> string \<Rightarrow> bool) \<Rightarrow> ('f \<Rightarrow> 'm \<Rightarrow> bool) \<Rightarrow> ('r, 'f) path_entry \<Rightarrow> string \<Rightarrow> 'm option \<Rightarrow> bool" where
  "entry_matches_path regexec fmatch e path optMessage =
     (if int (length (e_parser e)) = GetPathDepth path then
        if tokens_match regexec (e_parser e) (if path \<noteq> [] \<and> hd path = slash then tl path else path)
        then FilterMatches fmatch e optMessage else False
      else False)"

definition MatchesPath :: "('r \<Rightarrow> string \<Rightarrow> bool) \<Rightarrow> ('f \<Rightarrow> 'm \<Rightarrow> bool) \<Rightarrow> ('r, 'f) path_matcher \<Rightarrow> string \<Rightarrow> 'm option \<Rightarrow> bool" where
  "MatchesPath regexec fmatch pm path optMessage =
     list_ex (\<lambda>(_, e). entry_matches_path regexec fmatch e path optMessage) (pm_entries pm)"

end
