(* ===== verification/Match_Props.thy ===== *)
theory Match_Props
  imports Match_Model
begin

text \<open>
  What a wildcard pattern means, what the documentation of the regular-expression library
  (\<^verbatim>\<open>regex/regex/regex.7\<close>) promises for the expressions that the translation uses, and that the
  matcher implements the meaning.
\<close>

section \<open>Patterns\<close>

text \<open>
  A pattern is a list of branches, a branch a list of pieces: a character, an escaped character, any
  character, any text.
\<close>

datatype piece = Chr char | Esc char | Dot | DotStar

type_synonym branch = "piece list"

fun branch_matches :: "branch \<Rightarrow> string \<Rightarrow> bool" where
  "branch_matches [] s \<longleftrightarrow> s = []"
| "branch_matches (DotStar # ps) [] \<longleftrightarrow> branch_matches ps []"
| "branch_matches (DotStar # ps) (d # s) \<longleftrightarrow> branch_matches ps (d # s) \<or> branch_matches (DotStar # ps) s"
| "branch_matches (Chr c # ps) (d # s) \<longleftrightarrow> d = c \<and> branch_matches ps s"
| "branch_matches (Esc c # ps) (d # s) \<longleftrightarrow> d = c \<and> branch_matches ps s"
| "branch_matches (Dot # ps) (d # s) \<longleftrightarrow> branch_matches ps s"
| "branch_matches (_ # ps) [] \<longleftrightarrow> False"

definition matches_some :: "branch list \<Rightarrow> string \<Rightarrow> bool" where
  "matches_some bs s \<longleftrightarrow> (\<exists>b\<in>set bs. branch_matches b s)"

text \<open>Any text matches \<open>DotStar\<close>: the reading without recursion.\<close>

lemma branch_matches_DotStar: "branch_matches (DotStar # ps) s \<longleftrightarrow> (\<exists>us vs. s = us @ vs \<and> branch_matches ps vs)"
proof (induction s)
  case (Cons c s)
  have "(\<exists>us vs. c # s = us @ vs \<and> branch_matches ps vs) \<longleftrightarrow>
      branch_matches ps (c # s) \<or> (\<exists>us vs. s = us @ vs \<and> branch_matches ps vs)"
    by (auto simp: Cons_eq_append_conv)
  then show ?case using Cons.IH by simp
qed simp

text \<open>The characters that are special in a regular expression.\<close>

definition ordinary :: "char \<Rightarrow> bool" where
  "ordinary c \<longleftrightarrow> c \<notin> set ''^.[$()|*+?{'' \<and> c \<noteq> backslash"

fun add_piece :: "piece \<Rightarrow> branch list option \<Rightarrow> branch list option" where
  "add_piece p (Some (b # bs)) = Some ((p # b) # bs)"
| "add_piece p _ = None"

text \<open>The branches that the user of a wildcard pattern has written.\<close>

fun branches :: "string \<Rightarrow> branch list option" where
  "branches [] = Some [[]]"
| "branches (c # cs) =
     (if c = CHR '','' then map_option ((#) []) (branches cs)
      else if c = CHR ''.'' then add_piece (Esc c) (branches cs)
      else if c = CHR ''*'' then add_piece DotStar (branches cs)
      else if c = CHR ''?'' then add_piece Dot (branches cs)
      else if c = backslash then
        (case cs of [] \<Rightarrow> Some [[Esc backslash]] | d # ds \<Rightarrow> add_piece (Esc d) (branches ds))
      else if ordinary c then add_piece (Chr c) (branches cs)
      else None)"

section \<open>Regular expressions\<close>

fun render_piece :: "piece \<Rightarrow> string" where
  "render_piece (Chr c) = [c]"
| "render_piece (Esc c) = [backslash, c]"
| "render_piece Dot = ''.''"
| "render_piece DotStar = ''.*''"

definition render_branch :: "branch \<Rightarrow> string" where
  "render_branch b = concat (map render_piece b)"

fun render :: "branch list \<Rightarrow> string" where
  "render [] = []"
| "render [b] = render_branch b"
| "render (b # bs) = render_branch b @ CHR ''|'' # render bs"

fun piece_ok :: "piece \<Rightarrow> bool" where
  "piece_ok (Chr c) = ordinary c"
| "piece_ok _ = True"

text \<open>
  The documented behaviour: an expression of non-empty branches in parentheses, anchored at both
  ends, is accepted, and it matches what one of the branches matches.
\<close>

definition ere_documented :: "(string \<Rightarrow> 'r option) \<Rightarrow> ('r \<Rightarrow> string \<Rightarrow> bool) \<Rightarrow> bool" where
  "ere_documented regcomp regexec \<longleftrightarrow> (\<forall>bs. bs \<noteq> [] \<longrightarrow> (\<forall>b\<in>set bs. b \<noteq> [] \<and> list_all piece_ok b) \<longrightarrow>
     (\<exists>r. regcomp (''^('' @ render bs @ '')$'') = Some r \<and> (\<forall>s. regexec r s \<longleftrightarrow> matches_some bs s)))"

section \<open>The translation\<close>

lemma render_Cons: "bs \<noteq> [] \<Longrightarrow> render (b # bs) = render_branch b @ CHR ''|'' # render bs"
  by (cases bs) simp_all

lemma render_add: "render ((p # b) # bs) = render_piece p @ render (b # bs)"
  by (cases bs) (simp_all add: render_branch_def)

lemma add_piece_Some: "add_piece p x = Some y \<longleftrightarrow> (\<exists>b bs. x = Some (b # bs) \<and> y = (p # b) # bs)"
  by (cases "(p, x)" rule: add_piece.cases) auto

text \<open>The loop writes the expression of the branches that the user wrote.\<close>

lemma translate_branches:
  "branches q = Some bs \<Longrightarrow> bs \<noteq> [] \<and> translate False q = render bs \<and> (\<forall>b\<in>set bs. list_all piece_ok b)"
proof (induction q arbitrary: bs rule: branches.induct)
  case 1
  then show ?case by (auto simp: render_branch_def)
next
  case (2 c cs)
  show ?case
  proof (cases "c = backslash")
    case True
    show ?thesis
    proof (cases cs)
      case Nil
      then show ?thesis using 2(7) True by (auto simp: render_branch_def)
    next
      case (Cons d ds)
      then obtain b bs' where "branches ds = Some (b # bs')" "bs = (Esc d # b) # bs'"
        using 2(7) True by (auto simp: add_piece_Some)
      then show ?thesis using 2(5) [of d ds "b # bs'"] Cons True by (auto simp: render_add)
    qed
  next
    case False
    then show ?thesis
      using 2(7) 2(1-4) [of "_ # _"] 2(1) 2(6)
      by (auto simp: add_piece_Some render_add render_Cons render_branch_def split: if_splits)
  qed
qed

section \<open>The matcher\<close>

lemma SetPattern_simple:
  assumes lib: "ere_documented regcomp regexec"
    and str: "str = (if p \<noteq> [] \<and> hd p = CHR ''~'' then tl p else p)" and range: "parse_range str = Ret (MUSCLE_NO_LIMIT, MUSCLE_NO_LIMIT)"
    and bs: "branches (skip_escaped str) = Some bs" "[] \<notin> set bs"
  shows "\<exists>m'. SetPattern regcomp m p True = Ret (B_NO_ERROR, m') \<and> m_negate m' = (p \<noteq> [] \<and> hd p = CHR ''~'') \<and>
    m_pattern m' = p \<and> (\<forall>s. Match regexec m' s = Ret (matches_some bs s \<noteq> m_negate m'))"
proof -
  note tr = translate_branches [OF bs(1)]
  have "\<exists>r. regcomp (''^('' @ render bs @ '')$'') = Some r \<and> (\<forall>s. regexec r s \<longleftrightarrow> matches_some bs s)"
    using lib tr bs(2) unfolding ere_documented_def by blast
  then obtain r where r: "regcomp (simple_pattern str) = Some r" "\<And>s. regexec r s \<longleftrightarrow> matches_some bs s"
    using tr by (auto simp: simple_pattern_def)
  let ?m = "m\<lparr>m_pattern := p, m_hasRegexTokens := HasRegexTokens p, m_negate := (p \<noteq> [] \<and> hd p = CHR ''~''),
    m_rangeMin := MUSCLE_NO_LIMIT, m_rangeMax := MUSCLE_NO_LIMIT, m_regExp := Some r\<rparr>"
  have "SetPattern regcomp m p True = Ret (B_NO_ERROR, ?m)"
    using range r(1) unfolding SetPattern_def str by simp
  moreover have "Match regexec ?m s = Ret (matches_some bs s \<noteq> m_negate ?m)" for s
    by (simp add: Match_def r(2))
  ultimately show ?thesis by (intro exI [of _ ?m]) simp
qed

text \<open>Patterns that are not read as a range.\<close>

definition no_range :: "string \<Rightarrow> bool" where
  "no_range str \<longleftrightarrow> str = [] \<or> hd str \<noteq> CHR ''<'' \<or> CHR ''-'' \<notin> set (tl str) \<or> last str \<noteq> CHR ''>''"

lemma parse_no_range:
  assumes "no_range str"
  shows "parse_range str = Ret (MUSCLE_NO_LIMIT, MUSCLE_NO_LIMIT)"
proof (cases "dropWhile (\<lambda>c. c \<noteq> CHR ''-'') (tl str)")
  case Nil
  then show ?thesis unfolding parse_range_def Nil by simp
next
  case (Cons d ds)
  have d: "d = CHR ''-''" using Cons by (simp add: dropWhile_eq_Cons_conv)
  obtain us where eq: "tl str = us @ d # ds" by (metis Cons takeWhile_dropWhile_id)
  then have "CHR ''-'' \<in> set (tl str)" using d by simp
  moreover have "last str = last (d # ds)"
  proof (cases str)
    case (Cons c cs)
    then have "str = (c # us) @ d # ds" using eq by simp
    then show ?thesis by (simp only: last_append) simp
  qed (use eq in simp)
  ultimately show ?thesis using assms Cons by (auto simp: parse_range_def no_range_def)
qed

lemma skip_escaped_same:
  assumes "branches str = Some bs" "[] \<notin> set bs"
  shows "\<exists>bs'. branches (skip_escaped str) = Some bs' \<and> [] \<notin> set bs' \<and> matches_some bs' = matches_some bs"
proof (cases "\<exists>q. str = backslash # CHR ''<'' # q")
  case True
  then obtain q where q: "str = backslash # CHR ''<'' # q" by blast
  then obtain b bs0 where b: "branches q = Some (b # bs0)" "bs = (Esc (CHR ''<'') # b) # bs0"
    using assms(1) by (auto simp: add_piece_Some)
  have "branches (skip_escaped str) = Some ((Chr (CHR ''<'') # b) # bs0)"
    using q b(1) by (simp add: skip_escaped_def ordinary_def)
  moreover have "branch_matches (Chr c # b) s = branch_matches (Esc c # b) s" for c s by (cases s) simp_all
  then have "matches_some ((Chr (CHR ''<'') # b) # bs0) = matches_some bs" by (simp add: fun_eq_iff matches_some_def b(2))
  ultimately show ?thesis using assms(2) b(2) by auto
next
  case False
  then have "skip_escaped str = str" by (auto simp: skip_escaped_def split: list.split)
  then show ?thesis using assms by auto
qed

text \<open>A string as a branch of its characters.\<close>

definition literal :: "branch \<Rightarrow> string \<Rightarrow> bool" where
  "literal b s \<longleftrightarrow> list_all2 (\<lambda>p c. p = Chr c \<or> p = Esc c) b s"

lemma literal_Cons: "literal (p # b) (c # s) \<longleftrightarrow> (p = Chr c \<or> p = Esc c) \<and> literal b s"
  by (simp add: literal_def)

lemma branch_matches_literal:
  assumes "literal b s"
  shows "branch_matches b t \<longleftrightarrow> t = s"
  using assms unfolding literal_def
proof (induction b s arbitrary: t rule: list_all2_induct)
  case (Cons p b c s)
  from Cons(1) show ?case
  proof
    assume "p = Chr c"
    then show ?thesis using Cons(3) by (cases t) simp_all
  next
    assume "p = Esc c"
    then show ?thesis using Cons(3) by (cases t) simp_all
  qed
qed simp

lemma branches_token:
  assumes "branches cs = Some [b]" "IsRegexToken c f"
  shows "branches (backslash # c # cs) = Some [Esc c # b]"
  using assms by simp

lemma branches_plain:
  assumes "branches cs = Some [b]" "\<not> IsRegexToken c f"
  shows "branches (c # cs) = Some [(if c = CHR ''.'' then Esc c else Chr c) # b]"
proof -
  have "c \<notin> set ''[]*?,|()=^+${}:-''" "c \<noteq> backslash" using assms(2) by (auto simp: IsRegexToken_def split: if_splits)
  then have "c \<noteq> CHR '',''" "c \<noteq> CHR ''*''" "c \<noteq> CHR ''?''" "c \<noteq> backslash" "c \<noteq> CHR ''.'' \<Longrightarrow> ordinary c"
    by (auto simp: ordinary_def)
  then show ?thesis using assms(1) by simp
qed

lemma branches_escaped: "\<exists>b. branches (escape_from f None s) = Some [b] \<and> literal b s"
proof (induction s arbitrary: f)
  case (Cons c s)
  obtain b where b: "branches (escape_from False None s) = Some [b]" "literal b s" using Cons.IH by blast
  show ?case
  proof (cases "IsRegexToken c f")
    case True
    then have "escape_from f None (c # s) = backslash # c # escape_from False None s" by simp
    then show ?thesis using branches_token [OF b(1) True] b(2) literal_Cons by metis
  next
    case False
    then have "escape_from f None (c # s) = c # escape_from False None s" by simp
    then show ?thesis using branches_plain [OF b(1) False] b(2) literal_Cons by metis
  qed
qed (simp add: literal_def)

lemma escape_nothing: "\<not> has_tokens_from f s \<Longrightarrow> escape_from f None s = s"
  by (induction s arbitrary: f) (auto split: if_splits)

lemma escaped_head:
  assumes "escape_from True None s = c # cs"
  shows "c \<noteq> CHR ''~''" "c \<noteq> CHR ''<''"
  using assms by (cases s; auto simp: IsRegexToken_def split: if_splits)+

lemma escaped_pattern:
  assumes lib: "ere_documented regcomp regexec" and s: "s \<noteq> []"
  shows "\<exists>m'. SetPattern regcomp m (escape_from True None s) True = Ret (B_NO_ERROR, m') \<and> \<not> m_negate m' \<and>
    (\<forall>t. Match regexec m' t = Ret (t = s))"
proof -
  let ?p = "escape_from True None s"
  obtain b where b: "branches ?p = Some [b]" "literal b s" using branches_escaped by blast
  have "b \<noteq> []" using b(2) s by (auto simp: literal_def)
  then obtain bs where bs: "branches (skip_escaped ?p) = Some bs" "[] \<notin> set bs" "matches_some bs = matches_some [b]"
    using skip_escaped_same [OF b(1)] by auto
  have hd: "\<not> (?p \<noteq> [] \<and> hd ?p = CHR ''~'')" "?p \<noteq> [] \<longrightarrow> hd ?p \<noteq> CHR ''<''"
    using escaped_head [of s] by (cases ?p; simp)+
  have "no_range ?p" using hd(2) by (auto simp: no_range_def)
  note range = parse_no_range [OF this]
  have str: "?p = (if ?p \<noteq> [] \<and> hd ?p = CHR ''~'' then tl ?p else ?p)"
    by (rule if_not_P [OF hd(1), symmetric])
  obtain m' where m': "SetPattern regcomp m ?p True = Ret (B_NO_ERROR, m')" "m_negate m' = (?p \<noteq> [] \<and> hd ?p = CHR ''~'')"
    "\<forall>t. Match regexec m' t = Ret (matches_some bs t \<noteq> m_negate m')"
    using SetPattern_simple [OF lib str range bs(1,2), of m] by blast
  have "matches_some bs t \<longleftrightarrow> t = s" for t by (simp add: bs(3) matches_some_def branch_matches_literal [OF b(2)])
  then show ?thesis using m' hd(1) by auto
qed

section \<open>A library that behaves as documented\<close>

fun ere_branches :: "string \<Rightarrow> branch list option" where
  "ere_branches [] = Some [[]]"
| "ere_branches (c # cs) =
     (if c = CHR ''|'' then map_option ((#) []) (ere_branches cs)
      else if c = backslash then (case cs of [] \<Rightarrow> None | d # ds \<Rightarrow> add_piece (Esc d) (ere_branches ds))
      else if c = CHR ''.'' then
        (case cs of [] \<Rightarrow> add_piece Dot (ere_branches cs)
         | d # ds \<Rightarrow> if d = CHR ''*'' then add_piece DotStar (ere_branches ds) else add_piece Dot (ere_branches cs))
      else if ordinary c then add_piece (Chr c) (ere_branches cs)
      else None)"

definition ex_regcomp :: "string \<Rightarrow> branch list option" where
  "ex_regcomp s = (if take 2 s = ''^('' \<and> drop (length s - 2) s = '')$'' then ere_branches (take (length s - 4) (drop 2 s)) else None)"

lemma ordinary_simps:
  "ordinary c \<Longrightarrow> c \<noteq> CHR ''|''" "ordinary c \<Longrightarrow> c \<noteq> backslash" "ordinary c \<Longrightarrow> c \<noteq> CHR ''.''" "ordinary c \<Longrightarrow> c \<noteq> CHR ''*''"
  by (auto simp: ordinary_def)

lemma ere_branches_append:
  assumes "list_all piece_ok b" "ere_branches s = Some (b' # bs)" "s = [] \<or> hd s \<noteq> CHR ''*''"
  shows "ere_branches (render_branch b @ s) = Some ((b @ b') # bs) \<and>
    (render_branch b @ s = [] \<or> hd (render_branch b @ s) \<noteq> CHR ''*'')"
  using assms(1)
proof (induction b)
  case Nil
  then show ?case using assms by (simp add: render_branch_def)
next
  case (Cons p b)
  then have IH: "ere_branches (render_branch b @ s) = Some ((b @ b') # bs)"
    "render_branch b @ s = [] \<or> hd (render_branch b @ s) \<noteq> CHR ''*''" by simp_all
  have r: "render_branch (p # b) @ s = render_piece p @ (render_branch b @ s)" by (simp add: render_branch_def)
  show ?case
    unfolding r using IH Cons.prems
    by (cases p; cases "render_branch b @ s") (auto simp: ordinary_simps)
qed

lemma ere_branches_render:
  "bs \<noteq> [] \<Longrightarrow> \<forall>b\<in>set bs. list_all piece_ok b \<Longrightarrow> ere_branches (render bs) = Some bs"
proof (induction bs rule: render.induct)
  case (2 b)
  then show ?case using ere_branches_append [of b "[]" "[]" "[]"] by simp
next
  case (3 b c bs)
  have "ere_branches (CHR ''|'' # render (c # bs)) = Some ([] # c # bs)" using 3 by simp
  then show ?case using ere_branches_append [of b "CHR ''|'' # render (c # bs)" "[]" "c # bs"] 3(3) by simp
qed simp

lemma ex_library: "ere_documented ex_regcomp matches_some"
  unfolding ere_documented_def
proof (intro allI impI)
  fix bs assume bs: "bs \<noteq> []" "\<forall>b\<in>set bs. b \<noteq> [] \<and> list_all piece_ok b"
  have "ex_regcomp (''^('' @ render bs @ '')$'') = ere_branches (render bs)" by (simp add: ex_regcomp_def)
  then show "\<exists>r. ex_regcomp (''^('' @ render bs @ '')$'') = Some r \<and> (\<forall>s. matches_some r s \<longleftrightarrow> matches_some bs s)"
    using ere_branches_render [OF bs(1)] bs(2) by simp
qed

section \<open>Ranges\<close>

lemma is_digit_not: "is_digit c \<Longrightarrow> c \<noteq> CHR ''-'' \<and> c \<noteq> CHR ''>'' \<and> c \<noteq> CHR ''<'' \<and> c \<noteq> CHR ''+'' \<and> \<not> is_space c"
  by (auto simp: in_chars_def is_space_def)

lemma digits_value_bound: "0 \<le> foldl (\<lambda>v c. 10 * v + (of_char c - of_char (CHR ''0''))) v (takeWhile is_digit s)" if "0 \<le> v" for v :: int
  using that
proof (induction s arbitrary: v)
  case (Cons c s)
  have "0 \<le> (of_char c :: int) - of_char (CHR ''0'')" if "is_digit c"
  proof -
    have "(48 :: nat) \<le> of_char c" using that by (simp add: in_chars_def)
    then have "(of_nat 48 :: int) \<le> of_nat (of_char c)" by (rule of_nat_mono)
    then show ?thesis by (simp only: of_nat_of_char) simp
  qed
  then show ?case using Cons.IH [of "10 * v + (of_char c - of_char (CHR ''0''))"] Cons.prems by simp
qed simp

lemma atoi_digits:
  assumes "s \<noteq> []" "is_digit (hd s)" "digits_value s < 2 ^ 31"
  shows "atoi s = Ret (digits_value s)"
proof -
  obtain c cs where s: "s = c # cs" using assms(1) by (cases s) auto
  have c: "c \<noteq> CHR ''-''" "c \<noteq> CHR ''+''" "\<not> is_space c" using is_digit_not [of c] assms(2) s by simp_all
  have "0 \<le> digits_value s" using digits_value_bound [of 0 s] by (simp add: digits_value_def)
  then show ?thesis using assms(3) c by (simp add: atoi_def s)
qed

lemma digits_value_prefix:
  assumes "list_all is_digit a" "\<not> is_digit c"
  shows "digits_value (a @ c # cs) = digits_value a"
proof -
  have "takeWhile is_digit a = a" using assms(1) by (simp add: takeWhile_eq_all_conv list_all_iff)
  moreover have "takeWhile is_digit (a @ c # cs) = a"
    using assms takeWhile_append2 [of a is_digit "c # cs"] by (simp add: list_all_iff)
  ultimately show ?thesis by (simp only: digits_value_def)
qed

lemma range_limit:
  assumes "0 \<le> n" "n < 2 ^ 31"
  shows "(word_of_int n :: u32) \<noteq> MUSCLE_NO_LIMIT" "uint (word_of_int n :: u32) = n"
proof -
  show u: "uint (word_of_int n :: u32) = n" using assms by (simp add: uint_word_of_int)
  have "uint (MUSCLE_NO_LIMIT) = 4294967295" by (simp add: MUSCLE_NO_LIMIT_def unsigned_minus_1_eq_mask mask_eq_exp_minus_1)
  then show "(word_of_int n :: u32) \<noteq> MUSCLE_NO_LIMIT" using u assms by auto
qed

definition range_pattern :: "string \<Rightarrow> string \<Rightarrow> string" where
  "range_pattern a b = CHR ''<'' # a @ CHR ''-'' # b @ ''>''"

lemma parse_range_digits:
  assumes a: "a \<noteq> []" "list_all is_digit a" "digits_value a < 2 ^ 31" and b: "b \<noteq> []" "list_all is_digit b" "digits_value b < 2 ^ 31"
  shows "parse_range (range_pattern a b) = Ret (word_of_int (digits_value a), word_of_int (digits_value b))"
proof -
  let ?rest = "b @ ''>''"
  have "c \<noteq> CHR ''-''" if "c \<in> set a" for c using that a(2) is_digit_not by (auto simp: list_all_iff)
  then have dash: "dropWhile (\<lambda>c. c \<noteq> CHR ''-'') (a @ CHR ''-'' # ?rest) = CHR ''-'' # ?rest"
    by (simp add: dropWhile_append2)
  have hd: "is_digit (hd a)" "is_digit (hd b)" using a(1,2) b(1,2) by (cases a; cases b; simp)+
  have nd: "\<not> is_digit (CHR ''-'')" "\<not> is_digit (CHR ''>'')" by (simp_all add: in_chars_def)
  have "atoi (a @ CHR ''-'' # ?rest) = Ret (digits_value a)"
    using atoi_digits [of "a @ CHR ''-'' # ?rest"] hd(1) a digits_value_prefix [OF a(2) nd(1)] by simp
  moreover have "atoi ?rest = Ret (digits_value b)"
    using atoi_digits [of ?rest] hd(2) b digits_value_prefix [OF b(2) nd(2), of "[]"] by simp
  moreover have "hd a \<noteq> CHR ''-''" "hd b \<noteq> CHR ''-''" "hd b \<noteq> CHR ''>''" using hd is_digit_not by blast+
  ultimately show ?thesis
    using dash a(1) b(1) by (simp add: parse_range_def range_pattern_def)
qed

text \<open>A pattern that is reported as unique.\<close>

lemma unique_matches:
  assumes "ere_documented regcomp regexec" "p \<noteq> []" "SetPattern regcomp m p True = Ret (st, m')" "IsPatternUnique m'"
  shows "st = B_NO_ERROR \<and> m_pattern m' = p \<and> (\<forall>s. Match regexec m' s = Ret (s = p))"
proof -
  have "m_hasRegexTokens m' = HasRegexTokens p" "m_pattern m' = p"
    using assms(3) by (auto simp: SetPattern_def Let_def run_simps split: if_splits prod.splits)
  then have "escape_from True None p = p" using assms(4) escape_nothing by (auto simp: IsPatternUnique_def HasRegexTokens_def)
  then show ?thesis using escaped_pattern [OF assms(1,2), of m] assms(3) \<open>m_pattern m' = p\<close> by auto
qed

section \<open>Properties\<close>

text \<open>
  C23: the matcher of a wildcard pattern matches exactly what its branches say, negated if the pattern starts
  with a tilde, given that the library for regular expressions behaves as documented.
\<close>

theorem wildcard_matches:
  assumes "ere_documented regcomp regexec" "q = (if p \<noteq> [] \<and> hd p = CHR ''~'' then tl p else p)" "no_range q"
    "branches q = Some bs" "[] \<notin> set bs"
  shows "\<exists>m'. SetPattern regcomp m p True = Ret (B_NO_ERROR, m') \<and>
    (\<forall>s. Match regexec m' s = Ret (matches_some bs s \<noteq> (p \<noteq> [] \<and> hd p = CHR ''~'')))"
proof -
  obtain bs' where bs': "branches (skip_escaped q) = Some bs'" "[] \<notin> set bs'" "matches_some bs' = matches_some bs"
    using skip_escaped_same [OF assms(4,5)] by blast
  show ?thesis
    using SetPattern_simple [OF assms(1,2) parse_no_range [OF assms(3)] bs'(1,2), of m] bs'(3) by auto
qed

lemma wildcard_matches_witness:
  "\<exists>m'. SetPattern ex_regcomp StringMatcher_new ''~a.*,?x'' True = Ret (B_NO_ERROR, m') \<and>
    Match matches_some m' ''a.cc'' = Ret False \<and> Match matches_some m' ''bx'' = Ret False \<and> Match matches_some m' ''abc'' = Ret True"
proof -
  have q: "''a.*,?x'' = (if ''~a.*,?x'' \<noteq> [] \<and> hd ''~a.*,?x'' = CHR ''~'' then tl ''~a.*,?x'' else ''~a.*,?x'')" by simp
  have n: "no_range ''a.*,?x''" by (simp add: no_range_def)
  have b: "branches ''a.*,?x'' = Some [[Chr (CHR ''a''), Esc (CHR ''.''), DotStar], [Dot, Chr (CHR ''x'')]]"
    by (simp add: ordinary_def)
  from wildcard_matches [OF ex_library q n b, of StringMatcher_new] show ?thesis
    by (auto simp: matches_some_def)
qed

text \<open>
  C24: escaping a string and using it as a pattern gives a matcher for exactly that string.
\<close>

theorem escaped_matches_itself:
  assumes "ere_documented regcomp regexec" "s \<noteq> []"
  shows "\<exists>m'. SetPattern regcomp m (EscapeRegexTokens s None) True = Ret (B_NO_ERROR, m') \<and>
    (\<forall>t. Match regexec m' t = Ret (t = s))"
  unfolding EscapeRegexTokens_def using escaped_pattern [OF assms, of m] by blast

lemma escaped_matches_itself_witness:
  "\<exists>m'. SetPattern ex_regcomp StringMatcher_new (EscapeRegexTokens ''<a*.b>'' None) True = Ret (B_NO_ERROR, m') \<and>
    Match matches_some m' ''<a*.b>'' = Ret True \<and> Match matches_some m' ''<ab'' = Ret False"
  using escaped_matches_itself [OF ex_library, of "''<a*.b>''" StringMatcher_new] by auto

text \<open>
  C26: a wildcard pattern that the matcher reports as unique matches its own text and nothing else.
\<close>

theorem unique_pattern:
  assumes "ere_documented regcomp regexec" "p \<noteq> []" "SetPattern regcomp m p True = Ret (st, m')" "IsPatternUnique m'"
  shows "st = B_NO_ERROR \<and> m_pattern m' = p \<and> (\<forall>s. Match regexec m' s = Ret (s = p))"
  by (rule unique_matches [OF assms])

lemma unique_pattern_witness:
  "\<exists>m'. SetPattern ex_regcomp StringMatcher_new ''a.b'' True = Ret (B_NO_ERROR, m') \<and> IsPatternUnique m' \<and>
    Match matches_some m' ''a.b'' = Ret True \<and> Match matches_some m' ''aXb'' = Ret False"
proof -
  have "\<exists>st m'. SetPattern ex_regcomp StringMatcher_new ''a.b'' True = Ret (st, m') \<and> IsPatternUnique m'"
    by (simp add: SetPattern_def parse_range_def HasRegexTokens_def IsRegexToken_def IsPatternUnique_def StringMatcher_new_def Let_def)
  then obtain st m' where m': "SetPattern ex_regcomp StringMatcher_new ''a.b'' True = Ret (st, m')" "IsPatternUnique m'"
    by blast
  from unique_pattern [OF ex_library _ m'] m' show ?thesis by auto
qed

text \<open>
  C25: the matcher of \<open><a-b>\<close> accepts the strings that start with a number from \<open>a\<close> to \<open>b\<close>, bounds included, and no
  string that does not start with a digit. The number is what \<open>atoi\<close> reads, leading zeroes and what follows the digits
  ignored: the comment at \<open>SetPattern\<close> says that \<open><19-21>\<close> matches \<open>19\<close>, \<open>20\<close> and \<open>21\<close> only, but \<open>20abc\<close> and
  \<open>020\<close> match too.
\<close>

theorem range_matches:
  assumes "a \<noteq> []" "list_all is_digit a" "digits_value a < 2 ^ 31" "b \<noteq> []" "list_all is_digit b" "digits_value b < 2 ^ 31"
  shows "\<exists>m'. SetPattern regcomp m (range_pattern a b) True = Ret (B_NO_ERROR, m') \<and>
    (\<forall>s. s \<noteq> [] \<longrightarrow> is_digit (hd s) \<longrightarrow> digits_value s < 2 ^ 31 \<longrightarrow>
       Match regexec m' s = Ret (digits_value a \<le> digits_value s \<and> digits_value s \<le> digits_value b)) \<and>
    (\<forall>s. s = [] \<or> \<not> is_digit (hd s) \<longrightarrow> Match regexec m' s = Ret False)"
proof -
  note r = parse_range_digits [OF assms]
  have pos: "0 \<le> digits_value s" for s using digits_value_bound [of 0 s] by (simp add: digits_value_def)
  note la = range_limit [OF pos assms(3)] and lb = range_limit [OF pos assms(6)]
  let ?m = "m\<lparr>m_pattern := range_pattern a b, m_hasRegexTokens := HasRegexTokens (range_pattern a b), m_negate := False,
    m_rangeMin := word_of_int (digits_value a), m_rangeMax := word_of_int (digits_value b), m_regExp := None\<rparr>"
  have "hd (range_pattern a b) = CHR ''<''" by (simp add: range_pattern_def)
  then have "SetPattern regcomp m (range_pattern a b) True = Ret (B_NO_ERROR, ?m)"
    using r la(1) by (simp add: SetPattern_def)
  moreover have "Match regexec ?m s = Ret (digits_value a \<le> digits_value s \<and> digits_value s \<le> digits_value b)"
    if "s \<noteq> []" "is_digit (hd s)" "digits_value s < 2 ^ 31" for s
    using that atoi_digits [OF that] la lb range_limit(2) [OF pos that(3)] by (simp add: Match_def word_le_def)
  moreover have "Match regexec ?m s = Ret False" if "s = [] \<or> \<not> is_digit (hd s)" for s
    using that la(1) by (auto simp: Match_def)
  ultimately show ?thesis by blast
qed

lemma range_matches_witness:
  "\<exists>m'. SetPattern ex_regcomp StringMatcher_new ''<15-23>'' True = Ret (B_NO_ERROR, m') \<and>
    Match matches_some m' ''19'' = Ret True \<and> Match matches_some m' ''24'' = Ret False \<and> Match matches_some m' ''x'' = Ret False"
proof -
  have d: "list_all is_digit ''15''" "list_all is_digit ''23''" "digits_value ''15'' = 15" "digits_value ''23'' = 23"
    "digits_value ''19'' = 19" "digits_value ''24'' = 24" "is_digit (CHR ''1'')" "is_digit (CHR ''2'')" "\<not> is_digit (CHR ''x'')"
    by (simp_all add: in_chars_def digits_value_def)
  have p: "''<15-23>'' = range_pattern ''15'' ''23''" by (simp add: range_pattern_def)
  from range_matches [of "''15''" "''23''" ex_regcomp StringMatcher_new matches_some] show ?thesis
    unfolding p using d by auto
qed

end
