(* ===== verification/Path_Props.thy ===== *)
theory Path_Props
  imports Path_Model Match_Props
begin

text \<open>
  What the path matcher accepts, over paths as lists of clauses: a pattern and a path match if
  they have the same number of clauses and each clause of the pattern accepts the clause of the
  path at its place.
\<close>

section \<open>Paths as lists of clauses\<close>

fun join :: "string list \<Rightarrow> string" where
  "join [] = []"
| "join [c] = c"
| "join (c # cs) = c @ slash # join cs"

definition clause_ok :: "string \<Rightarrow> bool" where
  "clause_ok c \<longleftrightarrow> slash \<notin> set c"

lemma join_Cons: "join (c # cs) = c @ (if cs = [] then [] else slash # join cs)"
  by (cases cs) simp_all

lemma clause_ok_prefix [simp]:
  "clause_ok c \<Longrightarrow> takeWhile (\<lambda>c. c \<noteq> slash) (c @ s) = c @ takeWhile (\<lambda>c. c \<noteq> slash) s"
  "clause_ok c \<Longrightarrow> dropWhile (\<lambda>c. c \<noteq> slash) (c @ s) = dropWhile (\<lambda>c. c \<noteq> slash) s"
  by (induction c) (auto simp: clause_ok_def)

lemma clause_ok_whole [simp]:
  "clause_ok c \<Longrightarrow> takeWhile (\<lambda>c. c \<noteq> slash) c = c" "clause_ok c \<Longrightarrow> dropWhile (\<lambda>c. c \<noteq> slash) c = []"
  using clause_ok_prefix [of c "[]"] by simp_all

lemma next_clause_join: "clause_ok c \<Longrightarrow> next_clause (join (c # cs)) = (c, if cs = [] then None else Some (join cs))"
  by (simp add: next_clause_def join_Cons)

lemma next_clause_slash: "next_clause (slash # s) = ([], Some s)"
  by (simp add: next_clause_def)

text \<open>Every path is the join of its clauses.\<close>

lemma next_clause_append: "path = fst (next_clause path) @ (case snd (next_clause path) of None \<Rightarrow> [] | Some r \<Rightarrow> slash # r)"
proof (cases "dropWhile (\<lambda>c. c \<noteq> slash) path")
  case Nil
  then have all: "takeWhile (\<lambda>c. c \<noteq> slash) path = path"
    by (intro takeWhile_eq_all_conv [THEN iffD2]) simp
  show ?thesis by (simp only: next_clause_def Nil fst_conv snd_conv list.case option.case append_Nil2 all)
next
  case (Cons d r)
  then have "d = slash" using hd_dropWhile [of "\<lambda>c. c \<noteq> slash" path] by simp
  with Cons show ?thesis using takeWhile_dropWhile_id [of "\<lambda>c. c \<noteq> slash" path] by (simp add: next_clause_def)
qed

lemma clause_ok_next: "clause_ok (fst (next_clause path))"
  by (auto simp: next_clause_def clause_ok_def dest: set_takeWhileD)

lemma clauses_exist: "\<exists>cs. cs \<noteq> [] \<and> list_all clause_ok cs \<and> path = join cs"
proof (induction "length path" arbitrary: path rule: less_induct)
  case less
  obtain c m where cm: "next_clause path = (c, m)" by fastforce
  show ?case
  proof (cases m)
    case None
    then show ?thesis using next_clause_append [of path] clause_ok_next [of path] cm
      by (intro exI [of _ "[c]"]) simp
  next
    case (Some r)
    obtain cs where "cs \<noteq> []" "list_all clause_ok cs" "r = join cs"
      using less [OF next_clause_shorter [of path c r]] cm Some by auto
    then show ?thesis using next_clause_append [of path] clause_ok_next [of path] cm Some
      by (intro exI [of _ "c # cs"]) (simp add: join_Cons)
  qed
qed

section \<open>The clauses of a path, as the code reads them\<close>

declare depth_loop.simps [simp del] parse_clauses.simps [simp del]

lemma depth_join: "cs \<noteq> [] \<Longrightarrow> list_all (\<lambda>c. clause_ok c \<and> c \<noteq> []) cs \<Longrightarrow> depth_loop (join cs) = int (length cs)"
proof (induction cs)
  case (Cons c cs)
  have nc: "next_clause (join (c # cs)) = (c, if cs = [] then None else Some (join cs))" "join (c # cs) \<noteq> []"
    using Cons.prems next_clause_join [of c cs] by (simp_all add: join_Cons)
  show ?case by (subst depth_loop.simps) (use nc Cons in auto)
qed simp

lemma token_join:
  assumes "clause_ok c" "c \<noteq> []"
  shows "GetNextToken ''/'' (join (c # cs)) = (Some c, join cs)"
proof -
  obtain d ds where c: "c = d # ds" "d \<noteq> slash" using assms by (cases c) (auto simp: clause_ok_def)
  have ds: "clause_ok ds" using assms(1) c by (simp add: clause_ok_def)
  show ?thesis
    using c ds by (cases "cs = []") (simp_all add: GetNextToken_def join_Cons)
qed

lemma tokens_match_join:
  "length sms = length qs \<Longrightarrow> list_all (\<lambda>c. clause_ok c \<and> c \<noteq> []) qs \<Longrightarrow>
    tokens_match regexec sms (join qs) \<longleftrightarrow> list_all2 (clause_matches regexec) sms qs"
  by (induction sms qs rule: list_induct2) (simp_all add: token_join)

definition clause_accepts :: "(string \<Rightarrow> 'r option) \<Rightarrow> ('r \<Rightarrow> string \<Rightarrow> bool) \<Rightarrow> string \<Rightarrow> string \<Rightarrow> bool" where
  "clause_accepts regcomp regexec p q \<longleftrightarrow>
     p = ''*'' \<or> (\<exists>m. SetPattern regcomp StringMatcher_new p True = Ret (B_NO_ERROR, m) \<and> Match regexec m q = Ret True)"

lemma parse_clauses_first:
  assumes "next_clause path = (p, rst)" "parse_clauses regcomp alloc k path = Ret (Some sms, k')"
  shows "\<exists>sm sms' k1. sms = sm # sms' \<and> (\<forall>q. clause_matches regexec sm q = clause_accepts regcomp regexec p q) \<and>
    (case rst of None \<Rightarrow> sms' = [] | Some rest \<Rightarrow> parse_clauses regcomp alloc k1 rest = Ret (Some sms', k'))"
  using assms(2)
  apply (subst (asm) parse_clauses.simps)
  apply (cases "p = ''*''"; cases rst)
  apply (auto simp: assms(1) clause_matches_def clause_accepts_def run_simps split: if_splits)
  done

lemma parse_clauses_join:
  "ps \<noteq> [] \<Longrightarrow> list_all clause_ok ps \<Longrightarrow> parse_clauses regcomp alloc k (join ps) = Ret (Some sms, k') \<Longrightarrow>
    list_all2 (\<lambda>p sm. \<forall>q. clause_matches regexec sm q = clause_accepts regcomp regexec p q) ps sms"
proof (induction ps arbitrary: k sms)
  case (Cons p ps)
  obtain sm sms' k1 where "sms = sm # sms'" "\<forall>q. clause_matches regexec sm q = clause_accepts regcomp regexec p q"
    "if ps = [] then sms' = [] else parse_clauses regcomp alloc k1 (join ps) = Ret (Some sms', k')"
    using parse_clauses_first [OF next_clause_join Cons.prems(3), of regexec] Cons.prems(2) by (auto split: if_splits)
  then show ?case using Cons.IH [of k1 sms'] Cons.prems by (cases "ps = []") auto
qed simp

section \<open>Properties\<close>

definition filter_passes :: "('f \<Rightarrow> 'm \<Rightarrow> bool) \<Rightarrow> 'f option \<Rightarrow> 'm option \<Rightarrow> bool" where
  "filter_passes fmatch flt msg \<longleftrightarrow> (\<forall>f m. flt = Some f \<longrightarrow> msg = Some m \<longrightarrow> fmatch f m)"

lemma FilterMatches_passes: "FilterMatches fmatch e msg = filter_passes fmatch (e_filter e) msg"
  by (auto simp: FilterMatches_def filter_passes_def split: option.splits)

lemma join_no_slash: "qs \<noteq> [] \<Longrightarrow> clause_ok (hd qs) \<Longrightarrow> hd qs \<noteq> [] \<Longrightarrow> join qs \<noteq> [] \<and> hd (join qs) \<noteq> slash"
  by (cases qs; cases "hd qs") (auto simp: join_Cons clause_ok_def)

lemma entry_matches_join:
  assumes "qs \<noteq> []" "list_all (\<lambda>c. clause_ok c \<and> c \<noteq> []) qs" "path \<in> {join qs, slash # join qs}"
  shows "entry_matches_path regexec fmatch e path msg \<longleftrightarrow>
    list_all2 (clause_matches regexec) (e_parser e) qs \<and> filter_passes fmatch (e_filter e) msg"
proof -
  have hd: "join qs \<noteq> []" "hd (join qs) \<noteq> slash"
    using join_no_slash [OF assms(1)] assms(1,2) by (cases qs; simp)+
  have s: "(if path \<noteq> [] \<and> hd path = slash then tl path else path) = join qs"
    using assms(3) hd by auto
  show ?thesis
    unfolding entry_matches_path_def GetPathDepth_def s depth_join [OF assms(1,2)]
    using tokens_match_join [of "e_parser e" qs regexec] assms(2)
    by (auto simp: FilterMatches_passes dest: list_all2_lengthD)
qed

text \<open>
  C27: Putting a path with wildcards into a matcher either fails and changes nothing, or from then on
  the matcher also accepts the paths (with or without a leading slash) whose clauses match those of
  the pattern one by one, if the filter accepts the message; paths accepted before stay accepted.
\<close>

theorem put_then_match:
  assumes "ps \<noteq> []" "list_all clause_ok ps" "join ps \<notin> fst ` set (pm_entries pm)"
    "PutPathString regcomp alloc k pm (join ps) flt = Ret (st, pm', k')"
    "qs \<noteq> []" "list_all (\<lambda>c. clause_ok c \<and> c \<noteq> []) qs" "path \<in> {join qs, slash # join qs}"
  shows "if st = B_ERROR then pm' = pm
    else MatchesPath regexec fmatch pm' path msg \<longleftrightarrow> MatchesPath regexec fmatch pm path msg \<or>
      list_all2 (clause_accepts regcomp regexec) ps qs \<and> filter_passes fmatch flt msg"
proof (cases st)
  case B_ERROR
  then show ?thesis using assms(4)
    by (auto simp: PutPathString_def run_simps put_entry_def Let_def split: if_splits option.splits)
next
  case B_NO_ERROR
  obtain k1 sms k2 where p: "parse_clauses regcomp alloc k1 (join ps) = Ret (Some sms, k2)"
    "pm_entries pm' = pm_entries pm @ [(join ps, \<lparr>e_parser = sms, e_filter = flt\<rparr>)]"
    using assms(3,4) B_NO_ERROR
    by (auto simp: PutPathString_def run_simps put_entry_def Let_def table_put_def split: if_splits option.splits)
  have "list_all2 (clause_matches regexec) sms qs = list_all2 (clause_accepts regcomp regexec) ps qs"
    using parse_clauses_join [OF assms(1,2) p(1), of regexec]
    by (auto simp: list_all2_conv_all_nth)
  then show ?thesis
    using B_NO_ERROR p(2) entry_matches_join [OF assms(5-7), of regexec fmatch "\<lparr>e_parser = sms, e_filter = flt\<rparr>" msg]
    by (simp add: MatchesPath_def)
qed

lemma put_then_match_witness:
  "\<exists>pm'. PutPathString ex_regcomp (\<lambda>_. True) 0 PathMatcher_new ''*/ab'' (Some 7) = Ret (B_NO_ERROR, pm', 5) \<and>
    MatchesPath matches_some (\<lambda>(f :: nat) m. f = m) pm' ''/x/ab'' (Some 7) \<and>
    \<not> MatchesPath matches_some (\<lambda>(f :: nat) m. f = m) pm' ''/x/ab'' (Some 8)"
proof -
  obtain st m where "SetPattern ex_regcomp StringMatcher_new ''ab'' True = Ret (st, m)" "IsPatternUnique m"
    by (simp add: SetPattern_def parse_range_def HasRegexTokens_def IsRegexToken_def IsPatternUnique_def StringMatcher_new_def Let_def)
  then have m: "SetPattern ex_regcomp StringMatcher_new ''ab'' True = Ret (B_NO_ERROR, m)"
    "\<forall>s. Match matches_some m s = Ret (s = ''ab'')"
    using unique_matches [OF ex_library _ _, of "''ab''"] by auto
  obtain pm' where p: "PutPathString ex_regcomp (\<lambda>_. True) 0 PathMatcher_new ''*/ab'' (Some (7 :: nat)) = Ret (B_NO_ERROR, pm', 5)"
    by (simp add: PutPathString_def parse_clauses.simps next_clause_def m(1) put_entry_def PathMatcher_new_def)
  have j: "join [''*'', ''ab''] = ''*/ab''" "join [''x'', ''ab''] = ''x/ab''" by simp_all
  have M: "MatchesPath matches_some (\<lambda>(f :: nat) m. f = m) pm' ''/x/ab'' (Some n) \<longleftrightarrow> n = 7" for n
    using put_then_match [of "[''*'', ''ab'']" PathMatcher_new ex_regcomp "\<lambda>_. True" 0 "Some 7" B_NO_ERROR pm' 5
        "[''x'', ''ab'']" "''/x/ab''" matches_some "\<lambda>f m. f = m" "Some n"] p m
    by (simp add: j PathMatcher_new_def clause_ok_def clause_accepts_def MatchesPath_def filter_passes_def)
  show ?thesis using p M by (intro exI [of _ pm']) simp
qed

end
