(* ===== verification/Node_Model.thy ===== *)
theory Node_Model
  imports Path_Model
begin

text \<open>
  The nodes of the server's data tree, \<^verbatim>\<open>reflector/DataNode.cpp\<close>, and the state of the server that they
  and \<^verbatim>\<open>reflector/StorageReflectSession.cpp\<close> share: the records, the places of a node in the tree, and
  the marks of its subscribers.

  A node is an address in the store. Its table of children has \<open>const char *\<close> keys, which point
  into the name of some node; such a pointer is the address of that node. The ordered index holds such
  pointers too. Tables are lists of items in iteration order. Memory of nodes is not reused: the reference
  counts and the pool of the nodes are not modelled.
\<close>

section \<open>State\<close>

type_synonym nref = nat

record 'm dnode =
  d_parent :: "nref option"
  d_data :: "'m option"
  d_children :: "(nref \<times> nref) list option"
  d_index :: "nref list option"
  d_counter :: u32
  d_name :: string
  d_depth :: u32
  d_subscribers :: "(string \<times> u32) list"

definition DataNode_new :: "'m dnode" where
  "DataNode_new = \<lparr>d_parent = None, d_data = None, d_children = None, d_index = None, d_counter = 0,
     d_name = [], d_depth = 0, d_subscribers = []\<rparr>"

text \<open>
  The messages a session prepares for its client: new data and removals by path, and changes of the
  ordered indices by path.
\<close>

record 'm data_message =
  u_items :: "(string \<times> 'm list) list"
  u_removed :: "string list"

type_synonym index_message = "(string \<times> string list) list"

datatype 'm outgoing = DataItems "'m data_message" | IndexUpdated index_message

text \<open>\<open>s_outgoing\<close> is the queue of the session's gateway, \<open>None\<close> if it has no gateway.\<close>

record ('m, 'r, 'f) session =
  s_reflectToSelf :: bool
  s_subscriptionsEnabled :: bool
  s_subscriptions :: "('r, 'f) path_matcher"
  s_nextSubscriptionMessage :: "'m data_message option"
  s_nextIndexSubscriptionMessage :: "index_message option"
  s_maxSubscriptionMessageItems :: u32
  s_sessionDir :: "nref option"
  s_indexingPresent :: bool
  s_currentNodeCount :: u32
  s_maxNodeCount :: u32
  s_outgoing :: "'m outgoing list option"

record ('m, 'r, 'f) server =
  v_nodes :: "nref \<Rightarrow> 'm dnode"
  v_fresh :: nref
  v_root :: nref
  v_subsDirty :: bool
  v_sessions :: "(string \<times> ('m, 'r, 'f) session) list"
  v_allocs :: nat

text \<open>
  What the server rests on: the allocator, the regular-expression library, the class of the query
  filters, and the payload of nodes that were given none.
\<close>

record ('m, 'r, 'f) server_env =
  x_alloc :: "nat \<Rightarrow> bool"
  x_regexec :: "'r \<Rightarrow> string \<Rightarrow> bool"
  x_fmatch :: "'f \<Rightarrow> 'm \<Rightarrow> bool"
  x_regcomp :: "string \<Rightarrow> 'r option"
  x_blank :: "'m option"

definition request :: "('m, 'r, 'f) server_env \<Rightarrow> ('m, 'r, 'f) server \<Rightarrow> bool \<times> ('m, 'r, 'f) server" where
  "request E s = (x_alloc E (v_allocs s), s\<lparr>v_allocs := Suc (v_allocs s)\<rparr>)"

definition nd :: "('m, 'r, 'f) server \<Rightarrow> nref \<Rightarrow> 'm dnode" where
  "nd s n = v_nodes s n"

definition set_nd :: "nref \<Rightarrow> ('m dnode \<Rightarrow> 'm dnode) \<Rightarrow> ('m, 'r, 'f) server \<Rightarrow> ('m, 'r, 'f) server" where
  "set_nd n f s = s\<lparr>v_nodes := (v_nodes s)(n := f (v_nodes s n))\<rparr>"

lemma nd_simps [simp]:
  "nd (s\<lparr>v_allocs := k\<rparr>) n = nd s n" "nd (s\<lparr>v_subsDirty := b\<rparr>) n = nd s n" "nd (s\<lparr>v_sessions := xs\<rparr>) n = nd s n"
  "nd (s\<lparr>v_fresh := p\<rparr>) n = nd s n" "nd (set_nd m f s) n = (if n = m then f (nd s m) else nd s n)"
  by (simp_all add: nd_def set_nd_def)

section \<open>A node by itself\<close>

definition Init :: "string \<Rightarrow> 'm option \<Rightarrow> 'm dnode \<Rightarrow> 'm dnode" where
  "Init name initData n = n\<lparr>d_name := name, d_parent := None, d_depth := 0, d_data := initData\<rparr>"

definition Reset :: "'m dnode \<Rightarrow> 'm dnode" where
  "Reset n = n\<lparr>d_children := map_option (\<lambda>_. []) (d_children n), d_index := map_option (\<lambda>_. []) (d_index n),
     d_subscribers := [], d_parent := None, d_depth := 0, d_data := None\<rparr>"

text \<open>The child stored under a key that reads as the given string.\<close>

definition find_child :: "(nref \<Rightarrow> 'm dnode) \<Rightarrow> (nref \<times> nref) list \<Rightarrow> string \<Rightarrow> (nref \<times> nref) option" where
  "find_child ns kids key = find (\<lambda>(k, c). d_name (ns k) = key) kids"

definition GetChild :: "('m, 'r, 'f) server \<Rightarrow> nref \<Rightarrow> string \<Rightarrow> nref option" where
  "GetChild s n key =
     (case d_children (nd s n) of None \<Rightarrow> None | Some kids \<Rightarrow> map_option snd (find_child (v_nodes s) kids key))"

definition HasChild :: "('m, 'r, 'f) server \<Rightarrow> nref \<Rightarrow> string \<Rightarrow> bool" where
  "HasChild s n key = (case d_children (nd s n) of None \<Rightarrow> False | Some kids \<Rightarrow> find_child (v_nodes s) kids key \<noteq> None)"

definition GetChildIterator :: "('m, 'r, 'f) server \<Rightarrow> nref \<Rightarrow> (nref \<times> nref) list" where
  "GetChildIterator s n = (case d_children (nd s n) of None \<Rightarrow> [] | Some kids \<Rightarrow> kids)"

definition CountChildren :: "('m, 'r, 'f) server \<Rightarrow> nref \<Rightarrow> u32" where
  "CountChildren s n = (case d_children (nd s n) of None \<Rightarrow> 0 | Some kids \<Rightarrow> of_nat (length kids))"

text \<open>The references a session holds to a node. A new key may need memory, a known one does not.\<close>

definition put_mark :: "('m, 'r, 'f) server_env \<Rightarrow> nref \<Rightarrow> string \<Rightarrow> u32 \<Rightarrow> ('m, 'r, 'f) server \<Rightarrow> ('m, 'r, 'f) server" where
  "put_mark E n sid v s =
     (if sid \<in> fst ` set (d_subscribers (nd s n)) then
        set_nd n (\<lambda>d. d\<lparr>d_subscribers := table_put sid v (d_subscribers d)\<rparr>) s
      else let (ok, s) = request E s
           in if ok then set_nd n (\<lambda>d. d\<lparr>d_subscribers := table_put sid v (d_subscribers d)\<rparr>) s else s)"

definition IncrementSubscriptionRefCount :: "('m, 'r, 'f) server_env \<Rightarrow> nref \<Rightarrow> string \<Rightarrow> int \<Rightarrow> ('m, 'r, 'f) server \<Rightarrow> ('m, 'r, 'f) server" where
  "IncrementSubscriptionRefCount E n sid delta s =
     (if delta > 0 then
        let res = (case map_of (d_subscribers (nd s n)) sid of Some r \<Rightarrow> r | None \<Rightarrow> 0)
        in put_mark E n sid (word_of_int (uint res + delta)) s
      else if delta < 0 then
        case map_of (d_subscribers (nd s n)) sid of
          None \<Rightarrow> s
        | Some res \<Rightarrow>
            let decBy = word_of_int (- delta)
            in if decBy \<ge> res then set_nd n (\<lambda>d. d\<lparr>d_subscribers := remove_item sid (d_subscribers d)\<rparr>) s
               else put_mark E n sid (res - decBy) s
      else s)"

section \<open>The place of a node in the tree\<close>

text \<open>
  The nodes met on the way to the root, without the root. Each step of the loops that walk to the
  root costs one unit of fuel; \<open>v_fresh\<close> bounds the number of nodes, so the fuel is used up
  only when the parents form a cycle.
\<close>

fun up_chain :: "(nref \<Rightarrow> 'm dnode) \<Rightarrow> nat \<Rightarrow> nref \<Rightarrow> nref list run" where
  "up_chain ns fuel n =
     (case d_parent (ns n) of
        None \<Rightarrow> Ret []
      | Some p \<Rightarrow> (case fuel of 0 \<Rightarrow> NoFuel | Suc fuel' \<Rightarrow> bind_run (up_chain ns fuel' p) (\<lambda>c. Ret (n # c))))"

definition ancestry :: "('m, 'r, 'f) server \<Rightarrow> nref \<Rightarrow> nref list run" where
  "ancestry s n = up_chain (v_nodes s) (v_fresh s) n"

text \<open>\<open>steps\<close> times the parent, as long as there is one.\<close>

fun go_up :: "(nref \<Rightarrow> 'm dnode) \<Rightarrow> nat \<Rightarrow> nref option \<Rightarrow> nref option" where
  "go_up ns 0 n = n"
| "go_up ns (Suc steps) n = go_up ns steps (case n of Some m \<Rightarrow> d_parent (ns m) | None \<Rightarrow> None)"

definition Node_GetPathClause :: "('m, 'r, 'f) server \<Rightarrow> nref \<Rightarrow> u32 \<Rightarrow> string option" where
  "Node_GetPathClause s n depth =
     (if depth \<le> d_depth (nd s n)
      then map_option (\<lambda>m. d_name (nd s m)) (go_up (v_nodes s) (unat (d_depth (nd s n)) - unat depth) (Some n))
      else None)"

text \<open>
  The two loops of \<open>GetNodePath\<close> over the names on the way up. The second one fills the buffer
  from its end; what it has written so far is the last argument.
\<close>

fun path_length :: "u32 \<Rightarrow> u32 \<Rightarrow> string list \<Rightarrow> nat" where
  "path_length d startDepth [] = 0"
| "path_length d startDepth (name # names) =
     (if d \<ge> startDepth then 1 + length name + path_length (d - 1) startDepth names else 0)"

fun write_path :: "u32 \<Rightarrow> u32 \<Rightarrow> string list \<Rightarrow> string \<Rightarrow> string" where
  "write_path d startDepth [] written = written"
| "write_path d startDepth (name # names) written =
     (if d \<ge> startDepth then
        write_path (d - 1) startDepth names
          ((if startDepth = 0 \<or> d > startDepth then [slash] else []) @ name @ written)
      else written)"

text \<open>The string is read from the start of the buffer, so it has to be filled exactly.\<close>

definition GetNodePath :: "('m, 'r, 'f) server_env \<Rightarrow> nref \<Rightarrow> u32 \<Rightarrow> ('m, 'r, 'f) server \<Rightarrow> (status \<times> string \<times> ('m, 'r, 'f) server) run" where
  "GetNodePath E n startDepth s =
     (if d_parent (nd s n) = None then Ret (B_NO_ERROR, if startDepth = 0 then [slash] else [], s)
      else bind_run (ancestry s n) (\<lambda>chain.
        let names = map (\<lambda>m. d_name (nd s m)) chain;
            pathLen = path_length (d_depth (nd s n)) startDepth names;
            pathLen = (if pathLen > 0 \<and> startDepth > 0 then pathLen - 1 else pathLen);
            (ok, s) = request E s
        in if \<not> ok then Ret (B_ERROR, [], s)
           else let (ok, s) = (if pathLen \<ge> 256 then request E s else (True, s))
                in if \<not> ok then Ret (B_ERROR, [], s)
                   else let path = write_path (d_depth (nd s n)) startDepth names []
                        in bind_run (guard (length path = pathLen)) (\<lambda>_. Ret (B_NO_ERROR, path, s))))"

end
