(* ===== verification/Node_Notify.thy ===== *)
theory Node_Notify
  imports Node_Model
begin

text \<open>
  How a change of the tree reaches the clients (\<^verbatim>\<open>reflector/StorageReflectSession.cpp\<close>): which
  subscriptions of a session match a node, the marks put on a new node, and the messages prepared for each
  subscriber of a changed node. A session is named by its id; \<open>this\<close> is the id of the session that
  made the change.
\<close>

section \<open>Subscriptions that match a node\<close>

text \<open>The loop over the clauses, last one first, and the nodes on the way up.\<close>

fun climb :: "('r \<Rightarrow> string \<Rightarrow> bool) \<Rightarrow> (nref \<Rightarrow> 'm dnode) \<Rightarrow> 'r matcher option list \<Rightarrow> nref option \<Rightarrow> bool run" where
  "climb regexec ns [] travNode = Ret True"
| "climb regexec ns (sm # sms) None = Fault"
| "climb regexec ns (sm # sms) (Some n) =
     (if \<not> clause_matches regexec sm (d_name (ns n)) then Ret False
      else climb regexec ns sms (d_parent (ns n)))"

definition PathMatches :: "('m, 'r, 'f) server_env \<Rightarrow> ('m, 'r, 'f) server \<Rightarrow> nref \<Rightarrow> 'm option \<Rightarrow> ('r, 'f) path_entry \<Rightarrow> int \<Rightarrow> bool run" where
  "PathMatches E s n optData e rootDepth =
     (if int (length (e_parser e)) = sint (d_depth (nd s n)) - rootDepth then
        bind_run (climb (x_regexec E) (v_nodes s) (rev (drop (nat rootDepth) (e_parser e))) (Some n)) (\<lambda>match.
          Ret (if match then FilterMatches (x_fmatch E) e optData else False))
      else Ret False)"

fun some_entry_matches :: "('m, 'r, 'f) server_env \<Rightarrow> ('m, 'r, 'f) server \<Rightarrow> nref \<Rightarrow> 'm option \<Rightarrow> int \<Rightarrow> (string \<times> ('r, 'f) path_entry) list \<Rightarrow> bool run" where
  "some_entry_matches E s n optData rootDepth [] = Ret False"
| "some_entry_matches E s n optData rootDepth ((_, e) # es) =
     bind_run (PathMatches E s n optData e rootDepth) (\<lambda>b.
       if b then Ret True else some_entry_matches E s n optData rootDepth es)"

definition MatchesNode :: "('m, 'r, 'f) server_env \<Rightarrow> ('m, 'r, 'f) server \<Rightarrow> ('r, 'f) path_matcher \<Rightarrow> nref \<Rightarrow> 'm option \<Rightarrow> int \<Rightarrow> bool run" where
  "MatchesNode E s pm n optData rootDepth = some_entry_matches E s n optData rootDepth (pm_entries pm)"

fun count_entries :: "('m, 'r, 'f) server_env \<Rightarrow> ('m, 'r, 'f) server \<Rightarrow> nref \<Rightarrow> 'm option \<Rightarrow> int \<Rightarrow> (string \<times> ('r, 'f) path_entry) list \<Rightarrow> u32 \<Rightarrow> u32 run" where
  "count_entries E s n optData rootDepth [] matchCount = Ret matchCount"
| "count_entries E s n optData rootDepth ((_, e) # es) matchCount =
     bind_run (PathMatches E s n optData e rootDepth) (\<lambda>b.
       count_entries E s n optData rootDepth es (if b then matchCount + 1 else matchCount))"

definition GetMatchCount :: "('m, 'r, 'f) server_env \<Rightarrow> ('m, 'r, 'f) server \<Rightarrow> ('r, 'f) path_matcher \<Rightarrow> nref \<Rightarrow> 'm option \<Rightarrow> int \<Rightarrow> u32 run" where
  "GetMatchCount E s pm n optData rootDepth = count_entries E s n optData rootDepth (pm_entries pm) 0"

section \<open>A new node\<close>

definition NodeCreated :: "('m, 'r, 'f) server_env \<Rightarrow> string \<Rightarrow> ('m, 'r, 'f) session \<Rightarrow> nref \<Rightarrow> ('m, 'r, 'f) server \<Rightarrow> ('m, 'r, 'f) server run" where
  "NodeCreated E sid sess newNode s =
     bind_run (GetMatchCount E s (s_subscriptions sess) newNode None 0) (\<lambda>c.
       Ret (IncrementSubscriptionRefCount E newNode sid (uint c) s))"

fun tell_created :: "('m, 'r, 'f) server_env \<Rightarrow> nref \<Rightarrow> (string \<times> ('m, 'r, 'f) session) list \<Rightarrow> ('m, 'r, 'f) server \<Rightarrow> ('m, 'r, 'f) server run" where
  "tell_created E newNode [] s = Ret s"
| "tell_created E newNode ((sid, sess) # rest) s =
     bind_run (NodeCreated E sid sess newNode s) (\<lambda>s. tell_created E newNode rest s)"

definition NotifySubscribersOfNewNode :: "('m, 'r, 'f) server_env \<Rightarrow> nref \<Rightarrow> ('m, 'r, 'f) server \<Rightarrow> ('m, 'r, 'f) server run" where
  "NotifySubscribersOfNewNode E newNode s = tell_created E newNode (v_sessions s) s"

section \<open>Messages to the clients\<close>

definition session_of :: "('m, 'r, 'f) server \<Rightarrow> string \<Rightarrow> ('m, 'r, 'f) session option" where
  "session_of s sid = map_of (v_sessions s) sid"

definition set_session :: "string \<Rightarrow> (('m, 'r, 'f) session \<Rightarrow> ('m, 'r, 'f) session) \<Rightarrow> ('m, 'r, 'f) server \<Rightarrow> ('m, 'r, 'f) server" where
  "set_session sid f s = s\<lparr>v_sessions := map (\<lambda>(i, x). (i, if i = sid then f x else x)) (v_sessions s)\<rparr>"

text \<open>A message for the client: dropped without a gateway, or if the queue cannot grow.\<close>

definition MessageReceivedFromSession :: "('m, 'r, 'f) server_env \<Rightarrow> string \<Rightarrow> 'm outgoing \<Rightarrow> ('m, 'r, 'f) server \<Rightarrow> ('m, 'r, 'f) server" where
  "MessageReceivedFromSession E sid msg s =
     (case session_of s sid of
        None \<Rightarrow> s
      | Some x \<Rightarrow> (case s_outgoing x of
            None \<Rightarrow> s
          | Some q \<Rightarrow> let (ok, s) = request E s
                      in if ok then set_session sid (\<lambda>x. x\<lparr>s_outgoing := Some (q @ [msg])\<rparr>) s else s))"

text \<open>
  \<open>PushSubscriptionMessage\<close> for the two messages of a session. Sending a message to the client prepares no
  new one, so its loop runs once.
\<close>

definition push_session :: "('m, 'r, 'f) server_env \<Rightarrow> string \<Rightarrow> ('m, 'r, 'f) server \<Rightarrow> ('m, 'r, 'f) server" where
  "push_session E sid s =
     (case session_of s sid of
        None \<Rightarrow> s
      | Some x \<Rightarrow>
          let s = (case s_nextSubscriptionMessage x of
                None \<Rightarrow> s
              | Some m \<Rightarrow> MessageReceivedFromSession E sid (DataItems m) (set_session sid (\<lambda>x. x\<lparr>s_nextSubscriptionMessage := None\<rparr>) s))
          in case s_nextIndexSubscriptionMessage x of
                None \<Rightarrow> s
              | Some m \<Rightarrow> MessageReceivedFromSession E sid (IndexUpdated m) (set_session sid (\<lambda>x. x\<lparr>s_nextIndexSubscriptionMessage := None\<rparr>) s))"

text \<open>The call at the end of the function finds the flag cleared and does nothing.\<close>

definition PushSubscriptionMessages :: "('m, 'r, 'f) server_env \<Rightarrow> ('m, 'r, 'f) server \<Rightarrow> ('m, 'r, 'f) server" where
  "PushSubscriptionMessages E s =
     (if v_subsDirty s
      then fold (\<lambda>(sid, _). push_session E sid) (v_sessions s) (s\<lparr>v_subsDirty := False\<rparr>)
      else s)"

definition CountNames :: "'m data_message \<Rightarrow> u32" where
  "CountNames m = of_nat (length (u_items m) + (if u_removed m = [] then 0 else 1))"

definition AddRemoved :: "string \<Rightarrow> 'm data_message \<Rightarrow> 'm data_message" where
  "AddRemoved np m = m\<lparr>u_removed := u_removed m @ [np]\<rparr>"

definition AddItem :: "string \<Rightarrow> 'm \<Rightarrow> 'm data_message \<Rightarrow> 'm data_message" where
  "AddItem np d m = m\<lparr>u_items := table_put np ((case map_of (u_items m) np of Some ds \<Rightarrow> ds | None \<Rightarrow> []) @ [d]) (u_items m)\<rparr>"

definition pending_items :: "('m, 'r, 'f) server \<Rightarrow> string \<Rightarrow> 'm data_message option" where
  "pending_items s sid = (case session_of s sid of None \<Rightarrow> None | Some x \<Rightarrow> s_nextSubscriptionMessage x)"

text \<open>Adding to the message may fail for lack of memory, which goes unnoticed.\<close>

definition update_pending :: "('m, 'r, 'f) server_env \<Rightarrow> string \<Rightarrow> ('m data_message \<Rightarrow> 'm data_message) \<Rightarrow> ('m, 'r, 'f) server \<Rightarrow> ('m, 'r, 'f) server" where
  "update_pending E sid f s =
     (let (ok, s) = request E s
      in if ok then set_session sid (\<lambda>x. x\<lparr>s_nextSubscriptionMessage := map_option f (s_nextSubscriptionMessage x)\<rparr>) s else s)"

text \<open>\<open>NodeChangedAux\<close>; it calls itself at most once, so two rounds of fuel are enough.\<close>

fun change_rounds :: "nat \<Rightarrow> ('m, 'r, 'f) server_env \<Rightarrow> string \<Rightarrow> nref \<Rightarrow> bool \<Rightarrow> ('m, 'r, 'f) server \<Rightarrow> ('m, 'r, 'f) server run" where
  "change_rounds 0 E sid n isBeingRemoved s = NoFuel"
| "change_rounds (Suc fuel) E sid n isBeingRemoved s =
     (let (ok, s) = (if pending_items s sid = None then request E s else (True, s))
      in if \<not> ok then Ret s
         else
           let s = set_session sid (\<lambda>x. x\<lparr>s_nextSubscriptionMessage :=
                 Some (case s_nextSubscriptionMessage x of Some m \<Rightarrow> m | None \<Rightarrow> \<lparr>u_items = [], u_removed = []\<rparr>)\<rparr>) s;
               s = s\<lparr>v_subsDirty := True\<rparr>
           in bind_run (GetNodePath E n 0 s) (\<lambda>(st, np, s).
              bind_run
                (if st \<noteq> B_NO_ERROR then Ret s
                 else if isBeingRemoved then
                   if (case pending_items s sid of None \<Rightarrow> False | Some m \<Rightarrow> np \<in> fst ` set (u_items m))
                   then change_rounds fuel E sid n isBeingRemoved (PushSubscriptionMessages E s)
                   else Ret (update_pending E sid (AddRemoved np) s)
                 else Ret (case d_data (nd s n) of None \<Rightarrow> s | Some d \<Rightarrow> update_pending E sid (AddItem np d) s)) (\<lambda>s.
              case (pending_items s sid, session_of s sid) of
                (Some m, Some x) \<Rightarrow>
                  Ret (if CountNames m \<ge> s_maxSubscriptionMessageItems x then PushSubscriptionMessages E s else s)
              | _ \<Rightarrow> Fault)))"

definition NodeChangedAux :: "('m, 'r, 'f) server_env \<Rightarrow> string \<Rightarrow> nref \<Rightarrow> bool \<Rightarrow> ('m, 'r, 'f) server \<Rightarrow> ('m, 'r, 'f) server run" where
  "NodeChangedAux E sid n isBeingRemoved s = change_rounds 2 E sid n isBeingRemoved s"

text \<open>
  What a session makes of a change: \<open>Some b\<close> to report it, as a removal if \<open>b\<close>; \<open>None\<close> if, by its
  filters, its client did not see the node before and does not see it now.
\<close>

definition filtered_change :: "('m, 'r, 'f) server_env \<Rightarrow> ('m, 'r, 'f) server \<Rightarrow> ('r, 'f) path_matcher \<Rightarrow> nref \<Rightarrow> 'm option \<Rightarrow> bool \<Rightarrow> bool option run" where
  "filtered_change E s subs n oldData isBeingRemoved =
     (if pm_numFilters subs > 0 then
        if isBeingRemoved then
          bind_run (MatchesNode E s subs n oldData 0) (\<lambda>m. Ret (if m then Some True else None))
        else if oldData \<noteq> None then
          bind_run (MatchesNode E s subs n (d_data (nd s n)) 0) (\<lambda>matches.
            if matches then Ret (Some False)
            else bind_run (MatchesNode E s subs n oldData 0) (\<lambda>m. Ret (if m then Some True else None)))
        else bind_run (MatchesNode E s subs n (d_data (nd s n)) 0) (\<lambda>m. Ret (if m then Some False else None))
      else Ret (Some isBeingRemoved))"

definition NodeChanged :: "('m, 'r, 'f) server_env \<Rightarrow> string \<Rightarrow> ('m, 'r, 'f) session \<Rightarrow> nref \<Rightarrow> 'm option \<Rightarrow> bool \<Rightarrow>
    ('m, 'r, 'f) server \<Rightarrow> ('m, 'r, 'f) server run" where
  "NodeChanged E sid sess n oldData isBeingRemoved s =
     (if s_subscriptionsEnabled sess then
        bind_run (filtered_change E s (s_subscriptions sess) n oldData isBeingRemoved) (\<lambda>r.
          case r of None \<Rightarrow> Ret s | Some removed \<Rightarrow> NodeChangedAux E sid n removed s)
      else Ret s)"

fun tell_changed :: "('m, 'r, 'f) server_env \<Rightarrow> string \<Rightarrow> nref \<Rightarrow> 'm option \<Rightarrow> bool \<Rightarrow> (string \<times> u32) list \<Rightarrow>
    ('m, 'r, 'f) server \<Rightarrow> ('m, 'r, 'f) server run" where
  "tell_changed E this n oldData isBeingRemoved [] s = Ret s"
| "tell_changed E this n oldData isBeingRemoved ((sid, _) # rest) s =
     bind_run
       (case session_of s sid of
          None \<Rightarrow> Ret s
        | Some sess \<Rightarrow>
            if sid \<noteq> this \<or> (case session_of s this of None \<Rightarrow> False | Some x \<Rightarrow> s_reflectToSelf x)
            then NodeChanged E sid sess n oldData isBeingRemoved s else Ret s)
       (\<lambda>s. tell_changed E this n oldData isBeingRemoved rest s)"

definition NotifySubscribersThatNodeChanged :: "('m, 'r, 'f) server_env \<Rightarrow> string \<Rightarrow> nref \<Rightarrow> 'm option \<Rightarrow> bool \<Rightarrow>
    ('m, 'r, 'f) server \<Rightarrow> ('m, 'r, 'f) server run" where
  "NotifySubscribersThatNodeChanged E this n oldData isBeingRemoved s =
     tell_changed E this n oldData isBeingRemoved (d_subscribers (nd s n)) s"

section \<open>Changes of an ordered index\<close>

fun decimal :: "nat \<Rightarrow> string" where
  "decimal n = (if n < 10 then [char_of (48 + n)] else decimal (n div 10) @ [char_of (48 + n mod 10)])"

definition INDEX_OP_ENTRYINSERTED :: char where "INDEX_OP_ENTRYINSERTED = CHR ''i''"
definition INDEX_OP_ENTRYREMOVED :: char where "INDEX_OP_ENTRYREMOVED = CHR ''r''"

text \<open>The text is printed into an array of 100 characters.\<close>

definition NodeIndexChanged :: "('m, 'r, 'f) server_env \<Rightarrow> string \<Rightarrow> ('m, 'r, 'f) session \<Rightarrow> nref \<Rightarrow> char \<Rightarrow> u32 \<Rightarrow> string \<Rightarrow>
    ('m, 'r, 'f) server \<Rightarrow> ('m, 'r, 'f) server run" where
  "NodeIndexChanged E sid sess n op index key s =
     (if s_subscriptionsEnabled sess then
        let (ok, s) = (if s_nextIndexSubscriptionMessage sess = None then request E s else (True, s))
        in if \<not> ok then Ret s
           else
             let msg = (case s_nextIndexSubscriptionMessage sess of Some m \<Rightarrow> m | None \<Rightarrow> []);
                 s = set_session sid (\<lambda>x. x\<lparr>s_nextIndexSubscriptionMessage := Some msg\<rparr>) s
             in bind_run (GetNodePath E n 0 s) (\<lambda>(st, np, s).
                if st \<noteq> B_NO_ERROR then Ret s
                else
                  let s = s\<lparr>v_subsDirty := True\<rparr>;
                      temp = op # decimal (unat index) @ CHR '':'' # key
                  in bind_run (guard (length temp < 100)) (\<lambda>_.
                       let (ok, s) = request E s;
                           msg' = table_put np ((case map_of msg np of Some l \<Rightarrow> l | None \<Rightarrow> []) @ [temp]) msg
                       in Ret (if ok then set_session sid (\<lambda>x. x\<lparr>s_nextIndexSubscriptionMessage := Some msg'\<rparr>) s else s)))
      else Ret s)"

fun tell_index :: "('m, 'r, 'f) server_env \<Rightarrow> nref \<Rightarrow> char \<Rightarrow> u32 \<Rightarrow> string \<Rightarrow> (string \<times> u32) list \<Rightarrow>
    ('m, 'r, 'f) server \<Rightarrow> ('m, 'r, 'f) server run" where
  "tell_index E n op index key [] s = Ret s"
| "tell_index E n op index key ((sid, _) # rest) s =
     bind_run
       (case session_of s sid of None \<Rightarrow> Ret s | Some sess \<Rightarrow> NodeIndexChanged E sid sess n op index key s)
       (\<lambda>s. tell_index E n op index key rest s)"

definition NotifySubscribersThatNodeIndexChanged :: "('m, 'r, 'f) server_env \<Rightarrow> nref \<Rightarrow> char \<Rightarrow> u32 \<Rightarrow> string \<Rightarrow>
    ('m, 'r, 'f) server \<Rightarrow> ('m, 'r, 'f) server run" where
  "NotifySubscribersThatNodeIndexChanged E n op index key s =
     tell_index E n op index key (d_subscribers (nd s n)) s"

end
