(* ===== verification/Node_Ops.thy ===== *)
theory Node_Ops
  imports Node_Notify
begin

text \<open>
  The operations on the tree, \<^verbatim>\<open>reflector/DataNode.cpp\<close>. An optional session to notify is
  \<open>Some\<close> of its id; the result is the status with the state after the call.
\<close>

section \<open>Parents and data\<close>

definition SetParent :: "('m, 'r, 'f) server_env \<Rightarrow> nref \<Rightarrow> nref option \<Rightarrow> string option \<Rightarrow> ('m, 'r, 'f) server \<Rightarrow> ('m, 'r, 'f) server run" where
  "SetParent E n parent optNotifyWith s =
     (let s = set_nd n (\<lambda>d. d\<lparr>d_parent := parent\<rparr>) s;
          s = (if parent = None then set_nd n (\<lambda>d. d\<lparr>d_subscribers := []\<rparr>) s else s);
          s = set_nd n (\<lambda>d. d\<lparr>d_depth := 0\<rparr>) s
      in if parent \<noteq> None then
           bind_run (ancestry s n) (\<lambda>chain.
             let s = set_nd n (\<lambda>d. d\<lparr>d_depth := of_nat (length chain)\<rparr>) s
             in if optNotifyWith \<noteq> None then NotifySubscribersOfNewNode E n s else Ret s)
         else Ret s)"

definition SetData :: "('m, 'r, 'f) server_env \<Rightarrow> nref \<Rightarrow> 'm option \<Rightarrow> string option \<Rightarrow> bool \<Rightarrow> ('m, 'r, 'f) server \<Rightarrow> ('m, 'r, 'f) server run" where
  "SetData E n data optNotifyWith isBeingCreated s =
     (let oldData = (if isBeingCreated then None else d_data (nd s n));
          s = set_nd n (\<lambda>d. d\<lparr>d_data := data\<rparr>) s
      in case optNotifyWith of
           None \<Rightarrow> Ret s
         | Some this \<Rightarrow> NotifySubscribersThatNodeChanged E this n oldData False s)"

definition GetNewDataNode :: "('m, 'r, 'f) server_env \<Rightarrow> string \<Rightarrow> 'm option \<Rightarrow> ('m, 'r, 'f) server \<Rightarrow> nref option \<times> ('m, 'r, 'f) server" where
  "GetNewDataNode E name initialValue s =
     (let (ok, s) = request E s
      in if ok then (Some (v_fresh s), set_nd (v_fresh s) (\<lambda>_. Init name initialValue DataNode_new) s\<lparr>v_fresh := Suc (v_fresh s)\<rparr>)
         else (None, s))"

section \<open>Children\<close>

text \<open>\<open>Put\<close> on the table of children. For a known key the old key stays, with the new node as its value.\<close>

definition put_child_item :: "(nref \<Rightarrow> 'm dnode) \<Rightarrow> nref \<Rightarrow> (nref \<times> nref) list \<Rightarrow> (nref \<times> nref) list" where
  "put_child_item ns child kids =
     (case find_child ns kids (d_name (ns child)) of
        Some (k, _) \<Rightarrow> map (\<lambda>(k', c). if k' = k then (k', child) else (k', c)) kids
      | None \<Rightarrow> kids @ [(child, child)])"

definition PutChild :: "('m, 'r, 'f) server_env \<Rightarrow> nref \<Rightarrow> nref \<Rightarrow> string option \<Rightarrow> string option \<Rightarrow>
    ('m, 'r, 'f) server \<Rightarrow> (status \<times> ('m, 'r, 'f) server) run" where
  "PutChild E n child optNotifyWithOnSetParent optNotifyChangedData s =
     (let (ok, s) = (if d_children (nd s n) = None then request E s else (True, s))
      in if \<not> ok then Ret (B_ERROR, s)
         else
           let s = set_nd n (\<lambda>d. d\<lparr>d_children := Some (case d_children d of Some kids \<Rightarrow> kids | None \<Rightarrow> [])\<rparr>) s
           in bind_run (SetParent E child (Some n) optNotifyWithOnSetParent s) (\<lambda>s.
              let oldNode = GetChild s n (d_name (nd s child));
                  (ok, s) = (if oldNode = None then request E s else (True, s))
              in if \<not> ok then Ret (B_ERROR, s)
                 else
                   let s = set_nd n (\<lambda>d. d\<lparr>d_children := map_option (put_child_item (v_nodes s) child) (d_children d)\<rparr>) s
                   in case optNotifyChangedData of
                        None \<Rightarrow> Ret (B_NO_ERROR, s)
                      | Some this \<Rightarrow>
                          bind_run (NotifySubscribersThatNodeChanged E this child
                              (case oldNode of Some old \<Rightarrow> d_data (nd s old) | None \<Rightarrow> None) False s)
                            (\<lambda>s. Ret (B_NO_ERROR, s))))"

section \<open>The ordered index\<close>

text \<open>The last position whose entry reads as the given string.\<close>

definition last_position :: "(nref \<Rightarrow> 'm dnode) \<Rightarrow> nref list \<Rightarrow> string \<Rightarrow> nat option" where
  "last_position ns index key = find (\<lambda>i. d_name (ns (index ! i)) = key) (rev [0..<length index])"

definition insert_at :: "nat \<Rightarrow> 'a \<Rightarrow> 'a list \<Rightarrow> 'a list" where
  "insert_at i x xs = take i xs @ x # drop i xs"

definition starts_with_I :: "string \<Rightarrow> bool" where
  "starts_with_I key \<longleftrightarrow> key \<noteq> [] \<and> hd key = CHR ''I''"

definition RemoveIndexEntryAt :: "('m, 'r, 'f) server_env \<Rightarrow> nref \<Rightarrow> u32 \<Rightarrow> string option \<Rightarrow>
    ('m, 'r, 'f) server \<Rightarrow> (status \<times> ('m, 'r, 'f) server) run" where
  "RemoveIndexEntryAt E n removeIndex optNotifyWith s =
     (case d_index (nd s n) of
        None \<Rightarrow> Ret (B_ERROR, s)
      | Some index \<Rightarrow>
          if unat removeIndex < length index then
            let holdKey = d_name (nd s (index ! unat removeIndex));
                s = set_nd n (\<lambda>d. d\<lparr>d_index := Some (remove_nth (unat removeIndex) index)\<rparr>) s
            in case optNotifyWith of
                 None \<Rightarrow> Ret (B_NO_ERROR, s)
               | Some _ \<Rightarrow>
                   bind_run (NotifySubscribersThatNodeIndexChanged E n INDEX_OP_ENTRYREMOVED removeIndex holdKey s)
                     (\<lambda>s. Ret (B_NO_ERROR, s))
          else Ret (B_ERROR, s))"

definition RemoveIndexEntry :: "('m, 'r, 'f) server_env \<Rightarrow> nref \<Rightarrow> string \<Rightarrow> string option \<Rightarrow>
    ('m, 'r, 'f) server \<Rightarrow> (status \<times> ('m, 'r, 'f) server) run" where
  "RemoveIndexEntry E n key optNotifyWith s =
     (case d_index (nd s n) of
        None \<Rightarrow> Ret (B_ERROR, s)
      | Some index \<Rightarrow>
          if starts_with_I key then
            case last_position (v_nodes s) index key of
              None \<Rightarrow> Ret (B_ERROR, s)
            | Some i \<Rightarrow>
                let s = set_nd n (\<lambda>d. d\<lparr>d_index := Some (remove_nth i index)\<rparr>) s
                in case optNotifyWith of
                     None \<Rightarrow> Ret (B_NO_ERROR, s)
                   | Some _ \<Rightarrow>
                       bind_run (NotifySubscribersThatNodeIndexChanged E n INDEX_OP_ENTRYREMOVED (of_nat i) key s)
                         (\<lambda>s. Ret (B_NO_ERROR, s))
          else Ret (B_ERROR, s))"

text \<open>Making the index of a node that has none.\<close>

definition need_index :: "('m, 'r, 'f) server_env \<Rightarrow> nref \<Rightarrow> ('m, 'r, 'f) server \<Rightarrow> bool \<times> ('m, 'r, 'f) server" where
  "need_index E n s =
     (if d_index (nd s n) = None then
        let (ok, s) = request E s
        in (ok, if ok then set_nd n (\<lambda>d. d\<lparr>d_index := Some []\<rparr>) s else s)
      else (True, s))"

text \<open>\<open>InsertItemAt\<close> on the index: fails beyond the end and without memory.\<close>

definition insert_entry :: "('m, 'r, 'f) server_env \<Rightarrow> nref \<Rightarrow> nat \<Rightarrow> nref \<Rightarrow> ('m, 'r, 'f) server \<Rightarrow> bool \<times> ('m, 'r, 'f) server" where
  "insert_entry E n i key s =
     (case d_index (nd s n) of
        None \<Rightarrow> (False, s)
      | Some index \<Rightarrow>
          if i > length index then (False, s)
          else let (ok, s) = request E s
               in (ok, if ok then set_nd n (\<lambda>d. d\<lparr>d_index := Some (insert_at i key index)\<rparr>) s else s))"

definition InsertIndexEntryAt :: "('m, 'r, 'f) server_env \<Rightarrow> nref \<Rightarrow> u32 \<Rightarrow> string \<Rightarrow>
    ('m, 'r, 'f) server \<Rightarrow> (status \<times> ('m, 'r, 'f) server) run" where
  "InsertIndexEntryAt E n insertIndex key s =
     (case d_children (nd s n) of
        None \<Rightarrow> Ret (B_ERROR, s)
      | Some kids \<Rightarrow>
          (case find_child (v_nodes s) kids key of
             None \<Rightarrow> Ret (B_ERROR, s)
           | Some (childKey, _) \<Rightarrow>
               let (ok, s) = need_index E n s
               in if \<not> ok then Ret (B_ERROR, s)
                  else let (ok, s) = insert_entry E n (unat insertIndex) childKey s
                       in if ok then
                            bind_run (NotifySubscribersThatNodeIndexChanged E n INDEX_OP_ENTRYINSERTED insertIndex (d_name (nd s childKey)) s)
                              (\<lambda>s. Ret (B_NO_ERROR, s))
                          else Ret (B_ERROR, s)))"

text \<open>The removal has left a free slot in the queue, so the insertion needs no memory.\<close>

definition ReorderChild :: "('m, 'r, 'f) server_env \<Rightarrow> nref \<Rightarrow> nref \<Rightarrow> string option \<Rightarrow> string option \<Rightarrow>
    ('m, 'r, 'f) server \<Rightarrow> (status \<times> ('m, 'r, 'f) server) run" where
  "ReorderChild E n child moveToBeforeThis optNotifyWith s =
     (if d_index (nd s n) = None \<or> moveToBeforeThis = Some (d_name (nd s child)) then Ret (B_ERROR, s)
      else bind_run (RemoveIndexEntry E n (d_name (nd s child)) optNotifyWith s) (\<lambda>(st, s).
        if st \<noteq> B_NO_ERROR then Ret (B_ERROR, s)
        else case d_index (nd s n) of
            None \<Rightarrow> Ret (B_ERROR, s)
          | Some index \<Rightarrow>
              let targetIndex =
                    (case moveToBeforeThis of
                       None \<Rightarrow> length index
                     | Some m \<Rightarrow>
                         if HasChild s n m
                         then (case last_position (v_nodes s) index m of Some i \<Rightarrow> i | None \<Rightarrow> length index)
                         else length index);
                  s = set_nd n (\<lambda>d. d\<lparr>d_index := Some (insert_at targetIndex child index)\<rparr>) s
              in case optNotifyWith of
                   None \<Rightarrow> Ret (B_NO_ERROR, s)
                 | Some _ \<Rightarrow>
                     bind_run (NotifySubscribersThatNodeIndexChanged E n INDEX_OP_ENTRYINSERTED (of_nat targetIndex) (d_name (nd s child)) s)
                       (\<lambda>s. Ret (B_NO_ERROR, s))))"

section \<open>Removal\<close>

text \<open>
  Each call and each round of the loop over the children costs one unit of fuel. The counter of the
  caller, if there is one, goes down by one for every node removed.
\<close>

fun RemoveChild :: "nat \<Rightarrow> ('m, 'r, 'f) server_env \<Rightarrow> nref \<Rightarrow> string \<Rightarrow> string option \<Rightarrow> bool \<Rightarrow> u32 option \<Rightarrow>
      ('m, 'r, 'f) server \<Rightarrow> (status \<times> u32 option \<times> ('m, 'r, 'f) server) run"
  and remove_children :: "nat \<Rightarrow> ('m, 'r, 'f) server_env \<Rightarrow> nref \<Rightarrow> string option \<Rightarrow> u32 option \<Rightarrow>
      ('m, 'r, 'f) server \<Rightarrow> (u32 option \<times> ('m, 'r, 'f) server) run" where
  "RemoveChild 0 E n key optNotifyWith recurse cnt s = NoFuel"
| "RemoveChild (Suc fuel) E n key optNotifyWith recurse cnt s =
     (case GetChild s n key of
        None \<Rightarrow> Ret (B_ERROR, cnt, s)
      | Some child \<Rightarrow>
          bind_run (if recurse then remove_children fuel E child optNotifyWith cnt s else Ret (cnt, s)) (\<lambda>(cnt, s).
          bind_run (RemoveIndexEntry E n key optNotifyWith s) (\<lambda>(_, s).
          bind_run (case optNotifyWith of
                      None \<Rightarrow> Ret s
                    | Some this \<Rightarrow> NotifySubscribersThatNodeChanged E this child (d_data (nd s child)) True s) (\<lambda>s.
          bind_run (SetParent E child None optNotifyWith s) (\<lambda>s.
            Ret (B_NO_ERROR, map_option (\<lambda>c. c - 1) cnt,
              set_nd n (\<lambda>d. d\<lparr>d_children := map_option (filter (\<lambda>(k, _). d_name (v_nodes s k) \<noteq> key)) (d_children d)\<rparr>) s))))))"
| "remove_children 0 E n optNotifyWith cnt s = NoFuel"
| "remove_children (Suc fuel) E n optNotifyWith cnt s =
     (if CountChildren s n > 0 then
        case GetChildIterator s n of
          [] \<Rightarrow> Ret (cnt, s)
        | (name, _) # _ \<Rightarrow>
            bind_run (RemoveChild fuel E n (d_name (nd s name)) optNotifyWith True cnt s) (\<lambda>(_, cnt, s).
              remove_children fuel E n optNotifyWith cnt s)
      else Ret (cnt, s))"

section \<open>Insertion with an index entry\<close>

text \<open>The first unused name of the form \<open>I<counter>\<close>; each try costs one unit of fuel.\<close>

fun unused_name :: "nat \<Rightarrow> nref \<Rightarrow> ('m, 'r, 'f) server \<Rightarrow> (string \<times> ('m, 'r, 'f) server) run" where
  "unused_name 0 n s = NoFuel"
| "unused_name (Suc fuel) n s =
     (let temp = CHR ''I'' # decimal (unat (d_counter (nd s n)));
          s = set_nd n (\<lambda>d. d\<lparr>d_counter := d_counter d + 1\<rparr>) s
      in if HasChild s n temp then unused_name fuel n s else Ret (temp, s))"

text \<open>
  Where \<open>InsertOrderedChild\<close> puts the new entry: before the last entry with the name asked for, at the end
  otherwise. A name that does not start with \<open>I\<close> is not looked for.
\<close>

definition insert_position :: "('m, 'r, 'f) server \<Rightarrow> nref \<Rightarrow> string option \<Rightarrow> nat" where
  "insert_position s n optInsertBefore =
     (let index = (case d_index (nd s n) of Some ix \<Rightarrow> ix | None \<Rightarrow> [])
      in case optInsertBefore of
           None \<Rightarrow> length index
         | Some b \<Rightarrow>
             if starts_with_I b
             then (case last_position (v_nodes s) index b of Some i \<Rightarrow> i | None \<Rightarrow> length index)
             else length index)"

text \<open>
  The last component of the result is the entry for the caller's table of added nodes, which exists if
  \<open>wantAdded\<close>.
\<close>

definition InsertOrderedChild :: "nat \<Rightarrow> ('m, 'r, 'f) server_env \<Rightarrow> nref \<Rightarrow> 'm option \<Rightarrow> string option \<Rightarrow> string option \<Rightarrow> string \<Rightarrow>
    string option \<Rightarrow> bool \<Rightarrow> ('m, 'r, 'f) server \<Rightarrow> (status \<times> (string \<times> nref) option \<times> ('m, 'r, 'f) server) run" where
  "InsertOrderedChild fuel E n data optInsertBefore optNodeName notifyWithOnSetParent optNotifyChangedData wantAdded s =
     (let (ok, s) = need_index E n s
      in if \<not> ok then Ret (B_ERROR, None, s)
         else bind_run (case optNodeName of Some name \<Rightarrow> Ret (name, s) | None \<Rightarrow> unused_name fuel n s) (\<lambda>(name, s).
           case GetNewDataNode E name data s of
             (None, s) \<Rightarrow> Ret (B_ERROR, None, s)
           | (Some newNode, s) \<Rightarrow>
               let insertIndex = insert_position s n optInsertBefore
               in bind_run (PutChild E n newNode (Some notifyWithOnSetParent) optNotifyChangedData s) (\<lambda>(st, s).
                    if st \<noteq> B_NO_ERROR then Ret (B_ERROR, None, s)
                    else let (ok, s) = insert_entry E n insertIndex newNode s
                         in if ok then
                              bind_run (if wantAdded then GetNodePath E newNode 0 s else Ret (B_ERROR, [], s)) (\<lambda>(st, np, s).
                              bind_run (NotifySubscribersThatNodeIndexChanged E n INDEX_OP_ENTRYINSERTED (of_nat insertIndex) name s) (\<lambda>s.
                                Ret (B_NO_ERROR, if st = B_NO_ERROR then Some (np, newNode) else None, s)))
                            else bind_run (RemoveChild 1 E n name (Some notifyWithOnSetParent) False None s) (\<lambda>(_, _, s).
                              Ret (B_ERROR, None, s)))))"

end
