(* ===== verification/Node_Calm.thy ===== *)
theory Node_Calm
  imports Node_Ops
begin

text \<open>
  Notifications leave the tree alone: they change the marks of subscribers and the messages being
  prepared, and nothing else; and they return, where memory is plentiful, the node has a place in the
  tree and no session sends messages of less than two items.
\<close>

section \<open>What notifications keep\<close>

definition tree_part :: "'m dnode \<Rightarrow> 'm dnode" where
  "tree_part d = d\<lparr>d_subscribers := []\<rparr>"

definition static :: "('m, 'r, 'f) session \<Rightarrow> ('m, 'r, 'f) session" where
  "static x = x\<lparr>s_nextSubscriptionMessage := None, s_nextIndexSubscriptionMessage := None, s_outgoing := None\<rparr>"

definition same_tree :: "('m, 'r, 'f) server \<Rightarrow> ('m, 'r, 'f) server \<Rightarrow> bool" where
  "same_tree s s' \<longleftrightarrow> (\<forall>n. tree_part (nd s' n) = tree_part (nd s n)) \<and> v_fresh s' = v_fresh s \<and> v_root s' = v_root s \<and>
     map (\<lambda>(i, x). (i, static x)) (v_sessions s') = map (\<lambda>(i, x). (i, static x)) (v_sessions s)"

lemma same_tree_refl [simp]: "same_tree s s"
  by (simp add: same_tree_def)

lemma same_tree_trans [trans]: "same_tree s s' \<Longrightarrow> same_tree s' s'' \<Longrightarrow> same_tree s s''"
  by (simp add: same_tree_def)

lemma core_eq_iff:
  "tree_part d = tree_part e \<longleftrightarrow> d_parent d = d_parent e \<and> d_data d = d_data e \<and> d_children d = d_children e \<and> d_index d = d_index e \<and>
    d_counter d = d_counter e \<and> d_name d = d_name e \<and> d_depth d = d_depth e"
  by (cases d; cases e) (auto simp: tree_part_def)

lemma same_treeD:
  assumes "same_tree s s'"
  shows "d_parent (nd s' n) = d_parent (nd s n)" "d_data (nd s' n) = d_data (nd s n)"
    "d_children (nd s' n) = d_children (nd s n)" "d_index (nd s' n) = d_index (nd s n)"
    "d_counter (nd s' n) = d_counter (nd s n)" "d_name (nd s' n) = d_name (nd s n)" "d_depth (nd s' n) = d_depth (nd s n)"
  using assms by (auto simp: same_tree_def core_eq_iff)

lemma request_same [simp]: "same_tree s (snd (request E s))" "fst (request E s) = x_alloc E (v_allocs s)"
  by (simp_all add: request_def same_tree_def nd_def)

lemma same_tree_simps [simp]:
  "same_tree s (s'\<lparr>v_subsDirty := b\<rparr>) = same_tree s s'"
  "same_tree s (s'\<lparr>v_allocs := k\<rparr>) = same_tree s s'"
  by (simp_all add: same_tree_def nd_def)

lemma same_tree_marks [simp]: "same_tree s (set_nd n (\<lambda>d. d\<lparr>d_subscribers := f d\<rparr>) s') = same_tree s s'"
  by (auto simp: same_tree_def nd_def set_nd_def tree_part_def)

lemma same_tree_session:
  assumes "\<And>x. static (f x) = static x"
  shows "same_tree s (set_session sid f s') = same_tree s s'"
proof -
  have "map (\<lambda>(i, x). (i, static x)) (v_sessions (set_session sid f s')) = map (\<lambda>(i, x). (i, static x)) (v_sessions s')"
    by (auto simp: set_session_def assms)
  moreover have "v_nodes (set_session sid f s') = v_nodes s'" "v_fresh (set_session sid f s') = v_fresh s'"
    "v_root (set_session sid f s') = v_root s'"
    by (simp_all add: set_session_def)
  ultimately show ?thesis by (simp add: same_tree_def nd_def)
qed

lemma same_tree_messages [simp]:
  "same_tree s (set_session sid (\<lambda>x. x\<lparr>s_nextSubscriptionMessage := f x\<rparr>) s') = same_tree s s'"
  "same_tree s (set_session sid (\<lambda>x. x\<lparr>s_nextIndexSubscriptionMessage := g x\<rparr>) s') = same_tree s s'"
  "same_tree s (set_session sid (\<lambda>x. x\<lparr>s_outgoing := h x\<rparr>) s') = same_tree s s'"
  by (simp_all add: same_tree_session static_def)

lemma put_mark_same: "same_tree s (put_mark E n sid v s)"
  by (simp add: put_mark_def request_def Let_def)

lemma IncrementSubscriptionRefCount_same: "same_tree s (IncrementSubscriptionRefCount E n sid delta s)"
  by (simp add: IncrementSubscriptionRefCount_def put_mark_same Let_def split: option.split)

lemma MessageReceivedFromSession_same: "same_tree s (MessageReceivedFromSession E sid m s)"
  by (simp add: MessageReceivedFromSession_def request_def Let_def split: option.split)

lemma push_session_same: "same_tree s (push_session E sid s)"
  unfolding push_session_def Let_def
  by (auto split: option.split intro!: same_tree_trans [OF _ MessageReceivedFromSession_same])

lemma PushSubscriptionMessages_same: "same_tree s (PushSubscriptionMessages E s)"
proof -
  have "same_tree s0 (fold (\<lambda>(sid, _). push_session E sid) xs s)" if "same_tree s0 s"
    for s0 s :: "('a, 'b, 'c) server" and xs :: "(string \<times> ('a, 'b, 'c) session) list"
    using that
  proof (induction xs arbitrary: s)
    case (Cons x xs)
    have "same_tree s0 (push_session E (fst x) s)" by (rule same_tree_trans [OF Cons.prems push_session_same])
    then show ?case using Cons.IH by (cases x) simp
  qed simp
  then show ?thesis by (simp add: PushSubscriptionMessages_def)
qed

lemma update_pending_same: "same_tree s (update_pending E sid f s)"
  by (simp add: update_pending_def request_def Let_def)

section \<open>Places in the tree\<close>

text \<open>\<open>ms\<close> are the ancestors of the node, its parent first.\<close>

fun line :: "(nref \<Rightarrow> 'm dnode) \<Rightarrow> nref \<Rightarrow> nref list \<Rightarrow> bool" where
  "line ns n [] = (d_parent (ns n) = None)"
| "line ns n (m # ms) = (d_parent (ns n) = Some m \<and> line ns m ms)"

definition placed :: "('m, 'r, 'f) server \<Rightarrow> nref \<Rightarrow> nref list \<Rightarrow> bool" where
  "placed s n ms \<longleftrightarrow> line (v_nodes s) n ms \<and> d_depth (nd s n) = of_nat (length ms) \<and>
     length ms < 2 ^ 31 \<and> length ms \<le> v_fresh s"

lemma line_cong: "(\<And>m. m \<in> set (n # ms) \<Longrightarrow> d_parent (ns' m) = d_parent (ns m)) \<Longrightarrow> line ns' n ms = line ns n ms"
  by (induction ms arbitrary: n) auto

lemma line_unique: "line ns n ms \<Longrightarrow> line ns n ms' \<Longrightarrow> ms = ms'"
proof (induction ms arbitrary: n ms')
  case Nil
  then show ?case by (cases ms') auto
next
  case (Cons m ms)
  then show ?case by (cases ms') auto
qed

lemma placed_same: "same_tree s s' \<Longrightarrow> placed s' n ms = placed s n ms"
  using line_cong [of n ms "v_nodes s'" "v_nodes s"]
  by (auto simp: placed_def same_treeD [of s s'] nd_def [symmetric] same_tree_def)

lemma up_chain_line: "line ns n ms \<Longrightarrow> length ms \<le> fuel \<Longrightarrow> up_chain ns fuel n = Ret (butlast (n # ms))"
proof (induction ms arbitrary: n fuel)
  case (Cons m ms)
  then obtain f where "fuel = Suc f" by (cases fuel) auto
  then show ?case using Cons by (cases ms) simp_all
qed simp

declare up_chain.simps [simp del]

lemma ancestry_placed: "placed s n ms \<Longrightarrow> ancestry s n = Ret (butlast (n # ms))"
  unfolding ancestry_def placed_def by (blast intro: up_chain_line)

lemma climb_line: "line ns n ms \<Longrightarrow> length sms \<le> Suc (length ms) \<Longrightarrow> \<exists>b. climb rx ns sms (Some n) = Ret b"
proof (induction sms arbitrary: n ms)
  case (Cons sm sms)
  show ?case
  proof (cases ms)
    case Nil
    then show ?thesis using Cons.prems by (cases sms) auto
  next
    case (Cons m ms')
    then show ?thesis using Cons.IH [of m ms'] Cons.prems by auto
  qed
qed auto

lemma sint_depth: "length ms < 2 ^ 31 \<Longrightarrow> sint (of_nat (length ms) :: u32) = int (length ms)"
  by (subst signed_of_nat) (simp add: signed_take_bit_int_eq_self)

section \<open>Calm notifications\<close>

text \<open>Memory is granted, and every session collects at least two items before it sends a message.\<close>

definition steady :: "('m, 'r, 'f) server_env \<Rightarrow> ('m, 'r, 'f) server \<Rightarrow> bool" where
  "steady E s \<longleftrightarrow> (\<forall>k. x_alloc E k) \<and> (\<forall>(i, x)\<in>set (v_sessions s). s_maxSubscriptionMessageItems x \<ge> 2)"

lemma steady_static:
  "steady E s \<longleftrightarrow> (\<forall>k. x_alloc E k) \<and>
    (\<forall>p\<in>set (map (\<lambda>(i, x). (i, static x)) (v_sessions s)). s_maxSubscriptionMessageItems (snd p) \<ge> 2)"
  by (auto simp: steady_def static_def)

lemma steady_same:
  assumes "same_tree s s'" "steady E s"
  shows "steady E s'"
proof -
  have "map (\<lambda>(i, x). (i, static x)) (v_sessions s') = map (\<lambda>(i, x). (i, static x)) (v_sessions s)"
    using assms(1) by (simp add: same_tree_def)
  then show ?thesis using assms(2) unfolding steady_static by (simp only:)
qed

lemma PathMatches_placed: "placed s n ms \<Longrightarrow> \<exists>b. PathMatches E s n optData e 0 = Ret b"
proof -
  assume P: "placed s n ms"
  show ?thesis
  proof (cases "int (length (e_parser e)) = sint (d_depth (nd s n))")
    case True
    then have "length (e_parser e) = length ms" using P sint_depth [of ms] by (simp add: placed_def)
    then show ?thesis using climb_line [of "v_nodes s" n ms "rev (e_parser e)" "x_regexec E"] P
      by (auto simp: PathMatches_def placed_def)
  qed (auto simp: PathMatches_def)
qed

lemma MatchesNode_placed: "placed s n ms \<Longrightarrow> \<exists>b. MatchesNode E s pm n optData 0 = Ret b"
proof -
  assume P: "placed s n ms"
  have "\<exists>b. some_entry_matches E s n optData 0 es = Ret b" for es
  proof (induction es)
    case (Cons pe es)
    then show ?case using PathMatches_placed [OF P, of E optData "snd pe"] by (cases pe) auto
  qed auto
  then show ?thesis by (simp add: MatchesNode_def)
qed

lemma GetMatchCount_placed: "placed s n ms \<Longrightarrow> \<exists>c. GetMatchCount E s pm n optData 0 = Ret c"
proof -
  assume P: "placed s n ms"
  have "\<exists>b. count_entries E s n optData 0 es c = Ret b" for es c
  proof (induction es arbitrary: c)
    case (Cons pe es)
    then show ?case using PathMatches_placed [OF P, of E optData "snd pe"] by (cases pe) auto
  qed simp
  then show ?thesis by (simp add: GetMatchCount_def)
qed

text \<open>\<open>returns s r\<close>: the code returns, and has not touched the tree.\<close>

definition returns :: "('m, 'r, 'f) server \<Rightarrow> ('m, 'r, 'f) server run \<Rightarrow> bool" where
  "returns s r \<longleftrightarrow> (\<exists>s'. r = Ret s' \<and> same_tree s s')"

lemma returns_Ret [simp]: "returns s (Ret s') = same_tree s s'"
  by (simp add: returns_def)

lemma returns_bind:
  assumes "returns s r" "\<And>s'. same_tree s s' \<Longrightarrow> returns s (f s')"
  shows "returns s (bind_run r f)"
  using assms by (auto simp: returns_def)

lemma returns_from: "same_tree s s' \<Longrightarrow> returns s' r \<Longrightarrow> returns s r"
  by (auto simp: returns_def intro: same_tree_trans)

lemma tell_created_returns:
  "placed s n ms \<Longrightarrow> returns s (tell_created E n xs s)"
proof (induction xs arbitrary: s)
  case (Cons x xs)
  obtain sid sess where x: "x = (sid, sess)" by (cases x)
  obtain c where c: "GetMatchCount E s (s_subscriptions sess) n None 0 = Ret c"
    using GetMatchCount_placed [OF Cons.prems] by blast
  obtain s1 where s1: "IncrementSubscriptionRefCount E n sid (uint c) s = s1" by simp
  have same: "same_tree s s1" using IncrementSubscriptionRefCount_same s1 by metis
  have "returns s1 (tell_created E n xs s1)" by (rule Cons.IH) (simp add: placed_same [OF same] Cons.prems)
  then show ?case using returns_from [OF same] by (simp add: x NodeCreated_def c s1)
qed simp

lemma NotifySubscribersOfNewNode_returns:
  "placed s n ms \<Longrightarrow> returns s (NotifySubscribersOfNewNode E n s)"
  by (simp add: NotifySubscribersOfNewNode_def tell_created_returns)

end
