(* ===== verification/Node_Path.thy ===== *)
theory Node_Path
  imports Node_Calm Path_Props
begin

text \<open>
  The path of a node, and that the notifications that need it return.
\<close>

section \<open>The text of a path\<close>

definition path_text :: "u32 \<Rightarrow> string list \<Rightarrow> string" where
  "path_text startDepth cs =
     (if startDepth = 0 then (if cs = [] then [slash] else concat (map (\<lambda>c. slash # c) cs))
      else join (drop (unat startDepth - 1) cs))"

definition names_down :: "('m, 'r, 'f) server \<Rightarrow> nref \<Rightarrow> nref list \<Rightarrow> string list" where
  "names_down s n ms = rev (map (\<lambda>m. d_name (nd s m)) (butlast (n # ms)))"

lemma join_snoc: "join (xs @ [y]) = (if xs = [] then y else join xs @ slash # y)"
  by (induction xs) (auto simp: join_Cons)

lemma unat_le_of_nat: "n < 2 ^ 32 \<Longrightarrow> (w :: u32) \<le> of_nat n \<longleftrightarrow> unat w \<le> n"
  by (simp add: word_le_nat_alt unat_of_nat_u32)

lemma unat_less_of_nat: "n < 2 ^ 32 \<Longrightarrow> (w :: u32) < of_nat n \<longleftrightarrow> unat w < n"
  by (simp add: word_less_nat_alt unat_of_nat_u32)

lemma write_path_full:
  "write_path d 0 names w = concat (map (\<lambda>c. slash # c) (rev names)) @ w"
  by (induction names arbitrary: d w) simp_all

lemma length_full: "length (write_path d 0 names w) = length w + path_length d 0 names"
  by (induction names arbitrary: d w) simp_all

lemma write_path_part:
  assumes "sd \<noteq> 0"
  shows "length names < 2 ^ 32 \<Longrightarrow>
    write_path (of_nat (length names)) sd names w = join (drop (unat sd - 1) (rev names)) @ w \<and>
    length (join (drop (unat sd - 1) (rev names))) = path_length (of_nat (length names)) sd names - 1 \<and>
    (path_length (of_nat (length names)) sd names = 0 \<longleftrightarrow> length names < unat sd)"
proof (induction names arbitrary: w)
  case Nil
  have "unat sd \<noteq> 0" using assms by (simp add: unat_eq_0)
  then show ?case by simp
next
  case (Cons nm rest)
  have u: "unat sd \<noteq> 0" using assms by (simp add: unat_eq_0)
  have len: "length rest < 2 ^ 32" using Cons.prems by simp
  obtain D :: u32 where D: "of_nat (length (nm # rest)) = D" by blast
  have le: "sd \<le> D \<longleftrightarrow> unat sd \<le> Suc (length rest)" "sd < D \<longleftrightarrow> unat sd < Suc (length rest)"
    using unat_le_of_nat [OF Cons.prems, of sd] unat_less_of_nat [OF Cons.prems, of sd] unfolding D by simp_all
  have d: "D - 1 = of_nat (length rest)" unfolding D [symmetric] by simp
  note IH = Cons.IH [OF len]
  consider "Suc (length rest) < unat sd" | "Suc (length rest) = unat sd" | "unat sd \<le> length rest" by linarith
  then show ?case
  proof cases
    case 1
    then show ?thesis unfolding D using le by simp
  next
    case 2
    then have dr: "drop (unat sd - 1) (rev (nm # rest)) = [nm]" by simp
    have w: "write_path (of_nat (length rest)) sd rest (nm @ w) = nm @ w" "path_length (of_nat (length rest)) sd rest = 0"
      using IH [of "nm @ w"] 2 by simp_all
    show ?thesis unfolding dr D using 2 le d w assms by simp
  next
    case 3
    then have dr: "drop (unat sd - 1) (rev (nm # rest)) = drop (unat sd - 1) (rev rest) @ [nm]" "drop (unat sd - 1) (rev rest) \<noteq> []"
      using u by simp_all
    have w: "write_path (of_nat (length rest)) sd rest (slash # nm @ w) = join (drop (unat sd - 1) (rev rest)) @ slash # nm @ w"
      "length (join (drop (unat sd - 1) (rev rest))) = path_length (of_nat (length rest)) sd rest - 1"
      "path_length (of_nat (length rest)) sd rest \<noteq> 0"
      using IH [of "slash # nm @ w"] 3 by simp_all
    show ?thesis unfolding dr(1) D using 3 le d w dr(2) by (simp add: join_snoc)
  qed
qed

lemma GetNodePath_placed:
  assumes "placed s n ms"
  shows "\<exists>st path k. GetNodePath E n startDepth s = Ret (st, path, s\<lparr>v_allocs := k\<rparr>) \<and>
    (st = B_NO_ERROR \<longrightarrow> path = path_text startDepth (names_down s n ms)) \<and> ((\<forall>k. x_alloc E k) \<longrightarrow> st = B_NO_ERROR)"
proof (cases ms)
  case Nil
  then show ?thesis using assms unat_eq_0 [of startDepth]
    by (auto simp: GetNodePath_def placed_def nd_def path_text_def names_down_def intro!: exI [of _ "v_allocs s"])
next
  case (Cons p ps)
  obtain ch where ch: "ch = butlast (n # ms)" by simp
  obtain names where names: "names = map (\<lambda>m. d_name (nd s m)) ch" by simp
  have par: "d_parent (nd s n) = Some p" using assms Cons by (auto simp: placed_def nd_def)
  have len: "length names = length ms" "length names < 2 ^ 32" "d_depth (nd s n) = of_nat (length names)"
    using assms by (simp_all add: names ch placed_def)
  obtain d where d: "d = d_depth (nd s n)" by simp
  obtain pl where pl: "pl = (if path_length d startDepth names > 0 \<and> startDepth > 0 then path_length d startDepth names - 1
      else path_length d startDepth names)" by simp
  have ms: "names \<noteq> []" using len(1) Cons by auto
  have down: "names_down s n ms = rev names" unfolding names_down_def names ch by (rule refl)
  have txt1: "write_path d startDepth names [] = path_text startDepth (names_down s n ms)"
    using write_path_full [of d names "[]"] write_path_part [of startDepth names "[]"] len ms d
    by (cases "startDepth = 0") (auto simp: path_text_def down)
  have fits: "length (write_path d startDepth names []) = pl"
  proof (cases "startDepth = 0")
    case True
    then show ?thesis using length_full [of d names "[]"] pl by simp
  next
    case False
    then show ?thesis
      using write_path_part [of startDepth names "[]"] len d pl by (auto simp: word_neq_0_conv)
  qed
  have anc: "ancestry s n = Ret ch" unfolding ch by (rule ancestry_placed [OF assms])
  have eq: "GetNodePath E n startDepth s =
    (let s1 = s\<lparr>v_allocs := Suc (v_allocs s)\<rparr>; s2 = s\<lparr>v_allocs := Suc (Suc (v_allocs s))\<rparr>
     in if \<not> x_alloc E (v_allocs s) then Ret (B_ERROR, [], s1)
        else if pl \<ge> 256 then
          if \<not> x_alloc E (Suc (v_allocs s)) then Ret (B_ERROR, [], s2)
          else Ret (B_NO_ERROR, path_text startDepth (names_down s n ms), s2)
        else Ret (B_NO_ERROR, path_text startDepth (names_down s n ms), s1))"
    unfolding GetNodePath_def Let_def
    by (simp only: par anc names [symmetric] d [symmetric] pl [symmetric] request_def txt1 fits [unfolded txt1] nd_simps
        bind_run.simps option.distinct if_False prod.case guard_simps simp_thms split: if_split)
      (simp add: pl [symmetric] request_def d [symmetric] names [symmetric] txt1 fits [unfolded txt1])
  show ?thesis unfolding eq by (auto simp: Let_def)
qed

section \<open>The notifications of a session\<close>

declare change_rounds.simps [simp del]

lemma session_of_set: "session_of (set_session sid f s) sid' =
    map_option (if sid' = sid then f else id) (session_of s sid')"
proof -
  have "map_of (map (\<lambda>(i, x). (i, if i = sid then f x else x)) xs) sid' = map_option (if sid' = sid then f else id) (map_of xs sid')"
    for xs by (induction xs) auto
  then show ?thesis by (simp add: session_of_def set_session_def)
qed

lemma session_of_simps [simp]:
  "session_of (s\<lparr>v_subsDirty := b\<rparr>) sid = session_of s sid" "session_of (s\<lparr>v_allocs := k\<rparr>) sid = session_of s sid"
  by (simp_all add: session_of_def)

lemma session_of_same: "same_tree s s' \<Longrightarrow> map_option static (session_of s' sid) = map_option static (session_of s sid)"
proof -
  have "map_option static (map_of xs sid) = map_of (map (\<lambda>(i, x). (i, static x)) xs) sid" for xs :: "(string \<times> ('a, 'b, 'c) session) list"
    by (induction xs) auto
  then show "same_tree s s' \<Longrightarrow> ?thesis" by (simp add: session_of_def same_tree_def)
qed

lemma steady_max: "steady E s \<Longrightarrow> session_of s sid = Some x \<Longrightarrow> s_maxSubscriptionMessageItems x \<ge> 2"
  by (auto simp: steady_def session_of_def dest: map_of_SomeD)

text \<open>The message that \<open>NodeChangedAux\<close> works on is there when it looks at its size.\<close>

lemma request_fields [simp]:
  "v_sessions (snd (request E s)) = v_sessions s" "v_nodes (snd (request E s)) = v_nodes s"
  "session_of (snd (request E s)) sid = session_of s sid" "nd (snd (request E s)) n = nd s n"
  "v_fresh (snd (request E s)) = v_fresh s"
  by (simp_all add: request_def)

lemma pending_update: "pending_items (update_pending E sid f s) sid \<noteq> None \<longleftrightarrow> pending_items s sid \<noteq> None"
  by (cases "session_of s sid") (auto simp: pending_items_def update_pending_def request_def session_of_set Let_def)

lemma pending_set [simp]:
  "pending_items (set_session i (\<lambda>x. x\<lparr>s_nextSubscriptionMessage := f x\<rparr>) s) sid =
    (if i = sid then Option.bind (session_of s sid) f else pending_items s sid)"
  "pending_items (set_session i (\<lambda>x. x\<lparr>s_nextIndexSubscriptionMessage := g x\<rparr>) s) sid = pending_items s sid"
  "pending_items (set_session i (\<lambda>x. x\<lparr>s_outgoing := h x\<rparr>) s) sid = pending_items s sid"
  by (cases "session_of s sid"; simp add: pending_items_def session_of_set)+

lemma pending_fields [simp]:
  "pending_items (snd (request E s)) sid = pending_items s sid" "pending_items (s\<lparr>v_subsDirty := b\<rparr>) sid = pending_items s sid"
  "pending_items (s\<lparr>v_allocs := k\<rparr>) sid = pending_items s sid"
  by (simp_all add: pending_items_def session_of_def)

lemma pending_received [simp]: "pending_items (MessageReceivedFromSession E i m s) sid = pending_items s sid"
  by (simp add: MessageReceivedFromSession_def request_def Let_def split: option.split)

lemma pending_push_session: "pending_items (push_session E i s) sid = (if i = sid then None else pending_items s sid)"
  by (cases "session_of s i")
    (auto simp: push_session_def Let_def pending_items_def [of s] split: option.split)

lemma pending_push:
  assumes "v_subsDirty s" "session_of s sid \<noteq> None"
  shows "pending_items (PushSubscriptionMessages E s) sid = None"
proof -
  have "pending_items (fold (\<lambda>(i, _). push_session E i) xs s) sid = (if sid \<in> fst ` set xs then None else pending_items s sid)"
    for s :: "('a, 'b, 'c) server" and xs :: "(string \<times> ('a, 'b, 'c) session) list"
    by (induction xs arbitrary: s) (auto simp: pending_push_session)
  moreover have "sid \<in> fst ` set (v_sessions s)"
    using assms(2) unfolding session_of_def by (metis domIff dom_map_of_conv_image_fst)
  ultimately show ?thesis using assms(1) by (simp add: PushSubscriptionMessages_def)
qed

lemma session_exists_same: "same_tree s s' \<Longrightarrow> session_of s' sid \<noteq> None \<longleftrightarrow> session_of s sid \<noteq> None"
  using session_of_same [of s s' sid] by (metis map_option_is_None)

text \<open>The round with an empty message.\<close>

lemma change_first_item:
  assumes "steady E s" "placed s n ms" "session_of s sid \<noteq> None" "pending_items s sid = None"
  shows "\<exists>s'. change_rounds (Suc f) E sid n True s = Ret s' \<and> same_tree s s' \<and> pending_items s' sid \<noteq> None"
proof -
  obtain s1 where s1: "s1 = set_session sid (\<lambda>x. x\<lparr>s_nextSubscriptionMessage :=
      Some (case s_nextSubscriptionMessage x of Some m \<Rightarrow> m | None \<Rightarrow> \<lparr>u_items = [], u_removed = []\<rparr>)\<rparr>)
      (snd (request E s))\<lparr>v_subsDirty := True\<rparr>" by simp
  have same1: "same_tree s s1" by (simp add: s1)
  have p1: "pending_items s1 sid = Some \<lparr>u_items = [], u_removed = []\<rparr>"
    using assms(3,4) by (auto simp: s1 pending_items_def [of s])
  obtain np s2 where np: "GetNodePath E n 0 s1 = Ret (B_NO_ERROR, np, s2)" "same_tree s1 s2" "v_sessions s2 = v_sessions s1"
    "v_subsDirty s2 = v_subsDirty s1"
    using GetNodePath_placed [of s1 n ms E 0] assms(1,2) placed_same [OF same1] by (auto simp: steady_def)
  have p2: "pending_items s2 sid = Some \<lparr>u_items = [], u_removed = []\<rparr>"
    using p1 np(3) by (simp add: pending_items_def session_of_def)
  obtain s3 where s3: "s3 = update_pending E sid (AddRemoved np) s2" by simp
  have p3: "pending_items s3 sid = Some \<lparr>u_items = [], u_removed = [np]\<rparr>"
    using p2 assms(1) by (cases "session_of s2 sid")
      (auto simp: s3 update_pending_def request_def pending_items_def session_of_set steady_def AddRemoved_def)
  have same3: "same_tree s s3"
    using same1 np(2) update_pending_same [of s2 E sid] s3 by (metis same_tree_trans)
  obtain x where x: "session_of s3 sid = Some x" "s_maxSubscriptionMessageItems x \<ge> 2"
    using session_exists_same [OF same3] assms(3) steady_max [OF steady_same [OF same3 assms(1)]] by blast
  have "\<not> CountNames \<lparr>u_items = [] :: (string \<times> 'a list) list, u_removed = [np]\<rparr> \<ge> s_maxSubscriptionMessageItems x"
    using x(2) by (simp add: CountNames_def word_le_nat_alt)
  moreover have "fst (request E s)" using assms(1) by (simp add: steady_def)
  ultimately have "change_rounds (Suc f) E sid n True s = Ret s3"
    using assms(4) np(1) p2 p3 x(1)
    by (simp add: change_rounds.simps case_prod_beta Let_def s1 [symmetric] s3 [symmetric])
  then show ?thesis using same3 p3 by auto
qed

lemma change_rounds_returns:
  assumes "steady E s" "placed s n ms" "session_of s sid \<noteq> None"
  shows "returns s (change_rounds (Suc (Suc f)) E sid n removed s)"
proof -
  obtain s0 where s0: "s0 = (if pending_items s sid = None then snd (request E s) else s)" by simp
  have s0s: "same_tree s s0" "session_of s0 sid = session_of s sid" by (simp_all add: s0)
  obtain s1 where s1: "s1 = set_session sid (\<lambda>x. x\<lparr>s_nextSubscriptionMessage :=
      Some (case s_nextSubscriptionMessage x of Some m \<Rightarrow> m | None \<Rightarrow> \<lparr>u_items = [], u_removed = []\<rparr>)\<rparr>)
      s0\<lparr>v_subsDirty := True\<rparr>" by simp
  have same1: "same_tree s s1" using s0s(1) by (simp add: s1)
  have p1: "pending_items s1 sid \<noteq> None" "v_subsDirty s1"
    using assms(3) s0s(2) by (auto simp: s1)
  have calm: "steady E s'" "placed s' n ms" "session_of s' sid \<noteq> None" if "same_tree s s'" for s'
    using steady_same [OF that assms(1)] placed_same [OF that] assms(2,3) session_exists_same [OF that] by auto
  obtain np s2 where np: "GetNodePath E n 0 s1 = Ret (B_NO_ERROR, np, s2)" "same_tree s1 s2" "v_sessions s2 = v_sessions s1"
    "v_subsDirty s2 = v_subsDirty s1"
    using GetNodePath_placed [of s1 n ms E 0] assms(1,2) placed_same [OF same1] by (auto simp: steady_def)
  have p2: "pending_items s2 sid \<noteq> None"
    using p1 np(3) by (simp add: pending_items_def session_of_def)
  have same2: "same_tree s s2" by (rule same_tree_trans [OF same1 np(2)])
  obtain r where r: "r = (if removed then
        if (case pending_items s2 sid of None \<Rightarrow> False | Some m \<Rightarrow> np \<in> fst ` set (u_items m))
        then change_rounds (Suc f) E sid n removed (PushSubscriptionMessages E s2)
        else Ret (update_pending E sid (AddRemoved np) s2)
      else Ret (case d_data (nd s2 n) of None \<Rightarrow> s2 | Some d \<Rightarrow> update_pending E sid (AddItem np d) s2))" by simp
  have "\<exists>s3. r = Ret s3 \<and> same_tree s s3 \<and> pending_items s3 sid \<noteq> None"
  proof (cases "removed \<and> (case pending_items s2 sid of None \<Rightarrow> False | Some m \<Rightarrow> np \<in> fst ` set (u_items m))")
    case True
    obtain s4 where s4: "s4 = PushSubscriptionMessages E s2" by simp
    have same4: "same_tree s s4" using same_tree_trans [OF same2 PushSubscriptionMessages_same] s4 by simp
    have "pending_items s4 sid = None" using pending_push [of s2 sid E] calm(3) [OF same2] s4 p1(2) np(4) by simp
    from change_first_item [OF calm(1,2,3) [OF same4] this, of f] True same4 show ?thesis
      by (auto simp: r s4 intro: same_tree_trans)
  next
    case False
    have "same_tree s (update_pending E sid g s2) \<and> pending_items (update_pending E sid g s2) sid \<noteq> None" for g
      using p2 same_tree_trans [OF same2 update_pending_same] pending_update [of E sid g s2] by blast
    then show ?thesis using False p2 same2 by (auto simp: r split: option.split)
  qed
  then obtain s3 where s3: "r = Ret s3" "same_tree s s3" "pending_items s3 sid \<noteq> None" by blast
  have ok: "fst (request E s)" using assms(1) by (simp add: steady_def)
  have eq: "change_rounds (Suc (Suc f)) E sid n removed s =
    (case (pending_items s3 sid, session_of s3 sid) of
       (Some m, Some x) \<Rightarrow> Ret (if CountNames m \<ge> s_maxSubscriptionMessageItems x then PushSubscriptionMessages E s3 else s3)
     | _ \<Rightarrow> Fault)"
  proof (cases "pending_items s sid = None")
    case True
    then have rq: "request E s = (True, s0)" using ok by (simp add: s0 prod_eq_iff)
    show ?thesis using True s3(1) np(1) unfolding r
      by (simp add: change_rounds.simps(2) [of "Suc f"] rq Let_def s1 [symmetric])
  next
    case False
    then have "s0 = s" by (auto simp: s0)
    then show ?thesis using False s3(1) np(1) unfolding r s1
      by (auto simp: change_rounds.simps(2) [of "Suc f"] Let_def)
  qed
  show ?thesis
    unfolding eq using s3(2,3) calm(3) [OF s3(2)] same_tree_trans [OF s3(2) PushSubscriptionMessages_same]
    by auto
qed

text \<open>The notifications as a whole.\<close>

lemma NodeChangedAux_returns:
  "steady E s \<Longrightarrow> placed s n ms \<Longrightarrow> session_of s sid \<noteq> None \<Longrightarrow> returns s (NodeChangedAux E sid n removed s)"
  unfolding NodeChangedAux_def numeral_2_eq_2 by (rule change_rounds_returns)

lemma filtered_change_returns: "placed s n ms \<Longrightarrow> \<exists>r. filtered_change E s subs n oldData removed = Ret r"
  using MatchesNode_placed [of s n ms E subs oldData] MatchesNode_placed [of s n ms E subs "d_data (nd s n)"]
  by (auto simp: filtered_change_def)

lemma tell_changed_returns:
  "steady E s \<Longrightarrow> placed s n ms \<Longrightarrow> returns s (tell_changed E this n oldData removed subs s)"
proof (induction subs arbitrary: s)
  case (Cons sub subs)
  obtain sid c where sub: "sub = (sid, c)" by (cases sub)
  obtain r where r: "r = (case session_of s sid of
          None \<Rightarrow> Ret s
        | Some sess \<Rightarrow>
            if sid \<noteq> this \<or> (case session_of s this of None \<Rightarrow> False | Some x \<Rightarrow> s_reflectToSelf x)
            then NodeChanged E sid sess n oldData removed s else Ret s)" by simp
  have "returns s r"
  proof (cases "session_of s sid")
    case (Some sess)
    have "returns s (NodeChanged E sid sess n oldData removed s)"
      using filtered_change_returns [OF Cons.prems(2), of E "s_subscriptions sess" oldData removed]
        NodeChangedAux_returns [OF Cons.prems] Some
      by (auto simp: NodeChanged_def split: option.split)
    then show ?thesis by (auto simp: r Some)
  qed (simp add: r)
  moreover have "returns s' (tell_changed E this n oldData removed subs s')" if "same_tree s s'" for s'
    using Cons.IH [OF steady_same [OF that Cons.prems(1)]] Cons.prems(2) placed_same [OF that] by simp
  ultimately show ?case by (auto simp: sub r [symmetric] intro!: returns_bind intro: returns_from)
qed simp

lemma NotifySubscribersThatNodeChanged_returns:
  "steady E s \<Longrightarrow> placed s n ms \<Longrightarrow> returns s (NotifySubscribersThatNodeChanged E this n oldData removed s)"
  by (simp add: NotifySubscribersThatNodeChanged_def tell_changed_returns)

section \<open>Index notifications\<close>

declare decimal.simps [simp del]

lemma decimal_length: "n < 10 ^ k \<Longrightarrow> 0 < k \<Longrightarrow> length (decimal n) \<le> k"
proof (induction k arbitrary: n)
  case (Suc k)
  show ?case
  proof (cases "n < 10")
    case True
    then show ?thesis by (simp add: decimal.simps [of n])
  next
    case False
    then have "n div 10 < 10 ^ k" "0 < k" using Suc.prems by (cases k; simp)+
    then show ?thesis using False Suc.IH [of "n div 10"] by (simp add: decimal.simps [of n])
  qed
qed simp

lemma decimal_u32: "length (decimal (unat (w :: u32))) \<le> 10"
  using decimal_length [of "unat w" 10] unat_less_u32 [of w] by simp

lemma NodeIndexChanged_returns:
  assumes "steady E s" "placed s n ms" "length key \<le> 80"
  shows "returns s (NodeIndexChanged E sid sess n op index key s)"
proof (cases "s_subscriptionsEnabled sess")
  case True
  obtain msg where msg: "msg = (case s_nextIndexSubscriptionMessage sess of Some m \<Rightarrow> m | None \<Rightarrow> [])" by simp
  obtain s0 where s0: "(if s_nextIndexSubscriptionMessage sess = None then request E s else (True, s)) = (True, s0)" "same_tree s s0"
  proof -
    have "request E s = (True, snd (request E s))" using assms(1) by (simp add: prod_eq_iff steady_def)
    then show thesis using that [of "if s_nextIndexSubscriptionMessage sess = None then snd (request E s) else s"] by simp
  qed
  obtain s1 where s1: "s1 = set_session sid (\<lambda>x. x\<lparr>s_nextIndexSubscriptionMessage := Some msg\<rparr>) s0" by simp
  have same1: "same_tree s s1" using s0(2) by (simp add: s1)
  obtain np k where np: "GetNodePath E n 0 s1 = Ret (B_NO_ERROR, np, s1\<lparr>v_allocs := k\<rparr>)"
    using GetNodePath_placed [of s1 n ms E 0] assms(1,2) placed_same [OF same1] by (auto simp: steady_def)
  have len: "length (op # decimal (unat index) @ CHR '':'' # key) < 100"
    using decimal_u32 [of index] assms(3) by simp
  show ?thesis
    using True len
    by (simp add: NodeIndexChanged_def s0(1) Let_def msg [symmetric] s1 [symmetric] np request_def same1)
qed (simp add: NodeIndexChanged_def)

lemma tell_index_returns:
  "steady E s \<Longrightarrow> placed s n ms \<Longrightarrow> length key \<le> 80 \<Longrightarrow> returns s (tell_index E n op index key subs s)"
proof (induction subs arbitrary: s)
  case (Cons sub subs)
  obtain sid c where sub: "sub = (sid, c)" by (cases sub)
  obtain r where r: "r = (case session_of s sid of None \<Rightarrow> Ret s | Some sess \<Rightarrow> NodeIndexChanged E sid sess n op index key s)" by simp
  have "returns s r"
  proof (cases "session_of s sid")
    case (Some sess)
    have "returns s (NodeIndexChanged E sid sess n op index key s)"
      using Cons.prems by (rule NodeIndexChanged_returns)
    then show ?thesis by (auto simp: r Some)
  qed (simp add: r)
  moreover have "returns s' (tell_index E n op index key subs s')" if "same_tree s s'" for s'
    using Cons.IH [OF steady_same [OF that Cons.prems(1)]] Cons.prems(2,3) placed_same [OF that] by simp
  ultimately show ?case by (auto simp: sub r [symmetric] intro!: returns_bind intro: returns_from)
qed simp

lemma NotifySubscribersThatNodeIndexChanged_returns:
  "steady E s \<Longrightarrow> placed s n ms \<Longrightarrow> length key \<le> 80 \<Longrightarrow> returns s (NotifySubscribersThatNodeIndexChanged E n op index key s)"
  by (simp add: NotifySubscribersThatNodeIndexChanged_def tell_index_returns)

end
