(* ===== verification/Node_Tree.thy ===== *)
theory Node_Tree
  imports Node_Path
begin

text \<open>
  The tree that the nodes form, and what the operations do to it. A tree names the addresses of its nodes;
  \<open>shaped\<close> says that the fields of the nodes are those of the tree: parents, depths, keys that point into
  the names of their own children, different names, and ordered indices that list some of the children,
  each once, under names that begin with I.
\<close>

section \<open>Trees of nodes\<close>

datatype tree = Tree (troot: nref) (tkids: "tree list")

fun tnodes :: "tree \<Rightarrow> nref list" where
  "tnodes (Tree n ts) = n # concat (map tnodes ts)"

definition kids_of :: "'m dnode \<Rightarrow> (nref \<times> nref) list" where
  "kids_of d = (case d_children d of None \<Rightarrow> [] | Some kids \<Rightarrow> kids)"

definition index_of :: "'m dnode \<Rightarrow> nref list" where
  "index_of d = (case d_index d of None \<Rightarrow> [] | Some ix \<Rightarrow> ix)"

definition index_ok :: "(nref \<Rightarrow> 'm dnode) \<Rightarrow> nref list \<Rightarrow> nref list \<Rightarrow> bool" where
  "index_ok ns index roots \<longleftrightarrow> distinct index \<and> set index \<subseteq> set roots \<and>
     (\<forall>i\<in>set index. starts_with_I (d_name (ns i)) \<and> length (d_name (ns i)) \<le> 80)"

fun shaped :: "(nref \<Rightarrow> 'm dnode) \<Rightarrow> nref list \<Rightarrow> tree \<Rightarrow> bool" where
  "shaped ns ms (Tree n ts) \<longleftrightarrow>
     d_parent (ns n) = (case ms of [] \<Rightarrow> None | p # _ \<Rightarrow> Some p) \<and> d_depth (ns n) = of_nat (length ms) \<and>
     kids_of (ns n) = map (\<lambda>t. (troot t, troot t)) ts \<and> distinct (map (\<lambda>t. d_name (ns (troot t))) ts) \<and>
     index_ok ns (index_of (ns n)) (map troot ts) \<and> (\<forall>t\<in>set ts. shaped ns (n # ms) t)"

lemma tnodes_root [simp]: "troot t \<in> set (tnodes t)"
  by (cases t) simp

lemma tnodes_nonempty [simp]: "tnodes t \<noteq> []"
  by (cases t) simp

text \<open>The fields that make the shape.\<close>

definition shape_of :: "'m dnode \<Rightarrow> nref option \<times> u32 \<times> (nref \<times> nref) list \<times> nref list \<times> string" where
  "shape_of d = (d_parent d, d_depth d, kids_of d, index_of d, d_name d)"

lemma core_shape: "tree_part d = tree_part e \<Longrightarrow> shape_of d = shape_of e"
  by (simp add: core_eq_iff shape_of_def kids_of_def index_of_def)

lemma shaped_cong:
  "(\<And>n. n \<in> set (tnodes t) \<Longrightarrow> shape_of (ns' n) = shape_of (ns n)) \<Longrightarrow> shaped ns' ms t = shaped ns ms t"
proof (induction t arbitrary: ms)
  case (Tree n ts)
  have s: "shape_of (ns' m) = shape_of (ns m)" if "m = n \<or> (\<exists>t\<in>set ts. m \<in> set (tnodes t))" for m
    using Tree.prems that by auto
  have names: "map (\<lambda>t. d_name (ns' (troot t))) ts = map (\<lambda>t. d_name (ns (troot t))) ts"
  proof (rule map_cong [OF refl])
    fix t assume "t \<in> set ts"
    then have "shape_of (ns' (troot t)) = shape_of (ns (troot t))" using s tnodes_root by blast
    then show "d_name (ns' (troot t)) = d_name (ns (troot t))" by (simp add: shape_of_def)
  qed
  have fields: "d_parent (ns' n) = d_parent (ns n)" "d_depth (ns' n) = d_depth (ns n)" "kids_of (ns' n) = kids_of (ns n)"
    "index_of (ns' n) = index_of (ns n)"
    using s [of n] by (simp_all add: shape_of_def)
  have ix: "index_ok ns' ix (map troot ts) = index_ok ns ix (map troot ts)" for ix
  proof -
    have "d_name (ns' i) = d_name (ns i)" if "set ix \<subseteq> troot ` set ts" "i \<in> set ix" for i
      using s [of i] that tnodes_root by (fastforce simp: shape_of_def)
    then show ?thesis by (auto simp: index_ok_def)
  qed
  have "shaped ns' (n # ms) t = shaped ns (n # ms) t" if "t \<in> set ts" for t
    using Tree.IH [OF that] s that by auto
  then show ?case unfolding shaped.simps names fields ix by auto
qed

lemma shaped_placed:
  assumes "shaped (v_nodes s) ms t" "line (v_nodes s) (hd ms) (tl ms)" "length ms < 2 ^ 31" "length ms \<le> v_fresh s"
  shows "placed s (troot t) ms"
  using assms by (cases t; cases ms) (auto simp: placed_def nd_def)

lemma placed_child:
  assumes "placed s n ms" "shaped (v_nodes s) ms (Tree n ts)" "t \<in> set ts" "Suc (length ms) < 2 ^ 31" "Suc (length ms) \<le> v_fresh s"
  shows "placed s (troot t) (n # ms)"
  using assms by (intro shaped_placed) (auto simp: placed_def)

section \<open>Looking up children\<close>

lemma find_first: "find P (xs @ x # ys) = Some x" if "P x" "\<And>y. y \<in> set xs \<Longrightarrow> \<not> P y"
  using that by (induction xs) auto

lemma GetChild_shaped:
  assumes "shaped (v_nodes s) ms (Tree n ts)"
  shows "GetChild s n key = (case find (\<lambda>t. d_name (nd s (troot t)) = key) ts of Some t \<Rightarrow> Some (troot t) | None \<Rightarrow> None)"
proof -
  have "find (\<lambda>(k, c). d_name (v_nodes s k) = key) (map (\<lambda>t. (troot t, troot t)) ts) =
    map_option (\<lambda>t. (troot t, troot t)) (find (\<lambda>t. d_name (nd s (troot t)) = key) ts)"
    by (induction ts) (auto simp: nd_def)
  then show ?thesis using assms
    by (auto simp: GetChild_def find_child_def kids_of_def nd_def split: option.splits)
qed

lemma GetChild_child:
  assumes "shaped (v_nodes s) ms (Tree n (ts1 @ t # ts2))"
  shows "GetChild s n (d_name (nd s (troot t))) = Some (troot t)"
proof -
  have "d_name (nd s (troot u)) \<noteq> d_name (nd s (troot t))" if "u \<in> set ts1" for u
  proof -
    have "d_name (v_nodes s (troot u)) \<in> (\<lambda>t. d_name (v_nodes s (troot t))) ` set ts1" using that by blast
    moreover have "d_name (v_nodes s (troot t)) \<notin> (\<lambda>t. d_name (v_nodes s (troot t))) ` set ts1" using assms by simp
    ultimately show ?thesis unfolding nd_def by metis
  qed
  then have "find (\<lambda>u. d_name (nd s (troot u)) = d_name (nd s (troot t))) (ts1 @ t # ts2) = Some t"
    by (intro find_first) auto
  then show ?thesis by (simp add: GetChild_shaped [OF assms])
qed

lemma find_SomeD: "find P xs = Some x \<Longrightarrow> x \<in> set xs \<and> P x"
  by (auto simp: find_Some_iff)

lemma GetChild_SomeD:
  assumes "shaped (v_nodes s) ms (Tree n ts)" "GetChild s n key = Some c"
  shows "\<exists>ts1 t ts2. ts = ts1 @ t # ts2 \<and> c = troot t \<and> d_name (nd s c) = key"
  using assms(2) unfolding GetChild_shaped [OF assms(1)]
  by (auto split: option.splits dest!: find_SomeD split_list)

section \<open>Removing an entry of an index\<close>

text \<open>A node and its children, whatever is below these.\<close>

definition kin :: "('m, 'r, 'f) server \<Rightarrow> nref \<Rightarrow> tree list \<Rightarrow> bool" where
  "kin s n ts \<longleftrightarrow> kids_of (nd s n) = map (\<lambda>t. (troot t, troot t)) ts \<and> distinct (map (\<lambda>t. d_name (nd s (troot t))) ts) \<and>
     index_ok (v_nodes s) (index_of (nd s n)) (map troot ts)"

lemma shaped_kin: "shaped (v_nodes s) ms (Tree n ts) \<Longrightarrow> kin s n ts"
  by (simp add: kin_def nd_def)

lemma last_position_Some:
  assumes "index_ok ns index roots" "distinct (map (\<lambda>r. d_name (ns r)) roots)" "c \<in> set roots"
  shows "c \<in> set index \<Longrightarrow> \<exists>i. last_position ns index (d_name (ns c)) = Some i \<and> i < length index \<and> index ! i = c"
    and "c \<notin> set index \<Longrightarrow> last_position ns index (d_name (ns c)) = None"
proof -
  have same: "r = c" if "r \<in> set index" "d_name (ns r) = d_name (ns c)" for r
    using that assms by (auto simp: index_ok_def distinct_map inj_on_def)
  show "\<exists>i. last_position ns index (d_name (ns c)) = Some i \<and> i < length index \<and> index ! i = c" if "c \<in> set index"
  proof -
    obtain j where "j < length index" "index ! j = c" using \<open>c \<in> set index\<close> by (auto simp: in_set_conv_nth)
    then have "last_position ns index (d_name (ns c)) \<noteq> None"
      by (auto simp: last_position_def find_None_iff)
    then obtain i where i: "last_position ns index (d_name (ns c)) = Some i" by blast
    then have "i < length index" "d_name (ns (index ! i)) = d_name (ns c)"
      by (auto simp: last_position_def dest!: find_SomeD)
    then show ?thesis using i same [of "index ! i"] by simp
  qed
  show "last_position ns index (d_name (ns c)) = None" if "c \<notin> set index"
  proof -
    have "d_name (ns (index ! i)) \<noteq> d_name (ns c)" if "i < length index" for i
      using same [of "index ! i"] that \<open>c \<notin> set index\<close> by auto
    then show ?thesis by (auto simp: last_position_def find_None_iff)
  qed
qed

lemma remove_nth_distinct: "distinct xs \<Longrightarrow> i < length xs \<Longrightarrow> remove_nth i xs = filter (\<lambda>x. x \<noteq> xs ! i) xs"
proof (induction xs arbitrary: i)
  case (Cons x xs)
  show ?case
  proof (cases i)
    case 0
    have "filter (\<lambda>y. y \<noteq> x) xs = xs" using Cons.prems by (auto simp: filter_id_conv)
    then show ?thesis using 0 by (simp add: remove_nth_def)
  next
    case (Suc j)
    then have "remove_nth j xs = filter (\<lambda>y. y \<noteq> xs ! j) xs" "x \<noteq> xs ! j" using Cons by auto
    then show ?thesis using Suc by (simp add: remove_nth_def)
  qed
qed simp

lemma returns_Some: "returns s r \<Longrightarrow> (\<And>s'. r = Ret s' \<Longrightarrow> same_tree s s' \<Longrightarrow> P) \<Longrightarrow> P"
  by (auto simp: returns_def)

lemma RemoveIndexEntry_shaped:
  assumes "steady E s" "placed s n ms" "kin s n ts" "t \<in> set ts"
  shows "\<exists>st s'. RemoveIndexEntry E n (d_name (nd s (troot t))) nt s = Ret (st, s') \<and>
    same_tree (set_nd n (\<lambda>d. d\<lparr>d_index := map_option (filter (\<lambda>i. i \<noteq> troot t)) (d_index d)\<rparr>) s) s'"
proof -
  obtain c where c: "c = troot t" by simp
  have ok: "index_ok (v_nodes s) (index_of (nd s n)) (map troot ts)" "distinct (map (\<lambda>r. d_name (v_nodes s r)) (map troot ts))"
    "c \<in> set (map troot ts)"
    using assms(3,4) by (auto simp: kin_def nd_def comp_def c)
  note pos = last_position_Some [OF ok]
  show ?thesis
  proof (cases "c \<in> set (index_of (nd s n))")
    case True
    then obtain index where ix: "d_index (nd s n) = Some index" "c \<in> set index"
      by (cases "d_index (nd s n)") (auto simp: index_of_def)
    obtain i where i: "last_position (v_nodes s) index (d_name (nd s c)) = Some i" "i < length index" "index ! i = c"
      using pos(1) [OF True] ix by (auto simp: index_of_def nd_def)
    have nm: "starts_with_I (d_name (nd s c))" "length (d_name (nd s c)) \<le> 80" "distinct index"
      using ok(1) ix by (auto simp: index_ok_def index_of_def nd_def)
    have rem: "remove_nth i index = filter (\<lambda>x. x \<noteq> c) index" using remove_nth_distinct [OF nm(3) i(2)] i(3) by simp
    obtain s1 where s1: "s1 = set_nd n (\<lambda>d. d\<lparr>d_index := Some (filter (\<lambda>x. x \<noteq> c) index)\<rparr>) s" by simp
    have eq: "set_nd n (\<lambda>d. d\<lparr>d_index := map_option (filter (\<lambda>i. i \<noteq> c)) (d_index d)\<rparr>) s = s1"
      using ix(1) by (simp add: s1 set_nd_def nd_def)
    have calm: "steady E s1" "placed s1 n ms"
    proof -
      show "steady E s1" using assms(1) by (simp add: steady_def s1 set_nd_def)
      have "line (v_nodes s1) n ms = line (v_nodes s) n ms"
        by (rule line_cong) (auto simp: s1 set_nd_def)
      then show "placed s1 n ms" using assms(2) by (simp add: placed_def s1) (simp add: set_nd_def)
    qed
    obtain s2 where "NotifySubscribersThatNodeIndexChanged E n INDEX_OP_ENTRYREMOVED (of_nat i) (d_name (nd s c)) s1 = Ret s2"
      "same_tree s1 s2"
      using NotifySubscribersThatNodeIndexChanged_returns [OF calm nm(2)] by (auto simp: returns_def)
    then show ?thesis
      using i(1) nm rem ix(1)
      by (cases nt) (auto simp: RemoveIndexEntry_def c [symmetric] Let_def eq s1 [symmetric])
  next
    case False
    then have "last_position (v_nodes s) (index_of (nd s n)) (d_name (nd s c)) = None" using pos(2) by (simp add: nd_def)
    moreover have "set_nd n (\<lambda>d. d\<lparr>d_index := map_option (filter (\<lambda>i. i \<noteq> c)) (d_index d)\<rparr>) s = s"
    proof -
      have "map_option (filter (\<lambda>i. i \<noteq> c)) (d_index (v_nodes s n)) = d_index (v_nodes s n)"
        using False by (cases "d_index (v_nodes s n)") (auto simp: index_of_def nd_def filter_id_conv)
      then show ?thesis by (simp add: set_nd_def)
    qed
    ultimately show ?thesis
      by (cases "d_index (nd s n)") (auto simp: RemoveIndexEntry_def c [symmetric] index_of_def)
  qed
qed

end
