(* ===== verification/Node_Remove.thy ===== *)
theory Node_Remove
  imports Node_Tree
begin

text \<open>
  Removing a child with all that is below it: the recursion ends, the subtree is gone, its index entry
  too, and every other node is as it was.
\<close>

section \<open>Frames\<close>

text \<open>Only the nodes of \<open>X\<close> may have changed, and no name has.\<close>

definition node_frame :: "nref set \<Rightarrow> ('m, 'r, 'f) server \<Rightarrow> ('m, 'r, 'f) server \<Rightarrow> bool" where
  "node_frame X s s' \<longleftrightarrow> (\<forall>m. m \<notin> X \<longrightarrow> tree_part (nd s' m) = tree_part (nd s m)) \<and> (\<forall>m. d_name (nd s' m) = d_name (nd s m)) \<and>
     v_fresh s' = v_fresh s \<and> v_root s' = v_root s \<and>
     map (\<lambda>(i, x). (i, static x)) (v_sessions s') = map (\<lambda>(i, x). (i, static x)) (v_sessions s)"

lemma frame_same: "same_tree s s' \<Longrightarrow> node_frame X s s'"
  by (auto simp: node_frame_def same_tree_def core_eq_iff)

lemma frame_refl [simp]: "node_frame X s s"
  by (simp add: node_frame_def)

lemma frame_trans: "node_frame X s s' \<Longrightarrow> node_frame Y s' s'' \<Longrightarrow> X \<union> Y \<subseteq> Z \<Longrightarrow> node_frame Z s s''"
  unfolding node_frame_def by (metis Un_iff subset_iff)

lemma frame_mono: "node_frame X s s' \<Longrightarrow> X \<subseteq> Z \<Longrightarrow> node_frame Z s s'"
  by (auto simp: node_frame_def)

lemma frame_set_nd: "d_name (f (nd s n)) = d_name (nd s n) \<Longrightarrow> node_frame {n} s (set_nd n f s)"
  by (simp add: node_frame_def) (simp add: set_nd_def)

lemma steady_frame:
  assumes "node_frame X s s'" "steady E s"
  shows "steady E s'"
proof -
  have "map (\<lambda>(i, x). (i, static x)) (v_sessions s') = map (\<lambda>(i, x). (i, static x)) (v_sessions s)"
    using assms(1) by (simp add: node_frame_def)
  then show ?thesis using assms(2) unfolding steady_static by (simp only:)
qed

lemma placed_frame:
  assumes "placed s n ms" "node_frame X s s'" "set ms \<inter> X = {}"
    "n \<in> X \<Longrightarrow> d_parent (nd s' n) = d_parent (nd s n) \<and> d_depth (nd s' n) = d_depth (nd s n)"
  shows "placed s' n ms"
proof -
  have "d_parent (nd s' m) = d_parent (nd s m) \<and> d_depth (nd s' m) = d_depth (nd s m)" if "m \<in> set (n # ms)" for m
    using assms that by (cases "m \<in> X") (auto simp: node_frame_def core_eq_iff)
  then show ?thesis
    using assms(1,2) line_cong [of n ms "v_nodes s'" "v_nodes s"] by (auto simp: placed_def node_frame_def nd_def)
qed

lemma placed_cong:
  assumes "\<And>m. d_parent (nd s' m) = d_parent (nd s m) \<and> d_depth (nd s' m) = d_depth (nd s m)" "v_fresh s' = v_fresh s"
  shows "placed s' n ms = placed s n ms"
  using line_cong [of n ms "v_nodes s'" "v_nodes s"] assms by (simp add: placed_def nd_def)

lemma shaped_frame:
  assumes "shaped (v_nodes s) ms t" "node_frame X s s'" "set (tnodes t) \<inter> X = {}"
  shows "shaped (v_nodes s') ms t"
proof -
  have "shape_of (v_nodes s' m) = shape_of (v_nodes s m)" if "m \<in> set (tnodes t)" for m
    using assms(2,3) that core_shape unfolding node_frame_def nd_def by blast
  from shaped_cong [of t "v_nodes s'" "v_nodes s", OF this] assms(1) show ?thesis by simp
qed

section \<open>One child\<close>

text \<open>The node that loses the child \<open>c\<close>.\<close>

definition without :: "nref \<Rightarrow> 'm dnode \<Rightarrow> 'm dnode" where
  "without c d = d\<lparr>d_children := map_option (filter (\<lambda>(k, _). k \<noteq> c)) (d_children d),
     d_index := map_option (filter (\<lambda>i. i \<noteq> c)) (d_index d)\<rparr>"

lemma kids_without: "kids_of (without c d) = filter (\<lambda>(k, _). k \<noteq> c) (kids_of d)"
  by (simp add: kids_of_def without_def split: option.split)

lemma index_without: "index_of (without c d) = filter (\<lambda>i. i \<noteq> c) (index_of d)"
  by (simp add: index_of_def without_def split: option.split)

lemma filter_child_key:
  assumes "kids_of d = map (\<lambda>t. (troot t, troot t)) ts" "distinct (map (\<lambda>t. d_name (ns (troot t))) ts)" "t \<in> set ts"
  shows "map_option (filter (\<lambda>(k, _). d_name (ns k) \<noteq> d_name (ns (troot t)))) (d_children d) =
    map_option (filter (\<lambda>(k, _). k \<noteq> troot t)) (d_children d)"
proof (cases "d_children d")
  case (Some kids)
  have "k = troot t" if "(k, x) \<in> set kids" "d_name (ns k) = d_name (ns (troot t))" for k x
    using assms that Some by (auto simp: kids_of_def distinct_map inj_on_def)
  then have "filter (\<lambda>(k, _). d_name (ns k) \<noteq> d_name (ns (troot t))) kids = filter (\<lambda>(k, _). k \<noteq> troot t) kids"
    by (intro filter_cong) auto
  then show ?thesis using Some by simp
qed simp

lemma filter_roots:
  assumes "distinct (map troot (ts1 @ t # ts2))"
  shows "filter (\<lambda>(k, _). k \<noteq> troot t) (map (\<lambda>t. (troot t, troot t)) (ts1 @ t # ts2)) = map (\<lambda>t. (troot t, troot t)) (ts1 @ ts2)"
proof -
  have "filter (\<lambda>(k, _). k \<noteq> troot t) (map (\<lambda>t. (troot t, troot t)) us) = map (\<lambda>t. (troot t, troot t)) us"
    if "troot t \<notin> troot ` set us" for us
    using that by (induction us) auto
  then show ?thesis using assms by simp
qed

lemma distinct_roots: "distinct (concat (map tnodes us)) \<Longrightarrow> distinct (map troot us)"
proof (induction us)
  case (Cons u us)
  have "troot u \<noteq> troot v" if "v \<in> set us" for v
  proof -
    have "set (tnodes u) \<inter> set (tnodes v) = {}" using Cons.prems that by auto
    then show ?thesis using tnodes_root [of u] tnodes_root [of v] by (metis disjoint_iff)
  qed
  then show ?case using Cons by auto
qed simp

lemma shaped_without:
  assumes "shaped (v_nodes s) ms (Tree n (ts1 @ t # ts2))" "distinct (tnodes (Tree n (ts1 @ t # ts2)))"
    "node_frame (insert n (set (tnodes t))) s s'" "tree_part (nd s' n) = tree_part (without (troot t) (nd s n))"
  shows "shaped (v_nodes s') ms (Tree n (ts1 @ ts2))"
proof -
  have roots: "distinct (map troot (ts1 @ t # ts2))"
    using assms(2) distinct_roots by (metis distinct.simps(2) tnodes.simps)
  have old: "kids_of (nd s n) = map (\<lambda>t. (troot t, troot t)) (ts1 @ t # ts2)"
    "distinct (map (\<lambda>t. d_name (nd s (troot t))) (ts1 @ t # ts2))" "index_ok (v_nodes s) (index_of (nd s n)) (map troot (ts1 @ t # ts2))"
    using assms(1) by (simp_all add: nd_def)
  have new: "d_parent (nd s' n) = d_parent (nd s n)" "d_depth (nd s' n) = d_depth (nd s n)"
    "kids_of (nd s' n) = map (\<lambda>t. (troot t, troot t)) (ts1 @ ts2)" "index_of (nd s' n) = filter (\<lambda>i. i \<noteq> troot t) (index_of (nd s n))"
    using assms(4) core_shape [OF assms(4)] kids_without [of "troot t" "nd s n"] index_without [of "troot t" "nd s n"] filter_roots [OF roots] old(1)
    by (simp_all add: core_eq_iff shape_of_def without_def)
  have names: "d_name (v_nodes s' m) = d_name (v_nodes s m)" for m using assms(3) by (simp add: node_frame_def nd_def)
  have ix: "index_ok (v_nodes s') (index_of (nd s' n)) (map troot (ts1 @ ts2))"
    using old(3) roots unfolding index_ok_def new(4) names by auto
  have "shaped (v_nodes s') (n # ms) u" if "u \<in> set (ts1 @ ts2)" for u
  proof (rule shaped_frame [OF _ assms(3)])
    show "shaped (v_nodes s) (n # ms) u" using assms(1) that by auto
    show "set (tnodes u) \<inter> insert n (set (tnodes t)) = {}" using assms(2) that by fastforce
  qed
  then show ?thesis using assms(1) new ix old(2) names by (auto simp: nd_def)
qed

text \<open>What \<open>RemoveChild\<close> does once the child has been emptied.\<close>

lemma finish_removal:
  assumes "steady E s" "placed s n ms" "kin s n ts" "t \<in> set ts" "troot t \<noteq> n" "placed s (troot t) (n # ms)"
  shows "\<exists>s'. bind_run (RemoveIndexEntry E n (d_name (nd s (troot t))) nt s) (\<lambda>(_, s').
      bind_run (case nt of None \<Rightarrow> Ret s' | Some this \<Rightarrow> NotifySubscribersThatNodeChanged E this (troot t) (d_data (nd s' (troot t))) True s') (\<lambda>s'.
      bind_run (SetParent E (troot t) None nt s') (\<lambda>s'.
        Ret (B_NO_ERROR, cnt, set_nd n (\<lambda>d. d\<lparr>d_children :=
          map_option (filter (\<lambda>(k, _). d_name (v_nodes s' k) \<noteq> d_name (nd s (troot t)))) (d_children d)\<rparr>) s')))) =
      Ret (B_NO_ERROR, cnt, s') \<and>
    node_frame {n, troot t} s s' \<and> tree_part (nd s' n) = tree_part (without (troot t) (nd s n))"
proof -
  obtain c where c: "c = troot t" by simp
  obtain s0 where s0: "s0 = set_nd n (\<lambda>d. d\<lparr>d_index := map_option (filter (\<lambda>i. i \<noteq> c)) (d_index d)\<rparr>) s" by simp
  obtain st s1 where s1: "RemoveIndexEntry E n (d_name (nd s c)) nt s = Ret (st, s1)" "same_tree s0 s1"
    using RemoveIndexEntry_shaped [OF assms(1-4), of nt] by (auto simp: s0 c)
  have f0: "node_frame {n} s s0" unfolding s0 by (rule frame_set_nd) simp
  have f1: "node_frame {n} s s1" by (rule frame_trans [OF f0 frame_same [OF s1(2)]]) auto
  have cn: "c \<noteq> n" using assms(5) c by simp
  have "placed s0 c (n # ms)" using assms(6) placed_cong [of s0 s c "n # ms"] by (simp add: s0 c) (simp add: set_nd_def)
  then have p1: "placed s1 c (n # ms)" by (simp add: placed_same [OF s1(2)])
  obtain s2 where s2: "(case nt of None \<Rightarrow> Ret s1 | Some this \<Rightarrow> NotifySubscribersThatNodeChanged E this c (d_data (nd s1 c)) True s1) = Ret s2"
    "same_tree s1 s2"
  proof (cases nt)
    case (Some this)
    then show ?thesis
      using that NotifySubscribersThatNodeChanged_returns [OF steady_frame [OF f1 assms(1)] p1, of this "d_data (nd s1 c)" True]
      by (auto simp: returns_def)
  qed (use that [of s1] in simp)
  obtain s3 where s3: "SetParent E c None nt s2 = Ret s3"
    "s3 = set_nd c (\<lambda>d. d\<lparr>d_depth := 0\<rparr>) (set_nd c (\<lambda>d. d\<lparr>d_subscribers := []\<rparr>) (set_nd c (\<lambda>d. d\<lparr>d_parent := None\<rparr>) s2))"
    by (simp add: SetParent_def)
  obtain s4 where s4: "s4 = set_nd n (\<lambda>d. d\<lparr>d_children :=
      map_option (filter (\<lambda>(k, _). d_name (v_nodes s3 k) \<noteq> d_name (nd s c))) (d_children d)\<rparr>) s3" by simp
  have f2: "node_frame {n, c} s s2" by (rule frame_trans [OF f1 frame_same [OF s2(2)]]) auto
  have f3: "node_frame {c} s2 s3" unfolding s3(2)
    by (rule frame_trans [OF frame_trans [OF frame_set_nd frame_set_nd] frame_set_nd]) auto
  have f4: "node_frame {n} s3 s4" unfolding s4 by (rule frame_set_nd) simp
  have f23: "node_frame {n, c} s s3" by (rule frame_trans [OF f2 f3]) auto
  have f: "node_frame {n, c} s s4" by (rule frame_trans [OF f23 f4]) auto
  have names: "d_name (v_nodes s3 k) = d_name (nd s k)" for k using f23 by (simp add: node_frame_def nd_def)
  have core2: "tree_part (nd s2 n) = tree_part ((nd s n)\<lparr>d_index := map_option (filter (\<lambda>i. i \<noteq> c)) (d_index (nd s n))\<rparr>)"
    using same_tree_trans [OF s1(2) s2(2)] by (simp add: same_tree_def s0)
  then have kids: "d_children (nd s2 n) = d_children (nd s n)" by (simp add: core_eq_iff)
  have key: "map_option (filter (\<lambda>(k, _). d_name (nd s k) \<noteq> d_name (nd s c))) (d_children (nd s n)) =
      map_option (filter (\<lambda>(k, _). k \<noteq> c)) (d_children (nd s n))"
    using filter_child_key [of "nd s n" ts "nd s" t] assms(3,4) by (simp add: kin_def c)
  have "nd s3 n = nd s2 n" using cn by (simp add: s3(2))
  then have "tree_part (nd s4 n) = tree_part (without c (nd s n))"
    using core2 kids key unfolding s4 names by (simp add: core_eq_iff without_def)
  then show ?thesis unfolding c [symmetric]
    using s1(1) s2(1) s3(1) f by (simp add: s4 [symmetric])
qed

section \<open>A whole subtree\<close>

definition below :: "tree list \<Rightarrow> nref list" where
  "below ts = concat (map tnodes ts)"

lemma below_simps [simp]: "below [] = []" "below (t # ts) = tnodes t @ below ts" "below (ts @ us) = below ts @ below us"
  by (simp_all add: below_def)

lemma tnodes_below [simp]: "tnodes (Tree n ts) = n # below ts"
  by (simp add: below_def)

declare tnodes.simps [simp del]

definition lessened :: "u32 option \<Rightarrow> nat \<Rightarrow> u32 option" where
  "lessened cnt k = map_option (\<lambda>c. c - of_nat k) cnt"

lemma lessened_simps: "lessened cnt 0 = cnt" "lessened (lessened cnt j) k = lessened cnt (j + k)"
  "map_option (\<lambda>c. c - 1) (lessened cnt k) = lessened cnt (Suc k)"
  by (cases cnt; simp add: lessened_def algebra_simps)+

text \<open>The place of a subtree: the ancestors, apart from the nodes of the subtree, and room for the depths.\<close>

definition seated :: "('m, 'r, 'f) server \<Rightarrow> nref list \<Rightarrow> tree \<Rightarrow> bool" where
  "seated s ms t \<longleftrightarrow> placed s (troot t) ms \<and> shaped (v_nodes s) ms t \<and> distinct (ms @ tnodes t) \<and>
     length ms + length (tnodes t) < 2 ^ 31 \<and> length ms + length (tnodes t) \<le> v_fresh s"

lemma seated_child:
  assumes "seated s ms (Tree n ts)" "t \<in> set ts"
  shows "seated s (n # ms) t"
proof -
  obtain ts1 ts2 where ts: "ts = ts1 @ t # ts2" using split_list [OF assms(2)] by blast
  have "0 < length (tnodes t)" by simp
  moreover have "placed s (troot t) (n # ms)"
    using assms ts \<open>0 < length (tnodes t)\<close> by (intro placed_child [of s n ms ts t]) (auto simp: seated_def)
  ultimately show ?thesis using assms ts by (auto simp: seated_def)
qed

text \<open>Removing one child of a seated node, when the child has been emptied of everything below it.\<close>

lemma remove_emptied:
  assumes "steady E s" "seated s ms (Tree n (ts1 @ t # ts2))"
    "node_frame (set (tnodes t)) s s1" "tree_part (nd s1 (troot t)) = tree_part ((nd s (troot t))\<lparr>d_children := K, d_index := I\<rparr>)"
    "(if recurse then remove_children fuel E (troot t) nt cnt s else Ret (cnt, s)) = Ret (cnt', s1)"
  shows "\<exists>s'. RemoveChild (Suc fuel) E n (d_name (nd s (troot t))) nt recurse cnt s = Ret (B_NO_ERROR, map_option (\<lambda>c. c - 1) cnt', s') \<and>
    node_frame (insert n (set (tnodes t))) s s' \<and> tree_part (nd s' n) = tree_part (without (troot t) (nd s n)) \<and>
    seated s' ms (Tree n (ts1 @ ts2))"
proof -
  have sh: "shaped (v_nodes s) ms (Tree n (ts1 @ t # ts2))" "distinct (ms @ tnodes (Tree n (ts1 @ t # ts2)))" "placed s n ms"
    using assms(2) by (simp_all add: seated_def)
  have kid: "seated s (n # ms) t" using seated_child [OF assms(2)] by simp
  have n: "n \<notin> set (tnodes t)" "troot t \<noteq> n" "set ms \<inter> insert n (set (tnodes t)) = {}"
    using sh(2) tnodes_root [of t] by (auto simp del: tnodes_root)
  have same_n: "tree_part (nd s1 n) = tree_part (nd s n)" using assms(3) n(1) by (simp add: node_frame_def)
  have p1: "placed s1 n ms" by (rule placed_frame [OF sh(3) assms(3)]) (use n in auto)
  have pt: "placed s1 (troot t) (n # ms)"
  proof (rule placed_frame [OF _ assms(3)])
    show "placed s (troot t) (n # ms)" using kid by (simp add: seated_def)
    show "set (n # ms) \<inter> set (tnodes t) = {}" using n by auto
    show "d_parent (nd s1 (troot t)) = d_parent (nd s (troot t)) \<and> d_depth (nd s1 (troot t)) = d_depth (nd s (troot t))"
      using assms(4) by (simp add: core_eq_iff)
  qed
  have kin1: "kin s1 n (ts1 @ t # ts2)"
    using shaped_kin [OF sh(1)] core_shape [OF same_n] assms(3)
    by (simp add: kin_def shape_of_def node_frame_def index_ok_def nd_def [symmetric])
  have names: "d_name (nd s1 m) = d_name (nd s m)" for m using assms(3) by (simp add: node_frame_def)
  obtain s' where s': "RemoveChild (Suc fuel) E n (d_name (nd s (troot t))) nt recurse cnt s =
      Ret (B_NO_ERROR, map_option (\<lambda>c. c - 1) cnt', s')"
    "node_frame {n, troot t} s1 s'" "tree_part (nd s' n) = tree_part (without (troot t) (nd s1 n))"
    using finish_removal [OF steady_frame [OF assms(3,1)] p1 kin1 _ n(2) pt, of nt "map_option (\<lambda>c. c - 1) cnt'"]
      GetChild_child [OF sh(1)] assms(5)
    by (auto simp: names)
  have f: "node_frame (insert n (set (tnodes t))) s s'"
    by (rule frame_trans [OF assms(3) s'(2)]) auto
  have c: "tree_part (nd s' n) = tree_part (without (troot t) (nd s n))"
    using s'(3) same_n by (simp add: core_eq_iff without_def)
  have "shaped (v_nodes s') ms (Tree n (ts1 @ ts2))"
    by (rule shaped_without [OF sh(1) _ f c]) (use sh(2) in auto)
  moreover have "placed s' n ms"
    by (rule placed_frame [OF sh(3) f n(3)]) (use c in \<open>simp add: core_eq_iff without_def\<close>)
  ultimately have "seated s' ms (Tree n (ts1 @ ts2))"
    using assms(2) f by (auto simp: seated_def node_frame_def)
  then show ?thesis using s'(1) f c by blast
qed

lemma CountChildren_seated:
  assumes "seated s ms (Tree n ts)"
  shows "CountChildren s n > 0 \<longleftrightarrow> ts \<noteq> []"
proof -
  have "length ts \<le> length (below ts)"
  proof (induction ts)
    case (Cons t ts)
    obtain m where "length (tnodes t) = Suc m" by (cases "tnodes t") auto
    then show ?case using Cons by simp
  qed simp
  then have len: "length ts < 2 ^ 32" using assms by (simp add: seated_def)
  have "CountChildren s n = of_nat (length ts)"
    using assms by (auto simp: CountChildren_def seated_def kids_of_def nd_def split: option.splits dest: arg_cong [of _ _ length])
  then show ?thesis using len by (cases ts) (auto simp: word_less_nat_alt unat_of_nat_u32 simp del: of_nat_Suc)
qed

lemma remove_children_all:
  assumes "steady E s" "seated s ms (Tree n ts)" "fuel > 2 * length (below ts)"
  shows "\<exists>s' K I. remove_children fuel E n nt cnt s = Ret (lessened cnt (length (below ts)), s') \<and>
    node_frame (insert n (set (below ts))) s s' \<and> tree_part (nd s' n) = tree_part ((nd s n)\<lparr>d_children := K, d_index := I\<rparr>) \<and>
    seated s' ms (Tree n [])"
  using assms
proof (induction "length (below ts)" arbitrary: ts s ms n cnt fuel rule: less_induct)
  case less
  obtain f where f: "fuel = Suc f" using less.prems(3) by (cases fuel) auto
  show ?case
  proof (cases ts)
    case Nil
    then show ?thesis
      using CountChildren_seated [OF less.prems(2)] less.prems(2)
      by (intro exI [of _ s] exI [of _ "d_children (nd s n)"] exI [of _ "d_index (nd s n)"]) (simp add: f lessened_simps)
  next
    case (Cons t rest)
    obtain c cs where t: "t = Tree c cs" by (cases t)
    have it: "GetChildIterator s n = (c, c) # map (\<lambda>t. (troot t, troot t)) rest"
      using less.prems(2) Cons t by (simp add: seated_def GetChildIterator_def kids_of_def nd_def)
    obtain g where g: "f = Suc g" "g > 2 * length (below cs)" "f > 2 * length (below rest)"
      using less.prems(3) Cons t f by (cases f) auto
    have kid: "seated s (n # ms) (Tree c cs)" using seated_child [OF less.prems(2), of t] Cons t by simp
    have "length (below cs) < length (below ts)" by (simp add: Cons t)
    from less.hyps [OF this less.prems(1) kid g(2)] obtain s1 K I where
      s1: "remove_children g E c nt cnt s = Ret (lessened cnt (length (below cs)), s1)"
      "node_frame (insert c (set (below cs))) s s1" "tree_part (nd s1 c) = tree_part ((nd s c)\<lparr>d_children := K, d_index := I\<rparr>)" by blast
    obtain s2 where s2: "RemoveChild f E n (d_name (nd s c)) nt True cnt s = Ret (B_NO_ERROR, lessened cnt (Suc (length (below cs))), s2)"
      "node_frame (insert n (set (tnodes t))) s s2" "tree_part (nd s2 n) = tree_part (without c (nd s n))" "seated s2 ms (Tree n rest)"
      using remove_emptied [OF less.prems(1), of ms n "[]" t rest s1 I K True g nt cnt "lessened cnt (length (below cs))"]
        less.prems(2) s1 Cons t g(1) by (auto simp: lessened_simps)
    have "length (below rest) < length (below ts)" by (simp add: Cons t)
    from less.hyps [OF this steady_frame [OF s2(2) less.prems(1)] s2(4) g(3)] obtain s3 K' I' where
      s3: "remove_children f E n nt (lessened cnt (Suc (length (below cs)))) s2 =
        Ret (lessened (lessened cnt (Suc (length (below cs)))) (length (below rest)), s3)"
      "node_frame (insert n (set (below rest))) s2 s3" "tree_part (nd s3 n) = tree_part ((nd s2 n)\<lparr>d_children := K', d_index := I'\<rparr>)"
      "seated s3 ms (Tree n [])" by blast
    have "node_frame (insert n (set (below ts))) s s3"
      by (rule frame_trans [OF s2(2) s3(2)]) (auto simp: Cons)
    moreover have "tree_part (nd s3 n) = tree_part ((nd s n)\<lparr>d_children := K', d_index := I'\<rparr>)"
      using s3(3) s2(3) by (simp add: core_eq_iff without_def)
    moreover have "remove_children fuel E n nt cnt s = Ret (lessened cnt (length (below ts)), s3)"
      using CountChildren_seated [OF less.prems(2)] it s2(1) s3(1) Cons t by (simp add: f lessened_simps)
    ultimately show ?thesis using s3(4) by blast
  qed
qed

end
