(* ===== verification/Node_Place.thy ===== *)
theory Node_Place
  imports Node_Remove
begin

text \<open>
  The whole tree: where a node sits in it, what replacing the subtree of one node does to its shape, and the
  removal of a child with everything below it.
\<close>

section \<open>Occurrences\<close>

text \<open>\<open>occurs ms T ms' t\<close>: below the tree \<open>T\<close>, whose root has the ancestors \<open>ms\<close>, is \<open>t\<close>, with ancestors \<open>ms'\<close>.\<close>

inductive occurs :: "nref list \<Rightarrow> tree \<Rightarrow> nref list \<Rightarrow> tree \<Rightarrow> bool" for ms T where
  here: "occurs ms T ms T"
| down: "occurs ms T ms' (Tree n ts) \<Longrightarrow> t \<in> set ts \<Longrightarrow> occurs ms T (n # ms') t"

lemma occurs_below: "occurs (n # ms) t ms' u \<Longrightarrow> t \<in> set ts \<Longrightarrow> occurs ms (Tree n ts) ms' u"
  by (induction rule: occurs.induct) (auto intro: occurs.intros)

lemma occurs_exists: "n \<in> set (tnodes T) \<Longrightarrow> \<exists>ms' ts. occurs ms T ms' (Tree n ts)"
proof (induction T arbitrary: ms)
  case (Tree m ts)
  show ?case
  proof (cases "n = m")
    case True
    then show ?thesis by (auto intro: occurs.here)
  next
    case False
    then obtain t where t: "t \<in> set ts" "n \<in> set (tnodes t)" using Tree.prems by (auto simp: below_def)
    then obtain ms' us where "occurs (m # ms) t ms' (Tree n us)" using Tree.IH by blast
    then show ?thesis using occurs_below t(1) by blast
  qed
qed

lemma occurs_nodes: "occurs ms T ms' t \<Longrightarrow> set (tnodes t) \<subseteq> set (tnodes T)"
  by (induction rule: occurs.induct) (auto simp: below_def)

lemma occurs_seated: "occurs ms T ms' t \<Longrightarrow> seated s ms T \<Longrightarrow> seated s ms' t"
  by (induction rule: occurs.induct) (auto intro: seated_child)

lemma distinct_part: "distinct (below ts) \<Longrightarrow> t \<in> set ts \<Longrightarrow> distinct (tnodes t)"
  by (induction ts) auto

lemma occurs_distinct: "occurs ms T ms' t \<Longrightarrow> distinct (tnodes T) \<Longrightarrow> distinct (tnodes t)"
  by (induction rule: occurs.induct) (auto dest: distinct_part)

section \<open>Replacing a subtree\<close>

fun graft :: "tree \<Rightarrow> tree \<Rightarrow> tree" where
  "graft r (Tree m ts) = (if m = troot r then r else Tree m (map (graft r) ts))"

lemma troot_graft [simp]: "troot (graft r t) = troot t"
  by (cases t) simp

lemma graft_absent: "troot r \<notin> set (tnodes t) \<Longrightarrow> graft r t = t"
proof (induction t)
  case (Tree m ts)
  then have "map (graft r) ts = ts" by (intro map_idI) (auto simp: below_def)
  then show ?case using Tree.prems by simp
qed

lemma below_disjoint: "distinct (tnodes (Tree n ts)) \<Longrightarrow> t \<in> set ts \<Longrightarrow> u \<in> set ts \<Longrightarrow> t \<noteq> u \<Longrightarrow> set (tnodes t) \<inter> set (tnodes u) = {}"
proof (induction ts)
  case (Cons a ts)
  have "set (tnodes v) \<inter> set (tnodes a) = {}" if "v \<in> set ts" for v
    using Cons.prems(1) that by (auto simp: below_def)
  moreover have "distinct (tnodes (Tree n ts))" using Cons.prems(1) by simp
  ultimately show ?case using Cons by (metis inf_commute set_ConsD)
qed simp

lemma shaped_graft:
  assumes "shaped ns ms T" "distinct (tnodes T)"
    "\<And>m. m \<in> set (tnodes T) \<Longrightarrow> m \<notin> X \<Longrightarrow> shape_of (ns' m) = shape_of (ns m)" "\<And>m. d_name (ns' m) = d_name (ns m)"
    "\<And>ms' t. occurs ms T ms' t \<Longrightarrow> troot t = troot r \<Longrightarrow> X \<inter> set (tnodes T) \<subseteq> set (tnodes t) \<and> shaped ns' ms' r"
    "troot r \<in> set (tnodes T)"
  shows "shaped ns' ms (graft r T)"
  using assms
proof (induction T arbitrary: ms)
  case (Tree m ts)
  show ?case
  proof (cases "m = troot r")
    case True
    then show ?thesis using Tree.prems(5) [OF occurs.here] by simp
  next
    case False
    obtain t where t: "t \<in> set ts" "troot r \<in> set (tnodes t)" using Tree.prems(6) False by (auto simp: below_def)
    obtain ms' us where u: "occurs (m # ms) t ms' (Tree (troot r) us)" using occurs_exists [OF t(2)] by blast
    have "X \<inter> set (tnodes (Tree m ts)) \<subseteq> set (tnodes (Tree (troot r) us))"
      using Tree.prems(5) [OF occurs_below [OF u t(1)]] by simp
    then have Xt: "X \<inter> set (tnodes (Tree m ts)) \<subseteq> set (tnodes t)" using occurs_nodes [OF u] by auto
    have dt: "distinct (tnodes v)" if "v \<in> set ts" for v using distinct_part [OF _ that] Tree.prems(2) by simp
    have sub: "set (tnodes v) \<subseteq> set (tnodes (Tree m ts))" if "v \<in> set ts" for v using that by (auto simp: below_def)
    have m: "m \<notin> X" using Xt Tree.prems(2) t(1) by (auto simp: below_def)
    have kids: "shaped ns' (m # ms) (graft r v)" if v: "v \<in> set ts" for v
    proof (cases "troot r \<in> set (tnodes v)")
      case True
      show ?thesis
      proof (rule Tree.IH [OF v _ dt [OF v] _ Tree.prems(4)])
        show "shaped ns (m # ms) v" using Tree.prems(1) v by simp
        show "shape_of (ns' k) = shape_of (ns k)" if "k \<in> set (tnodes v)" "k \<notin> X" for k
          using Tree.prems(3) that sub [OF v] by blast
        show "X \<inter> set (tnodes v) \<subseteq> set (tnodes w) \<and> shaped ns' ms' r" if "occurs (m # ms) v ms' w" "troot w = troot r" for ms' w
          using Tree.prems(5) [OF occurs_below [OF that(1) v] that(2)] sub [OF v] by auto
      qed (rule True)
    next
      case False
      then have "t \<noteq> v" using t(2) by blast
      then have "X \<inter> set (tnodes v) = {}" using Xt below_disjoint [OF Tree.prems(2) t(1) v] sub [OF v] by auto
      then have "shaped ns' (m # ms) v = shaped ns (m # ms) v"
        using Tree.prems(3) sub [OF v] by (intro shaped_cong) blast
      then show ?thesis using Tree.prems(1) v by (simp add: graft_absent [OF False])
    qed
    have "shape_of (ns' m) = shape_of (ns m)" using Tree.prems(3) [of m] m by simp
    then show ?thesis
      using Tree.prems(1,4) False kids by (auto simp: shape_of_def index_ok_def comp_def)
  qed
qed

lemma occurs_cases:
  "occurs ms T ms' u \<Longrightarrow> ms' = ms \<and> u = T \<or> (\<exists>t\<in>set (tkids T). occurs (troot T # ms) t ms' u)"
proof (induction rule: occurs.induct)
  case (down ms' n ts t)
  show ?case
  proof (cases "ms' = ms \<and> Tree n ts = T")
    case True
    then show ?thesis using down.hyps(2) occurs.here [of "n # ms" t] by force
  next
    case False
    then show ?thesis using down.IH down.hyps(2) by (blast intro: occurs.down)
  qed
qed simp

lemma occurs_kid_nodes: "occurs (n # ms) t ms' u \<Longrightarrow> t \<in> set ts \<Longrightarrow> set (tnodes u) \<subseteq> set (below ts)"
  using occurs_nodes [of "n # ms" t ms' u] by (auto simp: below_def)

lemma set_below: "set (below ts) = (\<Union>t\<in>set ts. set (tnodes t))"
  by (simp add: below_def)

lemma distinct_below: "distinct (below ts) \<longleftrightarrow> (\<forall>t\<in>set ts. distinct (tnodes t)) \<and>
    distinct ts \<and> (\<forall>t\<in>set ts. \<forall>u\<in>set ts. t \<noteq> u \<longrightarrow> set (tnodes t) \<inter> set (tnodes u) = {})"
proof (induction ts)
  case (Cons a ts)
  have "a \<notin> set ts" if "set (tnodes a) \<inter> (\<Union>t\<in>set ts. set (tnodes t)) = {}"
    using that tnodes_root [of a] by (auto simp del: tnodes_root)
  then show ?case using Cons by (auto simp: set_below) blast+
qed simp

lemma graft_nodes:
  assumes "distinct (tnodes T)" "occurs ms T ms' u" "troot u = troot r" "distinct (tnodes r)"
    "set (tnodes r) \<inter> set (tnodes T) \<subseteq> set (tnodes u)"
  shows "set (tnodes (graft r T)) = (set (tnodes T) - set (tnodes u)) \<union> set (tnodes r) \<and> distinct (tnodes (graft r T))"
  using assms
proof (induction T arbitrary: ms)
  case (Tree m ts)
  from occurs_cases [OF Tree.prems(2)] show ?case
  proof (elim disjE bexE)
    assume "ms' = ms \<and> u = Tree m ts"
    then show ?thesis using Tree.prems(3,4) by simp
  next
    fix t assume t: "t \<in> set (tkids (Tree m ts))" and o: "occurs (troot (Tree m ts) # ms) t ms' u"
    then have t': "t \<in> set ts" and o': "occurs (m # ms) t ms' u" by simp_all
    have ut: "set (tnodes u) \<subseteq> set (tnodes t)" by (rule occurs_nodes [OF o'])
    have rt: "troot r \<in> set (tnodes t)" using ut tnodes_root [of u] Tree.prems(3) by auto
    have d: "distinct (below ts)" "m \<notin> set (below ts)" using Tree.prems(1) by simp_all
    have mr: "m \<noteq> troot r" using d(2) rt t' by (auto simp: set_below)
    have other: "graft r v = v" if "v \<in> set ts" "v \<noteq> t" for v
      using d(1) that t' rt by (intro graft_absent) (auto simp: distinct_below)
    have rv: "set (tnodes r) \<inter> set (tnodes v) \<subseteq> set (tnodes u)" if "v \<in> set ts" for v
      using Tree.prems(5) that by (auto simp: set_below)
    have g: "set (tnodes (graft r t)) = (set (tnodes t) - set (tnodes u)) \<union> set (tnodes r)" "distinct (tnodes (graft r t))"
      using Tree.IH [OF t' _ o' Tree.prems(3,4) rv [OF t']] d(1) t' by (auto simp: distinct_below)
    obtain ts1 ts2 where ts: "ts = ts1 @ t # ts2" using split_list [OF t'] by blast
    have "t \<notin> set ts1" "t \<notin> set ts2" using d(1) unfolding distinct_below by (auto simp: ts)
    then have "map (graft r) ts1 = ts1" "map (graft r) ts2 = ts2"
      using other by (auto simp: ts intro!: map_idI)
    then have g': "below (map (graft r) ts) = below ts1 @ tnodes (graft r t) @ below ts2" by (simp add: ts)
    have sep: "set (tnodes r) \<inter> set (below ts1) = {}" "set (tnodes r) \<inter> set (below ts2) = {}"
      using Tree.prems(5) ut d(1) by (auto simp: ts)
    have set: "set (below (map (graft r) ts)) = (set (below ts) - set (tnodes u)) \<union> set (tnodes r)"
      unfolding g' using g(1) d(1) ut by (auto simp: ts)
    moreover have "distinct (below (map (graft r) ts))"
      unfolding g' using g d(1) sep by (auto simp: ts)
    ultimately show ?thesis using mr d(2) Tree.prems(5) ut t' by (auto simp: set_below)
  qed
qed

lemma occurs_unique: "distinct (tnodes T) \<Longrightarrow> occurs ms T ms' u \<Longrightarrow> occurs ms T ms'' v \<Longrightarrow> troot u = troot v \<Longrightarrow> u = v"
proof (induction T arbitrary: ms)
  case (Tree m ts)
  have d: "distinct (below ts)" "m \<notin> set (below ts)" using Tree.prems(1) by simp_all
  have inside: "troot w \<in> set (tnodes t)" if "occurs (m # ms) t ns w" for t ns w
    using occurs_nodes [OF that] tnodes_root [of w] by blast
  from occurs_cases [OF Tree.prems(2)] occurs_cases [OF Tree.prems(3)] show ?case
  proof (elim disjE bexE conjE)
    fix t assume "u = Tree m ts" "t \<in> set (tkids (Tree m ts))" "occurs (troot (Tree m ts) # ms) t ms'' v"
    then have False using inside [of t ms'' v] d(2) Tree.prems(4) by (auto simp: set_below)
    then show ?thesis ..
  next
    fix t assume "v = Tree m ts" "t \<in> set (tkids (Tree m ts))" "occurs (troot (Tree m ts) # ms) t ms' u"
    then have False using inside [of t ms' u] d(2) Tree.prems(4) by (auto simp: set_below)
    then show ?thesis ..
  next
    fix t t' assume t: "t \<in> set (tkids (Tree m ts))" "occurs (troot (Tree m ts) # ms) t ms' u"
      "t' \<in> set (tkids (Tree m ts))" "occurs (troot (Tree m ts) # ms) t' ms'' v"
    then have "troot u \<in> set (tnodes t)" "troot u \<in> set (tnodes t')" using inside Tree.prems(4) by fastforce+
    then have "t = t'" using t(1,3) d(1) by (auto simp: distinct_below)
    then show ?thesis using Tree.IH [of t "m # ms"] t Tree.prems(4) d(1) by (auto simp: distinct_below)
  qed auto
qed

section \<open>The tree of the server\<close>

definition tree_ok :: "('m, 'r, 'f) server \<Rightarrow> tree \<Rightarrow> bool" where
  "tree_ok s T \<longleftrightarrow> seated s [] T \<and> (\<forall>n\<in>set (tnodes T). n < v_fresh s) \<and> v_root s = troot T"

lemma tree_ok_seated: "tree_ok s T \<Longrightarrow> occurs [] T ms t \<Longrightarrow> seated s ms t"
  by (auto simp: tree_ok_def intro: occurs_seated)

lemma fresh_bound: "distinct xs \<Longrightarrow> \<forall>n\<in>set xs. n < (k :: nat) \<Longrightarrow> length xs \<le> k"
  using card_mono [of "{..<k}" "set xs"] by (auto simp: distinct_card)

text \<open>Changing one node and what is below it.\<close>

lemma tree_ok_graft:
  assumes "tree_ok s T" "occurs [] T ms u" "troot u = troot r" "seated s' ms r" "node_frame X s s0" "v_nodes s' = v_nodes s0"
    "v_root s' = v_root s" "v_fresh s' \<ge> v_fresh s" "X \<inter> set (tnodes T) \<subseteq> set (tnodes u)"
    "set (tnodes r) \<inter> set (tnodes T) \<subseteq> set (tnodes u)" "\<forall>n\<in>set (tnodes r). n < v_fresh s'"
    "length (tnodes (graft r T)) < 2 ^ 31"
  shows "tree_ok s' (graft r T) \<and> set (tnodes (graft r T)) = (set (tnodes T) - set (tnodes u)) \<union> set (tnodes r)"
proof -
  have T: "shaped (v_nodes s) [] T" "distinct (tnodes T)" "\<forall>n\<in>set (tnodes T). n < v_fresh s" "v_root s = troot T"
    using assms(1) by (simp_all add: tree_ok_def seated_def)
  have r: "shaped (v_nodes s') ms r" "distinct (tnodes r)" using assms(4) by (simp_all add: seated_def)
  have uniq: "X \<inter> set (tnodes T) \<subseteq> set (tnodes t) \<and> shaped (v_nodes s') ms' r" if "occurs [] T ms' t" "troot t = troot r" for ms' t
  proof -
    have "ms' = ms \<and> t = u"
    proof -
      have l: "line (v_nodes s) (troot u) ms" "line (v_nodes s) (troot u) ms'"
        using tree_ok_seated [OF assms(1,2)] tree_ok_seated [OF assms(1) that(1)] that(2) assms(3) by (auto simp: seated_def placed_def)
      show ?thesis using line_unique [OF l] occurs_unique [OF T(2) assms(2) that(1)] that(2) assms(3) by simp
    qed
    then show ?thesis using assms(9) r(1) by simp
  qed
  have cores: "shape_of (v_nodes s' m) = shape_of (v_nodes s m)" if "m \<notin> X" for m
    using assms(5,6) that core_shape by (auto simp: node_frame_def nd_def)
  have sh: "shaped (v_nodes s') [] (graft r T)"
  proof (rule shaped_graft [OF T(1,2) _ _ uniq])
    show "d_name (v_nodes s' m) = d_name (v_nodes s m)" for m using assms(5,6) by (simp add: node_frame_def nd_def)
    show "troot r \<in> set (tnodes T)" using occurs_nodes [OF assms(2)] tnodes_root [of u] assms(3) by auto
  qed (use cores in auto)
  note g = graft_nodes [OF T(2) assms(2,3) r(2) assms(10)]
  have fr: "\<forall>n\<in>set (tnodes (graft r T)). n < v_fresh s'"
    using g T(3) assms(8,11) by auto
  have "placed s' (troot (graft r T)) []"
    using sh by (cases "graft r T") (simp add: placed_def nd_def)
  moreover have "length (tnodes (graft r T)) \<le> v_fresh s'" using fresh_bound [OF _ fr] g by blast
  moreover have "v_root s' = troot (graft r T)" using assms(7) T(4) by simp
  ultimately show ?thesis
    unfolding tree_ok_def seated_def using sh g fr assms(12) by simp
qed

end
