(* ===== verification/Node_Grow.thy ===== *)
theory Node_Grow
  imports Node_Place
begin

text \<open>
  Removal from the tree of the server and new nodes in it: a new child, the search for an unused name,
  insertion with an entry in the ordered index.
\<close>

section \<open>Removal\<close>

lemma shrink_length:
  assumes "distinct ys" "set ys \<subseteq> set xs" "distinct xs"
  shows "length ys \<le> length xs"
  using card_mono [OF _ assms(2)] assms(1,3) by (simp add: distinct_card)

lemma RemoveChild_tree:
  assumes "steady E s" "tree_ok s T" "occurs [] T ms (Tree p (ts1 @ t # ts2))" "2 * length (tnodes t) \<le> fuel"
  shows "\<exists>s'. RemoveChild fuel E p (d_name (nd s (troot t))) nt True cnt s = Ret (B_NO_ERROR, lessened cnt (length (tnodes t)), s') \<and>
    tree_ok s' (graft (Tree p (ts1 @ ts2)) T) \<and>
    set (tnodes (graft (Tree p (ts1 @ ts2)) T)) = set (tnodes T) - set (tnodes t) \<and>
    node_frame (insert p (set (tnodes t))) s s' \<and> tree_part (nd s' p) = tree_part (without (troot t) (nd s p)) \<and>
    seated s' ms (Tree p (ts1 @ ts2))"
proof -
  obtain c cs where t: "t = Tree c cs" by (cases t)
  obtain g where g: "fuel = Suc g" "g > 2 * length (below cs)" using assms(4) t by (cases fuel) auto
  have seat: "seated s ms (Tree p (ts1 @ t # ts2))" by (rule tree_ok_seated [OF assms(2,3)])
  have kid: "seated s (p # ms) (Tree c cs)" using seated_child [OF seat, of t] t by simp
  obtain s1 K I where s1: "remove_children g E c nt cnt s = Ret (lessened cnt (length (below cs)), s1)"
    "node_frame (insert c (set (below cs))) s s1" "tree_part (nd s1 c) = tree_part ((nd s c)\<lparr>d_children := K, d_index := I\<rparr>)"
    using remove_children_all [OF assms(1) kid g(2)] by blast
  obtain s' where s': "RemoveChild fuel E p (d_name (nd s (troot t))) nt True cnt s = Ret (B_NO_ERROR, lessened cnt (length (tnodes t)), s')"
    "node_frame (insert p (set (tnodes t))) s s'" "tree_part (nd s' p) = tree_part (without (troot t) (nd s p))" "seated s' ms (Tree p (ts1 @ ts2))"
    using remove_emptied [OF assms(1) seat, of s1 I K True g nt cnt "lessened cnt (length (below cs))"] s1 t g(1)
    by (auto simp: lessened_simps)
  obtain r where r: "r = Tree p (ts1 @ ts2)" by simp
  have d: "distinct (tnodes T)" "distinct (tnodes (Tree p (ts1 @ t # ts2)))" "distinct (tnodes r)"
    using assms(2) seat s'(4) r by (simp_all add: tree_ok_def seated_def)
  have sub: "set (tnodes r) \<inter> set (tnodes T) \<subseteq> set (tnodes (Tree p (ts1 @ t # ts2)))" by (auto simp: r)
  note gn = graft_nodes [OF d(1) assms(3) _ d(3) sub]
  have set: "set (tnodes (graft r T)) = set (tnodes T) - set (tnodes t)" "distinct (tnodes (graft r T))"
    using gn d(2) occurs_nodes [OF assms(3)] by (auto simp: r)
  have "length (tnodes (graft r T)) \<le> length (tnodes T)" using shrink_length [OF set(2) _ d(1)] set(1) by blast
  then have len: "length (tnodes (graft r T)) < 2 ^ 31" using assms(2) by (simp add: tree_ok_def seated_def)
  have fr: "v_fresh s' = v_fresh s" "v_root s' = v_root s" using s'(2) by (simp_all add: node_frame_def)
  have "tree_ok s' (graft r T)"
    using tree_ok_graft [OF assms(2,3) _ s'(4) [folded r] s'(2) refl fr(2) _ _ sub _ len] occurs_nodes [OF assms(3)] assms(2) fr(1)
    by (auto simp: r tree_ok_def)
  then show ?thesis using s' set by (auto simp: r)
qed

section \<open>A new child\<close>

lemma seated_new:
  assumes "seated s ms (Tree p ts)" "new \<notin> set (ms @ tnodes (Tree p ts))"
    "kids_of (nd s new) = []" "index_of (nd s new) = []" "d_name (nd s new) \<notin> set (map (\<lambda>t. d_name (nd s (troot t))) ts)"
    "length ms + length (tnodes (Tree p ts)) + 1 < 2 ^ 31" "length ms + length (tnodes (Tree p ts)) + 1 \<le> v_fresh s"
    "node_frame {p, new} s s'" "tree_part (nd s' p) = tree_part ((nd s p)\<lparr>d_children := Some (kids_of (nd s p) @ [(new, new)])\<rparr>)"
    "tree_part (nd s' new) = tree_part ((nd s new)\<lparr>d_parent := Some p, d_depth := of_nat (Suc (length ms))\<rparr>)"
  shows "seated s' ms (Tree p (ts @ [Tree new []]))"
proof -
  have names: "d_name (v_nodes s' m) = d_name (v_nodes s m)" for m using assms(8) by (simp add: node_frame_def nd_def)
  have sh: "shaped (v_nodes s) ms (Tree p ts)" "placed s p ms" "distinct (ms @ tnodes (Tree p ts))"
    using assms(1) by (simp_all add: seated_def)
  have fp: "d_parent (nd s' p) = d_parent (nd s p)" "d_depth (nd s' p) = d_depth (nd s p)"
    "kids_of (nd s' p) = kids_of (nd s p) @ [(new, new)]" "index_of (nd s' p) = index_of (nd s p)"
    using assms(9) by (simp_all add: core_eq_iff kids_of_def index_of_def)
  have fn: "d_parent (nd s' new) = Some p" "d_depth (nd s' new) = of_nat (Suc (length ms))" "kids_of (nd s' new) = []" "index_of (nd s' new) = []"
    using assms(3,4,10) by (simp_all add: core_eq_iff kids_of_def index_of_def)
  have kids: "shaped (v_nodes s') (p # ms) t" if "t \<in> set ts" for t
  proof (rule shaped_frame [OF _ assms(8)])
    show "shaped (v_nodes s) (p # ms) t" using sh(1) that by simp
    show "set (tnodes t) \<inter> {p, new} = {}" using sh(3) assms(2) that by (auto simp: set_below)
  qed
  have new: "shaped (v_nodes s') (p # ms) (Tree new [])"
    using fn by (simp add: nd_def index_ok_def)
  have "shaped (v_nodes s') ms (Tree p (ts @ [Tree new []]))"
    using sh(1) fp kids new names assms(5) by (auto simp: nd_def index_ok_def)
  moreover have "placed s' p ms"
    by (rule placed_frame [OF sh(2) assms(8)]) (use sh(3) assms(2) fp in auto)
  ultimately show ?thesis
    using sh(3) assms(2,6-8) by (auto simp: seated_def node_frame_def)
qed

lemma PutChild_new:
  assumes "steady E s" "seated s ms (Tree p ts)" "new \<notin> set (ms @ tnodes (Tree p ts))"
    "kids_of (nd s new) = []" "index_of (nd s new) = []" "d_name (nd s new) \<notin> set (map (\<lambda>t. d_name (nd s (troot t))) ts)"
    "length ms + length (tnodes (Tree p ts)) + 1 < 2 ^ 31" "length ms + length (tnodes (Tree p ts)) + 1 \<le> v_fresh s"
  shows "\<exists>s'. PutChild E p new nt1 nt2 s = Ret (B_NO_ERROR, s') \<and> node_frame {p, new} s s' \<and>
    tree_part (nd s' p) = tree_part ((nd s p)\<lparr>d_children := Some (kids_of (nd s p) @ [(new, new)])\<rparr>) \<and>
    tree_part (nd s' new) = tree_part ((nd s new)\<lparr>d_parent := Some p, d_depth := of_nat (Suc (length ms))\<rparr>) \<and>
    seated s' ms (Tree p (ts @ [Tree new []]))"
proof -
  have pn: "p \<noteq> new" using assms(3) by auto
  have A: "x_alloc E k" for k using assms(1) by (simp add: steady_def)
  obtain s0 where s0: "s0 = (if d_children (nd s p) = None then snd (request E s) else s)" by simp
  have rq: "(if d_children (nd s p) = None then request E s else (True, s)) = (True, s0)"
    using A by (simp add: s0 prod_eq_iff)
  obtain s1 where s1: "s1 = set_nd p (\<lambda>d. d\<lparr>d_children := Some (case d_children d of Some kids \<Rightarrow> kids | None \<Rightarrow> [])\<rparr>) s0" by simp
  have f1: "node_frame {p} s s1"
    unfolding s1 by (rule frame_trans [OF frame_same [of s s0 "{}"] frame_set_nd]) (auto simp: s0)
  have n1: "nd s1 p = (nd s p)\<lparr>d_children := Some (kids_of (nd s p))\<rparr>" "nd s1 new = nd s new"
    using pn by (auto simp: s1 s0 kids_of_def split: option.split)
  have p1: "placed s1 p ms"
  proof (rule placed_frame [OF _ f1])
    show "placed s p ms" "set ms \<inter> {p} = {}" using assms(2) by (auto simp: seated_def)
  qed (simp add: n1)
  obtain s2 where s2: "s2 = set_nd new (\<lambda>d. d\<lparr>d_depth := 0\<rparr>) (set_nd new (\<lambda>d. d\<lparr>d_parent := Some p\<rparr>) s1)" by simp
  obtain s3 where s3: "s3 = set_nd new (\<lambda>d. d\<lparr>d_depth := of_nat (Suc (length ms))\<rparr>) s2" by simp
  have f3: "node_frame {p, new} s s3"
  proof -
    have "node_frame {new} s1 s2" unfolding s2 by (rule frame_trans [OF frame_set_nd frame_set_nd]) auto
    moreover have "node_frame {new} s2 s3" unfolding s3 by (rule frame_set_nd) simp
    ultimately have "node_frame {new} s1 s3" by (rule frame_trans) simp
    with f1 show ?thesis by (rule frame_trans) auto
  qed
  have bounds: "Suc (length ms) < 2 ^ 31" "Suc (length ms) \<le> v_fresh s" using assms(7,8) by simp_all
  have n3: "nd s3 p = (nd s p)\<lparr>d_children := Some (kids_of (nd s p))\<rparr>"
    "nd s3 new = (nd s new)\<lparr>d_parent := Some p, d_depth := of_nat (Suc (length ms))\<rparr>"
    using pn n1 by (simp_all add: s3 s2)
  have p3: "placed s3 p ms"
  proof (rule placed_frame [OF _ f3])
    show "placed s p ms" using assms(2) by (simp add: seated_def)
    show "set ms \<inter> {p, new} = {}" using assms(2,3) by (auto simp: seated_def)
  qed (simp add: n3)
  have pnew: "placed s3 new (p # ms)"
    using p3 bounds n3(2) f3 by (simp add: placed_def nd_def node_frame_def)
  have "line (v_nodes s2) new (p # ms) = line (v_nodes s3) new (p # ms)"
    by (rule line_cong) (simp add: s3 set_nd_def)
  then have "up_chain (v_nodes s2) (v_fresh s2) new = Ret (butlast (new # p # ms))"
    using pnew f3 by (intro up_chain_line) (auto simp: placed_def s3 set_nd_def)
  then obtain ch where anc: "ancestry s2 new = Ret ch" "length ch = Suc (length ms)" by (simp add: ancestry_def)
  obtain s4 where s4: "SetParent E new (Some p) nt1 s1 = Ret s4" "same_tree s3 s4"
  proof (cases nt1)
    case None
    then show ?thesis using that [of s3] anc by (simp add: SetParent_def Let_def s2 [symmetric] s3 [symmetric] del: of_nat_Suc)
  next
    case (Some this)
    obtain s4 where "NotifySubscribersOfNewNode E new s3 = Ret s4" "same_tree s3 s4"
      using NotifySubscribersOfNewNode_returns [OF pnew, of E] by (auto simp: returns_def)
    then show ?thesis using that [of s4] anc Some by (simp add: SetParent_def Let_def s2 [symmetric] s3 [symmetric] del: of_nat_Suc)
  qed
  have f4: "node_frame {p, new} s s4" by (rule frame_trans [OF f3 frame_same [OF s4(2), of "{}"]]) simp
  have names: "d_name (nd s' m) = d_name (nd s m)" if "node_frame {p, new} s s'" for s' m using that by (simp add: node_frame_def)
  have c4: "tree_part (nd s4 p) = tree_part (nd s3 p)" "tree_part (nd s4 new) = tree_part (nd s3 new)" using s4(2) by (simp_all add: same_tree_def)
  have kids: "kids_of (nd s p) = map (\<lambda>t. (troot t, troot t)) ts" using assms(2) by (simp add: seated_def nd_def)
  have d4: "d_children (nd s4 p) = Some (kids_of (nd s p))" using c4(1) by (simp add: core_eq_iff n3)
  obtain s5 where s5: "s5 = snd (request E s4)" by simp
  have rq5: "request E s4 = (True, s5)" using A by (simp add: s5 prod_eq_iff)
  have f5: "node_frame {p, new} s s5" by (rule frame_trans [OF f4 frame_same [of s4 s5 "{}"]]) (simp_all add: s5)
  have none: "find_child (v_nodes s') (kids_of (nd s p)) (d_name (nd s' new)) = None" if "node_frame {p, new} s s'" for s'
  proof -
    have "d_name (nd s (troot t)) \<noteq> d_name (nd s new)" if "t \<in> set ts" for t
    proof -
      have "d_name (nd s (troot t)) \<in> set (map (\<lambda>t. d_name (nd s (troot t))) ts)" using that by simp
      with assms(6) show ?thesis by metis
    qed
    then have "\<forall>t\<in>set ts. d_name (nd s' (troot t)) \<noteq> d_name (nd s' new)" using names [OF that] by simp
    then show ?thesis unfolding find_child_def kids by (auto simp: find_None_iff nd_def)
  qed
  have "GetChild s4 p (d_name (nd s4 new)) = None" using none [OF f4] by (simp add: GetChild_def d4)
  moreover have "put_child_item (v_nodes s5) new (kids_of (nd s p)) = kids_of (nd s p) @ [(new, new)]"
    using none [OF f5] by (simp add: put_child_item_def nd_def)
  moreover obtain s6 where s6: "s6 = set_nd p (\<lambda>d. d\<lparr>d_children := map_option (put_child_item (v_nodes s5) new) (d_children d)\<rparr>) s5"
    by simp
  ultimately have n6: "tree_part (nd s6 p) = tree_part ((nd s p)\<lparr>d_children := Some (kids_of (nd s p) @ [(new, new)])\<rparr>)"
    "tree_part (nd s6 new) = tree_part ((nd s new)\<lparr>d_parent := Some p, d_depth := of_nat (Suc (length ms))\<rparr>)"
    using c4 n3 pn d4 by (simp_all add: s5 core_eq_iff)
  have f6: "node_frame {p, new} s s6" unfolding s6 by (rule frame_trans [OF f5 frame_set_nd]) auto
  have pos: "d_parent (nd s6 m) = d_parent (nd s3 m) \<and> d_depth (nd s6 m) = d_depth (nd s3 m)" for m
    using s4(2) by (cases "m = p") (simp_all add: s6 s5 same_treeD)
  have p6: "placed s6 new (p # ms)"
    using pnew placed_cong [of s6 s3, OF pos] f3 f6 by (simp add: node_frame_def)
  obtain s7 where s7: "(case nt2 of None \<Rightarrow> Ret s6 | Some this \<Rightarrow> NotifySubscribersThatNodeChanged E this new None False s6) = Ret s7"
    "same_tree s6 s7"
  proof (cases nt2)
    case (Some this)
    then show ?thesis
      using that NotifySubscribersThatNodeChanged_returns [OF steady_frame [OF f6 assms(1)] p6, of this None False]
      by (auto simp: returns_def)
  qed (use that [of s6] in simp)
  have f7: "node_frame {p, new} s s7" by (rule frame_trans [OF f6 frame_same [OF s7(2), of "{}"]]) simp
  have n7: "tree_part (nd s7 p) = tree_part ((nd s p)\<lparr>d_children := Some (kids_of (nd s p) @ [(new, new)])\<rparr>)"
    "tree_part (nd s7 new) = tree_part ((nd s new)\<lparr>d_parent := Some p, d_depth := of_nat (Suc (length ms))\<rparr>)"
    using n6 s7(2) by (simp_all add: same_tree_def)
  have "PutChild E p new nt1 nt2 s = Ret (B_NO_ERROR, s7)"
    using s7(1) \<open>GetChild s4 p (d_name (nd s4 new)) = None\<close>
    by (cases nt2) (simp_all add: PutChild_def rq Let_def s1 [symmetric] s4(1) rq5 s6 [symmetric])
  then show ?thesis using f7 n7 seated_new [OF assms(2-8) f7 n7] by blast
qed

end
