(* ===== verification/Node_Insert.thy ===== *)
theory Node_Insert
  imports Node_Grow
begin

text \<open>
  Children in the ordered index: the search for an unused name ends, and insertion puts the new child
  where the caller wants it.
\<close>

section \<open>Unused names\<close>

definition digit_value :: "string \<Rightarrow> nat" where
  "digit_value s = foldl (\<lambda>v c. 10 * v + (of_char c - 48)) 0 s"

lemma digit_char: "d < 10 \<Longrightarrow> of_char (char_of (48 + d) :: char) = (48 + d :: nat)"
  by simp

lemma digit_value_decimal: "digit_value (decimal n) = n"
proof (induction n rule: decimal.induct)
  case (1 n)
  show ?case
  proof (cases "n < 10")
    case True
    then show ?thesis by (simp add: decimal.simps [of n] digit_value_def)
  next
    case False
    then have "digit_value (decimal (n div 10)) = n div 10" using 1 by simp
    then have "foldl (\<lambda>v c. 10 * v + (of_char c - 48)) 0 (decimal (n div 10)) = n div 10" by (simp add: digit_value_def)
    then show ?thesis using False by (simp add: decimal.simps [of n] digit_value_def)
  qed
qed

lemma decimal_inject [simp]: "decimal m = decimal n \<longleftrightarrow> m = n"
  by (metis digit_value_decimal)

definition counter_name :: "u32 \<Rightarrow> string" where
  "counter_name c = CHR ''I'' # decimal (unat c)"

lemma counter_name_inject [simp]: "counter_name c = counter_name d \<longleftrightarrow> c = d"
  by (simp add: counter_name_def word_unat_eq_iff)

lemma counter_name_index: "starts_with_I (counter_name c)" "length (counter_name c) \<le> 80"
  using decimal_u32 [of c] by (simp_all add: counter_name_def starts_with_I_def)

lemma HasChild_counter: "HasChild (set_nd m (\<lambda>d. d\<lparr>d_counter := f d\<rparr>) s) n key = HasChild s n key"
proof -
  have "find_child (v_nodes (set_nd m (\<lambda>d. d\<lparr>d_counter := f d\<rparr>) s)) kids key = find_child (v_nodes s) kids key" for kids
    unfolding find_child_def by (rule arg_cong2 [where f = find]) (auto simp: set_nd_def)
  then show ?thesis by (cases "d_children (nd s n)") (auto simp: HasChild_def)
qed

lemma unused_name_search:
  "unused_name fuel n s = NoFuel \<and> (\<forall>i<fuel. HasChild s n (counter_name (d_counter (nd s n) + of_nat i))) \<or>
   (\<exists>c. unused_name fuel n s = Ret (counter_name c, set_nd n (\<lambda>d. d\<lparr>d_counter := c + 1\<rparr>) s) \<and> \<not> HasChild s n (counter_name c))"
proof (induction fuel arbitrary: s)
  case (Suc f)
  obtain c where c: "c = d_counter (nd s n)" by simp
  obtain s1 where s1: "s1 = set_nd n (\<lambda>d. d\<lparr>d_counter := d_counter d + 1\<rparr>) s" by simp
  have has: "HasChild s1 n key = HasChild s n key" for key by (simp add: s1 HasChild_counter)
  have c1: "d_counter (nd s1 n) = c + 1" by (simp add: s1 c)
  have over: "set_nd n (\<lambda>d. d\<lparr>d_counter := e + 1\<rparr>) s1 = set_nd n (\<lambda>d. d\<lparr>d_counter := e + 1\<rparr>) s" for e
    by (simp add: s1 set_nd_def)
  have step: "unused_name (Suc f) n s = (if HasChild s n (counter_name c) then unused_name f n s1 else Ret (counter_name c, s1))"
    by (simp add: Let_def s1 [symmetric] counter_name_def has [of "CHR ''I'' # _", symmetric] c)
  show ?case
  proof (cases "HasChild s n (counter_name c)")
    case False
    then show ?thesis unfolding step by (auto simp: s1 c set_nd_def nd_def)
  next
    case True
    from Suc.IH [of s1] show ?thesis
    proof (elim disjE exE conjE)
      assume a: "unused_name f n s1 = NoFuel" "\<forall>i<f. HasChild s1 n (counter_name (d_counter (nd s1 n) + of_nat i))"
      have "HasChild s n (counter_name (c + of_nat i))" if "i < Suc f" for i
        using a(2) that True by (cases i) (auto simp: has c1 add.assoc)
      then show ?thesis unfolding step using a(1) True by (simp add: c)
    next
      fix e assume "unused_name f n s1 = Ret (counter_name e, set_nd n (\<lambda>d. d\<lparr>d_counter := e + 1\<rparr>) s1)" "\<not> HasChild s1 n (counter_name e)"
      then show ?thesis unfolding step using True has over by auto
    qed
  qed
qed simp

lemma HasChild_kids: "HasChild s n key \<longleftrightarrow> key \<in> (\<lambda>(k, c). d_name (nd s k)) ` set (kids_of (nd s n))"
proof -
  have "find (\<lambda>(k, c). d_name (v_nodes s k) = key) kids \<noteq> None \<longleftrightarrow> key \<in> (\<lambda>(k, c). d_name (v_nodes s k)) ` set kids" for kids
    by (induction kids) auto
  then show ?thesis
    by (cases "d_children (nd s n)") (simp_all add: HasChild_def find_child_def kids_of_def nd_def del: not_None_eq)
qed

text \<open>With more rounds than children the search ends.\<close>

lemma unused_name_returns:
  assumes "length (kids_of (nd s n)) < fuel" "fuel \<le> 2 ^ 32"
  shows "\<exists>c. unused_name fuel n s = Ret (counter_name c, set_nd n (\<lambda>d. d\<lparr>d_counter := c + 1\<rparr>) s) \<and> \<not> HasChild s n (counter_name c)"
proof (rule ccontr)
  assume "\<not> ?thesis"
  then have all: "\<forall>i<fuel. HasChild s n (counter_name (d_counter (nd s n) + of_nat i))" using unused_name_search [of fuel n s] by blast
  obtain g where g: "g = (\<lambda>i :: nat. counter_name (d_counter (nd s n) + of_nat i))" by simp
  have "inj_on g {..<fuel}"
  proof (rule inj_onI)
    fix i j assume "i \<in> {..<fuel}" "j \<in> {..<fuel}" "g i = g j"
    then have "(of_nat i :: u32) = of_nat j" "i < 2 ^ 32" "j < 2 ^ 32" using assms(2) by (simp_all add: g)
    then show "i = j" by (metis unat_of_nat_u32)
  qed
  then have "card (g ` {..<fuel}) = fuel" by (simp add: card_image)
  moreover have "g ` {..<fuel} \<subseteq> (\<lambda>(k, c). d_name (nd s k)) ` set (kids_of (nd s n))" using all by (auto simp: HasChild_kids g)
  then have "card (g ` {..<fuel}) \<le> card (set (kids_of (nd s n)))"
    by (meson List.finite_set card_image_le card_mono finite_imageI le_trans)
  ultimately show False using assms(1) card_length [of "kids_of (nd s n)"] by linarith
qed

section \<open>Insertion\<close>

lemma seated_cong:
  assumes "seated s ms t" "\<And>m. m \<in> set (ms @ tnodes t) \<Longrightarrow> shape_of (nd s' m) = shape_of (nd s m)" "v_fresh s \<le> v_fresh s'"
  shows "seated s' ms t"
proof -
  have "shaped (v_nodes s') ms t = shaped (v_nodes s) ms t"
    by (rule shaped_cong) (use assms(2) in \<open>simp add: nd_def\<close>)
  moreover have "line (v_nodes s') (troot t) ms = line (v_nodes s) (troot t) ms"
    by (rule line_cong) (use assms(2) tnodes_root in \<open>auto simp: nd_def shape_of_def\<close>)
  moreover have "d_depth (nd s' (troot t)) = d_depth (nd s (troot t))" using assms(2) [of "troot t"] by (simp add: shape_of_def)
  ultimately show ?thesis using assms(1,3) by (auto simp: seated_def placed_def)
qed

lemma seated_same:
  assumes "same_tree s s'" "seated s ms t"
  shows "seated s' ms t"
proof (rule seated_cong [OF assms(2)])
  show "shape_of (nd s' m) = shape_of (nd s m)" for m
    using assms(1) by (intro core_shape) (simp add: same_tree_def)
qed (use assms(1) in \<open>simp add: same_tree_def\<close>)

lemma seated_index:
  assumes "seated s ms (Tree p us)" "index_ok (v_nodes s) ix (map troot us)"
  shows "seated (set_nd p (\<lambda>d. d\<lparr>d_index := Some ix\<rparr>) s) ms (Tree p us)"
proof -
  obtain s' where s': "s' = set_nd p (\<lambda>d. d\<lparr>d_index := Some ix\<rparr>) s" by simp
  have f: "node_frame {p} s s'" unfolding s' by (rule frame_set_nd) simp
  have d: "distinct (ms @ tnodes (Tree p us))" "placed s p ms" using assms(1) by (simp_all add: seated_def)
  have "shaped (v_nodes s') (p # ms) u" if "u \<in> set us" for u
    using assms(1) d(1) that by (intro shaped_frame [OF _ f]) (auto simp: seated_def set_below)
  moreover have "v_nodes s' p = (v_nodes s p)\<lparr>d_index := Some ix\<rparr>" by (simp add: s' set_nd_def)
  moreover have "d_name (v_nodes s' m) = d_name (v_nodes s m)" for m using f by (simp add: node_frame_def nd_def)
  ultimately have "shaped (v_nodes s') ms (Tree p us)"
    using assms by (simp add: seated_def kids_of_def index_of_def index_ok_def)
  moreover have "placed s' p ms" by (rule placed_frame [OF d(2) f]) (use d(1) in \<open>auto simp: s'\<close>)
  ultimately show ?thesis using assms(1) f by (simp add: seated_def node_frame_def s' [symmetric])
qed

lemma insert_position_alt: "insert_position s p before =
    (case before of
       None \<Rightarrow> length (index_of (nd s p))
     | Some b \<Rightarrow> if starts_with_I b
         then (case last_position (v_nodes s) (index_of (nd s p)) b of Some i \<Rightarrow> i | None \<Rightarrow> length (index_of (nd s p)))
         else length (index_of (nd s p)))"
  by (simp add: insert_position_def index_of_def Let_def split: option.split)

lemma last_position_bound: "last_position ns index b = Some i \<Longrightarrow> i < length index"
  by (auto simp: last_position_def dest!: find_SomeD)

lemma insert_position_bound: "insert_position s p before \<le> length (index_of (nd s p))"
  using last_position_bound [of "v_nodes s" "index_of (nd s p)"]
  by (auto simp: insert_position_alt less_imp_le split: option.split)

lemma insert_position_found:
  assumes "before = Some b" "starts_with_I b" "\<exists>m\<in>set (index_of (nd s p)). d_name (nd s m) = b"
  shows "insert_position s p before < length (index_of (nd s p)) \<and> d_name (nd s (index_of (nd s p) ! insert_position s p before)) = b"
proof -
  have "last_position (v_nodes s) (index_of (nd s p)) b \<noteq> None"
    using assms(3) by (auto simp: last_position_def find_None_iff nd_def in_set_conv_nth)
  then obtain i where i: "last_position (v_nodes s) (index_of (nd s p)) b = Some i" by blast
  then have "i < length (index_of (nd s p)) \<and> d_name (nd s (index_of (nd s p) ! i)) = b"
    by (auto simp: last_position_def nd_def dest!: find_SomeD)
  then show ?thesis using assms(1,2) i by (simp add: insert_position_alt)
qed

lemma last_position_cong:
  assumes "\<And>m. m \<in> set index \<Longrightarrow> d_name (ns' m) = d_name (ns m)"
  shows "last_position ns' index b = last_position ns index b"
  unfolding last_position_def by (rule find_cong) (use assms in auto)

lemma set_insert_at [simp]: "set (insert_at i x xs) = insert x (set xs)"
proof -
  have "set (take i xs) \<union> set (drop i xs) = set xs" by (metis append_take_drop_id set_append)
  then show ?thesis by (auto simp: insert_at_def)
qed

lemma distinct_insert_at: "x \<notin> set xs \<Longrightarrow> distinct xs \<Longrightarrow> distinct (insert_at i x xs)"
  by (auto simp: insert_at_def distinct_take distinct_drop set_take_disj_set_drop_if_distinct dest: in_set_takeD in_set_dropD)

text \<open>The steps before the child is put: an index, a name, a node.\<close>

lemma prepare_insertion:
  assumes "steady E s"
    "case optNodeName of None \<Rightarrow> length (kids_of (nd s p)) < fuel \<and> fuel \<le> 2 ^ 32
      | Some nm \<Rightarrow> starts_with_I nm \<and> length nm \<le> 80 \<and> \<not> HasChild s p nm"
    "p < v_fresh s"
  shows "\<exists>sa nm sb sc. need_index E p s = (True, sa) \<and>
    (case optNodeName of Some name \<Rightarrow> Ret (name, sa) | None \<Rightarrow> unused_name fuel p sa) = Ret (nm, sb) \<and>
    GetNewDataNode E nm data sb = (Some (v_fresh s), sc) \<and>
    starts_with_I nm \<and> length nm \<le> 80 \<and> \<not> HasChild s p nm \<and> (\<forall>name. optNodeName = Some name \<longrightarrow> nm = name) \<and>
    (\<forall>m. m \<noteq> p \<longrightarrow> m \<noteq> v_fresh s \<longrightarrow> nd sc m = nd s m) \<and>
    (\<exists>c. nd sc p = (nd s p)\<lparr>d_index := Some (index_of (nd s p)), d_counter := c\<rparr>) \<and>
    nd sc (v_fresh s) = Init nm data DataNode_new \<and> v_fresh sc = Suc (v_fresh s) \<and> v_root sc = v_root s \<and> v_sessions sc = v_sessions s"
proof -
  have A: "x_alloc E k" for k using assms(1) by (simp add: steady_def)
  obtain sa where sa: "need_index E p s = (True, sa)" "nd sa p = (nd s p)\<lparr>d_index := Some (index_of (nd s p))\<rparr>"
    "\<forall>m. m \<noteq> p \<longrightarrow> nd sa m = nd s m" "v_fresh sa = v_fresh s" "v_root sa = v_root s" "v_sessions sa = v_sessions s"
  proof (cases "d_index (nd s p)")
    case None
    then show ?thesis
      using that [of "set_nd p (\<lambda>d. d\<lparr>d_index := Some []\<rparr>) (snd (request E s))"] A
      by (simp add: need_index_def request_def index_of_def Let_def) (simp add: set_nd_def)
  next
    case (Some ix)
    then show ?thesis using that [of s] by (simp add: need_index_def index_of_def)
  qed
  have names: "d_name (nd sa m) = d_name (nd s m)" for m using sa(2,3) by (cases "m = p") simp_all
  have kids: "kids_of (nd sa p) = kids_of (nd s p)" using sa(2) by (simp add: kids_of_def)
  have has: "HasChild sa p key = HasChild s p key" for key by (simp add: HasChild_kids kids names)
  obtain nm sb where sb: "(case optNodeName of Some name \<Rightarrow> Ret (name, sa) | None \<Rightarrow> unused_name fuel p sa) = Ret (nm, sb)"
    "starts_with_I nm" "length nm \<le> 80" "\<not> HasChild s p nm" "\<forall>name. optNodeName = Some name \<longrightarrow> nm = name"
    "\<exists>c. sb = set_nd p (\<lambda>d. d\<lparr>d_counter := c\<rparr>) sa"
  proof (cases optNodeName)
    case None
    then obtain c where "unused_name fuel p sa = Ret (counter_name c, set_nd p (\<lambda>d. d\<lparr>d_counter := c + 1\<rparr>) sa)"
      "\<not> HasChild sa p (counter_name c)"
      using unused_name_returns [of sa p fuel] assms(2) kids by auto
    then show ?thesis using that [of "counter_name c"] None counter_name_index has by auto
  next
    case (Some name)
    have ex: "\<exists>c. sa = set_nd p (\<lambda>d. d\<lparr>d_counter := c\<rparr>) sa"
      by (rule exI [of _ "d_counter (nd sa p)"]) (simp add: set_nd_def nd_def)
    show ?thesis by (rule that [of name sa, OF _ _ _ _ _ ex]) (use Some assms(2) in auto)
  qed
  obtain c where c: "sb = set_nd p (\<lambda>d. d\<lparr>d_counter := c\<rparr>) sa" using sb(6) by blast
  have fb: "v_fresh sb = v_fresh s" using sa(4) by (simp add: c set_nd_def)
  have rb: "request E sb = (True, snd (request E sb))" using A by (simp add: prod_eq_iff)
  obtain sc where sc2: "sc = set_nd (v_fresh s) (\<lambda>_. Init nm data DataNode_new) (snd (request E sb))\<lparr>v_fresh := Suc (v_fresh s)\<rparr>"
    by simp
  have sc1: "GetNewDataNode E nm data sb = (Some (v_fresh s), sc)"
    unfolding GetNewDataNode_def by (subst rb) (simp add: sc2 fb)
  note sc = sc1 sc2
  have "nd sc p = (nd s p)\<lparr>d_index := Some (index_of (nd s p)), d_counter := c\<rparr>"
    using sa(2) assms(3) by (simp add: sc(2) c)
  moreover have "nd sc m = nd s m" if "m \<noteq> p" "m \<noteq> v_fresh s" for m
    using sa(3) that by (simp add: sc(2) c)
  moreover have "v_root sc = v_root s" "v_sessions sc = v_sessions s"
    using sa(5,6) by (simp_all add: sc(2) c) (simp_all add: set_nd_def request_def)
  ultimately show ?thesis
    using sa(1) sb(1-5) sc by (intro exI [of _ sa] exI [of _ nm] exI [of _ sb] exI [of _ sc]) auto
qed

lemma steady_sessions: "v_sessions s' = v_sessions s \<Longrightarrow> steady E s' = steady E s"
  by (simp add: steady_def)

lemma seated_distinct: "seated s ms (Tree p ts) \<Longrightarrow> distinct (ms @ p # below ts)"
  by (simp add: seated_def)

text \<open>The index entry is made, and the watchers are told.\<close>

lemma enter_index:
  assumes "steady E s" "seated s ms (Tree p us)" "d_index (nd s p) = Some ix" "t \<in> set us" "troot t = new" "new \<notin> set ix"
    "starts_with_I (d_name (nd s new))" "length (d_name (nd s new)) \<le> 80" "i \<le> length ix"
  shows "\<exists>se st np sf s'. insert_entry E p i new s = (True, se) \<and>
    (if want then GetNodePath E new 0 se else Ret (B_ERROR, [], se)) = Ret (st, np, sf) \<and>
    NotifySubscribersThatNodeIndexChanged E p INDEX_OP_ENTRYINSERTED (of_nat i) (d_name (nd s new)) sf = Ret s' \<and>
    seated s' ms (Tree p us) \<and> node_frame {p} s s' \<and> tree_part (nd s' p) = tree_part ((nd s p)\<lparr>d_index := Some (insert_at i new ix)\<rparr>) \<and>
    (if st = B_NO_ERROR then Some (np, new) else None) = (if want then Some (path_text 0 (names_down s new (p # ms)), new) else None)"
proof -
  have A: "x_alloc E k" for k using assms(1) by (simp add: steady_def)
  obtain s1 where s1: "s1 = snd (request E s)" by simp
  obtain se where se: "se = set_nd p (\<lambda>d. d\<lparr>d_index := Some (insert_at i new ix)\<rparr>) s1" by simp
  have ie: "insert_entry E p i new s = (True, se)"
    using A assms(3,9) by (simp add: insert_entry_def request_def Let_def s1 se)
  have f1: "node_frame {p} s s1" by (rule frame_same) (simp add: s1)
  have f: "node_frame {p} s se" unfolding se by (rule frame_trans [OF f1 frame_set_nd]) auto
  have ixok: "index_ok (v_nodes s) ix (map troot us)" using assms(2,3) by (simp add: seated_def index_of_def nd_def)
  have "index_ok (v_nodes s) (insert_at i new ix) (map troot us)"
    using ixok assms(4-8) distinct_insert_at [of new ix i] by (auto simp: index_ok_def nd_def)
  then have "index_ok (v_nodes s1) (insert_at i new ix) (map troot us)" by (simp add: s1)
  moreover have "seated s1 ms (Tree p us)" by (rule seated_same [OF _ assms(2)]) (simp add: s1)
  ultimately have seat: "seated se ms (Tree p us)" using seated_index se by blast
  have pl: "placed se p ms" "placed se new (p # ms)"
    using seat seated_child [OF seat assms(4)] assms(5) by (simp_all add: seated_def)
  obtain k st np where gp: "(if want then GetNodePath E new 0 se else Ret (B_ERROR, [], se)) = Ret (st, np, se\<lparr>v_allocs := k\<rparr>)"
    "if want then st = B_NO_ERROR \<and> np = path_text 0 (names_down se new (p # ms)) else st = B_ERROR"
  proof (cases want)
    case True
    then show ?thesis using that GetNodePath_placed [OF pl(2), of E 0] A by auto
  next
    case False
    then show ?thesis using that [of B_ERROR "[]" "v_allocs se"] by simp
  qed
  obtain sf where sf: "sf = se\<lparr>v_allocs := k\<rparr>" by simp
  have same: "same_tree se sf" by (simp add: sf)
  have st: "steady E sf" using steady_same [OF same steady_frame [OF f assms(1)]] .
  have psf: "placed sf p ms" using placed_same [OF same] pl(1) by simp
  obtain s' where s': "NotifySubscribersThatNodeIndexChanged E p INDEX_OP_ENTRYINSERTED (of_nat i) (d_name (nd s new)) sf = Ret s'" "same_tree sf s'"
    using NotifySubscribersThatNodeIndexChanged_returns [OF st psf assms(8)] by (auto simp: returns_def)
  have same': "same_tree se s'" by (rule same_tree_trans [OF same s'(2)])
  have "names_down se new (p # ms) = names_down s new (p # ms)" using f by (simp add: names_down_def node_frame_def)
  moreover have "node_frame {p} s s'" by (rule frame_trans [OF f frame_same [OF same', of "{}"]]) simp
  moreover have "tree_part (nd s' p) = tree_part ((nd s p)\<lparr>d_index := Some (insert_at i new ix)\<rparr>)"
    using same' by (simp add: same_tree_def se s1)
  ultimately show ?thesis
    using ie gp s'(1) seated_same [OF same' seat]
    by (intro exI [of _ se] exI [of _ st] exI [of _ np] exI [of _ sf] exI [of _ s']) (auto simp: sf)
qed

lemma InsertOrderedChild_new:
  assumes "steady E s" "seated s ms (Tree p ts)" "\<forall>m\<in>set (ms @ tnodes (Tree p ts)). m < v_fresh s"
    "length ms + length (tnodes (Tree p ts)) + 1 < 2 ^ 31"
    "case optNodeName of None \<Rightarrow> length ts < fuel \<and> fuel \<le> 2 ^ 32
      | Some nm \<Rightarrow> starts_with_I nm \<and> length nm \<le> 80 \<and> \<not> HasChild s p nm"
  shows "\<exists>nm s' c. InsertOrderedChild fuel E p data before optNodeName this nt want s =
      Ret (B_NO_ERROR, if want then Some (path_text 0 (names_down s' (v_fresh s) (p # ms)), v_fresh s) else None, s') \<and>
    starts_with_I nm \<and> \<not> HasChild s p nm \<and> (\<forall>name. optNodeName = Some name \<longrightarrow> nm = name) \<and>
    seated s' ms (Tree p (ts @ [Tree (v_fresh s) []])) \<and> v_fresh s' = Suc (v_fresh s) \<and> v_root s' = v_root s \<and>
    (\<forall>m. m \<noteq> p \<longrightarrow> m \<noteq> v_fresh s \<longrightarrow> tree_part (nd s' m) = tree_part (nd s m)) \<and>
    d_name (nd s' (v_fresh s)) = nm \<and> d_data (nd s' (v_fresh s)) = data \<and>
    tree_part (nd s' p) = tree_part ((nd s p)\<lparr>d_children := Some (kids_of (nd s p) @ [(v_fresh s, v_fresh s)]),
      d_index := Some (insert_at (insert_position s p before) (v_fresh s) (index_of (nd s p))), d_counter := c\<rparr>) \<and> steady E s'"
proof -
  obtain new where new: "new = v_fresh s" by simp
  have kids: "kids_of (nd s p) = map (\<lambda>t. (troot t, troot t)) ts" using assms(2) by (simp add: seated_def nd_def)
  have pf: "p < v_fresh s" using assms(3) by simp
  have pre: "case optNodeName of None \<Rightarrow> length (kids_of (nd s p)) < fuel \<and> fuel \<le> 2 ^ 32
      | Some nm \<Rightarrow> starts_with_I nm \<and> length nm \<le> 80 \<and> \<not> HasChild s p nm"
    using assms(5) by (cases optNodeName) (simp_all add: kids)
  obtain sa nm sb sc c where prep: "need_index E p s = (True, sa)"
    "(case optNodeName of Some name \<Rightarrow> Ret (name, sa) | None \<Rightarrow> unused_name fuel p sa) = Ret (nm, sb)"
    "GetNewDataNode E nm data sb = (Some new, sc)" "starts_with_I nm" "length nm \<le> 80" "\<not> HasChild s p nm"
    "\<forall>name. optNodeName = Some name \<longrightarrow> nm = name" "\<And>m. m \<noteq> p \<Longrightarrow> m \<noteq> new \<Longrightarrow> nd sc m = nd s m"
    "nd sc p = (nd s p)\<lparr>d_index := Some (index_of (nd s p)), d_counter := c\<rparr>" "nd sc new = Init nm data DataNode_new"
    "v_fresh sc = Suc (v_fresh s)" "v_root sc = v_root s" "v_sessions sc = v_sessions s"
    using prepare_insertion [OF assms(1) pre pf] unfolding new [symmetric] by blast
  have nn: "new \<notin> set (ms @ tnodes (Tree p ts))" using assms(3) by (auto simp: new)
  have shapes: "shape_of (nd sc m) = shape_of (nd s m)" if "m \<in> set (ms @ tnodes (Tree p ts))" for m
  proof (cases "m = p")
    case True
    then show ?thesis by (simp add: prep(9) shape_of_def kids_of_def index_of_def)
  next
    case False
    moreover have "m \<noteq> new" using that nn by metis
    ultimately show ?thesis by (simp add: prep(8))
  qed
  have seatc: "seated sc ms (Tree p ts)" by (rule seated_cong [OF assms(2) shapes]) (simp_all add: prep(11))
  have names: "d_name (nd sc (troot t)) = d_name (nd s (troot t))" if "t \<in> set ts" for t
  proof -
    have "troot t \<in> set (below ts)" unfolding set_below using that tnodes_root by blast
    then have "troot t \<in> set (ms @ tnodes (Tree p ts))" by simp
    from shapes [OF this] show ?thesis by (simp add: shape_of_def)
  qed
  have nm: "d_name (nd sc new) \<notin> set (map (\<lambda>t. d_name (nd sc (troot t))) ts)"
    using prep(6) names by (auto simp: HasChild_kids kids prep(10) Init_def)
  have stc: "steady E sc" using assms(1) steady_sessions [OF prep(13)] by simp
  obtain sd where sd: "PutChild E p new (Some this) nt sc = Ret (B_NO_ERROR, sd)" "node_frame {p, new} sc sd"
    "tree_part (nd sd p) = tree_part ((nd sc p)\<lparr>d_children := Some (kids_of (nd sc p) @ [(new, new)])\<rparr>)"
    "tree_part (nd sd new) = tree_part ((nd sc new)\<lparr>d_parent := Some p, d_depth := of_nat (Suc (length ms))\<rparr>)"
    "seated sd ms (Tree p (ts @ [Tree new []]))"
    using PutChild_new [OF stc seatc nn _ _ nm assms(4), of "Some this" nt] assms(2)
    by (auto simp: prep(10,11) Init_def DataNode_new_def kids_of_def index_of_def seated_def)
  have sdp: "d_index (nd sd p) = Some (index_of (nd s p))" "d_name (nd sd new) = nm"
    using sd(3,4) by (simp_all add: core_eq_iff prep(9,10) Init_def)
  have ixsub: "new \<notin> set (index_of (nd s p))"
  proof
    assume "new \<in> set (index_of (nd s p))"
    then obtain t where t: "t \<in> set ts" "new = troot t"
      using assms(2) by (auto simp: seated_def index_ok_def nd_def)
    then have "new \<in> set (below ts)" unfolding set_below using tnodes_root by blast
    then show False using nn by simp
  qed
  obtain i where i: "i = insert_position s p before" by simp
  obtain se st np sf s' where fin: "insert_entry E p i new sd = (True, se)"
    "(if want then GetNodePath E new 0 se else Ret (B_ERROR, [], se)) = Ret (st, np, sf)"
    "NotifySubscribersThatNodeIndexChanged E p INDEX_OP_ENTRYINSERTED (of_nat i) nm sf = Ret s'"
    "seated s' ms (Tree p (ts @ [Tree new []]))" "node_frame {p} sd s'" "tree_part (nd s' p) = tree_part ((nd sd p)\<lparr>d_index := Some (insert_at i new (index_of (nd s p)))\<rparr>)"
    "(if st = B_NO_ERROR then Some (np, new) else None) = (if want then Some (path_text 0 (names_down sd new (p # ms)), new) else None)"
    using enter_index [OF steady_frame [OF sd(2) stc] sd(5) sdp(1), of "Tree new []" new i want] ixsub prep(4,5) insert_position_bound [of s p before]
    by (auto simp: sdp(2) i)
  have pos: "insert_position sc p before = i"
  proof -
    have "d_name (v_nodes sc m) = d_name (v_nodes s m)" if "m \<in> set (index_of (nd s p))" for m
    proof -
      have "m \<in> troot ` set ts" using assms(2) that by (auto simp: seated_def index_ok_def nd_def)
      then show ?thesis using names by (auto simp: nd_def)
    qed
    then have "last_position (v_nodes sc) (index_of (nd s p)) = last_position (v_nodes s) (index_of (nd s p))"
      by (intro ext last_position_cong) simp
    moreover have "index_of (nd sc p) = index_of (nd s p)" by (simp add: prep(9) index_of_def)
    ultimately show ?thesis unfolding i insert_position_alt by (simp split: option.split)
  qed
  have run: "InsertOrderedChild fuel E p data before optNodeName this nt want s =
      Ret (B_NO_ERROR, if want then Some (path_text 0 (names_down sd new (p # ms)), new) else None, s')"
    unfolding InsertOrderedChild_def
    by (simp add: prep(1,2,3) Let_def prep(9) pos sd(1) fin(1-3) fin(7))
  have f': "node_frame {p, new} sc s'" by (rule frame_trans [OF sd(2) fin(5)]) auto
  have "names_down s' new (p # ms) = names_down sd new (p # ms)" using fin(5) by (simp add: names_down_def node_frame_def)
  moreover have "tree_part (nd s' m) = tree_part (nd s m)" if "m \<noteq> p" "m \<noteq> new" for m
    using f' prep(8) [OF that] that by (simp add: node_frame_def)
  moreover have "tree_part (nd s' p) = tree_part ((nd s p)\<lparr>d_children := Some (kids_of (nd s p) @ [(new, new)]),
      d_index := Some (insert_at i new (index_of (nd s p))), d_counter := c\<rparr>)"
    using fin(6) sd(3) by (simp add: core_eq_iff prep(9) kids_of_def)
  moreover have "d_name (nd s' new) = nm" using f' by (simp add: node_frame_def prep(10) Init_def)
  moreover have "d_data (nd s' new) = data"
  proof -
    have "new \<noteq> p" using nn by auto
    then have "tree_part (nd s' new) = tree_part (nd sd new)" using fin(5) by (simp add: node_frame_def)
    then show ?thesis using sd(4) by (simp add: core_eq_iff prep(10) Init_def)
  qed
  moreover have "v_fresh s' = Suc (v_fresh s)" "v_root s' = v_root s" using f' by (simp_all add: node_frame_def prep(11,12))
  moreover have "steady E s'" by (rule steady_frame [OF f' stc])
  ultimately show ?thesis
    using run prep(4,6,7) fin(4) unfolding new [symmetric] i
    by (intro exI [of _ nm] exI [of _ s'] exI [of _ c]) simp
qed

section \<open>Insertion into the tree of the server\<close>

lemma occurs_ancestors: "occurs ms T ms' t \<Longrightarrow> set ms' \<subseteq> set ms \<union> set (tnodes T)"
  by (induction rule: occurs.induct) (auto dest!: occurs_nodes)

lemma occurs_size:
  assumes "tree_ok s T" "occurs [] T ms t"
  shows "length ms + length (tnodes t) \<le> length (tnodes T)" "\<forall>m\<in>set (ms @ tnodes t). m < v_fresh s"
proof -
  have sub: "set (ms @ tnodes t) \<subseteq> set (tnodes T)"
    using occurs_ancestors [OF assms(2)] occurs_nodes [OF assms(2)] by simp
  moreover have "distinct (ms @ tnodes t)" "distinct (tnodes T)"
    using tree_ok_seated [OF assms] assms(1) by (simp_all add: tree_ok_def seated_def)
  ultimately show "length ms + length (tnodes t) \<le> length (tnodes T)" using shrink_length [of "ms @ tnodes t" "tnodes T"] by simp
  show "\<forall>m\<in>set (ms @ tnodes t). m < v_fresh s" using sub assms(1) by (auto simp: tree_ok_def)
qed

text \<open>A new leaf below \<open>p\<close>, under an address that was free.\<close>

lemma tree_ok_new_leaf:
  assumes "tree_ok s T" "occurs [] T ms (Tree p ts)" "length (tnodes T) + 1 < 2 ^ 31"
    "seated s' ms (Tree p (ts @ [Tree (v_fresh s) []]))" "v_fresh s' = Suc (v_fresh s)" "v_root s' = v_root s"
    "\<And>m. m \<noteq> p \<Longrightarrow> m \<noteq> v_fresh s \<Longrightarrow> tree_part (nd s' m) = tree_part (nd s m)" "d_name (nd s' p) = d_name (nd s p)"
  shows "tree_ok s' (graft (Tree p (ts @ [Tree (v_fresh s) []])) T) \<and>
    set (tnodes (graft (Tree p (ts @ [Tree (v_fresh s) []])) T)) = insert (v_fresh s) (set (tnodes T))"
proof -
  obtain new where new: "new = v_fresh s" by simp
  obtain r where r: "r = Tree p (ts @ [Tree new []])" by simp
  obtain sp where sp: "sp = s\<lparr>v_nodes := (v_nodes s)(new := v_nodes s' new)\<rparr>" by simp
  obtain s0 where s0: "s0 = s\<lparr>v_nodes := v_nodes s'\<rparr>" by simp
  have T: "seated s [] T" "\<forall>n\<in>set (tnodes T). n < v_fresh s" "v_root s = troot T" "distinct (tnodes T)"
    using assms(1) by (simp_all add: tree_ok_def seated_def)
  have nT: "new \<notin> set (tnodes T)" using T(2) by (auto simp: new)
  have same: "nd sp m = nd s m" if "m \<noteq> new" for m using that by (simp add: sp nd_def)
  have "shape_of (nd sp m) = shape_of (nd s m)" if "m \<in> set ([] @ tnodes T)" for m
  proof -
    have "m \<noteq> new" using that nT by auto
    then show ?thesis using same by simp
  qed
  then have "seated sp [] T" by (rule seated_cong [OF T(1)]) (simp_all add: sp)
  then have ok: "tree_ok sp T" using T by (simp add: tree_ok_def sp)
  have sub: "set (tnodes (Tree p ts)) \<subseteq> set (tnodes T)" by (rule occurs_nodes [OF assms(2)])
  have pn: "p \<noteq> new" using sub nT by auto
  have "tree_part (nd s0 m) = tree_part (nd sp m)" if "m \<noteq> p" for m
    using assms(7) [OF that] by (cases "m = new") (simp_all add: s0 sp nd_def new)
  moreover have "d_name (nd s0 m) = d_name (nd sp m)" for m
    using calculation [of m] assms(8) pn by (cases "m = p") (auto simp: s0 sp nd_def core_eq_iff)
  ultimately have fr: "node_frame {p} sp s0" by (simp add: node_frame_def s0 sp)
  have dr: "distinct (tnodes r)" "seated s' ms r" using assms(4) by (simp_all add: seated_def r new)
  have subr: "set (tnodes r) \<inter> set (tnodes T) \<subseteq> set (tnodes (Tree p ts))" using nT by (auto simp: r)
  note gn = graft_nodes [OF T(4) assms(2) _ dr(1) subr]
  have g: "distinct (tnodes (graft r T))" "set (tnodes (graft r T)) = insert new (set (tnodes T))"
    using gn sub by (auto simp: r)
  have "length (tnodes (graft r T)) \<le> length (new # tnodes T)"
    by (rule shrink_length [OF g(1)]) (use g(2) nT T(4) in auto)
  then have len: "length (tnodes (graft r T)) < 2 ^ 31" using assms(3) by simp
  have lim: "\<forall>n\<in>set (tnodes r). n < v_fresh s'" using sub T(2) assms(5) by (auto simp: r new less_Suc_eq)
  have "tree_ok s' (graft r T)"
    using tree_ok_graft [OF ok assms(2) _ dr(2) fr _ _ _ _ subr lim len] assms(5,6)
    by (auto simp: r s0 sp)
  then show ?thesis using g(2) by (simp add: r new)
qed

lemma InsertOrderedChild_tree:
  assumes "steady E s" "tree_ok s T" "occurs [] T ms (Tree p ts)" "length (tnodes T) + 1 < 2 ^ 31"
    "case optNodeName of None \<Rightarrow> length ts < fuel \<and> fuel \<le> 2 ^ 32
      | Some nm \<Rightarrow> starts_with_I nm \<and> length nm \<le> 80 \<and> \<not> HasChild s p nm"
  shows "\<exists>nm s' c. InsertOrderedChild fuel E p data before optNodeName this nt want s =
      Ret (B_NO_ERROR, if want then Some (path_text 0 (names_down s' (v_fresh s) (p # ms)), v_fresh s) else None, s') \<and>
    starts_with_I nm \<and> \<not> HasChild s p nm \<and> (\<forall>name. optNodeName = Some name \<longrightarrow> nm = name) \<and>
    tree_ok s' (graft (Tree p (ts @ [Tree (v_fresh s) []])) T) \<and> steady E s' \<and>
    set (tnodes (graft (Tree p (ts @ [Tree (v_fresh s) []])) T)) = insert (v_fresh s) (set (tnodes T)) \<and>
    (\<forall>m. m \<noteq> p \<longrightarrow> m \<noteq> v_fresh s \<longrightarrow> tree_part (nd s' m) = tree_part (nd s m)) \<and>
    d_name (nd s' (v_fresh s)) = nm \<and> d_data (nd s' (v_fresh s)) = data \<and>
    tree_part (nd s' p) = tree_part ((nd s p)\<lparr>d_children := Some (kids_of (nd s p) @ [(v_fresh s, v_fresh s)]),
      d_index := Some (insert_at (insert_position s p before) (v_fresh s) (index_of (nd s p))), d_counter := c\<rparr>)"
proof -
  have seat: "seated s ms (Tree p ts)" by (rule tree_ok_seated [OF assms(2,3)])
  have size: "length ms + length (tnodes (Tree p ts)) + 1 < 2 ^ 31" using occurs_size(1) [OF assms(2,3)] assms(4) by simp
  obtain nm s' c where R: "InsertOrderedChild fuel E p data before optNodeName this nt want s =
      Ret (B_NO_ERROR, if want then Some (path_text 0 (names_down s' (v_fresh s) (p # ms)), v_fresh s) else None, s')"
    "starts_with_I nm \<and> \<not> HasChild s p nm \<and> (\<forall>name. optNodeName = Some name \<longrightarrow> nm = name)"
    "seated s' ms (Tree p (ts @ [Tree (v_fresh s) []]))" "v_fresh s' = Suc (v_fresh s)" "v_root s' = v_root s"
    "\<And>m. m \<noteq> p \<Longrightarrow> m \<noteq> v_fresh s \<Longrightarrow> tree_part (nd s' m) = tree_part (nd s m)"
    "d_name (nd s' (v_fresh s)) = nm \<and> d_data (nd s' (v_fresh s)) = data"
    "tree_part (nd s' p) = tree_part ((nd s p)\<lparr>d_children := Some (kids_of (nd s p) @ [(v_fresh s, v_fresh s)]),
      d_index := Some (insert_at (insert_position s p before) (v_fresh s) (index_of (nd s p))), d_counter := c\<rparr>)" "steady E s'"
    using InsertOrderedChild_new [OF assms(1) seat occurs_size(2) [OF assms(2,3)] size assms(5)] by blast
  have "d_name (nd s' p) = d_name (nd s p)" using R(8) by (simp add: core_eq_iff)
  from tree_ok_new_leaf [OF assms(2-4) R(3-6) this] show ?thesis
    using R by (intro exI [of _ nm] exI [of _ s'] exI [of _ c]) simp
qed

end
