(* ===== verification/Node_Session.thy ===== *)
theory Node_Session
  imports Node_Ops
begin

text \<open>
  A session and the tree, \<^verbatim>\<open>reflector/StorageReflectSession.cpp\<close>: nodes set and found by their path, the
  traversal that calls back for each node that a path matcher accepts, and what the commands of a client
  do with it: subscribing, removing, inserting and reordering nodes.
\<close>

section \<open>Nodes by path\<close>

definition session_dir :: "('m, 'r, 'f) server \<Rightarrow> string \<Rightarrow> nref option" where
  "session_dir s this = (case session_of s this of None \<Rightarrow> None | Some x \<Rightarrow> s_sessionDir x)"

text \<open>The loop of \<open>GetDataNode\<close>, over the part of the path behind the last slash found.\<close>

function find_node :: "('m, 'r, 'f) server \<Rightarrow> nref \<Rightarrow> string \<Rightarrow> nref option" where
  "find_node s n path =
     (let (clause, more) = next_clause path
      in case GetChild s n clause of
           None \<Rightarrow> None
         | Some child \<Rightarrow> (case more of None \<Rightarrow> Some child | Some rest \<Rightarrow> find_node s child rest))"
  by pat_completeness auto
termination by (relation "measure (\<lambda>(_, _, path). length path)") (auto dest: next_clause_shorter [OF sym])

definition GetDataNode :: "('m, 'r, 'f) server \<Rightarrow> string \<Rightarrow> string \<Rightarrow> nref option" where
  "GetDataNode s this nodePath =
     (if nodePath = [] then session_dir s this
      else if hd nodePath = slash then find_node s (v_root s) (tl nodePath)
      else case session_dir s this of None \<Rightarrow> None | Some n \<Rightarrow> find_node s n nodePath)"

definition may_add_node :: "('m, 'r, 'f) server \<Rightarrow> string \<Rightarrow> bool" where
  "may_add_node s this = (case session_of s this of None \<Rightarrow> False | Some x \<Rightarrow> s_currentNodeCount x < s_maxNodeCount x)"

definition count_node :: "string \<Rightarrow> ('m, 'r, 'f) server \<Rightarrow> ('m, 'r, 'f) server" where
  "count_node this s = set_session this (\<lambda>x. x\<lparr>s_currentNodeCount := s_currentNodeCount x + 1\<rparr>) s"

definition count_indexed :: "string \<Rightarrow> ('m, 'r, 'f) server \<Rightarrow> ('m, 'r, 'f) server" where
  "count_indexed this s = set_session this (\<lambda>x. x\<lparr>s_indexingPresent := True\<rparr>) (count_node this s)"

text \<open>
  The child for one clause of the path, made if it does not exist: the node with whether it was allocated, or
  \<open>None\<close> if the call fails. For an indexed node the name is given to \<open>InsertOrderedChild\<close>, which allocates a
  node of its own; the one allocated here gets lost.
\<close>

definition need_child :: "nat \<Rightarrow> ('m, 'r, 'f) server_env \<Rightarrow> string \<Rightarrow> 'm option \<Rightarrow> bool \<Rightarrow> bool \<Rightarrow> bool \<Rightarrow> string option \<Rightarrow>
    nref \<Rightarrow> string \<Rightarrow> bool \<Rightarrow> ('m, 'r, 'f) server \<Rightarrow> ((nref \<times> bool) option \<times> ('m, 'r, 'f) server) run" where
  "need_child fuel E this data create quiet addToIndex optInsertBefore n clause isLast s =
     (case GetChild s n clause of
        Some child \<Rightarrow> Ret (Some (child, False), s)
      | None \<Rightarrow>
          if create \<and> may_add_node s this then
            case GetNewDataNode E clause (if isLast \<and> \<not> addToIndex then data else x_blank E) s of
              (None, s) \<Rightarrow> Ret (None, s)
            | (Some allocedNode, s) \<Rightarrow>
                if isLast \<and> addToIndex then
                  bind_run (InsertOrderedChild fuel E n data optInsertBefore (if clause \<noteq> [] then Some clause else None) this
                      (if quiet then None else Some this) False s) (\<lambda>(st, _, s).
                    Ret (Some (allocedNode, True), if st = B_NO_ERROR then count_indexed this s else s))
                else
                  bind_run (PutChild E n allocedNode (Some this) (if quiet \<or> isLast then None else Some this) s) (\<lambda>(st, s).
                    Ret (Some (allocedNode, True), if st = B_NO_ERROR then count_node this s else s))
          else Ret (None, s))"

function set_node :: "nat \<Rightarrow> ('m, 'r, 'f) server_env \<Rightarrow> string \<Rightarrow> 'm option \<Rightarrow> bool \<Rightarrow> bool \<Rightarrow> bool \<Rightarrow> bool \<Rightarrow> string option \<Rightarrow>
    nref \<Rightarrow> string \<Rightarrow> ('m, 'r, 'f) server \<Rightarrow> (status \<times> ('m, 'r, 'f) server) run" where
  "set_node fuel E this data overwrite create quiet addToIndex optInsertBefore n path s =
     (let (clause, more) = next_clause path
      in bind_run (need_child fuel E this data create quiet addToIndex optInsertBefore n clause (more = None) s) (\<lambda>(r, s).
           case r of
             None \<Rightarrow> Ret (B_ERROR, s)
           | Some (node, alloced) \<Rightarrow>
               (case more of
                  Some rest \<Rightarrow> set_node fuel E this data overwrite create quiet addToIndex optInsertBefore node rest s
                | None \<Rightarrow>
                    if addToIndex then Ret (B_NO_ERROR, s)
                    else if \<not> overwrite \<and> \<not> alloced then Ret (B_ERROR, s)
                    else bind_run (SetData E node data (if quiet then None else Some this) alloced s) (\<lambda>s. Ret (B_NO_ERROR, s)))))"
  by pat_completeness auto
termination by (relation "measure (\<lambda>(_, _, _, _, _, _, _, _, _, _, path, _). length path)") (auto dest: next_clause_shorter [OF sym])

definition SetDataNode :: "nat \<Rightarrow> ('m, 'r, 'f) server_env \<Rightarrow> string \<Rightarrow> string \<Rightarrow> 'm option \<Rightarrow> bool \<Rightarrow> bool \<Rightarrow> bool \<Rightarrow> bool \<Rightarrow> string option \<Rightarrow>
    ('m, 'r, 'f) server \<Rightarrow> (status \<times> ('m, 'r, 'f) server) run" where
  "SetDataNode fuel E this nodePath data overwrite create quiet addToIndex optInsertBefore s =
     (case session_dir s this of
        None \<Rightarrow> Ret (B_ERROR, s)
      | Some n \<Rightarrow>
          if nodePath \<noteq> [] \<and> hd nodePath \<noteq> slash
          then set_node fuel E this data overwrite create quiet addToIndex optInsertBefore n nodePath s
          else Ret (B_NO_ERROR, s))"

declare find_node.simps [simp del] set_node.simps [simp del]

section \<open>Traversal\<close>

text \<open>
  A callback gets the node and data of its user, and returns the depth at which the traversal goes on. No
  callback of the program changes the table of children that is being iterated over, so the loops run over the
  children as they are when the iteration starts.
\<close>

type_synonym ('m, 'r, 'f, 'u) callback =
  "nref \<Rightarrow> ('m, 'r, 'f) server \<times> 'u \<Rightarrow> (int \<times> ('m, 'r, 'f) server \<times> 'u) run"

definition depth_of :: "('m, 'r, 'f) server \<Rightarrow> nref \<Rightarrow> int" where
  "depth_of s n = sint (d_depth (nd s n))"

text \<open>\<open>GetItemAt\<close> on the matchers of an entry.\<close>

definition clause_at :: "('r, 'f) path_entry \<Rightarrow> int \<Rightarrow> 'r matcher option run" where
  "clause_at e k = (if 0 \<le> k \<and> k < int (length (e_parser e)) then Ret (e_parser e ! nat k) else Fault)"

text \<open>The test against paths that conspire: the node itself has to match one of the entries.\<close>

definition accepted :: "('m, 'r, 'f) server_env \<Rightarrow> ('r, 'f) path_matcher \<Rightarrow> bool \<Rightarrow> int \<Rightarrow> ('r, 'f) path_entry \<Rightarrow> nref \<Rightarrow>
    ('m, 'r, 'f) server \<Rightarrow> bool run" where
  "accepted E pm useFilters rootDepth e c s =
     (if length (pm_entries pm) = 1 \<and> (\<not> useFilters \<or> e_filter e = None) then Ret True
      else MatchesNode E s pm c (if useFilters then d_data (nd s c) else None) rootDepth)"

text \<open>
  \<open>CheckChildForTraversal\<close>: \<open>descend\<close> is the traversal of the child. The result is the depth to return to, if
  the traversal is to be cut short.
\<close>

fun try_entries :: "('m, 'r, 'f) server_env \<Rightarrow> ('r, 'f) path_matcher \<Rightarrow> bool \<Rightarrow> int \<Rightarrow> ('m, 'r, 'f, 'u) callback \<Rightarrow>
    ('m, 'r, 'f, 'u) callback \<Rightarrow> nref \<Rightarrow> int \<Rightarrow> (string \<times> ('r, 'f) path_entry) list \<Rightarrow> bool \<Rightarrow> bool \<Rightarrow>
    ('m, 'r, 'f) server \<times> 'u \<Rightarrow> (int option \<times> ('m, 'r, 'f) server \<times> 'u) run" where
  "try_entries E pm useFilters rootDepth cb descend c depth [] matched recursed su = Ret (None, su)"
| "try_entries E pm useFilters rootDepth cb descend c depth ((_, e) # es) matched recursed su =
     (if int (length (e_parser e)) > depth - rootDepth then
        bind_run (clause_at e (depth - rootDepth)) (\<lambda>nextMatcher.
          if clause_matches (x_regexec E) nextMatcher (d_name (nd (fst su) c)) then
            if depth = rootDepth + int (length (e_parser e)) - 1 then
              if \<not> matched then
                bind_run (accepted E pm useFilters rootDepth e c (fst su)) (\<lambda>ok.
                  if ok then
                    bind_run (cb c su) (\<lambda>(nextDepth, su).
                      if nextDepth < depth_of (fst su) c - 1 then Ret (Some nextDepth, su)
                      else if recursed then Ret (None, su)
                      else try_entries E pm useFilters rootDepth cb descend c depth es True recursed su)
                  else try_entries E pm useFilters rootDepth cb descend c depth es matched recursed su)
              else try_entries E pm useFilters rootDepth cb descend c depth es matched recursed su
            else if \<not> recursed then
              bind_run (descend c su) (\<lambda>(nextDepth, su).
                if nextDepth < depth_of (fst su) c - 1 then Ret (Some nextDepth, su)
                else if matched then Ret (None, su)
                else try_entries E pm useFilters rootDepth cb descend c depth es matched True su)
            else try_entries E pm useFilters rootDepth cb descend c depth es matched recursed su
          else try_entries E pm useFilters rootDepth cb descend c depth es matched recursed su)
      else try_entries E pm useFilters rootDepth cb descend c depth es matched recursed su)"

definition CheckChildForTraversal :: "('m, 'r, 'f) server_env \<Rightarrow> ('r, 'f) path_matcher \<Rightarrow> bool \<Rightarrow> int \<Rightarrow> ('m, 'r, 'f, 'u) callback \<Rightarrow>
    ('m, 'r, 'f, 'u) callback \<Rightarrow> nref \<Rightarrow> int \<Rightarrow> ('m, 'r, 'f) server \<times> 'u \<Rightarrow> (int option \<times> ('m, 'r, 'f) server \<times> 'u) run" where
  "CheckChildForTraversal E pm useFilters rootDepth cb descend c depth su =
     try_entries E pm useFilters rootDepth cb descend c depth (pm_entries pm) False False su"

text \<open>Whether some entry has a wildcard at this depth.\<close>

fun parsers_have_wildcards :: "int \<Rightarrow> (string \<times> ('r, 'f) path_entry) list \<Rightarrow> bool run" where
  "parsers_have_wildcards k [] = Ret False"
| "parsers_have_wildcards k ((_, e) # es) =
     (if int (length (e_parser e)) > k then
        bind_run (clause_at e k) (\<lambda>nextMatcher.
          case nextMatcher of
            None \<Rightarrow> Ret True
          | Some m \<Rightarrow> if \<not> IsPatternUnique m then Ret True else parsers_have_wildcards k es)
      else parsers_have_wildcards k es)"

text \<open>The general case: all children.\<close>

fun visit_children :: "(nref \<Rightarrow> ('m, 'r, 'f) server \<times> 'u \<Rightarrow> (int option \<times> ('m, 'r, 'f) server \<times> 'u) run) \<Rightarrow> nref list \<Rightarrow>
    ('m, 'r, 'f) server \<times> 'u \<Rightarrow> (int option \<times> ('m, 'r, 'f) server \<times> 'u) run" where
  "visit_children check [] su = Ret (None, su)"
| "visit_children check (c # cs) su =
     bind_run (check c su) (\<lambda>(r, su). case r of Some d \<Rightarrow> Ret (Some d, su) | None \<Rightarrow> visit_children check cs su)"

text \<open>The optimized case: the children with the names that the entries ask for, each once. The list of those
  already visited is taken to have memory.\<close>

fun visit_keys :: "(nref \<Rightarrow> ('m, 'r, 'f) server \<times> 'u \<Rightarrow> (int option \<times> ('m, 'r, 'f) server \<times> 'u) run) \<Rightarrow> nref \<Rightarrow> int \<Rightarrow>
    (string \<times> ('r, 'f) path_entry) list \<Rightarrow> nref list \<Rightarrow> ('m, 'r, 'f) server \<times> 'u \<Rightarrow> (int option \<times> ('m, 'r, 'f) server \<times> 'u) run" where
  "visit_keys check n k [] alreadyDid su = Ret (None, su)"
| "visit_keys check n k ((_, e) # es) alreadyDid su =
     (if int (length (e_parser e)) > k then
        bind_run (clause_at e k) (\<lambda>nextMatcher.
          case nextMatcher of
            None \<Rightarrow> Fault
          | Some m \<Rightarrow>
              (case GetChild (fst su) n (m_pattern m) of
                 None \<Rightarrow> visit_keys check n k es alreadyDid su
               | Some c \<Rightarrow>
                   if c \<in> set alreadyDid then visit_keys check n k es alreadyDid su
                   else bind_run (check c su) (\<lambda>(r, su).
                     case r of Some d \<Rightarrow> Ret (Some d, su) | None \<Rightarrow> visit_keys check n k es (alreadyDid @ [c]) su)))
      else visit_keys check n k es alreadyDid su)"

text \<open>Each level of the tree costs one unit of fuel; one more than the most clauses of an entry is enough.\<close>

primrec DoTraversalAux :: "nat \<Rightarrow> ('m, 'r, 'f) server_env \<Rightarrow> ('r, 'f) path_matcher \<Rightarrow> bool \<Rightarrow> int \<Rightarrow> ('m, 'r, 'f, 'u) callback \<Rightarrow>
    ('m, 'r, 'f, 'u) callback" where
  "DoTraversalAux 0 E pm useFilters rootDepth cb n su = NoFuel"
| "DoTraversalAux (Suc fuel) E pm useFilters rootDepth cb n su =
     (let depth = depth_of (fst su) n;
          check = (\<lambda>c. CheckChildForTraversal E pm useFilters rootDepth cb (DoTraversalAux fuel E pm useFilters rootDepth cb) c depth)
      in bind_run (parsers_have_wildcards (depth - rootDepth) (pm_entries pm)) (\<lambda>wild.
         bind_run
           (if wild then visit_children check (map snd (GetChildIterator (fst su) n)) su
            else visit_keys check n (depth - rootDepth) (pm_entries pm) [] su) (\<lambda>(r, su).
         Ret (case r of Some d \<Rightarrow> d | None \<Rightarrow> depth_of (fst su) n, su))))"

definition DoTraversal :: "nat \<Rightarrow> ('m, 'r, 'f) server_env \<Rightarrow> ('r, 'f) path_matcher \<Rightarrow> ('m, 'r, 'f, 'u) callback \<Rightarrow> nref \<Rightarrow> bool \<Rightarrow>
    ('m, 'r, 'f) server \<times> 'u \<Rightarrow> (('m, 'r, 'f) server \<times> 'u) run" where
  "DoTraversal fuel E pm cb n useFilters su =
     bind_run (DoTraversalAux fuel E pm useFilters (depth_of (fst su) n) cb n su) (\<lambda>(_, su). Ret su)"

section \<open>Callbacks\<close>

definition DoSubscribeRefCallback :: "('m, 'r, 'f) server_env \<Rightarrow> string \<Rightarrow> int \<Rightarrow> ('m, 'r, 'f, 'u) callback" where
  "DoSubscribeRefCallback E this delta n su =
     (let s = IncrementSubscriptionRefCount E n this delta (fst su) in Ret (depth_of s n, s, snd su))"

definition ChangeQueryFilterCallback :: "('m, 'r, 'f) server_env \<Rightarrow> string \<Rightarrow> 'f option \<Rightarrow> 'f option \<Rightarrow> ('m, 'r, 'f, 'u) callback" where
  "ChangeQueryFilterCallback E this oldFilter newFilter n su =
     (let passes = (\<lambda>flt. case d_data (nd (fst su) n) of None \<Rightarrow> True
            | Some msg \<Rightarrow> (case flt of None \<Rightarrow> True | Some f \<Rightarrow> x_fmatch E f msg))
      in bind_run (if passes oldFilter \<noteq> passes newFilter then NodeChangedAux E this n (passes oldFilter) (fst su) else Ret (fst su)) (\<lambda>s.
           Ret (depth_of s n, s, snd su)))"

text \<open>The user's data is the queue of nodes to remove; without memory for its growth a node is left out.\<close>

definition RemoveDataCallback :: "('m, 'r, 'f) server_env \<Rightarrow> ('m, 'r, 'f, nref list) callback" where
  "RemoveDataCallback E n su =
     (let (s, removeSet) = su
      in if depth_of s n > 2 then
           case d_parent (nd s n) of
             None \<Rightarrow> Fault
           | Some p \<Rightarrow>
               (case GetChild s p (d_name (nd s n)) of
                  Some c \<Rightarrow>
                    let (ok, s) = request E s
                    in Ret (depth_of s n - 1, s, if ok then removeSet @ [c] else removeSet)
                | None \<Rightarrow> Ret (depth_of s n, s, removeSet))
         else Ret (depth_of s n, s, removeSet))"

text \<open>The message lists, for each field of messages, its name (the child to insert before) and the payloads.\<close>

fun insert_payloads :: "nat \<Rightarrow> ('m, 'r, 'f) server_env \<Rightarrow> string \<Rightarrow> nref \<Rightarrow> bool \<Rightarrow> (string \<times> 'm option) list \<Rightarrow>
    ('m, 'r, 'f) server \<times> (string \<times> nref) list \<Rightarrow> (('m, 'r, 'f) server \<times> (string \<times> nref) list) run" where
  "insert_payloads fuel E this n want [] su = Ret su"
| "insert_payloads fuel E this n want ((before, data) # rest) (s, results) =
     (if may_add_node s this then
        bind_run (InsertOrderedChild fuel E n data (Some before) None this (Some this) want s) (\<lambda>(st, added, s).
          insert_payloads fuel E this n want rest
            (if st = B_NO_ERROR then count_indexed this s else s,
             case added of Some (np, new) \<Rightarrow> table_put np new results | None \<Rightarrow> results))
      else insert_payloads fuel E this n want rest (s, results))"

definition InsertOrderedDataCallback :: "nat \<Rightarrow> ('m, 'r, 'f) server_env \<Rightarrow> string \<Rightarrow> bool \<Rightarrow> (string \<times> 'm option list) list \<Rightarrow>
    ('m, 'r, 'f, (string \<times> nref) list) callback" where
  "InsertOrderedDataCallback fuel E this want payloads n su =
     bind_run (insert_payloads fuel E this n want (concat (map (\<lambda>(name, ds). map (\<lambda>d. (name, d)) ds) payloads)) su) (\<lambda>(s, u).
       Ret (depth_of s n, s, u))"

definition ReorderDataCallback :: "('m, 'r, 'f) server_env \<Rightarrow> string \<Rightarrow> string option \<Rightarrow> ('m, 'r, 'f, 'u) callback" where
  "ReorderDataCallback E this moveToBeforeThis n su =
     (case d_parent (nd (fst su) n) of
        None \<Rightarrow> Ret (depth_of (fst su) n, su)
      | Some indexNode \<Rightarrow>
          bind_run (ReorderChild E indexNode n moveToBeforeThis (Some this) (fst su)) (\<lambda>(_, s). Ret (depth_of s n, s, snd su)))"

section \<open>Commands of a client\<close>

text \<open>\<open>PutPathString\<close> with the memory of the server.\<close>

definition put_path :: "('m, 'r, 'f) server_env \<Rightarrow> ('r, 'f) path_matcher \<Rightarrow> string \<Rightarrow> 'f option \<Rightarrow> ('m, 'r, 'f) server \<Rightarrow>
    (status \<times> ('r, 'f) path_matcher \<times> ('m, 'r, 'f) server) run" where
  "put_path E pm path flt s =
     bind_run (PutPathString (x_regcomp E) (x_alloc E) (v_allocs s) pm path flt) (\<lambda>(st, pm, k). Ret (st, pm, s\<lparr>v_allocs := k\<rparr>))"

definition DEFAULT_PATH_PREFIX :: string where
  "DEFAULT_PATH_PREFIX = ''*/*''"

definition Subscribe :: "nat \<Rightarrow> ('m, 'r, 'f) server_env \<Rightarrow> string \<Rightarrow> string \<Rightarrow> 'f option \<Rightarrow> ('m, 'r, 'f) server \<Rightarrow> ('m, 'r, 'f) server run" where
  "Subscribe fuel E this path flt s =
     (case session_of s this of
        None \<Rightarrow> Ret s
      | Some x \<Rightarrow>
          let fixPath = AdjustStringPrefix path (Some DEFAULT_PATH_PREFIX)
          in case map_of (pm_entries (s_subscriptions x)) fixPath of
               Some e \<Rightarrow>
                 if s_subscriptionsEnabled x \<and> (flt \<noteq> None \<or> e_filter e \<noteq> None) then
                   bind_run (put_path E PathMatcher_new fixPath None s) (\<lambda>(st, temp, s).
                     if st = B_NO_ERROR then
                       bind_run (DoTraversal fuel E temp (ChangeQueryFilterCallback E this (e_filter e) flt) (v_root s) False (s, ()))
                         (\<lambda>(s, _). Ret s)
                     else Ret s)
                 else Ret s
             | None \<Rightarrow>
                 bind_run (put_path E PathMatcher_new fixPath None s) (\<lambda>(st, temp, s).
                   if st = B_NO_ERROR then
                     bind_run (put_path E (s_subscriptions x) fixPath flt s) (\<lambda>(st, subs, s).
                       if st = B_NO_ERROR then
                         bind_run (DoTraversal fuel E temp (DoSubscribeRefCallback E this 1) (v_root s) False
                             (set_session this (\<lambda>x. x\<lparr>s_subscriptions := subs\<rparr>) s, ()))
                           (\<lambda>(s, _). Ret s)
                       else Ret s)
                   else Ret s))"

text \<open>The part of \<open>PR_COMMAND_REMOVEPARAMETERS\<close> for a subscription. Without memory no marks are taken away.\<close>

definition Unsubscribe :: "nat \<Rightarrow> ('m, 'r, 'f) server_env \<Rightarrow> string \<Rightarrow> string \<Rightarrow> ('m, 'r, 'f) server \<Rightarrow> ('m, 'r, 'f) server run" where
  "Unsubscribe fuel E this path s =
     (case session_of s this of
        None \<Rightarrow> Ret s
      | Some x \<Rightarrow>
          let str = AdjustStringPrefix path (Some DEFAULT_PATH_PREFIX)
          in case RemovePathString (s_subscriptions x) str of
               (B_NO_ERROR, subs) \<Rightarrow>
                 bind_run (put_path E PathMatcher_new str None (set_session this (\<lambda>x. x\<lparr>s_subscriptions := subs\<rparr>) s)) (\<lambda>(_, temp, s).
                   bind_run (DoTraversal fuel E temp (DoSubscribeRefCallback E this (- 1)) (v_root s) False (s, ())) (\<lambda>(s, _). Ret s))
             | (B_ERROR, _) \<Rightarrow> Ret s)"

text \<open>The nodes found are removed last one first, if they still have a parent by then.\<close>

fun remove_found :: "nat \<Rightarrow> ('m, 'r, 'f) server_env \<Rightarrow> string \<Rightarrow> bool \<Rightarrow> nref list \<Rightarrow> ('m, 'r, 'f) server \<Rightarrow> ('m, 'r, 'f) server run" where
  "remove_found fuel E this quiet [] s = Ret s"
| "remove_found fuel E this quiet (n # ns) s =
     (case d_parent (nd s n) of
        None \<Rightarrow> remove_found fuel E this quiet ns s
      | Some p \<Rightarrow>
          bind_run (RemoveChild fuel E p (d_name (nd s n)) (if quiet then None else Some this) True
              (map_option s_currentNodeCount (session_of s this)) s) (\<lambda>(_, cnt, s).
            remove_found fuel E this quiet ns
              (case cnt of None \<Rightarrow> s | Some k \<Rightarrow> set_session this (\<lambda>x. x\<lparr>s_currentNodeCount := k\<rparr>) s)))"

definition DoRemoveData :: "nat \<Rightarrow> ('m, 'r, 'f) server_env \<Rightarrow> string \<Rightarrow> ('r, 'f) path_matcher \<Rightarrow> bool \<Rightarrow> ('m, 'r, 'f) server \<Rightarrow> ('m, 'r, 'f) server run" where
  "DoRemoveData fuel E this matcher quiet s =
     (case session_dir s this of
        None \<Rightarrow> Ret s
      | Some sessionNode \<Rightarrow>
          bind_run (DoTraversal fuel E matcher (RemoveDataCallback E) sessionNode True (s, [])) (\<lambda>(s, removeSet).
            remove_found fuel E this quiet (rev removeSet) s))"

definition RemoveDataNodes :: "nat \<Rightarrow> ('m, 'r, 'f) server_env \<Rightarrow> string \<Rightarrow> string \<Rightarrow> 'f option \<Rightarrow> bool \<Rightarrow>
    ('m, 'r, 'f) server \<Rightarrow> (status \<times> ('m, 'r, 'f) server) run" where
  "RemoveDataNodes fuel E this nodePath flt quiet s =
     bind_run (put_path E PathMatcher_new nodePath flt s) (\<lambda>(st, matcher, s).
       if st \<noteq> B_NO_ERROR then Ret (B_ERROR, s)
       else bind_run (DoRemoveData fuel E this matcher quiet s) (\<lambda>s. Ret (B_NO_ERROR, s)))"

text \<open>\<open>InsertOrderedData\<close>, given the matcher that \<open>PutPathsFromMessage\<close> made of the keys of the message.\<close>

definition InsertOrderedData :: "nat \<Rightarrow> ('m, 'r, 'f) server_env \<Rightarrow> string \<Rightarrow> ('r, 'f) path_matcher \<Rightarrow> bool \<Rightarrow> (string \<times> 'm option list) list \<Rightarrow>
    ('m, 'r, 'f) server \<Rightarrow> (status \<times> (string \<times> nref) list \<times> ('m, 'r, 'f) server) run" where
  "InsertOrderedData fuel E this matcher want payloads s =
     (case session_dir s this of
        None \<Rightarrow> Ret (B_ERROR, [], s)
      | Some sessionNode \<Rightarrow>
          bind_run (DoTraversal fuel E matcher (InsertOrderedDataCallback fuel E this want payloads) sessionNode True (s, [])) (\<lambda>(s, results).
            Ret (B_NO_ERROR, results, s)))"

end
