(* ===== verification/Node_Set.thy ===== *)
theory Node_Set
  imports Node_Insert Node_Session
begin

text \<open>
  Setting a node by its path: what \<open>SetDataNode\<close> does to the tree, and that \<open>GetDataNode\<close> finds the node
  afterwards.
\<close>

section \<open>Growing trees\<close>

lemma occurs_graft: "distinct (tnodes T) \<Longrightarrow> occurs ms T ms' u \<Longrightarrow> troot u = troot r \<Longrightarrow> occurs ms (graft r T) ms' r"
proof (induction T arbitrary: ms)
  case (Tree m ts)
  from occurs_cases [OF Tree.prems(2)] show ?case
  proof (elim disjE bexE)
    assume "ms' = ms \<and> u = Tree m ts"
    then show ?thesis using Tree.prems(3) occurs.here [of ms r] by simp
  next
    fix t assume t: "t \<in> set (tkids (Tree m ts))" and o: "occurs (troot (Tree m ts) # ms) t ms' u"
    then have t': "t \<in> set ts" and o': "occurs (m # ms) t ms' u" by simp_all
    have "troot r \<in> set (tnodes t)" using occurs_nodes [OF o'] tnodes_root [of u] Tree.prems(3) by auto
    then have mr: "m \<noteq> troot r" using Tree.prems(1) t' by (auto simp: set_below)
    have "distinct (tnodes t)" using Tree.prems(1) t' by (auto simp: distinct_below)
    from Tree.IH [OF t' this o' Tree.prems(3)]
    have "occurs ms (Tree m (map (graft r) ts)) ms' r" by (rule occurs_below) (use t' in auto)
    then show ?thesis using mr by simp
  qed
qed

text \<open>
  What a state keeps of an earlier one: the nodes of the tree, their names, the payloads of all but some nodes, and
  where each look-up of a child led.
\<close>

definition keeps :: "tree \<Rightarrow> nref set \<Rightarrow> ('m, 'r, 'f) server \<Rightarrow> tree \<Rightarrow> ('m, 'r, 'f) server \<Rightarrow> bool" where
  "keeps T X s T' s' \<longleftrightarrow> set (tnodes T) \<subseteq> set (tnodes T') \<and> v_root s' = v_root s \<and>
     (\<forall>m\<in>set (tnodes T). d_name (nd s' m) = d_name (nd s m) \<and> (m \<notin> X \<longrightarrow> d_data (nd s' m) = d_data (nd s m)) \<and>
       (\<forall>key c. GetChild s m key = Some c \<longrightarrow> GetChild s' m key = Some c))"

lemma keeps_refl: "keeps T X s T s"
  by (simp add: keeps_def)

lemma keeps_trans: "keeps T X s T' s' \<Longrightarrow> keeps T' Y s' T'' s'' \<Longrightarrow> X \<subseteq> Z \<Longrightarrow> Y \<inter> set (tnodes T) \<subseteq> Z \<Longrightarrow> keeps T Z s T'' s''"
  unfolding keeps_def by (auto 4 4 simp: subset_iff)

lemma find_child_names:
  assumes "\<And>k c. (k, c) \<in> set kids \<Longrightarrow> d_name (ns' k) = d_name (ns k)"
  shows "find_child ns' kids key = find_child ns kids key"
  unfolding find_child_def by (rule find_cong) (use assms in auto)

lemma GetChild_kids: "GetChild s n key = map_option snd (find_child (v_nodes s) (kids_of (nd s n)) key)"
  by (cases "d_children (nd s n)") (simp_all add: GetChild_def kids_of_def find_child_def)

lemma find_append: "find P (xs @ ys) = (case find P xs of Some x \<Rightarrow> Some x | None \<Rightarrow> find P ys)"
  by (induction xs) auto

lemma GetChild_kept:
  assumes "kids_of (nd s' n) = kids_of (nd s n) @ extra" "\<And>k c. (k, c) \<in> set (kids_of (nd s n)) \<Longrightarrow> d_name (nd s' k) = d_name (nd s k)"
    "GetChild s n key = Some c"
  shows "GetChild s' n key = Some c"
proof -
  have "find_child (v_nodes s') (kids_of (nd s n)) key = find_child (v_nodes s) (kids_of (nd s n)) key"
    using assms(2) by (intro find_child_names) (simp add: nd_def)
  then show ?thesis using assms(3) unfolding GetChild_kids assms(1) by (auto simp: find_child_def find_append)
qed

lemma tree_ok_kids:
  assumes "tree_ok s T" "m \<in> set (tnodes T)" "(k, c) \<in> set (kids_of (nd s m))"
  shows "k \<in> set (tnodes T)"
proof -
  obtain ms ts where o: "occurs [] T ms (Tree m ts)" using occurs_exists [OF assms(2)] by blast
  have "kids_of (nd s m) = map (\<lambda>t. (troot t, troot t)) ts" using tree_ok_seated [OF assms(1) o] by (simp add: seated_def nd_def)
  then obtain t where "t \<in> set ts" "k = troot t" using assms(3) by auto
  then have "k \<in> set (below ts)" unfolding set_below using tnodes_root by blast
  then show ?thesis using occurs_nodes [OF o] by auto
qed

text \<open>The counter and flag of the session play no part in the tree.\<close>

lemma tree_ok_nodes: "v_nodes s' = v_nodes s \<Longrightarrow> v_fresh s' = v_fresh s \<Longrightarrow> v_root s' = v_root s \<Longrightarrow> tree_ok s' T = tree_ok s T"
  by (simp add: tree_ok_def seated_def placed_def nd_def)

lemma set_session_fields [simp]:
  "v_nodes (set_session i f s) = v_nodes s" "v_fresh (set_session i f s) = v_fresh s" "v_root (set_session i f s) = v_root s"
  "nd (set_session i f s) = nd s"
  by (simp_all add: set_session_def nd_def fun_eq_iff)

lemma GetChild_nodes: "v_nodes s' = v_nodes s \<Longrightarrow> GetChild s' = GetChild s"
  by (intro ext) (simp add: GetChild_def nd_def split: option.split)

lemma keeps_nodes:
  assumes "v_nodes s' = v_nodes s" "v_root s' = v_root s"
  shows "keeps T0 X s0 T s' = keeps T0 X s0 T s"
  using GetChild_nodes [OF assms(1)] assms by (simp add: keeps_def nd_def)

section \<open>A new child\<close>

lemma new_child:
  assumes "steady E s" "tree_ok s T" "occurs [] T ms (Tree p ts)" "GetChild s p clause = None" "length (tnodes T) + 1 < 2 ^ 31"
  shows "\<exists>s1 s2 T'. GetNewDataNode E clause d s = (Some (v_fresh s), s1) \<and> PutChild E p (v_fresh s) nt1 nt2 s1 = Ret (B_NO_ERROR, s2) \<and>
    tree_ok s2 T' \<and> set (tnodes T') = insert (v_fresh s) (set (tnodes T)) \<and> occurs [] T' (p # ms) (Tree (v_fresh s) []) \<and>
    GetChild s2 p clause = Some (v_fresh s) \<and> d_data (nd s2 (v_fresh s)) = d \<and> keeps T {} s T' s2 \<and>
    map (\<lambda>(i, x). (i, static x)) (v_sessions s2) = map (\<lambda>(i, x). (i, static x)) (v_sessions s)"
proof -
  obtain new where new: "new = v_fresh s" by simp
  have A: "x_alloc E k" for k using assms(1) by (simp add: steady_def)
  obtain s0 where s0: "s0 = snd (request E s)" by simp
  have rq: "request E s = (True, s0)" "v_fresh s0 = v_fresh s" "v_root s0 = v_root s" "v_sessions s0 = v_sessions s" "nd s0 = nd s"
    using A by (simp_all add: s0 request_def nd_def fun_eq_iff)
  obtain s1 where s1: "s1 = set_nd new (\<lambda>_. Init clause d DataNode_new) s0\<lparr>v_fresh := Suc new\<rparr>" by simp
  have get: "GetNewDataNode E clause d s = (Some new, s1)" by (simp add: GetNewDataNode_def rq s1 new)
  have n1: "nd s1 m = nd s m" if "m \<noteq> new" for m using that by (simp add: s1 rq)
  have n1': "nd s1 new = Init clause d DataNode_new" by (simp add: s1)
  have f1: "v_fresh s1 = Suc new" "v_root s1 = v_root s" "v_sessions s1 = v_sessions s"
    using rq by (simp_all add: s1 set_nd_def)
  have seat: "seated s ms (Tree p ts)" by (rule tree_ok_seated [OF assms(2,3)])
  have nn: "new \<notin> set (ms @ tnodes (Tree p ts))" using occurs_size(2) [OF assms(2,3)] by (auto simp: new)
  have size: "length ms + length (tnodes (Tree p ts)) + 1 < 2 ^ 31" using occurs_size(1) [OF assms(2,3)] assms(5) by simp
  have seat1: "seated s1 ms (Tree p ts)"
  proof (rule seated_cong [OF seat])
    fix m assume "m \<in> set (ms @ tnodes (Tree p ts))"
    then have "m \<noteq> new" using nn by metis
    then show "shape_of (nd s1 m) = shape_of (nd s m)" by (simp add: n1)
  qed (simp add: f1 new)
  have kids: "kids_of (nd s p) = map (\<lambda>t. (troot t, troot t)) ts" using seat by (simp add: seated_def nd_def)
  have none: "clause \<notin> set (map (\<lambda>t. d_name (nd s1 (troot t))) ts)"
  proof -
    have "\<forall>t\<in>set ts. d_name (nd s (troot t)) \<noteq> clause"
      using assms(4) unfolding GetChild_kids kids by (auto simp: find_child_def find_None_iff nd_def)
    moreover have "troot t \<noteq> new" if "t \<in> set ts" for t
    proof -
      have "troot t \<in> set (below ts)" unfolding set_below using that tnodes_root by blast
      then show ?thesis using nn by auto
    qed
    ultimately show ?thesis using n1 by auto
  qed
  have fr: "length ms + length (tnodes (Tree p ts)) + 1 \<le> v_fresh s1"
    using seat by (simp add: seated_def f1 new)
  obtain s2 where s2: "PutChild E p new nt1 nt2 s1 = Ret (B_NO_ERROR, s2)" "node_frame {p, new} s1 s2"
    "tree_part (nd s2 p) = tree_part ((nd s1 p)\<lparr>d_children := Some (kids_of (nd s1 p) @ [(new, new)])\<rparr>)"
    "tree_part (nd s2 new) = tree_part ((nd s1 new)\<lparr>d_parent := Some p, d_depth := of_nat (Suc (length ms))\<rparr>)"
    "seated s2 ms (Tree p (ts @ [Tree new []]))"
    using PutChild_new [OF _ seat1 nn _ _ _ size fr, of E nt1 nt2] none assms(1) f1(3)
    by (auto simp: n1' Init_def DataNode_new_def kids_of_def index_of_def steady_sessions [of s1 s])
  have pn: "p \<noteq> new" using nn by auto
  have sc: "tree_part (nd s2 m) = tree_part (nd s m)" if "m \<noteq> p" "m \<noteq> new" for m
    using s2(2) that n1 by (simp add: node_frame_def)
  have nm: "d_name (nd s2 m) = d_name (nd s m)" if "m \<noteq> new" for m
    using s2(2) that n1 by (simp add: node_frame_def)
  have fin: "v_fresh s2 = Suc new" "v_root s2 = v_root s" using s2(2) f1 by (simp_all add: node_frame_def)
  obtain T' where T': "T' = graft (Tree p (ts @ [Tree new []])) T" by simp
  have ok: "tree_ok s2 T'" "set (tnodes T') = insert new (set (tnodes T))"
    using tree_ok_new_leaf [OF assms(2,3,5), of s2] s2(5) fin sc nm [OF pn] by (simp_all add: T' new)
  have dT: "distinct (tnodes T)" using assms(2) by (simp add: tree_ok_def seated_def)
  have "occurs [] T' ms (Tree p (ts @ [Tree new []]))" unfolding T' by (rule occurs_graft [OF dT assms(3)]) simp
  then have occ: "occurs [] T' (p # ms) (Tree new [])" by (rule occurs.down) simp
  have nT: "new \<notin> set (tnodes T)" using assms(2) by (auto simp: tree_ok_def new)
  have kp: "kids_of (nd s2 p) = kids_of (nd s p) @ [(new, new)]"
    using s2(3) n1 [OF pn] by (simp add: core_eq_iff kids_of_def)
  have kept: "GetChild s2 m key = Some c" if m: "m \<in> set (tnodes T)" and g: "GetChild s m key = Some c" for m key c
  proof (rule GetChild_kept [OF _ _ g])
    show "kids_of (nd s2 m) = kids_of (nd s m) @ (if m = p then [(new, new)] else [])"
    proof (cases "m = p")
      case False
      moreover have "m \<noteq> new" using m nT by metis
      ultimately show ?thesis using sc [of m] by (simp add: core_eq_iff kids_of_def)
    qed (simp add: kp)
    show "d_name (nd s2 k) = d_name (nd s k)" if "(k, c) \<in> set (kids_of (nd s m))" for k c
      using tree_ok_kids [OF assms(2) m that] nT by (intro nm) auto
  qed
  have name: "d_name (nd s2 new) = clause" "d_data (nd s2 new) = d"
    using s2(4) by (simp_all add: n1' core_eq_iff Init_def)
  have data: "d_data (nd s2 m) = d_data (nd s m)" if "m \<noteq> new" for m
    using sc [of m] s2(3) n1 [OF that] that by (cases "m = p") (simp_all add: core_eq_iff)
  have "find_child (v_nodes s2) (kids_of (nd s p)) clause = find_child (v_nodes s) (kids_of (nd s p)) clause"
  proof (rule find_child_names)
    fix k c assume "(k, c) \<in> set (kids_of (nd s p))"
    then have "k \<in> set (tnodes T)" using tree_ok_kids [OF assms(2) _] occurs_nodes [OF assms(3)] by auto
    then have "k \<noteq> new" using nT by metis
    then show "d_name (v_nodes s2 k) = d_name (v_nodes s k)" using nm [of k] by (simp add: nd_def)
  qed
  then have "GetChild s2 p clause = Some new"
    using assms(4) name unfolding GetChild_kids kp by (auto simp: find_child_def find_append nd_def split: option.splits)
  moreover have ne: "m \<noteq> new" if "m \<in> set (tnodes T)" for m using that nT by metis
  moreover have "keeps T {} s T' s2"
    unfolding keeps_def using ok(2) fin(2) kept nm [OF ne] data [OF ne] by auto
  moreover have "map (\<lambda>(i, x). (i, static x)) (v_sessions s2) = map (\<lambda>(i, x). (i, static x)) (v_sessions s)"
    using s2(2) f1(3) by (simp add: node_frame_def)
  ultimately show ?thesis
    using get s2(1) ok occ name unfolding new [symmetric]
    by (intro exI [of _ s1] exI [of _ s2] exI [of _ T']) simp
qed

section \<open>The quota of a session\<close>

definition quota :: "('m, 'r, 'f) server \<Rightarrow> string \<Rightarrow> nref \<Rightarrow> u32 \<Rightarrow> u32 \<Rightarrow> bool" where
  "quota s this d c mx \<longleftrightarrow> (\<exists>x. session_of s this = Some x \<and> s_sessionDir x = Some d \<and> s_currentNodeCount x = c \<and> s_maxNodeCount x = mx)"

lemma session_static:
  assumes "map (\<lambda>(i, x). (i, static x)) (v_sessions s') = map (\<lambda>(i, x). (i, static x)) (v_sessions s)"
  shows "map_option static (session_of s' i) = map_option static (session_of s i)"
proof -
  have "map_option static (map_of xs i) = map_of (map (\<lambda>(i, x). (i, static x)) xs) i" for xs :: "(string \<times> ('a, 'b, 'c) session) list"
    by (induction xs) auto
  then show ?thesis using assms by (simp add: session_of_def)
qed

lemma quota_static:
  assumes "map (\<lambda>(i, x). (i, static x)) (v_sessions s') = map (\<lambda>(i, x). (i, static x)) (v_sessions s)" "quota s this d c mx"
  shows "quota s' this d c mx"
proof -
  obtain x where x: "session_of s this = Some x" "s_sessionDir x = Some d" "s_currentNodeCount x = c" "s_maxNodeCount x = mx"
    using assms(2) by (auto simp: quota_def)
  then obtain y where y: "session_of s' this = Some y" "static y = static x"
    using session_static [OF assms(1), of this] by auto
  have "s_sessionDir (static y) = s_sessionDir (static x)" "s_currentNodeCount (static y) = s_currentNodeCount (static x)"
    "s_maxNodeCount (static y) = s_maxNodeCount (static x)" by (simp_all add: y(2))
  then show ?thesis using x y(1) by (simp add: quota_def static_def)
qed

lemma quota_same: "same_tree s s' \<Longrightarrow> quota s this d c mx \<Longrightarrow> quota s' this d c mx"
  by (rule quota_static) (simp_all add: same_tree_def)

lemma quota_count: "quota s this d c mx \<Longrightarrow> quota (count_node this s) this d (c + 1) mx"
  by (auto simp: quota_def count_node_def session_of_set)

lemma steady_count: "steady E (count_node this s) = steady E s"
  unfolding steady_def count_node_def set_session_def by (auto split: prod.splits)

lemma quota_room: "quota s this d c mx \<Longrightarrow> may_add_node s this = (c < mx)"
  by (auto simp: quota_def may_add_node_def)

section \<open>One clause of a path\<close>

lemma need_child_plain:
  assumes "steady E s" "tree_ok s T" "occurs [] T ms (Tree p ts)" "quota s this d c mx" "c < mx" "length (tnodes T) + 1 < 2 ^ 31"
  shows "\<exists>n alloced s' T' us k. need_child fuel E this data True quiet False before p clause isLast s = Ret (Some (n, alloced), s') \<and>
    steady E s' \<and> tree_ok s' T' \<and> occurs [] T' (p # ms) (Tree n us) \<and> GetChild s' p clause = Some n \<and> keeps T {} s T' s' \<and>
    quota s' this d (c + of_nat k) mx \<and> length (tnodes T') = length (tnodes T) + k \<and> k \<le> 1"
proof (cases "GetChild s p clause")
  case (Some n)
  have sh: "shaped (v_nodes s) ms (Tree p ts)" using tree_ok_seated [OF assms(2,3)] by (simp add: seated_def)
  obtain t where t: "t \<in> set ts" "n = troot t" using GetChild_SomeD [OF sh Some] by (metis in_set_conv_decomp)
  have "occurs [] T (p # ms) (Tree n (tkids t))" using occurs.down [OF assms(3) t(1)] t(2) by (cases t) simp
  then show ?thesis
    using assms Some keeps_refl by (intro exI [of _ n] exI [of _ False] exI [of _ s] exI [of _ T] exI [of _ "tkids t"] exI [of _ 0])
      (simp add: need_child_def keeps_refl)
next
  case None
  obtain nt where nt: "nt = (if quiet \<or> isLast then None else Some this)" by simp
  obtain s1 s2 T' where N: "GetNewDataNode E clause (if isLast then data else x_blank E) s = (Some (v_fresh s), s1)"
    "PutChild E p (v_fresh s) (Some this) nt s1 = Ret (B_NO_ERROR, s2)" "tree_ok s2 T'" "set (tnodes T') = insert (v_fresh s) (set (tnodes T))"
    "occurs [] T' (p # ms) (Tree (v_fresh s) [])" "GetChild s2 p clause = Some (v_fresh s)" "keeps T {} s T' s2"
    "map (\<lambda>(i, x). (i, static x)) (v_sessions s2) = map (\<lambda>(i, x). (i, static x)) (v_sessions s)"
    using new_child [OF assms(1-3) None assms(6), of "if isLast then data else x_blank E" "Some this" nt] by blast
  obtain s3 where s3: "s3 = count_node this s2" by simp
  have v: "v_nodes s3 = v_nodes s2" "v_fresh s3 = v_fresh s2" "v_root s3 = v_root s2" by (simp_all add: s3 count_node_def)
  have run: "need_child fuel E this data True quiet False before p clause isLast s = Ret (Some (v_fresh s, True), s3)"
    using None N(1,2) assms(5) quota_room [OF assms(4)] by (simp add: need_child_def nt [symmetric] s3)
  have st: "steady E s3" unfolding s3 steady_count using assms(1) N(8) unfolding steady_static by (simp only:)
  have q: "quota s3 this d (c + 1) mx" unfolding s3 by (rule quota_count [OF quota_static [OF N(8) assms(4)]])
  have "v_fresh s \<notin> set (tnodes T)" using assms(2) by (auto simp: tree_ok_def)
  then have "card (set (tnodes T')) = Suc (card (set (tnodes T)))" unfolding N(4) by simp
  then have len: "length (tnodes T') = length (tnodes T) + 1"
    using N(3) assms(2) by (simp add: tree_ok_def seated_def distinct_card)
  have ok: "tree_ok s3 T'" "GetChild s3 p clause = Some (v_fresh s)" "keeps T {} s T' s3"
    using N(3,6,7) tree_ok_nodes [OF v] GetChild_nodes [OF v(1)] keeps_nodes [OF v(1,3)] by simp_all
  show ?thesis
    by (intro exI [of _ "v_fresh s"] exI [of _ True] exI [of _ s3] exI [of _ T'] exI [of _ "[]"] exI [of _ 1])
      (use run st ok N(5) q len in simp)
qed

section \<open>The payload\<close>

lemma tree_ok_shape:
  assumes "\<And>m. shape_of (nd s' m) = shape_of (nd s m)" "v_fresh s' = v_fresh s" "v_root s' = v_root s" "tree_ok s T"
  shows "tree_ok s' T"
  using assms seated_cong [of s "[]" T s'] by (simp add: tree_ok_def)

lemma GetChild_shape:
  assumes "\<And>m. shape_of (nd s' m) = shape_of (nd s m)"
  shows "GetChild s' n key = GetChild s n key"
proof -
  have "kids_of (nd s' n) = kids_of (nd s n)" using assms [of n] by (simp add: shape_of_def)
  moreover have "find_child (v_nodes s') kids key = find_child (v_nodes s) kids key" for kids
    by (rule find_child_names) (use assms in \<open>simp add: shape_of_def nd_def\<close>)
  ultimately show ?thesis by (simp add: GetChild_kids)
qed

lemma SetData_placed:
  assumes "steady E s" "tree_ok s T" "occurs [] T ms (Tree n ts)" "quota s this d c mx"
  shows "\<exists>s'. SetData E n data nt created s = Ret s' \<and> steady E s' \<and> tree_ok s' T \<and> d_data (nd s' n) = data \<and> keeps T {n} s T s' \<and>
    quota s' this d c mx \<and> GetChild s' = GetChild s"
proof -
  obtain s1 where s1: "s1 = set_nd n (\<lambda>d. d\<lparr>d_data := data\<rparr>) s" by simp
  have sh1: "shape_of (nd s1 m) = shape_of (nd s m)" for m by (simp add: s1 shape_of_def kids_of_def index_of_def)
  have f1: "v_fresh s1 = v_fresh s" "v_root s1 = v_root s" "v_sessions s1 = v_sessions s" by (simp_all add: s1 set_nd_def)
  have ok1: "tree_ok s1 T" by (rule tree_ok_shape [OF sh1 f1(1,2) assms(2)])
  have st1: "steady E s1" using assms(1) steady_sessions [OF f1(3)] by simp
  have pl: "placed s1 n ms" using tree_ok_seated [OF ok1 assms(3)] by (simp add: seated_def)
  obtain old where old: "old = (if created then None else d_data (nd s n))" by simp
  obtain s' where s': "(case nt of None \<Rightarrow> Ret s1 | Some i \<Rightarrow> NotifySubscribersThatNodeChanged E i n old False s1) = Ret s'" "same_tree s1 s'"
  proof (cases nt)
    case (Some i)
    then show ?thesis using that NotifySubscribersThatNodeChanged_returns [OF st1 pl, of i old False] by (auto simp: returns_def)
  qed (use that [of s1] in simp)
  have run: "SetData E n data nt created s = Ret s'" using s'(1) unfolding SetData_def Let_def old s1 [symmetric] by simp
  have sh: "shape_of (nd s' m) = shape_of (nd s m)" for m
    using s'(2) sh1 core_shape [of "nd s' m" "nd s1 m"] by (simp add: same_tree_def)
  have f: "v_fresh s' = v_fresh s" "v_root s' = v_root s" using s'(2) f1 by (simp_all add: same_tree_def)
  have data: "d_data (nd s' m) = (if m = n then data else d_data (nd s m))" for m
    using same_treeD(2) [OF s'(2), of m] by (simp add: s1)
  have gc: "GetChild s' = GetChild s" by (intro ext GetChild_shape sh)
  have "keeps T {n} s T s'" using sh gc f data by (simp add: keeps_def shape_of_def)
  moreover have "quota s' this d c mx"
    by (rule quota_same [OF s'(2)]) (rule quota_static [OF _ assms(4)], simp add: f1)
  ultimately show ?thesis
    using run steady_same [OF s'(2) st1] tree_ok_shape [OF sh f assms(2)] data gc by (intro exI [of _ s']) simp
qed

section \<open>A whole path\<close>

lemma set_node_plain:
  assumes "cs \<noteq> []" "list_all clause_ok cs" "steady E s" "tree_ok s T" "occurs [] T ms (Tree p ts)" "quota s this d c mx"
    "unat c + length cs \<le> unat mx" "length (tnodes T) + length cs < 2 ^ 31"
  shows "\<exists>n s' T' k. set_node fuel E this data True True quiet False before p (join cs) s = Ret (B_NO_ERROR, s') \<and>
    steady E s' \<and> tree_ok s' T' \<and> n \<in> set (tnodes T') \<and> find_node s' p (join cs) = Some n \<and> d_data (nd s' n) = data \<and>
    keeps T {n} s T' s' \<and> quota s' this d (c + of_nat k) mx \<and> length (tnodes T') = length (tnodes T) + k \<and> k \<le> length cs"
  using assms
proof (induction cs arbitrary: s T ms p ts c)
  case (Cons cl cs)
  have lt: "c < mx" using Cons.prems(7) by (simp add: word_less_nat_alt)
  have nc: "next_clause (join (cl # cs)) = (cl, if cs = [] then None else Some (join cs))"
    using Cons.prems(2) by (intro next_clause_join) simp
  have room: "length (tnodes T) + 1 < 2 ^ 31" using Cons.prems(8) by simp
  obtain n1 alloced s1 T1 us j where N: "need_child fuel E this data True quiet False before p cl (cs = []) s = Ret (Some (n1, alloced), s1)"
    "steady E s1" "tree_ok s1 T1" "occurs [] T1 (p # ms) (Tree n1 us)" "GetChild s1 p cl = Some n1" "keeps T {} s T1 s1"
    "quota s1 this d (c + of_nat j) mx" "length (tnodes T1) = length (tnodes T) + j" "j \<le> 1"
    using need_child_plain [OF Cons.prems(3-6) lt room, of fuel data quiet before cl "cs = []"] by blast
  have pT: "p \<in> set (tnodes T1)"
    using occurs_nodes [OF Cons.prems(5)] N(6) by (auto simp: keeps_def)
  show ?case
  proof (cases "cs = []")
    case True
    obtain s2 where S: "SetData E n1 data (if quiet then None else Some this) alloced s1 = Ret s2" "steady E s2" "tree_ok s2 T1"
      "d_data (nd s2 n1) = data" "keeps T1 {n1} s1 T1 s2" "quota s2 this d (c + of_nat j) mx" "GetChild s2 = GetChild s1"
      using SetData_placed [OF N(2-4,7), of data "if quiet then None else Some this" alloced] by blast
    have "set_node fuel E this data True True quiet False before p (join (cl # cs)) s = Ret (B_NO_ERROR, s2)"
      using True nc N(1) S(1) by (subst set_node.simps) simp
    moreover have "find_node s2 p (join (cl # cs)) = Some n1"
      using True nc N(5) S(7) by (subst find_node.simps) simp
    moreover have "keeps T {n1} s T1 s2" by (rule keeps_trans [OF N(6) S(5)]) auto
    moreover have "n1 \<in> set (tnodes T1)" using occurs_nodes [OF N(4)] by auto
    ultimately show ?thesis
      using S N(8,9) by (intro exI [of _ n1] exI [of _ s2] exI [of _ T1] exI [of _ j]) simp
  next
    case False
    have small: "unat (c + of_nat j) + length cs \<le> unat mx"
    proof -
      have "unat c + j < 2 ^ 32" using Cons.prems(7) N(9) unsigned_less [of mx, where ?'a = nat] by simp
      then have "unat (c + of_nat j) = unat c + j" using N(9) by (subst unat_add_lem [THEN iffD1]) (auto simp: unat_of_nat)
      then show ?thesis using Cons.prems(7) N(9) by simp
    qed
    have ok: "list_all clause_ok cs" "length (tnodes T1) + length cs < 2 ^ 31" using Cons.prems(2,8) N(8,9) by simp_all
    obtain n s' T' k where I: "set_node fuel E this data True True quiet False before n1 (join cs) s1 = Ret (B_NO_ERROR, s')"
      "steady E s'" "tree_ok s' T'" "n \<in> set (tnodes T')" "find_node s' n1 (join cs) = Some n" "d_data (nd s' n) = data"
      "keeps T1 {n} s1 T' s'" "quota s' this d (c + of_nat j + of_nat k) mx" "length (tnodes T') = length (tnodes T1) + k" "k \<le> length cs"
      using Cons.IH [OF False ok(1) N(2-4,7) small ok(2)] by blast
    have run: "set_node fuel E this data True True quiet False before p (join (cl # cs)) s = Ret (B_NO_ERROR, s')"
      using False nc N(1) I(1) by (subst set_node.simps) simp
    have found: "find_node s' p (join (cl # cs)) = Some n"
    proof -
      have "GetChild s' p cl = Some n1" using I(7) pT N(5) by (auto simp: keeps_def)
      then show ?thesis using False nc I(5) by (subst find_node.simps) simp
    qed
    have kept: "keeps T {n} s T' s'" by (rule keeps_trans [OF N(6) I(7)]) auto
    show ?thesis
      by (rule exI [of _ n], intro exI [of _ s'] exI [of _ T'] exI [of _ "j + k"]) 
        (use run found kept I N(8,9) in \<open>simp add: add.assoc\<close>)
  qed
qed simp

section \<open>Old paths\<close>

lemma GetChild_tree:
  assumes "tree_ok s T" "n \<in> set (tnodes T)" "GetChild s n key = Some c"
  shows "c \<in> set (tnodes T)"
proof -
  obtain ms ts where o: "occurs [] T ms (Tree n ts)" using occurs_exists [OF assms(2)] by blast
  have "shaped (v_nodes s) ms (Tree n ts)" using tree_ok_seated [OF assms(1) o] by (simp add: seated_def)
  from GetChild_SomeD [OF this assms(3)] obtain t where "t \<in> set ts" "c = troot t" by (metis in_set_conv_decomp)
  then have "c \<in> set (below ts)" unfolding set_below using tnodes_root by blast
  then show ?thesis using occurs_nodes [OF o] by auto
qed

lemma find_node_kept:
  "tree_ok s T \<Longrightarrow> keeps T X s T' s' \<Longrightarrow> n \<in> set (tnodes T) \<Longrightarrow> find_node s n path = Some m \<Longrightarrow> find_node s' n path = Some m"
proof (induction "length path" arbitrary: n path rule: less_induct)
  case less
  obtain cl more where nc: "next_clause path = (cl, more)" by fastforce
  obtain c where c: "GetChild s n cl = Some c" using less.prems(4) nc
    by (subst (asm) find_node.simps) (auto split: option.splits)
  have c': "GetChild s' n cl = Some c" using less.prems(2,3) c by (auto simp: keeps_def)
  show ?case
  proof (cases more)
    case None
    then show ?thesis using less.prems(4) nc c c' by (subst (asm) find_node.simps, subst find_node.simps) simp
  next
    case (Some rest)
    then have "length rest < length path" using next_clause_shorter nc by simp
    moreover have "find_node s c rest = Some m" using less.prems(4) nc c Some by (subst (asm) find_node.simps) simp
    ultimately have "find_node s' c rest = Some m"
      using less.hyps [OF _ less.prems(1,2) GetChild_tree [OF less.prems(1,3) c]] by simp
    then show ?thesis using nc c' Some by (subst find_node.simps) simp
  qed
qed

lemma GetDataNode_kept:
  assumes "tree_ok s T" "keeps T X s T' s'" "quota s this d c mx" "quota s' this d c' mx" "d \<in> set (tnodes T)"
    "GetDataNode s this path = Some m"
  shows "GetDataNode s' this path = Some m"
proof -
  have dirs: "session_dir s this = Some d" "session_dir s' this = Some d"
    using assms(3,4) by (auto simp: quota_def session_dir_def)
  have root: "v_root s \<in> set (tnodes T)" "v_root s' = v_root s"
    using assms(1,2) tnodes_root [of T] by (simp_all add: tree_ok_def keeps_def)
  show ?thesis
    using assms(6) dirs root find_node_kept [OF assms(1,2,5)] find_node_kept [OF assms(1,2) root(1)]
    by (auto simp: GetDataNode_def split: if_splits)
qed

end
