(* ===== verification/Node_Props.thy ===== *)
theory Node_Props
  imports Node_Set
begin

text \<open>
  The properties of the data tree. The tree \<open>T\<close> of node addresses is the shape of the server's tree
  (\<open>tree_ok\<close>); \<open>occurs [] T ms t\<close> says that \<open>t\<close> is a subtree of it and \<open>ms\<close> the nodes above \<open>t\<close>,
  nearest first.
\<close>

section \<open>A small server\<close>

text \<open>The root, a host, its session, an indexed child of the session and a node below that.\<close>

definition ex_world :: "(nat, branch list, nat) server_env" where
  "ex_world = \<lparr>x_alloc = \<lambda>_. True, x_regexec = matches_some, x_fmatch = \<lambda>_ _. True, x_regcomp = ex_regcomp, x_blank = Some 0\<rparr>"

definition ex_session :: "(nat, branch list, nat) session" where
  "ex_session = \<lparr>s_reflectToSelf = True, s_subscriptionsEnabled = True,
     s_subscriptions = PathMatcher_new, s_nextSubscriptionMessage = None, s_nextIndexSubscriptionMessage = None,
     s_maxSubscriptionMessageItems = 50, s_sessionDir = Some 2, s_indexingPresent = True, s_currentNodeCount = 2,
     s_maxNodeCount = 100, s_outgoing = Some []\<rparr>"

definition ex_node :: "nref option \<Rightarrow> nref list \<Rightarrow> nref list \<Rightarrow> u32 \<Rightarrow> string \<Rightarrow> nat dnode" where
  "ex_node p kids ix depth name = \<lparr>d_parent = p, d_data = Some 0, d_children = Some (map (\<lambda>k. (k, k)) kids),
     d_index = Some ix, d_counter = 1, d_name = name, d_depth = depth, d_subscribers = []\<rparr>"

definition ex_nodes :: "nref \<Rightarrow> nat dnode" where
  "ex_nodes n = (if n = 0 then ex_node None [1] [] 0 [] else if n = 1 then ex_node (Some 0) [2] [] 1 ''h''
     else if n = 2 then ex_node (Some 1) [3] [3] 2 ''s'' else if n = 3 then ex_node (Some 2) [4] [] 3 ''I0''
     else if n = 4 then ex_node (Some 3) [] [] 4 ''x'' else DataNode_new)"

definition ex_server :: "(nat, branch list, nat) server" where
  "ex_server = \<lparr>v_nodes = ex_nodes, v_fresh = 5, v_root = 0, v_subsDirty = False,
     v_sessions = [(''s'', ex_session)], v_allocs = 0\<rparr>"

definition ex_shape :: tree where
  "ex_shape = Tree 0 [Tree 1 [Tree 2 [Tree 3 [Tree 4 []]]]]"

lemma ex_steady: "steady ex_world ex_server"
  by (simp add: steady_def ex_world_def ex_server_def ex_session_def)

lemma ex_nodes_at: "ex_nodes 0 = ex_node None [1] [] 0 []" "ex_nodes (Suc 0) = ex_node (Some 0) [2] [] 1 ''h''"
  "ex_nodes 2 = ex_node (Some 1) [3] [3] 2 ''s''" "ex_nodes 3 = ex_node (Some 2) [4] [] 3 ''I0''"
  "ex_nodes 4 = ex_node (Some 3) [] [] 4 ''x''"
  by (simp_all add: ex_nodes_def)

lemma ex_shaped: "shaped ex_nodes [] ex_shape"
  unfolding ex_shape_def
  by (simp add: ex_nodes_at ex_node_def kids_of_def index_of_def index_ok_def starts_with_I_def)

lemma ex_shape_ok: "tree_ok ex_server ex_shape"
proof -
  have "placed ex_server 0 []" by (simp add: placed_def nd_def ex_server_def ex_nodes_at ex_node_def)
  then show ?thesis
    using ex_shaped by (simp add: tree_ok_def seated_def ex_server_def ex_shape_def)
qed

lemma ex_occurs:
  "occurs [] ex_shape [1, 0] (Tree 2 [Tree 3 [Tree 4 []]])" "occurs [] ex_shape [2, 1, 0] (Tree 3 [Tree 4 []])"
proof -
  have "occurs [] ex_shape [0] (Tree 1 [Tree 2 [Tree 3 [Tree 4 []]]])"
    using occurs.down [OF occurs.here [of "[]" ex_shape, unfolded ex_shape_def]] by (simp add: ex_shape_def)
  then show "occurs [] ex_shape [1, 0] (Tree 2 [Tree 3 [Tree 4 []]])" by (rule occurs.down) simp
  then show "occurs [] ex_shape [2, 1, 0] (Tree 3 [Tree 4 []])" by (rule occurs.down) simp
qed

section \<open>Paths\<close>

text \<open>
  C36: The path of a node of the tree, from any starting depth, fills the buffer computed for it exactly and is the
  names from that depth down to the node, separated by slashes, with a leading slash for the whole path.
\<close>

theorem GetNodePath_text:
  assumes "tree_ok s T" "occurs [] T ms (Tree n ts)" "\<forall>k. x_alloc E k"
  shows "\<exists>k. GetNodePath E n startDepth s = Ret (B_NO_ERROR, path_text startDepth (names_down s n ms), s\<lparr>v_allocs := k\<rparr>)"
proof -
  have "placed s n ms" using tree_ok_seated [OF assms(1,2)] by (simp add: seated_def)
  from GetNodePath_placed [OF this, of E startDepth] assms(3) show ?thesis by blast
qed

lemma GetNodePath_text_witness: "\<exists>k. GetNodePath ex_world 3 1 ex_server = Ret (B_NO_ERROR, ''h/s/I0'', ex_server\<lparr>v_allocs := k\<rparr>)"
proof -
  have "path_text 1 (names_down ex_server 3 [2, 1, 0]) = ''h/s/I0''"
    by (simp add: path_text_def names_down_def nd_def ex_server_def ex_nodes_at ex_node_def)
  then show ?thesis using GetNodePath_text [OF ex_shape_ok ex_occurs(2), of ex_world 1] by (simp add: ex_world_def)
qed

section \<open>Removal\<close>

text \<open>
  C28: Removing a child with everything below it, with or without telling the subscribers, always ends; it takes
  exactly the nodes of the child's subtree out of the tree, keeps the tree well-formed, takes the child out of the
  table and the ordered index of its parent and nothing else, lowers the count that is passed by the number of
  nodes removed, and leaves every other node as it was. (The comment in \<^verbatim>\<open>DataNode.h\<close> says that the count is
  incremented; the code decrements it, as befits the node count of a session, which is what is passed.)
\<close>

theorem RemoveChild_subtree:
  assumes "steady E s" "tree_ok s T" "occurs [] T ms (Tree p (ts1 @ t # ts2))" "2 * length (tnodes t) \<le> fuel"
  shows "\<exists>s'. RemoveChild fuel E p (d_name (nd s (troot t))) notify True count s =
      Ret (B_NO_ERROR, map_option (\<lambda>c. c - of_nat (length (tnodes t))) count, s') \<and>
    tree_ok s' (graft (Tree p (ts1 @ ts2)) T) \<and>
    set (tnodes (graft (Tree p (ts1 @ ts2)) T)) = set (tnodes T) - set (tnodes t) \<and>
    d_children (nd s' p) = map_option (filter (\<lambda>(k, _). k \<noteq> troot t)) (d_children (nd s p)) \<and>
    d_index (nd s' p) = map_option (filter (\<lambda>i. i \<noteq> troot t)) (d_index (nd s p)) \<and>
    (\<forall>m. m \<noteq> p \<longrightarrow> m \<notin> set (tnodes t) \<longrightarrow> tree_part (nd s' m) = tree_part (nd s m))"
proof -
  obtain s' where s': "RemoveChild fuel E p (d_name (nd s (troot t))) notify True count s = Ret (B_NO_ERROR, lessened count (length (tnodes t)), s')"
    "tree_ok s' (graft (Tree p (ts1 @ ts2)) T)" "set (tnodes (graft (Tree p (ts1 @ ts2)) T)) = set (tnodes T) - set (tnodes t)"
    "node_frame (insert p (set (tnodes t))) s s'" "tree_part (nd s' p) = tree_part (without (troot t) (nd s p))"
    using RemoveChild_tree [OF assms, of notify count] by blast
  then show ?thesis by (intro exI [of _ s']) (auto simp: lessened_def node_frame_def core_eq_iff without_def)
qed

lemma RemoveChild_subtree_witness:
  "\<exists>s'. RemoveChild 4 ex_world 2 ''I0'' (Some ''s'') True (Some 2) ex_server = Ret (B_NO_ERROR, Some 0, s') \<and>
    d_children (nd s' 2) = Some [] \<and> d_index (nd s' 2) = Some []"
proof -
  have at: "nd ex_server 2 = ex_node (Some 1) [3] [3] 2 ''s''" "nd ex_server 3 = ex_node (Some 2) [4] [] 3 ''I0''"
    by (simp_all add: nd_def ex_server_def ex_nodes_at)
  show ?thesis
    using RemoveChild_subtree [OF ex_steady ex_shape_ok, of "[1, 0]" 2 "[]" "Tree 3 [Tree 4 []]" "[]" 4 "Some ''s''" "Some 2"] ex_occurs(1)
    unfolding at by (auto simp: at ex_node_def)
qed

section \<open>Insertion in order\<close>

text \<open>
  C29: Inserting a child in order, under a name given or under the first unused name \<open>I<n>\<close>, ends with a new node under
  a name that no child of the parent had; the tree stays well-formed and gets just that node; the entry of the
  ordered index stands before the entry asked for, or last, the old entries keep their order, and no other node
  changes.
\<close>

theorem InsertOrderedChild_index:
  assumes "steady E s" "tree_ok s T" "occurs [] T ms (Tree p ts)" "length (tnodes T) + 1 < 2 ^ 31"
    "case optNodeName of None \<Rightarrow> length ts < fuel \<and> fuel \<le> 2 ^ 32
      | Some nm \<Rightarrow> starts_with_I nm \<and> length nm \<le> 80 \<and> \<not> HasChild s p nm"
  shows "\<exists>s' added i. InsertOrderedChild fuel E p data before optNodeName this notify want s = Ret (B_NO_ERROR, added, s') \<and>
    (\<exists>new. new \<notin> set (tnodes T) \<and> set (tnodes (graft (Tree p (ts @ [Tree new []])) T)) = insert new (set (tnodes T)) \<and>
      tree_ok s' (graft (Tree p (ts @ [Tree new []])) T) \<and>
      \<not> HasChild s p (d_name (nd s' new)) \<and> starts_with_I (d_name (nd s' new)) \<and>
      (\<forall>name. optNodeName = Some name \<longrightarrow> d_name (nd s' new) = name) \<and> d_data (nd s' new) = data \<and>
      i \<le> length (index_of (nd s p)) \<and> d_index (nd s' p) = Some (take i (index_of (nd s p)) @ new # drop i (index_of (nd s p))) \<and>
      (\<forall>b. before = Some b \<longrightarrow> starts_with_I b \<longrightarrow> (\<exists>m\<in>set (index_of (nd s p)). d_name (nd s m) = b) \<longrightarrow>
        i < length (index_of (nd s p)) \<and> d_name (nd s (index_of (nd s p) ! i)) = b) \<and>
      (before = None \<longrightarrow> i = length (index_of (nd s p))) \<and>
      (\<forall>m. m \<noteq> p \<longrightarrow> m \<noteq> new \<longrightarrow> tree_part (nd s' m) = tree_part (nd s m)))"
proof -
  obtain nm s' c where R: "InsertOrderedChild fuel E p data before optNodeName this notify want s =
      Ret (B_NO_ERROR, if want then Some (path_text 0 (names_down s' (v_fresh s) (p # ms)), v_fresh s) else None, s')"
    "starts_with_I nm \<and> \<not> HasChild s p nm \<and> (\<forall>name. optNodeName = Some name \<longrightarrow> nm = name)"
    "tree_ok s' (graft (Tree p (ts @ [Tree (v_fresh s) []])) T)"
    "set (tnodes (graft (Tree p (ts @ [Tree (v_fresh s) []])) T)) = insert (v_fresh s) (set (tnodes T))"
    "\<forall>m. m \<noteq> p \<longrightarrow> m \<noteq> v_fresh s \<longrightarrow> tree_part (nd s' m) = tree_part (nd s m)" "d_name (nd s' (v_fresh s)) = nm" "d_data (nd s' (v_fresh s)) = data"
    "tree_part (nd s' p) = tree_part ((nd s p)\<lparr>d_children := Some (kids_of (nd s p) @ [(v_fresh s, v_fresh s)]),
      d_index := Some (insert_at (insert_position s p before) (v_fresh s) (index_of (nd s p))), d_counter := c\<rparr>)"
    using InsertOrderedChild_tree [OF assms, of data before this notify want] by blast
  obtain i where i: "i = insert_position s p before" by simp
  have found: "i < length (index_of (nd s p)) \<and> d_name (nd s (index_of (nd s p) ! i)) = b"
    if "before = Some b" "starts_with_I b" "\<exists>m\<in>set (index_of (nd s p)). d_name (nd s m) = b" for b
    unfolding i using insert_position_found [OF that] .
  have "i \<le> length (index_of (nd s p))" unfolding i by (rule insert_position_bound)
  moreover have "before = None \<Longrightarrow> i = length (index_of (nd s p))" by (simp add: i insert_position_alt)
  moreover have "v_fresh s \<notin> set (tnodes T)" using assms(2) by (auto simp: tree_ok_def)
  ultimately show ?thesis
    using R found by (intro exI [of _ s'] exI, intro conjI exI [of _ "v_fresh s"])
      (auto simp: core_eq_iff insert_at_def i)
qed

lemma InsertOrderedChild_index_witness:
  "\<exists>s' added new. InsertOrderedChild 2 ex_world 2 (Some 5) (Some ''I0'') None ''s'' (Some ''s'') True ex_server = Ret (B_NO_ERROR, added, s') \<and>
    d_index (nd s' 2) = Some [new, 3] \<and> d_data (nd s' new) = Some 5"
proof -
  have at: "nd ex_server 2 = ex_node (Some 1) [3] [3] 2 ''s''" "nd ex_server 3 = ex_node (Some 2) [4] [] 3 ''I0''"
    by (simp_all add: nd_def ex_server_def ex_nodes_at)
  have ix: "index_of (nd ex_server 2) = [3]" by (simp add: at ex_node_def index_of_def)
  have I: "starts_with_I ''I0''" "d_name (nd ex_server 3) = ''I0''" by (simp_all add: starts_with_I_def at ex_node_def)
  have n: "length (tnodes ex_shape) + 1 < 2 ^ 31" by (simp add: ex_shape_def)
  show ?thesis
    using InsertOrderedChild_index [OF ex_steady ex_shape_ok ex_occurs(1) n, where optNodeName = None and fuel = 2 and
        data = "Some 5" and before = "Some ''I0''" and this = "''s''" and notify = "Some ''s''" and want = True]
    unfolding ix using I by auto
qed

section \<open>Nodes by path\<close>

text \<open>
  C30: Setting the payload of a path below the session's node, with as many new nodes as its quota allows, ends and
  succeeds; looking the path up then finds a node with that payload. The tree stays well-formed and loses no node, every
  other payload stays, every path that led to a node still leads to it, and the session's count of nodes grows
  by the number of nodes made, at most one for each clause.
\<close>

theorem SetDataNode_then_Get:
  assumes "steady E s" "tree_ok s T" "quota s this d c mx" "d \<in> set (tnodes T)" "cs \<noteq> []" "list_all clause_ok cs"
    "join cs \<noteq> []" "hd (join cs) \<noteq> slash" "unat c + length cs \<le> unat mx" "length (tnodes T) + length cs < 2 ^ 31"
  shows "\<exists>n s' T' k. SetDataNode fuel E this (join cs) data True True quiet False before s = Ret (B_NO_ERROR, s') \<and>
    GetDataNode s' this (join cs) = Some n \<and> d_data (nd s' n) = data \<and>
    tree_ok s' T' \<and> set (tnodes T) \<subseteq> set (tnodes T') \<and> (\<forall>m\<in>set (tnodes T). m \<noteq> n \<longrightarrow> d_data (nd s' m) = d_data (nd s m)) \<and>
    (\<forall>path m. GetDataNode s this path = Some m \<longrightarrow> GetDataNode s' this path = Some m) \<and>
    quota s' this d (c + of_nat k) mx \<and> length (tnodes T') = length (tnodes T) + k \<and> k \<le> length cs"
proof -
  obtain ms ts where o: "occurs [] T ms (Tree d ts)" using occurs_exists [OF assms(4)] by blast
  have dir: "session_dir s this = Some d" using assms(3) by (auto simp: quota_def session_dir_def)
  obtain n s' T' k where R: "set_node fuel E this data True True quiet False before d (join cs) s = Ret (B_NO_ERROR, s')"
    "tree_ok s' T'" "find_node s' d (join cs) = Some n" "d_data (nd s' n) = data" "keeps T {n} s T' s'"
    "quota s' this d (c + of_nat k) mx" "length (tnodes T') = length (tnodes T) + k" "k \<le> length cs"
    using set_node_plain [OF assms(5,6,1,2) o assms(3,9,10), of fuel data quiet before] by blast
  have set: "SetDataNode fuel E this (join cs) data True True quiet False before s = Ret (B_NO_ERROR, s')"
    using dir assms(7,8) R(1) by (simp add: SetDataNode_def)
  have get: "GetDataNode s' this (join cs) = Some n"
    using R(3,6) assms(7,8) by (auto simp: GetDataNode_def quota_def session_dir_def)
  have old: "\<forall>path m. GetDataNode s this path = Some m \<longrightarrow> GetDataNode s' this path = Some m"
    using GetDataNode_kept [OF assms(2) R(5) assms(3) R(6) assms(4)] by blast
  show ?thesis
    by (rule exI [of _ n], intro exI [of _ s'] exI [of _ T'] exI [of _ k]) (use set get old R in \<open>auto simp: keeps_def\<close>)
qed

lemma SetDataNode_then_Get_witness:
  "\<exists>n s'. SetDataNode 0 ex_world ''s'' ''a/b'' (Some 9) True True False False None ex_server = Ret (B_NO_ERROR, s') \<and>
    GetDataNode s' ''s'' ''a/b'' = Some n \<and> d_data (nd s' n) = Some 9"
proof -
  have q: "quota ex_server ''s'' 2 2 100" by (simp add: quota_def session_of_def ex_server_def ex_session_def)
  have j: "join [''a'', ''b''] = ''a/b''" by simp
  show ?thesis
    using SetDataNode_then_Get [OF ex_steady ex_shape_ok q, of "[''a'', ''b'']" 0 "Some 9" False None] unfolding j
    by (auto simp: ex_shape_def clause_ok_def)
qed

end
