(* ===== verification/Node_Walk.thy ===== *)
theory Node_Walk
  imports Node_Set
begin

text \<open>
  The traversal: which nodes it calls back for. With any matcher from the root these are the nodes that some
  entry accepts, and with a matcher of one entry, from any node, those below it that the entry accepts; each
  once, whether the children are looked up by name or iterated over.
\<close>

section \<open>What an entry accepts\<close>

text \<open>The names of the nodes below the start, whose ancestors are \<open>r\<close>, down to \<open>c\<close>, whose ancestors are \<open>ms\<close>.\<close>

definition names_below :: "('m, 'r, 'f) server \<Rightarrow> nat \<Rightarrow> nref \<Rightarrow> nref list \<Rightarrow> string list" where
  "names_below s r c ms = drop (Suc r) (map (\<lambda>m. d_name (nd s m)) (rev (c # ms)))"

definition entry_accepts :: "('m, 'r, 'f) server_env \<Rightarrow> ('r, 'f) path_entry \<Rightarrow> string list \<Rightarrow> bool" where
  "entry_accepts E e names \<longleftrightarrow> list_all2 (clause_matches (x_regexec E)) (e_parser e) names"

lemma climb_exact:
  "line ns n ms \<Longrightarrow> length sms \<le> Suc (length ms) \<Longrightarrow>
    climb rx ns sms (Some n) = Ret (list_all2 (clause_matches rx) sms (take (length sms) (map (\<lambda>m. d_name (ns m)) (n # ms))))"
proof (induction sms arbitrary: n ms)
  case (Cons sm sms)
  show ?case
  proof (cases ms)
    case Nil
    then show ?thesis using Cons.prems by (cases sms) auto
  next
    case (Cons p ps)
    have l: "line ns p ps" "d_parent (ns n) = Some p" using Cons.prems(1) Cons by simp_all
    show ?thesis
    proof (cases sms)
      case Nil
      then show ?thesis using l(2) by simp
    next
      case (Cons sm' sms')
      then show ?thesis using Cons.IH [OF l(1)] Cons.prems(2) l(2) \<open>ms = p # ps\<close> by simp
    qed
  qed
qed simp

text \<open>Only the clauses from \<open>rootDepth\<close> on are compared.\<close>

lemma PathMatches_exact:
  assumes "placed s n ms" "0 \<le> r"
  shows "PathMatches E s n optData e r = Ret (int (length (e_parser e)) = int (length ms) - r \<and>
    list_all2 (clause_matches (x_regexec E)) (drop (nat r) (e_parser e))
      (rev (take (length (e_parser e) - nat r) (map (\<lambda>m. d_name (nd s m)) (n # ms)))) \<and> FilterMatches (x_fmatch E) e optData)"
proof -
  have d: "sint (d_depth (nd s n)) = int (length ms)" "line (v_nodes s) n ms"
    using assms(1) sint_depth [of ms] by (auto simp: placed_def)
  have "climb (x_regexec E) (v_nodes s) (rev (drop (nat r) (e_parser e))) (Some n) =
      Ret (list_all2 (clause_matches (x_regexec E)) (rev (drop (nat r) (e_parser e)))
        (take (length (e_parser e) - nat r) (map (\<lambda>m. d_name (nd s m)) (n # ms))))"
    if "int (length (e_parser e)) = int (length ms) - r"
    using climb_exact [OF d(2), of "rev (drop (nat r) (e_parser e))" "x_regexec E"] that assms(2) by (simp add: nd_def)
  then show ?thesis
    unfolding PathMatches_def d(1) using list_all2_rev [of _ "drop (nat r) (e_parser e)"]
    by (auto simp: list_all2_rev1)
qed

lemma PathMatches_root:
  assumes "placed s n ms"
  shows "PathMatches E s n optData e 0 = Ret (entry_accepts E e (names_below s 0 n ms) \<and> FilterMatches (x_fmatch E) e optData)"
proof -
  have n: "names_below s 0 n ms = rev (take (length ms) (map (\<lambda>m. d_name (nd s m)) (n # ms)))"
    unfolding names_below_def rev_map [symmetric] drop_rev by simp
  show ?thesis
  proof (cases "length (e_parser e) = length ms")
    case True
    then show ?thesis unfolding PathMatches_exact [OF assms order_refl] entry_accepts_def n by simp
  next
    case False
    then have "\<not> entry_accepts E e (names_below s 0 n ms)" by (auto simp: entry_accepts_def n dest: list_all2_lengthD)
    then show ?thesis using False unfolding PathMatches_exact [OF assms order_refl] by simp
  qed
qed

lemma some_entry_matches_exact:
  assumes "\<And>p e. (p, e) \<in> set es \<Longrightarrow> PathMatches E s n optData e r = Ret (f e)"
  shows "some_entry_matches E s n optData r es = Ret (\<exists>(p, e)\<in>set es. f e)"
  using assms
proof (induction es)
  case (Cons x es)
  obtain p e where x: "x = (p, e)" by fastforce
  have "PathMatches E s n optData e r = Ret (f e)" using Cons.prems [of p e] x by simp
  moreover have "some_entry_matches E s n optData r es = Ret (\<exists>(p, e)\<in>set es. f e)"
    by (rule Cons.IH) (use Cons.prems in auto)
  ultimately show ?case by (simp add: x)
qed simp

section \<open>The nodes to visit\<close>

text \<open>
  \<open>hit k c\<close>: the node \<open>c\<close>, whose parent is \<open>k\<close> levels below the start, is called back for; \<open>inner k c\<close>: the
  traversal descends to it.
\<close>

fun targets :: "(nat \<Rightarrow> nref \<Rightarrow> bool) \<Rightarrow> (nat \<Rightarrow> nref \<Rightarrow> bool) \<Rightarrow> nat \<Rightarrow> tree \<Rightarrow> nref set" where
  "targets hit inner k (Tree n ts) =
     (\<Union>t\<in>set ts. (if hit k (troot t) then {troot t} else {}) \<union> (if inner k (troot t) then targets hit inner (Suc k) t else {}))"

definition last_clause :: "('m, 'r, 'f) server_env \<Rightarrow> ('m, 'r, 'f) server \<Rightarrow> (string \<times> ('r, 'f) path_entry) list \<Rightarrow> nat \<Rightarrow> nref \<Rightarrow> bool" where
  "last_clause E s es k c \<longleftrightarrow> (\<exists>(p, e)\<in>set es. length (e_parser e) = Suc k \<and>
     clause_matches (x_regexec E) (e_parser e ! k) (d_name (nd s c)))"

definition inner_clause :: "('m, 'r, 'f) server_env \<Rightarrow> ('m, 'r, 'f) server \<Rightarrow> (string \<times> ('r, 'f) path_entry) list \<Rightarrow> nat \<Rightarrow> nref \<Rightarrow> bool" where
  "inner_clause E s es k c \<longleftrightarrow> (\<exists>(p, e)\<in>set es. length (e_parser e) > Suc k \<and>
     clause_matches (x_regexec E) (e_parser e ! k) (d_name (nd s c)))"

definition one_unfiltered :: "('r, 'f) path_matcher \<Rightarrow> bool \<Rightarrow> bool" where
  "one_unfiltered pm useFilters \<longleftrightarrow> (\<exists>p e. pm_entries pm = [(p, e)] \<and> (\<not> useFilters \<or> e_filter e = None))"

definition node_ok :: "('m, 'r, 'f) server_env \<Rightarrow> ('r, 'f) path_matcher \<Rightarrow> bool \<Rightarrow> int \<Rightarrow> ('m, 'r, 'f) server \<Rightarrow> nref \<Rightarrow> bool" where
  "node_ok E pm useFilters r s c \<longleftrightarrow> one_unfiltered pm useFilters \<or>
     MatchesNode E s pm c (if useFilters then d_data (nd s c) else None) r = Ret True"

lemma accepted_exact:
  assumes "placed s c ms" "0 \<le> r" "(p, e) \<in> set (pm_entries pm)"
  shows "accepted E pm useFilters r e c s = Ret (node_ok E pm useFilters r s c)"
proof (cases "length (pm_entries pm) = 1 \<and> (\<not> useFilters \<or> e_filter e = None)")
  case True
  then have "pm_entries pm = [(p, e)]" using assms(3) by (cases "pm_entries pm") auto
  then have "one_unfiltered pm useFilters" using True by (auto simp: one_unfiltered_def)
  then show ?thesis using True by (simp add: accepted_def node_ok_def)
next
  case False
  then have "\<not> one_unfiltered pm useFilters" using assms(3) by (auto simp: one_unfiltered_def)
  have "\<exists>b. MatchesNode E s pm c d r = Ret b" for d
    unfolding MatchesNode_def by (rule exI, rule some_entry_matches_exact, rule PathMatches_exact [OF assms(1,2)])
  then obtain b where "MatchesNode E s pm c (if useFilters then d_data (nd s c) else None) r = Ret b" by blast
  then show ?thesis using False \<open>\<not> one_unfiltered pm useFilters\<close> by (auto simp: accepted_def node_ok_def)
qed

section \<open>Calls\<close>

fun calls :: "('m, 'r, 'f, 'u) callback \<Rightarrow> nref list \<Rightarrow> ('m, 'r, 'f) server \<times> 'u \<Rightarrow> (('m, 'r, 'f) server \<times> 'u) run" where
  "calls cb [] su = Ret su"
| "calls cb (n # ns) su = bind_run (cb n su) (\<lambda>(_, su). calls cb ns su)"

lemma calls_append: "calls cb (ns @ ms) su = bind_run (calls cb ns su) (calls cb ms)"
proof (induction ns arbitrary: su)
  case (Cons n ns)
  then show ?case by (cases "cb n su") auto
qed simp

text \<open>From any state with the tree of \<open>s0\<close>, \<open>f\<close> makes the calls for \<open>ns\<close> and has the result \<open>r\<close>.\<close>

definition walks :: "('m, 'r, 'f, 'u) callback \<Rightarrow> ('m, 'r, 'f) server \<Rightarrow> nref list \<Rightarrow>
    (('m, 'r, 'f) server \<times> 'u \<Rightarrow> ('a \<times> ('m, 'r, 'f) server \<times> 'u) run) \<Rightarrow> 'a \<Rightarrow> bool" where
  "walks cb s0 ns f r \<longleftrightarrow> (\<forall>s u. same_tree s0 s \<longrightarrow> (\<exists>s' u'. calls cb ns (s, u) = Ret (s', u') \<and> same_tree s0 s' \<and> f (s, u) = Ret (r, s', u')))"

lemma walks_Nil: "walks cb s0 [] (\<lambda>su. Ret (r, su)) r"
  by (simp add: walks_def)

lemma walks_cong: "(\<And>s u. same_tree s0 s \<Longrightarrow> f (s, u) = g (s, u)) \<Longrightarrow> walks cb s0 ns f r = walks cb s0 ns g r"
  by (simp add: walks_def)

lemma walks_bind:
  assumes "walks cb s0 ns f x" "walks cb s0 ms (g x) r"
  shows "walks cb s0 (ns @ ms) (\<lambda>su. bind_run (f su) (\<lambda>(y, su). g y su)) r"
  unfolding walks_def
proof (intro allI impI)
  fix s u assume s: "same_tree s0 s"
  obtain s1 u1 where 1: "calls cb ns (s, u) = Ret (s1, u1)" "same_tree s0 s1" "f (s, u) = Ret (x, s1, u1)"
    using assms(1) s unfolding walks_def by blast
  obtain s2 u2 where 2: "calls cb ms (s1, u1) = Ret (s2, u2)" "same_tree s0 s2" "g x (s1, u1) = Ret (r, s2, u2)"
    using assms(2) 1(2) unfolding walks_def by blast
  show "\<exists>s' u'. calls cb (ns @ ms) (s, u) = Ret (s', u') \<and> same_tree s0 s' \<and> bind_run (f (s, u)) (\<lambda>(y, su). g y su) = Ret (r, s', u')"
    using 1 2 by (simp add: calls_append)
qed

lemma depth_of_same: "same_tree s0 s \<Longrightarrow> depth_of s n = depth_of s0 n"
  by (simp add: depth_of_def same_treeD)

lemma node_ok_same:
  assumes "same_tree s0 s" "placed s0 c ms" "0 \<le> r"
  shows "node_ok E pm useFilters r s c = node_ok E pm useFilters r s0 c"
proof -
  have pl: "placed s c ms" using assms(1,2) placed_same by metis
  have nm: "d_name (nd s m) = d_name (nd s0 m)" "d_data (nd s c) = d_data (nd s0 c)" for m
    using same_treeD [OF assms(1)] by simp_all
  show ?thesis
    unfolding node_ok_def MatchesNode_def some_entry_matches_exact [OF PathMatches_exact [OF pl assms(3)]]
      some_entry_matches_exact [OF PathMatches_exact [OF assms(2,3)]] nm ..
qed

text \<open>
  What the traversal expects of a callback: on a well-formed tree and with memory it returns, leaves the tree alone,
  and does not ask for a cut.
\<close>

locale gentle_callback =
  fixes E :: "('m, 'r, 'f) server_env" and cb :: "('m, 'r, 'f, 'u) callback"
  assumes gentle: "\<forall>k. x_alloc E k \<Longrightarrow> tree_ok s0 T \<Longrightarrow> c \<in> set (tnodes T) \<Longrightarrow> same_tree s0 s \<Longrightarrow>
    \<exists>d s' u'. cb c (s, u) = Ret (d, s', u') \<and> depth_of s0 c - 1 \<le> d \<and> same_tree s0 s'"

section \<open>The children of a node\<close>

lemma targets_below: "targets hit inner k t \<subseteq> set (below (tkids t))"
proof (induction t arbitrary: k)
  case (Tree n ts)
  have sub: "targets hit inner (Suc k) t \<subseteq> set (tnodes t)" if "t \<in> set ts" for t
    using Tree.IH [OF that, of "Suc k"] by (cases t) auto
  show ?case
  proof
    fix c assume "c \<in> targets hit inner k (Tree n ts)"
    then obtain t where t: "t \<in> set ts" "c = troot t \<or> c \<in> targets hit inner (Suc k) t" by (auto split: if_splits)
    then have "c \<in> set (tnodes t)" using sub tnodes_root by blast
    then show "c \<in> set (below (tkids (Tree n ts)))" using t(1) by (auto simp: set_below)
  qed
qed

lemma wildcards_exact:
  "\<exists>w. parsers_have_wildcards (int k) es = Ret w \<and>
    (\<not> w \<longrightarrow> (\<forall>(p, e)\<in>set es. length (e_parser e) > k \<longrightarrow> (\<exists>m. e_parser e ! k = Some m \<and> IsPatternUnique m)))"
proof (induction es)
  case (Cons x es)
  obtain p e where x: "x = (p, e)" by fastforce
  show ?case
  proof (cases "length (e_parser e) > k")
    case True
    then show ?thesis using Cons.IH x by (cases "e_parser e ! k") (auto simp: clause_at_def)
  next
    case False
    then show ?thesis using Cons.IH x by auto
  qed
qed auto

text \<open>Matchers that are reported as unique match their pattern only.\<close>

definition unique_sound :: "('m, 'r, 'f) server_env \<Rightarrow> ('r, 'f) path_matcher \<Rightarrow> bool" where
  "unique_sound E pm \<longleftrightarrow> (\<forall>(p, e)\<in>set (pm_entries pm). \<forall>m. Some m \<in> set (e_parser e) \<longrightarrow> IsPatternUnique m \<longrightarrow>
     (\<forall>str. Match (x_regexec E) m str = Ret (str = m_pattern m)))"

lemma visit_children_walks:
  "(\<And>t. t \<in> set ts \<Longrightarrow> walks cb s0 (X t) (check (troot t)) None) \<Longrightarrow>
    walks cb s0 (concat (map X ts)) (visit_children check (map troot ts)) None"
proof (induction ts)
  case (Cons t ts)
  have 1: "walks cb s0 (X t) (check (troot t)) None" using Cons.prems by simp
  have 2: "walks cb s0 (concat (map X ts)) (visit_children check (map troot ts)) None" by (rule Cons.IH) (use Cons.prems in simp)
  have "walks cb s0 (X t @ concat (map X ts))
      (\<lambda>su. bind_run (check (troot t) su) (\<lambda>(r, su). case r of Some d \<Rightarrow> Ret (Some d, su) | None \<Rightarrow> visit_children check (map troot ts) su)) None"
    by (rule walks_bind [OF 1]) (use 2 in simp)
  then show ?case by simp
qed (simp add: walks_def)

lemma visit_keys_walks:
  assumes "shaped (v_nodes s0) ms (Tree n ts)" "\<And>t. t \<in> set ts \<Longrightarrow> walks cb s0 (X t) (check (troot t)) None" "inj_on troot (set ts)"
    "\<forall>(p, e)\<in>set es. length (e_parser e) > k \<longrightarrow> (\<exists>m. e_parser e ! k = Some m \<and> (\<forall>str. Match (x_regexec E) m str = Ret (str = m_pattern m)))"
    "D \<subseteq> set ts" "set dids = troot ` D"
  shows "\<exists>us. distinct us \<and> set us = {t \<in> set ts. last_clause E s0 es k (troot t) \<or> inner_clause E s0 es k (troot t)} - D \<and>
    walks cb s0 (concat (map X us)) (visit_keys check n (int k) es dids) None"
  using assms(4-6)
proof (induction es arbitrary: D dids)
  case Nil
  show ?case by (rule exI [of _ "[]"]) (use walks_Nil [of cb s0 None] in \<open>simp add: last_clause_def inner_clause_def\<close>)
next
  case (Cons x es)
  obtain p e where x: "x = (p, e)" by fastforce
  have rest: "\<forall>(p, e)\<in>set es. length (e_parser e) > k \<longrightarrow>
      (\<exists>m. e_parser e ! k = Some m \<and> (\<forall>str. Match (x_regexec E) m str = Ret (str = m_pattern m)))"
    using Cons.prems(1) by simp
  note IH = Cons.IH [OF rest]
  obtain P where P: "P = (\<lambda>es t. last_clause E s0 es k (troot t) \<or> inner_clause E s0 es k (troot t))" by simp
  obtain hit where hit: "hit = (\<lambda>t. length (e_parser e) > k \<and> clause_matches (x_regexec E) (e_parser e ! k) (d_name (nd s0 (troot t))))" by simp
  have step: "(last_clause E s0 (x # es) k (troot t) \<or> inner_clause E s0 (x # es) k (troot t)) \<longleftrightarrow> hit t \<or> P es t" for t
    by (auto simp: P hit x last_clause_def inner_clause_def)
  have "\<exists>us. distinct us \<and> set us = {t \<in> set ts. hit t \<or> P es t} - D \<and>
      walks cb s0 (concat (map X us)) (visit_keys check n (int k) (x # es) dids) None"
  proof (cases "\<exists>t\<in>set ts. hit t \<and> t \<notin> D")
    case True
    then obtain t where t: "t \<in> set ts" "hit t" "t \<notin> D" by blast
    obtain m where m: "e_parser e ! k = Some m" "\<forall>str. Match (x_regexec E) m str = Ret (str = m_pattern m)" "length (e_parser e) > k"
      using Cons.prems(1) t(2) x hit by auto
    have uniq: "hit u \<longleftrightarrow> d_name (nd s0 (troot u)) = m_pattern m" for u using m by (simp add: hit clause_matches_def)
    have names: "distinct (map (\<lambda>t. d_name (nd s0 (troot t))) ts)" using assms(1) by (simp add: nd_def)
    have only: "u = t" if "u \<in> set ts" "hit u" for u
    proof -
      have "inj_on (\<lambda>t. d_name (nd s0 (troot t))) (set ts)" using names by (simp add: distinct_map)
      from inj_onD [OF this, of u t] show ?thesis using that t uniq by simp
    qed
    have get: "GetChild s n (m_pattern m) = Some (troot t)" if "same_tree s0 s" for s
    proof -
      obtain ts1 ts2 where ts: "ts = ts1 @ t # ts2" using split_list [OF t(1)] by blast
      have "GetChild s0 n (d_name (nd s0 (troot t))) = Some (troot t)" using GetChild_child assms(1) ts by metis
      moreover have "GetChild s = GetChild s0"
      proof (intro ext GetChild_shape)
        show "shape_of (nd s m) = shape_of (nd s0 m)" for m using that by (intro core_shape) (simp add: same_tree_def)
      qed
      ultimately show ?thesis using t(2) uniq by simp
    qed
    have new: "troot t \<notin> set dids" using t(1,3) assms(3) Cons.prems(2,3) by (auto dest: inj_onD)
    have sets: "insert t D \<subseteq> set ts" "set (dids @ [troot t]) = troot ` insert t D" using t(1) Cons.prems(2,3) by auto
    obtain us where us: "distinct us" "set us = {t \<in> set ts. P es t} - insert t D"
      "walks cb s0 (concat (map X us)) (visit_keys check n (int k) es (dids @ [troot t])) None"
      using IH [OF sets] unfolding P by blast
    have "walks cb s0 (concat (map X (t # us))) (\<lambda>su. bind_run (check (troot t) su) (\<lambda>(r, su).
        case r of Some d \<Rightarrow> Ret (Some d, su) | None \<Rightarrow> visit_keys check n (int k) es (dids @ [troot t]) su)) None"
      unfolding list.map concat.simps by (rule walks_bind [OF assms(2) [OF t(1)]]) (use us(3) in simp)
    also have "walks cb s0 (concat (map X (t # us))) (\<lambda>su. bind_run (check (troot t) su) (\<lambda>(r, su).
        case r of Some d \<Rightarrow> Ret (Some d, su) | None \<Rightarrow> visit_keys check n (int k) es (dids @ [troot t]) su)) None =
      walks cb s0 (concat (map X (t # us))) (visit_keys check n (int k) (x # es) dids) None"
      by (rule walks_cong) (simp add: x m clause_at_def get new)
    finally have w: "walks cb s0 (concat (map X (t # us))) (visit_keys check n (int k) (x # es) dids) None" .
    have "distinct (t # us)" using us(1,2) by simp
    moreover have "set (t # us) = {t \<in> set ts. hit t \<or> P es t} - D" unfolding list.set us(2) using t only by blast
    ultimately show "\<exists>us. distinct us \<and> set us = {t \<in> set ts. hit t \<or> P es t} - D \<and>
        walks cb s0 (concat (map X us)) (visit_keys check n (int k) (x # es) dids) None"
      using w by blast
  next
    case False
    obtain us where us: "distinct us" "set us = {t \<in> set ts. P es t} - D"
      "walks cb s0 (concat (map X us)) (visit_keys check n (int k) es dids) None"
      using IH [OF Cons.prems(2,3)] unfolding P by blast
    have "visit_keys check n (int k) (x # es) dids (s, u) = visit_keys check n (int k) es dids (s, u)" if s: "same_tree s0 s" for s u
    proof (cases "length (e_parser e) > k")
      case len: True
      obtain m where m: "e_parser e ! k = Some m" "\<forall>str. Match (x_regexec E) m str = Ret (str = m_pattern m)"
        using Cons.prems(1) len x by auto
      have "GetChild s = GetChild s0"
      proof (intro ext GetChild_shape)
        show "shape_of (nd s m) = shape_of (nd s0 m)" for m using s by (intro core_shape) (simp add: same_tree_def)
      qed
      moreover have "c \<in> set dids" if c: "GetChild s0 n (m_pattern m) = Some c" for c
      proof -
        obtain t where t: "t \<in> set ts" "c = troot t" "d_name (nd s0 c) = m_pattern m"
          using GetChild_SomeD [OF assms(1) c] by (metis in_set_conv_decomp)
        then have "hit t" using m len by (simp add: hit clause_matches_def)
        then have "t \<in> D" using False t(1) by blast
        then show ?thesis using Cons.prems(3) t(2) by auto
      qed
      ultimately show ?thesis using len m(1) by (auto simp: x clause_at_def split: option.split)
    qed (simp add: x)
    then have "walks cb s0 (concat (map X us)) (visit_keys check n (int k) (x # es) dids) None"
      using us(3) walks_cong [of s0 "visit_keys check n (int k) (x # es) dids" "visit_keys check n (int k) es dids"] by blast
    moreover have "set us = {t \<in> set ts. hit t \<or> P es t} - D" unfolding us(2) using False by blast
    ultimately show "\<exists>us. distinct us \<and> set us = {t \<in> set ts. hit t \<or> P es t} - D \<and>
        walks cb s0 (concat (map X us)) (visit_keys check n (int k) (x # es) dids) None"
      using us(1) by blast
  qed
  then show ?case unfolding step .
qed

context gentle_callback
begin

lemma call_bind:
  assumes "\<forall>k. x_alloc E k" "tree_ok s0 T" "c \<in> set (tnodes T)" "walks cb s0 ms g r"
  shows "walks cb s0 (c # ms) (\<lambda>su. bind_run (cb c su) (\<lambda>(d, su). if d < depth_of (fst su) c - 1 then Ret (f d, su) else g su)) r"
  unfolding walks_def
proof (intro allI impI)
  fix s u assume s: "same_tree s0 s"
  obtain d s1 u1 where 1: "cb c (s, u) = Ret (d, s1, u1)" "depth_of s0 c - 1 \<le> d" "same_tree s0 s1"
    using gentle [OF assms(1-3) s] by blast
  obtain s2 u2 where 2: "calls cb ms (s1, u1) = Ret (s2, u2)" "same_tree s0 s2" "g (s1, u1) = Ret (r, s2, u2)"
    using assms(4) 1(3) unfolding walks_def by blast
  show "\<exists>s' u'. calls cb (c # ms) (s, u) = Ret (s', u') \<and> same_tree s0 s' \<and>
      bind_run (cb c (s, u)) (\<lambda>(d, su). if d < depth_of (fst su) c - 1 then Ret (f d, su) else g su) = Ret (r, s', u')"
    using 1 2 depth_of_same [OF 1(3)] by simp
qed

lemma descend_bind:
  assumes "walks cb s0 ns h (depth_of s0 c)" "walks cb s0 ms g r"
  shows "walks cb s0 (ns @ ms) (\<lambda>su. bind_run (h su) (\<lambda>(d, su). if d < depth_of (fst su) c - 1 then Ret (f d, su) else g su)) r"
proof (rule walks_bind [OF assms(1)])
  have "walks cb s0 ms (\<lambda>su. if depth_of s0 c < depth_of (fst su) c - 1 then Ret (f (depth_of s0 c), su) else g su) r = walks cb s0 ms g r"
    by (rule walks_cong) (simp add: depth_of_same)
  with assms(2) show "walks cb s0 ms (\<lambda>su. if depth_of s0 c < depth_of (fst su) c - 1 then Ret (f (depth_of s0 c), su) else g su) r" by simp
qed

lemma try_entries_walks:
  assumes "\<forall>k. x_alloc E k" "tree_ok s0 T" "c \<in> set (tnodes T)" "placed s0 c ms" "distinct ns" "c \<notin> set ns"
    "inner_clause E s0 es k c \<Longrightarrow> walks cb s0 ns (descend c) (depth_of s0 c)" "set es \<subseteq> set (pm_entries pm)"
  shows "\<exists>xs. walks cb s0 xs (try_entries E pm useFilters (int r) cb descend c (int r + int k) es matched recursed) None \<and> distinct xs \<and>
    set xs = (if \<not> matched \<and> last_clause E s0 es k c \<and> node_ok E pm useFilters (int r) s0 c then {c} else {}) \<union>
      (if \<not> recursed \<and> inner_clause E s0 es k c then set ns else {})"
  using assms(7,8)
proof (induction es arbitrary: matched recursed)
  case Nil
  show ?case using walks_Nil [of cb s0 None] by (intro exI [of _ "[]"]) (simp add: last_clause_def inner_clause_def)
next
  case (Cons x es)
  obtain p e where x: "x = (p, e)" by fastforce
  obtain TE where TE: "TE = (\<lambda>m q. try_entries E pm useFilters (int r) cb descend c (int r + int k) es m q)" by simp
  have IH: "\<exists>xs. walks cb s0 xs (TE m q) None \<and> distinct xs \<and>
    set xs = (if \<not> m \<and> last_clause E s0 es k c \<and> node_ok E pm useFilters (int r) s0 c then {c} else {}) \<union>
      (if \<not> q \<and> inner_clause E s0 es k c then set ns else {})" for m q
    unfolding TE by (rule Cons.IH) (use Cons.prems in \<open>auto simp: inner_clause_def x\<close>)
  obtain hit where hit: "hit \<longleftrightarrow> length (e_parser e) > k \<and> clause_matches (x_regexec E) (e_parser e ! k) (d_name (nd s0 c))" by simp
  have nm: "d_name (nd s c) = d_name (nd s0 c)" if "same_tree s0 s" for s using same_treeD(6) [OF that] .
  have ca: "clause_at e (int k) = Ret (e_parser e ! k)" if "length (e_parser e) > k" using that by (simp add: clause_at_def)
  have acc: "accepted E pm useFilters (int r) e c s = Ret (node_ok E pm useFilters (int r) s0 c)" if "same_tree s0 s" for s
  proof -
    have "placed s c ms" using assms(4) placed_same [OF that] by simp
    then have "accepted E pm useFilters (int r) e c s = Ret (node_ok E pm useFilters (int r) s c)"
      by (rule accepted_exact) (use Cons.prems(2) x in auto)
    then show ?thesis by (simp add: node_ok_same [OF that assms(4)])
  qed
  have last: "last_clause E s0 (x # es) k c \<longleftrightarrow> hit \<and> length (e_parser e) = Suc k \<or> last_clause E s0 es k c"
    by (auto simp: last_clause_def x hit)
  have inner: "inner_clause E s0 (x # es) k c \<longleftrightarrow> hit \<and> length (e_parser e) \<noteq> Suc k \<or> inner_clause E s0 es k c"
    by (auto simp: inner_clause_def x hit)
  have len: "int (length (e_parser e)) > int r + int k - int r \<longleftrightarrow> length (e_parser e) > k"
    "int r + int k = int r + int (length (e_parser e)) - 1 \<longleftrightarrow> length (e_parser e) = Suc k" by auto
  have split: "try_entries E pm useFilters (int r) cb descend c (int r + int k) (x # es) matched recursed (s, u) =
      (if hit then
         if length (e_parser e) = Suc k then
           if matched \<or> \<not> node_ok E pm useFilters (int r) s0 c then TE matched recursed (s, u)
           else bind_run (cb c (s, u)) (\<lambda>(d, su). if d < depth_of (fst su) c - 1 then Ret (Some d, su)
             else if recursed then Ret (None, su) else TE True recursed su)
         else if recursed then TE matched recursed (s, u)
         else bind_run (descend c (s, u)) (\<lambda>(d, su). if d < depth_of (fst su) c - 1 then Ret (Some d, su)
             else if matched then Ret (None, su) else TE matched True su)
       else TE matched recursed (s, u))" if "same_tree s0 s" for s u
    unfolding x try_entries.simps len TE by (cases "length (e_parser e) > k") (simp_all add: nm [OF that] ca acc [OF that] hit)
  show ?case
  proof (cases "hit \<and> (if length (e_parser e) = Suc k then \<not> matched \<and> node_ok E pm useFilters (int r) s0 c else \<not> recursed)")
    case False
    then have "walks cb s0 xs (try_entries E pm useFilters (int r) cb descend c (int r + int k) (x # es) matched recursed) None =
        walks cb s0 xs (TE matched recursed) None" for xs
      by (intro walks_cong) (auto simp: split split: if_splits)
    moreover obtain xs where "walks cb s0 xs (TE matched recursed) None" "distinct xs"
      "set xs = (if \<not> matched \<and> last_clause E s0 es k c \<and> node_ok E pm useFilters (int r) s0 c then {c} else {}) \<union>
        (if \<not> recursed \<and> inner_clause E s0 es k c then set ns else {})" using IH by blast
    moreover have "\<not> matched \<and> last_clause E s0 (x # es) k c \<and> node_ok E pm useFilters (int r) s0 c \<longleftrightarrow>
        \<not> matched \<and> last_clause E s0 es k c \<and> node_ok E pm useFilters (int r) s0 c"
      "\<not> recursed \<and> inner_clause E s0 (x # es) k c \<longleftrightarrow> \<not> recursed \<and> inner_clause E s0 es k c"
      unfolding last inner using False by (auto split: if_splits)
    ultimately show ?thesis by (intro exI [of _ xs]) simp
  next
    case True
    note hitT = True
    show ?thesis
    proof (cases "length (e_parser e) = Suc k")
      case True
      obtain g where g: "g = (\<lambda>su. if recursed then Ret (None, su) else TE True recursed su)" by simp
      obtain xs where xs: "walks cb s0 xs g None" "distinct xs" "set xs = (if \<not> recursed \<and> inner_clause E s0 es k c then set ns else {})"
      proof (cases recursed)
        case True
        then show ?thesis using that [of "[]"] walks_Nil [of cb s0 None] by (simp add: g)
      next
        case False
        then show ?thesis using that IH [of True False] by (auto simp: g)
      qed
      have "walks cb s0 (c # xs) (try_entries E pm useFilters (int r) cb descend c (int r + int k) (x # es) matched recursed) None =
          walks cb s0 (c # xs) (\<lambda>su. bind_run (cb c su) (\<lambda>(d, su). if d < depth_of (fst su) c - 1 then Ret (Some d, su) else g su)) None"
        by (rule walks_cong, subst split, assumption, insert True hitT, simp add: g cong: if_cong)
      moreover have "walks cb s0 (c # xs) (\<lambda>su. bind_run (cb c su) (\<lambda>(d, su). if d < depth_of (fst su) c - 1 then Ret (Some d, su) else g su)) None"
        by (rule call_bind [OF assms(1-3) xs(1)])
      ultimately show ?thesis
        using xs(2,3) True hitT assms(6) by (intro exI [of _ "c # xs"]) (auto simp: last inner)
    next
      case False
      obtain g where g: "g = (\<lambda>su. if matched then Ret (None, su) else TE matched True su)" by simp
      obtain xs where xs: "walks cb s0 xs g None" "distinct xs"
        "set xs = (if \<not> matched \<and> last_clause E s0 es k c \<and> node_ok E pm useFilters (int r) s0 c then {c} else {})"
      proof (cases matched)
        case True
        then show ?thesis using that [of "[]"] walks_Nil [of cb s0 None] by (simp add: g)
      next
        case False
        then show ?thesis using that IH [of False True] by (auto simp: g)
      qed
      have "walks cb s0 ns (descend c) (depth_of s0 c)" using Cons.prems(1) inner hitT False by simp
      then have "walks cb s0 (ns @ xs) (\<lambda>su. bind_run (descend c su) (\<lambda>(d, su). if d < depth_of (fst su) c - 1 then Ret (Some d, su) else g su)) None"
        using xs(1) by (rule descend_bind)
      moreover have "walks cb s0 (ns @ xs) (try_entries E pm useFilters (int r) cb descend c (int r + int k) (x # es) matched recursed) None =
          walks cb s0 (ns @ xs) (\<lambda>su. bind_run (descend c su) (\<lambda>(d, su). if d < depth_of (fst su) c - 1 then Ret (Some d, su) else g su)) None"
        by (rule walks_cong, subst split, assumption, insert False hitT, simp add: g cong: if_cong)
      ultimately show ?thesis
        using xs(2,3) False hitT assms(5,6) by (intro exI [of _ "ns @ xs"]) (auto simp: last inner)
    qed
  qed
qed

lemma child_walks:
  assumes "\<forall>k. x_alloc E k" "tree_ok s0 T" "occurs [] T (n # ms) t" "length (n # ms) = Suc (r + k)"
    "inner_clause E s0 (pm_entries pm) k (troot t) \<Longrightarrow> \<exists>ns. distinct ns \<and> set ns = targets hit inner (Suc k) t \<and>
      walks cb s0 ns (descend (troot t)) (depth_of s0 (troot t))"
  shows "\<exists>xs. distinct xs \<and> set xs = (if last_clause E s0 (pm_entries pm) k (troot t) \<and> node_ok E pm useFilters (int r) s0 (troot t) then {troot t} else {}) \<union>
      (if inner_clause E s0 (pm_entries pm) k (troot t) then targets hit inner (Suc k) t else {}) \<and>
    walks cb s0 xs (CheckChildForTraversal E pm useFilters (int r) cb descend (troot t) (int r + int k)) None"
proof -
  have seat: "seated s0 (n # ms) t" by (rule tree_ok_seated [OF assms(2,3)])
  have cT: "troot t \<in> set (tnodes T)" using occurs_nodes [OF assms(3)] tnodes_root [of t] by blast
  obtain ns where ns: "distinct ns" "troot t \<notin> set ns" "inner_clause E s0 (pm_entries pm) k (troot t) \<Longrightarrow> set ns = targets hit inner (Suc k) t"
    "inner_clause E s0 (pm_entries pm) k (troot t) \<Longrightarrow> walks cb s0 ns (descend (troot t)) (depth_of s0 (troot t))"
  proof (cases "inner_clause E s0 (pm_entries pm) k (troot t)")
    case True
    obtain ns where ns: "distinct ns" "set ns = targets hit inner (Suc k) t" "walks cb s0 ns (descend (troot t)) (depth_of s0 (troot t))"
      using assms(5) [OF True] by blast
    have "troot t \<notin> set (below (tkids t))" using seat by (cases t) (simp add: seated_def)
    then have "troot t \<notin> set ns" using ns(2) targets_below by blast
    then show ?thesis using that ns by blast
  qed (use that [of "[]"] in simp)
  have pl: "placed s0 (troot t) (n # ms)" using seat by (simp add: seated_def)
  obtain xs where "walks cb s0 xs (try_entries E pm useFilters (int r) cb descend (troot t) (int r + int k) (pm_entries pm) False False) None"
    "distinct xs" "set xs = (if \<not> False \<and> last_clause E s0 (pm_entries pm) k (troot t) \<and> node_ok E pm useFilters (int r) s0 (troot t) then {troot t} else {}) \<union>
      (if \<not> False \<and> inner_clause E s0 (pm_entries pm) k (troot t) then set ns else {})"
    using try_entries_walks [where descend = descend and pm = pm and es = "pm_entries pm" and ns = ns, OF assms(1,2) cT pl ns(1,2,4)] by blast
  then show ?thesis using ns(3) by (intro exI [of _ xs]) (auto simp: CheckChildForTraversal_def [abs_def])
qed

lemma traversal_walks:
  assumes "\<forall>k. x_alloc E k" "tree_ok s0 T" "occurs [] T ms (Tree n ts)" "length ms = r + k" "0 < fuel"
    "\<forall>(p, e)\<in>set (pm_entries pm). length (e_parser e) < k + fuel" "unique_sound E pm"
  shows "\<exists>ns. distinct ns \<and> set ns = targets (\<lambda>k c. last_clause E s0 (pm_entries pm) k c \<and> node_ok E pm useFilters (int r) s0 c)
      (inner_clause E s0 (pm_entries pm)) k (Tree n ts) \<and>
    walks cb s0 ns (DoTraversalAux fuel E pm useFilters (int r) cb n) (depth_of s0 n)"
  using assms(3-6)
proof (induction fuel arbitrary: ms n ts k)
  case (Suc f)
  obtain es where es: "es = pm_entries pm" by simp
  obtain hit where hit: "hit = (\<lambda>k c. last_clause E s0 es k c \<and> node_ok E pm useFilters (int r) s0 c)" by simp
  have seat: "seated s0 ms (Tree n ts)" by (rule tree_ok_seated [OF assms(2) Suc.prems(1)])
  then have sh: "shaped (v_nodes s0) ms (Tree n ts)" and dts: "distinct (below ts)" by (simp_all add: seated_def)
  have dep: "depth_of s0 n = int r + int k"
    using seat Suc.prems(2) sint_depth [of ms] by (simp add: seated_def placed_def depth_of_def)
  obtain check where check: "check = (\<lambda>c. CheckChildForTraversal E pm useFilters (int r) cb (DoTraversalAux f E pm useFilters (int r) cb) c (int r + int k))"
    by simp
  obtain C where C: "C = (\<lambda>t. (if hit k (troot t) then {troot t} else {}) \<union> (if inner_clause E s0 es k (troot t) then targets hit (inner_clause E s0 es) (Suc k) t else {}))"
    by simp
  have child: "\<exists>xs. distinct xs \<and> set xs = C t \<and> walks cb s0 xs (check (troot t)) None" if t: "t \<in> set ts" for t
  proof -
    have occ: "occurs [] T (n # ms) t" by (rule occurs.down [OF Suc.prems(1) t])
    have "\<exists>ns. distinct ns \<and> set ns = targets hit (inner_clause E s0 es) (Suc k) t \<and>
        walks cb s0 ns (DoTraversalAux f E pm useFilters (int r) cb (troot t)) (depth_of s0 (troot t))"
      if i: "inner_clause E s0 es k (troot t)"
    proof -
      obtain c us where tt: "t = Tree c us" by (cases t)
      obtain p e where "(p, e) \<in> set es" "length (e_parser e) > Suc k" using i by (auto simp: inner_clause_def)
      then have "0 < f" using Suc.prems(4) by (auto simp: es)
      moreover have "\<forall>(p, e)\<in>set (pm_entries pm). length (e_parser e) < Suc k + f" using Suc.prems(4) by auto
      ultimately show ?thesis using Suc.IH [of "n # ms" c us "Suc k"] occ Suc.prems(2) by (simp add: tt hit es)
    qed
    then show ?thesis
      using child_walks [OF assms(1,2) occ, of r k pm hit "inner_clause E s0 es" "DoTraversalAux f E pm useFilters (int r) cb" useFilters] Suc.prems(2)
      by (simp add: C check hit es)
  qed
  then obtain X where X: "\<And>t. t \<in> set ts \<Longrightarrow> distinct (X t) \<and> set (X t) = C t \<and> walks cb s0 (X t) (check (troot t)) None" by metis
  have XT: "set (X t) \<subseteq> set (tnodes t)" if t: "t \<in> set ts" for t
  proof -
    have "targets hit (inner_clause E s0 es) (Suc k) t \<subseteq> set (tnodes t)"
      using targets_below [of hit "inner_clause E s0 es" "Suc k" t] by (cases t) auto
    moreover have "troot t \<in> set (tnodes t)" by simp
    ultimately show ?thesis using X [OF t] unfolding C by auto
  qed
  have dist: "distinct (concat (map X us))" if "distinct us" "set us \<subseteq> set ts" for us
    using that
  proof (induction us)
    case (Cons u us)
    have "set (X u) \<inter> set (X v) = {}" if "v \<in> set us" for v
    proof -
      have "u \<noteq> v" "u \<in> set ts" "v \<in> set ts" using Cons.prems that by auto
      then have "set (tnodes u) \<inter> set (tnodes v) = {}" using dts unfolding distinct_below by blast
      then show ?thesis using XT \<open>u \<in> set ts\<close> \<open>v \<in> set ts\<close> by blast
    qed
    then show ?case using Cons X by auto
  qed simp
  have inj: "inj_on troot (set ts)" using distinct_roots [of ts] dts by (simp add: below_def distinct_map)
  obtain w where w: "parsers_have_wildcards (int k) es = Ret w"
    "\<not> w \<longrightarrow> (\<forall>(p, e)\<in>set es. length (e_parser e) > k \<longrightarrow> (\<exists>m. e_parser e ! k = Some m \<and> IsPatternUnique m))"
    using wildcards_exact by blast
  obtain us where us: "distinct us" "set us \<subseteq> set ts" "(\<Union>t\<in>set us. C t) = (\<Union>t\<in>set ts. C t)"
    "walks cb s0 (concat (map X us)) (\<lambda>su. if w then visit_children check (map troot ts) su else visit_keys check n (int k) es [] su) None"
  proof (cases w)
    case True
    have "distinct ts" using dts by (simp add: distinct_below)
    moreover have "walks cb s0 (concat (map X ts)) (visit_children check (map troot ts)) None"
      by (rule visit_children_walks) (use X in blast)
    ultimately show ?thesis using that [of ts] True by simp
  next
    case False
    have "\<forall>(p, e)\<in>set es. length (e_parser e) > k \<longrightarrow> (\<exists>m. e_parser e ! k = Some m \<and> (\<forall>str. Match (x_regexec E) m str = Ret (str = m_pattern m)))"
    proof (clarify)
      fix p e assume pe: "(p, e) \<in> set es" "length (e_parser e) > k"
      then obtain m where m: "e_parser e ! k = Some m" "IsPatternUnique m" using w(2) False by fastforce
      have "Some m \<in> set (e_parser e)" using nth_mem [OF pe(2)] m(1) by simp
      then show "\<exists>m. e_parser e ! k = Some m \<and> (\<forall>str. Match (x_regexec E) m str = Ret (str = m_pattern m))"
        using assms(7) pe(1) m unfolding unique_sound_def es by fast
    qed
    from visit_keys_walks [OF sh _ inj this, of cb X check "{}" "[]"] X
    obtain us where us: "distinct us" "set us = {t \<in> set ts. last_clause E s0 es k (troot t) \<or> inner_clause E s0 es k (troot t)}"
      "walks cb s0 (concat (map X us)) (visit_keys check n (int k) es []) None" by auto
    have "C t = {}" if "t \<in> set ts" "t \<notin> set us" for t using that us(2) by (auto simp: C hit)
    then have "(\<Union>t\<in>set us. C t) = (\<Union>t\<in>set ts. C t)" using us(2) by blast
    then show ?thesis using that us False by auto
  qed
  have "walks cb s0 (concat (map X us) @ []) (\<lambda>su. bind_run (if w then visit_children check (map troot ts) su else visit_keys check n (int k) es [] su)
      (\<lambda>(r, su). Ret (case r of Some d \<Rightarrow> d | None \<Rightarrow> depth_of (fst su) n, su))) (depth_of s0 n)"
    by (rule walks_bind [OF us(4)]) (simp add: walks_def depth_of_same)
  moreover have "walks cb s0 (concat (map X us)) (DoTraversalAux (Suc f) E pm useFilters (int r) cb n) (depth_of s0 n) =
      walks cb s0 (concat (map X us)) (\<lambda>su. bind_run (if w then visit_children check (map troot ts) su else visit_keys check n (int k) es [] su)
      (\<lambda>(r, su). Ret (case r of Some d \<Rightarrow> d | None \<Rightarrow> depth_of (fst su) n, su))) (depth_of s0 n)"
  proof (rule walks_cong)
    fix s u assume s: "same_tree s0 s"
    have it: "map snd (GetChildIterator s n) = map troot ts"
      using sh same_treeD(3) [OF s, of n] by (simp add: GetChildIterator_def nd_def kids_of_def comp_def)
    have d: "depth_of s n = int r + int k" using dep depth_of_same [OF s] by simp
    show "DoTraversalAux (Suc f) E pm useFilters (int r) cb n (s, u) =
        bind_run (if w then visit_children check (map troot ts) (s, u) else visit_keys check n (int k) es [] (s, u))
          (\<lambda>(r, su). Ret (case r of Some d \<Rightarrow> d | None \<Rightarrow> depth_of (fst su) n, su))"
      using w(1) by (simp add: d it check es Let_def)
  qed
  moreover have "set (concat (map X us)) = targets hit (inner_clause E s0 es) k (Tree n ts)"
  proof -
    have "set (concat (map X us)) = (\<Union>t\<in>set us. C t)" using X us(2) by auto
    also have "\<dots> = targets hit (inner_clause E s0 es) k (Tree n ts)" unfolding us(3) by (simp add: C)
    finally show ?thesis .
  qed
  ultimately show ?case
    using dist [OF us(1,2)]
    by (intro exI [of _ "concat (map X us)"]) (simp add: hit es del: DoTraversalAux.simps targets.simps)
qed simp

end

end
