(* ===== verification/Node_Found.thy ===== *)
theory Node_Found
  imports Node_Walk
begin

text \<open>
  The nodes that a traversal calls back for, as those that an entry accepts.
\<close>

section \<open>Targets by their place\<close>

lemma occurs_prefix: "occurs ms t ms' u \<Longrightarrow> (ms' = ms \<and> u = t) \<or> (\<exists>xs. ms' = xs @ troot t # ms)"
proof (induction rule: occurs.induct)
  case (down ms' n ts t')
  from down(3) show ?case
  proof
    assume "ms' = ms \<and> Tree n ts = t"
    then have "n # ms' = [] @ troot t # ms" by auto
    then show ?thesis by blast
  next
    assume "\<exists>xs. ms' = xs @ troot t # ms"
    then obtain xs where "n # ms' = (n # xs) @ troot t # ms" by auto
    then show ?thesis by blast
  qed
qed simp

lemma targets_occurs:
  "c \<in> targets hit inner k t \<longleftrightarrow> (\<exists>xs us. occurs ms t (xs @ troot t # ms) (Tree c us) \<and> hit (k + length xs) c \<and>
    (\<forall>i<length xs. inner (k + i) (rev xs ! i)))"
proof (induction t arbitrary: k ms)
  case (Tree n ts)
  show ?case
  proof
    assume "c \<in> targets hit inner k (Tree n ts)"
    then obtain t where t: "t \<in> set ts" "c = troot t \<and> hit k c \<or> inner k (troot t) \<and> c \<in> targets hit inner (Suc k) t"
      by (auto split: if_splits)
    from t(2) show "\<exists>xs us. occurs ms (Tree n ts) (xs @ troot (Tree n ts) # ms) (Tree c us) \<and> hit (k + length xs) c \<and>
      (\<forall>i<length xs. inner (k + i) (rev xs ! i))"
    proof
      assume c: "c = troot t \<and> hit k c"
      have "occurs ms (Tree n ts) ([] @ troot (Tree n ts) # ms) (Tree c (tkids t))"
        using occurs.down [OF occurs.here t(1)] c by (cases t) simp
      moreover have "hit (k + length ([] :: nref list)) c \<and> (\<forall>i<length ([] :: nref list). inner (k + i) (rev [] ! i))" using c by auto
      ultimately show ?thesis by blast
    next
      assume i: "inner k (troot t) \<and> c \<in> targets hit inner (Suc k) t"
      then obtain xs us where x: "occurs (n # ms) t (xs @ troot t # n # ms) (Tree c us)" "hit (Suc k + length xs) c"
        "\<forall>i<length xs. inner (Suc k + i) (rev xs ! i)" using Tree.IH [OF t(1), of "Suc k" "n # ms"] by blast
      have "inner (k + i) (rev (xs @ [troot t]) ! i)" if "i < length (xs @ [troot t])" for i
        using that x(3) i by (cases i) auto
      then show ?thesis using occurs_below [OF x(1) t(1)] x(2) by (intro exI [of _ "xs @ [troot t]"]) auto
    qed
  next
    assume "\<exists>xs us. occurs ms (Tree n ts) (xs @ troot (Tree n ts) # ms) (Tree c us) \<and> hit (k + length xs) c \<and>
      (\<forall>i<length xs. inner (k + i) (rev xs ! i))"
    then obtain xs us where x: "occurs ms (Tree n ts) (xs @ n # ms) (Tree c us)" "hit (k + length xs) c"
      "\<forall>i<length xs. inner (k + i) (rev xs ! i)" by auto
    have "xs @ n # ms \<noteq> ms" using arg_cong [of "xs @ n # ms" ms length] by auto
    then obtain t where t: "t \<in> set ts" "occurs (n # ms) t (xs @ n # ms) (Tree c us)"
      using occurs_cases [OF x(1)] by auto
    from occurs_prefix [OF t(2)] show "c \<in> targets hit inner k (Tree n ts)"
    proof
      assume "xs @ n # ms = n # ms \<and> Tree c us = t"
      then have "xs = []" "c = troot t" by auto
      then show ?thesis using x(2) t(1) by auto
    next
      assume "\<exists>ys. xs @ n # ms = ys @ troot t # n # ms"
      then obtain ys where ys: "xs = ys @ [troot t]" by auto
      have "inner (Suc k + i) (rev ys ! i)" if "i < length ys" for i
        using x(3) [rule_format, of "Suc i"] that by (simp add: ys)
      moreover have "inner k (troot t)" using x(3) [rule_format, of 0] by (simp add: ys)
      moreover have "hit (Suc k + length ys) c" using x(2) by (simp add: ys)
      ultimately have "c \<in> targets hit inner (Suc k) t" "inner k (troot t)"
        using Tree.IH [OF t(1), of "Suc k" "n # ms"] t(2) by (auto simp: ys)
      then show ?thesis using t(1) by auto
    qed
  qed
qed

section \<open>Targets by their names\<close>

lemma names_below_at: "length ms = r \<Longrightarrow> names_below s r c (xs @ n # ms) = map (\<lambda>m. d_name (nd s m)) (rev xs @ [c])"
  by (simp add: names_below_def)

lemma accepts_at:
  "length ms = r \<Longrightarrow> entry_accepts E e (names_below s r c (xs @ n # ms)) \<longleftrightarrow> length (e_parser e) = Suc (length xs) \<and>
    (\<forall>i<length xs. clause_matches (x_regexec E) (e_parser e ! i) (d_name (nd s (rev xs ! i)))) \<and>
    clause_matches (x_regexec E) (e_parser e ! length xs) (d_name (nd s c))"
  unfolding entry_accepts_def names_below_at list_all2_conv_all_nth
  by (auto simp: nth_append less_Suc_eq)

lemma FilterMatches_None: "e_filter e = None \<Longrightarrow> FilterMatches fmatch e d"
  by (simp add: FilterMatches_def)

lemma MatchesNode_at:
  assumes "placed s c (xs @ n # ms)" "length ms = r"
  shows "MatchesNode E s pm c d (int r) = Ret (\<exists>(p, e)\<in>set (pm_entries pm). length (e_parser e) = Suc (length xs) \<and>
    list_all2 (clause_matches (x_regexec E)) (drop r (e_parser e)) (drop r (names_below s r c (xs @ n # ms))) \<and>
    FilterMatches (x_fmatch E) e d)"
proof -
  obtain Y where Y: "Y = map (\<lambda>m. d_name (nd s m)) (c # xs @ n # ms)" by simp
  have nb: "names_below s r c (xs @ n # ms) = rev (take (Suc (length xs)) Y)"
    using names_below_at [OF assms(2), of s c xs n] by (simp add: Y rev_map)
  have dr: "drop r (rev (take (Suc (length xs)) Y)) = rev (take (Suc (length xs) - r) Y)"
  proof -
    have "length (take (Suc (length xs)) Y) = Suc (length xs)" by (simp add: Y)
    then show ?thesis by (simp add: drop_rev)
  qed
  have "PathMatches E s c d e (int r) = Ret (length (e_parser e) = Suc (length xs) \<and>
      list_all2 (clause_matches (x_regexec E)) (drop r (e_parser e)) (drop r (names_below s r c (xs @ n # ms))) \<and>
      FilterMatches (x_fmatch E) e d)" for e :: "('b, 'c) path_entry"
    unfolding PathMatches_exact [OF assms(1) of_nat_0_le_iff] nb dr nat_int Y [symmetric]
    using assms(2) by (cases "length (e_parser e) = Suc (length xs)") auto
  then show ?thesis unfolding MatchesNode_def by (rule some_entry_matches_exact)
qed

text \<open>
  For a traversal from the root, and for a matcher of one entry, the nodes to visit are those that an entry
  accepts, clause by clause.
\<close>

lemma target_accepts:
  assumes "placed s c (xs @ n # ms)" "length ms = r" "r = 0 \<or> length (pm_entries pm) = 1"
  shows "(last_clause E s (pm_entries pm) (length xs) c \<and> node_ok E pm useFilters (int r) s c) \<and>
      (\<forall>i<length xs. inner_clause E s (pm_entries pm) i (rev xs ! i)) \<longleftrightarrow>
    (\<exists>(p, e)\<in>set (pm_entries pm). entry_accepts E e (names_below s r c (xs @ n # ms)) \<and>
      (useFilters \<longrightarrow> FilterMatches (x_fmatch E) e (d_data (nd s c))))" (is "?L \<longleftrightarrow> ?R")
proof
  assume L: ?L
  have flt: "FilterMatches (x_fmatch E) e (if useFilters then d_data (nd s c) else None) \<longleftrightarrow> (useFilters \<longrightarrow> FilterMatches (x_fmatch E) e (d_data (nd s c)))"
    for e :: "('b, 'c) path_entry" by (simp add: FilterMatches_def split: option.split)
  consider (one) p e where "pm_entries pm = [(p, e)]" | (root) "r = 0" "\<not> one_unfiltered pm useFilters"
    using assms(3) by (cases "pm_entries pm") (auto simp: one_unfiltered_def length_Suc_conv)
  then show ?R
  proof cases
    case one
    have "entry_accepts E e (names_below s r c (xs @ n # ms))"
      using L unfolding accepts_at [OF assms(2)] by (auto simp: one last_clause_def inner_clause_def)
    moreover have "useFilters \<longrightarrow> FilterMatches (x_fmatch E) e (d_data (nd s c))"
      using L unfolding node_ok_def MatchesNode_at [OF assms(1,2)] by (auto simp: one one_unfiltered_def flt FilterMatches_None)
    ultimately show ?thesis by (simp add: one)
  next
    case root
    then have "MatchesNode E s pm c (if useFilters then d_data (nd s c) else None) (int r) = Ret True"
      using L by (simp add: node_ok_def)
    then show ?thesis unfolding MatchesNode_at [OF assms(1,2)] flt by (auto simp: root entry_accepts_def)
  qed
next
  assume ?R
  then obtain p e where e: "(p, e) \<in> set (pm_entries pm)" "entry_accepts E e (names_below s r c (xs @ n # ms))"
    "useFilters \<longrightarrow> FilterMatches (x_fmatch E) e (d_data (nd s c))" by auto
  note a = e(2) [unfolded accepts_at [OF assms(2)]]
  have "last_clause E s (pm_entries pm) (length xs) c" unfolding last_clause_def by (rule bexI [OF _ e(1)]) (use a in auto)
  moreover have "inner_clause E s (pm_entries pm) i (rev xs ! i)" if "i < length xs" for i
    unfolding inner_clause_def by (rule bexI [OF _ e(1)]) (use a that in auto)
  moreover have "node_ok E pm useFilters (int r) s c"
  proof -
    have "list_all2 (clause_matches (x_regexec E)) (drop r (e_parser e)) (drop r (names_below s r c (xs @ n # ms)))"
      using e(2) unfolding entry_accepts_def by (rule list_all2_dropI)
    moreover have "FilterMatches (x_fmatch E) e (if useFilters then d_data (nd s c) else None)"
      using e(3) by (simp add: FilterMatches_def split: option.split)
    ultimately have "MatchesNode E s pm c (if useFilters then d_data (nd s c) else None) (int r) = Ret True"
      unfolding MatchesNode_at [OF assms(1,2)] using e(1) a by blast
    then show ?thesis by (simp add: node_ok_def)
  qed
  ultimately show ?L by blast
qed

section \<open>The traversal\<close>

lemma occurs_trans: "occurs ms t ms' u \<Longrightarrow> occurs ns T ms t \<Longrightarrow> occurs ns T ms' u"
  by (induction rule: occurs.induct) (auto intro: occurs.down)

lemma occurs_inside:
  "distinct (tnodes T) \<Longrightarrow> occurs [] T ms (Tree n ts) \<Longrightarrow> occurs [] T (xs @ n # ms) u \<Longrightarrow> occurs ms (Tree n ts) (xs @ n # ms) u"
proof (induction xs arbitrary: u)
  case Nil
  from Nil.prems(3) obtain ts' where "occurs [] T ms (Tree n ts')" "u \<in> set ts'" by (cases rule: occurs.cases) auto
  moreover have "ts' = ts" using occurs_unique [OF Nil.prems(1) calculation(1) Nil.prems(2)] by simp
  ultimately show ?case using occurs.down [OF occurs.here] by simp
next
  case (Cons a as)
  from Cons.prems(3) obtain ts' where "occurs [] T (as @ n # ms) (Tree a ts')" "u \<in> set ts'" by (cases rule: occurs.cases) auto
  then show ?case using Cons.IH [OF Cons.prems(1,2)] occurs.down by fastforce
qed

lemma depth_of_allocs [simp]: "depth_of (s\<lparr>v_allocs := k\<rparr>) n = depth_of s n"
  by (simp add: depth_of_def)

context gentle_callback
begin

lemma DoTraversal_visits:
  assumes "\<forall>k. x_alloc E k" "tree_ok s0 T" "occurs [] T ms (Tree n ts)" "ms = [] \<or> length (pm_entries pm) = 1" "unique_sound E pm"
    "0 < fuel" "\<forall>(p, e)\<in>set (pm_entries pm). length (e_parser e) < fuel"
  shows "\<exists>ns. distinct ns \<and> (\<forall>c. c \<in> set ns \<longleftrightarrow> (\<exists>xs us. occurs [] T (xs @ n # ms) (Tree c us) \<and> (\<exists>(p, e)\<in>set (pm_entries pm).
      entry_accepts E e (names_below s0 (length ms) c (xs @ n # ms)) \<and> (useFilters \<longrightarrow> FilterMatches (x_fmatch E) e (d_data (nd s0 c)))))) \<and>
    (\<forall>u. \<exists>s' u'. calls cb ns (s0, u) = Ret (s', u') \<and> same_tree s0 s' \<and> DoTraversal fuel E pm cb n useFilters (s0, u) = Ret (s', u'))"
proof -
  obtain r where r: "r = length ms" by simp
  have dep: "depth_of s0 n = int r"
    using tree_ok_seated [OF assms(2,3)] sint_depth [of ms] by (simp add: seated_def placed_def depth_of_def r)
  obtain ns where ns: "distinct ns" "set ns = targets (\<lambda>k c. last_clause E s0 (pm_entries pm) k c \<and> node_ok E pm useFilters (int r) s0 c)
      (inner_clause E s0 (pm_entries pm)) 0 (Tree n ts)" "walks cb s0 ns (DoTraversalAux fuel E pm useFilters (int r) cb n) (depth_of s0 n)"
    using traversal_walks [OF assms(1-3), of r 0 fuel pm useFilters] assms(5-7) by (auto simp: r)
  have dT: "distinct (tnodes T)" using assms(2) by (simp add: tree_ok_def seated_def)
  have below: "occurs ms (Tree n ts) (xs @ n # ms) u \<longleftrightarrow> occurs [] T (xs @ n # ms) u" for xs u
    using occurs_inside [OF dT assms(3)] occurs_trans [OF _ assms(3)] by blast
  have one: "r = 0 \<or> length (pm_entries pm) = 1" using assms(4) r by auto
  have "c \<in> set ns \<longleftrightarrow> (\<exists>xs us. occurs [] T (xs @ n # ms) (Tree c us) \<and> (\<exists>(p, e)\<in>set (pm_entries pm).
      entry_accepts E e (names_below s0 r c (xs @ n # ms)) \<and> (useFilters \<longrightarrow> FilterMatches (x_fmatch E) e (d_data (nd s0 c)))))" for c
  proof -
    have eq: "(occurs ms (Tree n ts) (xs @ n # ms) (Tree c us) \<and>
        (last_clause E s0 (pm_entries pm) (length xs) c \<and> node_ok E pm useFilters (int r) s0 c) \<and>
        (\<forall>i<length xs. inner_clause E s0 (pm_entries pm) i (rev xs ! i))) \<longleftrightarrow>
      (occurs [] T (xs @ n # ms) (Tree c us) \<and> (\<exists>(p, e)\<in>set (pm_entries pm).
        entry_accepts E e (names_below s0 r c (xs @ n # ms)) \<and> (useFilters \<longrightarrow> FilterMatches (x_fmatch E) e (d_data (nd s0 c)))))"
      for xs us
    proof (cases "occurs [] T (xs @ n # ms) (Tree c us)")
      case True
      have "placed s0 c (xs @ n # ms)" using tree_ok_seated [OF assms(2) True] by (simp add: seated_def)
      from target_accepts [OF this r [symmetric] one, of E useFilters] show ?thesis unfolding below using True by simp
    qed (simp add: below)
    show ?thesis unfolding ns(2) targets_occurs [of c _ _ 0 "Tree n ts" ms] eq [symmetric] by simp
  qed
  moreover have "\<exists>s' u'. calls cb ns (s0, u) = Ret (s', u') \<and> same_tree s0 s' \<and> DoTraversal fuel E pm cb n useFilters (s0, u) = Ret (s', u')" for u
    using ns(3) same_tree_refl [of s0] unfolding walks_def DoTraversal_def by (fastforce simp: dep)
  ultimately show ?thesis using ns(1) unfolding r by blast
qed

end

section \<open>Callbacks that leave the tree alone\<close>

interpretation subscribing: gentle_callback E "DoSubscribeRefCallback E this delta" for E this delta
proof
  fix s0 :: "('a, 'b, 'c) server" and T c s and u :: 'd
  assume "same_tree s0 s"
  moreover have "same_tree s (IncrementSubscriptionRefCount E c this delta s)" by (rule IncrementSubscriptionRefCount_same)
  ultimately have "same_tree s0 (IncrementSubscriptionRefCount E c this delta s)" by (rule same_tree_trans)
  then show "\<exists>d s' u'. DoSubscribeRefCallback E this delta c (s, u) = Ret (d, s', u') \<and> depth_of s0 c - 1 \<le> d \<and> same_tree s0 s'"
    by (simp add: DoSubscribeRefCallback_def Let_def depth_of_same)
qed

lemma RemoveDataCallback_gentle:
  assumes "\<forall>k. x_alloc E k" "tree_ok s0 T" "c \<in> set (tnodes T)" "same_tree s0 s"
  shows "\<exists>d k. RemoveDataCallback E c (s, removeSet) =
      Ret (d, s\<lparr>v_allocs := k\<rparr>, if depth_of s0 c > 2 then removeSet @ [c] else removeSet) \<and> depth_of s0 c - 1 \<le> d"
proof (cases "depth_of s0 c > 2")
  case True
  obtain ms us where o: "occurs [] T ms (Tree c us)" using occurs_exists [OF assms(3)] by blast
  have pl: "placed s0 c ms" using tree_ok_seated [OF assms(2) o] by (simp add: seated_def)
  then have "depth_of s0 c = int (length ms)" using sint_depth [of ms] by (simp add: placed_def depth_of_def)
  then obtain p ps where ms: "ms = p # ps" using True by (cases ms) auto
  have par: "d_parent (nd s0 c) = Some p" using pl ms by (simp add: placed_def nd_def)
  obtain ts where op: "occurs [] T ps (Tree p ts)" "Tree c us \<in> set ts"
    using o ms by (cases rule: occurs.cases) auto
  obtain ts1 ts2 where ts: "ts = ts1 @ Tree c us # ts2" using split_list [OF op(2)] by blast
  have sh: "shaped (v_nodes s0) ps (Tree p ts)" using tree_ok_seated [OF assms(2) op(1)] by (simp add: seated_def)
  have "GetChild s0 p (d_name (nd s0 c)) = Some c" using GetChild_child [of s0 ps p ts1 "Tree c us" ts2] sh ts by simp
  moreover have "GetChild s = GetChild s0"
  proof (intro ext GetChild_shape)
    show "shape_of (nd s m) = shape_of (nd s0 m)" for m using assms(4) by (intro core_shape) (simp add: same_tree_def)
  qed
  ultimately have "GetChild s p (d_name (nd s c)) = Some c" "d_parent (nd s c) = Some p"
    using same_treeD(1,6) [OF assms(4)] par by simp_all
  then show ?thesis
    using True assms(1) depth_of_same [OF assms(4), of c]
    by (intro exI [of _ "depth_of s0 c - 1"] exI [of _ "Suc (v_allocs s)"]) (simp add: RemoveDataCallback_def request_def)
next
  case False
  then show ?thesis using depth_of_same [OF assms(4), of c]
    by (intro exI [of _ "depth_of s0 c"] exI [of _ "v_allocs s"]) (simp add: RemoveDataCallback_def)
qed

interpretation removing: gentle_callback E "RemoveDataCallback E" for E
proof
  fix s0 :: "('a, 'b, 'c) server" and T c s u
  assume a: "\<forall>k. x_alloc E k" "tree_ok s0 T" "c \<in> set (tnodes T)" "same_tree s0 s"
  show "\<exists>d s' u'. RemoveDataCallback E c (s, u) = Ret (d, s', u') \<and> depth_of s0 c - 1 \<le> d \<and> same_tree s0 s'"
    using RemoveDataCallback_gentle [OF a, of u] a(4) by (metis same_tree_simps(2))
qed

end
