(* ===== verification/Node_Marks.thy ===== *)
theory Node_Marks
  imports Node_Found
begin

text \<open>
  The marks of the subscribers: each node of the tree holds, for every session, the number of the session's
  subscriptions that match it, however the subscriptions came and went.
\<close>

section \<open>Putting a path, with memory\<close>

declare depth_loop.simps [simp del] parse_clauses.simps [simp del]

lemma parse_clauses_patterns:
  "ps \<noteq> [] \<Longrightarrow> list_all clause_ok ps \<Longrightarrow> parse_clauses regcomp alloc k (join ps) = Ret (Some sms, k') \<Longrightarrow>
    list_all2 (\<lambda>p sm. \<forall>m. sm = Some m \<longrightarrow> SetPattern regcomp StringMatcher_new p True = Ret (B_NO_ERROR, m)) ps sms"
proof (induction ps arbitrary: k sms)
  case (Cons p ps)
  have nc: "next_clause (join (p # ps)) = (p, if ps = [] then None else Some (join ps))"
    using Cons.prems(2) by (intro next_clause_join) simp
  from Cons.prems(3) obtain sm sms' k1 where s: "sms = sm # sms'"
    "\<forall>m. sm = Some m \<longrightarrow> SetPattern regcomp StringMatcher_new p True = Ret (B_NO_ERROR, m)"
    "if ps = [] then sms' = [] else parse_clauses regcomp alloc k1 (join ps) = Ret (Some sms', k')"
    by (subst (asm) parse_clauses.simps) (auto simp: nc run_simps split: if_splits)
  then show ?case using Cons.IH [of k1 sms'] Cons.prems by (cases "ps = []") auto
qed simp

text \<open>What a path becomes: an entry that accepts what the clauses say, and is honest about unique patterns.\<close>

definition entry_for :: "('m, 'r, 'f) server_env \<Rightarrow> string list \<Rightarrow> ('r, 'f) path_entry \<Rightarrow> bool" where
  "entry_for E ps e \<longleftrightarrow> length (e_parser e) = length ps \<and>
     (\<forall>names. entry_accepts E e names = list_all2 (clause_accepts (x_regcomp E) (x_regexec E)) ps names) \<and>
     (\<forall>m. Some m \<in> set (e_parser e) \<longrightarrow> IsPatternUnique m \<longrightarrow> (\<forall>str. Match (x_regexec E) m str = Ret (str = m_pattern m)))"

lemma parse_entry_for:
  assumes "ere_documented (x_regcomp E) (x_regexec E)" "ps \<noteq> []" "list_all (\<lambda>p. clause_ok p \<and> p \<noteq> []) ps"
    "parse_clauses (x_regcomp E) alloc k (join ps) = Ret (Some sms, k')"
  shows "entry_for E ps \<lparr>e_parser = sms, e_filter = flt\<rparr>"
proof -
  have ok: "list_all clause_ok ps" using assms(3) by (simp add: list_all_iff)
  have sem: "list_all2 (\<lambda>p sm. \<forall>q. clause_matches (x_regexec E) sm q = clause_accepts (x_regcomp E) (x_regexec E) p q) ps sms"
    by (rule parse_clauses_join [OF assms(2) ok assms(4)])
  then have "list_all2 (clause_matches (x_regexec E)) sms names = list_all2 (clause_accepts (x_regcomp E) (x_regexec E)) ps names" for names
    by (auto simp: list_all2_conv_all_nth)
  moreover have "Match (x_regexec E) m str = Ret (str = m_pattern m)" if m: "Some m \<in> set sms" "IsPatternUnique m" for m str
  proof -
    obtain i where i: "i < length sms" "sms ! i = Some m" using m(1) by (auto simp: in_set_conv_nth)
    note lp = parse_clauses_patterns [OF assms(2) ok assms(4)]
    have sp: "SetPattern (x_regcomp E) StringMatcher_new (ps ! i) True = Ret (B_NO_ERROR, m)"
      using list_all2_nthD2 [OF lp i(1)] i(2) by simp
    have ne: "ps ! i \<noteq> []" using assms(3) i(1) list_all2_lengthD [OF lp] by (simp add: list_all_length)
    show ?thesis using unique_matches [OF assms(1) ne sp m(2)] by simp
  qed
  ultimately show ?thesis
    using list_all2_lengthD [OF sem] by (simp add: entry_for_def entry_accepts_def)
qed

text \<open>The library takes the clause.\<close>

definition compiles :: "('m, 'r, 'f) server_env \<Rightarrow> string \<Rightarrow> bool" where
  "compiles E p \<longleftrightarrow> clause_ok p \<and> p \<noteq> [] \<and>
     (p = ''*'' \<or> (\<exists>m. SetPattern (x_regcomp E) StringMatcher_new p True = Ret (B_NO_ERROR, m)))"

lemma parse_clauses_compiles:
  "\<forall>k. alloc k \<Longrightarrow> ps \<noteq> [] \<Longrightarrow> list_all (compiles E) ps \<Longrightarrow>
    \<exists>sms k'. parse_clauses (x_regcomp E) alloc k (join ps) = Ret (Some sms, k')"
proof (induction ps arbitrary: k)
  case (Cons p ps)
  have A: "alloc i = True" for i using Cons.prems(1) by simp
  have nc: "next_clause (join (p # ps)) = (p, if ps = [] then None else Some (join ps))"
    using Cons.prems(3) by (intro next_clause_join) (simp add: compiles_def)
  have rest: "\<exists>sms k'. parse_clauses (x_regcomp E) alloc i (join ps) = Ret (Some sms, k')" if "ps \<noteq> []" for i
    using Cons.IH [OF Cons.prems(1) that] Cons.prems(3) by simp
  obtain sm where sm: "(if p \<noteq> ''*'' then bind_run (SetPattern (x_regcomp E) StringMatcher_new p True) (\<lambda>(st, m). Ret (st, Some m))
      else Ret (B_NO_ERROR, None)) = Ret (B_NO_ERROR, sm)"
    using Cons.prems(3) by (cases "p = ''*''") (auto simp: compiles_def)
  obtain i where i: "i = (if p = ''*'' then k else Suc k)" by simp
  show ?case
  proof (cases "ps = []")
    case True
    then have "next_clause p = (p, None)" using nc by simp
    then show ?thesis using sm True by (subst parse_clauses.simps) (auto simp: A split: if_splits)
  next
    case False
    obtain sms k' where "parse_clauses (x_regcomp E) alloc (Suc i) (join ps) = Ret (Some sms, k')" using rest [OF False] by blast
    then show ?thesis using sm False i by (subst parse_clauses.simps) (auto simp: nc A split: if_splits)
  qed
qed simp

lemma put_path_new:
  assumes "\<forall>k. x_alloc E k" "ere_documented (x_regcomp E) (x_regexec E)" "ps \<noteq> []" "list_all (compiles E) ps"
    "join ps \<notin> fst ` set (pm_entries pm)"
  shows "\<exists>e pm' k. put_path E pm (join ps) flt s = Ret (B_NO_ERROR, pm', s\<lparr>v_allocs := k\<rparr>) \<and>
    pm_entries pm' = pm_entries pm @ [(join ps, e)] \<and> e_filter e = flt \<and> entry_for E ps e"
proof -
  have A: "x_alloc E k = True" for k using assms(1) by simp
  obtain sms k where p: "parse_clauses (x_regcomp E) (x_alloc E) (Suc (v_allocs s)) (join ps) = Ret (Some sms, k)"
    using parse_clauses_compiles [OF assms(1,3,4)] by blast
  have "list_all (\<lambda>p. clause_ok p \<and> p \<noteq> []) ps" using assms(4) by (auto simp: list_all_iff compiles_def)
  from parse_entry_for [OF assms(2,3) this p] have "entry_for E ps \<lparr>e_parser = sms, e_filter = flt\<rparr>" .
  moreover have "join ps \<noteq> []" using assms(3,4) by (cases ps) (auto simp: join_Cons compiles_def)
  moreover have "\<exists>pm'. put_path E pm (join ps) flt s = Ret (B_NO_ERROR, pm', s\<lparr>v_allocs := Suc k\<rparr>) \<and>
      pm_entries pm' = pm_entries pm @ [(join ps, \<lparr>e_parser = sms, e_filter = flt\<rparr>)]" if "join ps \<noteq> []"
    using that assms(5) by (simp add: put_path_def PutPathString_def A p put_entry_def Let_def table_put_def)
  ultimately show ?thesis by fastforce
qed

section \<open>Marks\<close>

definition mark :: "('m, 'r, 'f) server \<Rightarrow> nref \<Rightarrow> string \<Rightarrow> u32" where
  "mark s n sid = (case map_of (d_subscribers (nd s n)) sid of None \<Rightarrow> 0 | Some r \<Rightarrow> r)"

lemma map_of_put: "map_of (table_put k v xs) k' = (if k' = k then Some v else map_of xs k')"
proof -
  have "map_of (map (\<lambda>kv. if fst kv = k then (k, v) else kv) xs) k' =
      (if k' = k then (if k \<in> fst ` set xs then Some v else None) else map_of xs k')"
  proof (induction xs)
    case (Cons x xs)
    obtain a b where "x = (a, b)" by fastforce
    then show ?case using Cons by (cases "a = k"; cases "k' = k") simp_all
  qed simp
  moreover have "map_of xs k = None" if "k \<notin> fst ` set xs" using that by (simp add: map_of_eq_None_iff)
  ultimately show ?thesis
    by (cases "k \<in> fst ` set xs"; cases "k' = k") (simp_all add: table_put_def map_add_def split: option.split)
qed

lemma map_of_remove: "map_of (remove_item k xs) k' = (if k' = k then None else map_of xs k')"
  unfolding remove_item_def by (induction xs) auto

lemma mark_put:
  assumes "\<forall>k. x_alloc E k"
  shows "mark (put_mark E n sid v s) m sid' = (if m = n \<and> sid' = sid then v else mark s m sid')"
  using assms by (auto simp: put_mark_def request_def mark_def map_of_put Let_def)

lemma mark_up:
  assumes "\<forall>k. x_alloc E k"
  shows "mark (IncrementSubscriptionRefCount E n sid 1 s) m sid' = (if m = n \<and> sid' = sid then mark s m sid' + 1 else mark s m sid')"
proof -
  have "IncrementSubscriptionRefCount E n sid 1 s = put_mark E n sid (mark s n sid + 1) s"
    by (simp add: IncrementSubscriptionRefCount_def mark_def Let_def)
  then show ?thesis by (simp add: mark_put [OF assms])
qed

lemma mark_down:
  assumes "\<forall>k. x_alloc E k"
  shows "mark (IncrementSubscriptionRefCount E n sid (- 1) s) m sid' =
    (if m = n \<and> sid' = sid then (if mark s m sid' = 0 then 0 else mark s m sid' - 1) else mark s m sid')"
proof (cases "map_of (d_subscribers (nd s n)) sid")
  case None
  then show ?thesis by (auto simp: IncrementSubscriptionRefCount_def mark_def)
next
  case (Some r)
  have "r \<le> 1 \<longleftrightarrow> r = 0 \<or> r = 1" by unat_arith
  then show ?thesis using Some
    by (auto simp: IncrementSubscriptionRefCount_def Let_def mark_put [OF assms]) (auto simp: mark_def map_of_remove)
qed

section \<open>The marks of a session\<close>

text \<open>The number of entries of a matcher that accept a node, by the names on the way from the root to it.\<close>

definition accepting :: "('m, 'r, 'f) server_env \<Rightarrow> ('m, 'r, 'f) server \<Rightarrow> ('r, 'f) path_matcher \<Rightarrow> nref \<Rightarrow> nref list \<Rightarrow> nat" where
  "accepting E s pm c ms = length (filter (\<lambda>(p, e). entry_accepts E e (names_below s 0 c ms)) (pm_entries pm))"

text \<open>Every node below the root is marked for the session as many times as its subscriptions match it.\<close>

definition marks_ok :: "('m, 'r, 'f) server_env \<Rightarrow> ('m, 'r, 'f) server \<Rightarrow> tree \<Rightarrow> string \<Rightarrow> ('r, 'f) path_matcher \<Rightarrow> bool" where
  "marks_ok E s T sid pm \<longleftrightarrow>
     (\<forall>ms c us. occurs [] T ms (Tree c us) \<longrightarrow> ms \<noteq> [] \<longrightarrow> mark s c sid = of_nat (accepting E s pm c ms))"

lemma mark_same_nodes: "v_nodes s' = v_nodes s \<Longrightarrow> mark s' n sid = mark s n sid"
  by (simp add: mark_def nd_def)

lemma names_below_same: "same_tree s s' \<Longrightarrow> names_below s' r c ms = names_below s r c ms"
  by (simp add: names_below_def same_treeD)

lemma accepting_same: "same_tree s s' \<Longrightarrow> accepting E s' pm c ms = accepting E s pm c ms"
  by (simp add: accepting_def names_below_same)

text \<open>What one call of the callback does to the mark.\<close>

lemma calls_marks:
  assumes "\<And>s n m sid. mark (IncrementSubscriptionRefCount E n this delta s) m sid = (if m = n \<and> sid = this then f (mark s m sid) else mark s m sid)"
  shows "distinct ns \<Longrightarrow> calls (DoSubscribeRefCallback E this delta) ns (s, u) = Ret (s', u') \<Longrightarrow>
    mark s' m sid = (if m \<in> set ns \<and> sid = this then f (mark s m sid) else mark s m sid)"
proof (induction ns arbitrary: s u)
  case (Cons n ns)
  have "DoSubscribeRefCallback E this delta n (s, u) =
      Ret (depth_of (IncrementSubscriptionRefCount E n this delta s) n, IncrementSubscriptionRefCount E n this delta s, u)"
    by (simp add: DoSubscribeRefCallback_def Let_def)
  with Cons.prems(2) have "calls (DoSubscribeRefCallback E this delta) ns (IncrementSubscriptionRefCount E n this delta s, u) = Ret (s', u')"
    by simp
  from Cons.IH [OF _ this] show ?case using Cons.prems(1) by (auto simp: assms)
qed simp

lemma occurs_root: "occurs [] T ms u \<Longrightarrow> ms \<noteq> [] \<Longrightarrow> \<exists>xs. ms = xs @ [troot T]"
  by (cases T) (auto dest!: occurs_prefix)

text \<open>The traversal with the matcher of a new subscription calls back for the nodes that the entry accepts.\<close>

lemma subscription_walk:
  assumes "\<forall>k. x_alloc E k" "tree_ok s T" "pm_entries temp = [(p, e)]" "entry_for E ps e" "length ps < fuel"
  shows "\<exists>ns s'. distinct ns \<and> calls (DoSubscribeRefCallback E this delta) ns (s, ()) = Ret (s', ()) \<and> same_tree s s' \<and>
    DoTraversal fuel E temp (DoSubscribeRefCallback E this delta) (v_root s) False (s, ()) = Ret (s', ()) \<and>
    (\<forall>ms c us. occurs [] T ms (Tree c us) \<longrightarrow> ms \<noteq> [] \<longrightarrow> (c \<in> set ns \<longleftrightarrow> entry_accepts E e (names_below s 0 c ms)))"
proof -
  obtain n ts where T: "T = Tree n ts" by (cases T)
  have root: "v_root s = n" using assms(2) T by (simp add: tree_ok_def)
  have o: "occurs [] T [] (Tree n ts)" using T occurs.here [of "[]" T] by simp
  have us: "unique_sound E temp" using assms(3,4) by (auto simp: unique_sound_def entry_for_def)
  have len: "0 < fuel" "\<forall>(p, e)\<in>set (pm_entries temp). length (e_parser e) < fuel"
    using assms(3-5) by (auto simp: entry_for_def)
  have "\<exists>ns. distinct ns \<and> (\<forall>c. c \<in> set ns \<longleftrightarrow> (\<exists>xs us. occurs [] T (xs @ [n]) (Tree c us) \<and> (\<exists>(p, e)\<in>set (pm_entries temp).
      entry_accepts E e (names_below s (length ([] :: nref list)) c (xs @ [n])) \<and> (False \<longrightarrow> FilterMatches (x_fmatch E) e (d_data (nd s c)))))) \<and>
    (\<forall>u :: unit. \<exists>s' u'. calls (DoSubscribeRefCallback E this delta) ns (s, u) = Ret (s', u') \<and> same_tree s s' \<and>
      DoTraversal fuel E temp (DoSubscribeRefCallback E this delta) n False (s, u) = Ret (s', u'))"
    by (rule subscribing.DoTraversal_visits [OF assms(1,2) o _ us len]) simp
  then obtain ns where ns: "distinct ns"
    "\<And>c. c \<in> set ns \<longleftrightarrow> (\<exists>xs us. occurs [] T (xs @ [n]) (Tree c us) \<and> entry_accepts E e (names_below s 0 c (xs @ [n])))"
    "\<forall>u :: unit. \<exists>s' u'. calls (DoSubscribeRefCallback E this delta) ns (s, u) = Ret (s', u') \<and> same_tree s s' \<and>
      DoTraversal fuel E temp (DoSubscribeRefCallback E this delta) n False (s, u) = Ret (s', u')"
    using assms(3) by (elim exE conjE) simp
  obtain s' where s': "calls (DoSubscribeRefCallback E this delta) ns (s, ()) = Ret (s', ())" "same_tree s s'"
    "DoTraversal fuel E temp (DoSubscribeRefCallback E this delta) n False (s, ()) = Ret (s', ())"
    using ns(3) by auto
  have "c \<in> set ns \<longleftrightarrow> entry_accepts E e (names_below s 0 c ms)" if c: "occurs [] T ms (Tree c us)" "ms \<noteq> []" for ms c us
  proof -
    have pl: "placed s c ms'" if "occurs [] T ms' (Tree c us')" for ms' us'
      using tree_ok_seated [OF assms(2) that] by (simp add: seated_def)
    have "ms' = ms" if "occurs [] T ms' (Tree c us')" for ms' us'
      using pl [OF c(1)] pl [OF that] line_unique by (auto simp: placed_def)
    then show ?thesis unfolding ns(2) using occurs_root [OF c(1,2)] c(1) T by fastforce
  qed
  then show ?thesis using ns(1) s' root by blast
qed


section \<open>Subscribing and unsubscribing\<close>

text \<open>
  The subscriptions of a session are paths that the library took, each with an entry of its clauses, and the
  marks of the session count them.
\<close>

definition subscribed :: "('m, 'r, 'f) server_env \<Rightarrow> ('m, 'r, 'f) server \<Rightarrow> tree \<Rightarrow> string \<Rightarrow> ('r, 'f) path_matcher \<Rightarrow> bool" where
  "subscribed E s T this pm \<longleftrightarrow> map_option s_subscriptions (session_of s this) = Some pm \<and> distinct (map fst (pm_entries pm)) \<and>
     (\<forall>(p, e)\<in>set (pm_entries pm). \<exists>ps. p = join ps \<and> ps \<noteq> [] \<and> list_all (compiles E) ps \<and> entry_for E ps e) \<and>
     marks_ok E s T this pm"

lemma tree_ok_same:
  assumes a: "same_tree s s'" "tree_ok s T"
  shows "tree_ok s' T"
proof -
  have "shape_of (v_nodes s' n) = shape_of (v_nodes s n)" for n
    using a(1) by (intro core_shape) (simp add: same_tree_def nd_def)
  then have "shaped (v_nodes s') [] T = shaped (v_nodes s) [] T" by (intro shaped_cong)
  then show ?thesis using a placed_same [OF a(1)] by (simp add: tree_ok_def seated_def same_tree_def)
qed

lemma walk_subscribed:
  assumes "\<forall>k. x_alloc E k" "tree_ok s T" "session_of s this = Some x" "v_nodes s1 = v_nodes s" "v_fresh s1 = v_fresh s" "v_root s1 = v_root s"
    "session_of s1 this = Some x1" "pm_entries temp = [(p, e)]" "entry_for E ps e" "length ps < fuel"
    "\<And>s n m sid. mark (IncrementSubscriptionRefCount E n this delta s) m sid = (if m = n \<and> sid = this then f (mark s m sid) else mark s m sid)"
    "\<forall>ms c us. occurs [] T ms (Tree c us) \<longrightarrow> ms \<noteq> [] \<longrightarrow>
      of_nat (accepting E s (s_subscriptions x1) c ms) = (if entry_accepts E e (names_below s 0 c ms) then f (mark s c this) else mark s c this)"
  shows "\<exists>s'. DoTraversal fuel E temp (DoSubscribeRefCallback E this delta) (v_root s1) False (s1, ()) = Ret (s', ()) \<and>
    tree_ok s' T \<and> map_option s_subscriptions (session_of s' this) = Some (s_subscriptions x1) \<and> marks_ok E s' T this (s_subscriptions x1) \<and>
    (\<forall>n sid. sid \<noteq> this \<longrightarrow> mark s' n sid = mark s n sid)"
proof -
  have T1: "tree_ok s1 T" using tree_ok_nodes [OF assms(4-6)] assms(2) by simp
  have nb: "names_below s1 r c ms = names_below s r c ms" for r c ms using assms(4) by (simp add: names_below_def nd_def)
  have mk: "mark s1 n sid = mark s n sid" for n sid by (rule mark_same_nodes [OF assms(4)])
  obtain ns s' where w: "distinct ns" "calls (DoSubscribeRefCallback E this delta) ns (s1, ()) = Ret (s', ())" "same_tree s1 s'"
    "DoTraversal fuel E temp (DoSubscribeRefCallback E this delta) (v_root s1) False (s1, ()) = Ret (s', ())"
    "\<forall>ms c us. occurs [] T ms (Tree c us) \<longrightarrow> ms \<noteq> [] \<longrightarrow> (c \<in> set ns \<longleftrightarrow> entry_accepts E e (names_below s1 0 c ms))"
    using subscription_walk [OF assms(1) T1 assms(8-10), of this delta] by blast
  have m: "mark s' m sid = (if m \<in> set ns \<and> sid = this then f (mark s m sid) else mark s m sid)" for m sid
    using calls_marks [OF assms(11) w(1,2)] mk by simp
  have "tree_ok s' T" by (rule tree_ok_same [OF w(3) T1])
  moreover have "map_option s_subscriptions (session_of s' this) = Some (s_subscriptions x1)"
  proof -
    obtain x' where x': "session_of s' this = Some x'" "static x' = static x1"
      using session_of_same [OF w(3), of this] assms(7) by auto
    from arg_cong [OF x'(2), of s_subscriptions] show ?thesis using x'(1) by (simp add: static_def)
  qed
  moreover have "marks_ok E s' T this (s_subscriptions x1)"
  proof -
    have "accepting E s' pm c ms = accepting E s pm c ms" for pm c ms
      using accepting_same [OF w(3)] by (simp add: accepting_def nb)
    then show ?thesis unfolding marks_ok_def using w(5) assms(12) m nb by auto
  qed
  moreover have "\<forall>n sid. sid \<noteq> this \<longrightarrow> mark s' n sid = mark s n sid" using m by simp
  ultimately show ?thesis using w(4) by blast
qed

end
