(* ===== verification/Node_Erase.thy ===== *)
theory Node_Erase
  imports Node_Marks
begin

text \<open>
  The removal of all nodes that a path with wildcards matches. They are all as far from the root, so that none is
  below another, and each is still in its place when its turn comes.
\<close>

section \<open>Places\<close>

lemma place_unique:
  assumes "tree_ok s T" "occurs [] T ms u" "occurs [] T ms' v" "troot u = troot v"
  shows "ms = ms' \<and> u = v"
proof -
  have "placed s (troot u) ms" "placed s (troot v) ms'"
    using tree_ok_seated [OF assms(1,2)] tree_ok_seated [OF assms(1,3)] by (simp_all add: seated_def)
  then have "ms = ms'" using line_unique assms(4) by (auto simp: placed_def)
  moreover have "u = v" using occurs_unique [OF _ assms(2-4)] assms(1) by (simp add: tree_ok_def seated_def)
  ultimately show ?thesis by simp
qed

lemma place_depth:
  assumes "tree_ok s T" "occurs [] T ms v" "occurs [] T ms' u" "troot u \<in> set (tnodes v)"
  shows "length ms \<le> length ms' \<and> (length ms = length ms' \<longrightarrow> u = v)"
proof -
  obtain ms'' ws where o: "occurs ms v ms'' (Tree (troot u) ws)" using occurs_exists [OF assms(4)] by blast
  have "ms'' = ms' \<and> Tree (troot u) ws = u" by (rule place_unique [OF assms(1) occurs_trans [OF o assms(2)] assms(3)]) simp
  then show ?thesis using occurs_prefix [OF o] by auto
qed

lemma occurs_above: "occurs ms T (xs @ n # ys) u \<Longrightarrow> length ms \<le> length ys \<Longrightarrow> \<exists>w. occurs ms T ys w \<and> troot w = n"
proof (induction xs arbitrary: u)
  case Nil
  from Nil.prems(1) show ?case
    by (cases rule: occurs.cases) (use Nil.prems(2) in auto)
next
  case (Cons x xs)
  from Cons.prems(1) show ?case
    by (cases rule: occurs.cases) (use Cons.prems(2) Cons.IH in auto)
qed

text \<open>Taking a child away leaves every subtree in its place that is neither below the child nor above it.\<close>

lemma prune_occurs:
  "distinct (tnodes T) \<Longrightarrow> occurs ms T mp (Tree p (ts1 @ t # ts2)) \<Longrightarrow> occurs ms T mu u \<Longrightarrow> p \<notin> set (tnodes u) \<Longrightarrow>
    u \<noteq> t \<Longrightarrow> troot t \<notin> set mu \<Longrightarrow> occurs ms (graft (Tree p (ts1 @ ts2)) T) mu u"
proof (induction T arbitrary: ms)
  case (Tree m ts)
  have p: "p \<in> set (tnodes (Tree m ts))"
    using occurs_nodes [OF Tree.prems(2)] tnodes_root [of "Tree p (ts1 @ t # ts2)"] by auto
  from occurs_cases [OF Tree.prems(3)] obtain t' where t': "t' \<in> set ts" "occurs (m # ms) t' mu u"
    using p Tree.prems(4) by auto
  show ?case
  proof (cases "m = p")
    case True
    have "Tree m ts = Tree p (ts1 @ t # ts2)"
      using occurs_unique [OF Tree.prems(1) occurs.here Tree.prems(2)] True by simp
    then have ts: "ts = ts1 @ t # ts2" by simp
    have "t' \<noteq> t" using occurs_prefix [OF t'(2)] Tree.prems(5,6) by auto
    then have "occurs ms (Tree m (ts1 @ ts2)) mu u" using occurs_below [OF t'(2)] t'(1) ts by auto
    then show ?thesis using True by simp
  next
    case False
    have "occurs (m # ms) (graft (Tree p (ts1 @ ts2)) t') mu u"
    proof (cases "p \<in> set (tnodes t')")
      case True
      from occurs_cases [OF Tree.prems(2)] obtain t'' where t'': "t'' \<in> set ts" "occurs (m # ms) t'' mp (Tree p (ts1 @ t # ts2))"
        using False by auto
      have "p \<in> set (tnodes t'')" using occurs_nodes [OF t''(2)] by (simp add: tnodes.simps)
      then have "t'' = t'" using below_disjoint [OF Tree.prems(1) t''(1) t'(1)] True by blast
      moreover have "distinct (tnodes t')" using Tree.prems(1) t'(1) by (auto simp: tnodes.simps distinct_below)
      ultimately show ?thesis using Tree.IH [OF t'(1) _ _ t'(2)] t''(2) Tree.prems(4-6) by simp
    next
      case absent: False
      then show ?thesis using graft_absent [of "Tree p (ts1 @ ts2)" t'] t'(2) by simp
    qed
    from occurs_below [OF this] show ?thesis using False t'(1) by auto
  qed
qed

section \<open>Removing what was found\<close>

lemma quota_set_count: "quota s this d c mx \<Longrightarrow> quota (set_session this (\<lambda>x. x\<lparr>s_currentNodeCount := k\<rparr>) s) this d k mx"
  by (auto simp: quota_def session_of_set)

lemma steady_set_count: "steady E (set_session this (\<lambda>x. x\<lparr>s_currentNodeCount := k\<rparr>) s) = steady E s"
  unfolding steady_def set_session_def by (auto split: prod.splits)

lemma remove_one:
  assumes "steady E s" "tree_ok s T" "quota s this d c mx" "occurs [] T (p # ms) u" "2 * length (tnodes u) \<le> fuel"
  shows "\<exists>s' T'. remove_found fuel E this quiet (troot u # ns) s = remove_found fuel E this quiet ns s' \<and> steady E s' \<and> tree_ok s' T' \<and>
    quota s' this d (c - of_nat (length (tnodes u))) mx \<and> set (tnodes T') = set (tnodes T) - set (tnodes u) \<and>
    (\<forall>m\<in>set (tnodes T'). d_data (nd s' m) = d_data (nd s m)) \<and> (\<forall>m. d_name (nd s' m) = d_name (nd s m)) \<and>
    (\<forall>mv v. occurs [] T mv v \<longrightarrow> length mv = Suc (length ms) \<longrightarrow> v \<noteq> u \<longrightarrow> occurs [] T' mv v)"
proof -
  from assms(4) obtain ts where o: "occurs [] T ms (Tree p ts)" "u \<in> set ts" by (cases rule: occurs.cases) auto
  obtain ts1 ts2 where ts: "ts = ts1 @ u # ts2" using split_list [OF o(2)] by blast
  note op = o(1) [unfolded ts]
  obtain T' where T': "T' = graft (Tree p (ts1 @ ts2)) T" by simp
  obtain x where x: "session_of s this = Some x" "s_currentNodeCount x = c" using assms(3) by (auto simp: quota_def)
  obtain nt where nt: "nt = (if quiet then None else Some this)" by simp
  obtain s1 where s1: "RemoveChild fuel E p (d_name (nd s (troot u))) nt True (Some c) s =
      Ret (B_NO_ERROR, lessened (Some c) (length (tnodes u)), s1)" "tree_ok s1 T'" "set (tnodes T') = set (tnodes T) - set (tnodes u)"
    "node_frame (insert p (set (tnodes u))) s s1" "tree_part (nd s1 p) = tree_part (without (troot u) (nd s p))"
    using RemoveChild_tree [OF assms(1,2) op assms(5), of nt "Some c"] T' by blast
  have par: "d_parent (nd s (troot u)) = Some p"
    using tree_ok_seated [OF assms(2,4)] by (simp add: seated_def placed_def nd_def)
  obtain k where k: "k = c - of_nat (length (tnodes u))" by simp
  obtain s' where s': "s' = set_session this (\<lambda>x. x\<lparr>s_currentNodeCount := k\<rparr>) s1" by simp
  have nds: "nd s' = nd s1" by (simp add: s')
  have step: "remove_found fuel E this quiet (troot u # ns) s = remove_found fuel E this quiet ns s'"
    using par s1(1) x nt by (simp add: lessened_def s' k)
  have "steady E s'" unfolding s' steady_set_count by (rule steady_frame [OF s1(4) assms(1)])
  moreover have "tree_ok s' T'" using tree_ok_nodes [of s' s1 T'] s1(2) by (simp add: s')
  moreover have "quota s' this d k mx"
  proof -
    have "quota s1 this d c mx" by (rule quota_static [OF _ assms(3)]) (use s1(4) in \<open>simp add: node_frame_def\<close>)
    then show ?thesis unfolding s' by (rule quota_set_count)
  qed
  moreover have "d_data (nd s' m) = d_data (nd s m)" if "m \<in> set (tnodes T')" for m
  proof (cases "m = p")
    case True
    then show ?thesis using s1(5) nds by (simp add: core_eq_iff without_def)
  next
    case False
    then show ?thesis using s1(3,4) that nds by (simp add: node_frame_def core_eq_iff)
  qed
  moreover have "\<forall>m. d_name (nd s' m) = d_name (nd s m)" using s1(4) nds by (simp add: node_frame_def)
  moreover have "occurs [] T' mv v" if v: "occurs [] T mv v" "length mv = Suc (length ms)" "v \<noteq> u" for mv v
    unfolding T'
  proof (rule prune_occurs [OF _ op v(1) _ v(3)])
    show "distinct (tnodes T)" using assms(2) by (simp add: tree_ok_def seated_def)
    show "p \<notin> set (tnodes v)" using place_depth [OF assms(2) v(1) op] v(2) by auto
    show "troot u \<notin> set mv"
    proof
      assume "troot u \<in> set mv"
      then obtain xs ys where mv: "mv = xs @ troot u # ys" by (auto simp: in_set_conv_decomp)
      obtain w where w: "occurs [] T ys w" "troot w = troot u" using occurs_above [OF v(1) [unfolded mv]] by auto
      have "ys = p # ms" using place_unique [OF assms(2) w(1) assms(4) w(2)] by simp
      then show False using v(2) mv by simp
    qed
  qed
  ultimately show ?thesis using step s1(3) k by blast
qed

lemma remove_found_all:
  assumes "distinct us" "\<And>u. u \<in> set us \<Longrightarrow> \<exists>ms. length ms = Suc L \<and> occurs [] T ms u" "steady E s" "tree_ok s T" "quota s this d c mx"
    "2 * length (tnodes T) \<le> fuel"
  shows "\<exists>s' T'. remove_found fuel E this quiet (map troot us) s = Ret s' \<and> tree_ok s' T' \<and>
    quota s' this d (c - of_nat (card (set (tnodes T) - set (tnodes T')))) mx \<and>
    set (tnodes T') = set (tnodes T) - (\<Union>u\<in>set us. set (tnodes u)) \<and>
    (\<forall>m\<in>set (tnodes T'). d_data (nd s' m) = d_data (nd s m)) \<and> (\<forall>m. d_name (nd s' m) = d_name (nd s m))"
  using assms
proof (induction us arbitrary: s T c)
  case (Cons u us)
  obtain p ms where o: "occurs [] T (p # ms) u" "length ms = L"
    using Cons.prems(2) [of u] by (auto simp: length_Suc_conv)
  have sub: "set (tnodes u) \<subseteq> set (tnodes T)" by (rule occurs_nodes [OF o(1)])
  have dT: "distinct (tnodes T)" using Cons.prems(4) by (simp add: tree_ok_def seated_def)
  have du: "distinct (tnodes u)" by (rule occurs_distinct [OF o(1) dT])
  have len: "2 * length (tnodes u) \<le> fuel"
    using shrink_length [OF du sub dT] Cons.prems(6) by simp
  obtain s1 T1 where s1: "remove_found fuel E this quiet (map troot (u # us)) s = remove_found fuel E this quiet (map troot us) s1"
    "steady E s1" "tree_ok s1 T1" "quota s1 this d (c - of_nat (length (tnodes u))) mx" "set (tnodes T1) = set (tnodes T) - set (tnodes u)"
    "\<forall>m\<in>set (tnodes T1). d_data (nd s1 m) = d_data (nd s m)" "\<forall>m. d_name (nd s1 m) = d_name (nd s m)"
    "\<And>mv v. occurs [] T mv v \<Longrightarrow> length mv = Suc L \<Longrightarrow> v \<noteq> u \<Longrightarrow> occurs [] T1 mv v"
    using remove_one [OF Cons.prems(3,4,5) o(1) len, of quiet "map troot us"] o(2) by auto
  have "\<exists>ms. length ms = Suc L \<and> occurs [] T1 ms v" if "v \<in> set us" for v
    using Cons.prems(1) Cons.prems(2) [of v] s1(8) [of _ v] that by auto
  moreover have "2 * length (tnodes T1) \<le> fuel"
  proof -
    have "distinct (tnodes T1)" using s1(3) by (simp add: tree_ok_def seated_def)
    then have "length (tnodes T1) \<le> length (tnodes T)" using shrink_length [OF _ _ dT] s1(5) by blast
    then show ?thesis using Cons.prems(6) by simp
  qed
  ultimately obtain s' T' where s': "remove_found fuel E this quiet (map troot us) s1 = Ret s'" "tree_ok s' T'"
    "quota s' this d (c - of_nat (length (tnodes u)) - of_nat (card (set (tnodes T1) - set (tnodes T')))) mx"
    "set (tnodes T') = set (tnodes T1) - (\<Union>u\<in>set us. set (tnodes u))"
    "\<forall>m\<in>set (tnodes T'). d_data (nd s' m) = d_data (nd s1 m)" "\<forall>m. d_name (nd s' m) = d_name (nd s1 m)"
    using Cons.IH [OF _ _ s1(2,3,4)] Cons.prems(1) by (metis distinct.simps(2))
  have "card (set (tnodes T) - set (tnodes T')) = length (tnodes u) + card (set (tnodes T1) - set (tnodes T'))"
  proof -
    have "set (tnodes T) - set (tnodes T') = set (tnodes u) \<union> (set (tnodes T1) - set (tnodes T'))"
      unfolding s'(4) s1(5) using sub by blast
    moreover have "set (tnodes u) \<inter> (set (tnodes T1) - set (tnodes T')) = {}" unfolding s1(5) by blast
    ultimately show ?thesis using distinct_card [OF du] by (simp add: card_Un_disjoint)
  qed
  then have "quota s' this d (c - of_nat (card (set (tnodes T) - set (tnodes T')))) mx" using s'(3) by (simp add: algebra_simps)
  moreover have "set (tnodes T') = set (tnodes T) - (\<Union>v\<in>set (u # us). set (tnodes v))" unfolding s'(4) s1(5) by auto
  moreover have "\<forall>m\<in>set (tnodes T'). d_data (nd s' m) = d_data (nd s m)" using s'(4,5) s1(6) by simp
  moreover have "\<forall>m. d_name (nd s' m) = d_name (nd s m)" using s'(6) s1(7) by simp
  ultimately show ?case using s1(1) s'(1,2) by (intro exI [of _ s'] exI [of _ T']) simp
qed auto

section \<open>Finding them\<close>

lemma calls_removing:
  assumes "\<forall>k. x_alloc E k" "tree_ok s T"
  shows "\<forall>c\<in>set ns. c \<in> set (tnodes T) \<and> depth_of s c > 2 \<Longrightarrow>
    \<exists>j. calls (RemoveDataCallback E) ns (s\<lparr>v_allocs := k\<rparr>, u) = Ret (s\<lparr>v_allocs := j\<rparr>, u @ ns)"
proof (induction ns arbitrary: k u)
  case (Cons n ns)
  obtain e i where "RemoveDataCallback E n (s\<lparr>v_allocs := k\<rparr>, u) = Ret (e, s\<lparr>v_allocs := i\<rparr>, u @ [n])"
    using RemoveDataCallback_gentle [OF assms, of n "s\<lparr>v_allocs := k\<rparr>" u] Cons.prems by auto
  then show ?case using Cons.IH [of i "u @ [n]"] Cons.prems by simp
qed auto

text \<open>The nodes below \<open>d\<close>, whose ancestors are \<open>ms\<close>, that a path with a filter asks for.\<close>

definition asked_for :: "('m, 'r, 'f) server_env \<Rightarrow> ('m, 'r, 'f) server \<Rightarrow> tree \<Rightarrow> nref list \<Rightarrow> nref \<Rightarrow> string list \<Rightarrow> 'f option \<Rightarrow> tree \<Rightarrow> bool" where
  "asked_for E s T ms d ps flt u \<longleftrightarrow> (\<exists>xs. occurs [] T (xs @ d # ms) u \<and>
     list_all2 (clause_accepts (x_regcomp E) (x_regexec E)) ps (names_below s (length ms) (troot u) (xs @ d # ms)) \<and>
     filter_passes (x_fmatch E) flt (d_data (nd s (troot u))))"

lemma length_names_below: "length (names_below s r c ms) = length ms - r"
  unfolding names_below_def by (simp only: length_drop length_map length_rev list.size)

lemma removal_walk:
  assumes "\<forall>k. x_alloc E k" "tree_ok s T" "occurs [] T ms (Tree d ts)" "2 \<le> length ms"
    "pm_entries pm = [(p, e)]" "entry_for E ps e" "e_filter e = flt" "length ps < fuel"
  shows "\<exists>us j. distinct us \<and> (\<forall>u. u \<in> set us \<longleftrightarrow> asked_for E s T ms d ps flt u) \<and>
    DoTraversal fuel E pm (RemoveDataCallback E) d True (s, []) = Ret (s\<lparr>v_allocs := j\<rparr>, map troot us)"
proof -
  have us: "unique_sound E pm" using assms(5,6) by (auto simp: unique_sound_def entry_for_def)
  have len: "0 < fuel" "\<forall>(p, e)\<in>set (pm_entries pm). length (e_parser e) < fuel"
    using assms(5,6,8) by (auto simp: entry_for_def)
  have one: "ms = [] \<or> length (pm_entries pm) = 1" using assms(5) by simp
  obtain ns where ns: "distinct ns" "\<forall>c. c \<in> set ns \<longleftrightarrow> (\<exists>xs us. occurs [] T (xs @ d # ms) (Tree c us) \<and> (\<exists>(p, e)\<in>set (pm_entries pm).
      entry_accepts E e (names_below s (length ms) c (xs @ d # ms)) \<and> (True \<longrightarrow> FilterMatches (x_fmatch E) e (d_data (nd s c)))))"
    "\<forall>u. \<exists>s' u'. calls (RemoveDataCallback E) ns (s, u) = Ret (s', u') \<and> same_tree s s' \<and>
      DoTraversal fuel E pm (RemoveDataCallback E) d True (s, u) = Ret (s', u')"
    using removing.DoTraversal_visits [OF assms(1-3) one us len, of True] by blast
  have mem: "c \<in> set ns \<longleftrightarrow> (\<exists>us. asked_for E s T ms d ps flt (Tree c us))" for c
    using ns(2) assms(5-7) by (auto simp: asked_for_def entry_for_def FilterMatches_passes)
  obtain f where f: "\<And>c. c \<in> set ns \<Longrightarrow> asked_for E s T ms d ps flt (f c) \<and> troot (f c) = c"
    using bchoice [of "set ns" "\<lambda>c u. asked_for E s T ms d ps flt u \<and> troot u = c"] mem by (metis tree.sel(1))
  have roots: "map troot (map f ns) = ns" using f by (auto intro: map_idI)
  have all: "u \<in> set (map f ns) \<longleftrightarrow> asked_for E s T ms d ps flt u" for u
  proof
    assume "u \<in> set (map f ns)"
    then show "asked_for E s T ms d ps flt u" using f by auto
  next
    assume u: "asked_for E s T ms d ps flt u"
    then have "troot u \<in> set ns" using mem by (metis tree.collapse)
    moreover have "f (troot u) = u"
    proof -
      have "asked_for E s T ms d ps flt (f (troot u))" "troot (f (troot u)) = troot u" using f [OF calculation] by simp_all
      then show ?thesis using u place_unique [OF assms(2)] unfolding asked_for_def by metis
    qed
    ultimately show "u \<in> set (map f ns)" by force
  qed
  have deep: "c \<in> set (tnodes T) \<and> depth_of s c > 2" if c: "c \<in> set ns" for c
  proof -
    obtain us xs where o: "occurs [] T (xs @ d # ms) (Tree c us)" using mem c unfolding asked_for_def by blast
    have "placed s c (xs @ d # ms)" using tree_ok_seated [OF assms(2) o] by (simp add: seated_def)
    then have "depth_of s c = int (length (xs @ d # ms))" using sint_depth [of "xs @ d # ms"] by (simp add: placed_def depth_of_def)
    moreover have "c \<in> set (tnodes T)" using occurs_nodes [OF o] by (simp add: tnodes.simps)
    ultimately show ?thesis using assms(4) by simp
  qed
  have s: "s\<lparr>v_allocs := v_allocs s\<rparr> = s" by simp
  obtain j where "calls (RemoveDataCallback E) ns (s, []) = Ret (s\<lparr>v_allocs := j\<rparr>, ns)"
    using calls_removing [OF assms(1,2), of ns "v_allocs s" "[]"] deep unfolding s by auto
  then have "DoTraversal fuel E pm (RemoveDataCallback E) d True (s, []) = Ret (s\<lparr>v_allocs := j\<rparr>, ns)"
    using ns(3) [rule_format, of "[]"] by auto
  moreover have "distinct (map f ns)" using ns(1) roots by (metis distinct_map)
  ultimately show ?thesis using all roots by (intro exI [of _ "map f ns"] exI [of _ j]) simp
qed

section \<open>The command\<close>

lemma RemoveDataNodes_tree:
  assumes "steady E s" "ere_documented (x_regcomp E) (x_regexec E)" "tree_ok s T" "quota s this d c mx"
    "occurs [] T ms (Tree d ts)" "2 \<le> length ms" "ps \<noteq> []" "list_all (compiles E) ps" "length ps < fuel" "2 * length (tnodes T) \<le> fuel"
  shows "\<exists>s' T'. RemoveDataNodes fuel E this (join ps) flt quiet s = Ret (B_NO_ERROR, s') \<and> tree_ok s' T' \<and>
    quota s' this d (c - of_nat (card (set (tnodes T) - set (tnodes T')))) mx \<and>
    set (tnodes T') = set (tnodes T) - (\<Union>u\<in>{u. asked_for E s T ms d ps flt u}. set (tnodes u)) \<and>
    (\<forall>m\<in>set (tnodes T'). d_data (nd s' m) = d_data (nd s m)) \<and> (\<forall>m. d_name (nd s' m) = d_name (nd s m))"
proof -
  have al: "\<forall>k. x_alloc E k" using assms(1) by (simp add: steady_def)
  obtain e pm k where pm: "put_path E PathMatcher_new (join ps) flt s = Ret (B_NO_ERROR, pm, s\<lparr>v_allocs := k\<rparr>)"
    "pm_entries pm = [(join ps, e)]" "e_filter e = flt" "entry_for E ps e"
    using put_path_new [OF al assms(2,7,8), of PathMatcher_new flt s] by (auto simp: PathMatcher_new_def)
  obtain s0 where s0: "s0 = s\<lparr>v_allocs := k\<rparr>" by simp
  have t0: "tree_ok s0 T" using tree_ok_nodes [of s0 s T] assms(3) by (simp add: s0)
  obtain us j where us: "distinct us" "\<forall>u. u \<in> set us \<longleftrightarrow> asked_for E s0 T ms d ps flt u"
    "DoTraversal fuel E pm (RemoveDataCallback E) d True (s0, []) = Ret (s0\<lparr>v_allocs := j\<rparr>, map troot us)"
    using removal_walk [OF al t0 assms(5,6) pm(2,4,3) assms(9)] by blast
  have ask: "asked_for E s0 T ms d ps flt u = asked_for E s T ms d ps flt u" for u
    by (simp add: asked_for_def s0 names_below_def)
  obtain s1 where s1: "s1 = s0\<lparr>v_allocs := j\<rparr>" by simp
  have like: "nd s1 = nd s" "steady E s1" "tree_ok s1 T" "quota s1 this d c mx"
    using assms(1,3,4) tree_ok_nodes [of s1 s T] by (simp_all add: s1 s0 fun_eq_iff steady_def quota_def)
  have places: "\<exists>mu. length mu = Suc (length ms + length ps - 1) \<and> occurs [] T mu u" if u: "u \<in> set (rev us)" for u
  proof -
    obtain xs where x: "occurs [] T (xs @ d # ms) u"
      "list_all2 (clause_accepts (x_regcomp E) (x_regexec E)) ps (names_below s0 (length ms) (troot u) (xs @ d # ms))"
      using us(2) u by (auto simp: asked_for_def)
    have "length (xs @ d # ms) - length ms = length ps" using list_all2_lengthD [OF x(2)] length_names_below by metis
    then show ?thesis using x(1) by (intro exI [of _ "xs @ d # ms"]) simp
  qed
  obtain s' T' where s': "remove_found fuel E this quiet (map troot (rev us)) s1 = Ret s'" "tree_ok s' T'"
    "quota s' this d (c - of_nat (card (set (tnodes T) - set (tnodes T')))) mx"
    "set (tnodes T') = set (tnodes T) - (\<Union>u\<in>set (rev us). set (tnodes u))"
    "\<forall>m\<in>set (tnodes T'). d_data (nd s' m) = d_data (nd s1 m)" "\<forall>m. d_name (nd s' m) = d_name (nd s1 m)"
    using remove_found_all [of "rev us" "length ms + length ps - 1" T E s1 this d c mx fuel quiet] us(1) places like(2-4) assms(10)
    by auto
  have dir: "session_dir s0 this = Some d" using assms(4) by (auto simp: quota_def session_dir_def s0)
  have "RemoveDataNodes fuel E this (join ps) flt quiet s = Ret (B_NO_ERROR, s')"
    using pm(1) dir us(3) s'(1) by (simp add: RemoveDataNodes_def DoRemoveData_def s0 [symmetric] s1 [symmetric] rev_map)
  moreover have "set (rev us) = {u. asked_for E s T ms d ps flt u}" using us(2) ask by auto
  ultimately show ?thesis using s' like(1) by (intro exI [of _ s'] exI [of _ T']) simp
qed

end
