(* ===== verification/Session_Props.thy ===== *)
theory Session_Props
  imports Node_Props Node_Erase
begin

text \<open>
  The properties of a session's commands: its subscriptions are counted by the marks of the nodes, the traversal
  visits what the matcher accepts, and what a removal by path removes.
\<close>

section \<open>Subscriptions\<close>

lemma accepting_append:
  assumes "pm_entries pm' = pm_entries pm @ [(p, e)]"
  shows "accepting E s pm' c ms = accepting E s pm c ms + (if entry_accepts E e (names_below s 0 c ms) then 1 else 0)"
  by (simp add: accepting_def assms)

lemma subscribed_mark:
  "subscribed E s T this pm \<Longrightarrow> occurs [] T ms (Tree c us) \<Longrightarrow> ms \<noteq> [] \<Longrightarrow> mark s c this = of_nat (accepting E s pm c ms)"
  unfolding subscribed_def marks_ok_def by blast

lemma length_filter_remove:
  "distinct (map fst xs) \<Longrightarrow> (p, e) \<in> set xs \<Longrightarrow>
    length (filter P xs) = length (filter P (remove_item p xs)) + (if P (p, e) then 1 else 0)"
proof (induction xs)
  case (Cons x xs)
  obtain q d where x: "x = (q, d)" by fastforce
  show ?case
  proof (cases "q = p")
    case True
    then have "(p, e) \<notin> set xs" "d = e" "\<forall>y\<in>set xs. fst y \<noteq> p" using Cons.prems x by force+
    then have "remove_item p (x # xs) = xs" using True x by (simp add: remove_item_def)
    then show ?thesis using True x \<open>d = e\<close> by simp
  next
    case False
    then have "remove_item p (x # xs) = x # remove_item p xs" using x by (simp add: remove_item_def)
    then show ?thesis using Cons False x by simp
  qed
qed simp

lemma Subscribe_new:
  assumes "\<forall>k. x_alloc E k" "ere_documented (x_regcomp E) (x_regexec E)" "tree_ok s T" "subscribed E s T this pm"
    "AdjustStringPrefix path (Some DEFAULT_PATH_PREFIX) = join ps" "ps \<noteq> []" "list_all (compiles E) ps" "length ps < fuel"
    "join ps \<notin> fst ` set (pm_entries pm)"
  shows "\<exists>s' pm' e. Subscribe fuel E this path flt s = Ret s' \<and> pm_entries pm' = pm_entries pm @ [(join ps, e)] \<and> e_filter e = flt \<and> entry_for E ps e \<and>
    tree_ok s' T \<and> subscribed E s' T this pm' \<and> (\<forall>n sid. sid \<noteq> this \<longrightarrow> mark s' n sid = mark s n sid)"
proof -
  obtain x where x: "session_of s this = Some x" "pm = s_subscriptions x" using assms(4) by (auto simp: subscribed_def)
  obtain e0 temp k0 where p0: "put_path E PathMatcher_new (join ps) None s = Ret (B_NO_ERROR, temp, s\<lparr>v_allocs := k0\<rparr>)"
    "pm_entries temp = [(join ps, e0)]" "entry_for E ps e0"
    using put_path_new [OF assms(1,2,6,7), of PathMatcher_new None s] by (auto simp: PathMatcher_new_def)
  obtain e pm' k where p1: "put_path E pm (join ps) flt (s\<lparr>v_allocs := k0\<rparr>) = Ret (B_NO_ERROR, pm', s\<lparr>v_allocs := k\<rparr>)"
    "pm_entries pm' = pm_entries pm @ [(join ps, e)]" "e_filter e = flt" "entry_for E ps e"
    using put_path_new [OF assms(1,2,6,7,9), of flt "s\<lparr>v_allocs := k0\<rparr>"] by auto
  obtain s1 where s1: "s1 = set_session this (\<lambda>x. x\<lparr>s_subscriptions := pm'\<rparr>) (s\<lparr>v_allocs := k\<rparr>)" by simp
  obtain x1 where x1: "x1 = x\<lparr>s_subscriptions := pm'\<rparr>" by simp
  have same: "v_nodes s1 = v_nodes s" "v_fresh s1 = v_fresh s" "v_root s1 = v_root s" "session_of s1 this = Some x1"
    using x by (simp_all add: s1 x1 session_of_set)
  have eq: "entry_accepts E e names = entry_accepts E e0 names" for names using p0(3) p1(4) by (simp add: entry_for_def)
  have count: "of_nat (accepting E s (s_subscriptions x1) c ms) =
      (if entry_accepts E e0 (names_below s 0 c ms) then mark s c this + 1 else mark s c this)"
    if "occurs [] T ms (Tree c us)" "ms \<noteq> []" for ms c us
    using subscribed_mark [OF assms(4) that] accepting_append [OF p1(2), of E s c ms] by (simp add: x1 eq)
  have counts: "\<forall>ms c us. occurs [] T ms (Tree c us) \<longrightarrow> ms \<noteq> [] \<longrightarrow> of_nat (accepting E s (s_subscriptions x1) c ms) =
      (if entry_accepts E e0 (names_below s 0 c ms) then mark s c this + 1 else mark s c this)"
    using count by blast
  obtain s' where s': "DoTraversal fuel E temp (DoSubscribeRefCallback E this 1) (v_root s1) False (s1, ()) = Ret (s', ())"
    "tree_ok s' T" "map_option s_subscriptions (session_of s' this) = Some pm'" "marks_ok E s' T this pm'"
    "\<forall>n sid. sid \<noteq> this \<longrightarrow> mark s' n sid = mark s n sid"
    using walk_subscribed [where f = "\<lambda>r. r + 1", OF assms(1,3) x(1) same p0(2,3) assms(8) mark_up [OF assms(1)] counts] by (auto simp: x1)
  have "map_of (pm_entries pm) (join ps) = None" using assms(9) by (simp add: map_of_eq_None_iff)
  then have "Subscribe fuel E this path flt s = Ret s'"
    using x p0(1) p1(1) s'(1) by (simp add: Subscribe_def assms(5) s1)
  moreover have "subscribed E s' T this pm'"
    using assms(4,6,7,9) s'(3,4) p1(2,4) by (auto simp: subscribed_def)
  ultimately show ?thesis using p1(2-4) s'(2,5) by blast
qed

text \<open>
  C31: Subscribing to a path whose clauses the regular-expression library takes, and that the session has not subscribed
  to, ends; afterwards the path is the last of the session's subscriptions, with its filter and an entry for its clauses, and each node of the
  tree below the root is again marked for the session as many times as subscriptions match the names on the
  way to it. The tree and the marks of other sessions are as before.
\<close>

theorem Subscribe_marks:
  assumes "\<forall>k. x_alloc E k" "ere_documented (x_regcomp E) (x_regexec E)" "tree_ok s T" "subscribed E s T this pm"
    "AdjustStringPrefix path (Some DEFAULT_PATH_PREFIX) = join ps" "ps \<noteq> []" "list_all (compiles E) ps" "length ps < fuel"
    "join ps \<notin> fst ` set (pm_entries pm)"
  shows "\<exists>s' pm' e. Subscribe fuel E this path flt s = Ret s' \<and> pm_entries pm' = pm_entries pm @ [(join ps, e)] \<and> e_filter e = flt \<and> entry_for E ps e \<and>
    tree_ok s' T \<and> subscribed E s' T this pm' \<and> (\<forall>n sid. sid \<noteq> this \<longrightarrow> mark s' n sid = mark s n sid)"
  using Subscribe_new [OF assms] by blast

lemma ex_subscribed: "subscribed ex_world ex_server ex_shape ''s'' PathMatcher_new"
proof -
  have "mark ex_server n sid = 0" for n sid
    by (simp add: mark_def nd_def ex_server_def ex_nodes_def ex_node_def DataNode_new_def)
  then show ?thesis
    by (simp add: subscribed_def marks_ok_def accepting_def PathMatcher_new_def session_of_def ex_server_def ex_session_def)
qed

text \<open>The clauses of the example's subscription.\<close>

lemma ex_clauses: "AdjustStringPrefix ''/*/*'' (Some DEFAULT_PATH_PREFIX) = join [''*'', ''*'']" "list_all (compiles ex_world) [''*'', ''*'']"
  "\<forall>k. x_alloc ex_world k" "ere_documented (x_regcomp ex_world) (x_regexec ex_world)"
  by (simp_all add: AdjustStringPrefix_def compiles_def clause_ok_def ex_world_def ex_library)

lemma ex_accepting:
  assumes a: "pm_entries pm = [(p, e)]" "entry_for ex_world [''*'', ''*''] e"
  shows "accepting ex_world s pm c ms = (if length ms = 2 then 1 else 0)"
proof -
  have "list_all2 (clause_accepts (x_regcomp ex_world) (x_regexec ex_world)) [''*'', ''*''] names \<longleftrightarrow> length names = 2" for names
    by (auto simp: list_all2_conv_all_nth clause_accepts_def nth_Cons split: nat.split)
  moreover have "length (names_below s 0 c ms) = length ms"
    unfolding names_below_def by (simp only: length_drop length_map length_rev list.size)
  ultimately show ?thesis using a by (simp add: accepting_def entry_for_def)
qed

lemma Subscribe_marks_witness:
  "\<exists>s'. Subscribe 3 ex_world ''s'' ''/*/*'' (Some 1) ex_server = Ret s' \<and> mark s' 2 ''s'' = 1 \<and> mark s' 3 ''s'' = 0"
proof -
  obtain s' pm' e where s': "Subscribe 3 ex_world ''s'' ''/*/*'' (Some 1) ex_server = Ret s'"
    "pm_entries pm' = [(join [''*'', ''*''], e)]" "entry_for ex_world [''*'', ''*''] e" "subscribed ex_world s' ex_shape ''s'' pm'"
    using Subscribe_marks [OF ex_clauses(3,4) ex_shape_ok ex_subscribed ex_clauses(1) _ ex_clauses(2), of 3 "Some 1"]
    by (auto simp: PathMatcher_new_def)
  then show ?thesis
    using subscribed_mark [OF s'(4) ex_occurs(1)] subscribed_mark [OF s'(4) ex_occurs(2)] by (simp add: ex_accepting)
qed

text \<open>
  C32: Unsubscribing from a path that the session has subscribed to takes that subscription away, and
  each node below the root is again marked for the session as many times as its other
  subscriptions match the node. The tree and the marks of other sessions are as before.
\<close>

theorem Unsubscribe_marks:
  assumes "\<forall>k. x_alloc E k" "ere_documented (x_regcomp E) (x_regexec E)" "tree_ok s T" "subscribed E s T this pm"
    "str = AdjustStringPrefix path (Some DEFAULT_PATH_PREFIX)" "str \<in> fst ` set (pm_entries pm)"
    "\<forall>(p, e)\<in>set (pm_entries pm). length (e_parser e) < fuel" "length (pm_entries pm) < 2 ^ 32"
  shows "\<exists>s' pm'. Unsubscribe fuel E this path s = Ret s' \<and> pm_entries pm' = remove_item str (pm_entries pm) \<and>
    tree_ok s' T \<and> subscribed E s' T this pm' \<and> (\<forall>n sid. sid \<noteq> this \<longrightarrow> mark s' n sid = mark s n sid)"
proof -
  obtain x where x: "session_of s this = Some x" "pm = s_subscriptions x" using assms(4) by (auto simp: subscribed_def)
  have dist: "distinct (map fst (pm_entries pm))" using assms(4) by (simp add: subscribed_def)
  obtain e where e: "(str, e) \<in> set (pm_entries pm)" using assms(6) by auto
  obtain ps where ps: "str = join ps" "ps \<noteq> []" "list_all (compiles E) ps" "entry_for E ps e"
    using assms(4) e unfolding subscribed_def by fastforce
  have len: "length ps < fuel" using assms(7) e ps(4) by (auto simp: entry_for_def)
  obtain pm' where pm': "RemovePathString pm str = (B_NO_ERROR, pm')" "pm_entries pm' = remove_item str (pm_entries pm)"
    using map_of_is_SomeI [OF dist e] by (simp add: RemovePathString_def)
  obtain s0 where s0: "s0 = set_session this (\<lambda>x. x\<lparr>s_subscriptions := pm'\<rparr>) s" by simp
  obtain e0 temp k where p0: "put_path E PathMatcher_new str None s0 = Ret (B_NO_ERROR, temp, s0\<lparr>v_allocs := k\<rparr>)"
    "pm_entries temp = [(str, e0)]" "entry_for E ps e0"
    using put_path_new [OF assms(1,2) ps(2,3), of PathMatcher_new None s0] ps(1) by (auto simp: PathMatcher_new_def)
  obtain s1 where s1: "s1 = s0\<lparr>v_allocs := k\<rparr>" by simp
  obtain x1 where x1: "x1 = x\<lparr>s_subscriptions := pm'\<rparr>" by simp
  have same: "v_nodes s1 = v_nodes s" "v_fresh s1 = v_fresh s" "v_root s1 = v_root s" "session_of s1 this = Some x1"
    using x by (simp_all add: s1 s0 x1 session_of_set)
  have eq: "entry_accepts E e names = entry_accepts E e0 names" for names using p0(3) ps(4) by (simp add: entry_for_def)
  have count: "of_nat (accepting E s (s_subscriptions x1) c ms) =
      (if entry_accepts E e0 (names_below s 0 c ms) then if mark s c this = 0 then 0 else mark s c this - 1 else mark s c this)"
    if "occurs [] T ms (Tree c us)" "ms \<noteq> []" for ms c us
  proof -
    note m = subscribed_mark [OF assms(4) that]
    have "accepting E s pm c ms = accepting E s pm' c ms + (if entry_accepts E e (names_below s 0 c ms) then 1 else 0)"
      using length_filter_remove [OF dist e, of "\<lambda>(p, e). entry_accepts E e (names_below s 0 c ms)"] by (simp add: accepting_def pm'(2))
    moreover have "accepting E s pm c ms < 2 ^ 32"
      unfolding accepting_def using assms(8) length_filter_le le_less_trans by blast
    then have "mark s c this = 0 \<longleftrightarrow> accepting E s pm c ms = 0" unfolding m
      by (cases "accepting E s pm c ms = 0") (auto simp: word_of_nat_eq_0_iff dest: nat_dvd_not_less)
    ultimately show ?thesis unfolding x1 eq using m by auto
  qed
  have counts: "\<forall>ms c us. occurs [] T ms (Tree c us) \<longrightarrow> ms \<noteq> [] \<longrightarrow> of_nat (accepting E s (s_subscriptions x1) c ms) =
      (if entry_accepts E e0 (names_below s 0 c ms) then if mark s c this = 0 then 0 else mark s c this - 1 else mark s c this)"
    using count by blast
  obtain s' where s': "DoTraversal fuel E temp (DoSubscribeRefCallback E this (- 1)) (v_root s1) False (s1, ()) = Ret (s', ())"
    "tree_ok s' T" "map_option s_subscriptions (session_of s' this) = Some pm'" "marks_ok E s' T this pm'"
    "\<forall>n sid. sid \<noteq> this \<longrightarrow> mark s' n sid = mark s n sid"
    using walk_subscribed [where f = "\<lambda>r. if r = 0 then 0 else r - 1", OF assms(1,3) x(1) same p0(2,3) len
      mark_down [OF assms(1)] counts] by (auto simp: x1)
  have "Unsubscribe fuel E this path s = Ret s'"
    using x pm'(1) p0(1) s'(1) by (simp add: Unsubscribe_def assms(5) [symmetric] s1 s0)
  moreover have "subscribed E s' T this pm'"
  proof -
    have "set (pm_entries pm') \<subseteq> set (pm_entries pm)" "distinct (map fst (pm_entries pm'))"
      using dist by (auto simp: pm'(2) remove_item_def distinct_map_filter)
    then show ?thesis using assms(4) s'(3,4) unfolding subscribed_def by blast
  qed
  ultimately show ?thesis using pm'(2) s'(2,5) by blast
qed

lemma Unsubscribe_marks_witness:
  "\<exists>s s'. Subscribe 3 ex_world ''s'' ''/*/*'' None ex_server = Ret s \<and> mark s 2 ''s'' = 1 \<and>
    Unsubscribe 3 ex_world ''s'' ''/*/*'' s = Ret s' \<and> mark s' 2 ''s'' = 0"
proof -
  obtain s pm e where s: "Subscribe 3 ex_world ''s'' ''/*/*'' None ex_server = Ret s" "tree_ok s ex_shape"
    "pm_entries pm = [(join [''*'', ''*''], e)]" "entry_for ex_world [''*'', ''*''] e" "subscribed ex_world s ex_shape ''s'' pm"
    using Subscribe_new [OF ex_clauses(3,4) ex_shape_ok ex_subscribed ex_clauses(1) _ ex_clauses(2), of 3 None]
    by (auto simp: PathMatcher_new_def)
  obtain s' pm' where s': "Unsubscribe 3 ex_world ''s'' ''/*/*'' s = Ret s'" "pm_entries pm' = []"
    "subscribed ex_world s' ex_shape ''s'' pm'"
    using Unsubscribe_marks [OF ex_clauses(3,4) s(2,5) ex_clauses(1) [symmetric], of 3] s(3,4)
    by (auto simp: entry_for_def remove_item_def)
  have "mark s 2 ''s'' = 1" using subscribed_mark [OF s(5) ex_occurs(1)] s(3,4) by (simp add: ex_accepting)
  moreover have "mark s' 2 ''s'' = 0" using subscribed_mark [OF s'(3) ex_occurs(1)] s'(2) by (simp add: accepting_def)
  ultimately show ?thesis using s(1) s'(1) by blast
qed

section \<open>The traversal\<close>

lemma MatchesNode_root:
  assumes "tree_ok s T" "occurs [] T ms (Tree c us)"
  shows "MatchesNode E s pm c d 0 =
    Ret (\<exists>(p, e)\<in>set (pm_entries pm). entry_accepts E e (names_below s 0 c ms) \<and> FilterMatches (x_fmatch E) e d)"
proof -
  have "placed s c ms" using tree_ok_seated [OF assms] by (simp add: seated_def)
  then show ?thesis unfolding MatchesNode_def by (rule some_entry_matches_exact [OF PathMatches_root])
qed

lemma FilterMatches_used:
  "FilterMatches fmatch e (if useFilters then d else None) \<longleftrightarrow> (useFilters \<longrightarrow> FilterMatches fmatch e d)"
  by (simp add: FilterMatches_def split: option.split)

text \<open>
  C33: A traversal from the root with any number of paths calls back for exactly the nodes below the root that
  \<open>MatchesNode\<close>, which looks at every path and every clause, accepts, and for each of them once, although it looks
  children up by name where it can and gives up where no path goes on.
\<close>

theorem DoTraversal_matches:
  fixes u :: 'u
  assumes "\<forall>k. x_alloc E k" "tree_ok s T" "unique_sound E pm" "0 < fuel" "\<forall>(p, e)\<in>set (pm_entries pm). length (e_parser e) < fuel"
  shows "\<exists>ns. distinct ns \<and> set ns = {c. \<exists>ms us. occurs [] T ms (Tree c us) \<and> ms \<noteq> [] \<and>
      MatchesNode E s pm c (if useFilters then d_data (nd s c) else None) 0 = Ret True} \<and>
    DoTraversal fuel E pm (DoSubscribeRefCallback E this delta) (v_root s) useFilters (s, u) =
      calls (DoSubscribeRefCallback E this delta) ns (s, u)"
proof -
  obtain n ts where T: "T = Tree n ts" by (cases T)
  have root: "v_root s = n" using assms(2) T by (simp add: tree_ok_def)
  have o: "occurs [] T [] (Tree n ts)" using T occurs.here [of "[]" T] by simp
  have "\<exists>ns. distinct ns \<and> (\<forall>c. c \<in> set ns \<longleftrightarrow> (\<exists>xs us. occurs [] T (xs @ [n]) (Tree c us) \<and> (\<exists>(p, e)\<in>set (pm_entries pm).
      entry_accepts E e (names_below s (length ([] :: nref list)) c (xs @ [n])) \<and> (useFilters \<longrightarrow> FilterMatches (x_fmatch E) e (d_data (nd s c)))))) \<and>
    (\<forall>u :: 'u. \<exists>s' u'. calls (DoSubscribeRefCallback E this delta) ns (s, u) = Ret (s', u') \<and> same_tree s s' \<and>
      DoTraversal fuel E pm (DoSubscribeRefCallback E this delta) n useFilters (s, u) = Ret (s', u'))"
    by (rule subscribing.DoTraversal_visits [OF assms(1,2) o _ assms(3-5)]) simp
  then obtain ns where ns: "distinct ns"
    "\<And>c. c \<in> set ns \<longleftrightarrow> (\<exists>xs us. occurs [] T (xs @ [n]) (Tree c us) \<and> (\<exists>(p, e)\<in>set (pm_entries pm).
      entry_accepts E e (names_below s 0 c (xs @ [n])) \<and> (useFilters \<longrightarrow> FilterMatches (x_fmatch E) e (d_data (nd s c)))))"
    "\<forall>u :: 'u. \<exists>s' u'. calls (DoSubscribeRefCallback E this delta) ns (s, u) = Ret (s', u') \<and> same_tree s s' \<and>
      DoTraversal fuel E pm (DoSubscribeRefCallback E this delta) n useFilters (s, u) = Ret (s', u')"
    by (elim exE conjE) simp
  have M: "MatchesNode E s pm c (if useFilters then d_data (nd s c) else None) 0 = Ret True \<longleftrightarrow> (\<exists>(p, e)\<in>set (pm_entries pm).
      entry_accepts E e (names_below s 0 c ms) \<and> (useFilters \<longrightarrow> FilterMatches (x_fmatch E) e (d_data (nd s c))))"
    if "occurs [] T ms (Tree c us)" for c ms us
    unfolding MatchesNode_root [OF assms(2) that] FilterMatches_used by simp
  have "c \<in> set ns \<longleftrightarrow> (\<exists>ms us. occurs [] T ms (Tree c us) \<and> ms \<noteq> [] \<and>
      MatchesNode E s pm c (if useFilters then d_data (nd s c) else None) 0 = Ret True)" for c
  proof -
    have "(\<exists>xs us. occurs [] T (xs @ [n]) (Tree c us) \<and> (\<exists>(p, e)\<in>set (pm_entries pm).
        entry_accepts E e (names_below s 0 c (xs @ [n])) \<and> (useFilters \<longrightarrow> FilterMatches (x_fmatch E) e (d_data (nd s c))))) \<longleftrightarrow>
      (\<exists>ms us. occurs [] T ms (Tree c us) \<and> ms \<noteq> [] \<and>
        MatchesNode E s pm c (if useFilters then d_data (nd s c) else None) 0 = Ret True)" (is "?L = ?R")
    proof
      assume ?L
      then obtain xs us where r: "occurs [] T (xs @ [n]) (Tree c us)" "\<exists>(p, e)\<in>set (pm_entries pm).
        entry_accepts E e (names_below s 0 c (xs @ [n])) \<and> (useFilters \<longrightarrow> FilterMatches (x_fmatch E) e (d_data (nd s c)))" by blast
      then show ?R using M [OF r(1)] by blast
    next
      assume ?R
      then obtain ms us where r: "occurs [] T ms (Tree c us)" "ms \<noteq> []"
        "MatchesNode E s pm c (if useFilters then d_data (nd s c) else None) 0 = Ret True" by blast
      obtain xs where "ms = xs @ [n]" using occurs_root [OF r(1,2)] T by auto
      then show ?L using r(1,3) M [OF r(1)] by blast
    qed
    then show ?thesis unfolding ns(2) .
  qed
  then have "set ns = {c. \<exists>ms us. occurs [] T ms (Tree c us) \<and> ms \<noteq> [] \<and>
      MatchesNode E s pm c (if useFilters then d_data (nd s c) else None) 0 = Ret True}" by blast
  moreover have "DoTraversal fuel E pm (DoSubscribeRefCallback E this delta) n useFilters (s, u) =
      calls (DoSubscribeRefCallback E this delta) ns (s, u)" using ns(3) [rule_format, of u] by auto
  ultimately show ?thesis using ns(1) unfolding root by blast
qed

lemma DoTraversal_matches_witness:
  "\<exists>ns. set ns = {2} \<and> distinct ns \<and> DoTraversal 3 ex_world \<lparr>pm_entries = [(''*/*'', \<lparr>e_parser = [None, None], e_filter = None\<rparr>)], pm_numFilters = 0\<rparr>
    (DoSubscribeRefCallback ex_world ''s'' 1) 0 True (ex_server, ()) = calls (DoSubscribeRefCallback ex_world ''s'' 1) ns (ex_server, ())"
proof -
  obtain e :: "(branch list, nat) path_entry" where e: "e = \<lparr>e_parser = [None, None], e_filter = None\<rparr>" by simp
  obtain pm where pm: "pm = \<lparr>pm_entries = [(''*/*'', e)], pm_numFilters = 0\<rparr>" by simp
  have us: "unique_sound ex_world pm" by (simp add: unique_sound_def pm e)
  obtain ns where ns: "distinct ns" "set ns = {c. \<exists>ms us. occurs [] ex_shape ms (Tree c us) \<and> ms \<noteq> [] \<and>
      MatchesNode ex_world ex_server pm c (if True then d_data (nd ex_server c) else None) 0 = Ret True}"
    "DoTraversal 3 ex_world pm (DoSubscribeRefCallback ex_world ''s'' 1) (v_root ex_server) True (ex_server, ()) =
      calls (DoSubscribeRefCallback ex_world ''s'' 1) ns (ex_server, ())"
    using DoTraversal_matches [OF ex_clauses(3) ex_shape_ok us, of 3 True "''s''" 1 "()"] by (auto simp: pm e)
  have M: "MatchesNode ex_world ex_server pm c d 0 = Ret True \<longleftrightarrow> length ms = 2" if "occurs [] ex_shape ms (Tree c us)" for c ms us d
  proof -
    have "entry_accepts ex_world e names \<longleftrightarrow> length names = 2" for names
      by (auto simp: entry_accepts_def e clause_matches_def list_all2_conv_all_nth nth_Cons split: nat.split)
    then show ?thesis unfolding MatchesNode_root [OF ex_shape_ok that] by (simp add: pm length_names_below) (simp add: e FilterMatches_def)
  qed
  have "set ns = {2}"
  proof -
    have "c = 2" if c: "occurs [] ex_shape ms (Tree c us)" "length ms = 2" for c ms us
      using c unfolding ex_shape_def by (auto simp: length_Suc_conv numeral_2_eq_2 elim!: occurs.cases)
    moreover have "2 \<in> set ns" unfolding ns(2) using M [OF ex_occurs(1)] ex_occurs(1) by fastforce
    ultimately show ?thesis using M unfolding ns(2) by blast
  qed
  then show ?thesis using ns(1,3) unfolding pm e by (intro exI [of _ ns]) (simp add: ex_server_def)
qed

text \<open>
  C35: Patterns do conspire in a traversal that starts at a session's node: the check against it skips as many
  clauses as that node is deep. With two or more patterns of two clauses and no filters, a removal collects
  every node two levels below whose name matches the last clause of some pattern and whose parent's name matches the
  first clause of some, perhaps another, pattern.
\<close>

theorem conspiring_patterns:
  assumes "\<forall>k. x_alloc E k" "tree_ok s T" "occurs [] T ms (Tree d ts)" "length ms = 2" "unique_sound E pm" "2 < fuel"
    "2 \<le> length (pm_entries pm)" "\<forall>(p, e)\<in>set (pm_entries pm). length (e_parser e) = 2 \<and> e_filter e = None"
  shows "\<exists>removeSet j. DoTraversal fuel E pm (RemoveDataCallback E) d True (s, []) = Ret (s\<lparr>v_allocs := j\<rparr>, removeSet) \<and> distinct removeSet \<and>
    (\<forall>c. c \<in> set removeSet \<longleftrightarrow> (\<exists>m us. occurs [] T (m # d # ms) (Tree c us) \<and>
      (\<exists>(p, e)\<in>set (pm_entries pm). clause_matches (x_regexec E) (e_parser e ! 0) (d_name (nd s m))) \<and>
      (\<exists>(p, e)\<in>set (pm_entries pm). clause_matches (x_regexec E) (e_parser e ! 1) (d_name (nd s c)))))"
proof -
  have dep: "depth_of s d = 2"
    using tree_ok_seated [OF assms(2,3)] sint_depth [of ms] assms(4) by (simp add: seated_def placed_def depth_of_def)
  have dT: "distinct (tnodes T)" using assms(2) by (simp add: tree_ok_def seated_def)
  obtain ns where ns: "distinct ns" "set ns = targets (\<lambda>k c. last_clause E s (pm_entries pm) k c \<and> node_ok E pm True (int 2) s c)
      (inner_clause E s (pm_entries pm)) 0 (Tree d ts)"
    "walks (RemoveDataCallback E) s ns (DoTraversalAux fuel E pm True (int 2) (RemoveDataCallback E) d) (depth_of s d)"
    using removing.traversal_walks [OF assms(1-3), of 2 0 fuel pm True] assms(4-6,8) by fastforce
  have last: "last_clause E s (pm_entries pm) k c \<longleftrightarrow> k = 1 \<and>
      (\<exists>(p, e)\<in>set (pm_entries pm). clause_matches (x_regexec E) (e_parser e ! 1) (d_name (nd s c)))" for k c
  proof -
    have "last_clause E s (pm_entries pm) k c \<longleftrightarrow>
        (\<exists>(p, e)\<in>set (pm_entries pm). k = 1 \<and> clause_matches (x_regexec E) (e_parser e ! 1) (d_name (nd s c)))"
      unfolding last_clause_def by (rule bex_cong [OF refl]) (use assms(8) in auto)
    then show ?thesis by (cases "k = 1") (simp_all add: case_prod_beta)
  qed
  have inner: "inner_clause E s (pm_entries pm) 0 m \<longleftrightarrow>
      (\<exists>(p, e)\<in>set (pm_entries pm). clause_matches (x_regexec E) (e_parser e ! 0) (d_name (nd s m)))" for m
    unfolding inner_clause_def by (rule bex_cong [OF refl]) (use assms(8) in auto)
  have ok: "node_ok E pm True (int 2) s c" if c: "occurs [] T (m # d # ms) (Tree c us)" for m c us
  proof -
    obtain p e where e: "(p, e) \<in> set (pm_entries pm)" using assms(7) by (cases "pm_entries pm") auto
    have pl: "placed s c ([m] @ d # ms)" using tree_ok_seated [OF assms(2) c] by (simp add: seated_def)
    have "length (names_below s 2 c ([m] @ d # ms)) = 2" using assms(4) by (simp add: length_names_below)
    then have "MatchesNode E s pm c (d_data (nd s c)) (int 2) = Ret True"
      unfolding MatchesNode_at [OF pl assms(4)] using e assms(8) by (auto simp: FilterMatches_def intro!: bexI [of _ "(p, e)"])
    then show ?thesis by (simp add: node_ok_def)
  qed
  have below: "occurs ms (Tree d ts) (xs @ d # ms) u \<longleftrightarrow> occurs [] T (xs @ d # ms) u" for xs u
    using occurs_inside [OF dT assms(3)] occurs_trans [OF _ assms(3)] by blast
  have mem: "c \<in> set ns \<longleftrightarrow> (\<exists>m us. occurs [] T (m # d # ms) (Tree c us) \<and>
      (\<exists>(p, e)\<in>set (pm_entries pm). clause_matches (x_regexec E) (e_parser e ! 0) (d_name (nd s m))) \<and>
      (\<exists>(p, e)\<in>set (pm_entries pm). clause_matches (x_regexec E) (e_parser e ! 1) (d_name (nd s c))))" (is "_ = ?R") for c
  proof
    assume "c \<in> set ns"
    then obtain xs us where x: "occurs [] T (xs @ d # ms) (Tree c us)" "last_clause E s (pm_entries pm) (length xs) c"
      "\<forall>i<length xs. inner_clause E s (pm_entries pm) i (rev xs ! i)"
      unfolding ns(2) targets_occurs [of c _ _ 0 "Tree d ts" ms] by (auto simp: below)
    then obtain m where "xs = [m]" unfolding last by (auto simp: length_Suc_conv)
    then show ?R using x last inner by auto
  next
    assume ?R
    then obtain m us where m: "occurs [] T ([m] @ d # ms) (Tree c us)" "inner_clause E s (pm_entries pm) 0 m"
      "last_clause E s (pm_entries pm) 1 c" unfolding last inner by auto
    show "c \<in> set ns"
      unfolding ns(2) targets_occurs [of c _ _ 0 "Tree d ts" ms]
      by (rule exI [of _ "[m]"], rule exI [of _ us]) (use m ok [of m c us] below [of "[m]"] in auto)
  qed
  have deep: "c \<in> set (tnodes T) \<and> depth_of s c > 2" if c: "c \<in> set ns" for c
  proof -
    obtain m us where o: "occurs [] T (m # d # ms) (Tree c us)" using mem c by blast
    have "placed s c (m # d # ms)" using tree_ok_seated [OF assms(2) o] by (simp add: seated_def)
    then have "depth_of s c = int (length (m # d # ms))" using sint_depth [of "m # d # ms"] by (simp add: placed_def depth_of_def)
    moreover have "c \<in> set (tnodes T)" using occurs_nodes [OF o] by (simp add: tnodes.simps)
    ultimately show ?thesis using assms(4) by simp
  qed
  have s: "s\<lparr>v_allocs := v_allocs s\<rparr> = s" by simp
  obtain j where j: "calls (RemoveDataCallback E) ns (s, []) = Ret (s\<lparr>v_allocs := j\<rparr>, ns)"
    using calls_removing [OF assms(1,2), of ns "v_allocs s" "[]"] deep unfolding s by auto
  have "DoTraversalAux fuel E pm True 2 (RemoveDataCallback E) d (s, []) = Ret (2, s\<lparr>v_allocs := j\<rparr>, ns)"
    using ns(3) [unfolded walks_def dep, rule_format, OF same_tree_refl, of "[]"] j by auto
  then have "DoTraversal fuel E pm (RemoveDataCallback E) d True (s, []) = Ret (s\<lparr>v_allocs := j\<rparr>, ns)"
    by (simp add: DoTraversal_def dep)
  then show ?thesis using ns(1) mem by blast
qed

text \<open>The patterns y and z as the library takes them.\<close>

lemma ex_letter:
  assumes "c \<in> {CHR ''y'', CHR ''z''}"
  obtains m where "SetPattern ex_regcomp StringMatcher_new [c] True = Ret (B_NO_ERROR, m)" "m_pattern m = [c]"
    "\<And>str. Match matches_some m str = Ret (str = [c])"
proof -
  obtain st m where m: "SetPattern ex_regcomp StringMatcher_new [c] True = Ret (st, m)" "IsPatternUnique m"
    using assms by (auto simp: SetPattern_def parse_range_def HasRegexTokens_def IsRegexToken_def IsPatternUnique_def
        StringMatcher_new_def Let_def)
  have "st = B_NO_ERROR" "m_pattern m = [c]" "\<And>str. Match matches_some m str = Ret (str = [c])"
    using unique_matches [OF ex_library _ m] by auto
  then show thesis using that m by simp
qed

text \<open>The path \<open>I0/x\<close> matches neither \<open>*/y\<close> nor \<open>z/*\<close>, but its node is collected for removal.\<close>

lemma conspiring_patterns_witness:
  "\<exists>y z j. SetPattern ex_regcomp StringMatcher_new ''y'' True = Ret (B_NO_ERROR, y) \<and>
    SetPattern ex_regcomp StringMatcher_new ''z'' True = Ret (B_NO_ERROR, z) \<and>
    Match matches_some y ''x'' = Ret False \<and> Match matches_some z ''I0'' = Ret False \<and>
    DoTraversal 3 ex_world \<lparr>pm_entries = [(''*/y'', \<lparr>e_parser = [None, Some y], e_filter = None\<rparr>),
        (''z/*'', \<lparr>e_parser = [Some z, None], e_filter = None\<rparr>)], pm_numFilters = 0\<rparr>
      (RemoveDataCallback ex_world) 2 True (ex_server, []) = Ret (ex_server\<lparr>v_allocs := j\<rparr>, [4])"
proof -
  obtain y where y: "SetPattern ex_regcomp StringMatcher_new ''y'' True = Ret (B_NO_ERROR, y)" "m_pattern y = ''y''"
    "\<And>str. Match matches_some y str = Ret (str = ''y'')" using ex_letter [of "CHR ''y''"] by auto
  obtain z where z: "SetPattern ex_regcomp StringMatcher_new ''z'' True = Ret (B_NO_ERROR, z)" "m_pattern z = ''z''"
    "\<And>str. Match matches_some z str = Ret (str = ''z'')" using ex_letter [of "CHR ''z''"] by auto
  obtain pm :: "(branch list, nat) path_matcher" where pm: "pm = \<lparr>pm_entries = [(''*/y'', \<lparr>e_parser = [None, Some y], e_filter = None\<rparr>),
      (''z/*'', \<lparr>e_parser = [Some z, None], e_filter = None\<rparr>)], pm_numFilters = 0\<rparr>" by simp
  have rx: "x_regexec ex_world = matches_some" by (simp add: ex_world_def)
  have us: "unique_sound ex_world pm" using y z by (simp add: unique_sound_def pm rx)
  obtain rs j where r: "DoTraversal 3 ex_world pm (RemoveDataCallback ex_world) 2 True (ex_server, []) = Ret (ex_server\<lparr>v_allocs := j\<rparr>, rs)"
    "distinct rs" "\<And>c. c \<in> set rs \<longleftrightarrow> (\<exists>m us. occurs [] ex_shape (m # 2 # [1, 0]) (Tree c us) \<and>
      (\<exists>(p, e)\<in>set (pm_entries pm). clause_matches (x_regexec ex_world) (e_parser e ! 0) (d_name (nd ex_server m))) \<and>
      (\<exists>(p, e)\<in>set (pm_entries pm). clause_matches (x_regexec ex_world) (e_parser e ! 1) (d_name (nd ex_server c))))"
    using conspiring_patterns [OF ex_clauses(3) ex_shape_ok ex_occurs(1) _ us, of 3] by (auto simp: pm)
  have o: "occurs [] ex_shape (m # 2 # [1, 0]) (Tree c us) \<longleftrightarrow> m = 3 \<and> c = 4 \<and> us = []" for m c us
  proof
    assume "occurs [] ex_shape (m # 2 # [1, 0]) (Tree c us)"
    then show "m = 3 \<and> c = 4 \<and> us = []" unfolding ex_shape_def by (auto elim!: occurs.cases)
  next
    assume "m = 3 \<and> c = 4 \<and> us = []"
    then show "occurs [] ex_shape (m # 2 # [1, 0]) (Tree c us)" using occurs.down [OF ex_occurs(2)] by simp
  qed
  have "set rs = {4}" using r(3) unfolding o by (auto simp: pm clause_matches_def)
  then have "rs = [4]" using r(2) by (cases rs; cases "tl rs") auto
  then show ?thesis using r(1) y z unfolding pm by auto
qed

section \<open>Removal by path\<close>

text \<open>
  C34: Removing the nodes below the session's node that a path with wildcards and perhaps a filter asks for ends and
  succeeds: each such node goes with everything below it, and nothing else; the tree stays well-formed, every node
  that stays keeps its payload and its name, and the session's count of nodes falls by the number of nodes that went.
\<close>

theorem RemoveDataNodes_gone:
  assumes "steady E s" "ere_documented (x_regcomp E) (x_regexec E)" "tree_ok s T" "quota s this d c mx"
    "occurs [] T ms (Tree d ts)" "2 \<le> length ms" "ps \<noteq> []" "list_all (compiles E) ps" "length ps < fuel" "2 * length (tnodes T) \<le> fuel"
  shows "\<exists>s' T'. RemoveDataNodes fuel E this (join ps) flt quiet s = Ret (B_NO_ERROR, s') \<and> tree_ok s' T' \<and>
    quota s' this d (c - of_nat (card (set (tnodes T) - set (tnodes T')))) mx \<and>
    set (tnodes T') = set (tnodes T) - (\<Union>u\<in>{u. asked_for E s T ms d ps flt u}. set (tnodes u)) \<and>
    (\<forall>m\<in>set (tnodes T'). d_data (nd s' m) = d_data (nd s m)) \<and> (\<forall>m. d_name (nd s' m) = d_name (nd s m))"
  by (rule RemoveDataNodes_tree [OF assms])

lemma RemoveDataNodes_gone_witness:
  "\<exists>s' T'. RemoveDataNodes 10 ex_world ''s'' ''*'' None False ex_server = Ret (B_NO_ERROR, s') \<and> tree_ok s' T' \<and>
    set (tnodes T') = {0, 1, 2} \<and> quota s' ''s'' 2 0 100"
proof -
  have q: "quota ex_server ''s'' 2 2 100" by (simp add: quota_def session_of_def ex_server_def ex_session_def)
  have c: "list_all (compiles ex_world) [''*'']" using ex_clauses(2) by simp
  have asked: "asked_for ex_world ex_server ex_shape [1, 0] 2 [''*''] None u \<longleftrightarrow> u = Tree 3 [Tree 4 []]" for u
  proof
    assume "asked_for ex_world ex_server ex_shape [1, 0] 2 [''*''] None u"
    then obtain xs where x: "occurs [] ex_shape (xs @ [2, 1, 0]) u" "length (names_below ex_server 2 (troot u) (xs @ [2, 1, 0])) = 1"
      unfolding asked_for_def by (auto dest!: list_all2_lengthD simp: numeral_2_eq_2)
    then have "occurs [] ex_shape [2, 1, 0] u" by (simp add: length_names_below)
    then show "u = Tree 3 [Tree 4 []]" unfolding ex_shape_def by (auto elim!: occurs.cases)
  next
    assume u: "u = Tree 3 [Tree 4 []]"
    have "length (names_below ex_server (length [1, 0 :: nref]) (troot u) ([] @ 2 # [1, 0])) = 1" by (simp add: length_names_below)
    then obtain y where y: "names_below ex_server (length [1, 0 :: nref]) (troot u) ([] @ 2 # [1, 0]) = [y]"
      by (auto simp only: length_Suc_conv One_nat_def length_0_conv)
    show "asked_for ex_world ex_server ex_shape [1, 0] 2 [''*''] None u"
      unfolding asked_for_def
      by (rule exI [of _ "[]"], unfold y) (use ex_occurs(2) u in \<open>simp add: clause_accepts_def filter_passes_def\<close>)
  qed
  obtain s' T' where s': "RemoveDataNodes 10 ex_world ''s'' (join [''*'']) None False ex_server = Ret (B_NO_ERROR, s')" "tree_ok s' T'"
    "quota s' ''s'' 2 (2 - of_nat (card (set (tnodes ex_shape) - set (tnodes T')))) 100"
    "set (tnodes T') = set (tnodes ex_shape) - (\<Union>u\<in>{u. asked_for ex_world ex_server ex_shape [1, 0] 2 [''*''] None u}. set (tnodes u))"
    using RemoveDataNodes_gone [OF ex_steady ex_clauses(4) ex_shape_ok q ex_occurs(1) _ _ c, of 10 None False]
    by (auto simp: ex_shape_def tnodes.simps)
  have T': "set (tnodes T') = {0, 1, 2}" unfolding s'(4) asked by (auto simp: ex_shape_def tnodes.simps)
  have "set (tnodes ex_shape) - set (tnodes T') = {3, 4}" unfolding T' by (auto simp: ex_shape_def tnodes.simps)
  then show ?thesis using s'(1,2,3) T' by auto
qed

end
