(* ===== verification/Spec2Isabelle.thy ===== *)
theory Spec2Isabelle
  imports Mini_Gateway Mini_Store Mini_Equal Queue_Props Hash_Props Path_Props Session_Props
begin

text \<open>
  A verification development for BeShare's networking library MUSCLE
  (\<^verbatim>\<open>src/source/muscle\<close>). BeShare is a file-sharing client; the client, the server and the
  chat robot exchange typed messages, which are trees of named fields, over byte streams. The
  development models the parts of MUSCLE that this rests on and that are free of
  operating-system calls.

  \<^bold>\<open>MiniMessage\<close> (\<^verbatim>\<open>minimessage/MiniMessage.c\<close>), the C implementation of the messages.
  Mini_Types: type codes, fields and messages as the tree of what owns what, allocation.
  Mini_Message: look-up, put, get, rename, remove. Mini_Fields and Mini_Put: what
  these do to the finite map from names to fields, on every branch. Mini_Flatten and
  Mini_Unflatten: the wire format, written and parsed, with its 32-bit offsets, for
  hosts of either byte order. Mini_Flatten_Proof and Mini_Codec: the encoder writes exactly the
  specified encoding, and parsing gives the message back; inputs that defeat the parser. Mini_Clone:
  deep copies and their roll-back. Mini_Equal: comparison. Mini_Store: the doubly linked
  list of fields in a store of nodes, with a refinement to the list, and the two operations
  that move and copy a field between messages.

  \<^bold>\<open>MiniMessageGateway\<close> (\<^verbatim>\<open>minimessage/MiniMessageGateway.c\<close>), in Mini_Gateway: the framing state
  machine over callbacks that send and receive some of the bytes asked for.

  \<^bold>\<open>Queue\<close> (\<^verbatim>\<open>util/Queue.h\<close>), the double-ended queue of the C++ classes. Queue_Model, Queue_More and
  Queue_Sort: the object (a ring buffer in an inner array or on the heap) and all its
  operations. Queue_Ring, Queue_Grow, Queue_Bulk, Queue_Search, Queue_Swap: the invariant
  \<open>queue_ok\<close>, the abstraction \<open>items\<close> to a list, and each operation as a function on that list.
  Queue_Rotate, Queue_Sort_Proof, Queue_Merge_Proof: the rotation, the binary searches and the
  in-place stable merge sort. Queue_Props: the contract of a deque as a locale with the queue as
  its instance, and the properties.

  \<^bold>\<open>Hashtable\<close> (\<^verbatim>\<open>util/Hashtable.h\<close>), the hash table with an order of iteration and iterators that survive
  changes. Hash_Model and Hash_More: one array of entries with the chains of the buckets, the
  permutation of bucket slots, the free list and the iteration list, pointers being indices; put, grow, remove,
  clear, move, sort, compare, copy, and registered iterators. Hash_Chain: doubly linked
  lists in an array. Hash_Inv: the invariant \<open>table_ok\<close> and looking up. Hash_Iter, Hash_Bucket,
  Hash_Release: what each step does to the iteration list, to the buckets and to the free list.
  Hash_Ops, Hash_Remove, Hash_Insert, Hash_Grow, Hash_Resize, Hash_Put: the operations as
  functions on the list of items \<open>contents\<close> and on the positions \<open>iter_views\<close> of the iterators. Hash_Prime:
  trial division in 32 bits. Hash_Contract: the contract as a locale with the table as its instance. Hash_Props:
  the properties. Their side conditions: a comparison function for keys tells equal keys by 0, the order of a
  self-sorting table is a total preorder, the table is not sorted by value while values are replaced, and a prime is
  known to which it may grow (\<open>prime_bound\<close>, so that \<open>NextPrime\<close> ends).

  \<^bold>\<open>StringMatcher\<close> (\<^verbatim>\<open>regex/StringMatcher.cpp\<close>), in Match_Model: wildcard patterns, translated into regular
  expressions, and ranges of integers. Match_Props: the meaning of a wildcard pattern, the documented
  behaviour of the regular-expression library (a parameter, with an instance), and that the matcher implements
  the meaning.

  \<^bold>\<open>PathMatcher\<close> (\<^verbatim>\<open>regex/PathMatcher.cpp\<close>), in Path_Model: tables of paths with wildcards, a matcher for each
  clause, and perhaps a query filter. Path_Props: what a path put into a matcher makes it accept, over paths as lists of
  clauses.

  \<^bold>\<open>DataNode\<close> and the subscriptions of \<^bold>\<open>StorageReflectSession\<close>
  (\<^verbatim>\<open>reflector/DataNode.cpp\<close>, \<^verbatim>\<open>reflector/StorageReflectSession.cpp\<close>), the server's database: a tree of
  named nodes with payloads, whose changes are reported to the sessions that subscribed to them by wildcard paths. Node_Model:
  the store of nodes, the sessions and the shared state. Node_Notify: which subscriptions match a
  node, the marks put on a new node, the messages prepared and pushed. Node_Ops: the operations of a node, each with the
  notifications it causes. Node_Calm: notifications leave the tree alone and return. Node_Path: the path of a node.
  Node_Tree: \<open>shaped\<close>, the nodes form the tree \<open>T\<close>. Node_Remove, Node_Place, Node_Grow, Node_Insert: removal of a
  subtree and insertion of a node as changes of \<open>T\<close>. Node_Session: what a session does with the tree, nodes set and
  found by path, the traversal that calls back for each node that a path matcher accepts, and the commands built on it. Node_Set:
  setting a node as a change of \<open>T\<close>. Node_Walk and Node_Found: the nodes a traversal calls back for, whether it looks
  children up by name or iterates over them; a locale states what it expects of a callback, with the callbacks for
  subscribing and for removing as its instances. Node_Marks: a new entry of a matcher and the marks that count the
  subscriptions. Node_Erase: removal of all nodes that a path matches. Node_Props and Session_Props: the properties. Their side conditions: memory is granted
  and every session collects at least two items per message (\<open>steady\<close>; otherwise the server crashes), less than
  \<open>2\<^sup>3\<^sup>1\<close> nodes, and names of indexed nodes of at most 80 characters (longer ones overflow a buffer).

  \<^bold>\<open>Conventions\<close> (Muscle_Prelude). A run of C code is \<open>Ret x\<close>, \<open>Fault\<close> (an access out of
  bounds, a failed assertion, a signed overflow or a division by zero) or \<open>NoFuel\<close>. Loops without a structural bound
  take fuel; each theorem that such code returns says how much is enough: the item count plus
  one for the loops of the queue and for the depth of \<open>Sort\<close>, the length of the range for
  \<open>Merge\<close>, the length of the input plus one for the parser, the slot count plus one for the loops of the
  hash table, a depth of three for \<open>PutAux\<close>, two rounds for \<open>NodeChangedAux\<close>, twice the number of nodes removed for
  \<open>RemoveChild\<close>, one more than the number of children for the search of an unused name, one more than the most clauses of an
  entry for \<open>DoTraversal\<close>. Allocation is a parameter that
  may fail; for the queue it never gives more than \<open>2\<^sup>3\<^sup>0\<close> slots, so that indices fit an \<open>int\<close>.
  Machine integers are words.

  \<^bold>\<open>Where the definitions depart from the code\<close>. The running totals of \<open>MGDoOutput\<close> and \<open>MGDoInput\<close>, \<open>int32\<close> in C,
  wrap around where C leaves their overflow undefined. A fresh slot of the hash table holds the default key and
  value, which the C++ class leaves uninitialised for arithmetic types. The small allocations of the C++ strings and of the
  tokenizer in \<open>MatchesPath\<close> succeed, and the length of a node's path is a
  natural number, where the code has a \<open>uint32\<close>. A query filter sees the message of a node but not the node, which no filter in
  the repository does more with than pass it on. Some definitions belong to the specification and stand for no code:
  \<open>put_field\<close>, the effect of a \<open>Put\<close> on the list of fields; \<open>run_put\<close>, which names the \<open>Put\<close> functions for a
  statement about all of them; \<open>has_room\<close>, when a queue can take one more item.

  \<^bold>\<open>Not modelled\<close>: printing, the C++ string, message and gateway classes (counterparts of the C code above), query
  filters (a parameter), the rest of the command interpreter of the server's sessions (routing, parameters, privileges, getting,
  saving and restoring subtrees, connecting and leaving), reference counts and object pools; sockets,
  threads, the graphical client and the chat robot (operating-system and toolkit glue); zlib and the regular-expression library
  (third-party code).
\<close>

end
